(* ===== verification/Prelude.thy ===== *)
theory Prelude
  imports Main "HOL-Library.Word"
begin

text \<open>
  Shared vocabulary of the development: the machine types of \<open>objectscript.h\<close>, collections of
  rewrite rules, generic facts on lists and on words, and the relational abstraction of the
  intrusive singly linked lists (\<open>hash_next\<close>, \<open>hash_next_ref\<close>, \<dots>) that the run-time uses
  everywhere.  A pointer field of a C++ class is a map from addresses to optional addresses,
  \<open>NULL\<close> being \<open>None\<close>, so that updating one field of one object is a function update and
  leaves the other fields alone.
\<close>

unbundle bit_operations_syntax

named_theorems chain_simps
named_theorems word_rules

type_synonym u8 = "8 word"
type_synonym u16 = "16 word"
type_synonym u32 = "32 word"
type_synonym u64 = "64 word"
type_synonym bytes = "u8 list"

type_synonym addr = nat
type_synonym link = "addr option"
type_synonym links = "addr \<Rightarrow> link"

section \<open>Lists\<close>

lemma nth_append_take_drop:
  assumes "i < length xs"
  shows "take i xs @ xs ! i # drop (Suc i) xs = xs"
  using assms by (simp add: id_take_nth_drop [symmetric])

lemma distinct_concat_nth_disjoint:
  assumes "distinct (concat xss)" "i < length xss" "j < length xss" "i \<noteq> j"
  shows "set (xss ! i) \<inter> set (xss ! j) = {}"
proof -
  have "\<lbrakk>distinct (concat xss); i < j; j < length xss\<rbrakk> \<Longrightarrow> set (xss ! i) \<inter> set (xss ! j) = {}" for i j
  proof (induction xss arbitrary: i j)
    case Nil
    then show ?case by simp
  next
    case (Cons xs xss)
    show ?case
    proof (cases i)
      case 0
      with Cons.prems obtain k where "j = Suc k" "k < length xss" by (cases j) auto
      with 0 Cons.prems(1) show ?thesis by fastforce
    next
      case (Suc k)
      with Cons.prems obtain l where "j = Suc l" "k < l" "l < length xss" by (cases j) auto
      with Suc Cons show ?thesis by simp
    qed
  qed
  from this [of i j] this [of j i] assms show ?thesis by (cases "i < j") auto
qed

lemma distinct_concatI:
  assumes "\<And>i. i < length xss \<Longrightarrow> distinct (xss ! i)"
    and "\<And>i j. i < length xss \<Longrightarrow> j < length xss \<Longrightarrow> i \<noteq> j \<Longrightarrow> set (xss ! i) \<inter> set (xss ! j) = {}"
  shows "distinct (concat xss)"
  using assms
proof (induction xss)
  case Nil
  then show ?case by simp
next
  case (Cons xs xss)
  have "distinct xs" using Cons.prems(1) [of 0] by simp
  moreover have "distinct (concat xss)"
  proof (rule Cons.IH)
    show "distinct (xss ! i)" if "i < length xss" for i
      using Cons.prems(1) [of "Suc i"] that by simp
    show "set (xss ! i) \<inter> set (xss ! j) = {}" if "i < length xss" "j < length xss" "i \<noteq> j" for i j
      using Cons.prems(2) [of "Suc i" "Suc j"] that by simp
  qed
  moreover have "set xs \<inter> set (xss ! i) = {}" if "i < length xss" for i
    using Cons.prems(2) [of 0 "Suc i"] that by simp
  then have "set xs \<inter> set (concat xss) = {}" by (fastforce simp: in_set_conv_nth)
  ultimately show ?case by simp
qed

lemma in_concat_nth: "x \<in> set (concat xss) \<longleftrightarrow> (\<exists>i < length xss. x \<in> set (xss ! i))"
  by (metis (no_types, lifting) UN_iff in_set_conv_nth set_concat)

lemma set_concat_nth: "set (concat xss) = (\<Union>i<length xss. set (xss ! i))"
  by (auto simp: in_concat_nth simp del: set_concat)

lemma set_concat_update:
  assumes "i < length xss"
  shows "set (concat (xss[i := ys])) = (\<Union>j \<in> {..<length xss} - {i}. set (xss ! j)) \<union> set ys"
proof -
  have "set (concat (xss[i := ys])) = (\<Union>j<length xss. set (xss[i := ys] ! j))"
    by (auto simp: in_concat_nth simp del: set_concat)
  also have "\<dots> = (\<Union>j \<in> {..<length xss} - {i}. set (xss ! j)) \<union> set ys"
    using assms by (auto simp: nth_list_update split: if_splits)
  finally show ?thesis .
qed

lemma length_concat_update:
  assumes "i < length xss"
  shows "length (concat (xss[i := ys])) + length (xss ! i) = length (concat xss) + length ys"
  using assms
proof (induction xss arbitrary: i)
  case Nil
  then show ?case by simp
next
  case (Cons xs xss)
  show ?case
  proof (cases i)
    case 0
    then show ?thesis by simp
  next
    case (Suc k)
    with Cons show ?thesis by fastforce
  qed
qed

section \<open>Words\<close>

lemma unat_and_le_left [word_rules]: "unat (x AND y) \<le> unat (x :: 'a::len word)"
  by (metis word_and_le2 word_le_nat_alt)

lemma unat_and_le_right [word_rules]: "unat (x AND y) \<le> unat (y :: 'a::len word)"
  by (metis and.commute unat_and_le_left)

lemma unat_and_of_nat_le [word_rules]: "unat (x AND of_nat n :: 'a::len word) \<le> n"
  by (metis dual_order.trans unat_and_le_right unat_of_nat mod_less_eq_dividend)

section \<open>Linked chains through a field\<close>

text \<open>\<open>chain nxt p xs\<close>: following \<open>nxt\<close> from \<open>p\<close> visits exactly the nodes \<open>xs\<close>, then \<open>NULL\<close>.\<close>

primrec chain :: "links \<Rightarrow> link \<Rightarrow> addr list \<Rightarrow> bool" where
  "chain nxt p [] \<longleftrightarrow> p = None"
| "chain nxt p (x # xs) \<longleftrightarrow> p = Some x \<and> chain nxt (nxt x) xs"

lemma chain_None [chain_simps, simp]: "chain nxt None xs \<longleftrightarrow> xs = []"
  by (cases xs) auto

lemma chain_Some [chain_simps]:
  "chain nxt (Some a) xs \<longleftrightarrow> (\<exists>ys. xs = a # ys \<and> chain nxt (nxt a) ys)"
  by (cases xs) auto

lemma chain_upd_notin [chain_simps, simp]:
  "a \<notin> set xs \<Longrightarrow> chain (nxt(a := q)) p xs \<longleftrightarrow> chain nxt p xs"
  by (induction xs arbitrary: p) auto

lemma chain_cong: "(\<And>x. x \<in> set xs \<Longrightarrow> nxt x = nxt' x) \<Longrightarrow> chain nxt p xs \<longleftrightarrow> chain nxt' p xs"
  by (induction xs arbitrary: p) auto

lemma chain_unique: "chain nxt p xs \<Longrightarrow> chain nxt p ys \<Longrightarrow> xs = ys"
  by (induction xs arbitrary: p ys) (auto simp: chain_simps)

lemma chain_suffix: "chain nxt p (xs @ a # ys) \<Longrightarrow> chain nxt (nxt a) ys"
  by (induction xs arbitrary: p) auto

lemma chain_distinct: "chain nxt p xs \<Longrightarrow> distinct xs"
proof (induction xs arbitrary: p)
  case Nil
  then show ?case by simp
next
  case (Cons x xs)
  have "x \<notin> set xs"
  proof
    assume "x \<in> set xs"
    then obtain us vs where xs: "xs = us @ x # vs" by (meson split_list)
    from Cons.prems have c: "chain nxt (nxt x) xs" by simp
    then have "chain nxt (nxt x) vs" unfolding xs by (rule chain_suffix)
    with c have "vs = xs" by (rule chain_unique [symmetric])
    with xs show False by simp
  qed
  with Cons show ?case by auto
qed

text \<open>Unlinking the node after \<open>x\<close>, and adding a node in front.\<close>

lemma chain_unlink:
  assumes "chain nxt p (us @ x # a # vs)"
  shows "chain (nxt(x := nxt a)) p (us @ x # vs)"
  using assms
proof (induction us arbitrary: p)
  case Nil
  then have "distinct (x # a # vs)" by (metis append_Nil chain_distinct)
  then have "chain (nxt(x := nxt a)) (nxt a) vs = chain nxt (nxt a) vs"
    by (intro chain_upd_notin) simp
  with Nil show ?case by (simp add: fun_upd_def)
next
  case (Cons u us)
  then have "distinct ((u # us) @ x # a # vs)" by (blast dest: chain_distinct)
  with Cons show ?case by auto
qed

lemma chain_push: "chain nxt p xs \<Longrightarrow> a \<notin> set xs \<Longrightarrow> chain (nxt(a := p)) (Some a) (a # xs)"
  by simp

end
