(* ===== verification/Instr.thy ===== *)
theory Instr
  imports Prelude
begin

text \<open>
  The virtual machine's 32-bit instruction word (\<open>objectscript.cpp\<close>, the branch without
  \<open>OS_USE_OPCODE_VV\<close>): opcode type in bits 0..5, \<open>A\<close> in 6..13, \<open>C\<close> in 14..21 with its constant
  flag in bit 22, \<open>B\<close> in 23..30 with its constant flag in bit 31; \<open>Bx\<close> is the 18 bits from 14.
  The macros are modelled on the unsigned word, as the type \<open>Instruction\<close> is \<open>OS_U32\<close>; operands
  are C \<open>int\<close>s, given here as integers.  On top of the encoding stand the emitter functions of
  the compiler (\<open>writeOpcode\<close>, \<open>writeOpcodeABC\<close>, \<open>writeJumpOpcode\<close>, \<open>fixJumpOpcode\<close>,
  \<open>fixLoopBreaks\<close>), the fusion of two moves into one instruction, and the steps of the
  interpreter loop that read these instructions back.
\<close>

section \<open>Opcode types\<close>

text \<open>The enumeration without the two tail-call opcodes, whose macro is never defined.\<close>

datatype OpcodeType =
    OP_NEW_FUNCTION | OP_NEW_ARRAY | OP_NEW_OBJECT | OP_RETURN
  | OP_JUMP | OP_MULTI | OP_MOVE | OP_MOVE2
  | OP_GET_XCONST | OP_SUPER_CALL | OP_CALL | OP_CALL_METHOD
  | OP_INIT_ITER | OP_GET_PROPERTY | OP_SET_PROPERTY | OP_INIT_PROPERTY
  | OP_GET_UPVALUE | OP_SET_UPVALUE | OP_LOGIC_PTR_EQ | OP_LOGIC_EQ
  | OP_LOGIC_GREATER | OP_LOGIC_GE | OP_LOGIC_BOOL | OP_BIT_AND
  | OP_BIT_OR | OP_BIT_XOR | OP_COMPARE | OP_ADD
  | OP_SUB | OP_MUL | OP_DIV | OP_MOD
  | OP_LSHIFT | OP_RSHIFT | OP_POW | OP_BIT_NOT
  | OP_PLUS | OP_MINUS | OP_NUMBER_LOGIC_EQ | OP_NUMBER_LOGIC_GREATER
  | OP_NUMBER_LOGIC_GE | OP_NUMBER_BIT_AND | OP_NUMBER_BIT_OR | OP_NUMBER_BIT_XOR
  | OP_NUMBER_ADD | OP_NUMBER_SUB | OP_NUMBER_MUL | OP_NUMBER_DIV
  | OP_NUMBER_MOD | OP_NUMBER_LSHIFT | OP_NUMBER_RSHIFT | OP_NUMBER_POW
  | OP_NUMBER_ADD_LC | OP_NUMBER_SUB_LC | OP_NUMBER_ADD_LL | OP_NUMBER_SUB_LL

fun opcode_index :: "OpcodeType \<Rightarrow> nat" where
  "opcode_index OP_NEW_FUNCTION = 0"
| "opcode_index OP_NEW_ARRAY = 1"
| "opcode_index OP_NEW_OBJECT = 2"
| "opcode_index OP_RETURN = 3"
| "opcode_index OP_JUMP = 4"
| "opcode_index OP_MULTI = 5"
| "opcode_index OP_MOVE = 6"
| "opcode_index OP_MOVE2 = 7"
| "opcode_index OP_GET_XCONST = 8"
| "opcode_index OP_SUPER_CALL = 9"
| "opcode_index OP_CALL = 10"
| "opcode_index OP_CALL_METHOD = 11"
| "opcode_index OP_INIT_ITER = 12"
| "opcode_index OP_GET_PROPERTY = 13"
| "opcode_index OP_SET_PROPERTY = 14"
| "opcode_index OP_INIT_PROPERTY = 15"
| "opcode_index OP_GET_UPVALUE = 16"
| "opcode_index OP_SET_UPVALUE = 17"
| "opcode_index OP_LOGIC_PTR_EQ = 18"
| "opcode_index OP_LOGIC_EQ = 19"
| "opcode_index OP_LOGIC_GREATER = 20"
| "opcode_index OP_LOGIC_GE = 21"
| "opcode_index OP_LOGIC_BOOL = 22"
| "opcode_index OP_BIT_AND = 23"
| "opcode_index OP_BIT_OR = 24"
| "opcode_index OP_BIT_XOR = 25"
| "opcode_index OP_COMPARE = 26"
| "opcode_index OP_ADD = 27"
| "opcode_index OP_SUB = 28"
| "opcode_index OP_MUL = 29"
| "opcode_index OP_DIV = 30"
| "opcode_index OP_MOD = 31"
| "opcode_index OP_LSHIFT = 32"
| "opcode_index OP_RSHIFT = 33"
| "opcode_index OP_POW = 34"
| "opcode_index OP_BIT_NOT = 35"
| "opcode_index OP_PLUS = 36"
| "opcode_index OP_MINUS = 37"
| "opcode_index OP_NUMBER_LOGIC_EQ = 38"
| "opcode_index OP_NUMBER_LOGIC_GREATER = 39"
| "opcode_index OP_NUMBER_LOGIC_GE = 40"
| "opcode_index OP_NUMBER_BIT_AND = 41"
| "opcode_index OP_NUMBER_BIT_OR = 42"
| "opcode_index OP_NUMBER_BIT_XOR = 43"
| "opcode_index OP_NUMBER_ADD = 44"
| "opcode_index OP_NUMBER_SUB = 45"
| "opcode_index OP_NUMBER_MUL = 46"
| "opcode_index OP_NUMBER_DIV = 47"
| "opcode_index OP_NUMBER_MOD = 48"
| "opcode_index OP_NUMBER_LSHIFT = 49"
| "opcode_index OP_NUMBER_RSHIFT = 50"
| "opcode_index OP_NUMBER_POW = 51"
| "opcode_index OP_NUMBER_ADD_LC = 52"
| "opcode_index OP_NUMBER_SUB_LC = 53"
| "opcode_index OP_NUMBER_ADD_LL = 54"
| "opcode_index OP_NUMBER_SUB_LL = 55"

definition OPCODE_COUNT :: nat where
  "OPCODE_COUNT = 56"

lemma opcode_index_less: "opcode_index p < OPCODE_COUNT"
  by (cases p) (simp_all add: OPCODE_COUNT_def)

lemma opcode_index_less_64: "opcode_index p < 64"
  using opcode_index_less [of p] by (simp add: OPCODE_COUNT_def)

lemma opcode_index_inj: "opcode_index p = opcode_index q \<Longrightarrow> p = q"
  by (cases p; (cases q; simp))

section \<open>Field accessors\<close>

definition OS_SIZE_OP :: nat where "OS_SIZE_OP = 6"
definition OS_SIZE_A :: nat where "OS_SIZE_A = 8"
definition OS_SIZE_B :: nat where "OS_SIZE_B = 9"
definition OS_SIZE_C :: nat where "OS_SIZE_C = 9"
definition OS_SIZE_Bx :: nat where "OS_SIZE_Bx = OS_SIZE_C + OS_SIZE_B"
definition OS_POS_OP :: nat where "OS_POS_OP = 0"
definition OS_POS_A :: nat where "OS_POS_A = OS_POS_OP + OS_SIZE_OP"
definition OS_POS_C :: nat where "OS_POS_C = OS_POS_A + OS_SIZE_A"
definition OS_POS_B :: nat where "OS_POS_B = OS_POS_C + OS_SIZE_C"
definition OS_POS_Bx :: nat where "OS_POS_Bx = OS_POS_C"

definition OS_MAXARG_A :: int where "OS_MAXARG_A = 2 ^ OS_SIZE_A - 1"
definition OS_MAXARG_B :: int where "OS_MAXARG_B = 2 ^ (OS_SIZE_B - 1) - 1"
definition OS_MAXARG_C :: int where "OS_MAXARG_C = 2 ^ (OS_SIZE_C - 1) - 1"
definition OS_MAXARG_Bx :: int where "OS_MAXARG_Bx = 2 ^ OS_SIZE_Bx - 1"
definition OS_MAXARG_sBx :: int where "OS_MAXARG_sBx = OS_MAXARG_Bx div 2"

definition OS_OPCODE_CONST_B :: u32 where
  "OS_OPCODE_CONST_B = push_bit (OS_POS_B + OS_SIZE_B - 1) 1"

definition OS_OPCODE_CONST_C :: u32 where
  "OS_OPCODE_CONST_C = push_bit (OS_POS_C + OS_SIZE_C - 1) 1"

lemmas layout_defs = OS_SIZE_OP_def OS_SIZE_A_def OS_SIZE_B_def OS_SIZE_C_def OS_SIZE_Bx_def
  OS_POS_OP_def OS_POS_A_def OS_POS_C_def OS_POS_B_def OS_POS_Bx_def

lemmas maxarg_defs = OS_MAXARG_A_def OS_MAXARG_B_def OS_MAXARG_C_def OS_MAXARG_Bx_def
  OS_MAXARG_sBx_def

definition OS_MASK1 :: "nat \<Rightarrow> nat \<Rightarrow> u32" where
  "OS_MASK1 n p = push_bit p (NOT (push_bit n (NOT 0)))"

definition OS_MASK0 :: "nat \<Rightarrow> nat \<Rightarrow> u32" where
  "OS_MASK0 n p = NOT (OS_MASK1 n p)"

definition getarg :: "u32 \<Rightarrow> nat \<Rightarrow> nat \<Rightarrow> u32" where
  "getarg i pos sz = drop_bit pos i AND OS_MASK1 sz 0"

definition setarg :: "u32 \<Rightarrow> u32 \<Rightarrow> nat \<Rightarrow> nat \<Rightarrow> u32" where
  "setarg i v pos sz = (i AND OS_MASK0 sz pos) OR (push_bit pos v AND OS_MASK1 sz pos)"

definition OS_GET_OPCODE_TYPE :: "u32 \<Rightarrow> u32" where
  "OS_GET_OPCODE_TYPE i = getarg i OS_POS_OP OS_SIZE_OP"

definition OS_GETARG_A :: "u32 \<Rightarrow> nat" where
  "OS_GETARG_A i = unat (getarg i OS_POS_A OS_SIZE_A)"

definition OS_SETARG_A :: "u32 \<Rightarrow> int \<Rightarrow> u32" where
  "OS_SETARG_A i v = setarg i (word_of_int v) OS_POS_A OS_SIZE_A"

definition OS_GETARG_B :: "u32 \<Rightarrow> nat" where
  "OS_GETARG_B i = unat (getarg i OS_POS_B (OS_SIZE_B - 1))"

definition OS_SETARG_B :: "u32 \<Rightarrow> int \<Rightarrow> u32" where
  "OS_SETARG_B i v = setarg i (word_of_int v) OS_POS_B (OS_SIZE_B - 1)"

definition OS_GETARG_C :: "u32 \<Rightarrow> nat" where
  "OS_GETARG_C i = unat (getarg i OS_POS_C (OS_SIZE_C - 1))"

definition OS_SETARG_C :: "u32 \<Rightarrow> int \<Rightarrow> u32" where
  "OS_SETARG_C i v = setarg i (word_of_int v) OS_POS_C (OS_SIZE_C - 1)"

definition OS_GETARG_Bx :: "u32 \<Rightarrow> nat" where
  "OS_GETARG_Bx i = unat (getarg i OS_POS_Bx OS_SIZE_Bx)"

definition OS_SETARG_Bx :: "u32 \<Rightarrow> int \<Rightarrow> u32" where
  "OS_SETARG_Bx i v = setarg i (word_of_int v) OS_POS_Bx OS_SIZE_Bx"

definition OS_GETARG_sBx :: "u32 \<Rightarrow> int" where
  "OS_GETARG_sBx i = int (OS_GETARG_Bx i) - OS_MAXARG_sBx"

definition OS_SETARG_sBx :: "u32 \<Rightarrow> int \<Rightarrow> u32" where
  "OS_SETARG_sBx i b = OS_SETARG_Bx i (b + OS_MAXARG_sBx)"

definition OS_OPCODE_ABC :: "u32 \<Rightarrow> int \<Rightarrow> int \<Rightarrow> int \<Rightarrow> u32" where
  "OS_OPCODE_ABC opc a b c =
     push_bit OS_POS_OP opc OR push_bit OS_POS_A (word_of_int a)
       OR push_bit OS_POS_B (word_of_int b) OR push_bit OS_POS_C (word_of_int c)"

definition OS_OPCODE_ABx :: "u32 \<Rightarrow> int \<Rightarrow> int \<Rightarrow> u32" where
  "OS_OPCODE_ABx opc a bx =
     push_bit OS_POS_OP opc OR push_bit OS_POS_A (word_of_int a)
       OR push_bit OS_POS_Bx (word_of_int bx)"

subsection \<open>Bits of the fields\<close>

lemma bit_OS_MASK1 [word_rules]:
  "bit (OS_MASK1 n p) k \<longleftrightarrow> k < 32 \<and> p \<le> k \<and> k < p + n"
  by (auto simp: OS_MASK1_def bit_simps)

lemma bit_getarg [word_rules]:
  "bit (getarg i pos sz) k \<longleftrightarrow> k < sz \<and> bit i (pos + k)"
  by (auto simp: getarg_def bit_OS_MASK1 bit_simps dest: bit_imp_le_length)

lemma bit_setarg [word_rules]:
  "bit (setarg i v pos sz) k \<longleftrightarrow>
     (if pos \<le> k \<and> k < pos + sz then k < 32 \<and> bit v (k - pos) else bit i k)"
  by (auto simp: setarg_def OS_MASK0_def bit_OS_MASK1 bit_simps dest: bit_imp_le_length)

lemma bit_bounded_int:
  assumes "0 \<le> v" "v < 2 ^ n" "n \<le> k"
  shows "\<not> bit (v :: int) k"
proof -
  from assms have "take_bit n v = v" by (simp add: take_bit_int_eq_self)
  with assms(3) show ?thesis by (metis bit_take_bit_iff leD)
qed

lemma bit_word_of_bounded_int:
  assumes "0 \<le> v" "v < 2 ^ n" "n \<le> k"
  shows "\<not> bit (word_of_int v :: u32) k"
  using bit_bounded_int [OF assms] by (simp add: bit_simps)

lemma getarg_eq_take_bit:
  "pos + sz \<le> 32 \<Longrightarrow> getarg i pos sz = take_bit sz (drop_bit pos i)"
  by (intro bit_word_eqI) (auto simp: bit_getarg bit_simps add.commute)

lemma getarg_setarg_same:
  assumes "pos + sz \<le> 32"
  shows "getarg (setarg i v pos sz) pos sz = take_bit sz v"
  using assms by (intro bit_word_eqI) (auto simp: bit_getarg bit_setarg bit_simps)

lemma getarg_setarg_other:
  assumes "pos + sz \<le> pos' \<or> pos' + sz' \<le> pos"
  shows "getarg (setarg i v pos sz) pos' sz' = getarg i pos' sz'"
  using assms by (intro bit_word_eqI) (auto simp: bit_getarg bit_setarg)

lemma unat_take_bit_word_of_int:
  assumes "n \<le> 32"
  shows "int (unat (take_bit n (word_of_int v :: u32))) = v mod 2 ^ n"
proof -
  have "int (unat (take_bit n (word_of_int v :: u32))) = take_bit n (uint (word_of_int v :: u32))"
    by (metis uint_nat unsigned_take_bit_eq)
  also have "\<dots> = take_bit n v"
    using assms by (simp add: unsigned_of_int min_absorb1)
  finally show ?thesis by (simp add: take_bit_eq_mod)
qed

section \<open>Writing and reading one instruction\<close>

text \<open>
  \<open>writeOpcodeABC\<close>: a negative operand \<open>-1-k\<close> names the constant \<open>k\<close>, and is written as \<open>k\<close>
  with the operand's constant flag.  The compiler's instruction vector is a list; the emitters
  return it with the position of the new instruction.
\<close>

definition instr_ABC :: "OpcodeType \<Rightarrow> int \<Rightarrow> int \<Rightarrow> int \<Rightarrow> u32" where
  "instr_ABC p a b c =
     (let opcode = of_nat (opcode_index p);
          (b, opcode) = (if b < 0 then (-1 - b, opcode OR OS_OPCODE_CONST_B) else (b, opcode));
          (c, opcode) = (if c < 0 then (-1 - c, opcode OR OS_OPCODE_CONST_C) else (c, opcode))
      in OS_OPCODE_ABC opcode a b c)"

definition writeOpcode :: "u32 list \<Rightarrow> u32 \<Rightarrow> u32 list \<times> nat" where
  "writeOpcode prog opcode = (prog @ [opcode], length prog)"

definition writeOpcodeType :: "u32 list \<Rightarrow> OpcodeType \<Rightarrow> u32 list \<times> nat" where
  "writeOpcodeType prog p = writeOpcode prog (of_nat (opcode_index p))"

definition writeOpcodeABC ::
  "u32 list \<Rightarrow> OpcodeType \<Rightarrow> int \<Rightarrow> int \<Rightarrow> int \<Rightarrow> u32 list \<times> nat" where
  "writeOpcodeABC prog p a b c = writeOpcode prog (instr_ABC p a b c)"

definition writeOpcodeABx :: "u32 list \<Rightarrow> OpcodeType \<Rightarrow> int \<Rightarrow> int \<Rightarrow> u32 list \<times> nat" where
  "writeOpcodeABx prog p a b = writeOpcode prog (OS_OPCODE_ABx (of_nat (opcode_index p)) a b)"

definition writeOpcodeAt :: "u32 list \<Rightarrow> u32 \<Rightarrow> nat \<Rightarrow> u32 list" where
  "writeOpcodeAt prog opcode pos = prog[pos := opcode]"

definition writeJumpOpcode :: "u32 list \<Rightarrow> int \<Rightarrow> u32 list" where
  "writeJumpOpcode prog offs =
     fst (writeOpcode prog (OS_SETARG_sBx (of_nat (opcode_index OP_JUMP)) (offs + 1)))"

definition fixJumpOpcode :: "u32 list \<Rightarrow> int \<Rightarrow> nat \<Rightarrow> u32 list" where
  "fixJumpOpcode prog offs pos = prog[pos := OS_SETARG_sBx (prog ! pos) offs]"

text \<open>What an operand in range denotes: a local slot or a constant of the program.\<close>

definition operand_index :: "int \<Rightarrow> nat" where
  "operand_index b = nat (if b < 0 then -1 - b else b)"

lemma bit_opcode_word:
  "bit (of_nat (opcode_index p) :: u32) k \<Longrightarrow> k < 6"
proof (rule ccontr)
  assume "bit (of_nat (opcode_index p) :: u32) k" "\<not> k < 6"
  moreover have "int (opcode_index p) < 2 ^ 6" using opcode_index_less_64 [of p] by simp
  ultimately show False
    using bit_word_of_bounded_int [of "int (opcode_index p)" 6 k] by simp
qed

lemma getarg_operand:
  assumes "pos + n \<le> 32" "0 \<le> v" "v < 2 ^ n"
    and "\<And>k. k < n \<Longrightarrow> bit i (pos + k) \<longleftrightarrow> bit (word_of_int v :: u32) k"
  shows "unat (getarg i pos n) = nat v"
proof -
  have "getarg i pos n = take_bit n (word_of_int v)"
    using assms(1,4) by (intro bit_word_eqI) (auto simp: bit_getarg bit_simps)
  moreover have "int (unat (take_bit n (word_of_int v :: u32))) = v"
    using assms by (subst unat_take_bit_word_of_int) auto
  ultimately show ?thesis by (metis nat_int)
qed

definition operands_in_range :: "int \<Rightarrow> int \<Rightarrow> int \<Rightarrow> bool" where
  "operands_in_range a b c \<longleftrightarrow> 0 \<le> a \<and> a \<le> OS_MAXARG_A
     \<and> -1 - OS_MAXARG_B \<le> b \<and> b \<le> OS_MAXARG_B \<and> -1 - OS_MAXARG_C \<le> c \<and> c \<le> OS_MAXARG_C"

lemma operands_in_range_bounds:
  assumes "operands_in_range a b c"
  shows "0 \<le> a" "a < 256" "operand_index b < 256" "operand_index c < 256"
  using assms by (auto simp: operands_in_range_def maxarg_defs layout_defs operand_index_def)

lemma instr_ABC_eq:
  "instr_ABC p a b c =
     of_nat (opcode_index p) OR (if b < 0 then push_bit 31 1 else 0) OR (if c < 0 then push_bit 22 1 else 0)
       OR push_bit 6 (word_of_int a) OR push_bit 23 (word_of_int (int (operand_index b)))
       OR push_bit 14 (word_of_int (int (operand_index c)))"
  by (cases "b < 0"; cases "c < 0")
    (simp_all add: instr_ABC_def operand_index_def OS_OPCODE_ABC_def OS_OPCODE_CONST_B_def
      OS_OPCODE_CONST_C_def layout_defs ac_simps)

lemma bit_flag: "bit (if P then push_bit n 1 else 0 :: u32) k \<longleftrightarrow> P \<and> k = n \<and> n < 32"
  by (auto simp: bit_simps)

lemma bit_shifted: "bit (push_bit n v :: u32) k \<longleftrightarrow> k < 32 \<and> n \<le> k \<and> bit v (k - n)"
  by (auto simp: bit_simps)

lemma bit_instr_ABC:
  assumes "operands_in_range a b c"
  shows "bit (instr_ABC p a b c) k \<longleftrightarrow>
    (if k < 6 then bit (of_nat (opcode_index p) :: u32) k
     else if k < 14 then bit (word_of_int a :: u32) (k - 6)
     else if k < 22 then bit (word_of_int (int (operand_index c)) :: u32) (k - 14)
     else if k = 22 then c < 0
     else if k < 31 then bit (word_of_int (int (operand_index b)) :: u32) (k - 23)
     else k = 31 \<and> b < 0)"
proof -
  note ranges = operands_in_range_bounds [OF assms]
  have small: "n < 8" if "0 \<le> v" "v < 256" "bit (word_of_int v :: u32) n" for v n
    using bit_word_of_bounded_int [of v 8 n] that by force
  have a: "bit (word_of_int a :: u32) n \<Longrightarrow> n < 8" for n
    using small ranges by blast
  have b: "bit (word_of_int (int (operand_index b)) :: u32) n \<Longrightarrow> n < 8" for n
    using small [of "int (operand_index b)" n] ranges by simp
  have c: "bit (word_of_int (int (operand_index c)) :: u32) n \<Longrightarrow> n < 8" for n
    using small [of "int (operand_index c)" n] ranges by simp
  have "bit (instr_ABC p a b c) k \<longleftrightarrow> k < 32 \<and>
      (bit (of_nat (opcode_index p) :: u32) k \<or> (b < 0 \<and> k = 31) \<or> (c < 0 \<and> k = 22)
       \<or> (6 \<le> k \<and> bit (word_of_int a :: u32) (k - 6))
       \<or> (23 \<le> k \<and> bit (word_of_int (int (operand_index b)) :: u32) (k - 23))
       \<or> (14 \<le> k \<and> bit (word_of_int (int (operand_index c)) :: u32) (k - 14)))"
    unfolding instr_ABC_eq bit_or_iff bit_flag bit_shifted
    by (auto dest: bit_imp_le_length)
  then show ?thesis
    using a [of "k - 6"] b [of "k - 23"] c [of "k - 14"] bit_opcode_word [of p k] by auto
qed

subsection \<open>Decoding what was encoded\<close>

lemma bit_CONST_B: "bit OS_OPCODE_CONST_B k \<longleftrightarrow> k = 31"
  unfolding OS_OPCODE_CONST_B_def layout_defs bit_shifted by (auto simp: bit_1_iff)

lemma bit_CONST_C: "bit OS_OPCODE_CONST_C k \<longleftrightarrow> k = 22"
  unfolding OS_OPCODE_CONST_C_def layout_defs bit_shifted by (auto simp: bit_1_iff)

lemma and_push_bit_1: "(i AND push_bit n 1 \<noteq> (0 :: u32)) \<longleftrightarrow> bit i n"
  by (metis and_exp_eq_0_iff_not_bit push_bit_of_1)

lemma and_CONST_B: "i AND OS_OPCODE_CONST_B \<noteq> 0 \<longleftrightarrow> bit i 31"
  unfolding OS_OPCODE_CONST_B_def and_push_bit_1 layout_defs by simp

lemma and_CONST_C: "i AND OS_OPCODE_CONST_C \<noteq> 0 \<longleftrightarrow> bit i 22"
  unfolding OS_OPCODE_CONST_C_def and_push_bit_1 layout_defs by simp

lemma opcode_type_instr_ABC:
  assumes "operands_in_range a b c"
  shows "OS_GET_OPCODE_TYPE (instr_ABC p a b c) = of_nat (opcode_index p)"
  unfolding OS_GET_OPCODE_TYPE_def layout_defs
  by (intro bit_word_eqI) (auto simp: bit_getarg bit_instr_ABC [OF assms] dest: bit_opcode_word)

lemma getarg_A_instr_ABC:
  assumes "operands_in_range a b c"
  shows "OS_GETARG_A (instr_ABC p a b c) = nat a"
  unfolding OS_GETARG_A_def layout_defs
  using operands_in_range_bounds [OF assms]
  by (intro getarg_operand) (auto simp: bit_instr_ABC [OF assms])

lemma getarg_B_instr_ABC:
  assumes "operands_in_range a b c"
  shows "OS_GETARG_B (instr_ABC p a b c) = operand_index b"
  unfolding OS_GETARG_B_def layout_defs
  using operands_in_range_bounds [OF assms]
  by (subst getarg_operand [where v = "int (operand_index b)"]) (auto simp: bit_instr_ABC [OF assms])

lemma getarg_C_instr_ABC:
  assumes "operands_in_range a b c"
  shows "OS_GETARG_C (instr_ABC p a b c) = operand_index c"
  unfolding OS_GETARG_C_def layout_defs
  using operands_in_range_bounds [OF assms]
  by (subst getarg_operand [where v = "int (operand_index c)"]) (auto simp: bit_instr_ABC [OF assms])

lemma flag_B_instr_ABC:
  "operands_in_range a b c \<Longrightarrow> instr_ABC p a b c AND OS_OPCODE_CONST_B \<noteq> 0 \<longleftrightarrow> b < 0"
  by (simp add: and_CONST_B bit_instr_ABC)

lemma flag_C_instr_ABC:
  "operands_in_range a b c \<Longrightarrow> instr_ABC p a b c AND OS_OPCODE_CONST_C \<noteq> 0 \<longleftrightarrow> c < 0"
  by (simp add: and_CONST_C bit_instr_ABC)

lemmas decode_ABC = opcode_type_instr_ABC getarg_A_instr_ABC getarg_B_instr_ABC
  getarg_C_instr_ABC flag_B_instr_ABC flag_C_instr_ABC

lemma getarg_Bx_setarg: "int (OS_GETARG_Bx (OS_SETARG_Bx i v)) = v mod 2 ^ 18"
  unfolding OS_GETARG_Bx_def OS_SETARG_Bx_def layout_defs
  using unat_take_bit_word_of_int [of 18 v] by (simp add: getarg_setarg_same)

lemma opcode_type_setarg_Bx: "OS_GET_OPCODE_TYPE (OS_SETARG_Bx i v) = OS_GET_OPCODE_TYPE i"
  unfolding OS_GET_OPCODE_TYPE_def OS_SETARG_Bx_def layout_defs
  by (simp add: getarg_setarg_other)

lemma opcode_type_setarg_sBx: "OS_GET_OPCODE_TYPE (OS_SETARG_sBx i v) = OS_GET_OPCODE_TYPE i"
  by (simp add: OS_SETARG_sBx_def opcode_type_setarg_Bx)

lemma sBx_mod: "OS_GETARG_sBx (OS_SETARG_sBx i b) = (b + 131071) mod 262144 - 131071"
  unfolding OS_GETARG_sBx_def OS_SETARG_sBx_def getarg_Bx_setarg
  by (simp add: maxarg_defs layout_defs)

lemma sBx_roundtrip:
  "-131071 \<le> b \<Longrightarrow> b \<le> 131072 \<Longrightarrow> OS_GETARG_sBx (OS_SETARG_sBx i b) = b"
  by (simp add: sBx_mod)

text \<open>
  What \<open>writeOpcodeABC\<close> encodes, the interpreter's macros decode.  For operands in the ranges
  that the code asserts, the six fields of the written word (opcode type, \<open>A\<close>, the slot or constant
  number of \<open>B\<close> and of \<open>C\<close>, and their constant flags, which tell the two apart) are the arguments.
\<close>

theorem writeOpcodeABC_decode:
  assumes "operands_in_range a b c"
  shows "let i = fst (writeOpcodeABC prog p a b c) ! snd (writeOpcodeABC prog p a b c) in
    OS_GET_OPCODE_TYPE i = of_nat (opcode_index p) \<and> OS_GETARG_A i = nat a
    \<and> OS_GETARG_B i = operand_index b \<and> (i AND OS_OPCODE_CONST_B \<noteq> 0 \<longleftrightarrow> b < 0)
    \<and> OS_GETARG_C i = operand_index c \<and> (i AND OS_OPCODE_CONST_C \<noteq> 0 \<longleftrightarrow> c < 0)"
  using decode_ABC [OF assms] by (simp add: writeOpcodeABC_def writeOpcode_def Let_def)

theorem writeOpcodeABC_decode_witness:
  "operands_in_range 7 (-3) 255 \<and> OS_GETARG_A (instr_ABC OP_ADD 7 (-3) 255) = 7
    \<and> OS_GETARG_B (instr_ABC OP_ADD 7 (-3) 255) = 2"
proof -
  have r: "operands_in_range 7 (-3) 255"
    by (simp add: operands_in_range_def maxarg_defs layout_defs)
  show ?thesis
    using writeOpcodeABC_decode [OF r, of "[]" OP_ADD] r
    by (simp add: writeOpcodeABC_def writeOpcode_def operand_index_def Let_def)
qed

text \<open>
  A signed jump distance survives encoding exactly when it fits 18 bits in excess notation;
  outside the range the distance is silently reduced modulo \<open>2^18\<close>, as no check guards it.
\<close>

theorem jump_distance_encoding:
  "OS_GETARG_sBx (OS_SETARG_sBx i b) = (b + 131071) mod 262144 - 131071
   \<and> (OS_GETARG_sBx (OS_SETARG_sBx i b) = b \<longleftrightarrow> -131071 \<le> b \<and> b \<le> 131072)"
proof -
  have "(b + 131071) mod 262144 - 131071 = b \<longleftrightarrow> -131071 \<le> b \<and> b \<le> 131072"
  proof
    assume eq: "(b + 131071) mod 262144 - 131071 = b"
    have "0 \<le> (b + 131071) mod 262144" "(b + 131071) mod 262144 < 262144" by simp_all
    with eq show "-131071 \<le> b \<and> b \<le> 131072" by linarith
  qed simp
  then show ?thesis by (simp add: sBx_mod)
qed

end
