(* ===== verification/Codegen.thy ===== *)
theory Codegen
  imports Instr
begin

text \<open>
  The emitters of the byte-code compiler that work on already written instructions: the fusion of
  two consecutive \<open>OP_MOVE\<close> into one \<open>OP_MOVE2\<close> (\<open>Compiler::writeOpcodes\<close> on a list), the
  patching of forward jumps (\<open>fixJumpOpcode\<close>, \<open>Scope::fixLoopBreaks\<close>), and the interpreter steps
  (\<open>Core::execute\<close>) that give the written words their meaning.
\<close>

section \<open>Moves\<close>

text \<open>
  The frame of a function: \<open>stack_func_locals\<close> and the constants \<open>stack_func_prog_values\<close>.  A slot
  outside the frame is undefined behaviour of the code, here \<open>None\<close>.
\<close>

definition nth_slot :: "'v list \<Rightarrow> nat \<Rightarrow> 'v option" where
  "nth_slot xs i = (if i < length xs then Some (xs ! i) else None)"

definition set_slot :: "'v list \<Rightarrow> nat \<Rightarrow> 'v \<Rightarrow> 'v list option" where
  "set_slot xs i v = (if i < length xs then Some (xs[i := v]) else None)"

definition OS_GETARG_B_VALUE :: "'v list \<Rightarrow> 'v list \<Rightarrow> u32 \<Rightarrow> 'v option" where
  "OS_GETARG_B_VALUE locals prog_values i =
     (if i AND OS_OPCODE_CONST_B \<noteq> 0 then nth_slot prog_values (OS_GETARG_B i)
      else nth_slot locals (OS_GETARG_B i))"

definition OS_GETARG_C_VALUE :: "'v list \<Rightarrow> 'v list \<Rightarrow> u32 \<Rightarrow> 'v option" where
  "OS_GETARG_C_VALUE locals prog_values i =
     (if i AND OS_OPCODE_CONST_C \<noteq> 0 then nth_slot prog_values (OS_GETARG_C i)
      else nth_slot locals (OS_GETARG_C i))"

definition exec_OP_MOVE :: "'v list \<Rightarrow> 'v list \<Rightarrow> u32 \<Rightarrow> 'v list option" where
  "exec_OP_MOVE locals prog_values i =
     Option.bind (OS_GETARG_B_VALUE locals prog_values i) (set_slot locals (OS_GETARG_A i))"

definition exec_OP_MOVE2 :: "'v list \<Rightarrow> 'v list \<Rightarrow> u32 \<Rightarrow> 'v list option" where
  "exec_OP_MOVE2 locals prog_values i =
     Option.bind (OS_GETARG_B_VALUE locals prog_values i) (\<lambda>v.
     Option.bind (set_slot locals (OS_GETARG_A i) v) (\<lambda>locals.
     Option.bind (OS_GETARG_C_VALUE locals prog_values i) (set_slot locals (OS_GETARG_A i + 1))))"

text \<open>Straight-line runs of these two instructions.\<close>

fun exec_moves :: "'v list \<Rightarrow> 'v list \<Rightarrow> u32 list \<Rightarrow> 'v list option" where
  "exec_moves locals prog_values [] = Some locals"
| "exec_moves locals prog_values (i # is) =
     (if OS_GET_OPCODE_TYPE i = of_nat (opcode_index OP_MOVE)
      then Option.bind (exec_OP_MOVE locals prog_values i) (\<lambda>l. exec_moves l prog_values is)
      else if OS_GET_OPCODE_TYPE i = of_nat (opcode_index OP_MOVE2)
      then Option.bind (exec_OP_MOVE2 locals prog_values i) (\<lambda>l. exec_moves l prog_values is)
      else None)"

text \<open>
  The body of the loop in \<open>writeOpcodes(scope, list, optimization_enabled)\<close> after one expression has
  been written: it looks at the last two instructions if both were written since the last jump
  target \<open>prog_optimize_offs\<close>.
\<close>

definition move2_of :: "u32 \<Rightarrow> u32 \<Rightarrow> u32" where
  "move2_of prev cur =
     (let instruction = of_nat (opcode_index OP_MOVE2);
          instruction = OS_SETARG_A instruction (int (OS_GETARG_A prev));
          instruction = OS_SETARG_B instruction (int (OS_GETARG_B (prev AND NOT OS_OPCODE_CONST_B)));
          instruction = OS_SETARG_C instruction (int (OS_GETARG_B (cur AND NOT OS_OPCODE_CONST_B)));
          instruction = (if prev AND OS_OPCODE_CONST_B \<noteq> 0 then instruction OR OS_OPCODE_CONST_B
                         else instruction)
      in if cur AND OS_OPCODE_CONST_B \<noteq> 0 then instruction OR OS_OPCODE_CONST_C else instruction)"

definition fuse_last_moves :: "u32 list \<Rightarrow> nat \<Rightarrow> u32 list \<times> nat" where
  "fuse_last_moves prog optimize_offs =
     (if length prog < optimize_offs + 2 then (prog, optimize_offs)
      else
        let prev = prog ! (length prog - 2); cur = prog ! (length prog - 1) in
        if OS_GET_OPCODE_TYPE prev = of_nat (opcode_index OP_MOVE)
           \<and> OS_GET_OPCODE_TYPE cur = of_nat (opcode_index OP_MOVE)
        then
          let prev_a = OS_GETARG_A prev; cur_a = OS_GETARG_A cur in
          if prev_a = OS_GETARG_B cur \<and> cur_a = OS_GETARG_B prev then (prog, optimize_offs)
          else if prev_a + 1 = cur_a
          then (take (length prog - 2) prog @ [move2_of prev cur], length prog - 1)
          else (prog, optimize_offs)
        else (prog, optimize_offs))"

text \<open>The fields of the fused instruction.\<close>

lemma getarg_or_other:
  assumes "\<And>k. pos \<le> k \<Longrightarrow> k < pos + sz \<Longrightarrow> \<not> bit w k"
  shows "getarg (if P then i OR w else i) pos sz = getarg i pos sz"
  using assms by (intro bit_word_eqI) (auto simp: bit_getarg bit_or_iff)

lemma take_bit_getarg: "take_bit sz (getarg i pos sz) = getarg i pos sz"
  by (intro bit_word_eqI) (auto simp: bit_getarg bit_simps)

lemma word_of_int_unat: "word_of_int (int (unat w)) = w"
  by simp

lemma getarg_B_clear_flag: "OS_GETARG_B (i AND NOT OS_OPCODE_CONST_B) = OS_GETARG_B i"
proof -
  have "getarg (i AND NOT OS_OPCODE_CONST_B) OS_POS_B (OS_SIZE_B - 1) = getarg i OS_POS_B (OS_SIZE_B - 1)"
    by (intro bit_word_eqI)
      (auto simp: bit_getarg bit_and_iff bit_not_iff bit_CONST_B layout_defs)
  then show ?thesis by (simp add: OS_GETARG_B_def)
qed

lemmas move2_unfold = move2_of_def Let_def OS_SETARG_A_def OS_SETARG_B_def OS_SETARG_C_def

lemma opcode_type_move2_of: "OS_GET_OPCODE_TYPE (move2_of prev cur) = of_nat (opcode_index OP_MOVE2)"
  unfolding move2_unfold OS_GET_OPCODE_TYPE_def
  by (simp add: getarg_or_other bit_CONST_B bit_CONST_C getarg_setarg_other layout_defs)
    (simp add: getarg_eq_take_bit)

lemma getarg_A_move2_of: "OS_GETARG_A (move2_of prev cur) = OS_GETARG_A prev"
  unfolding move2_unfold OS_GETARG_A_def
  by (simp add: getarg_or_other bit_CONST_B bit_CONST_C getarg_setarg_other getarg_setarg_same
      take_bit_getarg layout_defs)

lemma getarg_B_move2_of: "OS_GETARG_B (move2_of prev cur) = OS_GETARG_B prev"
  unfolding move2_unfold getarg_B_clear_flag unfolding OS_GETARG_B_def
  by (simp add: getarg_or_other bit_CONST_B bit_CONST_C getarg_setarg_other getarg_setarg_same
      take_bit_getarg layout_defs)

lemma getarg_C_move2_of: "OS_GETARG_C (move2_of prev cur) = OS_GETARG_B cur"
  unfolding move2_unfold getarg_B_clear_flag unfolding OS_GETARG_C_def OS_GETARG_B_def
  by (simp add: getarg_or_other bit_CONST_B bit_CONST_C getarg_setarg_other getarg_setarg_same
      take_bit_getarg layout_defs)

lemma flags_move2_of:
  "bit (move2_of prev cur) 31 \<longleftrightarrow> bit prev 31" "bit (move2_of prev cur) 22 \<longleftrightarrow> bit cur 31"
  unfolding move2_unfold and_CONST_B
  by (auto simp: bit_or_iff bit_CONST_B bit_CONST_C bit_setarg layout_defs bit_simps opcode_index.simps)

lemmas move2_fields = opcode_type_move2_of getarg_A_move2_of getarg_B_move2_of getarg_C_move2_of
  flags_move2_of

lemma exec_move2_of:
  assumes "OS_GETARG_A cur = OS_GETARG_A prev + 1"
  shows "exec_OP_MOVE2 locals prog_values (move2_of prev cur)
    = Option.bind (exec_OP_MOVE locals prog_values prev) (\<lambda>l. exec_OP_MOVE l prog_values cur)"
  unfolding exec_OP_MOVE2_def exec_OP_MOVE_def OS_GETARG_B_VALUE_def OS_GETARG_C_VALUE_def
    and_CONST_B and_CONST_C
  by (cases "bit prev 31"; cases "bit cur 31")
    (simp_all add: move2_fields [unfolded One_nat_def] assms Option.bind_assoc)

lemma exec_moves_append:
  "exec_moves locals prog_values (is @ js)
     = Option.bind (exec_moves locals prog_values is) (\<lambda>l. exec_moves l prog_values js)"
  by (induction "is" arbitrary: locals) (auto simp: Option.bind_assoc)

lemma split_last_two:
  "2 \<le> length xs \<Longrightarrow> xs = take (length xs - 2) xs @ [xs ! (length xs - 2), xs ! (length xs - 1)]"
proof -
  assume len: "2 \<le> length xs"
  then have "drop (length xs - 2) xs = [xs ! (length xs - 2), xs ! (length xs - 1)]"
    by (simp add: list_eq_iff_nth_eq less_Suc_eq numeral_2_eq_2 nth_Cons split: nat.splits)
  then show ?thesis by (metis append_take_drop_id)
qed

text \<open>
  Fusing the last two moves never changes what a run of moves computes, even when the second
  move reads the slot that the first one writes: for every frame, every constant table and every
  instruction list, the list that \<open>writeOpcodes\<close> leaves behind executes to the same result.
\<close>

theorem fuse_last_moves_correct:
  "exec_moves locals prog_values (fst (fuse_last_moves prog optimize_offs))
     = exec_moves locals prog_values prog"
proof (cases "length prog < optimize_offs + 2")
  case True
  then show ?thesis by (simp add: fuse_last_moves_def)
next
  case False
  define prev cur where "prev = prog ! (length prog - 2)" and "cur = prog ! (length prog - 1)"
  have prog: "prog = take (length prog - 2) prog @ [prev, cur]"
    using False split_last_two [of prog] by (simp add: prev_def cur_def)
  show ?thesis
  proof (cases "fst (fuse_last_moves prog optimize_offs) = prog")
    case True
    then show ?thesis by simp
  next
    case fused: False
    then have move: "OS_GET_OPCODE_TYPE prev = of_nat (opcode_index OP_MOVE)"
        "OS_GET_OPCODE_TYPE cur = of_nat (opcode_index OP_MOVE)"
      and a: "OS_GETARG_A cur = OS_GETARG_A prev + 1"
      and res: "fst (fuse_last_moves prog optimize_offs) = take (length prog - 2) prog @ [move2_of prev cur]"
      unfolding fuse_last_moves_def Let_def prev_def [symmetric] cur_def [symmetric]
      by (auto split: if_splits)
    have "exec_moves l prog_values [move2_of prev cur] = exec_moves l prog_values [prev, cur]" for l
      using move exec_move2_of [OF a] by (simp add: opcode_type_move2_of)
    then show ?thesis
      unfolding res by (subst (2) prog) (simp only: exec_moves_append)
  qed
qed

section \<open>Jumps\<close>

text \<open>
  The interpreter has advanced past the instruction at \<open>pos\<close> when it executes \<open>OP_JUMP\<close>, and a
  conditional instruction (\<open>OP_LOGIC_BOOL\<close>, \<open>OP_LOGIC_EQ\<close>, \<dots> with \<open>C \<noteq> 0\<close>) either skips the jump
  word that follows it or takes the jump from there.
\<close>

definition exec_OP_JUMP :: "u32 list \<Rightarrow> nat \<Rightarrow> int" where
  "exec_OP_JUMP prog pos = int pos + 1 + OS_GETARG_sBx (prog ! pos)"

definition exec_cond_jump :: "u32 list \<Rightarrow> nat \<Rightarrow> bool \<Rightarrow> int" where
  "exec_cond_jump prog opcodes res =
     (if res then int opcodes + 1 else int opcodes + (OS_GETARG_sBx (prog ! opcodes) + 1))"

definition jump_offset_fits :: "int \<Rightarrow> bool" where
  "jump_offset_fits offs \<longleftrightarrow> - OS_MAXARG_sBx \<le> offs \<and> offs \<le> OS_MAXARG_sBx + 1"

datatype ELoopBreakType = LOOP_CONTINUE | LOOP_BREAK

record LoopBreak =
  lb_pos :: nat
  lb_type :: ELoopBreakType

definition loop_break_target :: "nat \<Rightarrow> nat \<Rightarrow> LoopBreak \<Rightarrow> nat" where
  "loop_break_target scope_start_pos scope_end_pos b =
     (if lb_type b = LOOP_BREAK then scope_end_pos else scope_start_pos)"

fun fixLoopBreaks :: "u32 list \<Rightarrow> LoopBreak list \<Rightarrow> nat \<Rightarrow> nat \<Rightarrow> u32 list" where
  "fixLoopBreaks prog [] scope_start_pos scope_end_pos = prog"
| "fixLoopBreaks prog (b # bs) scope_start_pos scope_end_pos =
     fixLoopBreaks
       (if lb_type b = LOOP_BREAK
        then fixJumpOpcode prog (int scope_end_pos - int (lb_pos b) - 1) (lb_pos b)
        else fixJumpOpcode prog (int scope_start_pos - int (lb_pos b) - 1) (lb_pos b))
       bs scope_start_pos scope_end_pos"

lemma length_fixJumpOpcode [simp]: "length (fixJumpOpcode prog offs pos) = length prog"
  by (simp add: fixJumpOpcode_def)

lemma length_fixLoopBreaks [simp]: "length (fixLoopBreaks prog bs s e) = length prog"
  by (induction bs arbitrary: prog) simp_all

lemma fixLoopBreaks_other:
  "pos \<notin> lb_pos ` set bs \<Longrightarrow> fixLoopBreaks prog bs s e ! pos = prog ! pos"
  by (induction bs arbitrary: prog) (auto simp: fixJumpOpcode_def)

lemma sBx_fits: "jump_offset_fits offs \<Longrightarrow> OS_GETARG_sBx (OS_SETARG_sBx i offs) = offs"
  by (intro sBx_roundtrip) (auto simp: jump_offset_fits_def maxarg_defs layout_defs)

lemma exec_fixJumpOpcode:
  assumes "pos < length prog" "jump_offset_fits (int target - int pos - 1)"
  shows "exec_OP_JUMP (fixJumpOpcode prog (int target - int pos - 1) pos) pos = int target"
  using assms by (simp add: exec_OP_JUMP_def fixJumpOpcode_def sBx_fits)

lemma fixLoopBreaks_one:
  assumes "distinct (map lb_pos bs)" "b \<in> set bs" "lb_pos b < length prog"
  shows "fixLoopBreaks prog bs s e ! lb_pos b
    = OS_SETARG_sBx (prog ! lb_pos b) (int (loop_break_target s e b) - int (lb_pos b) - 1)"
  using assms
proof (induction bs arbitrary: prog)
  case Nil
  then show ?case by simp
next
  case (Cons c bs)
  show ?case
  proof (cases "c = b")
    case True
    with Cons.prems have "lb_pos b \<notin> lb_pos ` set bs" by simp
    with True Cons.prems show ?thesis
      by (simp add: fixLoopBreaks_other fixJumpOpcode_def loop_break_target_def)
  next
    case False
    with Cons.prems have "b \<in> set bs" "lb_pos c \<noteq> lb_pos b" by auto
    with Cons show ?thesis by (simp add: fixJumpOpcode_def)
  qed
qed

text \<open>
  After a loop or a \<open>switch\<close> has been written, \<open>fixLoopBreaks\<close> makes every recorded \<open>break\<close> jump to
  the end of the scope and every recorded \<open>continue\<close> jump to its start, keeps the opcode type of the
  patched words, and changes no other instruction.
\<close>

theorem fixLoopBreaks_correct:
  assumes "distinct (map lb_pos bs)" "\<forall>b \<in> set bs. lb_pos b < length prog"
    and "\<forall>b \<in> set bs. jump_offset_fits (int (loop_break_target s e b) - int (lb_pos b) - 1)"
  shows "(\<forall>b \<in> set bs. exec_OP_JUMP (fixLoopBreaks prog bs s e) (lb_pos b) = int (loop_break_target s e b)
      \<and> OS_GET_OPCODE_TYPE (fixLoopBreaks prog bs s e ! lb_pos b) = OS_GET_OPCODE_TYPE (prog ! lb_pos b))
    \<and> (\<forall>pos. pos \<notin> lb_pos ` set bs \<longrightarrow> fixLoopBreaks prog bs s e ! pos = prog ! pos)"
  using assms
  by (simp_all add: exec_OP_JUMP_def fixLoopBreaks_one fixLoopBreaks_other sBx_fits opcode_type_setarg_sBx)

theorem fixLoopBreaks_correct_witness:
  "exec_OP_JUMP (fixLoopBreaks [4, 4, 6, 4, 7] [\<lparr>lb_pos = 1, lb_type = LOOP_BREAK\<rparr>,
      \<lparr>lb_pos = 3, lb_type = LOOP_CONTINUE\<rparr>] 0 5) 1 = 5"
  using fixLoopBreaks_correct [where prog = "[4, 4, 6, 4, 7]" and s = 0 and e = 5 and
      bs = "[\<lparr>lb_pos = 1, lb_type = LOOP_BREAK\<rparr>, \<lparr>lb_pos = 3, lb_type = LOOP_CONTINUE\<rparr>]"]
  by (simp add: loop_break_target_def jump_offset_fits_def maxarg_defs layout_defs)

text \<open>
  The jump that closes a loop scope, written as \<open>writeJumpOpcode(start - getOpcodePos() - 2)\<close>,
  brings the interpreter back to the first instruction of the scope, for every scope whose length
  fits the 18-bit jump field.
\<close>

lemma loop_back_jump:
  assumes "start \<le> length prog" "jump_offset_fits (int start - int (length prog) - 1)"
  shows "exec_OP_JUMP (writeJumpOpcode prog (int start - int (length prog) - 2)) (length prog) = int start
    \<and> take (length prog) (writeJumpOpcode prog (int start - int (length prog) - 2)) = prog"
proof -
  have *: "int start - int (length prog) - 2 + 1 = int start - int (length prog) - 1" by simp
  show ?thesis
    using assms unfolding exec_OP_JUMP_def writeJumpOpcode_def * by (simp add: writeOpcode_def sBx_fits)
qed

theorem loop_back_jump_witness:
  "exec_OP_JUMP (writeJumpOpcode [6, 7, 8] (int 1 - int (length [6, 7, 8::u32]) - 2)) 3 = 1"
  using loop_back_jump [of 1 "[6, 7, 8]"]
  by (simp add: jump_offset_fits_def maxarg_defs layout_defs eval_nat_numeral)

end
