(* ===== verification/Hashing.thy ===== *)
theory Hashing
  imports Prelude "HOL-Library.List_Lexorder"
begin

text \<open>
  \<open>OS::Utils::keyToHash\<close> (one and two buffers), \<open>OS::Utils::cmp\<close> and the comparisons of
  \<open>GCStringValue\<close>.  Strings are interned by looking a pair of buffers up without joining them, so
  the two-buffer hash has to agree with the hash of the joined bytes that the string keeps; that is
  the main result here.  The C \<open>int\<close> accumulator is a 32-bit word; sizes are lengths of the buffers
  (the callers never pass a negative one).
\<close>

section \<open>Hashing\<close>

definition OS_STR_HASH_START_VALUE :: u32 where
  "OS_STR_HASH_START_VALUE = 5381"

definition OS_ADD_STR_HASH_VALUE :: "u32 \<Rightarrow> u8 \<Rightarrow> u32" where
  "OS_ADD_STR_HASH_VALUE hash b = (push_bit 5 hash + hash) + ucast b"

text \<open>The loop \<open>for(; buf < end; buf += step)\<close>; \<open>step = Suc k\<close>, and the position is returned with the hash.\<close>

function hash_loop :: "nat \<Rightarrow> bytes \<Rightarrow> nat \<Rightarrow> u32 \<Rightarrow> u32 \<times> nat" where
  "hash_loop k buf pos hash =
     (if pos < length buf then hash_loop k buf (pos + Suc k) (OS_ADD_STR_HASH_VALUE hash (buf ! pos))
      else (hash, pos))"
  by pat_completeness auto
termination
  by (relation "measure (\<lambda>(k, buf, pos, hash). length buf - pos)") auto

declare hash_loop.simps [simp del]

text \<open>\<open>step = (size >> OS_STR_HASH_LIMIT_SHIFT) + 1\<close>: at most 32 bytes or so of a long key are read.\<close>

definition keyToHash :: "bytes \<Rightarrow> u32" where
  "keyToHash buf = fst (hash_loop (length buf div 32) buf 0 OS_STR_HASH_START_VALUE)"

definition keyToHash2 :: "bytes \<Rightarrow> bytes \<Rightarrow> u32" where
  "keyToHash2 buf1 buf2 =
     (if length buf2 > 0 then
        (let k = (length buf1 + length buf2) div 32;
             (hash, pos) = hash_loop k buf1 0 OS_STR_HASH_START_VALUE
         in fst (hash_loop k buf2 (pos - length buf1) hash))
      else keyToHash buf1)"

lemma hash_loop_pos: "length buf \<le> snd (hash_loop k buf pos hash)"
  by (induction k buf pos hash rule: hash_loop.induct)
    (subst hash_loop.simps, simp)

lemma hash_loop_done: "length buf \<le> pos \<Longrightarrow> hash_loop k buf pos hash = (hash, pos)"
  by (simp add: hash_loop.simps)

lemma hash_loop_second:
  "fst (hash_loop k (buf1 @ buf2) (length buf1 + pos) hash) = fst (hash_loop k buf2 pos hash)"
proof (induction k buf2 pos hash rule: hash_loop.induct)
  case (1 k buf2 pos hash)
  then show ?case
    by (cases "pos < length buf2")
      (simp_all add: hash_loop.simps [of k "buf1 @ buf2"] hash_loop.simps [of k buf2 pos] nth_append
        add.assoc)
qed

lemma hash_loop_append:
  "fst (hash_loop k (buf1 @ buf2) pos hash) =
     (let (h, p) = hash_loop k buf1 pos hash in fst (hash_loop k buf2 (p - length buf1) h))"
proof (induction k buf1 pos hash rule: hash_loop.induct)
  case (1 k buf1 pos hash)
  show ?case
  proof (cases "pos < length buf1")
    case True
    with 1 show ?thesis
      by (simp add: hash_loop.simps [of k "buf1 @ buf2" pos] hash_loop.simps [of k buf1 pos] nth_append)
  next
    case False
    then have "hash_loop k buf1 pos hash = (hash, pos)" by (simp add: hash_loop_done)
    with False hash_loop_second [of k buf1 buf2 "pos - length buf1" hash] show ?thesis by simp
  qed
qed

lemma keyToHash2_joined: "keyToHash2 buf1 buf2 = keyToHash (buf1 @ buf2)"
  by (simp add: keyToHash2_def keyToHash_def hash_loop_append hash_loop_done split_def Let_def)

text \<open>
  Hashing two buffers one after the other, with the stride chosen from their total length and
  carried over the seam, gives the hash of their concatenation.
\<close>

theorem keyToHash2_append: "keyToHash2 buf1 buf2 = keyToHash (buf1 @ buf2)"
  by (rule keyToHash2_joined)

section \<open>Comparison\<close>

text \<open>\<open>memcmp\<close> promises a sign only; the sign is represented by -1, 0 and 1.\<close>

fun os_memcmp :: "bytes \<Rightarrow> bytes \<Rightarrow> int" where
  "os_memcmp (x # xs) (y # ys) = (if x < y then -1 else if y < x then 1 else os_memcmp xs ys)"
| "os_memcmp _ _ = 0"

definition utils_cmp :: "bytes \<Rightarrow> bytes \<Rightarrow> int" where
  "utils_cmp buf1 buf2 =
     (let len = (if length buf1 < length buf2 then length buf1 else length buf2);
          cmp = os_memcmp (take len buf1) (take len buf2)
      in if cmp \<noteq> 0 then cmp else int (length buf1) - int (length buf2))"

lemma os_memcmp_take:
  "os_memcmp (take (min (length xs) (length ys)) xs) (take (min (length xs) (length ys)) ys)
     = os_memcmp xs ys"
  by (induction xs ys rule: os_memcmp.induct) auto

lemma utils_cmp_eq:
  "utils_cmp xs ys = (if os_memcmp xs ys \<noteq> 0 then os_memcmp xs ys else int (length xs) - int (length ys))"
  using os_memcmp_take [of xs ys] by (auto simp: utils_cmp_def min_def Let_def split: if_splits)

lemma utils_cmp_Cons:
  "utils_cmp (x # xs) (y # ys) = (if x < y then -1 else if y < x then 1 else utils_cmp xs ys)"
  by (simp add: utils_cmp_eq)

lemma utils_cmp_Nil: "utils_cmp [] ys = - int (length ys)" "utils_cmp xs [] = int (length xs)"
  by (auto simp: utils_cmp_eq os_memcmp.simps(2,3))

lemmas utils_cmp_rules = utils_cmp_Cons utils_cmp_Nil

lemma utils_cmp_zero: "utils_cmp xs ys = 0 \<longleftrightarrow> xs = ys"
proof (induction xs ys rule: list_induct2')
  case (4 x xs y ys)
  then show ?case by (auto simp: utils_cmp_Cons)
qed (simp_all add: utils_cmp_rules)

lemma utils_cmp_neg: "utils_cmp xs ys < 0 \<longleftrightarrow> xs < ys"
proof (induction xs ys rule: list_induct2')
  case (4 x xs y ys)
  then show ?case by (auto simp: utils_cmp_Cons)
qed (simp_all add: utils_cmp_rules)

text \<open>
  \<open>Utils::cmp\<close> is the three-way comparison of the lexicographic order on unsigned bytes: its
  sign says which buffer is smaller, it is zero exactly on equal buffers, and swapping the
  arguments swaps the sign.
\<close>

lemma utils_cmp_lexicographic:
  "(utils_cmp xs ys < 0 \<longleftrightarrow> xs < ys) \<and> (utils_cmp xs ys = 0 \<longleftrightarrow> xs = ys)
   \<and> (utils_cmp xs ys > 0 \<longleftrightarrow> ys < xs) \<and> sgn (utils_cmp ys xs) = - sgn (utils_cmp xs ys)"
proof -
  have pos: "utils_cmp xs ys > 0 \<longleftrightarrow> ys < xs" for xs ys :: bytes
    using utils_cmp_neg [of xs ys] utils_cmp_zero [of xs ys] by (metis linorder_neqE order_less_asym)
  have "sgn (utils_cmp ys xs) = - sgn (utils_cmp xs ys)"
    using utils_cmp_neg [of xs ys] utils_cmp_zero [of xs ys] pos [of ys xs] utils_cmp_neg [of ys xs]
      utils_cmp_zero [of ys xs] pos [of xs ys]
    by (cases "utils_cmp xs ys" "0 :: int" rule: linorder_cases) auto
  then show ?thesis using utils_cmp_neg utils_cmp_zero pos by blast
qed

section \<open>String objects\<close>

text \<open>The part of \<open>GCStringValue\<close> that lookups read: the bytes (\<open>data_size\<close> of them) and the cached hash.\<close>

record gc_string =
  str_data :: bytes
  str_hash :: u32

definition string_isEqual :: "gc_string \<Rightarrow> u32 \<Rightarrow> bytes \<Rightarrow> bool" where
  "string_isEqual s hash b \<longleftrightarrow>
     str_hash s = hash \<and> length (str_data s) = length b \<and> os_memcmp (str_data s) b = 0"

definition string_isEqual2 :: "gc_string \<Rightarrow> u32 \<Rightarrow> bytes \<Rightarrow> bytes \<Rightarrow> bool" where
  "string_isEqual2 s hash buf1 buf2 \<longleftrightarrow>
     (if str_hash s \<noteq> hash \<or> length (str_data s) \<noteq> length buf1 + length buf2 then False
      else os_memcmp (take (length buf1) (str_data s)) buf1 = 0
        \<and> (length buf2 = 0 \<or> os_memcmp (drop (length buf1) (str_data s)) buf2 = 0))"

definition calcHash :: "gc_string \<Rightarrow> gc_string" where
  "calcHash s = s\<lparr>str_hash := keyToHash (str_data s)\<rparr>"

lemma os_memcmp_zero: "length xs = length ys \<Longrightarrow> os_memcmp xs ys = 0 \<longleftrightarrow> xs = ys"
  using utils_cmp_zero [of xs ys] by (auto simp: utils_cmp_eq split: if_splits)

lemma string_isEqual2_iff:
  "string_isEqual2 s hash buf1 buf2 \<longleftrightarrow> str_hash s = hash \<and> str_data s = buf1 @ buf2"
proof (cases "length (str_data s) = length buf1 + length buf2")
  case True
  define a b where "a = take (length buf1) (str_data s)" and "b = drop (length buf1) (str_data s)"
  have len: "length a = length buf1" "length b = length buf2" using True by (simp_all add: a_def b_def)
  have "str_data s = buf1 @ buf2 \<longleftrightarrow> a = buf1 \<and> b = buf2"
    using len by (metis a_def append_eq_append_conv append_take_drop_id b_def)
  with True len show ?thesis
    unfolding string_isEqual2_def a_def [symmetric] b_def [symmetric]
    by (auto simp: os_memcmp_zero)
qed (auto simp: string_isEqual2_def)

lemma string_isEqual_iff: "string_isEqual s hash b \<longleftrightarrow> str_hash s = hash \<and> str_data s = b"
  by (auto simp: string_isEqual_def os_memcmp_zero)

end
