(* ===== verification/NumParse.thy ===== *)
theory NumParse
  imports Prelude "HOL-Library.Sublist"
begin

text \<open>
  The integer scanners of \<open>objectscript.cpp\<close> (\<open>parseSpaces\<close>, \<open>parseSimpleRadix\<close>, \<open>parseSimpleHex\<close>,
  \<open>parseSimpleBin\<close>, \<open>parseSimpleOctal\<close>, \<open>parseSimpleDec\<close>) and \<open>isValidCharAfterNumber\<close>.  A pointer
  into a NUL-terminated text is the list of the characters before the terminator; advancing it
  drops characters.  The templates are modelled at the types they are instantiated with: \<open>OS_UINT\<close>
  (64 bits unsigned) by \<open>parseFloat\<close>, and \<open>int\<close> (32 bits signed) for exponents and for the escapes
  of string literals; the value is a word, so every shift and product wraps.  \<open>Utils::parseFloat\<close>
  itself is modelled over an arbitrary floating point type, whose operations are an argument.
\<close>

section \<open>Characters\<close>

definition peek :: "string \<Rightarrow> char" where
  "peek s = (case s of [] \<Rightarrow> CHR 0x00 | c # _ \<Rightarrow> c)"

definition OS_IS_SPACE :: "char \<Rightarrow> bool" where
  "OS_IS_SPACE c \<longleftrightarrow> 0 < (of_char c :: nat) \<and> (of_char c :: nat) \<le> 32"

definition in_range_char :: "char \<Rightarrow> char \<Rightarrow> char \<Rightarrow> bool" where
  "in_range_char lo hi c \<longleftrightarrow> (of_char lo :: nat) \<le> of_char c \<and> (of_char c :: nat) \<le> of_char hi"

definition char_dist :: "char \<Rightarrow> char \<Rightarrow> nat" where
  "char_dist c lo = of_char c - of_char lo"

fun parseSpaces :: "string \<Rightarrow> string" where
  "parseSpaces [] = []"
| "parseSpaces (c # cs) = (if OS_IS_SPACE c then parseSpaces cs else c # cs)"

definition isValidCharAfterNumber :: "string \<Rightarrow> bool" where
  "isValidCharAfterNumber s \<longleftrightarrow> s = [] \<or> OS_IS_SPACE (peek s)
     \<or> peek s \<in> set ''!@#$%^&*()-+={}[]'' \<or> peek s \<in> {CHR 0x5C, CHR 0x27, CHR 0x22, CHR 0x60}
     \<or> peek s \<in> set ''|;:,<.>/?~''"

section \<open>Digits\<close>

text \<open>What each scanner accepts as a digit, and its value.\<close>

definition radix_digit :: "nat \<Rightarrow> char \<Rightarrow> nat option" where
  "radix_digit radix c =
     (let cur = (if in_range_char CHR ''0'' CHR ''9'' c then Some (char_dist c CHR ''0'')
                 else if in_range_char CHR ''a'' CHR ''z'' c then Some (10 + char_dist c CHR ''a'')
                 else if in_range_char CHR ''A'' CHR ''Z'' c then Some (10 + char_dist c CHR ''A'')
                 else None)
      in case cur of None \<Rightarrow> None | Some d \<Rightarrow> if d \<ge> radix then None else Some d)"

definition hex_digit :: "char \<Rightarrow> nat option" where
  "hex_digit c =
     (if in_range_char CHR ''0'' CHR ''9'' c then Some (char_dist c CHR ''0'')
      else if in_range_char CHR ''a'' CHR ''f'' c then Some (10 + char_dist c CHR ''a'')
      else if in_range_char CHR ''A'' CHR ''F'' c then Some (10 + char_dist c CHR ''A'')
      else None)"

definition bin_digit :: "char \<Rightarrow> nat option" where
  "bin_digit c = (if in_range_char CHR ''0'' CHR ''1'' c then Some (char_dist c CHR ''0'') else None)"

definition octal_digit :: "char \<Rightarrow> nat option" where
  "octal_digit c = (if in_range_char CHR ''0'' CHR ''7'' c then Some (char_dist c CHR ''0'') else None)"

definition dec_digit :: "char \<Rightarrow> nat option" where
  "dec_digit c = (if in_range_char CHR ''0'' CHR ''9'' c then Some (char_dist c CHR ''0'') else None)"

section \<open>The scanning loop\<close>

text \<open>
  One loop for the scanners: \<open>acc\<close> adds a digit to the value; when the new value is below the
  previous one (\<open>gt prev_val val\<close>, signed or unsigned as the type is) the scan gives up (\<open>None\<close>).
\<close>

fun scan_digits ::
  "(char \<Rightarrow> nat option) \<Rightarrow> ('a \<Rightarrow> 'a \<Rightarrow> bool) \<Rightarrow> ('a \<Rightarrow> nat \<Rightarrow> 'a) \<Rightarrow> 'a \<Rightarrow> string
     \<Rightarrow> ('a \<times> string) option" where
  "scan_digits digit gt acc prev_val [] = Some (prev_val, [])"
| "scan_digits digit gt acc prev_val (c # cs) =
     (case digit c of
        None \<Rightarrow> Some (prev_val, c # cs)
      | Some d \<Rightarrow> (let val = acc prev_val d in
          if gt prev_val val then None else scan_digits digit gt acc val cs))"

text \<open>The result of a scanner: the returned flag, \<open>p_val\<close>, and the new \<open>p_str\<close>.\<close>

definition scan_result :: "string \<Rightarrow> ('a::zero \<times> string) option \<Rightarrow> bool \<times> 'a \<times> string" where
  "scan_result start r =
     (case r of None \<Rightarrow> (False, 0, start)
      | Some (val, str) \<Rightarrow> (length str < length start, val, str))"

definition gt_unsigned :: "u64 \<Rightarrow> u64 \<Rightarrow> bool" where
  "gt_unsigned x y \<longleftrightarrow> y < x"

definition gt_signed :: "32 word \<Rightarrow> 32 word \<Rightarrow> bool" where
  "gt_signed x y \<longleftrightarrow> sint y < sint x"

definition acc_radix :: "nat \<Rightarrow> 'a::len word \<Rightarrow> nat \<Rightarrow> 'a word" where
  "acc_radix radix val d = val * of_nat radix + of_nat d"

definition acc_shift :: "nat \<Rightarrow> 'a::len word \<Rightarrow> nat \<Rightarrow> 'a word" where
  "acc_shift n val d = push_bit n val + of_nat d"

definition parseSimpleRadix :: "string \<Rightarrow> nat \<Rightarrow> bool \<times> u64 \<times> string" where
  "parseSimpleRadix p_str radix =
     scan_result p_str (scan_digits (radix_digit radix) gt_unsigned (acc_radix radix) 0 p_str)"

definition parseSimpleHex :: "string \<Rightarrow> bool \<times> u64 \<times> string" where
  "parseSimpleHex p_str = scan_result p_str (scan_digits hex_digit gt_unsigned (acc_shift 4) 0 p_str)"

definition parseSimpleBin :: "string \<Rightarrow> bool \<times> u64 \<times> string" where
  "parseSimpleBin p_str = scan_result p_str (scan_digits bin_digit gt_unsigned (acc_shift 1) 0 p_str)"

definition parseSimpleOctal :: "string \<Rightarrow> bool \<times> u64 \<times> string" where
  "parseSimpleOctal p_str = scan_result p_str (scan_digits octal_digit gt_unsigned (acc_shift 3) 0 p_str)"

text \<open>The instances at \<open>int\<close>.\<close>

definition parseSimpleDec_int :: "string \<Rightarrow> bool \<times> 32 word \<times> string" where
  "parseSimpleDec_int p_str = scan_result p_str (scan_digits dec_digit gt_signed (acc_radix 10) 0 p_str)"

definition parseSimpleHex_int :: "string \<Rightarrow> bool \<times> 32 word \<times> string" where
  "parseSimpleHex_int p_str = scan_result p_str (scan_digits hex_digit gt_signed (acc_shift 4) 0 p_str)"

definition parseSimpleOctal_int :: "string \<Rightarrow> bool \<times> 32 word \<times> string" where
  "parseSimpleOctal_int p_str = scan_result p_str (scan_digits octal_digit gt_signed (acc_shift 3) 0 p_str)"

section \<open>Positional value\<close>

text \<open>
  The number that the longest prefix of digits denotes, in unbounded arithmetic, and the text after
  that prefix.
\<close>

definition digits_value :: "nat \<Rightarrow> nat list \<Rightarrow> nat" where
  "digits_value base ds = foldl (\<lambda>v d. v * base + d) 0 ds"

definition prefix_value :: "nat \<Rightarrow> (char \<Rightarrow> nat option) \<Rightarrow> string \<Rightarrow> nat" where
  "prefix_value base digit s = digits_value base (map (the \<circ> digit) (takeWhile (\<lambda>c. digit c \<noteq> None) s))"

definition after_digits :: "(char \<Rightarrow> nat option) \<Rightarrow> string \<Rightarrow> string" where
  "after_digits digit s = dropWhile (\<lambda>c. digit c \<noteq> None) s"

fun run_value :: "nat \<Rightarrow> (char \<Rightarrow> nat option) \<Rightarrow> nat \<Rightarrow> string \<Rightarrow> nat" where
  "run_value base digit v [] = v"
| "run_value base digit v (c # cs) =
     (case digit c of None \<Rightarrow> v | Some d \<Rightarrow> run_value base digit (v * base + d) cs)"

lemma run_value_foldl:
  "run_value base digit v s
     = foldl (\<lambda>v d. v * base + d) v (map (the \<circ> digit) (takeWhile (\<lambda>c. digit c \<noteq> None) s))"
  by (induction s arbitrary: v) (auto split: option.splits)

lemma prefix_value_run: "prefix_value base digit s = run_value base digit 0 s"
  by (simp add: prefix_value_def digits_value_def run_value_foldl)

lemma run_value_mono: "0 < base \<Longrightarrow> v \<le> run_value base digit v s"
proof (induction s arbitrary: v)
  case Nil
  then show ?case by simp
next
  case (Cons c cs)
  have "v \<le> v * base + d" for d using Cons.prems by (cases base) auto
  then show ?case using Cons by (auto split: option.splits intro: order_trans)
qed

lemma acc_shift_radix: "acc_shift n = acc_radix (2 ^ n)"
  by (intro ext) (simp add: acc_shift_def acc_radix_def push_bit_eq_mult)

lemma scan_digits_exact:
  fixes v :: "'a::len word"
  assumes "0 < base" and N: "N \<le> 2 ^ LENGTH('a)"
    and gt: "\<And>x y. unat x \<le> unat y \<Longrightarrow> unat y < N \<Longrightarrow> \<not> gt x y"
    and "run_value base digit (unat v) s < N"
  shows "scan_digits digit gt (acc_radix base) v s
    = Some (of_nat (run_value base digit (unat v) s), after_digits digit s)"
  using assms(4)
proof (induction s arbitrary: v)
  case Nil
  then show ?case by (simp add: after_digits_def)
next
  case (Cons c cs)
  show ?case
  proof (cases "digit c")
    case None
    then show ?thesis by (simp add: after_digits_def)
  next
    case (Some d)
    define w where "w = acc_radix base v d"
    have run: "run_value base digit (unat v * base + d) cs < N" using Cons.prems Some by simp
    have "unat v * base + d \<le> run_value base digit (unat v * base + d) cs"
      using \<open>0 < base\<close> by (rule run_value_mono)
    with run have small: "unat v * base + d < N" by linarith
    have "w = of_nat (unat v * base + d)" by (simp add: w_def acc_radix_def)
    with small N have uw: "unat w = unat v * base + d"
      by (simp only: unsigned_of_nat) (simp add: take_bit_nat_eq_self)
    have "unat v \<le> unat w" using \<open>0 < base\<close> uw by (cases base) auto
    with small uw have "\<not> gt v w" by (intro gt) simp_all
    with Some Cons.IH [of w] run uw show ?thesis
      by (simp add: w_def [symmetric] Let_def after_digits_def)
  qed
qed

lemma scan_digits_rest:
  "scan_digits digit gt acc v s = Some (w, r) \<Longrightarrow> r = after_digits digit s"
  by (induction s arbitrary: v) (auto simp: after_digits_def Let_def split: option.splits if_splits)

lemma scan_unsigned:
  assumes "0 < base" "prefix_value base digit s < 2 ^ 64"
  shows "scan_digits digit gt_unsigned (acc_radix base) 0 s
    = Some (of_nat (prefix_value base digit s), after_digits digit s)"
  using scan_digits_exact [of base "2 ^ 64" gt_unsigned digit "0 :: u64" s] assms
  by (simp add: prefix_value_run gt_unsigned_def word_less_nat_alt)

lemma scan_signed:
  assumes "0 < base" "prefix_value base digit s < 2 ^ 31"
  shows "scan_digits digit gt_signed (acc_radix base) 0 s
    = Some (of_nat (prefix_value base digit s), after_digits digit s)"
proof -
  have "\<not> gt_signed x y" if "unat x \<le> unat y" "unat y < 2 ^ 31" for x y :: "32 word"
  proof -
    have "sint z = int (unat z)" if "unat z < 2 ^ 31" for z :: "32 word"
    proof -
      from that have "int (unat z) < 2 ^ 31" by (metis of_nat_less_numeral_power_cancel_iff)
      then have "signed_take_bit 31 (uint z) = uint z"
        by (intro signed_take_bit_int_eq_self) (simp_all add: order_trans [OF _ uint_ge_0])
      then show ?thesis by (simp add: sint_uint)
    qed
    with that have "sint x = int (unat x)" "sint y = int (unat y)" by auto
    with that(1) show ?thesis by (metis gt_signed_def linorder_not_less of_nat_le_iff)
  qed
  then show ?thesis
    using scan_digits_exact [of base "2 ^ 31" gt_signed digit "0 :: 32 word" s] assms
    by (simp add: prefix_value_run)
qed

lemmas scanner_defs = parseSimpleRadix_def parseSimpleHex_def parseSimpleBin_def parseSimpleOctal_def
  parseSimpleDec_int_def parseSimpleHex_int_def parseSimpleOctal_int_def

lemma after_digits_less: "length (after_digits digit s) < length s \<longleftrightarrow> s \<noteq> [] \<and> digit (hd s) \<noteq> None"
  by (cases s) (auto simp: after_digits_def le_imp_less_Suc length_dropWhile_le)

lemma scan_result_digits:
  "scan_result s (Some (v, after_digits digit s)) = (s \<noteq> [] \<and> digit (hd s) \<noteq> None, v, after_digits digit s)"
  by (simp add: scan_result_def after_digits_less)



text \<open>
  The overflow test of the scanners is incomplete.  It compares the new value with the previous
  one only, so a literal with a 65-bit value can wrap round to a larger 64-bit one and is accepted
  with a wrong value: \<open>0x12000000000000000\<close> is read as \<open>0x2000000000000000\<close>.
\<close>

theorem hex_overflow_undetected:
  "parseSimpleHex ''12000000000000000'' = (True, 0x2000000000000000, [])
   \<and> prefix_value 16 hex_digit ''12000000000000000'' = 0x12000000000000000"
  by (simp add: scanner_defs scan_result_def prefix_value_run hex_digit_def in_range_char_def
      char_dist_def acc_shift_def gt_unsigned_def Let_def)

section \<open>Floating point numbers\<close>

text \<open>
  \<open>OS_NUMBER\<close> is chosen at compile time (\<open>double\<close> by default), so \<open>parseFloat\<close> is modelled for any
  type \<open>'f\<close> with the operations that the code applies: conversion from and to \<open>OS_UINT\<close>, the
  arithmetic, the constant 0.1, and the reinterpretation of a 32-bit pattern as a \<open>float\<close>.
\<close>

record 'f fops =
  f_of_u64 :: "u64 \<Rightarrow> 'f"
  f_to_u64 :: "'f \<Rightarrow> u64"
  f_of_nat :: "nat \<Rightarrow> 'f"
  f_tenth :: 'f
  f_neg :: "'f \<Rightarrow> 'f"
  f_add :: "'f \<Rightarrow> 'f \<Rightarrow> 'f"
  f_mul :: "'f \<Rightarrow> 'f \<Rightarrow> 'f"
  f_div :: "'f \<Rightarrow> 'f \<Rightarrow> 'f"
  f_of_float_bits :: "u32 \<Rightarrow> 'f"

datatype ENumberParseType = PARSE_TOKEN | PARSE_INT | PARSE_FLOAT

fun float_digits :: "'f fops \<Rightarrow> 'f \<Rightarrow> string \<Rightarrow> 'f \<times> string" where
  "float_digits ops val [] = (val, [])"
| "float_digits ops val (c # cs) =
     (case dec_digit c of
        None \<Rightarrow> (val, c # cs)
      | Some d \<Rightarrow> float_digits ops (f_add ops (f_mul ops val (f_of_nat ops 10)) (f_of_nat ops d)) cs)"

definition parseSimpleFloat :: "'f fops \<Rightarrow> string \<Rightarrow> bool \<times> 'f \<times> string" where
  "parseSimpleFloat ops p_str =
     (let (val, str) = float_digits ops (f_of_nat ops 0) p_str in (length str < length p_str, val, str))"

fun fraction_digits :: "'f fops \<Rightarrow> 'f \<Rightarrow> 'f \<Rightarrow> string \<Rightarrow> 'f \<times> string" where
  "fraction_digits ops val m [] = (val, [])"
| "fraction_digits ops val m (c # cs) =
     (case dec_digit c of
        None \<Rightarrow> (val, c # cs)
      | Some d \<Rightarrow> fraction_digits ops (f_add ops val (f_mul ops (f_of_nat ops d) m))
                    (f_mul ops m (f_tenth ops)) cs)"

text \<open>The special values \<open>1.#INF\<close>, \<open>1.#IND\<close>, \<open>1.#QNAN\<close>; \<open>str\<close> stands at the point.\<close>

definition float_specs :: "(string \<times> u32) list" where
  "float_specs = [(''INF'', 0x7f800000), (''IND'', 0xffc00000), (''QNAN'', 0x7fc00000)]"

fun parse_spec :: "'f fops \<Rightarrow> (string \<times> u32) list \<Rightarrow> string \<Rightarrow> bool \<times> 'f \<times> string" where
  "parse_spec ops [] str = (False, f_of_nat ops 0, str)"
| "parse_spec ops ((spec, spec_val) # specs) str =
     (if take (length spec) (drop 2 str) \<noteq> spec then parse_spec ops specs str
      else (let str = drop (length spec + 2) str in
        if isValidCharAfterNumber str then (True, f_of_float_bits ops spec_val, str)
        else parse_spec ops specs str))"

definition apply_sign :: "'f fops \<Rightarrow> bool \<Rightarrow> 'f \<Rightarrow> 'f" where
  "apply_sign ops negative val = (if negative then f_neg ops val else val)"

definition finish_int :: "'f fops \<Rightarrow> bool \<Rightarrow> bool \<Rightarrow> u64 \<Rightarrow> string \<Rightarrow> bool \<times> 'f \<times> string" where
  "finish_int ops negative is_valid uint_val str =
     (if \<not> is_valid then (False, f_of_nat ops 0, str)
      else (let result = f_of_u64 ops uint_val in
        if f_to_u64 ops result \<noteq> uint_val then (False, f_of_nat ops 0, str)
        else (True, apply_sign ops negative result, str)))"

definition parse_prefixed :: "'f fops \<Rightarrow> bool \<Rightarrow> string \<Rightarrow> bool \<times> 'f \<times> string" where
  "parse_prefixed ops negative start_str =
     (let (is_octal, is_valid, uint_val, str) =
        (if peek (drop 1 start_str) = CHR ''x'' then (False, parseSimpleHex (drop 2 start_str))
         else if peek (drop 1 start_str) = CHR ''b'' then (False, parseSimpleBin (drop 2 start_str))
         else (True, parseSimpleOctal start_str))
      in finish_int ops negative
           (is_valid \<and> \<not> (length start_str = length str + 1 \<and> \<not> is_octal)) uint_val str)"

definition parse_exponent :: "'f fops \<Rightarrow> 'f \<Rightarrow> string \<Rightarrow> bool \<times> 'f \<times> string" where
  "parse_exponent ops float_val str =
     (let div_flag = (peek str = CHR ''-'');
          str = (if peek str = CHR ''-'' \<or> peek str = CHR ''+'' then drop 1 str else str);
          (ok, pow, str) = parseSimpleDec_int str
      in if \<not> ok then (False, f_of_nat ops 0, str)
         else (let m = ((\<lambda>m. f_mul ops m (f_of_nat ops 10)) ^^ nat (sint pow)) (f_of_nat ops 1)
           in (True, (if div_flag then f_div ops float_val m else f_mul ops float_val m), str)))"

definition parse_fraction :: "'f fops \<Rightarrow> bool \<Rightarrow> string \<Rightarrow> 'f \<Rightarrow> string \<Rightarrow> bool \<times> 'f \<times> string" where
  "parse_fraction ops negative start_str float_val str =
     (if peek (drop 1 str) = CHR ''.'' then (True, apply_sign ops negative float_val, str)
      else if \<not> negative \<and> length start_str = length str + 1 \<and> peek start_str = CHR ''1''
              \<and> peek (drop 1 str) = CHR ''#''
      then parse_spec ops float_specs str
      else
        (let (float_val, str) = fraction_digits ops float_val (f_tenth ops) (drop 1 str) in
         if length start_str = length str then (False, f_of_nat ops 0, str)
         else
           (let (ok, float_val, str) =
              (if peek str = CHR ''e'' \<or> peek str = CHR ''E'' then parse_exponent ops float_val (drop 1 str)
               else (True, float_val, str))
            in if \<not> ok then (False, f_of_nat ops 0, str)
               else (True, apply_sign ops negative float_val,
                 (if peek str = CHR ''f'' \<and> isValidCharAfterNumber (drop 1 str) then drop 1 str else str)))))"

definition parseFloat :: "'f fops \<Rightarrow> string \<Rightarrow> ENumberParseType \<Rightarrow> nat \<Rightarrow> bool \<times> 'f \<times> string" where
  "parseFloat ops text parse_type int_radix =
     (let negative = (peek text = CHR ''-'');
          start_str = (if peek text = CHR ''-'' \<or> peek text = CHR ''+'' then drop 1 text else text)
      in if parse_type = PARSE_INT then
           (let (is_valid, uint_val, str) = parseSimpleRadix start_str int_radix
            in finish_int ops negative is_valid uint_val str)
         else if parse_type = PARSE_TOKEN \<and> peek start_str = CHR ''0'' \<and> peek (drop 1 start_str) \<noteq> CHR ''.''
         then parse_prefixed ops negative start_str
         else
           (let (ok, float_val, str) = parseSimpleFloat ops start_str in
            if \<not> ok then (False, f_of_nat ops 0, str)
            else if peek str = CHR ''.'' then parse_fraction ops negative start_str float_val str
            else if length start_str = length str then (False, f_of_nat ops 0, str)
            else (True, apply_sign ops negative float_val, str)))"

subsection \<open>The scanned text is a prefix\<close>

named_theorems suffix_rules

lemma suffix_after_digits: "suffix (after_digits digit s) s"
  by (simp add: after_digits_def suffix_dropWhile)

lemma suffix_scan_result [suffix_rules]:
  "suffix (snd (snd (scan_result s (scan_digits digit gt acc v s)))) s"
  using scan_digits_rest [of digit gt acc v s] suffix_after_digits [of digit s]
  by (auto simp: scan_result_def split: option.splits)

lemma suffix_scanners [suffix_rules]:
  "suffix (snd (snd (parseSimpleRadix s radix))) s" "suffix (snd (snd (parseSimpleHex s))) s"
  "suffix (snd (snd (parseSimpleBin s))) s" "suffix (snd (snd (parseSimpleOctal s))) s"
  "suffix (snd (snd (parseSimpleDec_int s))) s"
  unfolding scanner_defs by (rule suffix_scan_result)+

lemma suffix_float_digits [suffix_rules]: "suffix (snd (float_digits ops v s)) s"
  by (induction s arbitrary: v) (auto split: option.splits intro: suffix_ConsI)

lemma suffix_parseSimpleFloat [suffix_rules]: "suffix (snd (snd (parseSimpleFloat ops s))) s"
  using suffix_float_digits [of ops "f_of_nat ops 0" s] by (simp add: parseSimpleFloat_def split_def Let_def)

lemma suffix_fraction_digits [suffix_rules]: "suffix (snd (fraction_digits ops v m s)) s"
  by (induction s arbitrary: v m) (auto split: option.splits intro: suffix_ConsI)

lemma suffix_drop_trans: "suffix (drop n r) s" if "suffix r s"
  using that suffix_drop suffix_order.trans by blast

lemma suffix_parse_spec [suffix_rules]: "suffix (snd (snd (parse_spec ops specs s))) s"
proof (induction specs arbitrary: s)
  case Nil
  then show ?case by simp
next
  case (Cons spec specs)
  obtain name val where "spec = (name, val)" by fastforce
  with Cons show ?case
    by (auto simp: Let_def suffix_drop intro: suffix_order.trans [OF Cons suffix_drop])
qed

lemma suffix_finish_int [simp]: "snd (snd (finish_int ops negative ok v str)) = str"
  by (simp add: finish_int_def Let_def)

lemma suffix_parse_prefixed [suffix_rules]: "suffix (snd (snd (parse_prefixed ops negative s))) s"
proof -
  have hb: "suffix (snd (snd (parseSimpleHex (drop 2 s)))) s" "suffix (snd (snd (parseSimpleBin (drop 2 s)))) s"
    by (rule suffix_order.trans [OF suffix_scanners(2) suffix_drop],
        rule suffix_order.trans [OF suffix_scanners(3) suffix_drop])
  show ?thesis
    unfolding parse_prefixed_def split_def suffix_finish_int Let_def
    using hb suffix_scanners(4) [of s] by (simp split: if_split)
qed

lemma suffix_parse_exponent [suffix_rules]: "suffix (snd (snd (parse_exponent ops v s))) s"
proof -
  define w where "w = (if peek s = CHR ''-'' \<or> peek s = CHR ''+'' then drop 1 s else s)"
  obtain ok pow r where r: "parseSimpleDec_int w = (ok, pow, r)" by (metis prod_cases3)
  have "suffix r w" using suffix_scanners(5) [of w] r by simp
  moreover have "suffix w s" by (simp add: w_def suffix_drop)
  ultimately have "suffix r s" by (rule suffix_order.trans)
  then show ?thesis
    unfolding parse_exponent_def w_def [symmetric] r Let_def split_conv by simp
qed

lemma suffix_parse_fraction [suffix_rules]: "suffix (snd (snd (parse_fraction ops negative st v s))) s"
proof -
  obtain v' r where fr: "fraction_digits ops v (f_tenth ops) (drop (Suc 0) s) = (v', r)" by fastforce
  obtain ok v'' e where ex: "parse_exponent ops v' (drop (Suc 0) r) = (ok, v'', e)" by (metis prod_cases3)
  have r: "suffix r s"
    using suffix_order.trans [OF suffix_fraction_digits suffix_drop, of ops v "f_tenth ops" "Suc 0" s] fr
    by simp
  have "suffix e (drop (Suc 0) r)" using suffix_parse_exponent [of ops v' "drop (Suc 0) r"] ex by simp
  with r have e: "suffix e s" by (meson suffix_drop_trans suffix_order.trans)
  show ?thesis
    using suffix_parse_spec [of ops float_specs s] r e suffix_drop_trans [OF r] suffix_drop_trans [OF e]
    by (auto simp: parse_fraction_def fr ex Let_def)
qed

lemma suffix_parseFloat [suffix_rules]: "suffix (snd (snd (parseFloat ops text parse_type int_radix))) text"
proof -
  define st where "st = (if peek text = CHR ''-'' \<or> peek text = CHR ''+'' then drop 1 text else text)"
  define f where "f = parseSimpleFloat ops st"
  have st: "suffix st text" by (simp add: st_def suffix_drop)
  have f: "suffix (snd (snd f)) st" unfolding f_def by (rule suffix_parseSimpleFloat)
  have g: "suffix (snd (snd (parse_fraction ops neg st v (snd (snd f))))) st" for neg v
    by (rule suffix_order.trans [OF suffix_parse_fraction f])
  have "suffix (snd (snd (parseFloat ops text parse_type int_radix))) st"
    using suffix_scanners(1) [of st int_radix] suffix_parse_prefixed [of ops _ st] f g
    by (simp add: parseFloat_def split_def Let_def flip: st_def f_def)
  with st show ?thesis by (rule suffix_order.trans [rotated])
qed

text \<open>
  Whatever the floating point operations are and whether the scan succeeds or not,
  \<open>Utils::parseFloat\<close> leaves its reference argument on a position inside the text it was given: the
  remaining text is a suffix of the argument.
\<close>

theorem parseFloat_suffix: "suffix (snd (snd (parseFloat ops text parse_type int_radix))) text"
  by (rule suffix_parseFloat)

subsection \<open>A scanned number is not empty\<close>

lemma scan_result_less:
  "fst (scan_result s r) \<Longrightarrow> length (snd (snd (scan_result s r))) < length s"
  by (auto simp: scan_result_def split: option.splits prod.splits)

lemma finish_int_fst: "fst (finish_int ops negative ok v str) \<Longrightarrow> ok"
  by (auto simp: finish_int_def split: if_splits)

lemma parse_prefixed_less:
  assumes "fst (parse_prefixed ops negative s)"
  shows "length (snd (snd (parse_prefixed ops negative s))) < length s"
proof -
  have drop2: "length (drop 2 s) < length s" if "peek (drop 1 s) = c" "c \<noteq> CHR 0x00" for c
    using that by (cases s) (auto simp: peek_def)
  have "peek (drop 1 s) = CHR ''x'' \<Longrightarrow> length (snd (snd (parseSimpleHex (drop 2 s)))) < length s"
    using drop2 [of "CHR ''x''"] suffix_length_le [OF suffix_scanners(2), of "drop 2 s"] by auto
  moreover have "peek (drop 1 s) = CHR ''b'' \<Longrightarrow> length (snd (snd (parseSimpleBin (drop 2 s)))) < length s"
    using drop2 [of "CHR ''b''"] suffix_length_le [OF suffix_scanners(3), of "drop 2 s"] by auto
  moreover have "fst (parseSimpleOctal s) \<Longrightarrow> length (snd (snd (parseSimpleOctal s))) < length s"
    unfolding parseSimpleOctal_def by (rule scan_result_less)
  moreover have "(peek (drop 1 s) = CHR ''x'' \<and> snd (snd (parse_prefixed ops negative s)) = snd (snd (parseSimpleHex (drop 2 s))))
      \<or> (peek (drop 1 s) = CHR ''b'' \<and> snd (snd (parse_prefixed ops negative s)) = snd (snd (parseSimpleBin (drop 2 s))))
      \<or> (fst (parseSimpleOctal s) \<and> snd (snd (parse_prefixed ops negative s)) = snd (snd (parseSimpleOctal s)))"
  proof (cases "peek (drop 1 s) = CHR ''x''")
    case True
    then have "snd (snd (parse_prefixed ops negative s)) = snd (snd (parseSimpleHex (drop 2 s)))"
      unfolding parse_prefixed_def Let_def split_def suffix_finish_int by simp
    with True show ?thesis by blast
  next
    case x: False
    show ?thesis
    proof (cases "peek (drop 1 s) = CHR ''b''")
      case True
      with x have "snd (snd (parse_prefixed ops negative s)) = snd (snd (parseSimpleBin (drop 2 s)))"
        unfolding parse_prefixed_def Let_def split_def suffix_finish_int by simp
      with True show ?thesis by blast
    next
      case False
      with x have "snd (snd (parse_prefixed ops negative s)) = snd (snd (parseSimpleOctal s))"
        unfolding parse_prefixed_def Let_def split_def suffix_finish_int by simp
      moreover have "fst (parseSimpleOctal s)"
        using finish_int_fst [OF assms [unfolded parse_prefixed_def split_def Let_def]]
        unfolding if_not_P [OF x] if_not_P [OF False] fst_conv snd_conv by blast
      ultimately show ?thesis by blast
    qed
  qed
  ultimately show ?thesis by metis
qed

lemma parseFloat_token_less:
  assumes "fst (parseFloat ops text PARSE_TOKEN r)"
  shows "length (snd (snd (parseFloat ops text PARSE_TOKEN r))) < length text"
proof -
  define st where "st = (if peek text = CHR ''-'' \<or> peek text = CHR ''+'' then drop 1 text else text)"
  define f where "f = parseSimpleFloat ops st"
  have st: "length st \<le> length text" by (simp add: st_def)
  have f: "fst f \<Longrightarrow> length (snd (snd f)) < length st"
    unfolding f_def by (auto simp: parseSimpleFloat_def split: prod.splits)
  have g: "fst f \<Longrightarrow> length (snd (snd (parse_fraction ops neg st v (snd (snd f))))) < length st" for neg v
    using f suffix_length_le [OF suffix_parse_fraction, of ops neg st v "snd (snd f)"] by simp
  have "length (snd (snd (parseFloat ops text PARSE_TOKEN r))) < length st"
    using assms parse_prefixed_less [of ops _ st] f g
    by (auto simp: parseFloat_def split_def Let_def simp flip: st_def f_def split: if_splits)
  with st show ?thesis by simp
qed

end
