(* ===== verification/Chains.thy ===== *)
theory Chains
  imports Prelude
begin

text \<open>
  The hash tables of the core (\<open>StringRefs\<close>, \<open>UserptrRefs\<close>, \<open>CFuncRefs\<close>, \<open>Values\<close>,
  \<open>FreeCandidateValues\<close>): five copies of one scheme in the source, with an array of \<open>heads\<close>, a
  \<open>head_mask\<close>, a \<open>count\<close>, and nodes linked through a field of their own.  The scheme is modelled once,
  at the level of the pointers, over the field \<open>nxt\<close> and the hash field \<open>key\<close>.  A result \<open>None\<close> stands
  for undefined behaviour of the code: an access through a null \<open>heads\<close>, or a walk that does not end.

  The representation predicate \<open>table_rep\<close> relates a table to the list of its chains; the operations
  are shown to keep it and to change the set of members as they should.
\<close>

record chain_table =
  head_mask :: nat
  heads :: "link list"
  count :: nat

text \<open>The constructor; a null \<open>heads\<close> is the empty list.\<close>

definition empty_table :: chain_table where
  "empty_table = \<lparr>head_mask = 0, heads = [], count = 0\<rparr>"

definition slot_of :: "(addr \<Rightarrow> u32) \<Rightarrow> nat \<Rightarrow> addr \<Rightarrow> nat" where
  "slot_of key m a = unat (key a AND of_nat m)"

definition hash_slot :: "u32 \<Rightarrow> nat \<Rightarrow> nat" where
  "hash_slot hash m = unat (hash AND of_nat m)"

section \<open>The operations\<close>

text \<open>
  Moving one old chain over to the new heads: \<open>next = it->next; it->next = heads[slot];
  heads[slot] = it; it = next\<close>.
\<close>

partial_function (option) relink_chain ::
  "(addr \<Rightarrow> nat) \<Rightarrow> link \<Rightarrow> links \<Rightarrow> link list \<Rightarrow> (links \<times> link list) option" where
  "relink_chain slot p nxt hds =
     (case p of None \<Rightarrow> Some (nxt, hds)
      | Some a \<Rightarrow> relink_chain slot (nxt a) (nxt(a := hds ! slot a)) (hds[slot a := Some a]))"

fun relink_all ::
  "(addr \<Rightarrow> nat) \<Rightarrow> link list \<Rightarrow> links \<Rightarrow> link list \<Rightarrow> (links \<times> link list) option" where
  "relink_all slot [] nxt hds = Some (nxt, hds)"
| "relink_all slot (p # ps) nxt hds =
     Option.bind (relink_chain slot p nxt hds) (\<lambda>(nxt, hds). relink_all slot ps nxt hds)"

text \<open>\<open>HASH_GROW_SHIFT\<close> is 0: the array is doubled when there are as many nodes as \<open>head_mask\<close>.\<close>

definition grow_table ::
  "(addr \<Rightarrow> u32) \<Rightarrow> nat \<Rightarrow> chain_table \<Rightarrow> links \<Rightarrow> (chain_table \<times> links) option" where
  "grow_table key initial t nxt =
     (if count t \<ge> head_mask t then
        (let new_size = (if heads t \<noteq> [] then (head_mask t + 1) * 2 else initial);
             new_mask = new_size - 1
         in Option.bind (relink_all (slot_of key new_mask) (heads t) nxt (replicate new_size None))
              (\<lambda>(nxt, hds). Some (t\<lparr>heads := hds, head_mask := new_mask\<rparr>, nxt)))
      else Some (t, nxt))"

definition push_node ::
  "(addr \<Rightarrow> u32) \<Rightarrow> chain_table \<Rightarrow> links \<Rightarrow> addr \<Rightarrow> chain_table \<times> links" where
  "push_node key t nxt a =
     (let slot = slot_of key (head_mask t) a
      in (t\<lparr>heads := (heads t)[slot := Some a], count := count t + 1\<rparr>, nxt(a := heads t ! slot)))"

definition register_node ::
  "(addr \<Rightarrow> u32) \<Rightarrow> nat \<Rightarrow> chain_table \<Rightarrow> links \<Rightarrow> addr \<Rightarrow> (chain_table \<times> links) option" where
  "register_node key initial t nxt a =
     Option.bind (grow_table key initial t nxt) (\<lambda>(t, nxt). Some (push_node key t nxt a))"

text \<open>The walk \<open>for(; cur; prev = cur, cur = cur->next)\<close> up to the first node that satisfies \<open>P\<close>.\<close>

partial_function (option) walk_chain ::
  "(addr \<Rightarrow> bool) \<Rightarrow> links \<Rightarrow> link \<Rightarrow> link \<Rightarrow> (link \<times> addr) option option" where
  "walk_chain P nxt cur prev =
     (case cur of None \<Rightarrow> Some None
      | Some c \<Rightarrow> if P c then Some (Some (prev, c)) else walk_chain P nxt (nxt c) (Some c))"

definition find_in_slot ::
  "(addr \<Rightarrow> bool) \<Rightarrow> chain_table \<Rightarrow> links \<Rightarrow> nat \<Rightarrow> (link \<times> addr) option option" where
  "find_in_slot P t nxt slot =
     (if slot < length (heads t) then walk_chain P nxt (heads t ! slot) None else None)"

text \<open>Unlinking the node that the walk found: the new heads and the new links.\<close>

definition unlink_node :: "link list \<Rightarrow> links \<Rightarrow> nat \<Rightarrow> link \<Rightarrow> addr \<Rightarrow> link list \<times> links" where
  "unlink_node hds nxt slot prev c =
     (case prev of None \<Rightarrow> (hds[slot := nxt c], nxt) | Some p \<Rightarrow> (hds, nxt(p := nxt c)))"

text \<open>
  Removal of the first node in \<open>slot\<close> that satisfies \<open>P\<close>; \<open>clear_link\<close> says whether the code resets the
  removed node's link.  The second component tells which node was removed.
\<close>

definition remove_node ::
  "bool \<Rightarrow> (addr \<Rightarrow> bool) \<Rightarrow> chain_table \<Rightarrow> links \<Rightarrow> nat \<Rightarrow> (chain_table \<times> links \<times> link) option" where
  "remove_node clear_link P t nxt slot =
     Option.bind (find_in_slot P t nxt slot) (\<lambda>found.
       case found of None \<Rightarrow> Some (t, nxt, None)
       | Some (prev, c) \<Rightarrow>
           (let (hds, nxt) = unlink_node (heads t) nxt slot prev c;
                nxt = (if clear_link then nxt(c := None) else nxt)
            in Some (t\<lparr>heads := hds, count := count t - 1\<rparr>, nxt, Some c)))"

text \<open>Emptying one chain from its head, and the whole table.\<close>

partial_function (option) drop_chain :: "bool \<Rightarrow> link \<Rightarrow> links \<Rightarrow> (links \<times> nat) option" where
  "drop_chain clear_link p nxt =
     (case p of None \<Rightarrow> Some (nxt, 0)
      | Some a \<Rightarrow> Option.bind (drop_chain clear_link (nxt a) (if clear_link then nxt(a := None) else nxt))
          (\<lambda>(nxt, n). Some (nxt, Suc n)))"

fun drop_all :: "bool \<Rightarrow> link list \<Rightarrow> links \<Rightarrow> (links \<times> nat) option" where
  "drop_all clear_link [] nxt = Some (nxt, 0)"
| "drop_all clear_link (p # ps) nxt =
     Option.bind (drop_chain clear_link p nxt) (\<lambda>(nxt, n).
       Option.bind (drop_all clear_link ps nxt) (\<lambda>(nxt, m). Some (nxt, n + m)))"

section \<open>The representation\<close>

definition chains_rep :: "(addr \<Rightarrow> nat) \<Rightarrow> links \<Rightarrow> link list \<Rightarrow> addr list list \<Rightarrow> bool" where
  "chains_rep slot nxt hds css \<longleftrightarrow>
     length css = length hds
     \<and> (\<forall>i < length hds. chain nxt (hds ! i) (css ! i) \<and> (\<forall>a \<in> set (css ! i). slot a = i))"

definition table_rep :: "(addr \<Rightarrow> u32) \<Rightarrow> chain_table \<Rightarrow> links \<Rightarrow> addr list list \<Rightarrow> bool" where
  "table_rep key t nxt css \<longleftrightarrow>
     chains_rep (slot_of key (head_mask t)) nxt (heads t) css
     \<and> count t = length (concat css) \<and> count t \<le> head_mask t
     \<and> (if heads t = [] then head_mask t = 0 else length (heads t) = head_mask t + 1)"

definition table_inv :: "(addr \<Rightarrow> u32) \<Rightarrow> chain_table \<Rightarrow> links \<Rightarrow> bool" where
  "table_inv key t nxt \<longleftrightarrow> (\<exists>css. table_rep key t nxt css)"

definition members :: "chain_table \<Rightarrow> links \<Rightarrow> addr set" where
  "members t nxt = {a. \<exists>i < length (heads t). \<exists>xs. chain nxt (heads t ! i) xs \<and> a \<in> set xs}"

lemma slot_of_le: "slot_of key m a \<le> m"
  by (simp add: slot_of_def unat_and_of_nat_le)

lemma hash_slot_key: "hash_slot (key a) m = slot_of key m a"
  by (simp add: hash_slot_def slot_of_def)

lemma table_rep_empty: "table_rep key empty_table nxt []"
  by (simp add: table_rep_def empty_table_def chains_rep_def)

lemma members_rep:
  assumes "table_rep key t nxt css"
  shows "members t nxt = set (concat css)"
proof -
  have len: "length css = length (heads t)"
    and ch: "\<And>i. i < length (heads t) \<Longrightarrow> chain nxt (heads t ! i) (css ! i)"
    using assms by (auto simp: table_rep_def chains_rep_def)
  show ?thesis
    unfolding members_def
    using len ch by (fastforce simp: in_concat_nth simp del: set_concat dest: chain_unique)
qed

lemma members_slot:
  assumes "table_rep key t nxt css" "a \<in> set (concat css)"
  shows "slot_of key (head_mask t) a < length (heads t)"
    and "a \<in> set (css ! slot_of key (head_mask t) a)"
proof -
  obtain i where "i < length css" "a \<in> set (css ! i)"
    using assms(2) by (auto simp: in_concat_nth simp del: set_concat)
  then show "slot_of key (head_mask t) a < length (heads t)"
    and "a \<in> set (css ! slot_of key (head_mask t) a)"
    using assms(1) by (auto simp: table_rep_def chains_rep_def)
qed

lemma chains_rep_length: "chains_rep slot nxt hds css \<Longrightarrow> length css = length hds"
  by (simp add: chains_rep_def)

lemma chains_rep_chain:
  "chains_rep slot nxt hds css \<Longrightarrow> i < length hds \<Longrightarrow> chain nxt (hds ! i) (css ! i)"
  by (simp add: chains_rep_def)

lemma chains_rep_in:
  "chains_rep slot nxt hds css \<Longrightarrow> i < length hds \<Longrightarrow> a \<in> set (css ! i) \<Longrightarrow> slot a = i"
  by (simp add: chains_rep_def)

lemma chains_rep_distinct:
  assumes "chains_rep slot nxt hds css"
  shows "distinct (concat css)"
proof (rule distinct_concatI)
  note len = chains_rep_length [OF assms]
  show "distinct (css ! i)" if "i < length css" for i
    using chains_rep_chain [OF assms] that len by (auto intro: chain_distinct)
  show "set (css ! i) \<inter> set (css ! j) = {}" if "i < length css" "j < length css" "i \<noteq> j" for i j
    using chains_rep_in [OF assms] that len by (metis disjoint_iff)
qed

lemma chains_rep_slot:
  assumes "chains_rep slot nxt hds css" "a \<in> set (concat css)"
  shows "slot a < length hds \<and> a \<in> set (css ! slot a)"
proof -
  obtain i where "i < length css" "a \<in> set (css ! i)"
    using assms(2) by (auto simp: in_concat_nth simp del: set_concat)
  with assms(1) show ?thesis by (auto simp: chains_rep_def)
qed

section \<open>Adding a node\<close>

lemma chains_rep_push:
  assumes rep: "chains_rep slot nxt hds css" and new: "a \<notin> set (concat css)" and i: "slot a < length hds"
  shows "chains_rep slot (nxt(a := hds ! slot a)) (hds[slot a := Some a])
           (css[slot a := a # css ! slot a])"
    and "set (concat (css[slot a := a # css ! slot a])) = insert a (set (concat css))"
    and "length (concat (css[slot a := a # css ! slot a])) = Suc (length (concat css))"
proof -
  have len: "length css = length hds" using rep by (simp add: chains_rep_def)
  have notin: "a \<notin> set (css ! j)" if "j < length hds" for j
    using new that len by (auto simp: in_concat_nth simp del: set_concat)
  show "chains_rep slot (nxt(a := hds ! slot a)) (hds[slot a := Some a]) (css[slot a := a # css ! slot a])"
    unfolding chains_rep_def
  proof (intro conjI allI impI)
    show "length (css[slot a := a # css ! slot a]) = length (hds[slot a := Some a])" using len by simp
    fix j assume "j < length (hds[slot a := Some a])"
    then have j: "j < length hds" by simp
    show "chain (nxt(a := hds ! slot a)) (hds[slot a := Some a] ! j) (css[slot a := a # css ! slot a] ! j)"
      using chains_rep_chain [OF rep j] notin [OF j] i len by (cases "j = slot a") simp_all
    show "\<forall>b \<in> set (css[slot a := a # css ! slot a] ! j). slot b = j"
      using chains_rep_in [OF rep j] i len by (cases "j = slot a") auto
  qed
  show "set (concat (css[slot a := a # css ! slot a])) = insert a (set (concat css))"
  proof -
    have "set (concat (css[slot a := a # css ! slot a]))
        = (\<Union>j \<in> {..<length css} - {slot a}. set (css ! j)) \<union> insert a (set (css ! slot a))"
      using i len by (subst set_concat_update) simp_all
    also have "\<dots> = insert a (\<Union>j<length css. set (css ! j))"
      using i len by auto
    finally show ?thesis by (simp only: set_concat_nth [of css])
  qed
  show "length (concat (css[slot a := a # css ! slot a])) = Suc (length (concat css))"
    using length_concat_update [of "slot a" css "a # css ! slot a"] i len by simp
qed

lemma relink_chain_rep:
  assumes "chain nxt p xs" "chains_rep slot nxt hds css" "set xs \<inter> set (concat css) = {}"
    and "\<forall>a \<in> set xs. slot a < length hds"
  shows "\<exists>nxt' hds' css'. relink_chain slot p nxt hds = Some (nxt', hds')
    \<and> chains_rep slot nxt' hds' css' \<and> length hds' = length hds
    \<and> set (concat css') = set xs \<union> set (concat css)
    \<and> length (concat css') = length xs + length (concat css)
    \<and> (\<forall>a. a \<notin> set xs \<longrightarrow> nxt' a = nxt a)"
  using assms
proof (induction xs arbitrary: p nxt hds css)
  case Nil
  then show ?case by (auto simp: relink_chain.simps)
next
  case (Cons x xs)
  have p: "p = Some x" and ch: "chain nxt (nxt x) xs" using Cons.prems(1) by auto
  have x: "x \<notin> set xs" using chain_distinct [OF Cons.prems(1)] by simp
  have new: "x \<notin> set (concat css)" and slot: "slot x < length hds"
    using Cons.prems by auto
  note push = chains_rep_push [OF Cons.prems(2) new slot]
  let ?nxt = "nxt(x := hds ! slot x)" and ?hds = "hds[slot x := Some x]"
    and ?css = "css[slot x := x # css ! slot x]"
  have "chain ?nxt (nxt x) xs" using ch x by simp
  moreover have "set xs \<inter> set (concat ?css) = {}"
    unfolding push(2) using Cons.prems(3) x by auto
  moreover have "\<forall>a \<in> set xs. slot a < length ?hds" using Cons.prems(4) by simp
  ultimately obtain nxt' hds' css' where IH: "relink_chain slot (nxt x) ?nxt ?hds = Some (nxt', hds')"
      "chains_rep slot nxt' hds' css'" "length hds' = length ?hds"
      "set (concat css') = set xs \<union> set (concat ?css)"
      "length (concat css') = length xs + length (concat ?css)"
      "\<forall>a. a \<notin> set xs \<longrightarrow> nxt' a = ?nxt a"
    using Cons.IH push(1) by blast
  moreover have "relink_chain slot p nxt hds = Some (nxt', hds')"
    using IH(1) p by (simp add: relink_chain.simps [of slot "Some x"])
  ultimately show ?case unfolding push(2,3) by (intro exI [of _ nxt'] exI [of _ hds'] exI [of _ css']) auto
qed

lemma relink_all_rep:
  assumes "length ps = length xss" "\<forall>i < length ps. chain nxt (ps ! i) (xss ! i)"
    and "distinct (concat xss)" "chains_rep slot nxt hds css" "set (concat xss) \<inter> set (concat css) = {}"
    and "\<forall>a \<in> set (concat xss). slot a < length hds"
  shows "\<exists>nxt' hds' css'. relink_all slot ps nxt hds = Some (nxt', hds')
    \<and> chains_rep slot nxt' hds' css' \<and> length hds' = length hds
    \<and> set (concat css') = set (concat xss) \<union> set (concat css)
    \<and> length (concat css') = length (concat xss) + length (concat css)
    \<and> (\<forall>a. a \<notin> set (concat xss) \<longrightarrow> nxt' a = nxt a)"
  using assms
proof (induction ps arbitrary: xss nxt hds css)
  case Nil
  then show ?case by auto
next
  case (Cons p ps)
  then obtain xs yss where xss: "xss = xs # yss" by (cases xss) auto
  have "chain nxt p xs" using Cons.prems(2) xss by force
  then obtain nxt1 hds1 css1 where 1: "relink_chain slot p nxt hds = Some (nxt1, hds1)"
      "chains_rep slot nxt1 hds1 css1" "length hds1 = length hds"
      "set (concat css1) = set xs \<union> set (concat css)"
      "length (concat css1) = length xs + length (concat css)" "\<forall>a. a \<notin> set xs \<longrightarrow> nxt1 a = nxt a"
    using relink_chain_rep [of nxt p xs slot hds css] Cons.prems xss by fastforce
  have "chain nxt1 (ps ! i) (yss ! i)" if "i < length ps" for i
  proof -
    have c: "chain nxt (ps ! i) (yss ! i)" using Cons.prems(2) xss that by force
    have "set (yss ! i) \<subseteq> set (concat yss)" using that Cons.prems(1) xss by fastforce
    with Cons.prems(3) xss have "set (yss ! i) \<inter> set xs = {}" by auto
    with 1(6) c show ?thesis using chain_cong [of "yss ! i" nxt1 nxt] by blast
  qed
  moreover have "set (concat yss) \<inter> set (concat css1) = {}"
    unfolding 1(4) using Cons.prems(3,5) xss by auto
  ultimately obtain nxt2 hds2 css2 where "relink_all slot ps nxt1 hds1 = Some (nxt2, hds2)"
      "chains_rep slot nxt2 hds2 css2" "length hds2 = length hds1"
      "set (concat css2) = set (concat yss) \<union> set (concat css1)"
      "length (concat css2) = length (concat yss) + length (concat css1)"
      "\<forall>a. a \<notin> set (concat yss) \<longrightarrow> nxt2 a = nxt1 a"
    using Cons.IH [of yss nxt1 hds1 css1] 1 Cons.prems xss by fastforce
  then show ?case using 1 xss by (intro exI [of _ nxt2] exI [of _ hds2] exI [of _ css2]) auto
qed

lemma table_rep_chains: "table_rep key t nxt css \<Longrightarrow> chains_rep (slot_of key (head_mask t)) nxt (heads t) css"
  by (simp add: table_rep_def)

lemma table_rep_length: "table_rep key t nxt css \<Longrightarrow> length css = length (heads t)"
  by (auto simp: table_rep_def dest: chains_rep_length)

lemma grow_table_rep:
  assumes rep: "table_rep key t nxt css" and "0 < initial"
  shows "\<exists>t' nxt' css'. grow_table key initial t nxt = Some (t', nxt')
    \<and> chains_rep (slot_of key (head_mask t')) nxt' (heads t') css'
    \<and> length (heads t') = head_mask t' + 1 \<and> count t' = count t \<and> count t \<le> head_mask t'
    \<and> (head_mask t' \<noteq> 0 \<longrightarrow> count t < head_mask t' \<or> initial = 1)
    \<and> set (concat css') = set (concat css) \<and> length (concat css') = length (concat css)
    \<and> (\<forall>a. a \<notin> set (concat css) \<longrightarrow> nxt' a = nxt a)"
proof (cases "count t \<ge> head_mask t")
  case False
  then have "heads t \<noteq> []" using rep by (auto simp: table_rep_def split: if_splits)
  with False rep show ?thesis
    by (intro exI [of _ t] exI [of _ nxt] exI [of _ css]) (simp add: grow_table_def table_rep_def)
next
  case True
  define n where "n = (if heads t \<noteq> [] then (head_mask t + 1) * 2 else initial)"
  have n: "0 < n" using assms(2) by (simp add: n_def)
  have cm: "count t = head_mask t" using True rep by (simp add: table_rep_def)
  have "heads t = [] \<Longrightarrow> head_mask t = 0" using rep by (auto simp: table_rep_def)
  then have small: "count t \<le> n - 1" "n - 1 \<noteq> 0 \<longrightarrow> count t < n - 1 \<or> initial = 1"
    using cm assms(2) by (auto simp: n_def)
  let ?slot = "slot_of key (n - 1)" and ?new = "replicate n (None :: link)"
  have empty: "chains_rep ?slot nxt ?new (replicate n [])" by (simp add: chains_rep_def)
  have "\<exists>nxt' hds' css'. relink_all ?slot (heads t) nxt ?new = Some (nxt', hds')
      \<and> chains_rep ?slot nxt' hds' css' \<and> length hds' = length ?new
      \<and> set (concat css') = set (concat css) \<union> set (concat (replicate n ([] :: addr list)))
      \<and> length (concat css') = length (concat css) + length (concat (replicate n ([] :: addr list)))
      \<and> (\<forall>a. a \<notin> set (concat css) \<longrightarrow> nxt' a = nxt a)"
  proof (rule relink_all_rep [OF _ _ chains_rep_distinct empty])
    show "chains_rep (slot_of key (head_mask t)) nxt (heads t) css" using rep by (rule table_rep_chains)
    show "\<forall>i < length (heads t). chain nxt (heads t ! i) (css ! i)"
      using chains_rep_chain [OF table_rep_chains [OF rep]] by blast
    show "\<forall>a \<in> set (concat css). ?slot a < length ?new"
      using n by (auto intro: le_less_trans [OF slot_of_le])
  qed (use rep in \<open>auto simp: table_rep_length\<close>)
  then obtain nxt' hds' css' where r: "relink_all ?slot (heads t) nxt ?new = Some (nxt', hds')"
      "chains_rep ?slot nxt' hds' css'" "length hds' = n" "set (concat css') = set (concat css)"
      "length (concat css') = length (concat css)" "\<forall>a. a \<notin> set (concat css) \<longrightarrow> nxt' a = nxt a"
    by auto
  have "grow_table key initial t nxt = Some (t\<lparr>heads := hds', head_mask := n - 1\<rparr>, nxt')"
    using True r(1) by (simp add: grow_table_def Let_def n_def [symmetric])
  with r n small show ?thesis
    by (intro exI [of _ "t\<lparr>heads := hds', head_mask := n - 1\<rparr>"] exI [of _ nxt'] exI [of _ css']) simp
qed

lemma register_node_rep:
  assumes rep: "table_rep key t nxt css" and "1 < initial" and new: "a \<notin> set (concat css)"
  shows "\<exists>t' nxt' css'. register_node key initial t nxt a = Some (t', nxt')
    \<and> table_rep key t' nxt' css' \<and> set (concat css') = insert a (set (concat css))
    \<and> heads t' \<noteq> [] \<and> count t' = Suc (count t)
    \<and> (\<forall>b. b \<notin> insert a (set (concat css)) \<longrightarrow> nxt' b = nxt b)"
proof -
  obtain t1 nxt1 css1 where g: "grow_table key initial t nxt = Some (t1, nxt1)"
      "chains_rep (slot_of key (head_mask t1)) nxt1 (heads t1) css1"
      "length (heads t1) = head_mask t1 + 1" "count t1 = count t"
      "head_mask t1 \<noteq> 0 \<longrightarrow> count t < head_mask t1" "count t \<le> head_mask t1"
      "set (concat css1) = set (concat css)" "length (concat css1) = length (concat css)"
      "\<forall>a. a \<notin> set (concat css) \<longrightarrow> nxt1 a = nxt a"
    using grow_table_rep [OF rep, of initial] assms(2) by (auto simp del: set_concat length_concat)
  have m: "count t < head_mask t1"
  proof (rule ccontr)
    assume "\<not> count t < head_mask t1"
    with g have "head_mask t1 = 0" "count t = 0" by auto
    then show False
      using g(1) rep assms(2) by (auto simp: grow_table_def table_rep_def bind_eq_Some_conv Let_def split: if_splits)
  qed
  let ?slot = "slot_of key (head_mask t1)"
  have slot: "?slot a < length (heads t1)"
    using g(3) slot_of_le [of key "head_mask t1" a] by simp
  have new1: "a \<notin> set (concat css1)" using new g(7) by simp
  note push = chains_rep_push [OF g(2) new1 slot]
  have "count t = length (concat css)" using rep by (simp add: table_rep_def)
  then have "table_rep key (fst (push_node key t1 nxt1 a)) (snd (push_node key t1 nxt1 a))
      (css1[?slot a := a # css1 ! ?slot a])"
    using push(1,3) g(3,4,8) m by (auto simp: table_rep_def push_node_def Let_def)
  moreover have "register_node key initial t nxt a = Some (push_node key t1 nxt1 a)"
    using g(1) by (simp add: register_node_def)
  ultimately show ?thesis
    using push(2) g m
    by (intro exI [of _ "fst (push_node key t1 nxt1 a)"] exI [of _ "snd (push_node key t1 nxt1 a)"]
        exI [of _ "css1[?slot a := a # css1 ! ?slot a]"])
      (auto simp: push_node_def Let_def simp del: set_concat)
qed

section \<open>Finding and removing a node\<close>

lemma walk_chain_None:
  "chain nxt cur xs \<Longrightarrow> \<forall>x \<in> set xs. \<not> P x \<Longrightarrow> walk_chain P nxt cur prev = Some None"
  by (induction xs arbitrary: cur prev) (simp_all add: walk_chain.simps)

lemma walk_chain_Some:
  "chain nxt cur (us @ x # vs) \<Longrightarrow> \<forall>u \<in> set us. \<not> P u \<Longrightarrow> P x
    \<Longrightarrow> walk_chain P nxt cur prev = Some (Some (if us = [] then prev else Some (last us), x))"
  by (induction us arbitrary: cur prev) (simp_all add: walk_chain.simps)

lemma find_in_slot_cases:
  assumes rep: "table_rep key t nxt css" and i: "i < length (heads t)"
  shows "(find_in_slot P t nxt i = Some None \<and> (\<forall>x \<in> set (css ! i). \<not> P x))
    \<or> (\<exists>us x vs. css ! i = us @ x # vs \<and> (\<forall>u \<in> set us. \<not> P u) \<and> P x
        \<and> find_in_slot P t nxt i = Some (Some (if us = [] then None else Some (last us), x)))"
proof -
  have ch: "chain nxt (heads t ! i) (css ! i)"
    using chains_rep_chain [OF table_rep_chains [OF rep] i] .
  show ?thesis
  proof (cases "\<exists>x \<in> set (css ! i). P x")
    case False
    with ch i walk_chain_None show ?thesis by (auto simp: find_in_slot_def)
  next
    case True
    then obtain us x vs where "css ! i = us @ x # vs" "P x" "\<forall>u \<in> set us. \<not> P u"
      by (metis split_list_first_prop)
    with ch i walk_chain_Some [of nxt "heads t ! i" us x vs P None] show ?thesis
      by (auto simp: find_in_slot_def)
  qed
qed

text \<open>Unlinking one node of one chain.\<close>

lemma chains_rep_unlink:
  assumes rep: "chains_rep slot nxt hds css" and i: "i < length hds" and css: "css ! i = us @ c # vs"
    and un: "unlink_node hds nxt i (if us = [] then None else Some (last us)) c = (hds', nxt')"
  shows "chains_rep slot nxt' hds' (css[i := us @ vs]) \<and> length hds' = length hds
    \<and> (\<forall>b. b \<notin> set (concat css) \<longrightarrow> nxt' b = nxt b)"
proof -
  have len: "length css = length hds" using chains_rep_length [OF rep] .
  have ch: "chain nxt (hds ! i) (us @ c # vs)" using chains_rep_chain [OF rep i] css by simp
  have sl: "\<forall>a \<in> set (us @ vs). slot a = i" using chains_rep_in [OF rep i] css by auto
  show ?thesis
  proof (cases us rule: rev_cases)
    case Nil
    have hn: "hds' = hds[i := nxt c]" "nxt' = nxt" using un Nil by (auto simp: unlink_node_def)
    have "chain nxt (hds[i := nxt c] ! j) (css[i := us @ vs] ! j)" if "j < length hds" for j
      using chains_rep_chain [OF rep that] ch Nil that len by (cases "j = i") simp_all
    moreover have "\<forall>a \<in> set (css[i := us @ vs] ! j). slot a = j" if "j < length hds" for j
      using chains_rep_in [OF rep that] sl that len by (cases "j = i") simp_all
    ultimately show ?thesis using hn len by (simp add: chains_rep_def)
  next
    case (snoc ws w)
    have hn: "hds' = hds" "nxt' = nxt(w := nxt c)" using un snoc by (auto simp: unlink_node_def)
    have w: "w \<notin> set (css ! j)" if "j < length hds" "j \<noteq> i" for j
      using chains_rep_in [OF rep that(1)] sl snoc that by auto
    have c: "chain (nxt(w := nxt c)) (hds ! i) (us @ vs)" using chain_unlink [of nxt "hds ! i" ws w c vs] ch snoc by simp
    have "chain nxt' (hds' ! j) (css[i := us @ vs] ! j)" if "j < length hds" for j
      using chains_rep_chain [OF rep that] w [OF that] c hn that len by (cases "j = i") simp_all
    moreover have "\<forall>a \<in> set (css[i := us @ vs] ! j). slot a = j" if "j < length hds" for j
      using chains_rep_in [OF rep that] sl that len by (cases "j = i") simp_all
    moreover have "w \<in> set (concat css)"
      unfolding in_concat_nth using i len css snoc by force
    ultimately show ?thesis using hn len by (auto simp: chains_rep_def)
  qed
qed

lemma chains_rep_upd_notin:
  assumes "chains_rep slot nxt hds css" "c \<notin> set (concat css)"
  shows "chains_rep slot (nxt(c := q)) hds css"
proof -
  have "chain (nxt(c := q)) (hds ! j) (css ! j)" if "j < length hds" for j
  proof -
    have "c \<notin> set (css ! j)"
      using assms(2) chains_rep_length [OF assms(1)] that by (metis in_concat_nth)
    then show ?thesis using chains_rep_chain [OF assms(1) that] by simp
  qed
  then show ?thesis using assms(1) by (simp add: chains_rep_def)
qed

lemma concat_remove:
  assumes "i < length css" "css ! i = us @ c # vs" "distinct (concat css)"
  shows "set (concat (css[i := us @ vs])) = set (concat css) - {c}"
    and "Suc (length (concat (css[i := us @ vs]))) = length (concat css)"
proof -
  let ?rest = "\<Union>j \<in> {..<length css} - {i}. set (css ! j)"
  have "c \<notin> ?rest"
    using distinct_concat_nth_disjoint [OF assms(3) _ assms(1)] assms(2) by fastforce
  moreover have "distinct (us @ c # vs)"
    using assms by (metis distinct_concat_iff nth_mem)
  moreover have "set (concat css) = ?rest \<union> set (css ! i)"
    using set_concat_update [OF assms(1), of "css ! i"] by simp
  ultimately show "set (concat (css[i := us @ vs])) = set (concat css) - {c}"
    unfolding set_concat_update [OF assms(1)] using assms(2) by auto
  show "Suc (length (concat (css[i := us @ vs]))) = length (concat css)"
    using length_concat_update [OF assms(1), of "us @ vs"] assms(2) by simp
qed

lemma remove_node_rep:
  assumes rep: "table_rep key t nxt css" and i: "i < length (heads t)"
  shows "(remove_node clr P t nxt i = Some (t, nxt, None) \<and> (\<forall>x \<in> set (css ! i). \<not> P x))
    \<or> (\<exists>us c vs t' nxt'. css ! i = us @ c # vs \<and> (\<forall>u \<in> set us. \<not> P u) \<and> P c
        \<and> remove_node clr P t nxt i = Some (t', nxt', Some c)
        \<and> table_rep key t' nxt' (css[i := us @ vs])
        \<and> set (concat (css[i := us @ vs])) = set (concat css) - {c}
        \<and> Suc (count t') = count t \<and> (clr \<longrightarrow> nxt' c = None)
        \<and> (\<forall>b. b \<notin> set (concat css) \<longrightarrow> nxt' b = nxt b))"
    (is "?none \<or> ?some")
proof (cases "\<exists>x \<in> set (css ! i). P x")
  case False
  then have ?none using find_in_slot_cases [OF rep i, of P] by (auto simp: remove_node_def)
  then show ?thesis ..
next
  case True
  then obtain us c vs where f: "css ! i = us @ c # vs" "\<forall>u \<in> set us. \<not> P u" "P c"
      "find_in_slot P t nxt i = Some (Some (if us = [] then None else Some (last us), c))"
    using find_in_slot_cases [OF rep i, of P] by blast
  let ?css = "css[i := us @ vs]"
  obtain hds nxt1 where un: "unlink_node (heads t) nxt i (if us = [] then None else Some (last us)) c = (hds, nxt1)"
    by (cases "unlink_node (heads t) nxt i (if us = [] then None else Some (last us)) c")
  let ?nxt = "if clr then nxt1(c := None) else nxt1"
  let ?t = "t\<lparr>heads := hds, count := count t - 1\<rparr>"
  note cr = table_rep_chains [OF rep]
  note ul = chains_rep_unlink [OF cr i f(1) un]
  have il: "i < length css" using i table_rep_length [OF rep] by simp
  note rm = concat_remove [OF il f(1) chains_rep_distinct [OF cr]]
  have c: "c \<notin> set (concat ?css)" unfolding rm(1) by simp
  have "chains_rep (slot_of key (head_mask t)) ?nxt hds ?css"
    using ul chains_rep_upd_notin [OF _ c] by (cases clr) auto
  moreover have "count t = length (concat css)" "count t \<le> head_mask t" "length (heads t) = head_mask t + 1"
    using rep i by (auto simp: table_rep_def split: if_splits)
  ultimately have "table_rep key ?t ?nxt ?css" "Suc (count ?t) = count t"
    using rm(2) ul by (auto simp: table_rep_def)
  moreover have "remove_node clr P t nxt i = Some (?t, ?nxt, Some c)"
    using f(4) un by (simp add: remove_node_def)
  moreover have "c \<in> set (concat css)" unfolding in_concat_nth using il f(1) by force
  then have "\<forall>b. b \<notin> set (concat css) \<longrightarrow> ?nxt b = nxt b" using ul by auto
  ultimately have ?some
    using f rm(1) by (intro exI [of _ us] exI [of _ c] exI [of _ vs] exI [of _ ?t] exI [of _ ?nxt]) simp
  then show ?thesis ..
qed

section \<open>Emptying a table\<close>

lemma drop_chain_rep:
  "chain nxt p xs \<Longrightarrow> \<exists>nxt'. drop_chain clr p nxt = Some (nxt', length xs)
    \<and> (\<forall>b. b \<notin> set xs \<longrightarrow> nxt' b = nxt b) \<and> (clr \<longrightarrow> (\<forall>b \<in> set xs. nxt' b = None))"
proof (induction xs arbitrary: p nxt)
  case Nil
  then show ?case by (simp add: drop_chain.simps)
next
  case (Cons x xs)
  let ?nxt = "if clr then nxt(x := None) else nxt"
  have x: "x \<notin> set xs" using chain_distinct [OF Cons.prems] by simp
  then have "chain ?nxt (nxt x) xs" using Cons.prems by simp
  then obtain nxt' where "drop_chain clr (nxt x) ?nxt = Some (nxt', length xs)"
      "\<forall>b. b \<notin> set xs \<longrightarrow> nxt' b = ?nxt b" "clr \<longrightarrow> (\<forall>b \<in> set xs. nxt' b = None)"
    using Cons.IH by blast
  moreover have "p = Some x" using Cons.prems by simp
  ultimately show ?case using x by (auto simp: drop_chain.simps [of clr "Some x"])
qed

lemma drop_all_rep:
  assumes "length ps = length xss" "\<forall>i < length ps. chain nxt (ps ! i) (xss ! i)" "distinct (concat xss)"
  shows "\<exists>nxt'. drop_all clr ps nxt = Some (nxt', length (concat xss))
    \<and> (\<forall>b. b \<notin> set (concat xss) \<longrightarrow> nxt' b = nxt b) \<and> (clr \<longrightarrow> (\<forall>b \<in> set (concat xss). nxt' b = None))"
  using assms
proof (induction ps arbitrary: xss nxt)
  case Nil
  then show ?case by simp
next
  case (Cons p ps)
  then obtain xs yss where xss: "xss = xs # yss" by (cases xss) auto
  have "chain nxt p xs" using Cons.prems(2) xss by force
  then obtain nxt1 where 1: "drop_chain clr p nxt = Some (nxt1, length xs)"
      "\<forall>b. b \<notin> set xs \<longrightarrow> nxt1 b = nxt b" "clr \<longrightarrow> (\<forall>b \<in> set xs. nxt1 b = None)"
    using drop_chain_rep by blast
  have "chain nxt1 (ps ! i) (yss ! i)" if "i < length ps" for i
  proof -
    have c: "chain nxt (ps ! i) (yss ! i)" using Cons.prems(2) xss that by force
    have "set (yss ! i) \<subseteq> set (concat yss)" using that Cons.prems(1) xss by fastforce
    with Cons.prems(3) xss have "set (yss ! i) \<inter> set xs = {}" by auto
    with 1(2) c show ?thesis using chain_cong [of "yss ! i" nxt1 nxt] by blast
  qed
  then obtain nxt2 where "drop_all clr ps nxt1 = Some (nxt2, length (concat yss))"
      "\<forall>b. b \<notin> set (concat yss) \<longrightarrow> nxt2 b = nxt1 b" "clr \<longrightarrow> (\<forall>b \<in> set (concat yss). nxt2 b = None)"
    using Cons.IH [of yss nxt1] Cons.prems xss by fastforce
  moreover have "\<forall>b \<in> set xs. b \<notin> set (concat yss)" using Cons.prems(3) xss by auto
  moreover from calculation have "\<forall>b \<in> set xs. nxt2 b = nxt1 b" by blast
  ultimately show ?case using 1 xss by (intro exI [of _ nxt2]) auto
qed

lemma drop_table_rep:
  assumes rep: "table_rep key t nxt css"
  shows "\<exists>nxt'. drop_all clr (heads t) nxt = Some (nxt', count t)
    \<and> (\<forall>b. b \<notin> set (concat css) \<longrightarrow> nxt' b = nxt b) \<and> (clr \<longrightarrow> (\<forall>b \<in> set (concat css). nxt' b = None))"
proof -
  note cr = table_rep_chains [OF rep]
  have "count t = length (concat css)" using rep by (simp add: table_rep_def)
  then show ?thesis
    using drop_all_rep [of "heads t" css nxt clr] chains_rep_chain [OF cr] chains_rep_length [OF cr]
      chains_rep_distinct [OF cr] by (auto simp del: set_concat length_concat)
qed

section \<open>The tables as sets of nodes\<close>

text \<open>
  What the clients rely on: the chains are well formed, and a node outside the table has a null link,
  which is what \<open>OS_ASSERT(!node->hash_next_ref)\<close> asks of a node to be registered.
\<close>

definition registry_inv :: "(addr \<Rightarrow> u32) \<Rightarrow> chain_table \<Rightarrow> links \<Rightarrow> bool" where
  "registry_inv key t nxt \<longleftrightarrow> table_inv key t nxt \<and> (\<forall>a. a \<notin> members t nxt \<longrightarrow> nxt a = None)"

lemma registry_inv_link: "registry_inv key t nxt \<Longrightarrow> a \<notin> members t nxt \<Longrightarrow> nxt a = None"
  by (simp add: registry_inv_def)

lemma members_empty_table [simp]: "members empty_table nxt = {}"
  by (simp add: members_def empty_table_def)

lemma registry_inv_empty: "registry_inv key empty_table nxt \<longleftrightarrow> nxt = (\<lambda>_. None)"
  using table_rep_empty by (auto simp: registry_inv_def table_inv_def)

lemma registry_inv_rep:
  assumes "registry_inv key t nxt"
  obtains css where "table_rep key t nxt css" "members t nxt = set (concat css)"
    "count t = card (members t nxt)" "finite (members t nxt)"
proof -
  obtain css where rep: "table_rep key t nxt css" using assms by (auto simp: registry_inv_def table_inv_def)
  moreover have "members t nxt = set (concat css)" by (rule members_rep [OF rep])
  moreover have "count t = card (set (concat css))"
    using rep chains_rep_distinct [OF table_rep_chains [OF rep]]
    by (metis distinct_card table_rep_def)
  ultimately show ?thesis using that by (metis List.finite_set)
qed

lemma registry_count: "registry_inv key t nxt \<Longrightarrow> count t = card (members t nxt) \<and> finite (members t nxt)"
  by (erule registry_inv_rep) simp

lemma registry_heads:
  assumes "registry_inv key t nxt" "heads t \<noteq> []"
  shows "slot_of key (head_mask t) a < length (heads t)" "hash_slot h (head_mask t) < length (heads t)"
proof -
  have "length (heads t) = head_mask t + 1"
    using assms by (auto simp: registry_inv_def table_inv_def table_rep_def split: if_splits)
  then show "slot_of key (head_mask t) a < length (heads t)" "hash_slot h (head_mask t) < length (heads t)"
    using slot_of_le [of key "head_mask t" a] slot_of_le [of "\<lambda>_. h" "head_mask t" a]
    by (simp_all add: slot_of_def hash_slot_def)
qed

lemma registry_nonempty:
  assumes "registry_inv key t nxt" "a \<in> members t nxt"
  shows "heads t \<noteq> []"
  using assms by (auto simp: members_def)

lemma register_node_set:
  assumes inv: "registry_inv key t nxt" and "1 < initial" and new: "a \<notin> members t nxt"
  shows "\<exists>t' nxt'. register_node key initial t nxt a = Some (t', nxt') \<and> registry_inv key t' nxt'
    \<and> members t' nxt' = insert a (members t nxt) \<and> count t' = Suc (count t)"
proof -
  obtain css where rep: "table_rep key t nxt css" and mem: "members t nxt = set (concat css)"
    using inv by (rule registry_inv_rep)
  obtain t' nxt' css' where r: "register_node key initial t nxt a = Some (t', nxt')"
      "table_rep key t' nxt' css'" "set (concat css') = insert a (set (concat css))"
      "count t' = Suc (count t)" "\<forall>b. b \<notin> insert a (set (concat css)) \<longrightarrow> nxt' b = nxt b"
    using register_node_rep [OF rep assms(2)] new mem by metis
  have mem': "members t' nxt' = insert a (members t nxt)"
    using members_rep [OF r(2)] r(3) mem by simp
  have "registry_inv key t' nxt'"
    using r(2,5) mem' mem registry_inv_link [OF inv] by (auto simp: registry_inv_def table_inv_def)
  with r mem' show ?thesis by blast
qed

lemma remove_node_set:
  assumes inv: "registry_inv key t nxt" and a: "a \<in> members t nxt" "P a"
    and only: "\<And>b. b \<in> members t nxt \<Longrightarrow> P b \<Longrightarrow> b = a" and i: "i = slot_of key (head_mask t) a"
  shows "\<exists>t' nxt'. remove_node True P t nxt i = Some (t', nxt', Some a) \<and> registry_inv key t' nxt'
    \<and> members t' nxt' = members t nxt - {a} \<and> Suc (count t') = count t"
proof -
  obtain css where rep: "table_rep key t nxt css" and mem: "members t nxt = set (concat css)"
    using inv by (rule registry_inv_rep)
  have il: "i < length (heads t)" and ai: "a \<in> set (css ! i)"
    using members_slot [OF rep] a(1) mem i by auto
  then have sub: "set (css ! i) \<subseteq> members t nxt"
    unfolding mem using table_rep_length [OF rep] by (auto simp: in_concat_nth simp del: set_concat)
  obtain us c vs t' nxt' where r: "css ! i = us @ c # vs" "P c"
      "remove_node True P t nxt i = Some (t', nxt', Some c)" "table_rep key t' nxt' (css[i := us @ vs])"
      "set (concat (css[i := us @ vs])) = set (concat css) - {c}" "Suc (count t') = count t"
      "nxt' c = None" "\<forall>b. b \<notin> set (concat css) \<longrightarrow> nxt' b = nxt b"
    using remove_node_rep [OF rep il, of True P] ai a(2) by metis
  have c: "c = a" using only [of c] sub r(1,2) by auto
  have mem': "members t' nxt' = members t nxt - {a}"
    using members_rep [OF r(4)] r(5) mem c by simp
  have "registry_inv key t' nxt'"
    using r(4,7,8) mem' mem c registry_inv_link [OF inv] by (auto simp: registry_inv_def table_inv_def)
  with r mem' c show ?thesis by blast
qed

lemma find_in_slot_set:
  assumes inv: "registry_inv key t nxt" and i: "i < length (heads t)"
  shows "(find_in_slot P t nxt i = Some None
        \<and> (\<forall>b \<in> members t nxt. slot_of key (head_mask t) b = i \<longrightarrow> \<not> P b))
    \<or> (\<exists>prev c. find_in_slot P t nxt i = Some (Some (prev, c)) \<and> c \<in> members t nxt
        \<and> slot_of key (head_mask t) c = i \<and> P c)"
proof -
  obtain css where rep: "table_rep key t nxt css" and mem: "members t nxt = set (concat css)"
    using inv by (rule registry_inv_rep)
  have sub: "b \<in> set (css ! i) \<longleftrightarrow> b \<in> members t nxt \<and> slot_of key (head_mask t) b = i" for b
    using chains_rep_in [OF table_rep_chains [OF rep] i] members_slot(2) [OF rep] i
      table_rep_length [OF rep] unfolding mem by (metis in_concat_nth)
  show ?thesis
    using find_in_slot_cases [OF rep i, of P]
  proof (elim disjE exE conjE)
    fix us c vs assume "css ! i = us @ c # vs" "P c"
      "find_in_slot P t nxt i = Some (Some (if us = [] then None else Some (last us), c))"
    then show ?thesis using sub [of c] by auto
  qed (use sub in auto)
qed

lemma drop_table_set:
  assumes "registry_inv key t nxt"
  shows "\<exists>nxt'. drop_all clr (heads t) nxt = Some (nxt', count t)
    \<and> (\<forall>b. b \<notin> members t nxt \<longrightarrow> nxt' b = None) \<and> (clr \<longrightarrow> nxt' = (\<lambda>_. None))"
proof -
  obtain css where rep: "table_rep key t nxt css" and mem: "members t nxt = set (concat css)"
    using assms by (rule registry_inv_rep)
  from drop_table_rep [OF rep, of clr] show ?thesis
    using registry_inv_link [OF assms] unfolding mem by (fastforce simp del: set_concat)
qed

end
