(* ===== verification/RefTables.thy ===== *)
theory RefTables
  imports Chains Hashing
begin

text \<open>
  The registries of \<open>OS::Core\<close>: \<open>string_refs\<close>, \<open>userptr_refs\<close>, \<open>cfunc_refs\<close>, \<open>values\<close> and
  \<open>gc_candidate_values\<close>, with their register, unregister, lookup and delete functions, over the
  chained tables of \<open>Chains\<close>.  \<open>core\<close> holds the fields of the garbage-collected objects that these
  functions read and write, one map from addresses per field, and the tables themselves.  A failed
  \<open>OS_ASSERT\<close> and an access through a null \<open>heads\<close> are the result \<open>None\<close>.

  The locale \<open>node_registry\<close> states what the run-time expects of every registry (a set of objects that
  grows and shrinks one object at a time); it is interpreted on the four registries whose functions
  take the object itself.
\<close>

section \<open>State\<close>

datatype os_value = VNull | VBool bool | VNumber u64 | VGC addr

datatype OS_EValueType =
  OS_VALUE_TYPE_NULL | OS_VALUE_TYPE_BOOL | OS_VALUE_TYPE_NUMBER | OS_VALUE_TYPE_STRING
| OS_VALUE_TYPE_ARRAY | OS_VALUE_TYPE_OBJECT | OS_VALUE_TYPE_USERDATA | OS_VALUE_TYPE_USERPTR
| OS_VALUE_TYPE_FUNCTION | OS_VALUE_TYPE_CFUNCTION

datatype prototype_index =
  PROTOTYPE_BOOL | PROTOTYPE_NUMBER | PROTOTYPE_STRING | PROTOTYPE_OBJECT | PROTOTYPE_ARRAY
| PROTOTYPE_FUNCTION | PROTOTYPE_USERDATA

text \<open>
  The first group of fields are those of \<open>GCValue\<close> and of its subclasses for strings, user data and C
  functions; the second group are the fields of \<open>Core\<close> itself.
\<close>

record core =
  value_id :: "addr \<Rightarrow> u32"
  ref_count :: "addr \<Rightarrow> u32"
  value_prototype :: "addr \<Rightarrow> link"
  value_type :: "addr \<Rightarrow> OS_EValueType"
  value_step :: "addr \<Rightarrow> u32"
  hash_next :: links
  hash_next_free_candidate :: links
  string_next_ref :: links
  userptr_next_ref :: links
  cfunc_next_ref :: links
  gc_string_of :: "addr \<Rightarrow> gc_string"
  userdata_crc :: "addr \<Rightarrow> u32"
  userdata_ptr :: "addr \<Rightarrow> u64"
  userdata_dtor :: "addr \<Rightarrow> u64"
  userdata_user_param :: "addr \<Rightarrow> u64"
  cfunc_func :: "addr \<Rightarrow> u64"
  cfunc_user_param :: "addr \<Rightarrow> u64"
  cfunc_closure_values :: "addr \<Rightarrow> os_value list"
  cfunc_hash :: "addr \<Rightarrow> u32"
  prototypes :: "prototype_index \<Rightarrow> addr"
  string_refs :: chain_table
  userptr_refs :: chain_table
  cfunc_refs :: chain_table
  value_refs :: chain_table
  gc_candidate_values :: chain_table
  next_id :: u32
  num_created_values :: u32
  gc_step_type :: u32
  gc_in_progress :: bool
  gc_fix_in_progress :: bool
  stack_values :: "os_value list"

definition OS_PTR_HASH :: "u64 \<Rightarrow> u32" where
  "OS_PTR_HASH p = signed_drop_bit 2 (ucast p :: u32)"

definition initial_heads :: nat where
  "initial_heads = 32"

definition os_assert :: "bool \<Rightarrow> 'a option \<Rightarrow> 'a option" where
  "os_assert b k = (if b then k else None)"

lemma os_assert_simps [simp]: "os_assert True k = k" "os_assert False k = None"
  by (simp_all add: os_assert_def)

definition string_key :: "core \<Rightarrow> addr \<Rightarrow> u32" where
  "string_key c a = str_hash (gc_string_of c a)"

definition userptr_key :: "core \<Rightarrow> addr \<Rightarrow> u32" where
  "userptr_key c a = OS_PTR_HASH (userdata_ptr c a)"

section \<open>String references\<close>

definition registerStringRef :: "addr \<Rightarrow> core \<Rightarrow> core option" where
  "registerStringRef str_ref c =
     Option.bind (register_node (string_key c) initial_heads (string_refs c) (string_next_ref c) str_ref)
       (\<lambda>(t, nxt). Some (c\<lparr>string_refs := t, string_next_ref := nxt\<rparr>))"

definition unregisterStringRef :: "addr \<Rightarrow> core \<Rightarrow> core option" where
  "unregisterStringRef str_ref c =
     Option.bind (remove_node True (\<lambda>cur. cur = str_ref) (string_refs c) (string_next_ref c)
                    (slot_of (string_key c) (head_mask (string_refs c)) str_ref))
       (\<lambda>(t, nxt, removed). os_assert (removed \<noteq> None)
          (Some (c\<lparr>string_refs := t, string_next_ref := nxt\<rparr>)))"

definition deleteStringRefs :: "core \<Rightarrow> core option" where
  "deleteStringRefs c =
     (if heads (string_refs c) = [] then Some c
      else Option.bind (drop_all False (heads (string_refs c)) (string_next_ref c))
             (\<lambda>(nxt, n). Some (c\<lparr>string_refs := empty_table, string_next_ref := nxt\<rparr>)))"

section \<open>User pointer references\<close>

definition registerUserptrRef :: "addr \<Rightarrow> core \<Rightarrow> core option" where
  "registerUserptrRef ref c =
     os_assert (userptr_next_ref c ref = None)
       (Option.bind (register_node (userptr_key c) initial_heads (userptr_refs c) (userptr_next_ref c) ref)
         (\<lambda>(t, nxt). Some (c\<lparr>userptr_refs := t, userptr_next_ref := nxt\<rparr>)))"

definition unregisterUserptrRef :: "addr \<Rightarrow> core \<Rightarrow> core option" where
  "unregisterUserptrRef ref c =
     Option.bind (remove_node True (\<lambda>cur. cur = ref) (userptr_refs c) (userptr_next_ref c)
                    (slot_of (userptr_key c) (head_mask (userptr_refs c)) ref))
       (\<lambda>(t, nxt, removed). os_assert (removed \<noteq> None)
          (Some (c\<lparr>userptr_refs := t, userptr_next_ref := nxt\<rparr>)))"

text \<open>The overload that finds the object by pointer and identifier; it does not reset the link.\<close>

definition unregisterUserptrRef_ptr :: "u64 \<Rightarrow> u32 \<Rightarrow> core \<Rightarrow> core option" where
  "unregisterUserptrRef_ptr ptr vid c =
     (if count (userptr_refs c) > 0 then
        os_assert (heads (userptr_refs c) \<noteq> [] \<and> head_mask (userptr_refs c) \<noteq> 0)
          (Option.bind (remove_node False (\<lambda>cur. value_id c cur = vid) (userptr_refs c) (userptr_next_ref c)
                          (hash_slot (OS_PTR_HASH ptr) (head_mask (userptr_refs c))))
            (\<lambda>(t, nxt, removed). Some (c\<lparr>userptr_refs := t, userptr_next_ref := nxt\<rparr>)))
      else Some c)"

definition deleteUserptrRefs :: "core \<Rightarrow> core option" where
  "deleteUserptrRefs c =
     (if heads (userptr_refs c) = [] then Some c
      else Option.bind (drop_all True (heads (userptr_refs c)) (userptr_next_ref c))
             (\<lambda>(nxt, n). Some (c\<lparr>userptr_refs := empty_table, userptr_next_ref := nxt\<rparr>)))"

definition findUserPointerValue :: "u64 \<Rightarrow> core \<Rightarrow> link option" where
  "findUserPointerValue ptr c =
     (if ptr \<noteq> 0 \<and> count (userptr_refs c) > 0 then
        os_assert (heads (userptr_refs c) \<noteq> [] \<and> head_mask (userptr_refs c) > 0)
          (Option.bind (find_in_slot (\<lambda>a. userdata_ptr c a = ptr) (userptr_refs c) (userptr_next_ref c)
                          (hash_slot (OS_PTR_HASH ptr) (head_mask (userptr_refs c))))
            (\<lambda>found. Some (map_option snd found)))
      else Some None)"

section \<open>C function references\<close>

definition registerCFuncRef :: "addr \<Rightarrow> core \<Rightarrow> core option" where
  "registerCFuncRef ref c =
     os_assert (cfunc_next_ref c ref = None) (os_assert (cfunc_hash c ref \<noteq> 0)
       (Option.bind (register_node (cfunc_hash c) initial_heads (cfunc_refs c) (cfunc_next_ref c) ref)
         (\<lambda>(t, nxt). Some (c\<lparr>cfunc_refs := t, cfunc_next_ref := nxt\<rparr>))))"

definition unregisterCFuncRef :: "addr \<Rightarrow> core \<Rightarrow> core option" where
  "unregisterCFuncRef ref c =
     Option.bind (remove_node True (\<lambda>cur. cur = ref) (cfunc_refs c) (cfunc_next_ref c)
                    (slot_of (cfunc_hash c) (head_mask (cfunc_refs c)) ref))
       (\<lambda>(t, nxt, removed). os_assert (removed \<noteq> None)
          (Some (c\<lparr>cfunc_refs := t, cfunc_next_ref := nxt\<rparr>)))"

text \<open>\<open>deleteCFuncRefs\<close> leaves the links of the nodes alone.\<close>

definition deleteCFuncRefs :: "core \<Rightarrow> core option" where
  "deleteCFuncRefs c =
     (if heads (cfunc_refs c) = [] then Some c
      else Option.bind (drop_all False (heads (cfunc_refs c)) (cfunc_next_ref c))
             (\<lambda>(nxt, n). Some (c\<lparr>cfunc_refs := empty_table, cfunc_next_ref := nxt\<rparr>)))"

section \<open>Candidates of the collector\<close>

definition free_candidate_get :: "u32 \<Rightarrow> core \<Rightarrow> link option" where
  "free_candidate_get vid c =
     (if heads (gc_candidate_values c) = [] then Some None
      else Option.bind (find_in_slot (\<lambda>a. value_id c a = vid) (gc_candidate_values c)
                          (hash_next_free_candidate c) (hash_slot vid (head_mask (gc_candidate_values c))))
             (\<lambda>found. Some (map_option snd found)))"

definition registerFreeCandidateValue :: "addr \<Rightarrow> core \<Rightarrow> core option" where
  "registerFreeCandidateValue a c =
     os_assert (value_id c a \<noteq> 0)
       (Option.bind (free_candidate_get (value_id c a) c) (\<lambda>old. os_assert (old = None)
         (Option.bind (register_node (value_id c) initial_heads (gc_candidate_values c)
                         (hash_next_free_candidate c) a)
           (\<lambda>(t, nxt). Some (c\<lparr>gc_candidate_values := t, hash_next_free_candidate := nxt,
                               value_step := (value_step c)(a := gc_step_type c)\<rparr>)))))"

definition addFreeCandidateValue :: "addr \<Rightarrow> core \<Rightarrow> core option" where
  "addFreeCandidateValue a c =
     Option.bind (free_candidate_get (value_id c a) c)
       (\<lambda>old. if old = None then registerFreeCandidateValue a c else Some c)"

definition unregisterFreeCandidateValue :: "addr \<Rightarrow> core \<Rightarrow> core option" where
  "unregisterFreeCandidateValue a c =
     Option.bind (remove_node True (\<lambda>cur. cur = a) (gc_candidate_values c) (hash_next_free_candidate c)
                    (slot_of (value_id c) (head_mask (gc_candidate_values c)) a))
       (\<lambda>(t, nxt, removed). Some (c\<lparr>gc_candidate_values := t, hash_next_free_candidate := nxt\<rparr>))"

text \<open>The \<open>while(true)\<close> around the sweep ends after one round because the count reaches 0.\<close>

definition deleteFreeCandidateValues :: "core \<Rightarrow> core option" where
  "deleteFreeCandidateValues c =
     (let t = gc_candidate_values c in
      if heads t \<noteq> [] \<and> count t > 0 then
        Option.bind (drop_all True (heads t) (hash_next_free_candidate c))
          (\<lambda>(nxt, n). os_assert (count t - n = 0)
             (Some (c\<lparr>gc_candidate_values := empty_table, hash_next_free_candidate := nxt\<rparr>)))
      else os_assert (count t = 0)
        (Some (if heads t \<noteq> [] then c\<lparr>gc_candidate_values := empty_table\<rparr> else c)))"

section \<open>All values\<close>

definition values_get :: "u32 \<Rightarrow> core \<Rightarrow> link option" where
  "values_get vid c =
     Option.bind (find_in_slot (\<lambda>a. value_id c a = vid) (value_refs c) (hash_next c)
                    (hash_slot vid (head_mask (value_refs c))))
       (\<lambda>found. Some (map_option snd found))"

definition registerValueAndPush :: "addr \<Rightarrow> core \<Rightarrow> core option" where
  "registerValueAndPush a c =
     (let c = c\<lparr>value_id := (value_id c)(a := next_id c), next_id := next_id c + 1,
                value_step := (value_step c)(a := gc_step_type c)\<rparr>
      in Option.bind (register_node (value_id c) initial_heads (value_refs c) (hash_next c) a)
           (\<lambda>(t, nxt). registerFreeCandidateValue a
              (c\<lparr>value_refs := t, hash_next := nxt, stack_values := stack_values c @ [VGC a],
                 num_created_values := num_created_values c + 1\<rparr>)))"

definition unregisterValue :: "u32 \<Rightarrow> core \<Rightarrow> (core \<times> link) option" where
  "unregisterValue vid c =
     Option.bind (free_candidate_get vid c) (\<lambda>old. os_assert (old = None)
       (Option.bind (remove_node True (\<lambda>cur. value_id c cur = vid) (value_refs c) (hash_next c)
                       (hash_slot vid (head_mask (value_refs c))))
         (\<lambda>(t, nxt, removed). Some (c\<lparr>value_refs := t, hash_next := nxt\<rparr>, removed))))"

section \<open>The registry interface\<close>

datatype reg_op = Register addr | Unregister addr

fun ops_effect :: "reg_op list \<Rightarrow> addr set \<Rightarrow> addr set" where
  "ops_effect [] S = S"
| "ops_effect (Register a # ops) S = ops_effect ops (insert a S)"
| "ops_effect (Unregister a # ops) S = ops_effect ops (S - {a})"

text \<open>Objects are registered while absent and unregistered while present.\<close>

fun ops_allowed :: "(addr \<Rightarrow> bool) \<Rightarrow> reg_op list \<Rightarrow> addr set \<Rightarrow> bool" where
  "ops_allowed ok [] S \<longleftrightarrow> True"
| "ops_allowed ok (Register a # ops) S \<longleftrightarrow> ok a \<and> a \<notin> S \<and> ops_allowed ok ops (insert a S)"
| "ops_allowed ok (Unregister a # ops) S \<longleftrightarrow> a \<in> S \<and> ops_allowed ok ops (S - {a})"

fun run_ops ::
  "(addr \<Rightarrow> 's \<Rightarrow> 's option) \<Rightarrow> (addr \<Rightarrow> 's \<Rightarrow> 's option) \<Rightarrow> reg_op list \<Rightarrow> 's \<Rightarrow> 's option" where
  "run_ops reg unreg [] s = Some s"
| "run_ops reg unreg (Register a # ops) s = Option.bind (reg a s) (run_ops reg unreg ops)"
| "run_ops reg unreg (Unregister a # ops) s = Option.bind (unreg a s) (run_ops reg unreg ops)"

locale node_registry =
  fixes register unregister :: "addr \<Rightarrow> 's \<Rightarrow> 's option"
    and delete_all :: "'s \<Rightarrow> 's option"
    and inv :: "'s \<Rightarrow> bool"
    and contents :: "'s \<Rightarrow> addr set"
    and admissible :: "'s \<Rightarrow> addr \<Rightarrow> bool"
  assumes register: "inv s \<Longrightarrow> a \<notin> contents s \<Longrightarrow> admissible s a \<Longrightarrow>
      \<exists>s'. register a s = Some s' \<and> inv s' \<and> contents s' = insert a (contents s) \<and> admissible s' = admissible s"
    and unregister: "inv s \<Longrightarrow> a \<in> contents s \<Longrightarrow>
      \<exists>s'. unregister a s = Some s' \<and> inv s' \<and> contents s' = contents s - {a} \<and> admissible s' = admissible s"
    and delete_all: "inv s \<Longrightarrow> \<exists>s'. delete_all s = Some s' \<and> contents s' = {}"
begin

lemma run:
  assumes "inv s" "ops_allowed (admissible s) ops (contents s)"
  shows "\<exists>s'. run_ops register unregister ops s = Some s' \<and> inv s'
    \<and> contents s' = ops_effect ops (contents s) \<and> admissible s' = admissible s"
  using assms
proof (induction ops arbitrary: s)
  case Nil
  then show ?case by simp
next
  case (Cons op ops)
  show ?case
  proof (cases op)
    case (Register a)
    with Cons.prems obtain s1 where "register a s = Some s1" "inv s1"
        "contents s1 = insert a (contents s)" "admissible s1 = admissible s"
      using register [of s a] by auto
    with Cons.IH [of s1] Cons.prems Register show ?thesis by auto
  next
    case (Unregister a)
    with Cons.prems obtain s1 where "unregister a s = Some s1" "inv s1"
        "contents s1 = contents s - {a}" "admissible s1 = admissible s"
      using unregister [of s a] by auto
    with Cons.IH [of s1] Cons.prems Unregister show ?thesis by auto
  qed
qed

text \<open>Registering and unregistering one object leaves the contents as they were.\<close>

lemma register_unregister:
  assumes "inv s" "a \<notin> contents s" "admissible s a"
  shows "\<exists>s'. run_ops register unregister [Register a, Unregister a] s = Some s' \<and> inv s'
    \<and> contents s' = contents s"
  using run [of s "[Register a, Unregister a]"] assms by auto

lemma run_then_delete:
  assumes "inv s" "ops_allowed (admissible s) ops (contents s)"
  shows "\<exists>s'. Option.bind (run_ops register unregister ops s) delete_all = Some s' \<and> contents s' = {}"
proof -
  obtain s1 where "run_ops register unregister ops s = Some s1" "inv s1"
    using run [OF assms] by blast
  with delete_all [of s1] show ?thesis by auto
qed

end

definition string_members :: "core \<Rightarrow> addr set" where
  "string_members c = members (string_refs c) (string_next_ref c)"

definition string_inv :: "core \<Rightarrow> bool" where
  "string_inv c \<longleftrightarrow> registry_inv (string_key c) (string_refs c) (string_next_ref c)"

definition userptr_members :: "core \<Rightarrow> addr set" where
  "userptr_members c = members (userptr_refs c) (userptr_next_ref c)"

definition userptr_inv :: "core \<Rightarrow> bool" where
  "userptr_inv c \<longleftrightarrow> registry_inv (userptr_key c) (userptr_refs c) (userptr_next_ref c)"

definition cfunc_members :: "core \<Rightarrow> addr set" where
  "cfunc_members c = members (cfunc_refs c) (cfunc_next_ref c)"

definition cfunc_inv :: "core \<Rightarrow> bool" where
  "cfunc_inv c \<longleftrightarrow> registry_inv (cfunc_hash c) (cfunc_refs c) (cfunc_next_ref c)"

definition candidate_members :: "core \<Rightarrow> addr set" where
  "candidate_members c = members (gc_candidate_values c) (hash_next_free_candidate c)"

definition candidate_inv :: "core \<Rightarrow> bool" where
  "candidate_inv c \<longleftrightarrow> registry_inv (value_id c) (gc_candidate_values c) (hash_next_free_candidate c)"

text \<open>An object with an identifier of its own.\<close>

definition own_id :: "core \<Rightarrow> addr \<Rightarrow> bool" where
  "own_id c a \<longleftrightarrow> value_id c a \<noteq> 0 \<and> (\<forall>b. value_id c b = value_id c a \<longrightarrow> b = a)"

lemmas string_defs = string_members_def string_inv_def
lemmas userptr_defs = userptr_members_def userptr_inv_def
lemmas cfunc_defs = cfunc_members_def cfunc_inv_def
lemmas candidate_defs = candidate_members_def candidate_inv_def

lemma initial_heads_gt: "1 < initial_heads"
  by (simp add: initial_heads_def)

lemma register_initial:
  assumes "registry_inv key t nxt" "a \<notin> members t nxt"
  obtains t' nxt' where "register_node key initial_heads t nxt a = Some (t', nxt')"
    "registry_inv key t' nxt'" "members t' nxt' = insert a (members t nxt)" "count t' = Suc (count t)"
  using register_node_set [OF assms(1) initial_heads_gt assms(2)] by blast

lemma remove_self:
  assumes "registry_inv key t nxt" "a \<in> members t nxt"
  obtains t' nxt' where "remove_node True (\<lambda>cur. cur = a) t nxt (slot_of key (head_mask t) a) = Some (t', nxt', Some a)"
    "registry_inv key t' nxt'" "members t' nxt' = members t nxt - {a}" "Suc (count t') = count t"
  using remove_node_set [OF assms, of "\<lambda>cur. cur = a"] by blast

lemma drop_members:
  assumes "registry_inv key t nxt"
  obtains nxt' where "drop_all clr (heads t) nxt = Some (nxt', count t)"
  using drop_table_set [OF assms] by blast

lemma no_heads_members: "heads t = [] \<Longrightarrow> members t nxt = {}"
  by (simp add: members_def)

lemma free_candidate_get_None:
  assumes inv: "candidate_inv c" and no: "\<And>b. b \<in> candidate_members c \<Longrightarrow> value_id c b \<noteq> vid"
  shows "free_candidate_get vid c = Some None"
proof (cases "heads (gc_candidate_values c) = []")
  case False
  note inv = inv [unfolded candidate_inv_def]
  from find_in_slot_set [OF inv registry_heads(2) [OF inv False], of "\<lambda>a. value_id c a = vid" vid] no
  show ?thesis using False by (auto simp: free_candidate_get_def candidate_members_def)
qed (simp add: free_candidate_get_def)

interpretation strs: node_registry registerStringRef unregisterStringRef deleteStringRefs
  string_inv string_members "\<lambda>_ _. True"
proof unfold_locales
  fix s a
  show "\<exists>s'. registerStringRef a s = Some s' \<and> string_inv s' \<and> string_members s' = insert a (string_members s)
      \<and> (\<lambda>_. True) = (\<lambda>_. True)" if "string_inv s" "a \<notin> string_members s"
    using that unfolding string_defs
    by (auto simp: registerStringRef_def string_key_def [abs_def] elim: register_initial)
  show "\<exists>s'. unregisterStringRef a s = Some s' \<and> string_inv s' \<and> string_members s' = string_members s - {a}
      \<and> (\<lambda>_. True) = (\<lambda>_. True)" if "string_inv s" "a \<in> string_members s"
    using that unfolding string_defs
    by (auto simp: unregisterStringRef_def string_key_def [abs_def] elim: remove_self)
  show "\<exists>s'. deleteStringRefs s = Some s' \<and> string_members s' = {}" if "string_inv s"
    using that unfolding string_defs
    by (auto simp: deleteStringRefs_def no_heads_members elim: drop_members [where clr = False])
qed

interpretation uptrs: node_registry registerUserptrRef unregisterUserptrRef deleteUserptrRefs
  userptr_inv userptr_members "\<lambda>_ _. True"
proof unfold_locales
  fix s a
  show "\<exists>s'. registerUserptrRef a s = Some s' \<and> userptr_inv s' \<and> userptr_members s' = insert a (userptr_members s)
      \<and> (\<lambda>_. True) = (\<lambda>_. True)" if "userptr_inv s" "a \<notin> userptr_members s"
    using that unfolding userptr_defs
    by (auto simp: registerUserptrRef_def userptr_key_def [abs_def] registry_inv_link elim: register_initial)
  show "\<exists>s'. unregisterUserptrRef a s = Some s' \<and> userptr_inv s' \<and> userptr_members s' = userptr_members s - {a}
      \<and> (\<lambda>_. True) = (\<lambda>_. True)" if "userptr_inv s" "a \<in> userptr_members s"
    using that unfolding userptr_defs
    by (auto simp: unregisterUserptrRef_def userptr_key_def [abs_def] elim: remove_self)
  show "\<exists>s'. deleteUserptrRefs s = Some s' \<and> userptr_members s' = {}" if "userptr_inv s"
    using that unfolding userptr_defs
    by (auto simp: deleteUserptrRefs_def no_heads_members elim: drop_members [where clr = True])
qed

interpretation cfns: node_registry registerCFuncRef unregisterCFuncRef deleteCFuncRefs
  cfunc_inv cfunc_members "\<lambda>c a. cfunc_hash c a \<noteq> 0"
proof unfold_locales
  fix s a
  show "\<exists>s'. registerCFuncRef a s = Some s' \<and> cfunc_inv s' \<and> cfunc_members s' = insert a (cfunc_members s)
      \<and> (\<lambda>a. cfunc_hash s' a \<noteq> 0) = (\<lambda>a. cfunc_hash s a \<noteq> 0)"
    if "cfunc_inv s" "a \<notin> cfunc_members s" "cfunc_hash s a \<noteq> 0"
    using that unfolding cfunc_defs
    by (auto simp: registerCFuncRef_def registry_inv_link elim: register_initial)
  show "\<exists>s'. unregisterCFuncRef a s = Some s' \<and> cfunc_inv s' \<and> cfunc_members s' = cfunc_members s - {a}
      \<and> (\<lambda>a. cfunc_hash s' a \<noteq> 0) = (\<lambda>a. cfunc_hash s a \<noteq> 0)" if "cfunc_inv s" "a \<in> cfunc_members s"
    using that unfolding cfunc_defs by (auto simp: unregisterCFuncRef_def elim: remove_self)
  show "\<exists>s'. deleteCFuncRefs s = Some s' \<and> cfunc_members s' = {}" if "cfunc_inv s"
    using that unfolding cfunc_defs
    by (auto simp: deleteCFuncRefs_def no_heads_members elim: drop_members [where clr = False])
qed

lemma registerFreeCandidateValue_set:
  assumes inv: "candidate_inv c" and a: "a \<notin> candidate_members c" "value_id c a \<noteq> 0"
    and own: "\<And>b. b \<in> candidate_members c \<Longrightarrow> value_id c b \<noteq> value_id c a"
  shows "\<exists>t nxt. registerFreeCandidateValue a c
      = Some (c\<lparr>gc_candidate_values := t, hash_next_free_candidate := nxt,
                value_step := (value_step c)(a := gc_step_type c)\<rparr>)
    \<and> registry_inv (value_id c) t nxt \<and> members t nxt = insert a (candidate_members c)"
proof -
  obtain t nxt where "register_node (value_id c) initial_heads (gc_candidate_values c)
        (hash_next_free_candidate c) a = Some (t, nxt)" "registry_inv (value_id c) t nxt"
      "members t nxt = insert a (candidate_members c)"
    using inv a(1) unfolding candidate_defs by (rule register_initial)
  then show ?thesis
    using free_candidate_get_None [OF inv own] a(2)
    by (intro exI [of _ t] exI [of _ nxt]) (simp add: registerFreeCandidateValue_def)
qed

interpretation cands: node_registry registerFreeCandidateValue unregisterFreeCandidateValue
  deleteFreeCandidateValues candidate_inv candidate_members own_id
proof unfold_locales
  fix s a
  show "\<exists>s'. registerFreeCandidateValue a s = Some s' \<and> candidate_inv s'
      \<and> candidate_members s' = insert a (candidate_members s) \<and> own_id s' = own_id s"
    if p: "candidate_inv s" "a \<notin> candidate_members s" "own_id s a"
    using registerFreeCandidateValue_set [OF p(1,2)] p(2,3)
    by (fastforce simp: candidate_defs own_id_def fun_eq_iff)
  show "\<exists>s'. unregisterFreeCandidateValue a s = Some s' \<and> candidate_inv s'
      \<and> candidate_members s' = candidate_members s - {a} \<and> own_id s' = own_id s"
    if "candidate_inv s" "a \<in> candidate_members s"
    using that unfolding candidate_defs own_id_def fun_eq_iff
    by (auto simp: unregisterFreeCandidateValue_def elim: remove_self)
  show "\<exists>s'. deleteFreeCandidateValues s = Some s' \<and> candidate_members s' = {}"
    if "candidate_inv s"
  proof -
    note inv = that [unfolded candidate_inv_def]
    obtain nxt where "drop_all True (heads (gc_candidate_values s)) (hash_next_free_candidate s)
        = Some (nxt, count (gc_candidate_values s))"
      using inv by (rule drop_members)
    moreover have "heads (gc_candidate_values s) = [] \<Longrightarrow> count (gc_candidate_values s) = 0"
      using registry_count [OF inv] by (simp add: no_heads_members)
    ultimately show ?thesis
      by (auto simp: deleteFreeCandidateValues_def candidate_members_def Let_def no_heads_members)
  qed
qed

section \<open>Registering a value\<close>

text \<open>
  The invariant of the table of all values: identifiers are pairwise different, not 0, and were all
  given out before \<open>next_id\<close>; the collector's candidates are values.
\<close>

definition value_members :: "core \<Rightarrow> addr set" where
  "value_members c = members (value_refs c) (hash_next c)"

definition values_inv :: "core \<Rightarrow> bool" where
  "values_inv c \<longleftrightarrow>
     registry_inv (value_id c) (value_refs c) (hash_next c) \<and> candidate_inv c
     \<and> candidate_members c \<subseteq> value_members c \<and> inj_on (value_id c) (value_members c)
     \<and> (\<forall>a \<in> value_members c. value_id c a \<noteq> 0 \<and> value_id c a < next_id c) \<and> next_id c \<noteq> 0"

lemma registry_inv_key_cong:
  assumes "registry_inv key t nxt" "\<And>b. b \<in> members t nxt \<Longrightarrow> key' b = key b"
  shows "registry_inv key' t nxt"
proof -
  obtain css where rep: "table_rep key t nxt css" and mem: "members t nxt = set (concat css)"
    using assms(1) by (rule registry_inv_rep)
  have "slot_of key' m b = slot_of key m b" if "i < length (heads t)" "b \<in> set (css ! i)" for i b m
  proof -
    have "b \<in> members t nxt"
      unfolding mem using that table_rep_length [OF rep] by (metis in_concat_nth)
    then show ?thesis by (simp add: slot_of_def assms(2))
  qed
  then have "table_rep key' t nxt css"
    using rep by (auto simp: table_rep_def chains_rep_def)
  then show ?thesis using assms(1) by (auto simp: registry_inv_def table_inv_def)
qed

lemma values_get_member:
  assumes inv: "registry_inv (value_id c) (value_refs c) (hash_next c)"
    and inj: "inj_on (value_id c) (value_members c)" and a: "a \<in> value_members c"
  shows "values_get (value_id c a) c = Some (Some a)"
proof -
  have slot: "hash_slot (value_id c a) m = slot_of (value_id c) m a" for m
    by (rule hash_slot_key)
  have "heads (value_refs c) \<noteq> []"
    using registry_nonempty [OF inv] a by (simp add: value_members_def)
  note f = find_in_slot_set [OF inv registry_heads(1) [OF inv this, of a], of "\<lambda>b. value_id c b = value_id c a"]
  have no: "\<not> (\<forall>b \<in> members (value_refs c) (hash_next c).
      slot_of (value_id c) (head_mask (value_refs c)) b = slot_of (value_id c) (head_mask (value_refs c)) a
      \<longrightarrow> value_id c b \<noteq> value_id c a)"
    using a unfolding value_members_def by blast
  obtain prev b where b: "find_in_slot (\<lambda>b. value_id c b = value_id c a) (value_refs c) (hash_next c)
        (slot_of (value_id c) (head_mask (value_refs c)) a) = Some (Some (prev, b))"
      "b \<in> value_members c" "value_id c b = value_id c a"
    using f no unfolding value_members_def by blast
  have "b = a" using inj b(2,3) a by (blast dest: inj_onD)
  with b(1) show ?thesis by (simp add: values_get_def slot)
qed

lemma values_get_absent:
  assumes inv: "registry_inv (value_id c) (value_refs c) (hash_next c)" and "heads (value_refs c) \<noteq> []"
    and no: "\<And>a. a \<in> value_members c \<Longrightarrow> value_id c a \<noteq> vid"
  shows "values_get vid c = Some None"
  using find_in_slot_set [OF inv registry_heads(2) [OF inv assms(2)], of "\<lambda>b. value_id c b = vid" vid] no
  by (auto simp: values_get_def value_members_def)

lemma word_less_succ:
  fixes w :: u32
  assumes "w + 1 \<noteq> 0"
  shows "v < w + 1 \<longleftrightarrow> v < w \<or> v = w"
proof -
  have "unat (w + 1) = Suc (unat w)"
    using assms by (metis unat_eq_zero Suc_eq_plus1 add.commute unatSuc)
  then show ?thesis by (auto simp: word_less_nat_alt less_Suc_eq word_unat_eq_iff)
qed

text \<open>The state apart from the fields that registering a value changes.\<close>

definition other_fields :: "core \<Rightarrow> core" where
  "other_fields c = c\<lparr>value_id := \<lambda>_. 0, next_id := 0, value_step := \<lambda>_. 0, value_refs := empty_table,
     hash_next := \<lambda>_. None, stack_values := [], num_created_values := 0,
     gc_candidate_values := empty_table, hash_next_free_candidate := \<lambda>_. None\<rparr>"

lemma other_fields_eqD:
  assumes "other_fields c' = other_fields c"
  shows "ref_count c' = ref_count c" "value_prototype c' = value_prototype c" "value_type c' = value_type c"
    "gc_string_of c' = gc_string_of c" "string_refs c' = string_refs c" "string_next_ref c' = string_next_ref c"
    "userdata_ptr c' = userdata_ptr c" "userptr_refs c' = userptr_refs c" "userptr_next_ref c' = userptr_next_ref c"
    "cfunc_func c' = cfunc_func c" "cfunc_user_param c' = cfunc_user_param c" "cfunc_hash c' = cfunc_hash c"
    "cfunc_refs c' = cfunc_refs c" "cfunc_next_ref c' = cfunc_next_ref c"
    "gc_fix_in_progress c' = gc_fix_in_progress c" "gc_in_progress c' = gc_in_progress c"
    "prototypes c' = prototypes c"
  using assms by (cases c; cases c'; simp add: other_fields_def)+

lemma registerValueAndPush_step:
  assumes inv: "values_inv c" and new: "a \<notin> value_members c"
  shows "\<exists>c'. registerValueAndPush a c = Some c'
    \<and> registry_inv (value_id c') (value_refs c') (hash_next c') \<and> candidate_inv c'
    \<and> value_members c' = insert a (value_members c) \<and> candidate_members c' = insert a (candidate_members c)
    \<and> value_id c' = (value_id c)(a := next_id c) \<and> next_id c' = next_id c + 1
    \<and> stack_values c' = stack_values c @ [VGC a] \<and> heads (value_refs c') \<noteq> []
    \<and> other_fields c' = other_fields c"
proof -
  let ?c1 = "c\<lparr>value_id := (value_id c)(a := next_id c), next_id := next_id c + 1,
                value_step := (value_step c)(a := gc_step_type c)\<rparr>"
  have key: "value_id ?c1 b = value_id c b" if "b \<in> value_members c" for b
    using that new by auto
  have v: "registry_inv (value_id ?c1) (value_refs c) (hash_next c)"
    by (rule registry_inv_key_cong [of "value_id c"])
      (use inv key in \<open>auto simp: values_inv_def value_members_def\<close>)
  obtain t nxt where t: "register_node (value_id ?c1) initial_heads (value_refs c) (hash_next c) a = Some (t, nxt)"
      "registry_inv (value_id ?c1) t nxt" "members t nxt = insert a (value_members c)"
    using v new unfolding value_members_def by (rule register_initial)
  let ?c2 = "?c1\<lparr>value_refs := t, hash_next := nxt, stack_values := stack_values c @ [VGC a],
                 num_created_values := num_created_values c + 1\<rparr>"
  have sub: "candidate_members c \<subseteq> value_members c" using inv by (simp add: values_inv_def)
  have cm: "candidate_members ?c2 = candidate_members c" by (simp add: candidate_members_def)
  have "candidate_inv ?c2"
    unfolding candidate_inv_def
    by (simp, rule registry_inv_key_cong [of "value_id c"])
      (use inv new sub in \<open>auto simp: values_inv_def candidate_inv_def candidate_members_def\<close>)
  moreover have "a \<notin> candidate_members ?c2" using new sub cm by blast
  moreover have "value_id ?c2 a \<noteq> 0" using inv by (simp add: values_inv_def)
  moreover have "value_id ?c2 b \<noteq> value_id ?c2 a" if "b \<in> candidate_members ?c2" for b
  proof -
    have "b \<in> value_members c" using that sub cm by blast
    then have "b \<noteq> a" "value_id c b < next_id c" using new inv by (auto simp: values_inv_def)
    then show ?thesis by (simp add: less_le)
  qed
  ultimately obtain t2 nxt2 where r: "registerFreeCandidateValue a ?c2
        = Some (?c2\<lparr>gc_candidate_values := t2, hash_next_free_candidate := nxt2,
                  value_step := (value_step ?c2)(a := gc_step_type ?c2)\<rparr>)"
      "registry_inv (value_id ?c2) t2 nxt2" "members t2 nxt2 = insert a (candidate_members ?c2)"
    using registerFreeCandidateValue_set [of ?c2 a] by blast
  have "heads t \<noteq> []" using registry_nonempty [OF t(2)] t(3) by blast
  with t r cm show ?thesis
    by (auto simp: registerValueAndPush_def Let_def candidate_inv_def candidate_members_def value_members_def
        other_fields_def)
qed

lemma registerValueAndPush_inv:
  assumes "values_inv c" "a \<notin> value_members c" "next_id c + 1 \<noteq> 0"
  shows "\<exists>c'. registerValueAndPush a c = Some c' \<and> values_inv c'
    \<and> value_members c' = insert a (value_members c) \<and> candidate_members c' = insert a (candidate_members c)
    \<and> value_id c' = (value_id c)(a := next_id c) \<and> next_id c' = next_id c + 1
    \<and> stack_values c' = stack_values c @ [VGC a] \<and> other_fields c' = other_fields c"
proof -
  obtain c' where c': "registerValueAndPush a c = Some c'"
      "registry_inv (value_id c') (value_refs c') (hash_next c')" "candidate_inv c'"
      "value_members c' = insert a (value_members c)" "candidate_members c' = insert a (candidate_members c)"
      "value_id c' = (value_id c)(a := next_id c)" "next_id c' = next_id c + 1"
      "stack_values c' = stack_values c @ [VGC a]" "other_fields c' = other_fields c"
    using registerValueAndPush_step [OF assms(1,2)] by blast
  have less: "\<forall>b \<in> value_members c. value_id c b < next_id c" and inj: "inj_on (value_id c) (value_members c)"
    using assms(1) by (simp_all add: values_inv_def)
  have "inj_on (value_id c') (value_members c')"
    using inj less assms(2) unfolding c'(4,6) inj_on_def by (auto simp: less_le)
  moreover have "\<forall>b \<in> value_members c'. value_id c' b \<noteq> 0 \<and> value_id c' b < next_id c'"
    using assms(1,3) c'(4,6,7) by (auto simp: values_inv_def word_less_succ)
  ultimately have "values_inv c'"
    using assms(1,3) c' by (auto simp: values_inv_def)
  with c' show ?thesis by blast
qed

text \<open>
  Registering a new value gives it the next identifier, keeps the invariant of the tables
  (distinct identifiers, candidates among the values), pushes the value on the stack and makes it a
  candidate; afterwards it is found by its identifier and so is every value registered before.
\<close>

theorem registerValueAndPush_correct:
  assumes "values_inv c" "a \<notin> value_members c" "next_id c + 1 \<noteq> 0"
  shows "\<exists>c'. registerValueAndPush a c = Some c' \<and> values_inv c' \<and> value_id c' a = next_id c
    \<and> value_members c' = insert a (value_members c) \<and> candidate_members c' = insert a (candidate_members c)
    \<and> stack_values c' = stack_values c @ [VGC a]
    \<and> (\<forall>b \<in> value_members c'. values_get (value_id c' b) c' = Some (Some b))
    \<and> (\<forall>b \<in> value_members c. value_id c' b = value_id c b)"
proof -
  obtain c' where c': "registerValueAndPush a c = Some c'" "values_inv c'"
      "value_members c' = insert a (value_members c)" "candidate_members c' = insert a (candidate_members c)"
      "value_id c' = (value_id c)(a := next_id c)" "stack_values c' = stack_values c @ [VGC a]"
    using registerValueAndPush_inv [OF assms] by blast
  have "\<forall>b \<in> value_members c'. values_get (value_id c' b) c' = Some (Some b)"
    using values_get_member [of c'] c'(2) by (simp add: values_inv_def)
  moreover have "\<forall>b \<in> value_members c. value_id c' b = value_id c b" using c'(5) assms(2) by auto
  ultimately show ?thesis using c' by auto
qed

definition initial_core :: core where
  "initial_core = \<lparr>value_id = \<lambda>_. 0, ref_count = \<lambda>_. 0, value_prototype = \<lambda>_. None,
     value_type = \<lambda>_. OS_VALUE_TYPE_NULL, value_step = \<lambda>_. 0, hash_next = \<lambda>_. None,
     hash_next_free_candidate = \<lambda>_. None, string_next_ref = \<lambda>_. None, userptr_next_ref = \<lambda>_. None,
     cfunc_next_ref = \<lambda>_. None, gc_string_of = \<lambda>_. \<lparr>str_data = [], str_hash = 0\<rparr>,
     userdata_crc = \<lambda>_. 0, userdata_ptr = \<lambda>_. 0, userdata_dtor = \<lambda>_. 0, userdata_user_param = \<lambda>_. 0,
     cfunc_func = \<lambda>_. 0, cfunc_user_param = \<lambda>_. 0, cfunc_closure_values = \<lambda>_. [], cfunc_hash = \<lambda>_. 0,
     prototypes = \<lambda>_. 0, string_refs = empty_table, userptr_refs = empty_table, cfunc_refs = empty_table,
     value_refs = empty_table, gc_candidate_values = empty_table, next_id = 1, num_created_values = 0,
     gc_step_type = 0, gc_in_progress = False, gc_fix_in_progress = False, stack_values = []\<rparr>"

lemma initial_core_inv:
  "string_inv initial_core" "userptr_inv initial_core" "cfunc_inv initial_core"
  "candidate_inv initial_core" "values_inv initial_core"
  by (simp_all add: initial_core_def string_inv_def userptr_inv_def cfunc_inv_def candidate_inv_def
      values_inv_def registry_inv_empty candidate_members_def value_members_def)

lemma initial_core_members [simp]:
  "string_members initial_core = {}" "userptr_members initial_core = {}" "cfunc_members initial_core = {}"
  "candidate_members initial_core = {}" "value_members initial_core = {}"
  by (simp_all add: initial_core_def string_members_def userptr_members_def cfunc_members_def
      candidate_members_def value_members_def)

theorem registerValueAndPush_correct_witness:
  "\<exists>c'. registerValueAndPush 7 initial_core = Some c' \<and> values_inv c' \<and> value_members c' = {7}
    \<and> values_get 1 c' = Some (Some 7)"
proof -
  have n: "next_id initial_core = 1" by (simp add: initial_core_def)
  show ?thesis
    using registerValueAndPush_correct [of initial_core 7] initial_core_inv(5)
    by (force simp: n)
qed

section \<open>Running the registries\<close>

text \<open>
  C6: in any order of registrations of absent strings and removals of present ones, the string table
  never fails (no null access, no endless walk, no failed assertion), keeps its invariant and holds
  exactly the strings registered and not yet removed; its counter is their number, and
  \<open>deleteStringRefs\<close> then empties it.
\<close>

theorem string_refs_run:
  assumes "string_inv c" "ops_allowed (\<lambda>_. True) ops (string_members c)"
  shows "\<exists>c'. run_ops registerStringRef unregisterStringRef ops c = Some c' \<and> string_inv c'
    \<and> string_members c' = ops_effect ops (string_members c)
    \<and> count (string_refs c') = card (ops_effect ops (string_members c))
    \<and> (\<exists>c''. deleteStringRefs c' = Some c'' \<and> string_members c'' = {})"
proof -
  obtain c' where "run_ops registerStringRef unregisterStringRef ops c = Some c'" "string_inv c'"
      "string_members c' = ops_effect ops (string_members c)"
    using strs.run [OF assms] by blast
  then show ?thesis
    using strs.delete_all [of c'] registry_count [of "string_key c'" "string_refs c'" "string_next_ref c'"]
    by (auto simp: string_defs)
qed

theorem string_refs_run_witness:
  "\<exists>c'. run_ops registerStringRef unregisterStringRef [Register 1, Register 2, Unregister 1] initial_core = Some c'
    \<and> string_members c' = {2} \<and> count (string_refs c') = 1"
  using string_refs_run [OF initial_core_inv(1), of "[Register 1, Register 2, Unregister 1]"]
  by (auto simp: insert_Diff_if)

text \<open>
  The same for the tables of user pointers, of C functions (whose hash has to be non-zero) and of
  the collector's candidates (which have an identifier of their own): every legal sequence of
  registrations and removals succeeds and leaves the objects it should.
\<close>

theorem object_refs_run:
  "(userptr_inv c \<and> ops_allowed (\<lambda>_. True) ops (userptr_members c) \<longrightarrow>
      (\<exists>c'. run_ops registerUserptrRef unregisterUserptrRef ops c = Some c' \<and> userptr_inv c'
        \<and> userptr_members c' = ops_effect ops (userptr_members c)))
   \<and> (cfunc_inv c \<and> ops_allowed (\<lambda>a. cfunc_hash c a \<noteq> 0) ops (cfunc_members c) \<longrightarrow>
      (\<exists>c'. run_ops registerCFuncRef unregisterCFuncRef ops c = Some c' \<and> cfunc_inv c'
        \<and> cfunc_members c' = ops_effect ops (cfunc_members c)))
   \<and> (candidate_inv c \<and> ops_allowed (own_id c) ops (candidate_members c) \<longrightarrow>
      (\<exists>c'. run_ops registerFreeCandidateValue unregisterFreeCandidateValue ops c = Some c' \<and> candidate_inv c'
        \<and> candidate_members c' = ops_effect ops (candidate_members c)))"
proof (intro conjI impI; elim conjE)
  assume "userptr_inv c" "ops_allowed (\<lambda>_. True) ops (userptr_members c)"
  then show "\<exists>c'. run_ops registerUserptrRef unregisterUserptrRef ops c = Some c' \<and> userptr_inv c'
      \<and> userptr_members c' = ops_effect ops (userptr_members c)"
    using uptrs.run by blast
next
  assume "cfunc_inv c" "ops_allowed (\<lambda>a. cfunc_hash c a \<noteq> 0) ops (cfunc_members c)"
  then show "\<exists>c'. run_ops registerCFuncRef unregisterCFuncRef ops c = Some c' \<and> cfunc_inv c'
      \<and> cfunc_members c' = ops_effect ops (cfunc_members c)"
    using cfns.run by blast
next
  assume "candidate_inv c" "ops_allowed (own_id c) ops (candidate_members c)"
  then show "\<exists>c'. run_ops registerFreeCandidateValue unregisterFreeCandidateValue ops c = Some c' \<and> candidate_inv c'
      \<and> candidate_members c' = ops_effect ops (candidate_members c)"
    using cands.run by blast
qed

theorem object_refs_run_witness:
  "(\<exists>c'. run_ops registerUserptrRef unregisterUserptrRef [Register 4, Unregister 4] initial_core = Some c'
      \<and> userptr_members c' = {})
   \<and> (\<exists>c'. run_ops registerCFuncRef unregisterCFuncRef [Register 4] (initial_core\<lparr>cfunc_hash := \<lambda>_. 5\<rparr>) = Some c'
      \<and> cfunc_members c' = {4})
   \<and> (\<exists>c'. run_ops registerFreeCandidateValue unregisterFreeCandidateValue [Register 4]
        (initial_core\<lparr>value_id := (\<lambda>_. 0)(4 := 1)\<rparr>) = Some c' \<and> candidate_members c' = {4})"
proof (intro conjI)
  show "\<exists>c'. run_ops registerUserptrRef unregisterUserptrRef [Register 4, Unregister 4] initial_core = Some c'
      \<and> userptr_members c' = {}"
    using object_refs_run [THEN conjunct1, of initial_core "[Register 4, Unregister 4]"] initial_core_inv(2)
    by auto
  have m: "cfunc_members (initial_core\<lparr>cfunc_hash := \<lambda>_. 5\<rparr>) = {}" "cfunc_inv (initial_core\<lparr>cfunc_hash := \<lambda>_. 5\<rparr>)"
    by (simp_all add: cfunc_defs initial_core_def registry_inv_empty)
  then show "\<exists>c'. run_ops registerCFuncRef unregisterCFuncRef [Register 4] (initial_core\<lparr>cfunc_hash := \<lambda>_. 5\<rparr>) = Some c'
      \<and> cfunc_members c' = {4}"
    using object_refs_run [THEN conjunct2, THEN conjunct1, of "initial_core\<lparr>cfunc_hash := \<lambda>_. 5\<rparr>" "[Register 4]"] by auto
  let ?c = "initial_core\<lparr>value_id := (\<lambda>_. 0)(4 := 1)\<rparr>"
  have "candidate_members ?c = {}" "candidate_inv ?c" "own_id ?c 4"
    by (simp_all add: candidate_defs initial_core_def registry_inv_empty own_id_def)
  then show "\<exists>c'. run_ops registerFreeCandidateValue unregisterFreeCandidateValue [Register 4] ?c = Some c'
      \<and> candidate_members c' = {4}"
    using object_refs_run [THEN conjunct2, THEN conjunct2, of ?c "[Register 4]"] by auto
qed

end
