(* ===== verification/RefCount.thy ===== *)
theory RefCount
  imports RefTables
begin

text \<open>
  Reference counting (\<open>retainValue\<close>, \<open>releaseValue\<close>, \<open>setValue\<close> and their variants).  A value whose count
  drops to zero is not freed at once: it becomes a candidate of the collector.  Counts are the C
  \<open>int\<close>s of the source, as 32-bit words read signed where the code compares them.
\<close>

section \<open>The operations\<close>

definition retain :: "addr \<Rightarrow> core \<Rightarrow> core" where
  "retain a c = c\<lparr>ref_count := (ref_count c)(a := ref_count c a + 1)\<rparr>"

definition retainValue :: "os_value \<Rightarrow> core \<Rightarrow> core option" where
  "retainValue v c =
     (case v of VGC a \<Rightarrow> os_assert (value_id c a \<noteq> 0) (Some (retain a c)) | _ \<Rightarrow> Some c)"

fun retainValues :: "os_value list \<Rightarrow> core \<Rightarrow> core option" where
  "retainValues [] c = Some c"
| "retainValues (v # vs) c = Option.bind (retainValue v c) (retainValues vs)"

definition saveFreeCandidateValue :: "addr \<Rightarrow> core \<Rightarrow> core option" where
  "saveFreeCandidateValue a c = os_assert (ref_count c a = 0) (addFreeCandidateValue a c)"

text \<open>\<open>if(!--value->ref_count) saveFreeCandidateValue(value)\<close>\<close>

definition drop_ref :: "addr \<Rightarrow> core \<Rightarrow> core option" where
  "drop_ref a c =
     (let c = c\<lparr>ref_count := (ref_count c)(a := ref_count c a - 1)\<rparr>
      in if ref_count c a = 0 then saveFreeCandidateValue a c else Some c)"

definition unreachable_in_fix :: "core \<Rightarrow> addr \<Rightarrow> bool" where
  "unreachable_in_fix c a \<longleftrightarrow> gc_fix_in_progress c \<and> value_step c a \<noteq> gc_step_type c"

definition releaseValue :: "os_value \<Rightarrow> core \<Rightarrow> core option" where
  "releaseValue v c =
     (case v of
        VGC a \<Rightarrow>
          if unreachable_in_fix c a then Some c
          else os_assert (value_id c a \<noteq> 0) (os_assert (0 < sint (ref_count c a)) (drop_ref a c))
      | _ \<Rightarrow> Some c)"

fun releaseValues :: "os_value list \<Rightarrow> core \<Rightarrow> core option" where
  "releaseValues [] c = Some c"
| "releaseValues (v # vs) c = Option.bind (releaseValue v c) (releaseValues vs)"

definition releaseValueAndClear :: "os_value \<Rightarrow> core \<Rightarrow> (os_value \<times> core) option" where
  "releaseValueAndClear v c = Option.bind (releaseValue v c) (\<lambda>c. Some (VNull, c))"

text \<open>\<open>setValue(out, b)\<close>: the new content of the location \<open>out\<close> and the new state.\<close>

definition release_out :: "addr \<Rightarrow> core \<Rightarrow> core option" where
  "release_out a c =
     os_assert (0 < sint (ref_count c a)) (if unreachable_in_fix c a then Some c else drop_ref a c)"

definition setValue :: "os_value \<Rightarrow> os_value \<Rightarrow> core \<Rightarrow> (os_value \<times> core) option" where
  "setValue out b c =
     (case out of
        VGC out_a \<Rightarrow>
          (case b of
             VGC b_a \<Rightarrow>
               if out_a \<noteq> b_a then Option.bind (release_out out_a c) (\<lambda>c. Some (b, retain b_a c))
               else Some (out, c)
           | _ \<Rightarrow> Option.bind (release_out out_a c) (\<lambda>c. Some (b, c)))
      | _ \<Rightarrow> (case b of VGC b_a \<Rightarrow> Some (b, retain b_a c) | _ \<Rightarrow> Some (b, c)))"

section \<open>Exact counts\<close>

text \<open>
  \<open>counts_ok c refs\<close>: \<open>refs\<close> being all the locations that hold counted references, every count is the
  number of locations that hold the value, and a value nobody refers to is a candidate.
\<close>

definition counts_ok :: "core \<Rightarrow> os_value list \<Rightarrow> bool" where
  "counts_ok c refs \<longleftrightarrow>
     values_inv c
     \<and> (\<forall>a. VGC a \<in> set refs \<longrightarrow> a \<in> value_members c)
     \<and> (\<forall>a \<in> value_members c. unat (ref_count c a) = count_list refs (VGC a))
     \<and> (\<forall>a \<in> value_members c. ref_count c a = 0 \<longrightarrow> a \<in> candidate_members c)"

lemma count_list_update:
  assumes "i < length vs"
  shows "count_list (vs[i := b]) x + (if vs ! i = x then 1 else 0) = count_list vs x + (if b = x then 1 else 0)"
  using assms
proof (induction vs arbitrary: i)
  case Nil
  then show ?case by simp
next
  case (Cons v vs)
  show ?case
  proof (cases i)
    case (Suc k)
    with Cons.prems Cons.IH [of k] show ?thesis by (simp split: if_splits)
  qed simp
qed

lemma count_list_le: "count_list vs x \<le> length vs"
  by (induction vs) auto

lemma count_list_pos: "i < length vs \<Longrightarrow> 0 < count_list vs (vs ! i)"
  using count_list_0_iff [of vs "vs ! i"] by (metis gr0I nth_mem)

text \<open>Counting changes nothing that hashing and comparing values depend on.\<close>

definition same_objects :: "core \<Rightarrow> core \<Rightarrow> bool" where
  "same_objects c c' \<longleftrightarrow> gc_string_of c' = gc_string_of c \<and> value_type c' = value_type c
     \<and> gc_fix_in_progress c' = gc_fix_in_progress c"

lemma same_objects_refl [simp]: "same_objects c c"
  by (simp add: same_objects_def)

lemma same_objects_trans: "same_objects c c' \<Longrightarrow> same_objects c' c'' \<Longrightarrow> same_objects c c''"
  by (simp add: same_objects_def)

lemma addFreeCandidateValue_inv:
  assumes inv: "values_inv c" and a: "a \<in> value_members c"
  shows "\<exists>c'. addFreeCandidateValue a c = Some c' \<and> values_inv c' \<and> ref_count c' = ref_count c
    \<and> value_members c' = value_members c \<and> candidate_members c' = insert a (candidate_members c)
    \<and> value_id c' = value_id c \<and> same_objects c c'"
proof -
  have ci: "candidate_inv c" and sub: "candidate_members c \<subseteq> value_members c"
    and inj: "inj_on (value_id c) (value_members c)" and id: "value_id c a \<noteq> 0"
    using inv a by (auto simp: values_inv_def)
  show ?thesis
  proof (cases "a \<in> candidate_members c")
    case True
    note ri = ci [unfolded candidate_inv_def]
    have h: "heads (gc_candidate_values c) \<noteq> []"
      using registry_nonempty [OF ri] True by (auto simp: candidate_members_def)
    from find_in_slot_set [OF ri registry_heads(2) [OF ri h], of "\<lambda>b. value_id c b = value_id c a" "value_id c a"] True
    obtain x where "free_candidate_get (value_id c a) c = Some (Some x)"
      using h by (auto simp: free_candidate_get_def candidate_members_def hash_slot_key)
    then show ?thesis using True inv by (auto simp: addFreeCandidateValue_def)
  next
    case False
    have other: "value_id c b \<noteq> value_id c a" if "b \<in> candidate_members c" for b
      using that False sub a inj by (metis inj_on_def subsetD)
    obtain t nxt where r: "registerFreeCandidateValue a c
        = Some (c\<lparr>gc_candidate_values := t, hash_next_free_candidate := nxt,
                 value_step := (value_step c)(a := gc_step_type c)\<rparr>)"
        "registry_inv (value_id c) t nxt" "members t nxt = insert a (candidate_members c)"
      using registerFreeCandidateValue_set [OF ci False id other] by blast
    have "free_candidate_get (value_id c a) c = Some None"
      using free_candidate_get_None [OF ci other] by blast
    with r inv a show ?thesis
      by (auto simp: addFreeCandidateValue_def values_inv_def candidate_inv_def candidate_members_def
          value_members_def same_objects_def)
  qed
qed

lemma values_inv_ref_count [simp]:
  "values_inv (c\<lparr>ref_count := f\<rparr>) \<longleftrightarrow> values_inv c" "value_members (c\<lparr>ref_count := f\<rparr>) = value_members c"
  "candidate_members (c\<lparr>ref_count := f\<rparr>) = candidate_members c"
  by (simp_all add: values_inv_def value_members_def candidate_inv_def candidate_members_def)

lemma values_inv_retain [simp]:
  "values_inv (retain a c) \<longleftrightarrow> values_inv c" "value_members (retain a c) = value_members c"
  "candidate_members (retain a c) = candidate_members c"
  "ref_count (retain a c) = (ref_count c)(a := ref_count c a + 1)"
  by (simp_all add: retain_def)

lemma drop_ref_inv:
  assumes "values_inv c" "a \<in> value_members c"
  shows "\<exists>c'. drop_ref a c = Some c' \<and> values_inv c' \<and> value_members c' = value_members c
    \<and> ref_count c' = (ref_count c)(a := ref_count c a - 1)
    \<and> candidate_members c' = candidate_members c \<union> (if ref_count c a = 1 then {a} else {})
    \<and> same_objects c c'"
proof (cases "ref_count c a = 1")
  case True
  let ?c = "c\<lparr>ref_count := (ref_count c)(a := 0)\<rparr>"
  obtain c' where "addFreeCandidateValue a ?c = Some c'" "values_inv c'" "ref_count c' = ref_count ?c"
      "value_members c' = value_members c" "candidate_members c' = insert a (candidate_members c)"
      "same_objects ?c c'"
    using addFreeCandidateValue_inv [of ?c a] assms by auto
  then show ?thesis using True by (auto simp: drop_ref_def saveFreeCandidateValue_def same_objects_def)
next
  case False
  then have "ref_count c a - 1 \<noteq> 0" by simp
  with False assms show ?thesis by (simp add: drop_ref_def same_objects_def)
qed

lemma sint_pos_small:
  assumes "unat (w :: u32) < 2 ^ 31" "0 < unat w"
  shows "0 < sint w"
proof -
  have "int (unat w) < 2 ^ 31" using assms(1) by (metis of_nat_less_numeral_power_cancel_iff)
  then have "uint w < 2 ^ 31" by (metis uint_nat)
  then have "signed_take_bit 31 (uint w) = uint w"
    by (intro signed_take_bit_int_eq_self) (auto intro: order_trans [OF _ uint_ge_0])
  then have "sint w = uint w" by (simp add: sint_uint)
  moreover have "0 < int (unat w)" using assms(2) by (metis of_nat_0_less_iff)
  ultimately show ?thesis by (metis uint_nat)
qed

lemma counts_release_out:
  assumes ok: "counts_ok c refs" and i: "i < length refs" "refs ! i = VGC a"
    and len: "length refs < 2 ^ 31" and nofix: "\<not> gc_fix_in_progress c"
  shows "\<exists>c'. release_out a c = Some c' \<and> values_inv c' \<and> value_members c' = value_members c
    \<and> ref_count c' = (ref_count c)(a := ref_count c a - 1)
    \<and> candidate_members c' = candidate_members c \<union> (if ref_count c a = 1 then {a} else {})
    \<and> same_objects c c'"
    and "a \<in> value_members c" and "0 < unat (ref_count c a)"
proof -
  show a: "a \<in> value_members c" using ok i by (metis counts_ok_def nth_mem)
  then have n: "unat (ref_count c a) = count_list refs (VGC a)" using ok by (simp add: counts_ok_def)
  then show pos: "0 < unat (ref_count c a)" using count_list_pos [OF i(1)] i(2) by simp
  have "unat (ref_count c a) < 2 ^ 31" using n count_list_le [of refs "VGC a"] len by linarith
  then have "0 < sint (ref_count c a)" using sint_pos_small pos by blast
  then show "\<exists>c'. release_out a c = Some c' \<and> values_inv c' \<and> value_members c' = value_members c
    \<and> ref_count c' = (ref_count c)(a := ref_count c a - 1)
    \<and> candidate_members c' = candidate_members c \<union> (if ref_count c a = 1 then {a} else {})
    \<and> same_objects c c'"
    using drop_ref_inv [of c a] ok a nofix by (simp add: release_out_def unreachable_in_fix_def counts_ok_def)
qed

lemma unat_minus_1: "0 < unat (w :: u32) \<Longrightarrow> unat (w - 1) = unat w - 1"
  by (metis unat_minus_one unat_eq_zero less_irrefl)

lemma unat_plus_1: "unat (w :: u32) < 2 ^ 31 \<Longrightarrow> unat (w + 1) = unat w + 1"
  by (simp add: unat_word_ariths)

text \<open>The counts after one location changed its content.\<close>

lemma counts_ok_update:
  assumes ok: "counts_ok c refs" and i: "i < length refs" and inv: "values_inv c'"
    and m: "value_members c' = value_members c" and b: "\<And>a. b = VGC a \<Longrightarrow> a \<in> value_members c"
    and cnt: "\<And>a. a \<in> value_members c \<Longrightarrow>
       unat (ref_count c' a) + (if refs ! i = VGC a then 1 else 0) = unat (ref_count c a) + (if b = VGC a then 1 else 0)"
    and cand: "candidate_members c \<subseteq> candidate_members c'"
      "\<And>a. a \<in> value_members c \<Longrightarrow> ref_count c' a = 0 \<Longrightarrow> ref_count c a = 0 \<or> a \<in> candidate_members c'"
  shows "counts_ok c' (refs[i := b])"
  unfolding counts_ok_def
proof (intro conjI allI ballI impI)
  show "values_inv c'" by (rule inv)
  show "a \<in> value_members c'" if "VGC a \<in> set (refs[i := b])" for a
    using that ok b m set_update_subset_insert [of refs i b] by (auto simp: counts_ok_def)
  show "unat (ref_count c' a) = count_list (refs[i := b]) (VGC a)" if "a \<in> value_members c'" for a
  proof -
    have a: "a \<in> value_members c" using that m by simp
    with ok have "unat (ref_count c a) = count_list refs (VGC a)" by (simp add: counts_ok_def)
    with cnt [OF a] count_list_update [OF i, of b "VGC a"] show ?thesis by (simp split: if_splits)
  qed
  show "a \<in> candidate_members c'" if "a \<in> value_members c'" "ref_count c' a = 0" for a
    using cand(2) [of a] that ok cand(1) unfolding m counts_ok_def by blast
qed

text \<open>Taking and giving back one reference.\<close>

lemma counts_ok_perm:
  assumes "\<And>x. count_list refs x = count_list refs' x"
  shows "counts_ok c refs \<longleftrightarrow> counts_ok c refs'"
proof -
  have "x \<in> set refs \<longleftrightarrow> x \<in> set refs'" for x
    using assms [of x] by (metis count_list_0_iff)
  then show ?thesis by (simp add: counts_ok_def assms)
qed

lemma counts_small:
  assumes "counts_ok c refs" "a \<in> value_members c" "length refs < 2 ^ 31"
  shows "unat (ref_count c a) < 2 ^ 31"
  using assms count_list_le [of refs "VGC a"] by (auto simp: counts_ok_def intro: le_less_trans)

lemma retainValue_counts:
  assumes ok: "counts_ok c refs" and v: "\<And>a. v = VGC a \<Longrightarrow> a \<in> value_members c" and len: "length refs < 2 ^ 31"
  shows "\<exists>c'. retainValue v c = Some c' \<and> counts_ok c' (v # refs) \<and> same_objects c c'
    \<and> value_members c' = value_members c"
proof (cases v)
  case (VGC a)
  have a: "a \<in> value_members c" using v VGC by simp
  have "unat (ref_count c a + 1) = unat (ref_count c a) + 1"
    using unat_plus_1 counts_small [OF ok a len] by blast
  moreover from this have "ref_count c a + 1 \<noteq> 0" by (metis add_is_0 one_neq_zero unat_0)
  moreover have "value_id c a \<noteq> 0" using ok a by (simp add: counts_ok_def values_inv_def)
  ultimately show ?thesis
    using ok VGC a by (auto simp: retainValue_def counts_ok_def same_objects_def retain_def [of a c, THEN arg_cong [of _ _ gc_string_of]]
        retain_def [of a c, THEN arg_cong [of _ _ value_type]] retain_def [of a c, THEN arg_cong [of _ _ gc_fix_in_progress]])
qed (use ok in \<open>auto simp: retainValue_def counts_ok_def\<close>)

lemma releaseValue_counts:
  assumes ok: "counts_ok c (v # refs)" and len: "length refs < 2 ^ 31 - 1" and nofix: "\<not> gc_fix_in_progress c"
  shows "\<exists>c'. releaseValue v c = Some c' \<and> counts_ok c' refs \<and> same_objects c c'
    \<and> value_members c' = value_members c"
proof (cases v)
  case (VGC a)
  have a: "a \<in> value_members c" using ok VGC by (simp add: counts_ok_def)
  have n: "unat (ref_count c a) = count_list (v # refs) (VGC a)" using ok a by (simp add: counts_ok_def)
  then have pos: "0 < unat (ref_count c a)" using VGC by simp
  have "unat (ref_count c a) < 2 ^ 31" using counts_small [OF ok a] len by simp
  then have sp: "0 < sint (ref_count c a)" using sint_pos_small pos by blast
  obtain c' where c': "drop_ref a c = Some c'" "values_inv c'" "value_members c' = value_members c"
      "ref_count c' = (ref_count c)(a := ref_count c a - 1)"
      "candidate_members c' = candidate_members c \<union> (if ref_count c a = 1 then {a} else {})" "same_objects c c'"
    using drop_ref_inv [of c a] ok a by (auto simp: counts_ok_def)
  have "value_id c a \<noteq> 0" using ok a by (simp add: counts_ok_def values_inv_def)
  then have "releaseValue v c = Some c'"
    using c'(1) sp nofix VGC by (simp add: releaseValue_def unreachable_in_fix_def)
  moreover have "counts_ok c' refs"
    using ok c' VGC unat_minus_1 [OF pos] by (auto simp: counts_ok_def split: if_splits)
  ultimately show ?thesis using c' by blast
qed (use ok in \<open>auto simp: releaseValue_def counts_ok_def\<close>)

lemma same_objects_retain: "same_objects c (retain a c') \<longleftrightarrow> same_objects c c'"
  by (simp add: same_objects_def retain_def)

lemma setValue_counts:
  assumes "counts_ok c refs" "i < length refs" "length refs < 2 ^ 31" "\<not> gc_fix_in_progress c"
    and "case b of VGC a \<Rightarrow> a \<in> value_members c | _ \<Rightarrow> True"
  shows "\<exists>c'. setValue (refs ! i) b c = Some (b, c') \<and> counts_ok c' (refs[i := b]) \<and> same_objects c c'
    \<and> value_members c' = value_members c"
proof -
  have bm: "a \<in> value_members c" if "b = VGC a" for a using assms(5) that by simp
  have small: "unat (ref_count c a) < 2 ^ 31" if "a \<in> value_members c" for a
    using assms(1,3) that count_list_le [of refs "VGC a"] by (auto simp: counts_ok_def intro: le_less_trans)
  have inv: "values_inv c" using assms(1) by (simp add: counts_ok_def)
  note upd = counts_ok_update [OF assms(1,2) _ _ bm]
  have nz: "w + 1 \<noteq> 0" if "unat w < 2 ^ 31" for w :: u32
    using unat_plus_1 [OF that] by (metis add_is_0 one_neq_zero unat_0)
  show ?thesis
  proof (cases "\<exists>a. refs ! i = VGC a")
    case True
    then obtain a where a: "refs ! i = VGC a" by blast
    note rel = counts_release_out [OF assms(1,2) a assms(3,4)]
    obtain c1 where c1: "release_out a c = Some c1" "values_inv c1" "value_members c1 = value_members c"
        "ref_count c1 = (ref_count c)(a := ref_count c a - 1)"
        "candidate_members c1 = candidate_members c \<union> (if ref_count c a = 1 then {a} else {})"
        "same_objects c c1"
      using rel(1) by blast
    have m1: "unat (ref_count c a - 1) = unat (ref_count c a) - 1" using unat_minus_1 [OF rel(3)] .
    show ?thesis
    proof (cases b)
      case (VGC b')
      show ?thesis
      proof (cases "a = b'")
        case True
        with a VGC have "refs[i := b] = refs" by (metis list_update_id)
        with True a VGC assms(1) show ?thesis by (simp add: setValue_def)
      next
        case False
        have "counts_ok (retain b' c1) (refs[i := b])"
          by (rule upd)
            (use c1 a VGC False m1 rel(3) small bm nz in \<open>auto simp: unat_plus_1 split: if_splits\<close>)
        with a VGC False c1(1,3,6) show ?thesis by (simp add: setValue_def same_objects_retain)
      qed
    next
      case VNull
      have "counts_ok c1 (refs[i := b])" by (rule upd) (use c1 a VNull m1 rel(3) in \<open>auto split: if_splits\<close>)
      with a VNull c1(1,3,6) show ?thesis by (simp add: setValue_def)
    next
      case (VBool x)
      have "counts_ok c1 (refs[i := b])" by (rule upd) (use c1 a VBool m1 rel(3) in \<open>auto split: if_splits\<close>)
      with a VBool c1(1,3,6) show ?thesis by (simp add: setValue_def)
    next
      case (VNumber x)
      have "counts_ok c1 (refs[i := b])" by (rule upd) (use c1 a VNumber m1 rel(3) in \<open>auto split: if_splits\<close>)
      with a VNumber c1(1,3,6) show ?thesis by (simp add: setValue_def)
    qed
  next
    case False
    show ?thesis
    proof (cases "\<exists>b'. b = VGC b'")
      case True
      then obtain b' where b': "b = VGC b'" by blast
      have "counts_ok (retain b' c) (refs[i := b])"
        by (rule upd) (use inv b' False small bm nz in \<open>auto simp: unat_plus_1 split: if_splits\<close>)
      moreover have "setValue (refs ! i) b c = Some (b, retain b' c)"
        using False b' by (cases "refs ! i") (auto simp: setValue_def)
      ultimately show ?thesis using same_objects_retain [of c b' c] by auto
    next
      case nb: False
      have "counts_ok c (refs[i := b])" by (rule upd) (use inv nb False in auto)
      moreover have "setValue (refs ! i) b c = Some (b, c)"
        using False nb by (cases "refs ! i"; cases b) (auto simp: setValue_def)
      ultimately show ?thesis by auto
    qed
  qed
qed



end
