(* ===== verification/Interning.thy ===== *)
theory Interning
  imports RefCount
begin

text \<open>
  Interning of strings, user pointers and C functions: \<open>pushStringValue\<close>, \<open>GCStringValue::allocAndPush\<close>,
  \<open>pushUserPointerValue\<close>, \<open>pushCFunctionValue\<close>.  The address that \<open>malloc\<close> returns is the argument
  \<open>a\<close>; a round of the collector (the body of \<open>gcFreeCandidateValues\<close>, after its guard) is the argument
  \<open>collect\<close>, about which the lemmas assume only that it may remove values.  The assertions on the
  dynamic type of the nodes met by a walk are not modelled.
\<close>

section \<open>The operations\<close>

definition gcFreeCandidateValues :: "(core \<Rightarrow> core option) \<Rightarrow> core \<Rightarrow> core option" where
  "gcFreeCandidateValues collect c =
     (if (num_created_values c + 1) AND 255 \<noteq> 0 then Some c
      else if gc_in_progress c then Some c
      else collect c)"

definition pushValue :: "os_value \<Rightarrow> core \<Rightarrow> core" where
  "pushValue v c = c\<lparr>stack_values := stack_values c @ [v]\<rparr>"

text \<open>The constructor \<open>GCValue()\<close>, the type and the retained prototype of a new object.\<close>

definition new_value :: "addr \<Rightarrow> OS_EValueType \<Rightarrow> prototype_index \<Rightarrow> core \<Rightarrow> core" where
  "new_value a ty proto c =
     retain (prototypes c proto)
       (c\<lparr>value_id := (value_id c)(a := 0), ref_count := (ref_count c)(a := 0),
          hash_next := (hash_next c)(a := None),
          hash_next_free_candidate := (hash_next_free_candidate c)(a := None),
          value_type := (value_type c)(a := ty),
          value_prototype := (value_prototype c)(a := Some (prototypes c proto))\<rparr>)"

definition string_allocAndPush :: "addr \<Rightarrow> u32 \<Rightarrow> bytes \<Rightarrow> bytes \<Rightarrow> core \<Rightarrow> (core \<times> addr) option" where
  "string_allocAndPush a p_hash buf1 buf2 c =
     (let c = new_value a OS_VALUE_TYPE_STRING PROTOTYPE_STRING c;
          s = \<lparr>str_data = buf1 @ buf2, str_hash = 0\<rparr>;
          s' = (if p_hash \<noteq> 0 then s\<lparr>str_hash := p_hash\<rparr> else calcHash s)
      in os_assert (p_hash = 0 \<or> p_hash = keyToHash (str_data s))
           (Option.bind (registerValueAndPush a (c\<lparr>gc_string_of := (gc_string_of c)(a := s'),
                                                   string_next_ref := (string_next_ref c)(a := None)\<rparr>))
             (\<lambda>c. Option.bind (registerStringRef a c) (\<lambda>c. Some (c, a)))))"

definition pushStringValue ::
  "(core \<Rightarrow> core option) \<Rightarrow> addr \<Rightarrow> bytes \<Rightarrow> bytes \<Rightarrow> core \<Rightarrow> (core \<times> addr) option" where
  "pushStringValue collect a buf1 buf2 c =
     Option.bind (gcFreeCandidateValues collect c) (\<lambda>c.
       if count (string_refs c) > 0 then
         os_assert (heads (string_refs c) \<noteq> [] \<and> head_mask (string_refs c) \<noteq> 0)
           (let hash = keyToHash2 buf1 buf2
            in Option.bind (find_in_slot (\<lambda>s. string_isEqual2 (gc_string_of c s) hash buf1 buf2)
                              (string_refs c) (string_next_ref c) (hash_slot hash (head_mask (string_refs c))))
                 (\<lambda>found. case found of
                    Some (_, s) \<Rightarrow> Some (pushValue (VGC s) c, s)
                  | None \<Rightarrow> string_allocAndPush a hash buf1 buf2 c))
       else string_allocAndPush a 0 buf1 buf2 c)"

definition pushUserPointerValue ::
  "(core \<Rightarrow> core option) \<Rightarrow> addr \<Rightarrow> u32 \<Rightarrow> u64 \<Rightarrow> u64 \<Rightarrow> u64 \<Rightarrow> core \<Rightarrow> (core \<times> addr) option" where
  "pushUserPointerValue collect a crc ptr dtor user_param c =
     (let create = (\<lambda>c. Option.bind (gcFreeCandidateValues collect c) (\<lambda>c.
            let c = new_value a OS_VALUE_TYPE_USERPTR PROTOTYPE_USERDATA c;
                c = c\<lparr>userdata_crc := (userdata_crc c)(a := crc), userdata_dtor := (userdata_dtor c)(a := dtor),
                      userdata_user_param := (userdata_user_param c)(a := user_param),
                      userdata_ptr := (userdata_ptr c)(a := ptr),
                      userptr_next_ref := (userptr_next_ref c)(a := None)\<rparr>
            in Option.bind (registerValueAndPush a c) (\<lambda>c.
                 Option.bind (registerUserptrRef a c) (\<lambda>c. Some (c, a)))))
      in if count (userptr_refs c) > 0 then
           os_assert (heads (userptr_refs c) \<noteq> [] \<and> head_mask (userptr_refs c) > 0)
             (Option.bind (find_in_slot (\<lambda>u. userdata_ptr c u = ptr) (userptr_refs c) (userptr_next_ref c)
                             (hash_slot (OS_PTR_HASH ptr) (head_mask (userptr_refs c))))
               (\<lambda>found. case found of
                  Some (_, u) \<Rightarrow> os_assert (userdata_crc c u = crc) (os_assert (userdata_dtor c u = dtor)
                     (Some (pushValue (VGC u) c, u)))
                | None \<Rightarrow> create c))
         else create c)"

section \<open>The invariant of interned strings\<close>

definition interned_inv :: "core \<Rightarrow> bool" where
  "interned_inv c \<longleftrightarrow>
     values_inv c \<and> string_inv c \<and> string_members c \<subseteq> value_members c
     \<and> (\<forall>s \<in> string_members c. str_hash (gc_string_of c s) = keyToHash (str_data (gc_string_of c s)))
     \<and> inj_on (\<lambda>s. str_data (gc_string_of c s)) (string_members c)"

text \<open>What is assumed of a collection: it succeeds, keeps the invariant, and only removes values.\<close>

definition collects_only :: "(core \<Rightarrow> core option) \<Rightarrow> bool" where
  "collects_only collect \<longleftrightarrow>
     (\<forall>c. interned_inv c \<longrightarrow>
        (\<exists>c'. collect c = Some c' \<and> interned_inv c' \<and> value_members c' \<subseteq> value_members c
          \<and> string_members c' \<subseteq> string_members c \<and> gc_string_of c' = gc_string_of c
          \<and> next_id c' = next_id c \<and> stack_values c' = stack_values c))"

lemma gcFreeCandidateValues_ok:
  assumes "collects_only collect" "interned_inv c"
  shows "\<exists>c'. gcFreeCandidateValues collect c = Some c' \<and> interned_inv c' \<and> value_members c' \<subseteq> value_members c
    \<and> string_members c' \<subseteq> string_members c \<and> gc_string_of c' = gc_string_of c
    \<and> next_id c' = next_id c \<and> stack_values c' = stack_values c"
  using assms by (auto simp: gcFreeCandidateValues_def collects_only_def)

lemma registry_inv_link_upd:
  assumes "registry_inv key t nxt" "a \<notin> members t nxt"
  shows "nxt(a := None) = nxt"
  using registry_inv_link [OF assms] by auto

lemma new_value_same_links:
  assumes "values_inv c" "a \<notin> value_members c"
  shows "(hash_next c)(a := None) = hash_next c"
    "(hash_next_free_candidate c)(a := None) = hash_next_free_candidate c"
  using assms registry_inv_link_upd [of "value_id c" "value_refs c" "hash_next c" a]
    registry_inv_link_upd [of "value_id c" "gc_candidate_values c" "hash_next_free_candidate c" a]
  by (auto simp: values_inv_def candidate_inv_def candidate_members_def value_members_def)

lemma new_value_members:
  assumes "values_inv c" "a \<notin> value_members c"
  shows "value_members (new_value a ty p c) = value_members c"
    "candidate_members (new_value a ty p c) = candidate_members c"
  unfolding new_value_def new_value_same_links [OF assms]
  by (simp_all add: value_members_def candidate_members_def retain_def)

lemma new_value_inv:
  assumes inv: "values_inv c" and a: "a \<notin> value_members c"
  shows "values_inv (new_value a ty p c)"
proof -
  have sub: "candidate_members c \<subseteq> value_members c" using inv by (simp add: values_inv_def)
  have "registry_inv ((value_id c)(a := 0)) (value_refs c) (hash_next c)"
    by (rule registry_inv_key_cong [of "value_id c"])
      (use inv a in \<open>auto simp: values_inv_def value_members_def\<close>)
  moreover have "registry_inv ((value_id c)(a := 0)) (gc_candidate_values c) (hash_next_free_candidate c)"
    by (rule registry_inv_key_cong [of "value_id c"])
      (use inv a sub in \<open>auto simp: values_inv_def candidate_inv_def candidate_members_def\<close>)
  moreover have "inj_on ((value_id c)(a := 0)) (value_members c)"
    using inv a by (auto simp: values_inv_def inj_on_def)
  ultimately show ?thesis
    using inv a sub unfolding values_inv_def new_value_members [OF inv a]
    unfolding new_value_def new_value_same_links [OF inv a]
    by (auto simp: retain_def candidate_inv_def)
qed

lemma new_value_frame:
  "next_id (new_value a ty p c) = next_id c" "gc_string_of (new_value a ty p c) = gc_string_of c"
  "string_refs (new_value a ty p c) = string_refs c" "string_next_ref (new_value a ty p c) = string_next_ref c"
  "stack_values (new_value a ty p c) = stack_values c"
  "userptr_refs (new_value a ty p c) = userptr_refs c" "userptr_next_ref (new_value a ty p c) = userptr_next_ref c"
  "userdata_ptr (new_value a ty p c) = userdata_ptr c"
  by (simp_all add: new_value_def retain_def)

lemma string_frame:
  "values_inv (c\<lparr>gc_string_of := f, string_next_ref := g\<rparr>) = values_inv c"
  "value_members (c\<lparr>gc_string_of := f, string_next_ref := g\<rparr>) = value_members c"
  by (simp_all add: values_inv_def value_members_def candidate_inv_def candidate_members_def)

lemma string_inv_upd:
  assumes "string_inv c" "a \<notin> string_members c" "gc_string_of c' = (gc_string_of c)(a := s)"
    "string_refs c' = string_refs c" "string_next_ref c' = string_next_ref c"
  shows "string_inv c'"
  unfolding string_inv_def assms(4,5)
  by (rule registry_inv_key_cong [of "string_key c"])
    (use assms in \<open>auto simp: string_inv_def string_key_def string_members_def\<close>)

lemma string_allocAndPush_ok:
  assumes inv: "interned_inv c" and a: "a \<notin> value_members c" and id: "next_id c + 1 \<noteq> 0"
    and h: "p_hash = 0 \<or> p_hash = keyToHash (buf1 @ buf2)"
    and new: "\<forall>s \<in> string_members c. str_data (gc_string_of c s) \<noteq> buf1 @ buf2"
  shows "\<exists>c'. string_allocAndPush a p_hash buf1 buf2 c = Some (c', a) \<and> interned_inv c'
    \<and> string_members c' = insert a (string_members c)
    \<and> gc_string_of c' = (gc_string_of c)(a := \<lparr>str_data = buf1 @ buf2, str_hash = keyToHash (buf1 @ buf2)\<rparr>)
    \<and> stack_values c' = stack_values c @ [VGC a]
    \<and> value_members c' = insert a (value_members c) \<and> next_id c' = next_id c + 1"
proof -
  let ?s = "\<lparr>str_data = buf1 @ buf2, str_hash = keyToHash (buf1 @ buf2)\<rparr>"
  let ?n = "new_value a OS_VALUE_TYPE_STRING PROTOTYPE_STRING c"
  let ?c1 = "?n\<lparr>gc_string_of := (gc_string_of ?n)(a := ?s), string_next_ref := (string_next_ref ?n)(a := None)\<rparr>"
  have vi: "values_inv c" and si: "string_inv c" and sub: "string_members c \<subseteq> value_members c"
    using inv by (auto simp: interned_inv_def)
  have as: "a \<notin> string_members c" using a sub by blast
  then have link: "(string_next_ref c)(a := None) = string_next_ref c"
    using si unfolding string_defs by (intro registry_inv_link_upd) auto
  have "values_inv ?c1" "a \<notin> value_members ?c1"
    using new_value_inv [OF vi a] new_value_members [OF vi a] a by (simp_all add: string_frame)
  from registerValueAndPush_inv [OF this] id obtain c2 where c2: "registerValueAndPush a ?c1 = Some c2"
      "values_inv c2" "value_members c2 = insert a (value_members ?c1)"
      "stack_values c2 = stack_values ?c1 @ [VGC a]" "other_fields c2 = other_fields ?c1"
      "next_id c2 = next_id ?c1 + 1"
    by (auto simp: new_value_frame)
  note same = other_fields_eqD [OF c2(5)]
  have str2: "string_refs c2 = string_refs c" "string_next_ref c2 = string_next_ref c"
      "gc_string_of c2 = (gc_string_of c)(a := ?s)"
    using same link by (simp_all add: new_value_frame)
  have si2: "string_inv c2" using string_inv_upd [OF si as str2(3,1,2)] .
  moreover have "string_members c2 = string_members c" by (simp add: string_members_def str2)
  ultimately obtain c3 where c3: "registerStringRef a c2 = Some c3" "string_inv c3"
      "string_members c3 = insert a (string_members c)"
    using strs.register [of c2 a] as by auto
  have fr: "gc_string_of c3 = gc_string_of c2" "stack_values c3 = stack_values c2"
      "values_inv c3" "value_members c3 = value_members c2"
      "next_id c3 = next_id c2"
    using c3(1) c2(2)
    by (auto simp: registerStringRef_def bind_eq_Some_conv values_inv_def value_members_def
        candidate_inv_def candidate_members_def)
  have "string_allocAndPush a p_hash buf1 buf2 c = Some (c3, a)"
    using h c2(1) c3(1) by (auto simp: string_allocAndPush_def Let_def calcHash_def)
  moreover have "interned_inv c3"
    using fr c3 str2 inv as new new_value_members [OF vi a]
    by (auto simp: interned_inv_def c2(3) string_frame inj_on_def)
  ultimately show ?thesis
    using c3(3) fr(1,2,4,5) str2(3) c2(3,4,6) new_value_members [OF vi a]
    by (auto simp: new_value_frame string_frame)
qed

lemma find_string:
  assumes inv: "interned_inv c" and "count (string_refs c) > 0"
    and h_def: "h = keyToHash2 buf1 buf2"
  shows "heads (string_refs c) \<noteq> []" "head_mask (string_refs c) \<noteq> 0"
    "(find_in_slot (\<lambda>s. string_isEqual2 (gc_string_of c s) h buf1 buf2) (string_refs c) (string_next_ref c)
        (hash_slot h (head_mask (string_refs c))) = Some None
      \<and> (\<forall>s \<in> string_members c. str_data (gc_string_of c s) \<noteq> buf1 @ buf2))
     \<or> (\<exists>prev s. find_in_slot (\<lambda>s. string_isEqual2 (gc_string_of c s) h buf1 buf2) (string_refs c) (string_next_ref c)
        (hash_slot h (head_mask (string_refs c))) = Some (Some (prev, s))
      \<and> s \<in> string_members c \<and> str_data (gc_string_of c s) = buf1 @ buf2)"
proof -
  have si: "registry_inv (string_key c) (string_refs c) (string_next_ref c)"
    using inv by (simp add: interned_inv_def string_inv_def)
  then have ne: "string_members c \<noteq> {}"
    using registry_count [OF si] assms(2) by (auto simp: string_members_def)
  then show hd: "heads (string_refs c) \<noteq> []"
    using registry_nonempty [OF si] by (auto simp: string_members_def)
  obtain css where "table_rep (string_key c) (string_refs c) (string_next_ref c) css"
    using si by (rule registry_inv_rep)
  then have "count (string_refs c) \<le> head_mask (string_refs c)" unfolding table_rep_def by blast
  then show "head_mask (string_refs c) \<noteq> 0" using assms(2) by linarith
  have slot: "slot_of (string_key c) (head_mask (string_refs c)) s = hash_slot h (head_mask (string_refs c))"
    if "s \<in> string_members c" "str_data (gc_string_of c s) = buf1 @ buf2" for s
    using that inv by (simp add: interned_inv_def slot_of_def hash_slot_def string_key_def h_def keyToHash2_joined)
  have eq: "string_isEqual2 (gc_string_of c s) h buf1 buf2 \<longleftrightarrow> str_data (gc_string_of c s) = buf1 @ buf2"
    if "s \<in> string_members c" for s
    using that inv
    by (auto simp: string_isEqual2_iff interned_inv_def h_def keyToHash2_joined)
  show "(find_in_slot (\<lambda>s. string_isEqual2 (gc_string_of c s) h buf1 buf2) (string_refs c) (string_next_ref c)
        (hash_slot h (head_mask (string_refs c))) = Some None
      \<and> (\<forall>s \<in> string_members c. str_data (gc_string_of c s) \<noteq> buf1 @ buf2))
     \<or> (\<exists>prev s. find_in_slot (\<lambda>s. string_isEqual2 (gc_string_of c s) h buf1 buf2) (string_refs c) (string_next_ref c)
        (hash_slot h (head_mask (string_refs c))) = Some (Some (prev, s))
      \<and> s \<in> string_members c \<and> str_data (gc_string_of c s) = buf1 @ buf2)"
    using find_in_slot_set [OF si registry_heads(2) [OF si hd], of "\<lambda>s. string_isEqual2 (gc_string_of c s) h buf1 buf2" h]
      eq slot unfolding string_members_def by blast
qed

lemma pushStringValue_step:
  assumes "collects_only collect" "interned_inv c" "a \<notin> value_members c" "next_id c + 1 \<noteq> 0"
  shows "\<exists>c' s c1. pushStringValue collect a buf1 buf2 c = Some (c', s) \<and> interned_inv c'
    \<and> s \<in> string_members c' \<and> str_data (gc_string_of c' s) = buf1 @ buf2
    \<and> stack_values c' = stack_values c @ [VGC s]
    \<and> gcFreeCandidateValues collect c = Some c1 \<and> string_members c1 \<subseteq> string_members c
    \<and> string_members c' = insert s (string_members c1)
    \<and> (\<forall>t \<in> string_members c1. str_data (gc_string_of c' t) = str_data (gc_string_of c t))
    \<and> (s = a \<or> s \<in> string_members c1) \<and> value_members c' \<subseteq> insert a (value_members c)
    \<and> (next_id c' = next_id c \<or> next_id c' = next_id c + 1)"
proof -
  obtain c1 where c1: "gcFreeCandidateValues collect c = Some c1" "interned_inv c1"
      "value_members c1 \<subseteq> value_members c" "string_members c1 \<subseteq> string_members c"
      "gc_string_of c1 = gc_string_of c" "next_id c1 = next_id c" "stack_values c1 = stack_values c"
    using gcFreeCandidateValues_ok [OF assms(1,2)] by blast
  have a: "a \<notin> value_members c1" "a \<notin> string_members c1" and id: "next_id c1 + 1 \<noteq> 0"
    using assms(3,4) c1(2,3,6) by (auto simp: interned_inv_def)
  have new: "pushStringValue collect a buf1 buf2 c = string_allocAndPush a h buf1 buf2 c1 \<Longrightarrow>
      h = 0 \<or> h = keyToHash (buf1 @ buf2) \<Longrightarrow>
      \<forall>s \<in> string_members c1. str_data (gc_string_of c1 s) \<noteq> buf1 @ buf2 \<Longrightarrow> ?thesis" for h
    using string_allocAndPush_ok [OF c1(2) a(1) id, of h buf1 buf2] c1 a(2) by auto
  show ?thesis
  proof (cases "count (string_refs c1) > 0")
    case True
    note f = find_string [OF c1(2) True refl [of "keyToHash2 buf1 buf2"]]
    from f(3) show ?thesis
    proof (elim disjE exE conjE)
      assume n: "find_in_slot (\<lambda>s. string_isEqual2 (gc_string_of c1 s) (keyToHash2 buf1 buf2) buf1 buf2)
          (string_refs c1) (string_next_ref c1) (hash_slot (keyToHash2 buf1 buf2) (head_mask (string_refs c1))) = Some None"
        and no: "\<forall>s \<in> string_members c1. str_data (gc_string_of c1 s) \<noteq> buf1 @ buf2"
      show ?thesis
        by (rule new [of "keyToHash2 buf1 buf2"])
          (use n no c1(1) True f in \<open>auto simp: pushStringValue_def Let_def keyToHash2_joined\<close>)
    next
      fix prev s
      assume n: "find_in_slot (\<lambda>s. string_isEqual2 (gc_string_of c1 s) (keyToHash2 buf1 buf2) buf1 buf2)
          (string_refs c1) (string_next_ref c1) (hash_slot (keyToHash2 buf1 buf2) (head_mask (string_refs c1)))
            = Some (Some (prev, s))"
        and s: "s \<in> string_members c1" "str_data (gc_string_of c1 s) = buf1 @ buf2"
      have "pushStringValue collect a buf1 buf2 c = Some (pushValue (VGC s) c1, s)"
        using n c1(1) True f by (simp add: pushStringValue_def Let_def)
      moreover have "interned_inv (pushValue (VGC s) c1)"
        using c1(2) by (simp add: pushValue_def interned_inv_def values_inv_def string_inv_def string_members_def
            value_members_def candidate_inv_def candidate_members_def string_key_def [abs_def])
      ultimately show ?thesis
        using s c1 by (auto simp: pushValue_def string_members_def value_members_def)
    qed
  next
    case False
    have "registry_inv (string_key c1) (string_refs c1) (string_next_ref c1)"
      using c1(2) by (simp add: interned_inv_def string_inv_def)
    from registry_count [OF this] False have "string_members c1 = {}" by (simp add: string_members_def)
    then show ?thesis
      by (intro new [of 0]) (use c1(1) False in \<open>simp_all add: pushStringValue_def\<close>)
  qed
qed

section \<open>The interning interface\<close>

text \<open>
  What the compiler and the property tables rely on: asking for an object by content gives one that has
  this content, and two live objects never have the same content, so that comparing addresses compares
  contents.
\<close>

locale interner =
  fixes push :: "'q \<Rightarrow> addr \<Rightarrow> 's \<Rightarrow> ('s \<times> addr) option"
    and key :: "'q \<Rightarrow> 'k"
    and inv :: "'s \<Rightarrow> bool"
    and objects :: "'s \<Rightarrow> addr set"
    and content :: "'s \<Rightarrow> addr \<Rightarrow> 'k"
    and fresh :: "'s \<Rightarrow> addr \<Rightarrow> bool"
  assumes push: "inv s \<Longrightarrow> fresh s a \<Longrightarrow> \<exists>s' x. push q a s = Some (s', x) \<and> inv s'
      \<and> objects s' = insert x (objects s) \<and> content s' x = key q
      \<and> (\<forall>y \<in> objects s. content s' y = content s y)"
    and unique: "inv s \<Longrightarrow> x \<in> objects s \<Longrightarrow> y \<in> objects s \<Longrightarrow> content s x = content s y \<Longrightarrow> x = y"
begin

lemma push_existing:
  assumes "inv s" "fresh s a" "x \<in> objects s" "content s x = key q"
  shows "\<exists>s'. push q a s = Some (s', x)"
proof -
  obtain s' y where p: "push q a s = Some (s', y)" "inv s'" "objects s' = insert y (objects s)"
      "content s' y = key q" "\<forall>z \<in> objects s. content s' z = content s z"
    using push [OF assms(1,2)] by blast
  have "x = y" by (rule unique [OF p(2)]) (use p assms in auto)
  with p(1) show ?thesis by blast
qed

lemma push_twice:
  assumes "inv s" "fresh s a" "push q a s = Some (s1, x)" "fresh s1 b"
  shows "\<exists>s2 y. push r b s1 = Some (s2, y) \<and> (x = y \<longleftrightarrow> key q = key r)"
proof -
  have 1: "inv s1" "x \<in> objects s1" "content s1 x = key q"
    using push [OF assms(1,2), of q] assms(3) by auto
  obtain s2 y where 2: "push r b s1 = Some (s2, y)" "inv s2" "objects s2 = insert y (objects s1)"
      "content s2 y = key r" "\<forall>z \<in> objects s1. content s2 z = content s1 z"
    using push [OF 1(1) assms(4)] by blast
  have "x = y \<longleftrightarrow> key q = key r"
  proof
    assume "x = y"
    with 1 2 show "key q = key r" by auto
  next
    assume "key q = key r"
    with 1 2 show "x = y" by (intro unique [OF 2(2)]) auto
  qed
  with 2(1) show ?thesis by blast
qed

end

definition fresh_value :: "core \<Rightarrow> addr \<Rightarrow> bool" where
  "fresh_value c a \<longleftrightarrow> a \<notin> value_members c \<and> next_id c + 1 \<noteq> 0"

lemma collects_only_Some: "collects_only Some"
  by (simp add: collects_only_def)

lemma gc_none: "gcFreeCandidateValues Some c = Some c"
  by (simp add: gcFreeCandidateValues_def)

interpretation interned_strings: interner "\<lambda>(buf1, buf2) a. pushStringValue Some a buf1 buf2"
  "\<lambda>(buf1, buf2). buf1 @ buf2" interned_inv string_members "\<lambda>c s. str_data (gc_string_of c s)" fresh_value
proof unfold_locales
  fix c :: core and a and q :: "bytes \<times> bytes"
  assume "interned_inv c" "fresh_value c a"
  then show "\<exists>c' x. (case q of (buf1, buf2) \<Rightarrow> \<lambda>a. pushStringValue Some a buf1 buf2) a c = Some (c', x)
      \<and> interned_inv c' \<and> string_members c' = insert x (string_members c)
      \<and> str_data (gc_string_of c' x) = (case q of (buf1, buf2) \<Rightarrow> buf1 @ buf2)
      \<and> (\<forall>y \<in> string_members c. str_data (gc_string_of c' y) = str_data (gc_string_of c y))"
    using pushStringValue_step [OF collects_only_Some, of c a "fst q" "snd q"]
    by (auto simp: fresh_value_def gc_none split_def)
qed (auto simp: interned_inv_def dest: inj_onD)

text \<open>
  C8: \<open>pushStringValue\<close> interns: whatever the collector removed before, it returns a live string with the
  content asked for, which is the only live string with that content, and pushes it; it is an already
  live string or the newly allocated one, and the invariant (cached hashes are right, contents are
  pairwise different) is kept.
\<close>

theorem pushStringValue_interns:
  assumes "collects_only collect" "interned_inv c" "a \<notin> value_members c" "next_id c + 1 \<noteq> 0"
  shows "\<exists>c' s. pushStringValue collect a buf1 buf2 c = Some (c', s) \<and> interned_inv c'
    \<and> s \<in> string_members c' \<and> str_data (gc_string_of c' s) = buf1 @ buf2
    \<and> (\<forall>t \<in> string_members c'. str_data (gc_string_of c' t) = buf1 @ buf2 \<longrightarrow> t = s)
    \<and> stack_values c' = stack_values c @ [VGC s] \<and> (s = a \<or> s \<in> string_members c)"
proof -
  obtain c' s where p: "pushStringValue collect a buf1 buf2 c = Some (c', s)" "interned_inv c'"
      "s \<in> string_members c'" "str_data (gc_string_of c' s) = buf1 @ buf2"
      "stack_values c' = stack_values c @ [VGC s]" "s = a \<or> s \<in> string_members c"
    using pushStringValue_step [OF assms, of buf1 buf2] by blast
  moreover have "t = s" if "t \<in> string_members c'" "str_data (gc_string_of c' t) = buf1 @ buf2" for t
    using p(2,3,4) that interned_strings.unique by metis
  ultimately show ?thesis by blast
qed

lemma interned_initial: "interned_inv initial_core"
  using initial_core_inv by (simp add: interned_inv_def)

theorem pushStringValue_interns_witness:
  "\<exists>c s. pushStringValue Some 5 [1, 2] [3] initial_core = Some (c, s) \<and> interned_inv c
    \<and> str_data (gc_string_of c s) = [1, 2, 3] \<and> s = 5"
proof -
  have "next_id initial_core + 1 \<noteq> 0" by (simp add: initial_core_def)
  with pushStringValue_interns [OF collects_only_Some interned_initial, of 5 "[1, 2]" "[3]"]
  show ?thesis by auto
qed

text \<open>
  Between two collections, two requests for a string, each given as two buffers, return the same
  object exactly when the joined contents are equal, however the contents were split.
\<close>

theorem pushStringValue_twice:
  assumes "interned_inv c" "fresh_value c a" "pushStringValue Some a buf1 buf2 c = Some (c1, s)" "fresh_value c1 b"
  shows "\<exists>c2 t. pushStringValue Some b buf3 buf4 c1 = Some (c2, t) \<and> (s = t \<longleftrightarrow> buf1 @ buf2 = buf3 @ buf4)"
  using interned_strings.push_twice [of c a "(buf1, buf2)" c1 s b "(buf3, buf4)"] assms by simp

theorem pushStringValue_twice_witness:
  "\<exists>c1 c2 s. pushStringValue Some 5 [1] [2] initial_core = Some (c1, s)
    \<and> pushStringValue Some 6 [1, 2] [] c1 = Some (c2, s)"
proof -
  have n: "next_id initial_core = 1" by (simp add: initial_core_def)
  then have "next_id initial_core + 1 \<noteq> 0" by simp
  then obtain c1 s where c1: "pushStringValue Some 5 [1] [2] initial_core = Some (c1, s)"
      "value_members c1 \<subseteq> {5}" "next_id c1 = 1 \<or> next_id c1 = 2"
    using pushStringValue_step [OF collects_only_Some interned_initial, of 5 "[1]" "[2]"] n by auto
  have "fresh_value initial_core 5" "fresh_value c1 6"
    using n c1(2,3) by (auto simp: fresh_value_def)
  from pushStringValue_twice [OF interned_initial this(1) c1(1) this(2), of "[1, 2]" "[]"] c1(1)
  show ?thesis by auto
qed

section \<open>User pointers\<close>

text \<open>All user pointers of one kind: their \<open>crc\<close> and destructor are the ones that the call passes.\<close>

definition userptrs_inv :: "u32 \<Rightarrow> u64 \<Rightarrow> core \<Rightarrow> bool" where
  "userptrs_inv crc dtor c \<longleftrightarrow>
     values_inv c \<and> userptr_inv c \<and> userptr_members c \<subseteq> value_members c
     \<and> (\<forall>u \<in> userptr_members c. userdata_crc c u = crc \<and> userdata_dtor c u = dtor)
     \<and> inj_on (userdata_ptr c) (userptr_members c)"

lemma userptr_frame:
  "values_inv (c\<lparr>userdata_crc := f1, userdata_dtor := f2, userdata_user_param := f3, userdata_ptr := f4,
      userptr_next_ref := f5\<rparr>) = values_inv c"
  "value_members (c\<lparr>userdata_crc := f1, userdata_dtor := f2, userdata_user_param := f3, userdata_ptr := f4,
      userptr_next_ref := f5\<rparr>) = value_members c"
  by (simp_all add: values_inv_def value_members_def candidate_inv_def candidate_members_def)

lemma new_value_userdata:
  "userdata_crc (new_value a ty p c) = userdata_crc c" "userdata_dtor (new_value a ty p c) = userdata_dtor c"
  by (simp_all add: new_value_def retain_def)

lemma other_fields_userdata:
  "other_fields c' = other_fields c \<Longrightarrow> userdata_crc c' = userdata_crc c \<and> userdata_dtor c' = userdata_dtor c"
  by (cases c; cases c'; simp add: other_fields_def)

lemma create_userptr:
  assumes inv: "userptrs_inv crc dtor c" and a: "fresh_value c a"
    and new: "\<forall>u \<in> userptr_members c. userdata_ptr c u \<noteq> ptr"
    and n_def: "n = new_value a OS_VALUE_TYPE_USERPTR PROTOTYPE_USERDATA c"
    and c1_def: "c1 = n\<lparr>userdata_crc := (userdata_crc n)(a := crc), userdata_dtor := (userdata_dtor n)(a := dtor),
      userdata_user_param := (userdata_user_param n)(a := user_param),
      userdata_ptr := (userdata_ptr n)(a := ptr), userptr_next_ref := (userptr_next_ref n)(a := None)\<rparr>"
  shows "\<exists>c2 c3. registerValueAndPush a c1 = Some c2 \<and> registerUserptrRef a c2 = Some c3
    \<and> userptrs_inv crc dtor c3 \<and> userptr_members c3 = insert a (userptr_members c)
    \<and> userdata_ptr c3 = (userdata_ptr c)(a := ptr)
    \<and> value_members c3 = insert a (value_members c) \<and> next_id c3 = next_id c + 1"
proof -
  have vi: "values_inv c" and ui: "userptr_inv c" and sub: "userptr_members c \<subseteq> value_members c"
    and av: "a \<notin> value_members c" and id: "next_id c + 1 \<noteq> 0"
    using inv a by (auto simp: userptrs_inv_def fresh_value_def)
  have au: "a \<notin> userptr_members c" using av sub by blast
  then have link: "(userptr_next_ref c)(a := None) = userptr_next_ref c"
    using ui unfolding userptr_defs by (intro registry_inv_link_upd) auto
  have vm: "value_members c1 = value_members c" and vi1: "values_inv c1"
    using new_value_inv [OF vi av] new_value_members [OF vi av]
    by (simp_all add: c1_def n_def userptr_frame)
  have id1: "next_id c1 = next_id c" by (simp add: c1_def n_def new_value_frame)
  obtain c2 where c2: "registerValueAndPush a c1 = Some c2" "values_inv c2"
      "value_members c2 = insert a (value_members c)" "other_fields c2 = other_fields c1" "next_id c2 = next_id c + 1"
    using registerValueAndPush_inv [OF vi1, of a] av id vm id1 by auto
  have same: "userptr_refs c2 = userptr_refs c" "userptr_next_ref c2 = userptr_next_ref c"
      "userdata_ptr c2 = (userdata_ptr c)(a := ptr)"
    using other_fields_eqD [OF c2(4)] link by (simp_all add: c1_def n_def new_value_frame)
  have same': "userdata_crc c2 = (userdata_crc c)(a := crc)" "userdata_dtor c2 = (userdata_dtor c)(a := dtor)"
    using other_fields_userdata [OF c2(4)] by (simp_all add: c1_def n_def new_value_userdata)
  have um: "userptr_members c2 = userptr_members c" by (simp add: userptr_members_def same)
  have "userptr_inv c2"
    unfolding userptr_inv_def same(1,2)
    by (rule registry_inv_key_cong [of "userptr_key c"])
      (use ui au same(3) in \<open>auto simp: userptr_inv_def userptr_key_def userptr_members_def\<close>)
  then obtain c3 where c3: "registerUserptrRef a c2 = Some c3" "userptr_inv c3"
      "userptr_members c3 = insert a (userptr_members c)"
    using uptrs.register [of c2 a] au um by auto
  have fr: "userdata_ptr c3 = userdata_ptr c2" "userdata_crc c3 = userdata_crc c2" "userdata_dtor c3 = userdata_dtor c2"
      "values_inv c3" "value_members c3 = value_members c2" "next_id c3 = next_id c2"
    using c3(1) c2(2)
    by (auto simp: registerUserptrRef_def bind_eq_Some_conv values_inv_def value_members_def os_assert_def
        candidate_inv_def candidate_members_def split: if_splits)
  have "userptrs_inv crc dtor c3"
    using fr c3 same same' inv au new by (auto simp: userptrs_inv_def c2(3) inj_on_def)
  with c2 c3 fr same show ?thesis by auto
qed

lemma find_userptr:
  assumes inv: "userptrs_inv crc dtor c" and "count (userptr_refs c) > 0"
  shows "heads (userptr_refs c) \<noteq> []" "head_mask (userptr_refs c) \<noteq> 0"
    "(find_in_slot (\<lambda>u. userdata_ptr c u = ptr) (userptr_refs c) (userptr_next_ref c)
        (hash_slot (OS_PTR_HASH ptr) (head_mask (userptr_refs c))) = Some None
      \<and> (\<forall>u \<in> userptr_members c. userdata_ptr c u \<noteq> ptr))
     \<or> (\<exists>prev u. find_in_slot (\<lambda>u. userdata_ptr c u = ptr) (userptr_refs c) (userptr_next_ref c)
        (hash_slot (OS_PTR_HASH ptr) (head_mask (userptr_refs c))) = Some (Some (prev, u))
      \<and> u \<in> userptr_members c \<and> userdata_ptr c u = ptr)"
proof -
  have ui: "registry_inv (userptr_key c) (userptr_refs c) (userptr_next_ref c)"
    using inv by (simp add: userptrs_inv_def userptr_inv_def)
  then have ne: "userptr_members c \<noteq> {}"
    using registry_count [OF ui] assms(2) by (auto simp: userptr_members_def)
  then show hd: "heads (userptr_refs c) \<noteq> []"
    using registry_nonempty [OF ui] by (auto simp: userptr_members_def)
  obtain css where "table_rep (userptr_key c) (userptr_refs c) (userptr_next_ref c) css"
    using ui by (rule registry_inv_rep)
  then have "count (userptr_refs c) \<le> head_mask (userptr_refs c)" unfolding table_rep_def by blast
  then show "head_mask (userptr_refs c) \<noteq> 0" using assms(2) by linarith
  have slot: "slot_of (userptr_key c) m u = hash_slot (OS_PTR_HASH ptr) m" if "userdata_ptr c u = ptr" for u m
    using that by (simp add: slot_of_def hash_slot_def userptr_key_def)
  show "(find_in_slot (\<lambda>u. userdata_ptr c u = ptr) (userptr_refs c) (userptr_next_ref c)
        (hash_slot (OS_PTR_HASH ptr) (head_mask (userptr_refs c))) = Some None
      \<and> (\<forall>u \<in> userptr_members c. userdata_ptr c u \<noteq> ptr))
     \<or> (\<exists>prev u. find_in_slot (\<lambda>u. userdata_ptr c u = ptr) (userptr_refs c) (userptr_next_ref c)
        (hash_slot (OS_PTR_HASH ptr) (head_mask (userptr_refs c))) = Some (Some (prev, u))
      \<and> u \<in> userptr_members c \<and> userdata_ptr c u = ptr)"
    using find_in_slot_set [OF ui registry_heads(2) [OF ui hd], of "\<lambda>u. userdata_ptr c u = ptr" "OS_PTR_HASH ptr"]
      slot unfolding userptr_members_def by blast
qed

lemma pushUserPointerValue_step:
  assumes inv: "userptrs_inv crc dtor c" and a: "fresh_value c a"
  shows "\<exists>c' u. pushUserPointerValue Some a crc ptr dtor up c = Some (c', u) \<and> userptrs_inv crc dtor c'
    \<and> userptr_members c' = insert u (userptr_members c) \<and> userdata_ptr c' u = ptr
    \<and> (\<forall>v \<in> userptr_members c. userdata_ptr c' v = userdata_ptr c v)
    \<and> value_members c' \<subseteq> insert a (value_members c) \<and> (next_id c' = next_id c \<or> next_id c' = next_id c + 1)"
proof -
  have au: "a \<notin> userptr_members c" using inv a by (auto simp: userptrs_inv_def fresh_value_def)
  show ?thesis
  proof (cases "\<forall>u \<in> userptr_members c. userdata_ptr c u \<noteq> ptr")
    case True
    obtain c2 c3 where c3: "userptrs_inv crc dtor c3" "userptr_members c3 = insert a (userptr_members c)"
        "userdata_ptr c3 = (userdata_ptr c)(a := ptr)"
        "value_members c3 = insert a (value_members c)" "next_id c3 = next_id c + 1"
      and create: "registerValueAndPush a (let n = new_value a OS_VALUE_TYPE_USERPTR PROTOTYPE_USERDATA c
          in n\<lparr>userdata_crc := (userdata_crc n)(a := crc), userdata_dtor := (userdata_dtor n)(a := dtor),
               userdata_user_param := (userdata_user_param n)(a := up), userdata_ptr := (userdata_ptr n)(a := ptr),
               userptr_next_ref := (userptr_next_ref n)(a := None)\<rparr>) = Some c2" "registerUserptrRef a c2 = Some c3"
      using create_userptr [OF inv a True refl refl, where user_param = up] unfolding Let_def by blast
    have "pushUserPointerValue Some a crc ptr dtor up c = Some (c3, a)"
    proof (cases "count (userptr_refs c) > 0")
      case pos: True
      show ?thesis
        using create find_userptr(1,2) [OF inv pos] find_userptr(3) [OF inv pos, of ptr] True pos
        by (auto simp: pushUserPointerValue_def Let_def gc_none)
    next
      case False
      with create show ?thesis by (simp add: pushUserPointerValue_def Let_def gc_none)
    qed
    with c3 au show ?thesis by auto
  next
    case False
    have ui: "registry_inv (userptr_key c) (userptr_refs c) (userptr_next_ref c)"
      using inv by (simp add: userptrs_inv_def userptr_inv_def)
    have pos: "count (userptr_refs c) > 0"
      using registry_count [OF ui] False by (auto simp: userptr_members_def card_gt_0_iff)
    from find_userptr(3) [OF inv pos, of ptr] False obtain prev u where u:
        "find_in_slot (\<lambda>u. userdata_ptr c u = ptr) (userptr_refs c) (userptr_next_ref c)
          (hash_slot (OS_PTR_HASH ptr) (head_mask (userptr_refs c))) = Some (Some (prev, u))"
        "u \<in> userptr_members c" "userdata_ptr c u = ptr"
      by blast
    then have "pushUserPointerValue Some a crc ptr dtor up c = Some (pushValue (VGC u) c, u)"
      using pos find_userptr(1,2) [OF inv pos] inv
      by (simp add: pushUserPointerValue_def Let_def userptrs_inv_def)
    moreover have "userptrs_inv crc dtor (pushValue (VGC u) c)"
      using inv by (simp add: pushValue_def userptrs_inv_def values_inv_def userptr_inv_def userptr_members_def
          value_members_def candidate_inv_def candidate_members_def userptr_key_def [abs_def])
    ultimately show ?thesis
      using u by (auto simp: pushValue_def userptr_members_def value_members_def)
  qed
qed

interpretation interned_ptrs: interner "\<lambda>ptr a. pushUserPointerValue Some a crc ptr dtor user_param" "\<lambda>ptr. ptr"
  "userptrs_inv crc dtor" userptr_members userdata_ptr fresh_value
  for crc dtor user_param
proof unfold_locales
  fix c a q
  assume "userptrs_inv crc dtor c" "fresh_value c a"
  from pushUserPointerValue_step [OF this, where ptr = q and up = user_param]
  show "\<exists>c' x. pushUserPointerValue Some a crc q dtor user_param c = Some (c', x) \<and> userptrs_inv crc dtor c'
      \<and> userptr_members c' = insert x (userptr_members c) \<and> userdata_ptr c' x = q
      \<and> (\<forall>y \<in> userptr_members c. userdata_ptr c' y = userdata_ptr c y)"
    by blast
qed (auto simp: userptrs_inv_def dest: inj_onD)

text \<open>
  Between two collections, pushing two user pointers of one kind gives the same object exactly when
  the pointers are the same.
\<close>

theorem pushUserPointerValue_twice:
  assumes "userptrs_inv crc dtor c" "fresh_value c a"
    "pushUserPointerValue Some a crc p dtor up c = Some (c1, u)" "fresh_value c1 b"
  shows "\<exists>c2 v. pushUserPointerValue Some b crc q dtor up c1 = Some (c2, v) \<and> (u = v \<longleftrightarrow> p = q)"
  using interned_ptrs.push_twice [OF assms] .

theorem pushUserPointerValue_twice_witness:
  "\<exists>c1 c2 u. pushUserPointerValue Some 5 1 100 2 3 initial_core = Some (c1, u)
    \<and> pushUserPointerValue Some 6 1 100 2 3 c1 = Some (c2, u)"
proof -
  have n: "next_id initial_core = 1" by (simp add: initial_core_def)
  have i: "userptrs_inv 1 2 initial_core" using initial_core_inv by (simp add: userptrs_inv_def)
  have f: "fresh_value initial_core 5" using n by (simp add: fresh_value_def)
  obtain c1 u where c1: "pushUserPointerValue Some 5 1 100 2 3 initial_core = Some (c1, u)"
      "value_members c1 \<subseteq> {5}" "next_id c1 = 1 \<or> next_id c1 = 2"
    using pushUserPointerValue_step [OF i f, where ptr = 100 and up = 3] n by auto
  have "fresh_value c1 6" using c1(2,3) by (auto simp: fresh_value_def)
  from pushUserPointerValue_twice [OF i f c1(1) this, of 100] c1(1) show ?thesis by auto
qed

end
