(* ===== verification/Numbers.thy ===== *)
theory Numbers
  imports Hashing
begin

text \<open>
  \<open>OS_NUMBER\<close> is the C \<open>double\<close>.  A number is kept here as its 64-bit IEEE 754 pattern; the C
  operations that the property tables apply to it are written out on the pattern: comparison, the
  conversion to \<open>float\<close> (round to nearest, ties to even) whose four bytes \<open>getValueHash\<close> hashes, the
  conversion from \<open>OS_INT\<close> (\<open>int64_t\<close>) and the truncation back.
\<close>

section \<open>Fields and comparison\<close>

definition dbl_exponent :: "u64 \<Rightarrow> int" where
  "dbl_exponent w = uint (drop_bit 52 w AND 0x7FF)"

definition dbl_mantissa :: "u64 \<Rightarrow> int" where
  "dbl_mantissa w = uint (w AND 0xFFFFFFFFFFFFF)"

definition dbl_negative :: "u64 \<Rightarrow> bool" where
  "dbl_negative w \<longleftrightarrow> w \<ge> 0x8000000000000000"

definition dbl_is_nan :: "u64 \<Rightarrow> bool" where
  "dbl_is_nan w \<longleftrightarrow> dbl_exponent w = 0x7FF \<and> dbl_mantissa w \<noteq> 0"

text \<open>The pattern without its sign bit orders the absolute values; both zeros have the key 0.\<close>

definition dbl_key :: "u64 \<Rightarrow> int" where
  "dbl_key w = (if dbl_negative w then 0x8000000000000000 - uint w else uint w)"

definition dbl_eq :: "u64 \<Rightarrow> u64 \<Rightarrow> bool" where
  "dbl_eq x y \<longleftrightarrow> \<not> dbl_is_nan x \<and> \<not> dbl_is_nan y \<and> dbl_key x = dbl_key y"

definition dbl_le :: "u64 \<Rightarrow> u64 \<Rightarrow> bool" where
  "dbl_le x y \<longleftrightarrow> \<not> dbl_is_nan x \<and> \<not> dbl_is_nan y \<and> dbl_key x \<le> dbl_key y"

section \<open>Rounding\<close>

text \<open>\<open>shift_round m s\<close> is \<open>m / 2 ^ s\<close> rounded to nearest, ties to even.\<close>

definition shift_round :: "int \<Rightarrow> nat \<Rightarrow> int" where
  "shift_round m s =
     (let q = m div 2 ^ s; r = m mod 2 ^ s
      in if 2 * r > 2 ^ s \<or> (2 * r = 2 ^ s \<and> odd q) then q + 1 else q)"

text \<open>\<open>(float)d\<close>: the 32-bit pattern.\<close>

definition double_to_float :: "u64 \<Rightarrow> u32" where
  "double_to_float w =
     (let sgn = (if dbl_negative w then 0x80000000 else 0 :: u32);
          e = dbl_exponent w; m = dbl_mantissa w
      in sgn OR
         (if e = 0x7FF then
            (if m = 0 then 0x7F800000 else 0x7FC00000 OR word_of_int (m div 2 ^ 29))
          else if e = 0 then 0
          else if e \<ge> 1151 then 0x7F800000
          else if e \<ge> 897 then word_of_int ((e - 897) * 2 ^ 23 + shift_round (m + 2 ^ 52) 29)
          else word_of_int (shift_round (m + 2 ^ 52) (29 + nat (897 - e)))))"

text \<open>\<open>(double)i\<close> for an \<open>OS_INT\<close>: the position of the leading bit gives the exponent.\<close>

function bit_length :: "int \<Rightarrow> nat" where
  "bit_length n = (if n \<le> 0 then 0 else Suc (bit_length (n div 2)))"
  by pat_completeness auto
termination
  by (relation "measure nat") auto

declare bit_length.simps [simp del]

definition double_of_int :: "int \<Rightarrow> u64" where
  "double_of_int i =
     (let n = \<bar>i\<bar>; l = bit_length n;
          sgn = (if i < 0 then 0x8000000000000000 else 0 :: int)
      in if n = 0 then 0
         else if l \<le> 53 then word_of_int (sgn + (int l + 1021) * 2 ^ 52 + n * 2 ^ (53 - l))
         else word_of_int (sgn + (int l + 1021) * 2 ^ 52 + shift_round n (l - 53)))"

text \<open>\<open>(OS_INT)d\<close>; \<open>None\<close> where the conversion is undefined (NaN, infinity, out of range).\<close>

definition double_trunc :: "u64 \<Rightarrow> int option" where
  "double_trunc w =
     (let e = dbl_exponent w; m = dbl_mantissa w;
          a = (if e < 1023 then 0
               else if e \<le> 1075 then (m + 2 ^ 52) div 2 ^ nat (1075 - e)
               else (m + 2 ^ 52) * 2 ^ nat (e - 1075));
          i = (if dbl_negative w then - a else a)
      in if e = 0x7FF \<or> i < - (2 ^ 63) \<or> i \<ge> 2 ^ 63 then None else Some i)"

section \<open>Hashing of numbers\<close>

definition float_bytes :: "u32 \<Rightarrow> bytes" where
  "float_bytes w = [ucast w, ucast (drop_bit 8 w), ucast (drop_bit 16 w), ucast (drop_bit 24 w)]"

definition number_hash :: "u64 \<Rightarrow> u32" where
  "number_hash w = fold (\<lambda>b hash. OS_ADD_STR_HASH_VALUE hash b) (float_bytes (double_to_float w)) OS_STR_HASH_START_VALUE"

section \<open>Reading the fields\<close>

lemma dbl_exponent_eq: "dbl_exponent w = uint w div 2 ^ 52 mod 2 ^ 11"
proof -
  have "drop_bit 52 w AND 0x7FF = take_bit 11 (drop_bit 52 w)"
    by (simp add: take_bit_eq_mask mask_eq_exp_minus_1)
  then show ?thesis
    by (simp add: dbl_exponent_def unsigned_take_bit_eq unsigned_drop_bit_eq take_bit_eq_mod drop_bit_eq_div
        uint_div uint_mod)
qed

lemma dbl_mantissa_eq: "dbl_mantissa w = uint w mod 2 ^ 52"
proof -
  have "w AND 0xFFFFFFFFFFFFF = take_bit 52 w"
    by (simp add: take_bit_eq_mask mask_eq_exp_minus_1)
  then show ?thesis
    by (simp add: dbl_mantissa_def unsigned_take_bit_eq take_bit_eq_mod uint_mod)
qed

lemma dbl_negative_eq: "dbl_negative w \<longleftrightarrow> 2 ^ 63 \<le> uint w"
  by (simp add: dbl_negative_def word_le_def)

lemmas dbl_fields = dbl_exponent_eq dbl_mantissa_eq dbl_negative_eq

lemma uint_64_less: "uint (w :: u64) < 2 ^ 64"
  using uint_lt2p [of w] by simp

lemma dbl_eq_bits: "dbl_eq x y \<Longrightarrow> x = y \<or> (dbl_key x = 0 \<and> dbl_key y = 0)"
  using uint_64_less [of x] uint_64_less [of y] uint_ge_0 [of x] uint_ge_0 [of y]
  unfolding dbl_eq_def dbl_key_def dbl_negative_eq word_uint_eq_iff
  by (cases "2 ^ 63 \<le> uint x"; cases "2 ^ 63 \<le> uint y"; simp del: uint_ge_0; linarith)

lemma dbl_key_zero: "dbl_key w = 0 \<longleftrightarrow> w = 0 \<or> w = 0x8000000000000000"
  using uint_ge_0 [of w] by (auto simp: dbl_key_def dbl_negative_eq word_uint_eq_iff)

definition hash_slot_of_number :: "u64 \<Rightarrow> nat \<Rightarrow> nat" where
  "hash_slot_of_number w m = unat (number_hash w AND of_nat m)"

lemma dbl_eq_refl: "dbl_eq x x \<longleftrightarrow> \<not> dbl_is_nan x"
  by (simp add: dbl_eq_def)

lemma dbl_eq_sym: "dbl_eq x y \<longleftrightarrow> dbl_eq y x"
  by (auto simp: dbl_eq_def)

lemma dbl_eq_trans: "dbl_eq x y \<Longrightarrow> dbl_eq y z \<Longrightarrow> dbl_eq x z"
  by (simp add: dbl_eq_def)

text \<open>Equal numbers other than zero have the same hash.\<close>

lemma number_hash_eq: "dbl_eq x y \<Longrightarrow> dbl_key x \<noteq> 0 \<Longrightarrow> number_hash x = number_hash y"
  using dbl_eq_bits by blast

section \<open>Integers that a double holds exactly\<close>

lemma bit_length_bounds: "0 < n \<Longrightarrow> 2 ^ bit_length n \<le> 2 * n \<and> n < 2 ^ bit_length n"
proof (induction n rule: bit_length.induct)
  case (1 n)
  show ?case
  proof (cases "n = 1")
    case True
    then show ?thesis by (simp add: bit_length.simps [of 1] bit_length.simps [of 0])
  next
    case False
    with 1 have "2 ^ bit_length (n div 2) \<le> 2 * (n div 2) \<and> n div 2 < 2 ^ bit_length (n div 2)" by auto
    with 1 show ?thesis by (auto simp: bit_length.simps [of n])
  qed
qed

lemma bit_length_le: "0 < n \<Longrightarrow> n < 2 ^ k \<Longrightarrow> bit_length n \<le> k"
proof (rule ccontr)
  assume n: "0 < n" "n < 2 ^ k" and "\<not> bit_length n \<le> k"
  then have "(2 :: int) ^ Suc k \<le> 2 ^ bit_length n" by (intro power_increasing) auto
  with n bit_length_bounds [of n] show False by simp
qed

lemma double_of_int_fields:
  assumes "i \<noteq> 0" "\<bar>i\<bar> < 2 ^ 53"
  defines "l \<equiv> bit_length \<bar>i\<bar>"
  shows "dbl_exponent (double_of_int i) = int l + 1022"
    "dbl_mantissa (double_of_int i) = \<bar>i\<bar> * 2 ^ (53 - l) - 2 ^ 52"
    "dbl_negative (double_of_int i) \<longleftrightarrow> i < 0"
proof -
  let ?n = "\<bar>i\<bar>" and ?M = "\<bar>i\<bar> * 2 ^ (53 - l) - 2 ^ 52"
  define sg where "sg = (if i < 0 then 2 ^ 63 else 0 :: int)"
  have l: "l \<le> 53" using bit_length_le [of ?n 53] assms by (simp add: l_def)
  have b: "2 ^ l \<le> 2 * ?n" "?n < 2 ^ l" using bit_length_bounds [of ?n] assms by (auto simp: l_def)
  have p: "(2 :: int) ^ l * 2 ^ (53 - l) = 2 ^ 53" using l by (simp flip: power_add)
  have "2 ^ l * 2 ^ (53 - l) \<le> (2 * ?n) * (2 :: int) ^ (53 - l)" using b(1) by (intro mult_right_mono) auto
  then have lo: "0 \<le> ?M" unfolding p by simp
  have "?n * (2 :: int) ^ (53 - l) < 2 ^ l * 2 ^ (53 - l)" using b(2) by (intro mult_strict_right_mono) auto
  then have hi: "?M < 2 ^ 52" unfolding p by simp
  have e: "1 \<le> int l" using b assms(1) by (cases l) auto
  have w: "double_of_int i = word_of_int (sg + (int l + 1022) * 2 ^ 52 + ?M)"
    using assms l by (simp add: double_of_int_def Let_def l_def [symmetric] sg_def algebra_simps)
  have r: "0 \<le> sg + (int l + 1022) * 2 ^ 52 + ?M" "sg + (int l + 1022) * 2 ^ 52 + ?M < 2 ^ 64"
    using lo hi l by (auto simp: sg_def)
  have u: "uint (double_of_int i) = sg + (int l + 1022) * 2 ^ 52 + ?M"
    unfolding w by (rule uint_word_of_int_eq [THEN trans]) (use r in \<open>simp add: take_bit_int_eq_self\<close>)
  have d: "uint (double_of_int i) div 2 ^ 52 = sg div 2 ^ 52 + int l + 1022"
    "uint (double_of_int i) mod 2 ^ 52 = ?M"
  proof -
    have "uint (double_of_int i) = (sg div 2 ^ 52 + int l + 1022) * 2 ^ 52 + ?M"
      unfolding u by (simp add: sg_def algebra_simps)
    with lo hi show "uint (double_of_int i) div 2 ^ 52 = sg div 2 ^ 52 + int l + 1022"
      "uint (double_of_int i) mod 2 ^ 52 = ?M"
      by (metis div_mult_self3 div_pos_pos_trivial add.commute add.right_neutral zero_neq_numeral power_eq_0_iff,
          metis mod_mult_self3 mod_pos_pos_trivial)
  qed
  show "dbl_mantissa (double_of_int i) = ?M" unfolding dbl_fields d(2) ..
  show "dbl_exponent (double_of_int i) = int l + 1022"
  proof (cases "i < 0")
    case True
    then have "(sg div 2 ^ 52 + int l + 1022) mod 2 ^ 11 = (2 ^ 11 + (int l + 1022)) mod 2 ^ 11"
      by (simp add: sg_def)
    also have "\<dots> = int l + 1022" using l unfolding mod_add_self1 by simp
    finally show ?thesis unfolding dbl_fields d(1) .
  next
    case False
    then show ?thesis unfolding dbl_fields d(1) using l by (simp add: sg_def)
  qed
  show "dbl_negative (double_of_int i) \<longleftrightarrow> i < 0"
    unfolding dbl_fields u using lo hi l by (auto simp: sg_def)
qed

lemma double_of_int_zero: "double_of_int 0 = 0"
  by (simp add: double_of_int_def)

lemma bit_length_pos: "0 < n \<Longrightarrow> 0 < bit_length n"
  by (simp add: bit_length.simps [of n])

lemma double_trunc_of_int:
  assumes "\<bar>i\<bar> < 2 ^ 53"
  shows "double_trunc (double_of_int i) = Some i"
proof (cases "i = 0")
  case True
  have "dbl_exponent 0 = 0" "\<not> dbl_negative 0" by (simp_all add: dbl_fields)
  then show ?thesis by (simp add: True double_of_int_zero double_trunc_def)
next
  case False
  define l where "l = bit_length \<bar>i\<bar>"
  note f = double_of_int_fields [OF False assms, folded l_def]
  have l: "l \<le> 53" "0 < l"
    using bit_length_le [of "\<bar>i\<bar>" 53] bit_length_pos [of "\<bar>i\<bar>"] assms False by (auto simp: l_def)
  have n: "nat (1075 - (int l + 1022)) = 53 - l" using l by simp
  have q: "(\<bar>i\<bar> * 2 ^ (53 - l) - 2 ^ 52 + 2 ^ 52) div 2 ^ (53 - l) = \<bar>i\<bar>" by simp
  have e: "int l + 1022 < 1023 \<longleftrightarrow> False" "int l + 1022 \<le> 1075 \<longleftrightarrow> True" "int l + 1022 = 0x7FF \<longleftrightarrow> False"
    using l by auto
  show ?thesis
    unfolding double_trunc_def f Let_def n q e if_False if_True using assms by (cases "i < 0") simp_all
qed

lemma double_of_int_not_nan:
  assumes "\<bar>i\<bar> < 2 ^ 53"
  shows "\<not> dbl_is_nan (double_of_int i)"
proof (cases "i = 0")
  case True
  then show ?thesis by (simp add: double_of_int_zero dbl_is_nan_def dbl_fields)
next
  case False
  have "bit_length \<bar>i\<bar> \<le> 53" using bit_length_le [of "\<bar>i\<bar>" 53] assms False by auto
  then show ?thesis using double_of_int_fields(1) [OF False assms] by (simp add: dbl_is_nan_def)
qed

lemma uint_fields: "uint (w :: u64) = (if dbl_negative w then 2 ^ 63 else 0) + dbl_exponent w * 2 ^ 52 + dbl_mantissa w"
proof -
  define q r where "q = uint w div 2 ^ 52" and "r = uint w mod 2 ^ 52"
  have w: "uint w = q * 2 ^ 52 + r" and r: "0 \<le> r" "r < 2 ^ 52" by (simp_all add: q_def r_def)
  then have q: "0 \<le> q" "q < 4096" "2 ^ 63 \<le> uint w \<longleftrightarrow> 2048 \<le> q"
    using uint_64_less [of w] uint_ge_0 [of w] by (simp_all add: q_def, linarith+)
  have "q mod 2048 = (if 2048 \<le> q then q - 2048 else q)"
  proof (cases "2048 \<le> q")
    case True
    then have "q mod 2048 = (q - 2048) mod 2048" by (metis minus_mod_self2)
    also have "\<dots> = q - 2048" using True q by (intro mod_pos_pos_trivial) auto
    finally show ?thesis using True by simp
  qed (use q in simp)
  with w q(3) show ?thesis unfolding dbl_fields q_def [symmetric] r_def [symmetric] by (simp split: if_splits)
qed

lemma dbl_key_fields: "dbl_key w = (if dbl_negative w then -1 else 1) * (dbl_exponent w * 2 ^ 52 + dbl_mantissa w)"
  unfolding dbl_key_def uint_fields [of w] by simp

lemma dbl_key_of_int:
  assumes "i \<noteq> 0" "\<bar>i\<bar> < 2 ^ 53"
  defines "l \<equiv> bit_length \<bar>i\<bar>"
  shows "dbl_key (double_of_int i) = sgn i * ((int l + 1021) * 2 ^ 52 + \<bar>i\<bar> * 2 ^ (53 - l))"
  unfolding dbl_key_fields double_of_int_fields [OF assms(1,2)] l_def using assms(1)
  by (auto simp: sgn_if algebra_simps)

lemma dbl_key_mono:
  assumes "0 \<le> i" "i < j" "j < 2 ^ 53"
  shows "dbl_key (double_of_int i) < dbl_key (double_of_int j)"
proof -
  let ?K = "\<lambda>i. (int (bit_length i) + 1021) * 2 ^ 52 + i * 2 ^ (53 - bit_length i)"
  have b: "2 ^ 52 \<le> i * 2 ^ (53 - bit_length i) \<and> i * 2 ^ (53 - bit_length i) < (2 :: int) ^ 53"
    if "0 < i" "i < 2 ^ 53" for i
  proof -
    let ?l = "bit_length i"
    have l: "?l \<le> 53" using bit_length_le that by blast
    have p: "(2 :: int) ^ ?l * 2 ^ (53 - ?l) = 2 ^ 53" using l by (simp flip: power_add)
    have "2 ^ ?l * 2 ^ (53 - ?l) \<le> (2 * i) * (2 :: int) ^ (53 - ?l)"
      using bit_length_bounds [OF that(1)] by (intro mult_right_mono) auto
    moreover have "i * (2 :: int) ^ (53 - ?l) < 2 ^ ?l * 2 ^ (53 - ?l)"
      using bit_length_bounds [OF that(1)] by (intro mult_strict_right_mono) auto
    ultimately show ?thesis unfolding p by simp
  qed
  have j: "dbl_key (double_of_int j) = ?K j" using dbl_key_of_int [of j] assms by simp
  show ?thesis
  proof (cases "i = 0")
    case True
    have "dbl_key (double_of_int i) = 0" by (simp add: True double_of_int_zero dbl_key_def dbl_negative_eq)
    moreover have "0 < ?K j" using b [of j] assms by simp
    ultimately show ?thesis using j by simp
  next
    case False
    have i: "dbl_key (double_of_int i) = ?K i" using dbl_key_of_int [of i] assms False by simp
    have le: "bit_length i \<le> bit_length j"
      using bit_length_le [of i "bit_length j"] bit_length_bounds [of j] assms False by simp
    show ?thesis
    proof (cases "bit_length i = bit_length j")
      case True
      have "i * (2 :: int) ^ (53 - bit_length j) < j * 2 ^ (53 - bit_length j)"
        using assms by (intro mult_strict_right_mono) auto
      then show ?thesis unfolding i j True by simp
    next
      case ne: False
      then have "int (bit_length i) + 1 \<le> int (bit_length j)" using le by simp
      then have "(int (bit_length i) + 1) * 2 ^ 52 \<le> int (bit_length j) * (2 :: int) ^ 52"
        by (intro mult_right_mono) auto
      then show ?thesis unfolding i j using b [of i] b [of j] assms False by (simp add: algebra_simps)
    qed
  qed
qed

text \<open>
  Integers below \<open>2 ^ 53\<close> survive being stored as a number: truncation gives the integer back, and the
  comparison of the numbers is the comparison of the integers.
\<close>

theorem double_of_int_exact:
  assumes "0 \<le> i" "i < 2 ^ 53" "0 \<le> j" "j < 2 ^ 53"
  shows "double_trunc (double_of_int i) = Some i
    \<and> (dbl_le (double_of_int i) (double_of_int j) \<longleftrightarrow> i \<le> j)
    \<and> (dbl_eq (double_of_int i) (double_of_int j) \<longleftrightarrow> i = j)"
proof -
  have "dbl_key (double_of_int i) \<le> dbl_key (double_of_int j) \<longleftrightarrow> i \<le> j"
    "dbl_key (double_of_int i) = dbl_key (double_of_int j) \<longleftrightarrow> i = j"
    using dbl_key_mono [of i j] dbl_key_mono [of j i] assms by (cases i j rule: linorder_cases; simp)+
  then show ?thesis
    using double_trunc_of_int [of i] double_of_int_not_nan [of i] double_of_int_not_nan [of j] assms
    by (simp add: dbl_le_def dbl_eq_def)
qed

theorem double_of_int_exact_witness:
  "double_trunc (double_of_int 9007199254740991) = Some 9007199254740991
    \<and> dbl_le (double_of_int 9007199254740991) (double_of_int 5) = False
    \<and> dbl_eq (double_of_int 9007199254740991) (double_of_int 5) = False"
  using double_of_int_exact [of 9007199254740991 5] by simp


end
