(* ===== verification/PropTable.thy ===== *)
theory PropTable
  imports RefCount Numbers
begin

text \<open>
  \<open>OS::Core::Table\<close>, the property table of every object: a hash table over values whose nodes
  (\<open>Property\<close>) are also threaded on a doubly linked list in insertion order, with a list of iterators
  that have to survive removals.  The state holds the table, the fields of the property and iterator
  nodes as maps from addresses, and the core for the reference counts.  \<open>None\<close> is a failed assertion or
  undefined behaviour.
\<close>

section \<open>Keys\<close>

definition value_EType :: "core \<Rightarrow> os_value \<Rightarrow> OS_EValueType" where
  "value_EType c v =
     (case v of VNull \<Rightarrow> OS_VALUE_TYPE_NULL | VBool _ \<Rightarrow> OS_VALUE_TYPE_BOOL
      | VNumber _ \<Rightarrow> OS_VALUE_TYPE_NUMBER | VGC a \<Rightarrow> value_type c a)"

definition getValueHash :: "core \<Rightarrow> os_value \<Rightarrow> u32" where
  "getValueHash c index =
     (case index of
        VNull \<Rightarrow> 0
      | VBool b \<Rightarrow> (if b then 1 else 0)
      | VNumber d \<Rightarrow> number_hash d
      | VGC a \<Rightarrow> (if value_type c a = OS_VALUE_TYPE_STRING then str_hash (gc_string_of c a)
                  else OS_PTR_HASH (of_nat a)))"

definition OS_EQUAL_EXACTLY :: "core \<Rightarrow> os_value \<Rightarrow> os_value \<Rightarrow> bool" where
  "OS_EQUAL_EXACTLY c left right \<longleftrightarrow>
     value_EType c left = value_EType c right
     \<and> (case (left, right) of
          (VNumber x, VNumber y) \<Rightarrow> dbl_eq x y
        | (VBool x, VBool y) \<Rightarrow> x = y
        | (VNull, VNull) \<Rightarrow> True
        | (VGC a, VGC b) \<Rightarrow> a = b
        | _ \<Rightarrow> False)"

section \<open>State\<close>

record tstate =
  t_tab :: chain_table
  t_next_index :: int
  t_first :: link
  t_last :: link
  t_iterators :: link
  p_index :: "addr \<Rightarrow> os_value"
  p_value :: "addr \<Rightarrow> os_value"
  p_hash_next :: links
  p_prev :: links
  p_next :: links
  it_attached :: "addr \<Rightarrow> bool"
  it_prop :: links
  it_next :: links
  it_ascending :: "addr \<Rightarrow> bool"
  t_core :: core

definition prop_key :: "tstate \<Rightarrow> addr \<Rightarrow> u32" where
  "prop_key s a = getValueHash (t_core s) (p_index s a)"

section \<open>Lookup and insertion\<close>

definition table_get :: "os_value \<Rightarrow> tstate \<Rightarrow> link option" where
  "table_get index s =
     (if heads (t_tab s) \<noteq> [] then
        Option.bind (find_in_slot (\<lambda>cur. OS_EQUAL_EXACTLY (t_core s) index (p_index s cur)) (t_tab s)
                       (p_hash_next s) (hash_slot (getValueHash (t_core s) index) (head_mask (t_tab s))))
          (\<lambda>found. Some (map_option snd found))
      else Some None)"

text \<open>The rebuild walks the ordered list, \<open>for(cur = table->first; cur; cur = cur->next)\<close>.\<close>

partial_function (option) rehash_list ::
  "(addr \<Rightarrow> nat) \<Rightarrow> links \<Rightarrow> link \<Rightarrow> links \<Rightarrow> link list \<Rightarrow> (links \<times> link list) option" where
  "rehash_list slot order cur nxt hds =
     (case cur of None \<Rightarrow> Some (nxt, hds)
      | Some a \<Rightarrow> rehash_list slot order (order a) (nxt(a := hds ! slot a)) (hds[slot a := Some a]))"

definition grow_prop_table :: "tstate \<Rightarrow> tstate option" where
  "grow_prop_table s =
     (let t = t_tab s in
      if count t \<ge> head_mask t then
        (let new_size = (if heads t \<noteq> [] then (head_mask t + 1) * 2 else 4)
         in Option.bind (rehash_list (slot_of (prop_key s) (new_size - 1)) (p_next s) (t_first s)
                           (p_hash_next s) (replicate new_size None))
              (\<lambda>(nxt, hds). Some (s\<lparr>t_tab := t\<lparr>heads := hds, head_mask := new_size - 1\<rparr>, p_hash_next := nxt\<rparr>)))
      else Some s)"

text \<open>Appending to the ordered list, and the next free integer index.\<close>

definition link_last :: "addr \<Rightarrow> tstate \<Rightarrow> tstate option" where
  "link_last a s =
     (case t_first s of
        None \<Rightarrow> Some (s\<lparr>t_first := Some a, t_last := Some a\<rparr>)
      | Some _ \<Rightarrow>
          (case t_last s of
             None \<Rightarrow> None
           | Some l \<Rightarrow> Some (s\<lparr>p_next := (p_next s)(l := Some a), p_prev := (p_prev s)(a := Some l),
                               t_last := Some a\<rparr>)))"

definition next_index_after :: "os_value \<Rightarrow> int \<Rightarrow> int option" where
  "next_index_after index next =
     (case index of
        VNumber d \<Rightarrow> (if dbl_le (double_of_int next) d
                      then (case double_trunc d of None \<Rightarrow> None | Some i \<Rightarrow> Some (i + 1))
                      else Some next)
      | _ \<Rightarrow> Some next)"

definition addTableProperty :: "addr \<Rightarrow> os_value \<Rightarrow> os_value \<Rightarrow> tstate \<Rightarrow> tstate option" where
  "addTableProperty prop index value s =
     Option.bind (table_get index s) (\<lambda>old. os_assert (old = None)
       (let s = s\<lparr>p_index := (p_index s)(prop := index), p_value := (p_value s)(prop := value),
                  p_hash_next := (p_hash_next s)(prop := None), p_prev := (p_prev s)(prop := None),
                  p_next := (p_next s)(prop := None)\<rparr>
        in Option.bind (retainValue index (t_core s)) (\<lambda>c.
           Option.bind (retainValue value c) (\<lambda>c.
           Option.bind (grow_prop_table (s\<lparr>t_core := c\<rparr>)) (\<lambda>s.
           let (t, nxt) = push_node (prop_key s) (t_tab s) (p_hash_next s) prop
           in Option.bind (link_last prop (s\<lparr>t_tab := t, p_hash_next := nxt\<rparr>)) (\<lambda>s.
              Option.bind (next_index_after index (t_next_index s)) (\<lambda>n.
                Some (s\<lparr>t_next_index := n\<rparr>))))))))"

definition setTableValue :: "addr \<Rightarrow> os_value \<Rightarrow> os_value \<Rightarrow> tstate \<Rightarrow> (addr \<times> tstate) option" where
  "setTableValue new index value s =
     Option.bind (table_get index s) (\<lambda>found.
       case found of
         Some prop \<Rightarrow> Option.bind (setValue (p_value s prop) value (t_core s)) (\<lambda>(v, c).
           Some (prop, s\<lparr>p_value := (p_value s)(prop := v), t_core := c\<rparr>))
       | None \<Rightarrow> Option.bind (addTableProperty new index value s) (\<lambda>s. Some (new, s)))"

section \<open>Removal\<close>

definition unlink_order :: "addr \<Rightarrow> tstate \<Rightarrow> tstate option" where
  "unlink_order cur s =
     Option.bind
       (if t_first s = Some cur then
          (let s = s\<lparr>t_first := p_next s cur\<rparr>
           in Some (case t_first s of None \<Rightarrow> s | Some f \<Rightarrow> s\<lparr>p_prev := (p_prev s)(f := None)\<rparr>))
        else (case p_prev s cur of None \<Rightarrow> None
              | Some p \<Rightarrow> Some (s\<lparr>p_next := (p_next s)(p := p_next s cur)\<rparr>)))
       (\<lambda>s. if t_last s = Some cur then
              (let s = s\<lparr>t_last := p_prev s cur\<rparr>
               in Some (case t_last s of None \<Rightarrow> s | Some l \<Rightarrow> s\<lparr>p_next := (p_next s)(l := None)\<rparr>))
            else (case p_next s cur of None \<Rightarrow> None
                  | Some n \<Rightarrow> Some (s\<lparr>p_prev := (p_prev s)(n := p_prev s cur)\<rparr>)))"

partial_function (option) move_iterators ::
  "addr \<Rightarrow> tstate \<Rightarrow> link \<Rightarrow> links \<Rightarrow> links option" where
  "move_iterators cur s iter props =
     (case iter of None \<Rightarrow> Some props
      | Some i \<Rightarrow> move_iterators cur s (it_next s i)
                    (if props i = Some cur
                     then props(i := if it_ascending s i then p_next s cur else p_prev s cur) else props))"

definition deleteTableProperty :: "os_value \<Rightarrow> tstate \<Rightarrow> (bool \<times> tstate) option" where
  "deleteTableProperty index s =
     (let slot = hash_slot (getValueHash (t_core s) index) (head_mask (t_tab s))
      in Option.bind (find_in_slot (\<lambda>cur. OS_EQUAL_EXACTLY (t_core s) index (p_index s cur)) (t_tab s)
                        (p_hash_next s) slot)
        (\<lambda>found. case found of
           None \<Rightarrow> Some (False, s)
         | Some (chain_prev, cur) \<Rightarrow>
             Option.bind (unlink_order cur s) (\<lambda>s.
             let (hds, nxt) = unlink_node (heads (t_tab s)) (p_hash_next s) slot chain_prev cur;
                 s = s\<lparr>t_tab := (t_tab s)\<lparr>heads := hds\<rparr>, p_hash_next := nxt\<rparr>
             in Option.bind (move_iterators cur s (t_iterators s) (it_prop s)) (\<lambda>props.
                let s = s\<lparr>it_prop := props, p_next := (p_next s)(cur := None), p_prev := (p_prev s)(cur := None),
                          p_hash_next := (p_hash_next s)(cur := None)\<rparr>
                in Option.bind (releaseValue (p_index s cur) (t_core s)) (\<lambda>c.
                   Option.bind (releaseValue (p_value s cur) c) (\<lambda>c.
                     Some (True, s\<lparr>t_core := c, t_tab := (t_tab s)\<lparr>count := count (t_tab s) - 1\<rparr>\<rparr>)))))))"

section \<open>Iterators\<close>

definition containsIterator :: "addr \<Rightarrow> tstate \<Rightarrow> bool option" where
  "containsIterator iter s =
     Option.bind (walk_chain (\<lambda>i. i = iter) (it_next s) (t_iterators s) None) (\<lambda>found.
       case found of
         Some _ \<Rightarrow> os_assert (it_attached s iter) (Some True)
       | None \<Rightarrow> os_assert (\<not> it_attached s iter) (Some False))"

definition addIterator :: "addr \<Rightarrow> tstate \<Rightarrow> tstate option" where
  "addIterator iter s =
     Option.bind (containsIterator iter s) (\<lambda>present. os_assert (\<not> present)
       (os_assert (it_prop s iter = None \<and> \<not> it_attached s iter)
         (Some (s\<lparr>it_attached := (it_attached s)(iter := True),
                  it_prop := (it_prop s)(iter := if it_ascending s iter then t_first s else t_last s),
                  it_next := (it_next s)(iter := t_iterators s), t_iterators := Some iter\<rparr>))))"

definition removeIterator :: "addr \<Rightarrow> tstate \<Rightarrow> tstate option" where
  "removeIterator iter s =
     Option.bind (containsIterator iter s) (\<lambda>present. os_assert present
       (Option.bind (walk_chain (\<lambda>i. i = iter) (it_next s) (t_iterators s) None) (\<lambda>found.
         case found of
           None \<Rightarrow> None
         | Some (prev, cur) \<Rightarrow>
             (let s = (case prev of None \<Rightarrow> s\<lparr>t_iterators := it_next s cur\<rparr>
                       | Some p \<Rightarrow> s\<lparr>it_next := (it_next s)(p := it_next s cur)\<rparr>)
              in Some (s\<lparr>it_attached := (it_attached s)(cur := False), it_next := (it_next s)(cur := None),
                         it_prop := (it_prop s)(cur := None)\<rparr>)))))"

text \<open>\<open>clearTable\<close>: the properties are released from the last to the first, then the iterators detached.\<close>

partial_function (option) clear_props :: "link \<Rightarrow> tstate \<Rightarrow> tstate option" where
  "clear_props prop s =
     (case prop of None \<Rightarrow> Some s
      | Some a \<Rightarrow>
          Option.bind (releaseValue (p_index s a) (t_core s)) (\<lambda>c.
          Option.bind (releaseValue (p_value s a) c) (\<lambda>c.
            clear_props (p_prev s a)
              (s\<lparr>p_hash_next := (p_hash_next s)(a := None), p_prev := (p_prev s)(a := None),
                 p_next := (p_next s)(a := None), t_core := c\<rparr>))))"

partial_function (option) remove_iterators :: "link \<Rightarrow> tstate \<Rightarrow> tstate option" where
  "remove_iterators iter s =
     (case iter of None \<Rightarrow> Some s
      | Some i \<Rightarrow> Option.bind (removeIterator i s) (\<lambda>s. remove_iterators (t_iterators s) s))"

definition clearTable :: "tstate \<Rightarrow> tstate option" where
  "clearTable s =
     Option.bind (clear_props (t_last s) (s\<lparr>t_tab := (t_tab s)\<lparr>count := 0\<rparr>, t_first := None, t_last := None\<rparr>)) (\<lambda>s.
     Option.bind (remove_iterators (t_iterators s) s) (\<lambda>s.
       Some (s\<lparr>t_tab := empty_table, t_next_index := 0\<rparr>)))"

section \<open>Keys and hashes\<close>

text \<open>A key other than negative zero, whose hash differs from that of the number it is equal to.\<close>

definition plain_key :: "os_value \<Rightarrow> bool" where
  "plain_key v \<longleftrightarrow> v \<noteq> VNumber 0x8000000000000000"

lemma equal_hash:
  assumes "OS_EQUAL_EXACTLY c x y" "plain_key x" "plain_key y"
  shows "getValueHash c x = getValueHash c y"
  using assms number_hash_eq dbl_eq_bits
  by (fastforce simp: OS_EQUAL_EXACTLY_def getValueHash_def plain_key_def dbl_key_zero split: os_value.splits)

lemma equal_sym: "OS_EQUAL_EXACTLY c x y \<longleftrightarrow> OS_EQUAL_EXACTLY c y x"
  by (auto simp: OS_EQUAL_EXACTLY_def dbl_eq_sym split: os_value.splits)

lemma equal_trans: "OS_EQUAL_EXACTLY c x y \<Longrightarrow> OS_EQUAL_EXACTLY c y z \<Longrightarrow> OS_EQUAL_EXACTLY c x z"
  by (auto simp: OS_EQUAL_EXACTLY_def split: os_value.splits intro: dbl_eq_trans)

lemma same_objects_value:
  assumes "same_objects c c'"
  shows "getValueHash c' = getValueHash c" "OS_EQUAL_EXACTLY c' = OS_EQUAL_EXACTLY c"
  using assms by (auto simp: same_objects_def getValueHash_def OS_EQUAL_EXACTLY_def value_EType_def
      fun_eq_iff split: os_value.splits)

section \<open>The ordered list\<close>

definition dlist :: "tstate \<Rightarrow> addr list \<Rightarrow> bool" where
  "dlist s ps \<longleftrightarrow> chain (p_next s) (t_first s) ps \<and> chain (p_prev s) (t_last s) (rev ps)"

lemma chain_snoc_upd:
  assumes "chain nxt p (xs @ [l])" "a \<notin> set (xs @ [l])" "nxt a = None"
  shows "chain (nxt(l := Some a)) p (xs @ [l, a])"
  using assms
proof (induction xs arbitrary: p)
  case Nil
  then show ?case by auto
next
  case (Cons x xs)
  then have "x \<noteq> l" using chain_distinct [OF Cons.prems(1)] by auto
  with Cons show ?case by auto
qed

lemma chain_first: "chain nxt p xs \<Longrightarrow> p = (case xs of [] \<Rightarrow> None | x # _ \<Rightarrow> Some x)"
  by (cases xs) auto

lemma chain_append_mid:
  "chain nxt p (us @ a # vs) \<Longrightarrow> nxt a = (case vs of [] \<Rightarrow> None | v # _ \<Rightarrow> Some v)"
  using chain_suffix [of nxt p us a vs] chain_first by blast

lemma dlist_first_last:
  assumes "dlist s ps"
  shows "t_first s = (case ps of [] \<Rightarrow> None | x # _ \<Rightarrow> Some x)"
    "t_last s = (if ps = [] then None else Some (last ps))"
proof -
  show "t_first s = (case ps of [] \<Rightarrow> None | x # _ \<Rightarrow> Some x)"
    using assms chain_first unfolding dlist_def by blast
  show "t_last s = (if ps = [] then None else Some (last ps))"
    using assms chain_first [of "p_prev s" "t_last s" "rev ps"]
    by (cases ps rule: rev_cases) (auto simp: dlist_def)
qed

lemma dlist_neighbours:
  assumes "dlist s (us @ a # vs)"
  shows "p_next s a = (case vs of [] \<Rightarrow> None | v # _ \<Rightarrow> Some v)"
    "p_prev s a = (if us = [] then None else Some (last us))"
proof -
  show "p_next s a = (case vs of [] \<Rightarrow> None | v # _ \<Rightarrow> Some v)"
    using assms chain_append_mid unfolding dlist_def by blast
  show "p_prev s a = (if us = [] then None else Some (last us))"
    using assms chain_append_mid [of "p_prev s" "t_last s" "rev vs" a "rev us"]
    by (cases us rule: rev_cases) (auto simp: dlist_def)
qed

lemma link_last_dlist:
  assumes "dlist s ps" "a \<notin> set ps" "p_next s a = None" "p_prev s a = None"
  shows "\<exists>s'. link_last a s = Some s' \<and> dlist s' (ps @ [a])
    \<and> s' = s\<lparr>t_first := t_first s', t_last := t_last s', p_next := p_next s', p_prev := p_prev s'\<rparr>"
proof (cases ps rule: rev_cases)
  case Nil
  with assms show ?thesis by (auto simp: link_last_def dlist_def)
next
  case (snoc ws l)
  obtain f where f: "t_first s = Some f" using dlist_first_last(1) [OF assms(1)] snoc by (cases ws) auto
  have l: "t_last s = Some l" using dlist_first_last(2) [OF assms(1)] snoc by simp
  let ?s = "s\<lparr>p_next := (p_next s)(l := Some a), p_prev := (p_prev s)(a := Some l), t_last := Some a\<rparr>"
  have "chain ((p_next s)(l := Some a)) (t_first s) (ws @ [l, a])"
    using chain_snoc_upd [of "p_next s" "t_first s" ws l a] assms snoc by (simp add: dlist_def)
  moreover have "chain ((p_prev s)(a := Some l)) (Some l) (rev ps)"
    using assms(1,2) l snoc by (simp add: dlist_def)
  ultimately have "dlist ?s (ps @ [a])" using snoc by (simp add: dlist_def)
  then show ?thesis using f l by (simp add: link_last_def)
qed

text \<open>The same list without \<open>a\<close>: the link fields after an unlinking.\<close>

lemma chain_remove:
  assumes "chain nxt p (us @ a # vs)"
  shows "us = [] \<Longrightarrow> chain nxt (nxt a) vs"
    "us \<noteq> [] \<Longrightarrow> chain (nxt(last us := nxt a)) p (us @ vs)"
proof -
  show "us = [] \<Longrightarrow> chain nxt (nxt a) vs" using assms by simp
  show "us \<noteq> [] \<Longrightarrow> chain (nxt(last us := nxt a)) p (us @ vs)"
    using assms by (cases us rule: rev_cases) (auto dest: chain_unlink)
qed

lemma unlink_order_dlist:
  assumes dl: "dlist s (us @ a # vs)"
  shows "\<exists>s'. unlink_order a s = Some s' \<and> dlist s' (us @ vs)
    \<and> s' = s\<lparr>t_first := t_first s', t_last := t_last s', p_next := p_next s', p_prev := p_prev s'\<rparr>
    \<and> p_next s' a = p_next s a \<and> p_prev s' a = p_prev s a"
proof -
  have nx: "chain (p_next s) (t_first s) (us @ a # vs)" and pv: "chain (p_prev s) (t_last s) (rev vs @ a # rev us)"
    using dl by (simp_all add: dlist_def)
  note nb = dlist_neighbours [OF dl] and fl = dlist_first_last [OF dl]
  note rn = chain_remove [OF nx] and rp = chain_remove [OF pv]
  have dist: "distinct (us @ a # vs)" using nx by (rule chain_distinct)
  show ?thesis
  proof (cases us rule: rev_cases)
    case Nil
    show ?thesis
    proof (cases vs)
      case Nil
      with \<open>us = []\<close> show ?thesis using nb fl by (simp add: unlink_order_def dlist_def)
    next
      case (Cons v vs')
      have "a \<noteq> v" using dist Cons by auto
      have "last (v # vs') \<noteq> a" using dist Cons Nil by auto
      then show ?thesis
        using nb fl rn(1) rp(2) Nil Cons \<open>a \<noteq> v\<close> by (simp add: unlink_order_def dlist_def)
    qed
  next
    case (snoc ws w)
    have fne: "t_first s \<noteq> Some a" using fl(1) dist snoc by (cases ws) auto
    have "w \<noteq> a" using dist snoc by auto
    show ?thesis
    proof (cases vs)
      case Nil
      show ?thesis
        using nb fl rn(2) rp(1) Nil snoc fne \<open>w \<noteq> a\<close> by (simp add: unlink_order_def dlist_def)
    next
      case (Cons v vs')
      have "a \<noteq> v" using dist Cons by auto
      have lne: "t_last s \<noteq> Some a" using fl(2) dist Cons by auto
      show ?thesis
        using nb fl rn(2) rp(2) snoc Cons fne lne \<open>w \<noteq> a\<close> \<open>a \<noteq> v\<close> by (simp add: unlink_order_def dlist_def)
    qed
  qed
qed

lemma move_iterators_spec:
  assumes "chain (it_next s) iter its"
  shows "move_iterators cur s iter props = Some (\<lambda>i. if i \<in> set its \<and> props i = Some cur
      then (if it_ascending s i then p_next s cur else p_prev s cur) else props i)"
  using assms
proof (induction its arbitrary: iter props)
  case Nil
  then show ?case by (simp add: move_iterators.simps)
next
  case (Cons i its)
  have i: "iter = Some i" and ch: "chain (it_next s) (it_next s i) its" using Cons.prems by auto
  have "i \<notin> set its" using chain_distinct [OF Cons.prems] by simp
  then show ?case
    by (auto simp: i move_iterators.simps [of cur s "Some i"] Cons.IH [OF ch] fun_eq_iff)
qed

section \<open>The invariant\<close>

definition props_refs :: "tstate \<Rightarrow> addr list \<Rightarrow> os_value list" where
  "props_refs s ps = concat (map (\<lambda>a. [p_index s a, p_value s a]) ps)"

text \<open>
  \<open>prop_inv s ps rest\<close>: the properties of the table, in order, are \<open>ps\<close>; the order list and the hash
  chains hold the same nodes; the keys are pairwise different; the reference counts are exact for the
  keys and values of the table together with the references \<open>rest\<close> from elsewhere; and every iterator
  stands on a property of the table or at the end.
\<close>

definition prop_inv :: "tstate \<Rightarrow> addr list \<Rightarrow> os_value list \<Rightarrow> bool" where
  "prop_inv s ps rest \<longleftrightarrow>
     dlist s ps
     \<and> (\<exists>css. table_rep (prop_key s) (t_tab s) (p_hash_next s) css \<and> set (concat css) = set ps)
     \<and> counts_ok (t_core s) (props_refs s ps @ rest) \<and> \<not> gc_fix_in_progress (t_core s)
     \<and> (\<forall>a \<in> set ps. plain_key (p_index s a))
     \<and> (\<forall>a \<in> set ps. \<forall>b \<in> set ps. OS_EQUAL_EXACTLY (t_core s) (p_index s a) (p_index s b) \<longrightarrow> a = b)
     \<and> (\<exists>its. chain (it_next s) (t_iterators s) its \<and> (\<forall>i. it_attached s i \<longleftrightarrow> i \<in> set its)
          \<and> (\<forall>i \<in> set its. \<forall>p. it_prop s i = Some p \<longrightarrow> p \<in> set ps))"

lemma prop_inv_distinct: "prop_inv s ps rest \<Longrightarrow> distinct ps"
  unfolding prop_inv_def dlist_def by (blast dest: chain_distinct)

lemma prop_inv_parts:
  assumes "prop_inv s ps rest"
  obtains css its where "table_rep (prop_key s) (t_tab s) (p_hash_next s) css" "set (concat css) = set ps"
    "count (t_tab s) = length ps" "chain (it_next s) (t_iterators s) its"
    "\<forall>i \<in> set its. \<forall>p. it_prop s i = Some p \<longrightarrow> p \<in> set ps" "\<forall>i. it_attached s i \<longleftrightarrow> i \<in> set its"
proof -
  obtain css its where 1: "table_rep (prop_key s) (t_tab s) (p_hash_next s) css" "set (concat css) = set ps"
      "chain (it_next s) (t_iterators s) its" "\<forall>i \<in> set its. \<forall>p. it_prop s i = Some p \<longrightarrow> p \<in> set ps"
      "\<forall>i. it_attached s i \<longleftrightarrow> i \<in> set its"
    using assms unfolding prop_inv_def by blast
  have "length (concat css) = length ps"
    using 1(2) chains_rep_distinct [OF table_rep_chains [OF 1(1)]] prop_inv_distinct [OF assms]
    by (metis distinct_card)
  then have "count (t_tab s) = length ps" using 1(1) by (simp add: table_rep_def)
  with 1 that show ?thesis by blast
qed

lemma prop_find:
  assumes inv: "prop_inv s ps rest" and rep: "table_rep (prop_key s) (t_tab s) (p_hash_next s) css"
    "set (concat css) = set ps" and hd: "heads (t_tab s) \<noteq> []" and pk: "plain_key index"
  defines "P \<equiv> \<lambda>a. OS_EQUAL_EXACTLY (t_core s) index (p_index s a)"
    and "slot \<equiv> hash_slot (getValueHash (t_core s) index) (head_mask (t_tab s))"
  shows "slot < length (heads (t_tab s))"
    "(find_in_slot P (t_tab s) (p_hash_next s) slot = Some None \<and> (\<forall>a \<in> set ps. \<not> P a))
     \<or> (\<exists>us a vs. css ! slot = us @ a # vs \<and> a \<in> set ps \<and> P a
        \<and> find_in_slot P (t_tab s) (p_hash_next s) slot = Some (Some (if us = [] then None else Some (last us), a)))"
proof -
  have "length (heads (t_tab s)) = head_mask (t_tab s) + 1" using rep(1) hd by (simp add: table_rep_def)
  then show i: "slot < length (heads (t_tab s))"
    using slot_of_le [of "\<lambda>_. getValueHash (t_core s) index" "head_mask (t_tab s)"]
    by (simp add: slot_def hash_slot_def slot_of_def)
  have il: "slot < length css" using i table_rep_length [OF rep(1)] by simp
  have sub: "set (css ! slot) \<subseteq> set ps"
    unfolding rep(2) [symmetric] using il by (auto simp: in_concat_nth simp del: set_concat)
  have in_slot: "a \<in> set (css ! slot)" if "a \<in> set ps" "P a" for a
  proof -
    have "getValueHash (t_core s) index = prop_key s a"
      using that inv pk equal_hash by (auto simp: P_def prop_key_def prop_inv_def)
    then have "slot = slot_of (prop_key s) (head_mask (t_tab s)) a" by (simp add: slot_def hash_slot_def slot_of_def)
    then show ?thesis using members_slot(2) [OF rep(1), of a] that(1) unfolding rep(2) by simp
  qed
  from find_in_slot_cases [OF rep(1) i, of P]
  show "(find_in_slot P (t_tab s) (p_hash_next s) slot = Some None \<and> (\<forall>a \<in> set ps. \<not> P a))
     \<or> (\<exists>us a vs. css ! slot = us @ a # vs \<and> a \<in> set ps \<and> P a
        \<and> find_in_slot P (t_tab s) (p_hash_next s) slot = Some (Some (if us = [] then None else Some (last us), a)))"
  proof (elim disjE exE conjE)
    fix us x vs
    assume "css ! slot = us @ x # vs" "P x"
      "find_in_slot P (t_tab s) (p_hash_next s) slot = Some (Some (if us = [] then None else Some (last us), x))"
    then show ?thesis using sub by auto
  qed (use in_slot in blast)
qed

lemma find_unique:
  assumes "a \<in> set ps" "P a" "\<And>b. b \<in> set ps \<Longrightarrow> P b \<Longrightarrow> b = a"
  shows "find P ps = Some a"
proof -
  obtain b where "find P ps = Some b" using assms(1,2) by (metis find_None_iff option.exhaust)
  then show ?thesis using assms(3) by (metis find_Some_iff nth_mem)
qed

lemma prop_inv_unique:
  assumes "prop_inv s ps rest" "a \<in> set ps" "b \<in> set ps"
    "OS_EQUAL_EXACTLY (t_core s) index (p_index s a)" "OS_EQUAL_EXACTLY (t_core s) index (p_index s b)"
  shows "b = a"
  using assms equal_trans equal_sym unfolding prop_inv_def by metis

lemma table_get_find:
  assumes inv: "prop_inv s ps rest" and pk: "plain_key index"
  shows "table_get index s = Some (find (\<lambda>a. OS_EQUAL_EXACTLY (t_core s) index (p_index s a)) ps)"
proof -
  obtain css where rep: "table_rep (prop_key s) (t_tab s) (p_hash_next s) css" "set (concat css) = set ps"
    using inv by (rule prop_inv_parts)
  show ?thesis
  proof (cases "heads (t_tab s) = []")
    case True
    then have "css = []" using table_rep_length [OF rep(1)] by simp
    then have "ps = []" using rep(2) by simp
    with True show ?thesis by (simp add: table_get_def)
  next
    case False
    note f = prop_find(2) [OF inv rep False pk]
    show ?thesis
      using f
    proof (elim disjE exE conjE)
      fix us a vs
      assume a: "a \<in> set ps" "OS_EQUAL_EXACTLY (t_core s) index (p_index s a)"
        "find_in_slot (\<lambda>a. OS_EQUAL_EXACTLY (t_core s) index (p_index s a)) (t_tab s) (p_hash_next s)
          (hash_slot (getValueHash (t_core s) index) (head_mask (t_tab s)))
          = Some (Some (if us = [] then None else Some (last us), a))"
      have "find (\<lambda>a. OS_EQUAL_EXACTLY (t_core s) index (p_index s a)) ps = Some a"
        using a(1,2) prop_inv_unique [OF inv] by (intro find_unique) blast+
      with a(3) False show ?thesis by (simp add: table_get_def)
    next
      assume n: "\<forall>a \<in> set ps. \<not> OS_EQUAL_EXACTLY (t_core s) index (p_index s a)"
        "find_in_slot (\<lambda>a. OS_EQUAL_EXACTLY (t_core s) index (p_index s a)) (t_tab s) (p_hash_next s)
          (hash_slot (getValueHash (t_core s) index) (head_mask (t_tab s))) = Some None"
      then have "find (\<lambda>a. OS_EQUAL_EXACTLY (t_core s) index (p_index s a)) ps = None"
        by (simp add: find_None_iff)
      with n(2) False show ?thesis by (simp add: table_get_def)
    qed
  qed
qed

section \<open>Adding a property\<close>

lemma rehash_list_rep:
  assumes "chain order p xs" "chains_rep slot nxt hds css" "set xs \<inter> set (concat css) = {}"
    and "\<forall>a \<in> set xs. slot a < length hds"
  shows "\<exists>nxt' hds' css'. rehash_list slot order p nxt hds = Some (nxt', hds')
    \<and> chains_rep slot nxt' hds' css' \<and> length hds' = length hds
    \<and> set (concat css') = set xs \<union> set (concat css)
    \<and> length (concat css') = length xs + length (concat css)"
  using assms
proof (induction xs arbitrary: p nxt hds css)
  case Nil
  then show ?case by (auto simp: rehash_list.simps)
next
  case (Cons x xs)
  have p: "p = Some x" and ch: "chain order (order x) xs" using Cons.prems(1) by auto
  have x: "x \<notin> set xs" using chain_distinct [OF Cons.prems(1)] by simp
  have new: "x \<notin> set (concat css)" and slot: "slot x < length hds" using Cons.prems by auto
  note push = chains_rep_push [OF Cons.prems(2) new slot]
  let ?nxt = "nxt(x := hds ! slot x)" and ?hds = "hds[slot x := Some x]"
    and ?css = "css[slot x := x # css ! slot x]"
  have "set xs \<inter> set (concat ?css) = {}"
    unfolding push(2) using Cons.prems(3) x by auto
  moreover have "\<forall>a \<in> set xs. slot a < length ?hds" using Cons.prems(4) by simp
  ultimately obtain nxt' hds' css' where IH: "rehash_list slot order (order x) ?nxt ?hds = Some (nxt', hds')"
      "chains_rep slot nxt' hds' css'" "length hds' = length ?hds"
      "set (concat css') = set xs \<union> set (concat ?css)"
      "length (concat css') = length xs + length (concat ?css)"
    using Cons.IH [OF ch push(1)] by blast
  moreover have "rehash_list slot order p nxt hds = Some (nxt', hds')"
    using IH(1) p by (simp add: rehash_list.simps [of slot order "Some x"])
  ultimately show ?case unfolding push(2,3) by (intro exI [of _ nxt'] exI [of _ hds'] exI [of _ css']) auto
qed

lemma grow_prop_table_rep:
  assumes order: "chain (p_next s) (t_first s) ps"
    and rep: "table_rep (prop_key s) (t_tab s) (p_hash_next s) css" "set (concat css) = set ps"
  shows "\<exists>t nxt css'. grow_prop_table s = Some (s\<lparr>t_tab := t, p_hash_next := nxt\<rparr>)
    \<and> chains_rep (slot_of (prop_key s) (head_mask t)) nxt (heads t) css'
    \<and> length (heads t) = head_mask t + 1 \<and> set (concat css') = set ps
    \<and> length (concat css') = length (concat css) \<and> count t = count (t_tab s) \<and> count t < head_mask t"
proof (cases "count (t_tab s) \<ge> head_mask (t_tab s)")
  case False
  then have "heads (t_tab s) \<noteq> []" using rep by (auto simp: table_rep_def split: if_splits)
  with False rep show ?thesis
    by (intro exI [of _ "t_tab s"] exI [of _ "p_hash_next s"] exI [of _ css])
      (simp add: grow_prop_table_def table_rep_def)
next
  case True
  define n where "n = (if heads (t_tab s) \<noteq> [] then (head_mask (t_tab s) + 1) * 2 else 4)"
  have "heads (t_tab s) = [] \<Longrightarrow> head_mask (t_tab s) = 0" "count (t_tab s) \<le> head_mask (t_tab s)"
    using rep by (auto simp: table_rep_def)
  then have n: "0 < n" "count (t_tab s) < n - 1" by (auto simp: n_def)
  let ?slot = "slot_of (prop_key s) (n - 1)"
  have "chains_rep ?slot (p_hash_next s) (replicate n None) (replicate n [])" by (simp add: chains_rep_def)
  moreover have "\<forall>a \<in> set ps. ?slot a < length (replicate n (None :: link))"
    using n by (auto intro: le_less_trans [OF slot_of_le])
  ultimately obtain nxt hds css' where r:
      "rehash_list ?slot (p_next s) (t_first s) (p_hash_next s) (replicate n None) = Some (nxt, hds)"
      "chains_rep ?slot nxt hds css'" "length hds = n" "set (concat css') = set ps" "length (concat css') = length ps"
    using rehash_list_rep [OF order, of ?slot "p_hash_next s" "replicate n None" "replicate n []"] by auto
  have "length ps = length (concat css)"
    using rep(2) chains_rep_distinct [OF table_rep_chains [OF rep(1)]] chain_distinct [OF order]
    by (metis distinct_card)
  moreover have "grow_prop_table s = Some (s\<lparr>t_tab := (t_tab s)\<lparr>heads := hds, head_mask := n - 1\<rparr>, p_hash_next := nxt\<rparr>)"
    using True r(1) by (simp add: grow_prop_table_def Let_def n_def [symmetric])
  ultimately show ?thesis
    using r n by (intro exI [of _ "(t_tab s)\<lparr>heads := hds, head_mask := n - 1\<rparr>"] exI [of _ nxt] exI [of _ css']) simp
qed

lemma push_node_rep:
  assumes "chains_rep (slot_of key (head_mask t)) nxt (heads t) css" "length (heads t) = head_mask t + 1"
    "a \<notin> set (concat css)" "count t = length (concat css)" "count t < head_mask t"
  obtains t' nxt' css' where "push_node key t nxt a = (t', nxt')" "table_rep key t' nxt' css'"
    "set (concat css') = insert a (set (concat css))"
proof -
  let ?slot = "slot_of key (head_mask t) a"
  have sl: "?slot < length (heads t)" using assms(2) slot_of_le [of key "head_mask t" a] by simp
  note push = chains_rep_push [OF assms(1,3) sl]
  have "table_rep key (t\<lparr>heads := (heads t)[?slot := Some a], count := count t + 1\<rparr>) (nxt(a := heads t ! ?slot))
      (css[?slot := a # css ! ?slot])"
    using push(1,3) assms by (auto simp: table_rep_def)
  with push(2) that show ?thesis by (simp add: push_node_def Let_def)
qed

lemma length_props_refs: "length (props_refs s ps) = 2 * length ps"
  by (induction ps) (simp_all add: props_refs_def)

lemma props_refs_upd:
  "a \<notin> set ps \<Longrightarrow> concat (map (\<lambda>b. [((p_index s)(a := i)) b, ((p_value s)(a := v)) b]) ps) = props_refs s ps"
  unfolding props_refs_def by (rule arg_cong [of _ _ concat], rule map_cong) auto

lemma count_list_append: "count_list (xs @ ys) x = count_list xs x + count_list ys x"
  by (induction xs) auto

lemma addTableProperty_step:
  assumes inv: "prop_inv s ps rest" and a: "a \<notin> set ps" and pk: "plain_key index"
    and new: "\<forall>b \<in> set ps. \<not> OS_EQUAL_EXACTLY (t_core s) index (p_index s b)"
    and len: "length (props_refs s ps @ rest) < 2 ^ 31 - 2"
    and live: "\<And>x. index = VGC x \<or> val = VGC x \<Longrightarrow> x \<in> value_members (t_core s)"
    and nx: "next_index_after index (t_next_index s) = Some n"
  shows "\<exists>s'. addTableProperty a index val s = Some s' \<and> prop_inv s' (ps @ [a]) rest
    \<and> p_index s' = (p_index s)(a := index) \<and> p_value s' = (p_value s)(a := val)
    \<and> t_next_index s' = n \<and> same_objects (t_core s) (t_core s')
    \<and> it_attached s' = it_attached s \<and> it_prop s' = it_prop s"
proof -
  obtain css its where rep: "table_rep (prop_key s) (t_tab s) (p_hash_next s) css" "set (concat css) = set ps"
      "count (t_tab s) = length ps" and its: "chain (it_next s) (t_iterators s) its"
      "\<forall>i \<in> set its. \<forall>p. it_prop s i = Some p \<longrightarrow> p \<in> set ps" "\<forall>i. it_attached s i \<longleftrightarrow> i \<in> set its"
    using inv by (rule prop_inv_parts)
  have dl: "dlist s ps" and ok: "counts_ok (t_core s) (props_refs s ps @ rest)" and nofix: "\<not> gc_fix_in_progress (t_core s)"
    using inv by (simp_all add: prop_inv_def)
  obtain c1 where c1: "retainValue index (t_core s) = Some c1" "counts_ok c1 (index # props_refs s ps @ rest)"
      "same_objects (t_core s) c1" "value_members c1 = value_members (t_core s)"
    using retainValue_counts [OF ok, of index] live len by auto
  obtain c2 where c2: "retainValue val c1 = Some c2" "counts_ok c2 (val # index # props_refs s ps @ rest)"
      "same_objects c1 c2"
    using retainValue_counts [OF c1(2), of val] live len c1(4) by auto
  have so: "same_objects (t_core s) c2" using c1(3) c2(3) by (rule same_objects_trans)
  let ?s2 = "s\<lparr>p_index := (p_index s)(a := index), p_value := (p_value s)(a := val),
      p_hash_next := (p_hash_next s)(a := None), p_prev := (p_prev s)(a := None),
      p_next := (p_next s)(a := None), t_core := c2\<rparr>"
  have order: "chain (p_next ?s2) (t_first ?s2) ps" and dl2: "dlist ?s2 ps"
    using dl a by (simp_all add: dlist_def)
  have key: "prop_key ?s2 b = prop_key s b" if "b \<in> set ps" for b
    using that a by (auto simp: prop_key_def same_objects_value(1) [OF so])
  have "table_rep (prop_key ?s2) (t_tab ?s2) (p_hash_next ?s2) css"
  proof -
    have "chains_rep (slot_of (prop_key s) (head_mask (t_tab s))) ((p_hash_next s)(a := None)) (heads (t_tab s)) css"
      using chains_rep_upd_notin [OF table_rep_chains [OF rep(1)]] rep(2) a by blast
    moreover have "slot_of (prop_key ?s2) m b = slot_of (prop_key s) m b" if "i < length css" "b \<in> set (css ! i)" for i b m
      using key [of b] that rep(2) by (metis in_concat_nth slot_of_def)
    ultimately have "chains_rep (slot_of (prop_key ?s2) (head_mask (t_tab s))) ((p_hash_next s)(a := None)) (heads (t_tab s)) css"
      using table_rep_length [OF rep(1)] unfolding chains_rep_def by metis
    then show ?thesis using rep(1) by (simp add: table_rep_def)
  qed
  note grown = grow_prop_table_rep [OF order this rep(2)]
  obtain t nxt css' where g:
      "grow_prop_table ?s2 = Some (?s2\<lparr>t_tab := t, p_hash_next := nxt\<rparr>)"
      "chains_rep (slot_of (prop_key ?s2) (head_mask t)) nxt (heads t) css'"
      "length (heads t) = head_mask t + 1" "set (concat css') = set ps"
      "length (concat css') = length (concat css)" "count t = count (t_tab ?s2)" "count t < head_mask t"
    using grown by blast
  have an: "a \<notin> set (concat css')" using a g(4) by simp
  have "count t = length (concat css')" using rep(1) g(5,6) by (simp add: table_rep_def)
  from push_node_rep [OF g(2,3) an this g(7)] obtain t3 nxt3 css3 where
      p3: "push_node (prop_key ?s2) t nxt a = (t3, nxt3)" and
      rep3: "table_rep (prop_key ?s2) t3 nxt3 css3" "set (concat css3) = insert a (set ps)"
    using g(4) by metis
  let ?s3 = "?s2\<lparr>t_tab := t3, p_hash_next := nxt3\<rparr>"
  have "dlist ?s3 ps" using dl2 by (simp add: dlist_def)
  then obtain s4 where s4: "link_last a ?s3 = Some s4" "dlist s4 (ps @ [a])"
      "s4 = ?s3\<lparr>t_first := t_first s4, t_last := t_last s4, p_next := p_next s4, p_prev := p_prev s4\<rparr>"
    using link_last_dlist [of ?s3 ps a] a by auto
  have f4: "t_tab s4 = t3" "p_hash_next s4 = nxt3" "p_index s4 = (p_index s)(a := index)"
      "p_value s4 = (p_value s)(a := val)" "t_core s4 = c2" "it_next s4 = it_next s" "it_prop s4 = it_prop s"
      "t_iterators s4 = t_iterators s" "t_next_index s4 = t_next_index s" "it_attached s4 = it_attached s"
    by (subst s4(3), simp)+
  have "table_get index s = Some None"
    using table_get_find [OF inv pk] new by (simp add: find_None_iff)
  moreover have "prop_key (?s2\<lparr>t_tab := t, p_hash_next := nxt\<rparr>) = prop_key ?s2" by (simp add: prop_key_def [abs_def])
  with p3 have "push_node (prop_key (?s2\<lparr>t_tab := t, p_hash_next := nxt\<rparr>)) t nxt a = (t3, nxt3)" by simp
  ultimately have add: "addTableProperty a index val s = Some (s4\<lparr>t_next_index := n\<rparr>)"
    using c1(1) c2(1) g(1) p3 s4(1) nx f4(9) by (simp add: addTableProperty_def Let_def)
  let ?s' = "s4\<lparr>t_next_index := n\<rparr>"
  have "prop_inv ?s' (ps @ [a]) rest"
    unfolding prop_inv_def
  proof (intro conjI)
    show "dlist ?s' (ps @ [a])" using s4(2) by (simp add: dlist_def)
    have "prop_key ?s' = prop_key ?s2" by (simp add: prop_key_def [abs_def] f4)
    then show "\<exists>css. table_rep (prop_key ?s') (t_tab ?s') (p_hash_next ?s') css \<and> set (concat css) = set (ps @ [a])"
      using rep3 by (intro exI [of _ css3]) (simp add: f4 del: set_concat)
    have "props_refs ?s' (ps @ [a]) = props_refs s ps @ [index, val]"
      using props_refs_upd [OF a, of s index val] by (simp add: props_refs_def f4)
    then show "counts_ok (t_core ?s') (props_refs ?s' (ps @ [a]) @ rest)"
      using c2(2) counts_ok_perm [of "val # index # props_refs s ps @ rest" "(props_refs s ps @ [index, val]) @ rest"]
      by (simp add: f4 count_list_append)
    show "\<not> gc_fix_in_progress (t_core ?s')" using nofix so by (simp add: f4 same_objects_def)
    show "\<forall>b \<in> set (ps @ [a]). plain_key (p_index ?s' b)" using inv pk by (auto simp: f4 prop_inv_def)
    show "\<forall>b \<in> set (ps @ [a]). \<forall>d \<in> set (ps @ [a]).
        OS_EQUAL_EXACTLY (t_core ?s') (p_index ?s' b) (p_index ?s' d) \<longrightarrow> b = d"
    proof (intro ballI impI)
      fix b d
      assume "b \<in> set (ps @ [a])" "d \<in> set (ps @ [a])"
        and eq: "OS_EQUAL_EXACTLY (t_core ?s') (p_index ?s' b) (p_index ?s' d)"
      then have "b \<in> insert a (set ps)" "d \<in> insert a (set ps)" by auto
      moreover have "\<forall>b \<in> set ps. \<not> OS_EQUAL_EXACTLY (t_core s) (p_index s b) index"
        using new equal_sym by blast
      moreover have "\<forall>b \<in> set ps. \<forall>d \<in> set ps. OS_EQUAL_EXACTLY (t_core s) (p_index s b) (p_index s d) \<longrightarrow> b = d"
        using inv by (simp add: prop_inv_def)
      moreover have "OS_EQUAL_EXACTLY (t_core s) (((p_index s)(a := index)) b) (((p_index s)(a := index)) d)"
        using eq by (simp add: f4 same_objects_value(2) [OF so])
      ultimately show "b = d" using new a by (auto split: if_splits)
    qed
    show "\<exists>its. chain (it_next ?s') (t_iterators ?s') its \<and> (\<forall>i. it_attached ?s' i \<longleftrightarrow> i \<in> set its)
        \<and> (\<forall>i \<in> set its. \<forall>p. it_prop ?s' i = Some p \<longrightarrow> p \<in> set (ps @ [a]))"
      using its by (intro exI [of _ its]) (auto simp: f4)
  qed
  with add so show ?thesis by (simp add: f4)
qed

section \<open>Removing a property\<close>

lemma props_refs_split:
  "count_list (props_refs s (us @ a # vs)) x = count_list (p_index s a # p_value s a # props_refs s (us @ vs)) x"
  by (simp add: props_refs_def count_list_append)

lemma deleteTableProperty_step:
  assumes inv: "prop_inv s ps rest" and pk: "plain_key index" and hd: "heads (t_tab s) \<noteq> []"
    and len: "length (props_refs s ps @ rest) < 2 ^ 31"
  shows "(deleteTableProperty index s = Some (False, s)
      \<and> (\<forall>a \<in> set ps. \<not> OS_EQUAL_EXACTLY (t_core s) index (p_index s a)))
    \<or> (\<exists>us a vs s'. ps = us @ a # vs \<and> OS_EQUAL_EXACTLY (t_core s) index (p_index s a)
      \<and> deleteTableProperty index s = Some (True, s') \<and> prop_inv s' (us @ vs) rest
      \<and> p_index s' = p_index s \<and> p_value s' = p_value s \<and> same_objects (t_core s) (t_core s')
      \<and> t_iterators s' = t_iterators s \<and> it_next s' = it_next s \<and> it_ascending s' = it_ascending s
      \<and> (\<forall>its. chain (it_next s) (t_iterators s) its \<longrightarrow> (\<forall>i \<in> set its. it_prop s' i =
           (if it_prop s i = Some a
            then (if it_ascending s i then (case vs of [] \<Rightarrow> None | v # _ \<Rightarrow> Some v)
                  else (if us = [] then None else Some (last us)))
            else it_prop s i))))"
proof -
  obtain css its where rep: "table_rep (prop_key s) (t_tab s) (p_hash_next s) css" "set (concat css) = set ps"
      "count (t_tab s) = length ps" and its: "chain (it_next s) (t_iterators s) its"
      "\<forall>i \<in> set its. \<forall>p. it_prop s i = Some p \<longrightarrow> p \<in> set ps" "\<forall>i. it_attached s i \<longleftrightarrow> i \<in> set its"
    using inv by (rule prop_inv_parts)
  let ?P = "\<lambda>a. OS_EQUAL_EXACTLY (t_core s) index (p_index s a)"
  let ?slot = "hash_slot (getValueHash (t_core s) index) (head_mask (t_tab s))"
  note f = prop_find [OF inv rep(1,2) hd pk]
  from f(2) show ?thesis
  proof (elim disjE exE conjE)
    assume "find_in_slot ?P (t_tab s) (p_hash_next s) ?slot = Some None" "\<forall>a \<in> set ps. \<not> ?P a"
    then show ?thesis by (simp add: deleteTableProperty_def Let_def)
  next
    fix cus cvs :: "addr list" and a :: addr
    let ?prev = "if cus = [] then None else Some (last cus)"
    assume cs: "css ! ?slot = cus @ a # cvs" "a \<in> set ps" "?P a"
      "find_in_slot ?P (t_tab s) (p_hash_next s) ?slot = Some (Some (?prev, a))"
    obtain us vs where ps: "ps = us @ a # vs" using cs(2) by (meson split_list)
    have dl: "dlist s (us @ a # vs)" using inv ps by (simp add: prop_inv_def)
    have dist: "distinct (us @ a # vs)" using prop_inv_distinct [OF inv] ps by simp
    obtain s1 where s1: "unlink_order a s = Some s1" "dlist s1 (us @ vs)"
        "s1 = s\<lparr>t_first := t_first s1, t_last := t_last s1, p_next := p_next s1, p_prev := p_prev s1\<rparr>"
        "p_next s1 a = p_next s a" "p_prev s1 a = p_prev s a"
      using unlink_order_dlist [OF dl] by blast
    have f1: "t_tab s1 = t_tab s" "p_hash_next s1 = p_hash_next s" "p_index s1 = p_index s" "p_value s1 = p_value s"
        "t_core s1 = t_core s" "it_next s1 = it_next s" "it_prop s1 = it_prop s" "t_iterators s1 = t_iterators s"
        "it_ascending s1 = it_ascending s" "it_attached s1 = it_attached s"
      by (subst s1(3), simp)+
    obtain hds nxt where un: "unlink_node (heads (t_tab s)) (p_hash_next s) ?slot ?prev a = (hds, nxt)"
      by (cases "unlink_node (heads (t_tab s)) (p_hash_next s) ?slot ?prev a")
    note cr = table_rep_chains [OF rep(1)]
    note ul = chains_rep_unlink [OF cr f(1) cs(1) un]
    have il: "?slot < length css" using f(1) table_rep_length [OF rep(1)] by simp
    note rm = concat_remove [OF il cs(1) chains_rep_distinct [OF cr]]
    let ?css = "css[?slot := cus @ cvs]"
    have set': "set (concat ?css) = set (us @ vs)" using rm(1) rep(2) ps dist by auto
    let ?props = "\<lambda>i. if i \<in> set its \<and> it_prop s i = Some a
        then (if it_ascending s i then p_next s a else p_prev s a) else it_prop s i"
    let ?s2 = "s1\<lparr>t_tab := (t_tab s)\<lparr>heads := hds\<rparr>, p_hash_next := nxt\<rparr>"
    have mv: "move_iterators a ?s2 (t_iterators s) (it_prop s) = Some ?props"
      using move_iterators_spec [of ?s2 "t_iterators s" its a "it_prop s"] its(1) by (simp add: f1 s1(4,5) cong: if_cong)
    have ok: "counts_ok (t_core s) (p_index s a # p_value s a # props_refs s (us @ vs) @ rest)"
      using inv counts_ok_perm [of "props_refs s ps @ rest" "p_index s a # p_value s a # props_refs s (us @ vs) @ rest"]
        props_refs_split [of s us a vs] ps by (simp add: prop_inv_def count_list_append)
    have len': "length (p_index s a # p_value s a # props_refs s (us @ vs) @ rest) < 2 ^ 31"
      using len ps by (simp add: props_refs_def)
    have nofix: "\<not> gc_fix_in_progress (t_core s)" using inv by (simp add: prop_inv_def)
    obtain c1 where c1: "releaseValue (p_index s a) (t_core s) = Some c1"
        "counts_ok c1 (p_value s a # props_refs s (us @ vs) @ rest)" "same_objects (t_core s) c1"
      using releaseValue_counts [OF ok _ nofix] len' by auto
    have nofix1: "\<not> gc_fix_in_progress c1" using nofix c1(3) by (simp add: same_objects_def)
    obtain c2 where c2: "releaseValue (p_value s a) c1 = Some c2"
        "counts_ok c2 (props_refs s (us @ vs) @ rest)" "same_objects c1 c2"
      using releaseValue_counts [OF c1(2) _ nofix1] len' by auto
    have so: "same_objects (t_core s) c2" using c1(3) c2(3) by (rule same_objects_trans)
    let ?s' = "?s2\<lparr>it_prop := ?props, p_next := (p_next s1)(a := None), p_prev := (p_prev s1)(a := None),
        p_hash_next := nxt(a := None), t_core := c2, t_tab := (t_tab s)\<lparr>heads := hds, count := count (t_tab s) - 1\<rparr>\<rparr>"
    have del: "deleteTableProperty index s = Some (True, ?s')"
      using cs(4) s1(1) un mv c1(1) c2(1) by (simp add: deleteTableProperty_def Let_def f1)
    have "prop_inv ?s' (us @ vs) rest"
      unfolding prop_inv_def
    proof (intro conjI)
      show "dlist ?s' (us @ vs)" using s1(2) dist by (simp add: dlist_def)
      have "prop_key ?s' = prop_key s"
        by (simp add: prop_key_def [abs_def] f1 same_objects_value(1) [OF so])
      moreover have "a \<notin> set (concat ?css)" using set' dist by auto
      moreover have "count (t_tab s) = length (concat css)" "count (t_tab s) \<le> head_mask (t_tab s)"
        "length (heads (t_tab s)) = head_mask (t_tab s) + 1" "hds \<noteq> []"
        using rep(1) hd ul by (auto simp: table_rep_def)
      ultimately have "table_rep (prop_key ?s') (t_tab ?s') (p_hash_next ?s') ?css"
        using ul rm(2) chains_rep_upd_notin [of _ nxt hds ?css a None] by (auto simp: table_rep_def)
      with set' show "\<exists>css. table_rep (prop_key ?s') (t_tab ?s') (p_hash_next ?s') css \<and> set (concat css) = set (us @ vs)"
        by blast
      show "counts_ok (t_core ?s') (props_refs ?s' (us @ vs) @ rest)" using c2(2) by (simp add: props_refs_def f1)
      show "\<not> gc_fix_in_progress (t_core ?s')" using nofix so by (simp add: same_objects_def)
      show "\<forall>b \<in> set (us @ vs). plain_key (p_index ?s' b)" using inv ps by (auto simp: f1 prop_inv_def)
      show "\<forall>b \<in> set (us @ vs). \<forall>d \<in> set (us @ vs).
          OS_EQUAL_EXACTLY (t_core ?s') (p_index ?s' b) (p_index ?s' d) \<longrightarrow> b = d"
        using inv ps by (auto simp: f1 prop_inv_def same_objects_value(2) [OF so])
      show "\<exists>its. chain (it_next ?s') (t_iterators ?s') its \<and> (\<forall>i. it_attached ?s' i \<longleftrightarrow> i \<in> set its)
          \<and> (\<forall>i \<in> set its. \<forall>p. it_prop ?s' i = Some p \<longrightarrow> p \<in> set (us @ vs))"
      proof (intro exI [of _ its] conjI ballI allI impI)
        show "chain (it_next ?s') (t_iterators ?s') its" using its(1) by (simp add: f1)
        show "it_attached ?s' i \<longleftrightarrow> i \<in> set its" for i using its(3) by (simp add: f1)
        fix i p assume i: "i \<in> set its" "it_prop ?s' i = Some p"
        show "p \<in> set (us @ vs)"
        proof (cases "it_prop s i = Some a")
          case True
          then show ?thesis using i dlist_neighbours [OF dl] by (auto split: if_splits list.splits)
        next
          case False
          then have "it_prop s i = Some p" "p \<noteq> a" using i by auto
          then show ?thesis using its(2) i(1) ps by auto
        qed
      qed
    qed
    moreover have "\<forall>its'. chain (it_next s) (t_iterators s) its' \<longrightarrow> (\<forall>i \<in> set its'. it_prop ?s' i =
           (if it_prop s i = Some a
            then (if it_ascending s i then (case vs of [] \<Rightarrow> None | v # _ \<Rightarrow> Some v)
                  else (if us = [] then None else Some (last us)))
            else it_prop s i))"
      using dlist_neighbours [OF dl] chain_unique [OF its(1)] by auto
    ultimately show ?thesis
      using ps cs(3) del so by (intro disjI2 exI [of _ us] exI [of _ a] exI [of _ vs] exI [of _ ?s']) (simp add: f1)
  qed
qed

section \<open>The table as an ordered association list\<close>

text \<open>The contents of a table: its keys and values in insertion order.\<close>

definition table_contents :: "tstate \<Rightarrow> addr list \<Rightarrow> (os_value \<times> os_value) list" where
  "table_contents s ps = map (\<lambda>a. (p_index s a, p_value s a)) ps"

definition has_key :: "tstate \<Rightarrow> addr list \<Rightarrow> os_value \<Rightarrow> bool" where
  "has_key s ps index \<longleftrightarrow> (\<exists>(k, v) \<in> set (table_contents s ps). OS_EQUAL_EXACTLY (t_core s) index k)"

lemma has_key_props: "has_key s ps index \<longleftrightarrow> (\<exists>a \<in> set ps. OS_EQUAL_EXACTLY (t_core s) index (p_index s a))"
  by (auto simp: has_key_def table_contents_def)




lemma setTableValue_step:
  assumes inv: "prop_inv s ps rest" and a: "a \<in> set ps"
    and len: "length (props_refs s ps @ rest) < 2 ^ 31"
    and live: "case val of VGC x \<Rightarrow> x \<in> value_members (t_core s) | _ \<Rightarrow> True"
  shows "\<exists>c. setValue (p_value s a) val (t_core s) = Some (val, c)
    \<and> prop_inv (s\<lparr>p_value := (p_value s)(a := val), t_core := c\<rparr>) ps rest \<and> same_objects (t_core s) c"
proof -
  obtain us vs where ps: "ps = us @ a # vs" using a by (meson split_list)
  have dist: "a \<notin> set us" "a \<notin> set vs" using prop_inv_distinct [OF inv] ps by auto
  let ?refs = "p_value s a # p_index s a # props_refs s (us @ vs) @ rest"
  have ok: "counts_ok (t_core s) ?refs"
    using inv counts_ok_perm [of "props_refs s ps @ rest" ?refs] props_refs_split [of s us a vs] ps
    by (simp add: prop_inv_def count_list_append)
  have len': "length ?refs < 2 ^ 31" using len ps by (simp add: props_refs_def)
  have nofix: "\<not> gc_fix_in_progress (t_core s)" using inv by (simp add: prop_inv_def)
  obtain c where c: "setValue (p_value s a) val (t_core s) = Some (val, c)"
      "counts_ok c (val # p_index s a # props_refs s (us @ vs) @ rest)" "same_objects (t_core s) c"
    using setValue_counts [OF ok, of 0] len' nofix live by auto
  let ?s = "s\<lparr>p_value := (p_value s)(a := val), t_core := c\<rparr>"
  have refs: "props_refs ?s (us @ vs) = props_refs s (us @ vs)"
    using dist unfolding props_refs_def by (intro arg_cong [of _ _ concat] map_cong) auto
  have "count_list (props_refs ?s ps) x = count_list (val # p_index s a # props_refs s (us @ vs)) x" for x
    using props_refs_split [of ?s us a vs x] ps refs by simp
  then have "counts_ok c (props_refs ?s ps @ rest)"
    using c(2) counts_ok_perm [of "props_refs ?s ps @ rest" "val # p_index s a # props_refs s (us @ vs) @ rest"]
    by (simp add: count_list_append)
  moreover have "prop_key ?s = prop_key s" by (simp add: prop_key_def [abs_def] same_objects_value(1) [OF c(3)])
  ultimately have "prop_inv ?s ps rest"
    using inv c(3) nofix by (simp add: prop_inv_def dlist_def same_objects_value(2) [OF c(3)] same_objects_def)
  with c(1,3) show ?thesis by blast
qed


section \<open>Clearing a table\<close>

lemma clear_props_spec:
  assumes "chain (p_prev s) q qs" "counts_ok (t_core s) (props_refs s qs @ rest)"
    "length (props_refs s qs @ rest) < 2 ^ 31" "\<not> gc_fix_in_progress (t_core s)"
  shows "\<exists>s'. clear_props q s = Some s' \<and> counts_ok (t_core s') rest \<and> same_objects (t_core s) (t_core s')
    \<and> s' = s\<lparr>p_hash_next := p_hash_next s', p_prev := p_prev s', p_next := p_next s', t_core := t_core s'\<rparr>"
  using assms
proof (induction qs arbitrary: q s)
  case Nil
  then show ?case by (simp add: clear_props.simps props_refs_def)
next
  case (Cons a qs)
  have p: "q = Some a" and ch: "chain (p_prev s) (p_prev s a) qs" using Cons.prems(1) by auto
  have a: "a \<notin> set qs" using chain_distinct [OF Cons.prems(1)] by simp
  have ok: "counts_ok (t_core s) (p_index s a # p_value s a # props_refs s qs @ rest)"
    and len: "length (p_index s a # p_value s a # props_refs s qs @ rest) < 2 ^ 31"
    using Cons.prems(2,3) by (simp_all add: props_refs_def)
  obtain c1 where c1: "releaseValue (p_index s a) (t_core s) = Some c1"
      "counts_ok c1 (p_value s a # props_refs s qs @ rest)" "same_objects (t_core s) c1"
    using releaseValue_counts [OF ok _ Cons.prems(4)] len by auto
  have nofix1: "\<not> gc_fix_in_progress c1" using Cons.prems(4) c1(3) by (simp add: same_objects_def)
  obtain c2 where c2: "releaseValue (p_value s a) c1 = Some c2" "counts_ok c2 (props_refs s qs @ rest)" "same_objects c1 c2"
    using releaseValue_counts [OF c1(2) _ nofix1] len by auto
  let ?s = "s\<lparr>p_hash_next := (p_hash_next s)(a := None), p_prev := (p_prev s)(a := None),
      p_next := (p_next s)(a := None), t_core := c2\<rparr>"
  have "chain (p_prev ?s) (p_prev s a) qs" using ch a by simp
  moreover have "counts_ok (t_core ?s) (props_refs ?s qs @ rest)" "length (props_refs ?s qs @ rest) < 2 ^ 31"
    using c2(2) len by (simp_all add: props_refs_def)
  moreover have "\<not> gc_fix_in_progress (t_core ?s)" using nofix1 c2(3) by (simp add: same_objects_def)
  ultimately obtain s' where s': "clear_props (p_prev s a) ?s = Some s'" "counts_ok (t_core s') rest"
      "same_objects (t_core ?s) (t_core s')"
      "s' = ?s\<lparr>p_hash_next := p_hash_next s', p_prev := p_prev s', p_next := p_next s', t_core := t_core s'\<rparr>"
    using Cons.IH by blast
  have "clear_props q s = Some s'"
    using p c1(1) c2(1) s'(1) by (simp add: clear_props.simps [of "Some a"])
  moreover have "same_objects (t_core s) (t_core s')"
    using c1(3) c2(3) s'(3) by (simp add: same_objects_def)
  moreover have "s' = s\<lparr>p_hash_next := p_hash_next s', p_prev := p_prev s', p_next := p_next s', t_core := t_core s'\<rparr>"
    using s'(4) by simp
  ultimately show ?case using s'(2) by blast
qed

lemma removeIterator_first:
  assumes "t_iterators s = Some i" "it_attached s i"
  shows "removeIterator i s = Some (s\<lparr>t_iterators := it_next s i, it_attached := (it_attached s)(i := False),
      it_next := (it_next s)(i := None), it_prop := (it_prop s)(i := None)\<rparr>)"
  by (simp add: removeIterator_def containsIterator_def assms walk_chain.simps)

lemma remove_iterators_spec:
  assumes "chain (it_next s) (t_iterators s) its" "\<forall>i \<in> set its. it_attached s i"
  shows "\<exists>s'. remove_iterators (t_iterators s) s = Some s' \<and> t_iterators s' = None
    \<and> (\<forall>i \<in> set its. it_prop s' i = None \<and> \<not> it_attached s' i)
    \<and> s' = s\<lparr>t_iterators := t_iterators s', it_attached := it_attached s', it_next := it_next s', it_prop := it_prop s'\<rparr>
    \<and> (\<forall>i. i \<notin> set its \<longrightarrow> it_prop s' i = it_prop s i \<and> it_attached s' i = it_attached s i)"
  using assms
proof (induction its arbitrary: s)
  case Nil
  then show ?case by (simp add: remove_iterators.simps)
next
  case (Cons i its)
  have i: "t_iterators s = Some i" "it_attached s i" and ch: "chain (it_next s) (it_next s i) its"
    using Cons.prems by auto
  have ni: "i \<notin> set its" using chain_distinct [OF Cons.prems(1)] by simp
  let ?s = "s\<lparr>t_iterators := it_next s i, it_attached := (it_attached s)(i := False),
      it_next := (it_next s)(i := None), it_prop := (it_prop s)(i := None)\<rparr>"
  have c1: "chain (it_next ?s) (t_iterators ?s) its" using ch ni by simp
  have c2: "\<forall>j \<in> set its. it_attached ?s j" using Cons.prems(2) ni by auto
  from Cons.IH [OF c1 c2] obtain s' where s': "remove_iterators (it_next s i) ?s = Some s'" "t_iterators s' = None"
      "\<forall>j \<in> set its. it_prop s' j = None \<and> \<not> it_attached s' j"
      "s' = ?s\<lparr>t_iterators := t_iterators s', it_attached := it_attached s', it_next := it_next s', it_prop := it_prop s'\<rparr>"
      "\<forall>j. j \<notin> set its \<longrightarrow> it_prop s' j = it_prop ?s j \<and> it_attached s' j = it_attached ?s j"
    by auto
  have "remove_iterators (t_iterators s) s = Some s'"
    using s'(1) by (simp add: i(1) remove_iterators.simps [of "Some i"] removeIterator_first [OF i])
  moreover have "s' = s\<lparr>t_iterators := t_iterators s', it_attached := it_attached s', it_next := it_next s', it_prop := it_prop s'\<rparr>"
    using s'(4) by simp
  ultimately show ?case using s'(2,3,5) ni by (intro exI [of _ s']) auto
qed

text \<open>
  Clearing a table gives back exactly one reference for every key and every value it held, so that the
  counts stay exact for the references from elsewhere, detaches every iterator, and leaves the empty
  table.
\<close>

theorem clearTable_correct:
  assumes "prop_inv s ps rest" "length (props_refs s ps @ rest) < 2 ^ 31"
  shows "\<exists>s'. clearTable s = Some s' \<and> prop_inv s' [] rest \<and> t_tab s' = empty_table \<and> t_next_index s' = 0
    \<and> t_iterators s' = None
    \<and> (\<forall>its. chain (it_next s) (t_iterators s) its \<longrightarrow> (\<forall>i \<in> set its. it_prop s' i = None \<and> \<not> it_attached s' i))"
proof -
  obtain its where its: "chain (it_next s) (t_iterators s) its" "\<forall>i. it_attached s i \<longleftrightarrow> i \<in> set its"
    using assms(1) by (auto simp: prop_inv_def)
  let ?s0 = "s\<lparr>t_tab := (t_tab s)\<lparr>count := 0\<rparr>, t_first := None, t_last := None\<rparr>"
  have cnt: "count_list (props_refs s (rev ps)) x = count_list (props_refs s ps) x" for x
  proof (induction ps)
    case (Cons a ps)
    then show ?case using props_refs_split [of s "rev ps" a "[]" x] by (simp add: props_refs_def)
  qed simp
  have "counts_ok (t_core s) (props_refs s (rev ps) @ rest)"
    using assms(1) counts_ok_perm [of "props_refs s (rev ps) @ rest" "props_refs s ps @ rest"]
    by (simp add: prop_inv_def count_list_append cnt)
  moreover have "length (props_refs s (rev ps)) = length (props_refs s ps)"
    by (simp add: length_props_refs)
  moreover have "chain (p_prev ?s0) (t_last s) (rev ps)" using assms(1) by (simp add: prop_inv_def dlist_def)
  moreover have "props_refs ?s0 (rev ps) = props_refs s (rev ps)" by (simp add: props_refs_def)
  ultimately obtain s1 where s1: "clear_props (t_last s) ?s0 = Some s1" "counts_ok (t_core s1) rest"
      "same_objects (t_core s) (t_core s1)"
      "s1 = ?s0\<lparr>p_hash_next := p_hash_next s1, p_prev := p_prev s1, p_next := p_next s1, t_core := t_core s1\<rparr>"
    using clear_props_spec [of ?s0 "t_last s" "rev ps" rest] assms by (auto simp: prop_inv_def)
  have f1: "it_next s1 = it_next s" "t_iterators s1 = t_iterators s" "it_attached s1 = it_attached s" "t_first s1 = None" "t_last s1 = None"
    by (subst s1(4), simp)+
  obtain s2 where s2: "remove_iterators (t_iterators s1) s1 = Some s2" "t_iterators s2 = None"
      "\<forall>i \<in> set its. it_prop s2 i = None \<and> \<not> it_attached s2 i"
      "s2 = s1\<lparr>t_iterators := t_iterators s2, it_attached := it_attached s2, it_next := it_next s2, it_prop := it_prop s2\<rparr>"
      "\<forall>i. i \<notin> set its \<longrightarrow> it_attached s2 i = it_attached s1 i"
    using remove_iterators_spec [of s1 its] its f1 by auto
  have f2: "t_core s2 = t_core s1" "t_first s2 = None" "t_last s2 = None"
    by (subst s2(4), simp add: f1)+
  let ?s' = "s2\<lparr>t_tab := empty_table, t_next_index := 0\<rparr>"
  have "clearTable s = Some ?s'" using s1(1) s2(1) by (simp add: clearTable_def)
  moreover have "prop_inv ?s' [] rest"
    unfolding prop_inv_def
  proof (intro conjI)
    show "\<exists>css. table_rep (prop_key ?s') (t_tab ?s') (p_hash_next ?s') css \<and> set (concat css) = set []"
      using table_rep_empty by (intro exI [of _ "[]"]) simp
    show "\<not> gc_fix_in_progress (t_core ?s')" using assms(1) s1(3) by (simp add: prop_inv_def same_objects_def f2)
    have "\<not> it_attached s2 i" for i using s2(3,5) its(2) f1(3) by (cases "i \<in> set its") auto
    then show "\<exists>its. chain (it_next ?s') (t_iterators ?s') its \<and> (\<forall>i. it_attached ?s' i \<longleftrightarrow> i \<in> set its)
        \<and> (\<forall>i \<in> set its. \<forall>p. it_prop ?s' i = Some p \<longrightarrow> p \<in> set [])"
      using s2(2) by (intro exI [of _ "[]"]) simp
  qed (use s1(2) f2 in \<open>simp_all add: dlist_def props_refs_def\<close>)
  moreover have "it_prop ?s' i = None \<and> \<not> it_attached ?s' i"
    if "chain (it_next s) (t_iterators s) its'" "i \<in> set its'" for its' i
    using s2(3) chain_unique [OF its(1) that(1)] that(2) by simp
  ultimately show ?thesis using s2(2) by (intro exI [of _ ?s']) auto
qed

section \<open>Attaching and detaching iterators\<close>

lemma prop_inv_iterator_fields:
  assumes inv: "prop_inv s ps rest" and "chain nxt its_head its" "\<forall>i. att i \<longleftrightarrow> i \<in> set its"
    "\<forall>i \<in> set its. \<forall>p. props i = Some p \<longrightarrow> p \<in> set ps"
  shows "prop_inv (s\<lparr>it_attached := att, it_prop := props, it_next := nxt, t_iterators := its_head\<rparr>) ps rest"
proof -
  have "prop_key (s\<lparr>it_attached := att, it_prop := props, it_next := nxt, t_iterators := its_head\<rparr>) = prop_key s"
    by (simp add: prop_key_def [abs_def])
  then show ?thesis
    using inv assms(2-4) by (auto simp: prop_inv_def dlist_def props_refs_def)
qed

text \<open>
  C28: an iterator attached to a table stands on its first property, or its last one when it runs
  backwards; detaching an attached iterator succeeds wherever it is in the list of iterators and leaves
  the others attached; both keep the invariant of the table.
\<close>

theorem iterators_correct:
  assumes "prop_inv s ps rest"
  shows "(\<not> it_attached s i \<and> it_prop s i = None \<longrightarrow>
      (\<exists>s'. addIterator i s = Some s' \<and> prop_inv s' ps rest \<and> it_attached s' i
        \<and> it_prop s' i = (if ps = [] then None else Some (if it_ascending s i then hd ps else last ps))))
    \<and> (it_attached s i \<longrightarrow>
      (\<exists>s'. removeIterator i s = Some s' \<and> prop_inv s' ps rest
        \<and> (\<forall>j. it_attached s' j \<longleftrightarrow> it_attached s j \<and> j \<noteq> i) \<and> (\<forall>j. j \<noteq> i \<longrightarrow> it_prop s' j = it_prop s j)))"
proof (intro conjI impI; (elim conjE)?)
  obtain its where its: "chain (it_next s) (t_iterators s) its" "\<forall>i. it_attached s i \<longleftrightarrow> i \<in> set its"
      "\<forall>i \<in> set its. \<forall>p. it_prop s i = Some p \<longrightarrow> p \<in> set ps"
    using assms by (auto simp: prop_inv_def)
  have dl: "dlist s ps" using assms by (simp add: prop_inv_def)
  note fl = dlist_first_last [OF dl]
  {
    assume ni: "\<not> it_attached s i" and np: "it_prop s i = None"
    then have i: "i \<notin> set its" using its(2) by simp
    let ?pos = "if it_ascending s i then t_first s else t_last s"
    let ?s' = "s\<lparr>it_attached := (it_attached s)(i := True), it_prop := (it_prop s)(i := ?pos),
        it_next := (it_next s)(i := t_iterators s), t_iterators := Some i\<rparr>"
    have pos: "?pos = (if ps = [] then None else Some (if it_ascending s i then hd ps else last ps))"
      using fl by (cases ps) auto
    have "walk_chain (\<lambda>j. j = i) (it_next s) (t_iterators s) None = Some None"
      using i by (intro walk_chain_None [OF its(1)]) auto
    then have "addIterator i s = Some ?s'"
      using ni np by (simp add: addIterator_def containsIterator_def)
    moreover have "prop_inv ?s' ps rest"
      by (rule prop_inv_iterator_fields [OF assms, where its = "i # its"])
        (use its i pos in \<open>auto split: if_splits\<close>)
    ultimately show "\<exists>s'. addIterator i s = Some s' \<and> prop_inv s' ps rest \<and> it_attached s' i
        \<and> it_prop s' i = (if ps = [] then None else Some (if it_ascending s i then hd ps else last ps))"
      using pos by (intro exI [of _ ?s']) simp
  }
  assume at: "it_attached s i"
  then obtain us vs where sp: "its = us @ i # vs" "i \<notin> set us"
    using its(2) by (metis split_list_first)
  have dist: "distinct its" using its(1) by (rule chain_distinct)
  have w: "walk_chain (\<lambda>j. j = i) (it_next s) (t_iterators s) None
      = Some (Some (if us = [] then None else Some (last us), i))"
    using its(1) sp by (intro walk_chain_Some [of _ _ us i vs]) auto
  let ?nxt0 = "if us = [] then it_next s else (it_next s)(last us := it_next s i)"
  let ?head = "if us = [] then it_next s i else t_iterators s"
  let ?s' = "s\<lparr>it_attached := (it_attached s)(i := False), it_prop := (it_prop s)(i := None),
      it_next := ?nxt0(i := None), t_iterators := ?head\<rparr>"
  have "chain ?nxt0 ?head (us @ vs)"
    using chain_remove [of "it_next s" "t_iterators s" us i vs] its(1) sp by auto
  moreover have "i \<notin> set (us @ vs)" using dist sp by auto
  ultimately have "chain (?nxt0(i := None)) ?head (us @ vs)" by (simp del: fun_upd_apply)
  then have "prop_inv ?s' ps rest"
    by (rule prop_inv_iterator_fields [OF assms]) (use its sp dist in auto)
  moreover have "removeIterator i s = Some ?s'"
    using w at by (simp add: removeIterator_def containsIterator_def)
  ultimately show "\<exists>s'. removeIterator i s = Some s' \<and> prop_inv s' ps rest
        \<and> (\<forall>j. it_attached s' j \<longleftrightarrow> it_attached s j \<and> j \<noteq> i) \<and> (\<forall>j. j \<noteq> i \<longrightarrow> it_prop s' j = it_prop s j)"
    by (intro exI [of _ ?s']) auto
qed

section \<open>A concrete table\<close>

text \<open>\<open>newTable\<close> and the constructor of \<open>Table\<close>; no property or iterator exists yet.\<close>

definition newTable :: "core \<Rightarrow> tstate" where
  "newTable c = \<lparr>t_tab = empty_table, t_next_index = 0, t_first = None, t_last = None, t_iterators = None,
     p_index = \<lambda>_. VNull, p_value = \<lambda>_. VNull, p_hash_next = \<lambda>_. None, p_prev = \<lambda>_. None,
     p_next = \<lambda>_. None, it_attached = \<lambda>_. False, it_prop = \<lambda>_. None, it_next = \<lambda>_. None,
     it_ascending = \<lambda>_. True, t_core = c\<rparr>"

lemma newTable_inv: "counts_ok c rest \<Longrightarrow> \<not> gc_fix_in_progress c \<Longrightarrow> prop_inv (newTable c) [] rest"
  using table_rep_empty
  by (auto simp: prop_inv_def newTable_def dlist_def props_refs_def intro: exI [of _ "[]"])

lemma initial_table: "prop_inv (newTable initial_core) [] []"
  by (rule newTable_inv) (use initial_core_inv in \<open>simp_all add: counts_ok_def\<close>, simp add: initial_core_def)

lemma prop_inv_heads:
  assumes "prop_inv s ps rest" "ps \<noteq> []"
  shows "heads (t_tab s) \<noteq> []"
proof -
  obtain css where "table_rep (prop_key s) (t_tab s) (p_hash_next s) css" "set (concat css) = set ps"
    using assms(1) by (rule prop_inv_parts)
  then show ?thesis using table_rep_length assms(2) by fastforce
qed

text \<open>One property, the number 7 with the value true.\<close>

lemma next_index_after_7: "next_index_after (VNumber 0x401C000000000000) 0 = Some 8"
  by code_simp

lemma example_table:
  "\<exists>s. addTableProperty 5 (VNumber 0x401C000000000000) (VBool True) (newTable initial_core) = Some s
    \<and> prop_inv s [5] [] \<and> p_index s 5 = VNumber 0x401C000000000000 \<and> p_value s 5 = VBool True \<and> t_next_index s = 8
    \<and> it_attached s = (\<lambda>_. False) \<and> it_prop s = (\<lambda>_. None)"
proof -
  have "t_next_index (newTable initial_core) = 0" by (simp add: newTable_def)
  then show ?thesis
    using addTableProperty_step [OF initial_table, of 5 "VNumber 0x401C000000000000" "VBool True" 8] next_index_after_7
    by (auto simp: plain_key_def props_refs_def newTable_def)
qed

lemma equal_number_7: "OS_EQUAL_EXACTLY c (VNumber 0x401C000000000000) (VNumber 0x401C000000000000)"
proof -
  have "dbl_eq 0x401C000000000000 0x401C000000000000" by code_simp
  then show ?thesis by (simp add: OS_EQUAL_EXACTLY_def)
qed





theorem clearTable_correct_witness:
  "\<exists>s s'. addTableProperty 5 (VNumber 0x401C000000000000) (VBool True) (newTable initial_core) = Some s
    \<and> clearTable s = Some s' \<and> prop_inv s' [] []"
proof -
  obtain s where s: "addTableProperty 5 (VNumber 0x401C000000000000) (VBool True) (newTable initial_core) = Some s"
      "prop_inv s [5] []"
    using example_table by blast
  with clearTable_correct [OF s(2)] show ?thesis by (auto simp: length_props_refs)
qed

theorem iterators_correct_witness:
  "\<exists>s s1 s2. addTableProperty 5 (VNumber 0x401C000000000000) (VBool True) (newTable initial_core) = Some s
    \<and> addIterator 9 s = Some s1 \<and> it_prop s1 9 = Some 5
    \<and> removeIterator 9 s1 = Some s2 \<and> \<not> it_attached s2 9"
proof -
  obtain s where s: "addTableProperty 5 (VNumber 0x401C000000000000) (VBool True) (newTable initial_core) = Some s"
      "prop_inv s [5] []" "it_attached s = (\<lambda>_. False)" "it_prop s = (\<lambda>_. None)"
    using example_table by blast
  obtain s1 where s1: "addIterator 9 s = Some s1" "prop_inv s1 [5] []" "it_attached s1 9" "it_prop s1 9 = Some 5"
    using iterators_correct [OF s(2), of 9, THEN conjunct1] s(3,4) by auto
  then obtain s2 where "removeIterator 9 s1 = Some s2" "\<not> it_attached s2 9"
    using iterators_correct [OF s1(2), of 9, THEN conjunct2] by auto
  with s(1) s1 show ?thesis by blast
qed

end
