(* ===== verification/QuickSort.thy ===== *)
theory QuickSort
  imports RefTables "HOL-Library.Multiset"
begin

text \<open>
  \<open>OS::qsort\<close> with \<open>qsortShortsort\<close> and \<open>qsortSwap\<close>: an in-place quicksort with a stack of 30 pending segments.
  The comparison may be a script function, so it is a function that also changes a state: nothing is
  assumed of it unless a lemma says so.  Positions are indexes of elements.  \<open>None\<close> is an access outside
  of the array or of the stack.
\<close>

type_synonym ('a, 's) comparator = "'a \<Rightarrow> 'a \<Rightarrow> 's \<Rightarrow> int \<times> 's"
type_synonym segment = "nat \<times> nat"

section \<open>The code\<close>

definition OS_QSORT_CUTOFF :: nat where "OS_QSORT_CUTOFF = 8"

definition qsort_stack_size :: nat where "qsort_stack_size = 30"

definition qsortSwap :: "nat \<Rightarrow> nat \<Rightarrow> 'a list \<Rightarrow> 'a list option" where
  "qsortSwap a b xs =
     (if a \<noteq> b then os_assert (a < length xs \<and> b < length xs) (Some (xs[a := xs ! b, b := xs ! a])) else Some xs)"

definition compare_at :: "('a, 's) comparator \<Rightarrow> nat \<Rightarrow> nat \<Rightarrow> 'a list \<Rightarrow> 's \<Rightarrow> (int \<times> 's) option" where
  "compare_at cmp i j xs s = os_assert (i < length xs \<and> j < length xs) (Some (cmp (xs ! i) (xs ! j) s))"

function max_from :: "('a, 's) comparator \<Rightarrow> nat \<Rightarrow> nat \<Rightarrow> nat \<Rightarrow> 'a list \<Rightarrow> 's \<Rightarrow> (nat \<times> 's) option" where
  "max_from cmp p hi m xs s =
     (if p \<le> hi
      then Option.bind (compare_at cmp p m xs s) (\<lambda>(c, s). max_from cmp (Suc p) hi (if c > 0 then p else m) xs s)
      else Some (m, s))"
  by pat_completeness auto
termination by (relation "measure (\<lambda>(cmp, p, hi, m, xs, s). Suc hi - p)") auto

function qsortShortsort :: "('a, 's) comparator \<Rightarrow> nat \<Rightarrow> nat \<Rightarrow> 'a list \<Rightarrow> 's \<Rightarrow> ('a list \<times> 's) option" where
  "qsortShortsort cmp lo hi xs s =
     (if hi > lo
      then Option.bind (max_from cmp (lo + 1) hi lo xs s) (\<lambda>(m, s).
           Option.bind (qsortSwap m hi xs) (\<lambda>xs. qsortShortsort cmp lo (hi - 1) xs s))
      else Some (xs, s))"
  by pat_completeness auto
termination by (relation "measure (\<lambda>(cmp, lo, hi, xs, s). hi)") auto

text \<open>The two inner loops of the partition, each moving before it compares.\<close>

function scan_up :: "('a, 's) comparator \<Rightarrow> nat \<Rightarrow> nat \<Rightarrow> nat \<Rightarrow> 'a list \<Rightarrow> 's \<Rightarrow> (nat \<times> 's) option" where
  "scan_up cmp lo hi l xs s =
     (if l + 1 \<le> hi
      then Option.bind (compare_at cmp (l + 1) lo xs s) (\<lambda>(c, s).
        if c \<le> 0 then scan_up cmp lo hi (l + 1) xs s else Some (l + 1, s))
      else Some (l + 1, s))"
  by pat_completeness auto
termination by (relation "measure (\<lambda>(cmp, lo, hi, l, xs, s). hi - l)") auto

fun scan_down :: "('a, 's) comparator \<Rightarrow> nat \<Rightarrow> nat \<Rightarrow> 'a list \<Rightarrow> 's \<Rightarrow> (nat \<times> 's) option" where
  "scan_down cmp lo 0 xs s = None"
| "scan_down cmp lo (Suc h) xs s =
     (if h > lo
      then Option.bind (compare_at cmp h lo xs s) (\<lambda>(c, s).
        if c \<ge> 0 then scan_down cmp lo h xs s else Some (h, s))
      else Some (h, s))"

partial_function (option) partition_loop ::
  "('a, 's) comparator \<Rightarrow> nat \<Rightarrow> nat \<Rightarrow> nat \<Rightarrow> nat \<Rightarrow> 'a list \<Rightarrow> 's \<Rightarrow> (nat \<times> nat \<times> 'a list \<times> 's) option" where
  "partition_loop cmp lo hi l h xs s =
     Option.bind (scan_up cmp lo hi l xs s) (\<lambda>(l, s).
     Option.bind (scan_down cmp lo h xs s) (\<lambda>(h, s).
       if h < l then Some (l, h, xs, s)
       else Option.bind (qsortSwap l h xs) (\<lambda>xs. partition_loop cmp lo hi l h xs s)))"

definition push_segment :: "segment \<Rightarrow> segment list \<Rightarrow> segment list option" where
  "push_segment seg stk = os_assert (length stk < qsort_stack_size) (Some (seg # stk))"

text \<open>One round, from \<open>recurse\<close> to the next jump to it, with the segment to go on with if there is one.\<close>

definition qsort_round ::
  "('a, 's) comparator \<Rightarrow> nat \<Rightarrow> nat \<Rightarrow> segment list \<Rightarrow> 'a list \<Rightarrow> 's \<Rightarrow>
    (segment option \<times> segment list \<times> 'a list \<times> 's) option" where
  "qsort_round cmp lo hi stk xs s =
     (let size = hi - lo + 1 in
      if size \<le> OS_QSORT_CUTOFF
      then Option.bind (qsortShortsort cmp lo hi xs s) (\<lambda>(xs, s). Some (None, stk, xs, s))
      else
        Option.bind (qsortSwap (lo + size div 2) lo xs) (\<lambda>xs.
        Option.bind (partition_loop cmp lo hi lo (hi + 1) xs s) (\<lambda>(l, h, xs, s).
        Option.bind (qsortSwap lo h xs) (\<lambda>xs.
          if int h - 1 - int lo \<ge> int hi - int l
          then Option.bind (if lo + 1 < h then push_segment (lo, h - 1) stk else Some stk) (\<lambda>stk.
                 Some (if l < hi then Some (l, hi) else None, stk, xs, s))
          else Option.bind (if l < hi then push_segment (l, hi) stk else Some stk) (\<lambda>stk.
                 Some (if lo + 1 < h then Some (lo, h - 1) else None, stk, xs, s))))))"

partial_function (option) qsort_loop ::
  "('a, 's) comparator \<Rightarrow> nat \<Rightarrow> nat \<Rightarrow> segment list \<Rightarrow> 'a list \<Rightarrow> 's \<Rightarrow> ('a list \<times> 's) option" where
  "qsort_loop cmp lo hi stk xs s =
     Option.bind (qsort_round cmp lo hi stk xs s) (\<lambda>(todo, stk, xs, s).
       case todo of
         Some seg \<Rightarrow> qsort_loop cmp (fst seg) (snd seg) stk xs s
       | None \<Rightarrow> (case stk of [] \<Rightarrow> Some (xs, s)
                 | seg # stk \<Rightarrow> qsort_loop cmp (fst seg) (snd seg) stk xs s))"

definition qsort :: "('a, 's) comparator \<Rightarrow> 'a list \<Rightarrow> 's \<Rightarrow> ('a list \<times> 's) option" where
  "qsort cmp xs s = (if length xs < 2 then Some (xs, s) else qsort_loop cmp 0 (length xs - 1) [] xs s)"

declare partition_loop.simps [code] qsort_loop.simps [code]
declare max_from.simps [simp del] qsortShortsort.simps [simp del] scan_up.simps [simp del]

section \<open>Changes inside a segment\<close>

definition shuffled :: "nat \<Rightarrow> nat \<Rightarrow> 'a list \<Rightarrow> 'a list \<Rightarrow> bool" where
  "shuffled lo hi xs ys \<longleftrightarrow> length ys = length xs \<and> mset ys = mset xs
     \<and> (\<forall>i. i < lo \<or> hi < i \<longrightarrow> ys ! i = xs ! i)
     \<and> (\<forall>i. lo \<le> i \<and> i \<le> hi \<longrightarrow> (\<exists>j. lo \<le> j \<and> j \<le> hi \<and> ys ! i = xs ! j))"

lemma shuffled_refl: "shuffled lo hi xs xs"
  by (auto simp: shuffled_def)

lemma shuffled_trans: "shuffled lo hi xs ys \<Longrightarrow> shuffled lo hi ys zs \<Longrightarrow> shuffled lo hi xs zs"
  unfolding shuffled_def by metis

lemma shuffled_length: "shuffled lo hi xs ys \<Longrightarrow> length ys = length xs"
  by (simp add: shuffled_def)

lemma shuffled_mset: "shuffled lo hi xs ys \<Longrightarrow> mset ys = mset xs"
  by (simp add: shuffled_def)

lemma shuffled_mono: "shuffled lo hi xs ys \<Longrightarrow> lo' \<le> lo \<Longrightarrow> hi \<le> hi' \<Longrightarrow> shuffled lo' hi' xs ys"
  unfolding shuffled_def by (metis le_trans linorder_not_le)

lemma qsortSwap_Some:
  assumes "a < length xs" "b < length xs"
  shows "qsortSwap a b xs = Some (xs[a := xs ! b, b := xs ! a])"
  using assms by (simp add: qsortSwap_def os_assert_def)

lemma shuffled_swap:
  assumes "hi < length xs" "lo \<le> a" "a \<le> hi" "lo \<le> b" "b \<le> hi"
  shows "shuffled lo hi xs (xs[a := xs ! b, b := xs ! a])"
  using assms mset_swap [of b xs a] unfolding shuffled_def
  by (auto simp: nth_list_update)

lemma compare_at_Some: "i < length xs \<Longrightarrow> j < length xs \<Longrightarrow> compare_at cmp i j xs s = Some (cmp (xs ! i) (xs ! j) s)"
  by (simp add: compare_at_def os_assert_def)

section \<open>Pending segments\<close>

text \<open>
  The segments still to be sorted, the current one first: disjoint, of at least two elements, with every pair
  of elements outside of them in order, and each at most half as long as \<open>n\<close> for every segment below it.
\<close>

definition apart :: "segment \<Rightarrow> segment \<Rightarrow> bool" where
  "apart a b \<longleftrightarrow> snd a < fst b \<or> snd b < fst a"

definition settled :: "('a \<Rightarrow> 'a \<Rightarrow> bool) \<Rightarrow> segment set \<Rightarrow> 'a list \<Rightarrow> bool" where
  "settled le S xs \<longleftrightarrow>
     (\<forall>i j. i < j \<and> j < length xs \<longrightarrow> (\<exists>sg\<in>S. fst sg \<le> i \<and> j \<le> snd sg) \<or> le (xs ! i) (xs ! j))"

fun shallow :: "nat \<Rightarrow> segment list \<Rightarrow> bool" where
  "shallow n [] = True"
| "shallow n (sg # sgs) = ((snd sg - fst sg + 1) * 2 ^ length sgs \<le> n \<and> shallow n sgs)"

definition waiting :: "('a \<Rightarrow> 'a \<Rightarrow> bool) \<Rightarrow> nat \<Rightarrow> segment list \<Rightarrow> 'a list \<Rightarrow> bool" where
  "waiting le n sgs xs \<longleftrightarrow> (\<forall>sg\<in>set sgs. fst sg < snd sg \<and> snd sg < length xs) \<and> sorted_wrt apart sgs
     \<and> settled le (set sgs) xs \<and> shallow n sgs"

definition left_to_do :: "segment list \<Rightarrow> nat" where
  "left_to_do sgs = (\<Sum>sg\<leftarrow>sgs. snd sg - fst sg)"

lemma left_to_do_Cons [simp]: "left_to_do (sg # sgs) = snd sg - fst sg + left_to_do sgs" "left_to_do [] = 0"
  by (simp_all add: left_to_do_def)

lemma settled_shuffled:
  assumes "settled le (insert (lo, hi) S) xs" "shuffled lo hi xs ys" "hi < length xs" "\<forall>sg\<in>S. apart (lo, hi) sg"
    and "\<forall>i j. lo \<le> i \<and> i < j \<and> j \<le> hi \<longrightarrow> (\<exists>sg\<in>N. fst sg \<le> i \<and> j \<le> snd sg) \<or> le (ys ! i) (ys ! j)"
  shows "settled le (N \<union> S) ys"
  unfolding settled_def
proof (intro allI impI, elim conjE)
  fix i j assume ij: "i < j" "j < length ys"
  have len: "length ys = length xs" and same: "\<And>k. k < lo \<or> hi < k \<Longrightarrow> ys ! k = xs ! k"
    and moved: "\<And>k. lo \<le> k \<and> k \<le> hi \<Longrightarrow> \<exists>k'. lo \<le> k' \<and> k' \<le> hi \<and> ys ! k = xs ! k'"
    using assms(2) by (auto simp: shuffled_def)
  have old: "(\<exists>sg\<in>S. fst sg \<le> a \<and> b \<le> snd sg) \<or> le (xs ! a) (xs ! b)"
    if "a < b" "b < length xs" "\<not> (lo \<le> a \<and> b \<le> hi)" for a b
    using assms(1) that by (auto simp: settled_def)
  have clash: "\<not> (\<exists>sg\<in>S. fst sg \<le> a \<and> b \<le> snd sg)" if "a \<le> b" "lo \<le> a \<and> a \<le> hi \<or> lo \<le> b \<and> b \<le> hi" for a b
    using assms(4) that by (fastforce simp: apart_def)
  consider "lo \<le> i \<and> j \<le> hi" | "lo \<le> i" "i \<le> hi" "hi < j" | "i < lo" "lo \<le> j" "j \<le> hi"
    | "i < lo \<or> hi < i" "j < lo \<or> hi < j" by linarith
  then show "(\<exists>sg\<in>N \<union> S. fst sg \<le> i \<and> j \<le> snd sg) \<or> le (ys ! i) (ys ! j)"
  proof cases
    case 1
    with assms(5) ij show ?thesis by blast
  next
    case 2
    then obtain k where "lo \<le> k" "k \<le> hi" "ys ! i = xs ! k" using moved by blast
    with 2 ij len old [of k j] clash [of k j] same [of j] show ?thesis by simp
  next
    case 3
    then obtain k where "lo \<le> k" "k \<le> hi" "ys ! j = xs ! k" using moved by blast
    with 3 ij len old [of i k] clash [of i k] same [of i] assms(3) show ?thesis by simp
  next
    case 4
    with ij len old [of i j] same [of i] same [of j] show ?thesis by auto
  qed
qed

lemma waiting_rest:
  assumes "waiting le n ((lo, hi) # stk) xs"
  shows "lo < hi" "hi < length xs" "\<forall>sg\<in>set stk. apart (lo, hi) sg" "settled le (insert (lo, hi) (set stk)) xs"
    "(hi - lo + 1) * 2 ^ length stk \<le> n" "shallow n stk" "sorted_wrt apart stk"
    "\<forall>sg\<in>set stk. fst sg < snd sg \<and> snd sg < length xs"
  using assms by (auto simp: waiting_def)

text \<open>A round replaces its segment by disjoint parts of it.\<close>

lemma waiting_parts:
  assumes "waiting le n ((lo, hi) # stk) xs" "shuffled lo hi xs ys"
    and "\<forall>i j. lo \<le> i \<and> i < j \<and> j \<le> hi \<longrightarrow> (\<exists>sg\<in>set new. fst sg \<le> i \<and> j \<le> snd sg) \<or> le (ys ! i) (ys ! j)"
    and "\<forall>sg\<in>set new. lo \<le> fst sg \<and> fst sg < snd sg \<and> snd sg \<le> hi" "sorted_wrt apart new" "shallow n (new @ stk)"
  shows "waiting le n (new @ stk) ys"
proof -
  note old = waiting_rest [OF assms(1)]
  have "apart a b" if "a \<in> set new" "b \<in> set stk" for a b
    using assms(4) old(3) that by (fastforce simp: apart_def)
  moreover have "settled le (set new \<union> set stk) ys" using settled_shuffled [OF old(4) assms(2) old(2,3) assms(3)] .
  ultimately show ?thesis
    using old assms(4-6) shuffled_length [OF assms(2)] by (fastforce simp: waiting_def sorted_wrt_append)
qed

lemma push_segment_Some:
  assumes "waiting le n ((lo, hi) # stk) xs" "n < 2 ^ 32" "OS_QSORT_CUTOFF < hi - lo + 1"
  shows "push_segment sg stk = Some (sg # stk)"
proof -
  have "(8::nat) * 2 ^ length stk \<le> (hi - lo + 1) * 2 ^ length stk"
    using assms(3) unfolding OS_QSORT_CUTOFF_def by (intro mult_right_mono) auto
  from le_trans [OF this waiting_rest(5) [OF assms(1)]] have "(2::nat) ^ length stk < 2 ^ 29"
    using assms(2) by simp
  then have "length stk < 29" by (rule power_less_imp_less_exp [rotated]) simp
  then show ?thesis by (simp add: push_segment_def qsort_stack_size_def os_assert_def)
qed

lemma shallow_one:
  assumes "m * 2 ^ length stk \<le> n" "shallow n stk" "snd a - fst a + 1 \<le> m"
  shows "shallow n (a # stk)"
  using assms(2) le_trans [OF mult_right_mono [OF assms(3)] assms(1)] by simp

lemma shallow_two:
  assumes "m * 2 ^ length stk \<le> n" "shallow n stk" "snd b - fst b + 1 \<le> m" "2 * (snd a - fst a + 1) \<le> m"
  shows "shallow n (a # b # stk)"
  using shallow_one [OF assms(1-3)] le_trans [OF mult_right_mono [OF assms(4)] assms(1)]
  by (simp add: mult.commute mult.left_commute)

section \<open>Comparisons\<close>

text \<open>
  What the sorting needs of a comparison: states that it keeps \<open>good\<close> and in which it agrees with a transitive
  relation.  The relation that always holds, with every state good, will do for every comparison.
\<close>

locale comparison =
  fixes cmp :: "('a, 's) comparator" and le :: "'a \<Rightarrow> 'a \<Rightarrow> bool" and good :: "'s \<Rightarrow> bool"
  assumes not_above: "good s \<Longrightarrow> fst (cmp a b s) \<le> 0 \<Longrightarrow> le a b"
    and not_below: "good s \<Longrightarrow> 0 \<le> fst (cmp a b s) \<Longrightarrow> le b a"
    and stays_good: "good s \<Longrightarrow> good (snd (cmp a b s))"
    and le_trans': "le a b \<Longrightarrow> le b c \<Longrightarrow> le a c"
begin

lemma le_self: "good s \<Longrightarrow> le a a"
  using not_above [of s a a] not_below [of s a a] by linarith

lemma max_from_spec:
  assumes "lo \<le> m" "m < p" "p \<le> Suc hi" "hi < length xs" "\<forall>i. lo \<le> i \<and> i < p \<longrightarrow> le (xs ! i) (xs ! m)"
    and "good s"
  shows "\<exists>m' s'. max_from cmp p hi m xs s = Some (m', s') \<and> good s' \<and> lo \<le> m' \<and> m' \<le> hi
    \<and> (\<forall>i. lo \<le> i \<and> i \<le> hi \<longrightarrow> le (xs ! i) (xs ! m'))"
  using assms
proof (induction "Suc hi - p" arbitrary: p m s)
  case 0
  then show ?case by (simp add: max_from.simps [of cmp p])
next
  case (Suc n)
  obtain c s1 where c: "cmp (xs ! p) (xs ! m) s = (c, s1)" by fastforce
  let ?m = "if c > 0 then p else m"
  have good: "good s1" using stays_good [OF Suc.prems(6), of "xs ! p" "xs ! m"] by (simp add: c)
  have le: "if c > 0 then le (xs ! m) (xs ! p) else le (xs ! p) (xs ! m)"
    using Suc.prems(6) not_above [of s "xs ! p" "xs ! m"] not_below [of s "xs ! p" "xs ! m"] by (simp add: c)
  have "\<forall>i. lo \<le> i \<and> i < Suc p \<longrightarrow> le (xs ! i) (xs ! ?m)"
    using Suc.prems(5) le le_self [OF good] by (auto simp: less_Suc_eq intro: le_trans')
  then have "\<exists>m' s'. max_from cmp (Suc p) hi ?m xs s1 = Some (m', s') \<and> good s' \<and> lo \<le> m' \<and> m' \<le> hi
      \<and> (\<forall>i. lo \<le> i \<and> i \<le> hi \<longrightarrow> le (xs ! i) (xs ! m'))"
    using Suc.hyps(2) Suc.prems good by (intro Suc.hyps(1)) auto
  then show ?case
    using Suc.hyps(2) Suc.prems by (simp add: max_from.simps [of cmp p] compare_at_Some c)
qed

lemma qsortShortsort_spec:
  assumes "lo \<le> hi" "hi < length xs" "good s"
  shows "\<exists>ys s'. qsortShortsort cmp lo hi xs s = Some (ys, s') \<and> good s' \<and> shuffled lo hi xs ys
    \<and> (\<forall>i j. lo \<le> i \<and> i < j \<and> j \<le> hi \<longrightarrow> le (ys ! i) (ys ! j))"
  using assms
proof (induction hi arbitrary: xs s)
  case 0
  then show ?case by (simp add: qsortShortsort.simps [of cmp 0 0] shuffled_refl)
next
  case (Suc hi)
  show ?case
  proof (cases "lo < Suc hi")
    case False
    with Suc.prems have "lo = Suc hi" by simp
    with Suc.prems(3) show ?thesis by (auto simp: qsortShortsort.simps [of cmp "Suc hi" "Suc hi"] shuffled_refl)
  next
    case True
    obtain m s1 where m: "max_from cmp (lo + 1) (Suc hi) lo xs s = Some (m, s1)" "good s1" "lo \<le> m" "m \<le> Suc hi"
      "\<forall>i. lo \<le> i \<and> i \<le> Suc hi \<longrightarrow> le (xs ! i) (xs ! m)"
      using max_from_spec [of lo lo "lo + 1" "Suc hi" xs s] True Suc.prems le_self by (fastforce simp: less_Suc_eq_le)
    let ?ys = "xs[m := xs ! Suc hi, Suc hi := xs ! m]"
    have swap: "qsortSwap m (Suc hi) xs = Some ?ys" using m(4) Suc.prems by (intro qsortSwap_Some) auto
    have ys: "shuffled lo (Suc hi) xs ?ys" using m True Suc.prems by (intro shuffled_swap) auto
    obtain zs s2 where zs: "qsortShortsort cmp lo hi ?ys s1 = Some (zs, s2)" "good s2" "shuffled lo hi ?ys zs"
      "\<forall>i j. lo \<le> i \<and> i < j \<and> j \<le> hi \<longrightarrow> le (zs ! i) (zs ! j)"
      using Suc.IH [of ?ys s1] True Suc.prems m(2) by auto
    have last: "zs ! Suc hi = xs ! m" using zs(3) m(4) Suc.prems by (simp add: shuffled_def)
    have "shuffled lo (Suc hi) xs zs" using shuffled_trans [OF ys shuffled_mono [OF zs(3)]] by simp
    moreover have "le (zs ! i) (zs ! j)" if "lo \<le> i" "i < j" "j \<le> Suc hi" for i j
    proof (cases "j = Suc hi")
      case True
      from calculation that obtain k where "lo \<le> k" "k \<le> Suc hi" "zs ! i = xs ! k"
        unfolding shuffled_def by (metis le_trans less_imp_le)
      with m(5) True last show ?thesis by simp
    qed (use zs(4) that in simp)
    ultimately show ?thesis using m(1) swap zs(1,2) True by (simp add: qsortShortsort.simps [of cmp lo "Suc hi"])
  qed
qed

lemma scan_up_spec:
  assumes "hi < length xs" "lo \<le> l" "l \<le> hi" "\<forall>i. lo < i \<and> i \<le> l \<longrightarrow> le (xs ! i) (xs ! lo)" "good s"
  shows "\<exists>l' s'. scan_up cmp lo hi l xs s = Some (l', s') \<and> good s' \<and> l < l' \<and> l' \<le> hi + 1
    \<and> (\<forall>i. lo < i \<and> i < l' \<longrightarrow> le (xs ! i) (xs ! lo)) \<and> (l' \<le> hi \<longrightarrow> le (xs ! lo) (xs ! l'))"
  using assms
proof (induction "hi - l" arbitrary: l s)
  case 0
  then show ?case by (auto simp: scan_up.simps [of cmp lo l l])
next
  case (Suc n)
  obtain c s1 where c: "cmp (xs ! (l + 1)) (xs ! lo) s = (c, s1)" by fastforce
  have good: "good s1" using stays_good [OF Suc.prems(5), of "xs ! (l + 1)" "xs ! lo"] by (simp only: c snd_conv)
  show ?case
  proof (cases "c \<le> 0")
    case True
    then have "le (xs ! (l + 1)) (xs ! lo)" using not_above [OF Suc.prems(5), of "xs ! (l + 1)" "xs ! lo"] c by simp
    then have "\<exists>l' s'. scan_up cmp lo hi (l + 1) xs s1 = Some (l', s') \<and> good s' \<and> l + 1 < l' \<and> l' \<le> hi + 1
        \<and> (\<forall>i. lo < i \<and> i < l' \<longrightarrow> le (xs ! i) (xs ! lo)) \<and> (l' \<le> hi \<longrightarrow> le (xs ! lo) (xs ! l'))"
      using Suc.hyps(2) Suc.prems good by (intro Suc.hyps(1)) (auto simp: le_Suc_eq)
    then show ?thesis using True Suc.hyps(2) Suc.prems c
      by (fastforce simp: scan_up.simps [of cmp lo hi l] compare_at_Some)
  next
    case False
    then have "le (xs ! lo) (xs ! (l + 1))" using not_below [OF Suc.prems(5), of "xs ! (l + 1)" "xs ! lo"] c by simp
    then show ?thesis using False Suc.hyps(2) Suc.prems c good
      by (auto simp: scan_up.simps [of cmp lo hi l] compare_at_Some)
  qed
qed

lemma scan_down_spec:
  assumes "hi < length xs" "lo < h" "h \<le> hi + 1" "\<forall>i. h \<le> i \<and> i \<le> hi \<longrightarrow> le (xs ! lo) (xs ! i)" "good s"
  shows "\<exists>h' s'. scan_down cmp lo h xs s = Some (h', s') \<and> good s' \<and> lo \<le> h' \<and> h' < h
    \<and> (\<forall>i. h' < i \<and> i \<le> hi \<longrightarrow> le (xs ! lo) (xs ! i)) \<and> (lo < h' \<longrightarrow> le (xs ! h') (xs ! lo))"
  using assms
proof (induction h arbitrary: s)
  case (Suc h)
  obtain c s1 where c: "cmp (xs ! h) (xs ! lo) s = (c, s1)" by fastforce
  have good: "good s1" using stays_good [OF Suc.prems(5), of "xs ! h" "xs ! lo"] by (simp add: c)
  show ?case
  proof (cases "lo < h \<and> c \<ge> 0")
    case True
    then have "le (xs ! lo) (xs ! h)" using not_below [OF Suc.prems(5), of "xs ! h" "xs ! lo"] c by simp
    then have "\<forall>i. h \<le> i \<and> i \<le> hi \<longrightarrow> le (xs ! lo) (xs ! i)" using Suc.prems(4) by (metis Suc_leI le_neq_implies_less)
    from Suc.IH [OF Suc.prems(1) _ _ this good] True Suc.prems c show ?thesis
      by (fastforce simp: compare_at_Some)
  next
    case False
    moreover have "le (xs ! h) (xs ! lo)" if "c < 0" using not_above [OF Suc.prems(5), of "xs ! h" "xs ! lo"] c that by simp
    ultimately show ?thesis using Suc.prems c good by (auto simp: compare_at_Some)
  qed
qed simp

lemma partition_spec:
  assumes "hi < length xs" "lo \<le> l" "l \<le> h" "l \<le> hi" "h \<le> hi + 1" "lo < h"
    and "\<forall>i. lo < i \<and> i \<le> l \<longrightarrow> le (xs ! i) (xs ! lo)" "\<forall>i. h \<le> i \<and> i \<le> hi \<longrightarrow> le (xs ! lo) (xs ! i)" "good s"
  shows "\<exists>l' h' ys s'. partition_loop cmp lo hi l h xs s = Some (l', h', ys, s')
    \<and> good s' \<and> lo \<le> h' \<and> h' < l' \<and> lo < l' \<and> l' \<le> hi + 1 \<and> h' \<le> hi \<and> shuffled lo hi xs ys
    \<and> (\<forall>i. lo < i \<and> i < l' \<longrightarrow> le (ys ! i) (ys ! lo)) \<and> (\<forall>i. h' < i \<and> i \<le> hi \<longrightarrow> le (ys ! lo) (ys ! i))"
  using assms
proof (induction h arbitrary: l xs s rule: less_induct)
  case (less h)
  obtain l1 s1 where l1: "scan_up cmp lo hi l xs s = Some (l1, s1)" "good s1" "l < l1" "l1 \<le> hi + 1"
    "\<forall>i. lo < i \<and> i < l1 \<longrightarrow> le (xs ! i) (xs ! lo)" "l1 \<le> hi \<longrightarrow> le (xs ! lo) (xs ! l1)"
    using scan_up_spec [OF less.prems(1,2,4,7,9)] by blast
  obtain h1 s2 where h1: "scan_down cmp lo h xs s1 = Some (h1, s2)" "good s2" "lo \<le> h1" "h1 < h"
    "\<forall>i. h1 < i \<and> i \<le> hi \<longrightarrow> le (xs ! lo) (xs ! i)" "lo < h1 \<longrightarrow> le (xs ! h1) (xs ! lo)"
    using scan_down_spec [OF less.prems(1,6,5,8) l1(2)] by blast
  note step = partition_loop.simps [of cmp lo hi l h xs s]
  show ?case
  proof (cases "h1 < l1")
    case True
    then show ?thesis using l1 h1 less.prems by (auto simp: step shuffled_refl)
  next
    case False
    let ?ys = "xs[l1 := xs ! h1, h1 := xs ! l1]"
    have lt: "lo < l1" "l1 \<le> h1" "h1 \<le> hi" "h1 < length xs" using False l1(3) h1(4) less.prems by auto
    have swap: "qsortSwap l1 h1 xs = Some ?ys" using lt by (intro qsortSwap_Some) auto
    have ys: "shuffled lo hi xs ?ys" using lt less.prems(1) by (intro shuffled_swap) auto
    have "\<forall>i. lo < i \<and> i \<le> l1 \<longrightarrow> le (?ys ! i) (?ys ! lo)" "\<forall>i. h1 \<le> i \<and> i \<le> hi \<longrightarrow> le (?ys ! lo) (?ys ! i)"
      using l1(5,6) h1(5,6) lt by (auto simp: nth_list_update)
    then obtain l' h' zs s' where rec: "partition_loop cmp lo hi l1 h1 ?ys s2 = Some (l', h', zs, s')" "good s'"
      "lo \<le> h'" "h' < l'" "lo < l'" "l' \<le> hi + 1" "h' \<le> hi" "shuffled lo hi ?ys zs"
      "\<forall>i. lo < i \<and> i < l' \<longrightarrow> le (zs ! i) (zs ! lo)" "\<forall>i. h' < i \<and> i \<le> hi \<longrightarrow> le (zs ! lo) (zs ! i)"
      using less.IH [OF h1(4), of ?ys l1 s2] lt less.prems h1(2) by auto
    then show ?thesis
      using l1(1) h1(1) swap False shuffled_trans [OF ys rec(8)] by (simp add: step)
  qed
qed

lemma round_spec:
  assumes wait: "waiting le n ((lo, hi) # stk) xs" and n: "n < 2 ^ 32" and good: "good s"
  shows "\<exists>todo stk' ys s'. qsort_round cmp lo hi stk xs s = Some (todo, stk', ys, s')
    \<and> good s' \<and> mset ys = mset xs \<and> waiting le n ((case todo of None \<Rightarrow> [] | Some sg \<Rightarrow> [sg]) @ stk') ys
    \<and> left_to_do ((case todo of None \<Rightarrow> [] | Some sg \<Rightarrow> [sg]) @ stk') < left_to_do ((lo, hi) # stk)"
proof (cases "hi - lo + 1 \<le> OS_QSORT_CUTOFF")
  case True
  obtain ys s1 where ys: "qsortShortsort cmp lo hi xs s = Some (ys, s1)" "good s1" "shuffled lo hi xs ys"
    "\<forall>i j. lo \<le> i \<and> i < j \<and> j \<le> hi \<longrightarrow> le (ys ! i) (ys ! j)"
    using qsortShortsort_spec [of lo hi xs s] waiting_rest(1,2) [OF wait] good by auto
  have "waiting le n ([] @ stk) ys"
    by (rule waiting_parts [OF wait ys(3)]) (use ys(4) waiting_rest(6) [OF wait] in auto)
  with True ys(1,2) shuffled_mset [OF ys(3)] waiting_rest(1) [OF wait] show ?thesis
    by (simp add: qsort_round_def)
next
  case False
  note old = waiting_rest [OF wait]
  let ?mid = "lo + (hi - lo + 1) div 2"
  let ?xs = "xs[?mid := xs ! lo, lo := xs ! ?mid]"
  have mid: "?mid \<le> hi" using old(1) by linarith
  have swap: "qsortSwap ?mid lo xs = Some ?xs" using mid old(1,2) by (intro qsortSwap_Some) linarith+
  have xs': "shuffled lo hi xs ?xs" using mid old(1,2) by (intro shuffled_swap) linarith+
  have start: "hi < length ?xs" "lo \<le> lo" "lo \<le> hi + 1" "lo \<le> hi" "hi + 1 \<le> hi + 1" "lo < hi + 1"
    "\<forall>i. lo < i \<and> i \<le> lo \<longrightarrow> le (?xs ! i) (?xs ! lo)" "\<forall>i. hi + 1 \<le> i \<and> i \<le> hi \<longrightarrow> le (?xs ! lo) (?xs ! i)"
    using old(1,2) by auto
  obtain l h ys s1 where part: "partition_loop cmp lo hi lo (hi + 1) ?xs s = Some (l, h, ys, s1)"
    "lo \<le> h" "h < l" "lo < l" "l \<le> hi + 1" "h \<le> hi" and ys: "shuffled lo hi ?xs ys"
    and good1: "good s1"
    and below: "\<forall>i. lo < i \<and> i < l \<longrightarrow> le (ys ! i) (ys ! lo)"
    and above: "\<forall>i. h < i \<and> i \<le> hi \<longrightarrow> le (ys ! lo) (ys ! i)"
    using partition_spec [OF start good] by blast
  let ?zs = "ys[lo := ys ! h, h := ys ! lo]"
  have len: "length ys = length xs" using shuffled_length [OF ys] by simp
  have swap2: "qsortSwap lo h ys = Some ?zs" using part(2,6) old(2) len by (intro qsortSwap_Some) linarith+
  have zs: "shuffled lo hi xs ?zs"
    using shuffled_trans [OF shuffled_trans [OF xs' ys]] shuffled_swap [of hi ys lo lo h] part(2,6) old(1,2) len
    by simp
  have pivot: "?zs ! h = ys ! lo" "h < length ys" using part(2,6) old(2) len by (auto simp: nth_list_update)
  have low: "le (?zs ! i) (ys ! lo)" if "lo \<le> i" "i < l" for i
    using that below part(2,3,6) old(2) len le_self [OF good] by (auto simp: nth_list_update)
  have high: "le (ys ! lo) (?zs ! i)" if "h \<le> i" "i \<le> hi" for i
    using that above part(2,3,6) old(2) len le_self [OF good] by (auto simp: nth_list_update)
  let ?left = "if lo + 1 < h then [(lo, h - 1)] else []" and ?right = "if l < hi then [(l, hi)] else []"
  have cover: "(\<exists>sg\<in>set ?left \<union> set ?right. fst sg \<le> i \<and> j \<le> snd sg) \<or> le (?zs ! i) (?zs ! j)"
    if "lo \<le> i" "i < j" "j \<le> hi" for i j
  proof -
    consider "j < h" | "l \<le> i" | "i < l" "h \<le> j" by linarith
    then show ?thesis
    proof cases
      case 3
      with low [of i] high [of j] that le_trans' show ?thesis by blast
    qed (use that in auto)
  qed
  have parts: "waiting le n (new @ stk) ?zs"
    if "new = ?left @ ?right \<or> new = ?right @ ?left" "shallow n (new @ stk)" for new
  proof (rule waiting_parts [OF wait zs])
    have new: "set new = set ?left \<union> set ?right" using that(1) by auto
    show "\<forall>i j. lo \<le> i \<and> i < j \<and> j \<le> hi \<longrightarrow> (\<exists>sg\<in>set new. fst sg \<le> i \<and> j \<le> snd sg) \<or> le (?zs ! i) (?zs ! j)"
      unfolding new using cover by blast
    show "\<forall>sg\<in>set new. lo \<le> fst sg \<and> fst sg < snd sg \<and> snd sg \<le> hi"
      unfolding new using part(2-6) by auto
    show "sorted_wrt apart new" using that(1) part(2-6) by (auto simp: apart_def)
  qed (rule that(2))
  have push: "push_segment sg stk = Some (sg # stk)" for sg
    using False by (intro push_segment_Some [OF wait n]) simp
  have mset: "mset ?zs = mset xs" using shuffled_mset [OF zs] .
  have todo: "left_to_do (?left @ ?right @ stk) < left_to_do ((lo, hi) # stk)"
    "left_to_do (?right @ ?left @ stk) < left_to_do ((lo, hi) # stk)"
    using part(2-6) old(1) by auto
  have run: "qsort_round cmp lo hi stk xs s =
      (if int h - 1 - int lo \<ge> int hi - int l
       then Some (if l < hi then Some (l, hi) else None, ?left @ stk, ?zs, s1)
       else Some (if lo + 1 < h then Some (lo, h - 1) else None, ?right @ stk, ?zs, s1))"
    unfolding qsort_round_def Let_def using False
    by (simp add: swap part(1) swap2 push del: One_nat_def)
  show ?thesis
  proof (cases "int h - 1 - int lo \<ge> int hi - int l")
    case True
    have "shallow n ((?right @ ?left) @ stk)"
      using True part(2-6) old(1,6)
      by (auto intro!: shallow_two [OF old(5,6)] shallow_one [OF old(5,6)] simp del: shallow.simps)
    from parts [OF _ this] have "waiting le n ((?right @ ?left) @ stk) ?zs" by blast
    with True mset good1 todo(2) show ?thesis unfolding run by (auto simp del: left_to_do_Cons)
  next
    case False
    have "shallow n ((?left @ ?right) @ stk)"
      using False part(2-6) old(1,6)
      by (auto intro!: shallow_two [OF old(5,6)] shallow_one [OF old(5,6)] simp del: shallow.simps)
    from parts [OF _ this] have "waiting le n ((?left @ ?right) @ stk) ?zs" by blast
    with False mset good1 todo(1) show ?thesis unfolding run by (auto simp del: left_to_do_Cons)
  qed
qed

lemma loop_spec:
  assumes "waiting le n ((lo, hi) # stk) xs" "n < 2 ^ 32" "good s"
  shows "\<exists>ys s'. qsort_loop cmp lo hi stk xs s = Some (ys, s') \<and> good s' \<and> mset ys = mset xs \<and> settled le {} ys"
  using assms(1,3)
proof (induction "left_to_do ((lo, hi) # stk)" arbitrary: lo hi stk xs s rule: less_induct)
  case less
  obtain todo stk' ys s1 where round: "qsort_round cmp lo hi stk xs s = Some (todo, stk', ys, s1)"
    "good s1" "mset ys = mset xs" "waiting le n ((case todo of None \<Rightarrow> [] | Some sg \<Rightarrow> [sg]) @ stk') ys"
    "left_to_do ((case todo of None \<Rightarrow> [] | Some sg \<Rightarrow> [sg]) @ stk') < left_to_do ((lo, hi) # stk)"
    using round_spec [OF less.prems(1) assms(2) less.prems(2)] by blast
  note step = qsort_loop.simps [of cmp lo hi stk xs s]
  show ?case
  proof (cases "(case todo of None \<Rightarrow> [] | Some sg \<Rightarrow> [sg]) @ stk'")
    case Nil
    with round show ?thesis by (cases todo) (auto simp: step waiting_def)
  next
    case (Cons sg rest)
    with round have "\<exists>zs s'. qsort_loop cmp (fst sg) (snd sg) rest ys s1 = Some (zs, s') \<and> good s' \<and> mset zs = mset ys
        \<and> settled le {} zs"
      by (intro less.hyps) auto
    with round Cons show ?thesis by (cases todo) (auto simp: step)
  qed
qed

lemma qsort_spec:
  assumes "length xs < 2 ^ 32" "good s"
  shows "\<exists>ys s'. qsort cmp xs s = Some (ys, s') \<and> good s' \<and> mset ys = mset xs \<and> sorted_wrt le ys"
proof (cases "length xs < 2")
  case True
  then show ?thesis using assms(2) by (cases xs) (auto simp: qsort_def)
next
  case False
  then have "waiting le (length xs) [(0, length xs - 1)] xs" by (auto simp: waiting_def settled_def)
  from loop_spec [OF this assms] False show ?thesis
    by (auto simp: qsort_def settled_def sorted_wrt_iff_nth_less)
qed

end

section \<open>Sorting with any comparison\<close>

interpretation any_comparison: comparison cmp "\<lambda>_ _. True" "\<lambda>_. True" for cmp
  by unfold_locales auto

text \<open>
  C26: whatever the comparison answers and however it changes the state - a script function that contradicts
  itself included - \<open>qsort\<close> returns, without an access outside of the array or of its stack of 30 segments,
  and leaves a permutation of the elements.
\<close>

theorem qsort_returns_permutation:
  assumes "length xs < 2 ^ 32"
  shows "\<exists>ys s'. qsort cmp xs s = Some (ys, s') \<and> mset ys = mset xs"
  using any_comparison.qsort_spec [of xs cmp s] assms by blast

theorem qsort_returns_permutation_witness:
  "\<exists>ys s'. qsort (\<lambda>_ _ n. (if even n then 1 else - 1, Suc n)) [7, 3, 3, 9, 1, 4, 8, 2, 6, 5 :: nat] 0 = Some (ys, s')
    \<and> mset ys = mset [7, 3, 3, 9, 1, 4, 8, 2, 6, 5]"
  by (rule qsort_returns_permutation) simp

text \<open>
  C27: with a comparison that agrees with a transitive relation, in the states that it can meet, the result of
  \<open>qsort\<close> is sorted by that relation.
\<close>

theorem qsort_sorts:
  assumes "length xs < 2 ^ 32" "good s"
    and "\<And>a b s. good s \<Longrightarrow> fst (cmp a b s) \<le> 0 \<Longrightarrow> le a b"
    and "\<And>a b s. good s \<Longrightarrow> 0 \<le> fst (cmp a b s) \<Longrightarrow> le b a"
    and "\<And>a b s. good s \<Longrightarrow> good (snd (cmp a b s))"
    and "\<And>a b c. le a b \<Longrightarrow> le b c \<Longrightarrow> le a c"
  shows "\<exists>ys s'. qsort cmp xs s = Some (ys, s') \<and> good s' \<and> mset ys = mset xs \<and> sorted_wrt le ys"
proof -
  have "comparison cmp le good" using assms(3-6) by unfold_locales
  then show ?thesis using assms(1,2) by (rule comparison.qsort_spec)
qed

theorem qsort_sorts_witness:
  "qsort (\<lambda>a b n. (a - b, Suc n)) [7, 3, 3, 9, 1, 4, 8, 2, 6, 5 :: int] 0 = Some ([1, 2, 3, 3, 4, 5, 6, 7, 8, 9], 27)
    \<and> sorted_wrt (\<le>) [1, 2, 3, 3, 4, 5, 6, 7, 8, 9 :: int]"
proof -
  have "qsort (\<lambda>a b n. (a - b, Suc n)) [7, 3, 3, 9, 1, 4, 8, 2, 6, 5 :: int] 0 = Some ([1, 2, 3, 3, 4, 5, 6, 7, 8, 9], 27)"
    by code_simp
  moreover have "\<exists>ys s'. qsort (\<lambda>a b n. (a - b, Suc n)) [7, 3, 3, 9, 1, 4, 8, 2, 6, 5 :: int] 0 = Some (ys, s')
      \<and> True \<and> mset ys = mset [7, 3, 3, 9, 1, 4, 8, 2, 6, 5] \<and> sorted_wrt (\<le>) ys"
    by (rule qsort_sorts [where good = "\<lambda>_. True"]) auto
  ultimately show ?thesis by simp
qed

end
