(* ===== verification/SortTable.thy ===== *)
theory SortTable
  imports QuickSort PropTable
begin

text \<open>
  \<open>Core::sortTable\<close> and \<open>Core::sortArray\<close> with the comparisons they are given.  Comparing is the work of the
  interpreter: \<open>op\<close> stands for \<open>pushOpResultValue(OP_COMPARE, ..)\<close> and \<open>popNumber\<close>, \<open>call\<close> for a call of the user's
  function on some arguments, \<open>getp\<close> for reading the named property.  All of them may change the table and the rest
  \<open>'w\<close> of the machine.
\<close>

section \<open>Comparisons\<close>

definition dbl_less :: "u64 \<Rightarrow> u64 \<Rightarrow> bool" where
  "dbl_less x y \<longleftrightarrow> \<not> dbl_is_nan x \<and> \<not> dbl_is_nan y \<and> dbl_key x < dbl_key y"

definition compareResult :: "u64 \<Rightarrow> int" where
  "compareResult num = (if dbl_less num 0 then - 1 else if dbl_less 0 num then 1 else 0)"

type_synonym ('a, 's) evaluation = "'a \<Rightarrow> 's \<Rightarrow> u64 \<times> 's"
type_synonym 'w machine = "tstate \<times> 'w"

definition compare_with :: "('a, 's) evaluation \<Rightarrow> 'a \<Rightarrow> 's \<Rightarrow> int \<times> 's" where
  "compare_with f args s = (case f args s of (num, s) \<Rightarrow> (compareResult num, s))"

definition comparePropValues :: "(os_value \<times> os_value, 'w machine) evaluation \<Rightarrow> (addr, 'w machine) comparator" where
  "comparePropValues op a b s = compare_with op (p_value (fst s) a, p_value (fst s) b) s"

definition comparePropValuesReverse :: "(os_value \<times> os_value, 'w machine) evaluation \<Rightarrow> (addr, 'w machine) comparator" where
  "comparePropValuesReverse op a b s = comparePropValues op b a s"

definition comparePropKeys :: "(os_value \<times> os_value, 'w machine) evaluation \<Rightarrow> (addr, 'w machine) comparator" where
  "comparePropKeys op a b s = compare_with op (p_index (fst s) a, p_index (fst s) b) s"

definition comparePropKeysReverse :: "(os_value \<times> os_value, 'w machine) evaluation \<Rightarrow> (addr, 'w machine) comparator" where
  "comparePropKeysReverse op a b s = comparePropKeys op b a s"

definition compareObjectProperties ::
  "(os_value \<times> os_value, 'w machine) evaluation \<Rightarrow> (os_value \<Rightarrow> bytes \<Rightarrow> 'w machine \<Rightarrow> os_value \<times> 'w machine) \<Rightarrow> bytes \<Rightarrow>
    (addr, 'w machine) comparator" where
  "compareObjectProperties op getp name a b s =
     (let (v, s) = getp (p_value (fst s) a) name s; (w, s) = getp (p_value (fst s) b) name s
      in compare_with op (v, w) s)"

definition compareObjectPropertiesReverse ::
  "(os_value \<times> os_value, 'w machine) evaluation \<Rightarrow> (os_value \<Rightarrow> bytes \<Rightarrow> 'w machine \<Rightarrow> os_value \<times> 'w machine) \<Rightarrow> bytes \<Rightarrow>
    (addr, 'w machine) comparator" where
  "compareObjectPropertiesReverse op getp name a b s = compareObjectProperties op getp name b a s"

definition compareUserPropValues :: "(os_value list, 'w machine) evaluation \<Rightarrow> (addr, 'w machine) comparator" where
  "compareUserPropValues call a b s =
     (let t = fst s in compare_with call [p_value t a, p_value t b, p_index t a, p_index t b] s)"

definition compareUserPropValuesReverse :: "(os_value list, 'w machine) evaluation \<Rightarrow> (addr, 'w machine) comparator" where
  "compareUserPropValuesReverse call a b s = compareUserPropValues call b a s"

definition compareUserPropKeys :: "(os_value list, 'w machine) evaluation \<Rightarrow> (addr, 'w machine) comparator" where
  "compareUserPropKeys call a b s =
     (let t = fst s in compare_with call [p_index t a, p_index t b, p_value t a, p_value t b] s)"

definition compareUserPropKeysReverse :: "(os_value list, 'w machine) evaluation \<Rightarrow> (addr, 'w machine) comparator" where
  "compareUserPropKeysReverse call a b s = compareUserPropKeys call b a s"

definition compareArrayValues :: "(os_value \<times> os_value, 's) evaluation \<Rightarrow> (os_value, 's) comparator" where
  "compareArrayValues op a b s = compare_with op (a, b) s"

definition compareArrayValuesReverse :: "(os_value \<times> os_value, 's) evaluation \<Rightarrow> (os_value, 's) comparator" where
  "compareArrayValuesReverse op a b s = compareArrayValues op b a s"

definition compareUserArrayValues :: "(os_value list, 's) evaluation \<Rightarrow> (os_value, 's) comparator" where
  "compareUserArrayValues call a b s = compare_with call [a, b] s"

definition compareUserArrayValuesReverse :: "(os_value list, 's) evaluation \<Rightarrow> (os_value, 's) comparator" where
  "compareUserArrayValuesReverse call a b s = compareUserArrayValues call b a s"

definition compareUserReverse :: "('a, 's) comparator \<Rightarrow> ('a, 's) comparator" where
  "compareUserReverse cmp a b s = cmp b a s"

section \<open>Sorting\<close>

text \<open>
  The copy of the property list has room for \<open>table->count\<close> nodes.  After the sort the count is read again: a
  comparison may have changed it, and an access past the copy is undefined.
\<close>

fun collect_props :: "links \<Rightarrow> nat \<Rightarrow> link \<Rightarrow> addr list option" where
  "collect_props nxt 0 None = Some []"
| "collect_props nxt 0 (Some cur) = None"
| "collect_props nxt (Suc room) None = None"
| "collect_props nxt (Suc room) (Some cur) = Option.bind (collect_props nxt room (nxt cur)) (\<lambda>props. Some (cur # props))"

function relink_props :: "addr list \<Rightarrow> nat \<Rightarrow> nat \<Rightarrow> tstate \<Rightarrow> tstate option" where
  "relink_props props i n s =
     (if i < n
      then os_assert (0 < i \<and> i < length props)
        (relink_props props (Suc i) n
          (s\<lparr>p_next := (p_next s)(props ! (i - 1) := Some (props ! i)),
             p_prev := (p_prev s)(props ! i := Some (props ! (i - 1)))\<rparr>))
      else Some s)"
  by pat_completeness auto
termination by (relation "measure (\<lambda>(props, i, n, s). n - i)") auto

function reorder_props :: "addr list \<Rightarrow> nat \<Rightarrow> nat \<Rightarrow> tstate \<Rightarrow> tstate option" where
  "reorder_props props i n s =
     (if i < n
      then os_assert (i < length props)
        (let cur = props ! i in
         Option.bind (setValue (p_index s cur) (VNumber (double_of_int (int i))) (t_core s)) (\<lambda>(index, c).
         let s = s\<lparr>p_index := (p_index s)(cur := index), t_core := c\<rparr>;
             slot = hash_slot (getValueHash c index) (head_mask (t_tab s))
         in os_assert (slot < length (heads (t_tab s)))
              (reorder_props props (Suc i) n
                (s\<lparr>p_hash_next := (p_hash_next s)(cur := heads (t_tab s) ! slot),
                   t_tab := (t_tab s)\<lparr>heads := (heads (t_tab s))[slot := Some cur]\<rparr>\<rparr>))))
      else Some s)"
  by pat_completeness auto
termination by (relation "measure (\<lambda>(props, i, n, s). n - i)") auto

definition sortTable :: "(addr, 'w machine) comparator \<Rightarrow> bool \<Rightarrow> 'w machine \<Rightarrow> 'w machine option" where
  "sortTable cmp reorder_keys m =
     (if chain_table.count (t_tab (fst m)) > 1 then
        Option.bind (collect_props (p_next (fst m)) (chain_table.count (t_tab (fst m))) (t_first (fst m))) (\<lambda>props.
        Option.bind (qsort cmp props m) (\<lambda>(props, s, w).
          let n = chain_table.count (t_tab s); last_i = max 1 n - 1;
              s = s\<lparr>t_first := Some (props ! 0), p_prev := (p_prev s)(props ! 0 := None)\<rparr>
          in Option.bind (relink_props props 1 n s) (\<lambda>s.
             let s = s\<lparr>p_next := (p_next s)(props ! last_i := None), t_last := Some (props ! last_i)\<rparr>
             in if reorder_keys then
                  Option.bind (reorder_props props 0 n
                      (s\<lparr>t_tab := (t_tab s)\<lparr>heads := replicate (head_mask (t_tab s) + 1) None\<rparr>\<rparr>))
                    (\<lambda>s. Some (s\<lparr>t_next_index := int n\<rparr>, w))
                else Some (s, w))))
      else Some m)"

text \<open>The buffer of an array is sorted in place; only the values are in the model.\<close>

definition sortArray :: "(os_value, 's) comparator \<Rightarrow> os_value list \<Rightarrow> 's \<Rightarrow> (os_value list \<times> 's) option" where
  "sortArray cmp vals s = qsort cmp vals s"

declare relink_props.simps [simp del] reorder_props.simps [simp del]

section \<open>The new order\<close>

lemma collect_props_chain: "chain nxt p ps \<Longrightarrow> collect_props nxt (length ps) p = Some ps"
  by (induction ps arbitrary: p) auto

lemma chain_links:
  assumes "xs \<noteq> []" "\<And>k. Suc k < length xs \<Longrightarrow> nxt (xs ! k) = Some (xs ! Suc k)" "nxt (last xs) = None"
  shows "chain nxt (Some (hd xs)) xs"
  using assms
proof (induction xs rule: list_nonempty_induct)
  case (cons x xs)
  have "nxt ((x # xs) ! 0) = Some ((x # xs) ! Suc 0)" using cons.hyps(1) by (intro cons.prems(1)) auto
  moreover have "chain nxt (Some (hd xs)) xs"
  proof (rule cons.IH)
    show "nxt (xs ! k) = Some (xs ! Suc k)" if "Suc k < length xs" for k
      using cons.prems(1) [of "Suc k"] that by simp
  qed (use cons.prems cons.hyps in simp)
  ultimately show ?case using cons.hyps(1) by (simp add: hd_conv_nth)
qed simp

lemma relink_props_spec:
  assumes "0 < i" "i \<le> length props" "distinct props"
    and "\<forall>k. Suc k < i \<longrightarrow> p_next s (props ! k) = Some (props ! Suc k) \<and> p_prev s (props ! Suc k) = Some (props ! k)"
  shows "\<exists>nx pv. relink_props props i (length props) s = Some (s\<lparr>p_next := nx, p_prev := pv\<rparr>)
    \<and> (\<forall>k. Suc k < length props \<longrightarrow> nx (props ! k) = Some (props ! Suc k) \<and> pv (props ! Suc k) = Some (props ! k))
    \<and> pv (props ! 0) = p_prev s (props ! 0)"
  using assms
proof (induction "length props - i" arbitrary: i s)
  case 0
  then show ?case
    by (intro exI [of _ "p_next s"] exI [of _ "p_prev s"]) (auto simp: relink_props.simps [of props i])
next
  case (Suc n)
  let ?s = "s\<lparr>p_next := (p_next s)(props ! (i - 1) := Some (props ! i)),
             p_prev := (p_prev s)(props ! i := Some (props ! (i - 1)))\<rparr>"
  have i: "i < length props" using Suc.hyps(2) by simp
  have "\<exists>nx pv. relink_props props (Suc i) (length props) ?s = Some (?s\<lparr>p_next := nx, p_prev := pv\<rparr>)
    \<and> (\<forall>k. Suc k < length props \<longrightarrow> nx (props ! k) = Some (props ! Suc k) \<and> pv (props ! Suc k) = Some (props ! k))
    \<and> pv (props ! 0) = p_prev ?s (props ! 0)"
  proof (rule Suc.hyps(1))
    show "\<forall>k. Suc k < Suc i \<longrightarrow> p_next ?s (props ! k) = Some (props ! Suc k) \<and> p_prev ?s (props ! Suc k) = Some (props ! k)"
    proof (intro allI impI)
      fix k assume "Suc k < Suc i"
      then consider "Suc k = i" | "Suc k < i" by linarith
      then show "p_next ?s (props ! k) = Some (props ! Suc k) \<and> p_prev ?s (props ! Suc k) = Some (props ! k)"
        using Suc.prems i by cases (auto simp: nth_eq_iff_index_eq)
    qed
  qed (use Suc.hyps(2) Suc.prems i in auto)
  moreover have "props ! 0 \<noteq> props ! i" using Suc.prems(1,3) i by (subst nth_eq_iff_index_eq) auto
  ultimately show ?case using Suc.prems(1) i by (simp add: relink_props.simps [of props i])
qed

lemma dlist_links:
  assumes "ps \<noteq> []" "\<And>k. Suc k < length ps \<Longrightarrow> p_next s (ps ! k) = Some (ps ! Suc k) \<and> p_prev s (ps ! Suc k) = Some (ps ! k)"
    and "t_first s = Some (ps ! 0)" "t_last s = Some (last ps)" "p_next s (last ps) = None" "p_prev s (ps ! 0) = None"
  shows "dlist s ps"
  unfolding dlist_def
proof
  show "chain (p_next s) (t_first s) ps"
    using chain_links [of ps "p_next s"] assms by (simp add: hd_conv_nth)
  have "p_prev s (rev ps ! k) = Some (rev ps ! Suc k)" if "Suc k < length (rev ps)" for k
  proof -
    have "p_prev s (ps ! Suc (length ps - Suc (Suc k))) = Some (ps ! (length ps - Suc (Suc k)))"
      using that by (intro assms(2) [THEN conjunct2]) auto
    then show ?thesis using that by (simp add: rev_nth Suc_diff_Suc)
  qed
  then show "chain (p_prev s) (t_last s) (rev ps)"
    using chain_links [of "rev ps" "p_prev s"] assms by (simp add: hd_rev last_rev hd_conv_nth)
qed

lemma prop_inv_reorder:
  assumes inv: "prop_inv s ps rest" and dl: "dlist s' ps'" and perm: "mset ps' = mset ps"
    and same: "s' = s\<lparr>t_first := t_first s', t_last := t_last s', p_next := p_next s', p_prev := p_prev s'\<rparr>"
  shows "prop_inv s' ps' rest"
proof -
  have fields: "t_tab s' = t_tab s" "t_core s' = t_core s" "p_index s' = p_index s" "p_value s' = p_value s"
      "p_hash_next s' = p_hash_next s" "t_iterators s' = t_iterators s" "it_next s' = it_next s"
      "it_prop s' = it_prop s" "it_attached s' = it_attached s"
    by (subst same; simp)+
  have members: "set ps' = set ps" using perm by (rule mset_eq_setD)
  have "count_list (props_refs s' ps') x = count_list (props_refs s ps) x" for x
  proof -
    have "mset (props_refs s' ps') = mset (props_refs s ps)"
    proof -
      have "mset (concat (map f xs)) = \<Sum>\<^sub># (image_mset (\<lambda>a. mset (f a)) (mset xs))" for f :: "addr \<Rightarrow> os_value list" and xs
        by (induction xs) auto
      then show ?thesis using perm by (simp add: props_refs_def fields)
    qed
    then show ?thesis by (metis count_mset)
  qed
  then have "counts_ok (t_core s') (props_refs s' ps' @ rest)"
    using inv counts_ok_perm [of "props_refs s' ps' @ rest" "props_refs s ps @ rest"]
    by (simp add: prop_inv_def fields count_list_append)
  moreover have "prop_key s' = prop_key s" by (simp add: prop_key_def fields fun_eq_iff)
  ultimately show ?thesis using inv dl unfolding prop_inv_def by (simp add: fields members)
qed

lemma table_contents_perm:
  assumes "mset ps' = mset ps" "p_index s' = p_index s" "p_value s' = p_value s"
  shows "mset (table_contents s' ps') = mset (table_contents s ps)"
  using assms by (simp add: table_contents_def)

lemma sortTable_step:
  assumes inv: "prop_inv s ps rest" and len: "length ps < 2 ^ 32" and cmp: "comparison cmp le (\<lambda>m. fst m = s)"
  shows "\<exists>ps' w' nx pv. sortTable cmp False (s, w) = Some (s\<lparr>t_first := (if ps' = [] then None else Some (hd ps')),
        t_last := (if ps' = [] then None else Some (last ps')), p_next := nx, p_prev := pv\<rparr>, w')
    \<and> dlist (s\<lparr>t_first := (if ps' = [] then None else Some (hd ps')),
        t_last := (if ps' = [] then None else Some (last ps')), p_next := nx, p_prev := pv\<rparr>) ps'
    \<and> mset ps' = mset ps \<and> sorted_wrt le ps'"
proof -
  have dl: "dlist s ps" using inv by (simp add: prop_inv_def)
  have count: "chain_table.count (t_tab s) = length ps" using inv by (rule prop_inv_parts)
  show ?thesis
  proof (cases "length ps > 1")
    case False
    note fl = dlist_first_last [OF dl]
    have "s = s\<lparr>t_first := (if ps = [] then None else Some (hd ps)),
        t_last := (if ps = [] then None else Some (last ps)), p_next := p_next s, p_prev := p_prev s\<rparr>"
      using fl by (cases ps) auto
    moreover have "sorted_wrt le ps" using False by (cases ps) auto
    ultimately show ?thesis
      using False dl count
      by (intro exI [of _ ps] exI [of _ w] exI [of _ "p_next s"] exI [of _ "p_prev s"]) (simp add: sortTable_def)
  next
    case True
    obtain ps' m where m: "qsort cmp ps (s, w) = Some (ps', m)" "fst m = s" "mset ps' = mset ps" "sorted_wrt le ps'"
      using comparison.qsort_spec [OF cmp len, of "(s, w)"] by auto
    obtain w' where w: "m = (s, w')" using m(2) by (cases m) auto
    have len': "length ps' = length ps" using m(3) by (rule mset_eq_length)
    then have ne: "ps' \<noteq> []" using True by auto
    have dist: "distinct ps'" using prop_inv_distinct [OF inv] m(3) by (metis mset_eq_imp_distinct_iff)
    let ?s = "s\<lparr>t_first := Some (ps' ! 0), p_prev := (p_prev s)(ps' ! 0 := None)\<rparr>"
    obtain nx pv where r: "relink_props ps' 1 (length ps') ?s = Some (?s\<lparr>p_next := nx, p_prev := pv\<rparr>)"
      "\<forall>k. Suc k < length ps' \<longrightarrow> nx (ps' ! k) = Some (ps' ! Suc k) \<and> pv (ps' ! Suc k) = Some (ps' ! k)"
      "pv (ps' ! 0) = None"
      using relink_props_spec [of 1 ps' ?s] dist True len' by auto
    have last: "last ps' = ps' ! (length ps' - 1)" using ne by (rule last_conv_nth)
    let ?nx = "nx(last ps' := None)"
    let ?t = "s\<lparr>t_first := Some (hd ps'), t_last := Some (last ps'), p_next := ?nx, p_prev := pv\<rparr>"
    have "?nx (ps' ! k) = Some (ps' ! Suc k)" if "Suc k < length ps'" for k
      using r(2) that dist by (simp add: last nth_eq_iff_index_eq)
    then have "dlist ?t ps'" using ne r(2,3) by (intro dlist_links) (simp_all add: hd_conv_nth)
    moreover have "sortTable cmp False (s, w) = Some (?t, w')"
      using True count m(1) w len' r(1) collect_props_chain [of "p_next s" "t_first s" ps] dl ne
      by (simp add: sortTable_def Let_def last hd_conv_nth dlist_def max_def)
    ultimately show ?thesis
      using m(3,4) ne by (intro exI [of _ ps'] exI [of _ w'] exI [of _ ?nx] exI [of _ pv]) simp
  qed
qed

lemma comparison_values:
  assumes "\<And>u v m. fst m = s \<Longrightarrow> fst (snd (op (u, v) m)) = s"
    and "\<And>u v m. fst m = s \<Longrightarrow> \<not> dbl_less 0 (fst (op (u, v) m)) \<Longrightarrow> le u v"
    and "\<And>u v m. fst m = s \<Longrightarrow> \<not> dbl_less (fst (op (u, v) m)) 0 \<Longrightarrow> le v u"
    and "\<And>u v w. le u v \<Longrightarrow> le v w \<Longrightarrow> le u w"
  shows "comparison (comparePropValues op) (\<lambda>a b. le (p_value s a) (p_value s b)) (\<lambda>m. fst m = s)"
proof -
  have step: "comparePropValues op a b m =
      (let r = op (p_value (fst m) a, p_value (fst m) b) m in (compareResult (fst r), snd r))" for a b m
    by (simp add: comparePropValues_def compare_with_def split_beta Let_def)
  have sign: "compareResult x \<le> 0 \<longleftrightarrow> \<not> dbl_less 0 x" "0 \<le> compareResult x \<longleftrightarrow> \<not> dbl_less x 0" for x
    by (auto simp: compareResult_def dbl_less_def)
  show ?thesis
    using assms(4) by unfold_locales (auto simp: step sign Let_def assms(1-3))
qed

section \<open>Sorting a table\<close>

text \<open>
  C25: \<open>sortTable\<close> with a comparison that leaves the table alone and agrees with a transitive relation relinks the
  same properties in sorted order: the table stays well formed with exact reference counts, its contents are permuted,
  every lookup finds what it found before and every iterator stays on its property.
\<close>

theorem sortTable_sorts:
  assumes "prop_inv s ps rest" "length ps < 2 ^ 32"
    and "\<And>a b m. fst m = s \<Longrightarrow> fst (snd (cmp a b m)) = s"
    and "\<And>a b m. fst m = s \<Longrightarrow> fst (cmp a b m) \<le> 0 \<Longrightarrow> le a b"
    and "\<And>a b m. fst m = s \<Longrightarrow> 0 \<le> fst (cmp a b m) \<Longrightarrow> le b a"
    and "\<And>a b c. le a b \<Longrightarrow> le b c \<Longrightarrow> le a c"
  shows "\<exists>s' w' ps'. sortTable cmp False (s, w) = Some (s', w') \<and> prop_inv s' ps' rest \<and> sorted_wrt le ps'
    \<and> mset (table_contents s' ps') = mset (table_contents s ps)
    \<and> (\<forall>index. table_get index s' = table_get index s) \<and> it_prop s' = it_prop s"
proof -
  have "comparison cmp le (\<lambda>m. fst m = s)" using assms(3-6) by unfold_locales
  from sortTable_step [OF assms(1,2) this, of w] obtain ps' w' f l nx pv where
    r: "sortTable cmp False (s, w) = Some (s\<lparr>t_first := f, t_last := l, p_next := nx, p_prev := pv\<rparr>, w')"
      "dlist (s\<lparr>t_first := f, t_last := l, p_next := nx, p_prev := pv\<rparr>) ps'" "mset ps' = mset ps" "sorted_wrt le ps'"
    by blast
  let ?s = "s\<lparr>t_first := f, t_last := l, p_next := nx, p_prev := pv\<rparr>"
  have "prop_inv ?s ps' rest" by (rule prop_inv_reorder [OF assms(1) r(2,3)]) simp
  moreover have "table_get index ?s = table_get index s" for index by (simp add: table_get_def)
  moreover have "mset (table_contents ?s ps') = mset (table_contents s ps)"
    by (rule table_contents_perm [OF r(3)]) simp_all
  ultimately show ?thesis using r(1,4)
    by (intro exI [of _ ?s] exI [of _ w'] exI [of _ ps']) simp
qed

text \<open>A table with the keys 0, 1 and 2 and the values 2, 1 and 0, built from an empty one.\<close>

definition sample_number :: "int \<Rightarrow> os_value" where "sample_number i = VNumber (double_of_int i)"

definition sample_table :: "tstate option" where
  "sample_table =
     Option.bind (addTableProperty 5 (sample_number 0) (sample_number 2) (newTable initial_core)) (\<lambda>s.
     Option.bind (addTableProperty 6 (sample_number 1) (sample_number 1) s) (\<lambda>s.
       addTableProperty 7 (sample_number 2) (sample_number 0) s))"

text \<open>A comparison function of the user that adds a property to the table it is sorting.\<close>

definition adding_call :: "(os_value list, unit machine) evaluation" where
  "adding_call args m = (0, (case addTableProperty 9 (sample_number 8) VNull (fst m) of Some s \<Rightarrow> s | None \<Rightarrow> fst m), ())"

declare rehash_list.simps [code] walk_chain.simps [code]

text \<open>
  Sorting with a comparison function that adds a property to the table reads past the end of the copy of the
  property list: the count is read again after the sort.
\<close>

theorem sortTable_growing_undefined:
  "Option.bind sample_table (\<lambda>s. sortTable (compareUserPropValues adding_call) False (s, ())) = None
    \<and> sample_table \<noteq> None"
proof
  show "Option.bind sample_table (\<lambda>s. sortTable (compareUserPropValues adding_call) False (s, ())) = None"
    by code_simp
  have "map_option (\<lambda>s. t_first s) sample_table = Some (Some 5)" by code_simp
  then show "sample_table \<noteq> None" by auto
qed

lemma sample_numbers:
  "\<not> OS_EQUAL_EXACTLY c (sample_number 1) (sample_number 0)"
  "\<not> OS_EQUAL_EXACTLY c (sample_number 2) (sample_number 0)"
  "\<not> OS_EQUAL_EXACTLY c (sample_number 2) (sample_number 1)"
  "plain_key (sample_number 0)" "plain_key (sample_number 1)" "plain_key (sample_number 2)"
  "next_index_after (sample_number 0) 0 = Some 1" "next_index_after (sample_number 1) 1 = Some 2"
  "next_index_after (sample_number 2) 2 = Some 3"
proof -
  have "\<not> dbl_eq (double_of_int 1) (double_of_int 0)" "\<not> dbl_eq (double_of_int 2) (double_of_int 0)"
    "\<not> dbl_eq (double_of_int 2) (double_of_int 1)" by code_simp+
  then show "\<not> OS_EQUAL_EXACTLY c (sample_number 1) (sample_number 0)"
    "\<not> OS_EQUAL_EXACTLY c (sample_number 2) (sample_number 0)"
    "\<not> OS_EQUAL_EXACTLY c (sample_number 2) (sample_number 1)"
    by (simp_all add: OS_EQUAL_EXACTLY_def sample_number_def)
  show "plain_key (sample_number 0)" "plain_key (sample_number 1)" "plain_key (sample_number 2)"
    unfolding plain_key_def sample_number_def by code_simp+
  show "next_index_after (sample_number 0) 0 = Some 1" "next_index_after (sample_number 1) 1 = Some 2"
    "next_index_after (sample_number 2) 2 = Some 3" by code_simp+
qed

lemma sample_table_inv:
  "\<exists>s. sample_table = Some s \<and> prop_inv s [5, 6, 7] [] \<and> map (p_value s) [5, 6, 7] = map sample_number [2, 1, 0]"
proof -
  have live: "sample_number i \<noteq> VGC x" for i x by (simp add: sample_number_def)
  have i0: "t_next_index (newTable initial_core) = 0" by (simp add: newTable_def)
  obtain s1 where s1: "addTableProperty 5 (sample_number 0) (sample_number 2) (newTable initial_core) = Some s1"
      "prop_inv s1 [5] []" "p_index s1 5 = sample_number 0" "p_value s1 5 = sample_number 2" "t_next_index s1 = 1"
    using addTableProperty_step [OF initial_table, of 5 "sample_number 0" "sample_number 2" 1] sample_numbers live i0
    by (auto simp: props_refs_def)
  obtain s2 where s2: "addTableProperty 6 (sample_number 1) (sample_number 1) s1 = Some s2"
      "prop_inv s2 [5, 6] []" "p_index s2 5 = sample_number 0" "p_value s2 5 = sample_number 2" "t_next_index s2 = 2"
      "p_index s2 6 = sample_number 1" "p_value s2 6 = sample_number 1"
    using addTableProperty_step [OF s1(2), of 6 "sample_number 1" "sample_number 1" 2] sample_numbers live s1
    by (auto simp: props_refs_def)
  obtain s3 where "addTableProperty 7 (sample_number 2) (sample_number 0) s2 = Some s3"
      "prop_inv s3 [5, 6, 7] []" "p_value s3 5 = sample_number 2" "p_value s3 6 = sample_number 1"
      "p_value s3 7 = sample_number 0"
    using addTableProperty_step [OF s2(2), of 7 "sample_number 2" "sample_number 0" 3] sample_numbers live s2
    by (auto simp: props_refs_def)
  with s1(1) s2(1) show ?thesis by (simp add: sample_table_def)
qed

text \<open>A comparison of numbers for the sample, by the order of their patterns; other values come with the zeros.\<close>

definition sample_rank :: "os_value \<Rightarrow> int" where
  "sample_rank v = (case v of VNumber x \<Rightarrow> dbl_key x | _ \<Rightarrow> 0)"

definition sample_op :: "(os_value \<times> os_value, unit machine) evaluation" where
  "sample_op args m = (double_of_int (sgn (sample_rank (fst args) - sample_rank (snd args))), m)"

lemma sample_op_sign:
  "dbl_less 0 (fst (sample_op (u, v) m)) \<longleftrightarrow> sample_rank v < sample_rank u"
  "dbl_less (fst (sample_op (u, v) m)) 0 \<longleftrightarrow> sample_rank u < sample_rank v"
proof -
  have sign: "dbl_less 0 (double_of_int 1)" "\<not> dbl_less 0 (double_of_int 0)" "\<not> dbl_less 0 (double_of_int (- 1))"
    "\<not> dbl_less (double_of_int 1) 0" "\<not> dbl_less (double_of_int 0) 0" "dbl_less (double_of_int (- 1)) 0" by code_simp+
  show "dbl_less 0 (fst (sample_op (u, v) m)) \<longleftrightarrow> sample_rank v < sample_rank u"
    "dbl_less (fst (sample_op (u, v) m)) 0 \<longleftrightarrow> sample_rank u < sample_rank v"
    using sign by (cases "sample_rank u" "sample_rank v" rule: linorder_cases; simp add: sample_op_def)+
qed

theorem sortTable_sorts_witness:
  "\<exists>s s' w' ps'. sample_table = Some s \<and> sortTable (comparePropValues sample_op) False (s, ()) = Some (s', w')
    \<and> prop_inv s' ps' [] \<and> sorted_wrt (\<lambda>a b. sample_rank (p_value s a) \<le> sample_rank (p_value s b)) ps'
    \<and> mset (table_contents s' ps') = mset (table_contents s [5, 6, 7])"
proof -
  obtain s where s: "sample_table = Some s" "prop_inv s [5, 6, 7] []" using sample_table_inv by blast
  let ?le = "\<lambda>a b. sample_rank (p_value s a) \<le> sample_rank (p_value s b)"
  have cmp: "comparison (comparePropValues sample_op) ?le (\<lambda>m. fst m = s)"
    by (rule comparison_values) (auto simp: sample_op_sign, simp add: sample_op_def)
  note laws = comparison.stays_good [OF cmp] comparison.not_above [OF cmp] comparison.not_below [OF cmp]
    comparison.le_trans' [OF cmp]
  have "\<exists>s' w' ps'. sortTable (comparePropValues sample_op) False (s, ()) = Some (s', w') \<and> prop_inv s' ps' []
      \<and> sorted_wrt ?le ps' \<and> mset (table_contents s' ps') = mset (table_contents s [5, 6, 7])
      \<and> (\<forall>index. table_get index s' = table_get index s) \<and> it_prop s' = it_prop s"
    by (rule sortTable_sorts [OF s(2)]) (use laws in auto)
  with s(1) show ?thesis by blast
qed

end
