(* ===== verification/ValueStack.thy ===== *)
theory ValueStack
  imports RefTables
begin

text \<open>
  The value stack of \<open>OS::Core\<close>: the buffer \<open>stack_values\<close> with its capacity and count, its growth,
  which moves the buffer and re-aims the local variables of every running function at it, and the
  operations that remove, move, exchange and insert values by non-negative or negative offset.

  \<open>malloc\<close> is an argument: every operation that may grow the buffer takes the address of the new block.
  Addresses count values, so that \<open>buf + n\<close> is \<open>base + n\<close>.  A failed \<open>OS_ASSERT\<close>, an access outside
  the buffer and a signed overflow of the capacity are the result \<open>None\<close>.  The values of other theories
  see the stack as the list of its first \<open>count\<close> values; \<open>stk\<close> is that view, and the theorem shows that
  the operations act on it as the list operations they stand for.
\<close>

section \<open>State\<close>

text \<open>The fields of \<open>StackFunction\<close> that growth uses: where its locals lie and the pointer to them.\<close>

record stack_frame =
  locals_stack_pos :: int
  locals_values :: int

record vstack =
  vs_base :: int
  vs_buf :: "os_value list"
  vs_count :: int
  vs_capacity :: int
  call_stack_funcs :: "stack_frame list"
  stack_func :: "nat option"
  stack_func_locals :: int

definition empty_vstack :: vstack where
  "empty_vstack = \<lparr>vs_base = 0, vs_buf = [], vs_count = 0, vs_capacity = 0, call_stack_funcs = [],
     stack_func = None, stack_func_locals = 0\<rparr>"

text \<open>\<open>memmove\<close> of \<open>n\<close> values inside the buffer.\<close>

definition os_memmove :: "int \<Rightarrow> int \<Rightarrow> int \<Rightarrow> 'a list \<Rightarrow> 'a list option" where
  "os_memmove dst src n buf =
     os_assert (0 \<le> dst \<and> 0 \<le> src \<and> 0 \<le> n \<and> dst + n \<le> int (length buf) \<and> src + n \<le> int (length buf))
       (Some (take (nat dst) buf @ take (nat n) (drop (nat src) buf) @ drop (nat (dst + n)) buf))"

definition buf_get :: "int \<Rightarrow> 'a list \<Rightarrow> 'a option" where
  "buf_get i buf = os_assert (0 \<le> i \<and> i < int (length buf)) (Some (buf ! nat i))"

definition buf_set :: "int \<Rightarrow> 'a \<Rightarrow> 'a list \<Rightarrow> 'a list option" where
  "buf_set i v buf = os_assert (0 \<le> i \<and> i < int (length buf)) (Some (buf[nat i := v]))"

section \<open>Operations\<close>

definition getStackOffs :: "int \<Rightarrow> vstack \<Rightarrow> int" where
  "getStackOffs offs s = (if offs < 0 then vs_count s + offs else offs)"

definition OS_REGISTER_GLOBALS :: int where "OS_REGISTER_GLOBALS = 0x10000000"
definition OS_REGISTER_USERPOOL :: int where "OS_REGISTER_USERPOOL = 0x10000001"

definition getStackValue :: "os_value \<Rightarrow> os_value \<Rightarrow> int \<Rightarrow> vstack \<Rightarrow> os_value option" where
  "getStackValue global_vars user_pool offs s =
     (let offs = (if offs < 0 then vs_count s + offs else offs)
      in if offs \<ge> 0 \<and> offs < vs_count s then buf_get offs (vs_buf s)
         else if offs = OS_REGISTER_GLOBALS then Some global_vars
         else if offs = OS_REGISTER_USERPOOL then Some user_pool
         else Some VNull)"

definition grown_capacity :: "int \<Rightarrow> int \<Rightarrow> int" where
  "grown_capacity capacity new_capacity =
     (let c = (capacity * 2 + 16) AND NOT 15
      in if c < new_capacity then (new_capacity + 16) AND NOT 15 else c)"

text \<open>
  The fresh cells of the block are not initialised; they are given as \<open>VNull\<close>, which nothing reads
  before it is written.
\<close>

definition growStackValues :: "int \<Rightarrow> int \<Rightarrow> vstack \<Rightarrow> vstack option" where
  "growStackValues new_base new_capacity s =
     os_assert (vs_capacity s < new_capacity)
    (os_assert (vs_capacity s * 2 + 16 < 2 ^ 31 \<and> new_capacity + 16 < 2 ^ 31)
      (let capacity = grown_capacity (vs_capacity s) new_capacity;
           frames = map (\<lambda>f. f\<lparr>locals_values := new_base + locals_stack_pos f\<rparr>) (call_stack_funcs s)
       in os_assert (\<forall>f \<in> set (call_stack_funcs s). locals_stack_pos f \<ge> 0)
         (Some (s\<lparr>vs_capacity := capacity, vs_base := new_base,
                  vs_buf := take (nat (vs_count s)) (vs_buf s) @ replicate (nat (capacity - vs_count s)) VNull,
                  call_stack_funcs := frames,
                  stack_func_locals := (case stack_func s of None \<Rightarrow> stack_func_locals s
                                        | Some i \<Rightarrow> locals_values (frames ! i))\<rparr>))))"

definition reserveStackValues :: "int \<Rightarrow> int \<Rightarrow> vstack \<Rightarrow> vstack option" where
  "reserveStackValues new_base new_capacity s =
     (if vs_capacity s < new_capacity then growStackValues new_base new_capacity s else Some s)"

definition pushStackValue :: "int \<Rightarrow> os_value \<Rightarrow> vstack \<Rightarrow> vstack option" where
  "pushStackValue new_base val s =
     Option.bind (if vs_capacity s < vs_count s + 1 then growStackValues new_base (vs_count s + 1) s else Some s)
       (\<lambda>s. Option.bind (buf_set (vs_count s) val (vs_buf s)) (\<lambda>buf.
          Some (s\<lparr>vs_buf := buf, vs_count := vs_count s + 1\<rparr>)))"

definition removeStackValues :: "int \<Rightarrow> int \<Rightarrow> vstack \<Rightarrow> vstack option" where
  "removeStackValues offs cnt s =
     (if cnt \<le> 0 then os_assert (cnt = 0) (Some s)
      else
        let start = (if offs < 0 then vs_count s + offs else offs) in
        os_assert (\<not> (start < 0 \<or> start \<ge> vs_count s))
          (let end = start + cnt in
           if end \<ge> vs_count s then os_assert (end = vs_count s) (Some (s\<lparr>vs_count := start\<rparr>))
           else
             let cnt = vs_count s - end in
             Option.bind
               (if cnt = 1 then Option.bind (buf_get end (vs_buf s)) (\<lambda>v. buf_set start v (vs_buf s))
                else os_memmove start end cnt (vs_buf s))
               (\<lambda>buf. Some (s\<lparr>vs_buf := buf, vs_count := vs_count s - (end - start)\<rparr>))))"

definition removeStackValue :: "int \<Rightarrow> vstack \<Rightarrow> vstack option" where
  "removeStackValue offs s = removeStackValues offs 1 s"

definition removeAllStackValues :: "vstack \<Rightarrow> vstack" where
  "removeAllStackValues s = s\<lparr>vs_count := 0\<rparr>"

definition pop :: "int \<Rightarrow> vstack \<Rightarrow> vstack option" where
  "pop cnt s =
     (if cnt \<ge> vs_count s then os_assert (cnt = vs_count s) (Some (s\<lparr>vs_count := 0\<rparr>))
      else if cnt > 0 then Some (s\<lparr>vs_count := vs_count s - cnt\<rparr>)
      else os_assert (cnt = 0) (Some s))"

definition moveStackValues :: "int \<Rightarrow> int \<Rightarrow> int \<Rightarrow> vstack \<Rightarrow> vstack option" where
  "moveStackValues offs cnt new_offs s =
     (if cnt \<le> 0 then os_assert (cnt = 0) (Some s)
      else
        let offs = (if offs < 0 then vs_count s + offs else offs) in
        os_assert (\<not> (offs < 0 \<or> offs \<ge> vs_count s)) (os_assert (\<not> offs + cnt > vs_count s)
          (let new_offs = (if new_offs < 0 then vs_count s + new_offs else new_offs) in
           os_assert (\<not> (new_offs < 0 \<or> new_offs \<ge> vs_count s)) (os_assert (\<not> new_offs + cnt > vs_count s)
             (let temp_values = take (nat cnt) (drop (nat offs) (vs_buf s)) in
              Option.bind
                (if new_offs > offs then os_memmove offs (offs + cnt) (new_offs - offs) (vs_buf s)
                 else os_memmove (new_offs + cnt) new_offs (offs - new_offs) (vs_buf s))
                (\<lambda>buf. Some (s\<lparr>vs_buf := take (nat new_offs) buf @ temp_values
                                            @ drop (nat (new_offs + cnt)) buf\<rparr>)))))))"

definition moveStackValue :: "int \<Rightarrow> int \<Rightarrow> vstack \<Rightarrow> vstack option" where
  "moveStackValue offs new_offs s =
     (let offs = (if offs < 0 then vs_count s + offs else offs) in
      os_assert (\<not> (offs < 0 \<or> offs \<ge> vs_count s))
        (let new_offs = (if new_offs < 0 then vs_count s + new_offs else new_offs) in
         os_assert (\<not> (new_offs < 0 \<or> new_offs \<ge> vs_count s))
           (Option.bind (buf_get offs (vs_buf s)) (\<lambda>val.
            Option.bind
              (if new_offs > offs then os_memmove offs (offs + 1) (new_offs - offs) (vs_buf s)
               else os_memmove (new_offs + 1) new_offs (offs - new_offs) (vs_buf s))
              (\<lambda>buf. Option.bind (buf_set new_offs val buf) (\<lambda>buf. Some (s\<lparr>vs_buf := buf\<rparr>)))))))"

definition exchangeStackValues :: "int \<Rightarrow> vstack \<Rightarrow> vstack option" where
  "exchangeStackValues offs s =
     (let offs = (if offs < 0 then vs_count s + offs else offs) in
      os_assert (\<not> (offs < 0 \<or> offs \<ge> vs_count s - 1))
        (Option.bind (buf_get offs (vs_buf s)) (\<lambda>temp.
         Option.bind (buf_get (offs + 1) (vs_buf s)) (\<lambda>nxt.
         Option.bind (buf_set offs nxt (vs_buf s)) (\<lambda>buf.
         Option.bind (buf_set (offs + 1) temp buf) (\<lambda>buf. Some (s\<lparr>vs_buf := buf\<rparr>)))))))"

definition insertValue :: "int \<Rightarrow> os_value \<Rightarrow> int \<Rightarrow> vstack \<Rightarrow> vstack option" where
  "insertValue new_base val offs s =
     (let offs = (if offs < 0 then vs_count s + offs else offs) in
      Option.bind (reserveStackValues new_base (vs_count s + 1) s) (\<lambda>s.
        let s = s\<lparr>vs_count := vs_count s + 1\<rparr> in
        os_assert (\<not> (offs < 0 \<or> offs \<ge> vs_count s))
          (let cnt = vs_count s - offs - 1 in
           Option.bind (if cnt > 0 then os_memmove (offs + 1) offs cnt (vs_buf s) else Some (vs_buf s)) (\<lambda>buf.
           Option.bind (buf_set offs val buf) (\<lambda>buf. Some (s\<lparr>vs_buf := buf\<rparr>))))))"

section \<open>The stack as a list\<close>

definition stk :: "vstack \<Rightarrow> os_value list" where
  "stk s = take (nat (vs_count s)) (vs_buf s)"

text \<open>The pointers to the locals of the running functions are those of the buffer.\<close>

definition frames_ok :: "vstack \<Rightarrow> bool" where
  "frames_ok s \<longleftrightarrow>
     (\<forall>f \<in> set (call_stack_funcs s). 0 \<le> locals_stack_pos f \<and> locals_values f = vs_base s + locals_stack_pos f)
     \<and> (case stack_func s of None \<Rightarrow> True
        | Some i \<Rightarrow> i < length (call_stack_funcs s) \<and> stack_func_locals s = locals_values (call_stack_funcs s ! i))"

definition stack_inv :: "vstack \<Rightarrow> bool" where
  "stack_inv s \<longleftrightarrow> 0 \<le> vs_count s \<and> vs_count s \<le> vs_capacity s \<and> vs_capacity s = int (length (vs_buf s))
     \<and> frames_ok s"

lemma stack_inv_length: "stack_inv s \<Longrightarrow> vs_count s = int (length (stk s))"
  by (auto simp: stack_inv_def stk_def)

datatype stack_op =
  Push os_value | Insert os_value int | Remove int int | RemoveAll | Pop int
| MoveBlock int int int | MoveOne int int | Exchange int

definition exec_op :: "int \<Rightarrow> stack_op \<Rightarrow> vstack \<Rightarrow> vstack option" where
  "exec_op new_base op s =
     (case op of
        Push v \<Rightarrow> pushStackValue new_base v s
      | Insert v offs \<Rightarrow> insertValue new_base v offs s
      | Remove offs n \<Rightarrow> removeStackValues offs n s
      | RemoveAll \<Rightarrow> Some (removeAllStackValues s)
      | Pop n \<Rightarrow> pop n s
      | MoveBlock offs n new_offs \<Rightarrow> moveStackValues offs n new_offs s
      | MoveOne offs new_offs \<Rightarrow> moveStackValue offs new_offs s
      | Exchange offs \<Rightarrow> exchangeStackValues offs s)"

text \<open>What the operations do to the list; offsets are resolved first, out of range is \<open>None\<close>.\<close>

definition abs_offs :: "int \<Rightarrow> 'a list \<Rightarrow> int" where
  "abs_offs offs xs = (if offs < 0 then int (length xs) + offs else offs)"

definition cut :: "nat \<Rightarrow> nat \<Rightarrow> 'a list \<Rightarrow> 'a list" where
  "cut i n xs = take i xs @ drop (i + n) xs"

definition paste :: "nat \<Rightarrow> 'a list \<Rightarrow> 'a list \<Rightarrow> 'a list" where
  "paste i ys xs = take i xs @ ys @ drop i xs"

definition block_at :: "nat \<Rightarrow> nat \<Rightarrow> 'a list \<Rightarrow> 'a list" where
  "block_at i n xs = take n (drop i xs)"

definition move_spec :: "int \<Rightarrow> int \<Rightarrow> int \<Rightarrow> 'a list \<Rightarrow> 'a list option" where
  "move_spec offs n new_offs xs =
     (let i = abs_offs offs xs; j = abs_offs new_offs xs in
      if 0 \<le> i \<and> i + n \<le> int (length xs) \<and> 0 \<le> j \<and> j + n \<le> int (length xs)
      then Some (paste (nat j) (block_at (nat i) (nat n) xs) (cut (nat i) (nat n) xs)) else None)"

definition op_spec :: "stack_op \<Rightarrow> os_value list \<Rightarrow> os_value list option" where
  "op_spec op xs =
     (case op of
        Push v \<Rightarrow> Some (xs @ [v])
      | Insert v offs \<Rightarrow>
          (let i = abs_offs offs xs in
           if 0 \<le> i \<and> i \<le> int (length xs) then Some (paste (nat i) [v] xs) else None)
      | Remove offs n \<Rightarrow>
          (if n = 0 then Some xs
           else let i = abs_offs offs xs in
                if 0 < n \<and> 0 \<le> i \<and> i + n \<le> int (length xs) then Some (cut (nat i) (nat n) xs) else None)
      | RemoveAll \<Rightarrow> Some []
      | Pop n \<Rightarrow> (if 0 \<le> n \<and> n \<le> int (length xs) then Some (take (length xs - nat n) xs) else None)
      | MoveBlock offs n new_offs \<Rightarrow>
          (if n = 0 then Some xs else if 0 < n then move_spec offs n new_offs xs else None)
      | MoveOne offs new_offs \<Rightarrow> move_spec offs 1 new_offs xs
      | Exchange offs \<Rightarrow>
          (let i = abs_offs offs xs in if 0 \<le> i \<and> i + 1 < int (length xs) then move_spec i 1 (i + 1) xs else None))"

section \<open>Each operation refines its list operation\<close>

lemmas stack_op_defs = removeStackValues_def removeStackValue_def removeAllStackValues_def pop_def
  moveStackValues_def moveStackValue_def exchangeStackValues_def insertValue_def reserveStackValues_def
  pushStackValue_def buf_get_def buf_set_def abs_offs_def cut_def paste_def block_at_def move_spec_def

lemma split_at3:
  assumes "i + j + k \<le> length xs"
  obtains as bs cs ds where "xs = as @ bs @ cs @ ds" "length as = i" "length bs = j" "length cs = k"
proof
  show "xs = take i xs @ take j (drop i xs) @ take k (drop (i + j) xs) @ drop (i + j + k) xs"
    by (metis add.commute append_take_drop_id drop_drop)
qed (use assms in auto)

text \<open>A buffer is the stack followed by unused cells.\<close>

lemma stack_buf:
  assumes "stack_inv s"
  obtains junk where "vs_buf s = stk s @ junk" "vs_capacity s = int (length (stk s) + length junk)"
    "vs_count s = int (length (stk s))"
proof
  show "vs_buf s = stk s @ drop (nat (vs_count s)) (vs_buf s)" by (simp add: stk_def)
  then show "vs_capacity s = int (length (stk s) + length (drop (nat (vs_count s)) (vs_buf s)))"
    using assms by (metis length_append stack_inv_def)
  show "vs_count s = int (length (stk s))" using assms by (rule stack_inv_length)
qed

lemma stk_upd: "stk (s\<lparr>vs_buf := xs @ junk, vs_count := int (length xs)\<rparr>) = xs"
  by (simp add: stk_def)

lemma stack_invI:
  assumes "stack_inv s" "length (xs @ junk) = length (vs_buf s)"
  shows "stack_inv (s\<lparr>vs_buf := xs @ junk, vs_count := int (length xs)\<rparr>)"
  using assms by (auto simp: stack_inv_def frames_ok_def split: option.splits)

lemma refine_result:
  assumes "stack_inv s" "f = Some (s\<lparr>vs_buf := ys @ junk, vs_count := int (length ys)\<rparr>)"
    and "length (ys @ junk) = length (vs_buf s)"
  shows "\<exists>s'. f = Some s' \<and> stk s' = ys \<and> stack_inv s'"
  using assms stack_invI stk_upd by blast

lemma memmove_right:
  assumes "xs = as @ bs @ cs @ ds" "i = int (length as)" "n = int (length bs)" "j = int (length as + length cs)"
  shows "os_memmove i (i + n) (j - i) xs = Some (as @ cs @ drop (length cs) (bs @ cs @ ds))"
  using assms by (simp add: os_memmove_def nat_add_distrib)

lemma memmove_left:
  assumes "xs = as @ cs @ bs @ ds" "j = int (length as)" "n = int (length bs)" "i = int (length as + length cs)"
  shows "os_memmove (j + n) j (i - j) xs
    = Some (as @ take (length bs) (cs @ bs @ ds) @ cs @ ds)"
  using assms by (simp add: os_memmove_def nat_add_distrib add.assoc)

lemma move_block:
  fixes i j n :: nat
  assumes "i + n \<le> length xs" "j + n \<le> length xs"
  shows "\<exists>buf. (if j > i then os_memmove (int i) (int i + int n) (int j - int i) (xs @ junk)
                else os_memmove (int j + int n) (int j) (int i - int j) (xs @ junk)) = Some buf
    \<and> take j buf @ block_at i n xs @ drop (j + n) buf = paste j (block_at i n xs) (cut i n xs) @ junk
    \<and> length buf = length (xs @ junk)"
proof (cases "j > i")
  case True
  obtain as bs cs ds where xs: "xs = as @ bs @ cs @ ds" "length as = i" "length bs = n" "length cs = j - i"
    using split_at3 [of i n "j - i" xs] assms True by (metis add.assoc add.commute le_add_diff_inverse2 less_imp_le)
  have "os_memmove (int i) (int i + int n) (int j - int i) (xs @ junk)
      = Some (as @ cs @ drop (length cs) (bs @ cs @ ds @ junk))"
    by (rule memmove_right) (use xs True in auto)
  moreover have "drop (j + n) (as @ cs @ drop (length cs) (bs @ cs @ ds @ junk)) = ds @ junk"
    using xs True by simp
  ultimately show ?thesis using xs True by (simp add: block_at_def cut_def paste_def)
next
  case False
  obtain as cs bs ds where xs: "xs = as @ cs @ bs @ ds" "length as = j" "length cs = i - j" "length bs = n"
    using split_at3 [of j "i - j" n xs] assms False by (metis add.commute le_add_diff_inverse not_less)
  have "os_memmove (int j + int n) (int j) (int i - int j) (xs @ junk)
      = Some (as @ take (length bs) (cs @ bs @ ds @ junk) @ cs @ ds @ junk)"
    by (rule memmove_left) (use xs False in auto)
  then show ?thesis using xs False by (simp add: block_at_def cut_def paste_def)
qed

lemma moveStackValues_refines:
  assumes inv: "stack_inv s" and n: "0 < n" and ys: "move_spec offs n new_offs (stk s) = Some ys"
  shows "\<exists>s'. moveStackValues offs n new_offs s = Some s' \<and> stk s' = ys \<and> stack_inv s'"
proof -
  obtain junk where buf: "vs_buf s = stk s @ junk" "vs_count s = int (length (stk s))"
    using stack_buf [OF inv] by metis
  define i j where ij: "i = nat (abs_offs offs (stk s))" "j = nat (abs_offs new_offs (stk s))"
  have b: "int i = abs_offs offs (stk s)" "int j = abs_offs new_offs (stk s)"
    "i + nat n \<le> length (stk s)" "j + nat n \<le> length (stk s)"
    and ys': "ys = paste j (block_at i (nat n) (stk s)) (cut i (nat n) (stk s))"
    using ys n by (auto simp: move_spec_def Let_def ij split: if_splits)
  have nn: "int (nat n) = n" using n by simp
  obtain b' where b': "(if j > i then os_memmove (int i) (int i + n) (int j - int i) (vs_buf s)
                else os_memmove (int j + n) (int j) (int i - int j) (vs_buf s)) = Some b'"
    "take j b' @ block_at i (nat n) (stk s) @ drop (j + nat n) b' = ys @ junk"
    "length b' = length (vs_buf s)"
    using move_block [OF b(3,4), of junk] by (auto simp: order_less_imp_le [OF n] buf ys' cong: if_cong)
  have len: "length ys = length (stk s)"
    using ys' b n by (simp add: paste_def block_at_def cut_def)
  have blk: "block_at i (nat n) (stk s) = take (nat n) (drop i (vs_buf s))"
    using b(3) by (simp add: buf block_at_def)
  have "moveStackValues offs n new_offs s = Some (s\<lparr>vs_buf := ys @ junk\<rparr>)"
  proof -
    have e: "(if offs < 0 then vs_count s + offs else offs) = int i"
      "(if new_offs < 0 then vs_count s + new_offs else new_offs) = int j"
      using b(1,2) buf(2) by (simp_all add: abs_offs_def)
    have c: "int i + n \<le> vs_count s" "int j + n \<le> vs_count s" "int i < vs_count s" "int j < vs_count s"
      using b(3,4) n buf(2) by linarith+
    have "nat (int j + n) = j + nat n" using n by (simp add: nat_add_distrib)
    with c n b' blk show ?thesis
      unfolding moveStackValues_def e Let_def by simp
  qed
  also have "\<dots> = Some (s\<lparr>vs_buf := ys @ junk, vs_count := int (length ys)\<rparr>)"
    using buf len by simp
  finally show ?thesis by (rule refine_result [OF inv]) (simp add: buf len)
qed

lemma length_memmove: "os_memmove d i n xs = Some ys \<Longrightarrow> length ys = length xs"
  by (auto simp: os_memmove_def os_assert_def split: if_splits)

lemma take_1_drop: "i < length xs \<Longrightarrow> take (Suc 0) (drop i xs) = [xs ! i]"
  by (simp add: take_Suc_conv_app_nth)

text \<open>Moving one value is moving a block of one.\<close>

lemma moveStackValue_block:
  assumes "stack_inv s" "0 \<le> abs_offs offs (stk s)" "abs_offs offs (stk s) < int (length (stk s))"
    and "0 \<le> abs_offs new_offs (stk s)" "abs_offs new_offs (stk s) < int (length (stk s))"
  shows "moveStackValue offs new_offs s = moveStackValues offs 1 new_offs s"
proof -
  obtain junk where buf: "vs_buf s = stk s @ junk" "vs_count s = int (length (stk s))"
    using stack_buf [OF assms(1)] by metis
  obtain i j where ij: "int i = abs_offs offs (stk s)" "int j = abs_offs new_offs (stk s)"
    using assms by (metis nonneg_int_cases)
  with assms have b: "i < length (vs_buf s)" "j < length (vs_buf s)" by (simp_all add: buf)
  have nj: "nat (int j + 1) = Suc j" by simp
  have "Option.bind (buf_set (int j) (vs_buf s ! i) b) (\<lambda>buf. Some (s\<lparr>vs_buf := buf\<rparr>))
      = Some (s\<lparr>vs_buf := take j b @ [vs_buf s ! i] @ drop (Suc j) b\<rparr>)" if "length b = length (vs_buf s)" for b
    using that b by (simp add: buf_set_def upd_conv_take_nth_drop)
  then have "Option.bind m (\<lambda>buf. Option.bind (buf_set (int j) (vs_buf s ! i) buf) (\<lambda>buf. Some (s\<lparr>vs_buf := buf\<rparr>)))
      = Option.bind m (\<lambda>buf. Some (s\<lparr>vs_buf := take j buf @ [vs_buf s ! i] @ drop (Suc j) buf\<rparr>))"
    if "\<And>b. m = Some b \<Longrightarrow> length b = length (vs_buf s)" for m
    using that by (cases m) simp_all
  note step = this
  let ?m = "if int j > int i then os_memmove (int i) (int i + 1) (int j - int i) (vs_buf s)
            else os_memmove (int j + 1) (int j) (int i - int j) (vs_buf s)"
  have m: "length b = length (vs_buf s)" if "?m = Some b" for b
    using that by (auto dest: length_memmove split: if_splits)
  have "moveStackValue offs new_offs s = Option.bind ?m (\<lambda>buf. Option.bind (buf_set (int j) (vs_buf s ! i) buf)
      (\<lambda>buf. Some (s\<lparr>vs_buf := buf\<rparr>)))"
    using assms(2-5) b buf(2) ij [symmetric] unfolding moveStackValue_def
    by (simp add: abs_offs_def buf_get_def Let_def cong: if_cong)
  moreover have "moveStackValues offs 1 new_offs s
      = Option.bind ?m (\<lambda>buf. Some (s\<lparr>vs_buf := take j buf @ [vs_buf s ! i] @ drop (Suc j) buf\<rparr>))"
    using assms(2-5) b buf(2) ij [symmetric] unfolding moveStackValues_def
    by (simp add: abs_offs_def take_1_drop nj Let_def cong: if_cong)
  ultimately show ?thesis using step [OF m] by simp
qed

lemma moveStackValue_refines:
  assumes "stack_inv s" "move_spec offs 1 new_offs (stk s) = Some ys"
  shows "\<exists>s'. moveStackValue offs new_offs s = Some s' \<and> stk s' = ys \<and> stack_inv s'"
  using moveStackValues_refines [OF assms(1) _ assms(2)] moveStackValue_block [OF assms(1), of offs new_offs] assms
  by (auto simp: move_spec_def Let_def split: if_splits)

lemma exchangeStackValues_refines:
  assumes inv: "stack_inv s" and ys: "op_spec (Exchange offs) (stk s) = Some ys"
  shows "\<exists>s'. exchangeStackValues offs s = Some s' \<and> stk s' = ys \<and> stack_inv s'"
proof -
  obtain junk where buf: "vs_buf s = stk s @ junk" "vs_count s = int (length (stk s))"
    using stack_buf [OF inv] by metis
  define i where "i = nat (abs_offs offs (stk s))"
  then have i: "int i = abs_offs offs (stk s)" "i + 1 < length (stk s)"
    using ys by (auto simp: op_spec_def Let_def split: if_splits)
  obtain as a b ds where xs: "stk s = as @ [a, b] @ ds" "length as = i"
  proof -
    obtain as bs cs ds where "stk s = as @ bs @ cs @ ds" "length as = i" "length bs = 1" "length cs = 1"
      by (rule split_at3 [of i 1 1 "stk s"]) (use i(2) in simp)
    then show thesis using that by (auto simp: length_Suc_conv)
  qed
  have ys': "ys = as @ [b, a] @ ds"
  proof -
    have "op_spec (Exchange offs) (stk s) = move_spec (int i) 1 (int i + 1) (stk s)"
      using i by (simp add: op_spec_def Let_def i(1) [symmetric])
    moreover have "move_spec (int (length as)) 1 (int (length as) + 1) (as @ [a, b] @ ds) = Some (as @ [b, a] @ ds)"
      by (simp add: move_spec_def paste_def cut_def block_at_def abs_offs_def Let_def nat_add_distrib)
    ultimately show ?thesis using ys xs by simp
  qed
  have e: "(if offs < 0 then vs_count s + offs else offs) = int (length as)"
    using i(1) xs(2) buf(2) by (simp add: abs_offs_def)
  have v: "vs_buf s = as @ a # b # ds @ junk" "vs_count s = int (length as) + (2 + int (length ds))"
    using buf xs(1) by simp_all
  have "nat (int (length as) + 1) = Suc (length as)" by simp
  then have "exchangeStackValues offs s = Some (s\<lparr>vs_buf := ys @ junk\<rparr>)"
    unfolding exchangeStackValues_def e Let_def
    by (simp add: v ys' buf_get_def buf_set_def nth_append list_update_append)
  also have "\<dots> = Some (s\<lparr>vs_buf := ys @ junk, vs_count := int (length ys)\<rparr>)"
    using xs ys' buf by simp
  finally show ?thesis by (rule refine_result [OF inv]) (simp add: buf ys' xs)
qed

section \<open>Removal and insertion\<close>

lemma removeStackValues_refines:
  assumes inv: "stack_inv s" and ys: "op_spec (Remove offs n) (stk s) = Some ys"
  shows "\<exists>s'. removeStackValues offs n s = Some s' \<and> stk s' = ys \<and> stack_inv s'"
proof (cases "n = 0")
  case True
  with ys inv show ?thesis by (simp add: removeStackValues_def op_spec_def)
next
  case False
  obtain junk where buf: "vs_buf s = stk s @ junk" "vs_count s = int (length (stk s))"
    using stack_buf [OF inv] by metis
  define i where "i = nat (abs_offs offs (stk s))"
  then have i: "int i = abs_offs offs (stk s)" "0 < n" "i + nat n \<le> length (stk s)"
    and ys': "ys = cut i (nat n) (stk s)"
    using ys False by (auto simp: op_spec_def Let_def split: if_splits)
  have e: "(if offs < 0 then vs_count s + offs else offs) = int i"
    using i(1) buf(2) by (simp add: abs_offs_def)
  obtain as bs cs where xs': "stk s = as @ bs @ cs" "length as = i" "length bs = nat n"
    by (rule split_at3 [of i "nat n" 0 "stk s"]) (use i(3) in auto)
  have ys'': "ys = as @ cs" using ys' xs' by (simp add: cut_def)
  have n: "n = int (length bs)" "0 < length bs" using xs' i(2) by auto
  note xs = xs'(1) and e = e [folded xs'(2)]
  consider "cs = []" | c where "cs = [c]" | "1 < length cs"
    by (cases cs rule: list.exhaust) (auto simp: Suc_lessI)
  then have "\<exists>junk'. removeStackValues offs n s = Some (s\<lparr>vs_buf := ys @ junk', vs_count := int (length ys)\<rparr>)
    \<and> length (ys @ junk') = length (vs_buf s)"
  proof cases
    case 1
    then show ?thesis using n xs buf ys'' False unfolding removeStackValues_def e Let_def
      by (intro exI [of _ "bs @ junk"]) simp
  next
    case 2
    obtain b bs' where bs: "bs = b # bs'" using n(2) by (cases bs) auto
    have "nat (int (length as) + n) = length as + length bs" using n by simp
    then show ?thesis using 2 n xs buf ys'' bs False unfolding removeStackValues_def e Let_def
      by (intro exI [of _ "bs' @ cs @ junk"]) (simp add: buf_get_def buf_set_def nth_append list_update_append)
  next
    case 3
    let ?rest = "drop (length cs) (bs @ cs @ junk)"
    have "os_memmove (int (length as)) (int (length as) + int (length bs)) (int (length cs)) (as @ bs @ cs @ junk)
        = Some (as @ cs @ ?rest)"
      using memmove_right [of "as @ bs @ cs @ junk" as bs cs junk "int (length as)" "int (length bs)"
          "int (length as + length cs)"] by simp
    moreover have "length (ys @ ?rest) = length (vs_buf s)" using xs buf ys'' by simp
    ultimately show ?thesis using 3 n xs buf ys'' False unfolding removeStackValues_def e Let_def
      by (intro exI [of _ ?rest] conjI; simp)
  qed
  then obtain junk' where "removeStackValues offs n s = Some (s\<lparr>vs_buf := ys @ junk', vs_count := int (length ys)\<rparr>)"
    "length (ys @ junk') = length (vs_buf s)" by blast
  then show ?thesis by (rule refine_result [OF inv])
qed

lemma pop_refines:
  assumes inv: "stack_inv s" and ys: "op_spec (Pop n) (stk s) = Some ys"
  shows "\<exists>s'. pop n s = Some s' \<and> stk s' = ys \<and> stack_inv s'"
proof -
  have c: "vs_count s = int (length (stk s))" using inv by (rule stack_inv_length)
  have n: "0 \<le> n" "n \<le> vs_count s" and ys': "ys = take (length (stk s) - nat n) (stk s)"
    using ys c by (auto simp: op_spec_def split: if_splits)
  have "pop n s = Some (s\<lparr>vs_count := vs_count s - n\<rparr>)" using n by (auto simp: pop_def)
  moreover have "stk (s\<lparr>vs_count := vs_count s - n\<rparr>) = ys"
  proof -
    have "nat (vs_count s - n) = length (stk s) - nat n" using n c by (simp add: nat_diff_distrib)
    moreover have "take (length (stk s) - nat n) (take (nat (vs_count s)) (vs_buf s))
        = take (length (stk s) - nat n) (vs_buf s)"
      using c by (subst take_take) (simp add: min_absorb1)
    then have "take (length (stk s) - nat n) (stk s) = take (length (stk s) - nat n) (vs_buf s)"
      by (simp flip: stk_def)
    ultimately show ?thesis by (simp add: stk_def [of "s\<lparr>vs_count := _\<rparr>"] ys')
  qed
  moreover have "stack_inv (s\<lparr>vs_count := vs_count s - n\<rparr>)"
    using inv n by (auto simp: stack_inv_def frames_ok_def split: option.splits)
  ultimately show ?thesis by blast
qed

lemma and_not_15: "x AND NOT 15 = x - x mod 16" for x :: int
proof -
  have "(x AND 15) + (x AND NOT 15) = (x AND 15) OR (x AND NOT 15)"
    by (rule disjunctive_add_eq_or) (simp add: and.assoc and.left_commute [of 15])
  also have "\<dots> = x" by (simp flip: bit.conj_disj_distrib)
  also have "x AND 15 = x mod 16"
    using take_bit_eq_mask [of 4 x] by (simp add: mask_eq_exp_minus_1 take_bit_eq_mod)
  finally show ?thesis by simp
qed

lemma grown_capacity_ge: "0 \<le> c \<Longrightarrow> n \<le> grown_capacity c n \<and> c \<le> grown_capacity c n"
proof -
  assume "0 \<le> c"
  have "0 \<le> (c * 2 + 16) mod 16" "(c * 2 + 16) mod 16 < 16" "0 \<le> (n + 16) mod 16" "(n + 16) mod 16 < 16"
    by simp_all
  with \<open>0 \<le> c\<close> show ?thesis unfolding grown_capacity_def and_not_15 Let_def by auto
qed

text \<open>Growing moves the buffer and keeps the stack, the locals of the running functions included.\<close>

lemma growStackValues_ok:
  assumes inv: "stack_inv s" and "vs_capacity s < n" "vs_capacity s * 2 + 16 < 2 ^ 31" "n + 16 < 2 ^ 31"
  shows "\<exists>s'. growStackValues new_base n s = Some s' \<and> stk s' = stk s \<and> stack_inv s' \<and> n \<le> vs_capacity s'
    \<and> vs_count s' = vs_count s"
proof -
  define c where "c = grown_capacity (vs_capacity s) n"
  have c: "n \<le> c" "vs_capacity s \<le> c" "0 \<le> vs_count s" "vs_count s \<le> vs_capacity s"
    "vs_capacity s = int (length (vs_buf s))" and fr: "frames_ok s"
    using grown_capacity_ge [of "vs_capacity s" n] inv by (auto simp: stack_inv_def c_def)
  define frames where "frames = map (\<lambda>f. f\<lparr>locals_values := new_base + locals_stack_pos f\<rparr>) (call_stack_funcs s)"
  define s' where "s' = s\<lparr>vs_capacity := c, vs_base := new_base,
      vs_buf := take (nat (vs_count s)) (vs_buf s) @ replicate (nat (c - vs_count s)) VNull,
      call_stack_funcs := frames,
      stack_func_locals := (case stack_func s of None \<Rightarrow> stack_func_locals s
                            | Some i \<Rightarrow> locals_values (frames ! i))\<rparr>"
  have "growStackValues new_base n s = Some s'"
  proof -
    have "\<forall>f \<in> set (call_stack_funcs s). 0 \<le> locals_stack_pos f" using fr by (simp add: frames_ok_def)
    with assms(2-4) show ?thesis
      unfolding growStackValues_def s'_def c_def frames_def Let_def by simp
  qed
  moreover have m: "min (length (vs_buf s)) (nat (vs_count s)) = nat (vs_count s)"
    using c by (intro min_absorb2) simp
  then have "stk s' = stk s" by (simp add: stk_def s'_def)
  moreover have "frames_ok s'"
    using fr by (auto simp: frames_ok_def s'_def frames_def split: option.splits)
  moreover have "length (vs_buf s') = nat c" using c m by (simp add: s'_def nat_diff_distrib)
  ultimately show ?thesis using c by (simp add: stack_inv_def s'_def)
qed

text \<open>Room for one more value.\<close>

definition capacity_fits :: "vstack \<Rightarrow> bool" where
  "capacity_fits s \<longleftrightarrow> vs_capacity s < 2 ^ 30 - 16"

lemma room_for_one:
  assumes inv: "stack_inv s" and "capacity_fits s"
  obtains s' junk w where "reserveStackValues new_base (vs_count s + 1) s = Some s'"
    "vs_buf s' = stk s @ w # junk" "vs_count s' = int (length (stk s))" "stack_inv s'"
proof -
  have c: "vs_count s \<le> vs_capacity s" using inv by (simp add: stack_inv_def)
  obtain s' where s': "reserveStackValues new_base (vs_count s + 1) s = Some s'" "stk s' = stk s" "stack_inv s'"
    "vs_count s + 1 \<le> vs_capacity s'" "vs_count s' = vs_count s"
  proof (cases "vs_capacity s < vs_count s + 1")
    case True
    have "vs_capacity s * 2 + 16 < 2 ^ 31" "vs_count s + 1 + 16 < 2 ^ 31"
      using assms(2) c by (simp_all add: capacity_fits_def)
    from growStackValues_ok [OF inv True this, of new_base] obtain s' where
      "growStackValues new_base (vs_count s + 1) s = Some s'" "stk s' = stk s" "stack_inv s'"
      "vs_count s + 1 \<le> vs_capacity s'" "vs_count s' = vs_count s" by blast
    with True show thesis by (intro that [of s']) (simp_all add: reserveStackValues_def)
  next
    case False
    with inv show thesis by (intro that [of s]) (simp_all add: reserveStackValues_def)
  qed
  obtain junk where "vs_buf s' = stk s @ junk" "vs_capacity s' = int (length (stk s) + length junk)"
    "vs_count s' = int (length (stk s))"
    using stack_buf [OF s'(3)] s'(2) by metis
  moreover from this s' obtain w junk' where "junk = w # junk'" by (cases junk) auto
  ultimately show thesis using that s' by auto
qed

lemma pushStackValue_refines:
  assumes "stack_inv s" "capacity_fits s"
  shows "\<exists>s'. pushStackValue new_base v s = Some s' \<and> stk s' = stk s @ [v] \<and> stack_inv s'"
proof -
  obtain s' w junk where s': "reserveStackValues new_base (vs_count s + 1) s = Some s'"
    "vs_buf s' = stk s @ w # junk" "vs_count s' = int (length (stk s))" "stack_inv s'"
    using room_for_one [OF assms] by metis
  have "pushStackValue new_base v s = Option.bind (reserveStackValues new_base (vs_count s + 1) s)
      (\<lambda>s. Option.bind (buf_set (vs_count s) v (vs_buf s)) (\<lambda>buf. Some (s\<lparr>vs_buf := buf, vs_count := vs_count s + 1\<rparr>)))"
    by (simp add: pushStackValue_def reserveStackValues_def)
  also have "\<dots> = Some (s'\<lparr>vs_buf := (stk s @ [v]) @ junk, vs_count := int (length (stk s @ [v]))\<rparr>)"
    unfolding s'(1) by (simp add: s' buf_set_def list_update_append)
  finally show ?thesis by (rule refine_result [OF s'(4)]) (simp add: s')
qed

lemma insertValue_refines:
  assumes inv: "stack_inv s" and "capacity_fits s" and ys: "op_spec (Insert v offs) (stk s) = Some ys"
  shows "\<exists>s'. insertValue new_base v offs s = Some s' \<and> stk s' = ys \<and> stack_inv s'"
proof -
  obtain s' w junk where s': "reserveStackValues new_base (vs_count s + 1) s = Some s'"
    "vs_buf s' = stk s @ w # junk" "vs_count s' = int (length (stk s))" "stack_inv s'"
    using room_for_one [OF assms(1,2)] by metis
  define i where "i = nat (abs_offs offs (stk s))"
  then have i: "int i = abs_offs offs (stk s)" "i \<le> length (stk s)" and ys': "ys = paste i [v] (stk s)"
    using ys by (auto simp: op_spec_def Let_def split: if_splits)
  obtain as bs where xs: "stk s = as @ bs" "length as = i"
    using i(2) by (metis append_take_drop_id length_take min_absorb2)
  have e: "(if offs < 0 then vs_count s + offs else offs) = int (length as)"
    using i(1) xs(2) stack_inv_length [OF inv] by (simp add: abs_offs_def)
  have ys'': "ys = as @ v # bs" using ys' xs by (simp add: paste_def)
  have mv: "os_memmove (int (length as) + 1) (int (length as)) (int (length bs)) (as @ bs @ w # junk)
      = Some (take (Suc (length as)) (as @ bs @ w # junk) @ bs @ junk)"
    by (simp add: os_memmove_def nat_add_distrib)
  have "bs \<noteq> [] \<or> bs = []" by simp
  then have "insertValue new_base v offs s = Some (s'\<lparr>vs_buf := ys @ junk, vs_count := int (length ys)\<rparr>)"
  proof
    assume bs: "bs \<noteq> []"
    have "(take (Suc (length as)) (as @ bs @ w # junk) @ bs @ junk)[length as := v] = ys @ junk"
      using bs by (cases bs) (simp_all add: ys'' list_update_append)
    with bs mv xs(1) show ?thesis unfolding insertValue_def e Let_def s'(1)
      by (simp add: s' buf_set_def ys'')
  next
    assume "bs = []"
    with xs(1) show ?thesis unfolding insertValue_def e Let_def s'(1)
      by (simp add: s' buf_set_def ys'' list_update_append)
  qed
  then show ?thesis by (rule refine_result [OF s'(4)]) (simp add: s' ys'' xs)
qed

section \<open>The stack refines the list\<close>

text \<open>
  C30: every operation of the value stack that is legal on the list of the values in use succeeds and acts
  on the buffer as the list operation it stands for (append, insert, cut, move a block, exchange, \<dots>,
  offsets counting from the end when negative), keeps the capacity consistent and, when the buffer
  moved, re-aims the locals of every running function; no operation reads or writes outside the
  buffer.
\<close>

theorem stack_ops_refine:
  assumes "stack_inv s" "capacity_fits s" "op_spec op (stk s) = Some ys"
  shows "\<exists>s'. exec_op new_base op s = Some s' \<and> stk s' = ys \<and> stack_inv s'"
proof (cases op)
  case (Push v)
  with assms pushStackValue_refines [OF assms(1,2)] show ?thesis by (auto simp: exec_op_def op_spec_def)
next
  case (Insert v offs)
  with assms insertValue_refines [OF assms(1,2)] show ?thesis by (simp add: exec_op_def)
next
  case (Remove offs n)
  with assms removeStackValues_refines [OF assms(1)] show ?thesis by (simp add: exec_op_def)
next
  case RemoveAll
  with assms show ?thesis
    by (auto simp: exec_op_def op_spec_def removeAllStackValues_def stk_def stack_inv_def frames_ok_def
        split: option.splits)
next
  case (Pop n)
  with assms pop_refines [OF assms(1)] show ?thesis by (simp add: exec_op_def)
next
  case (MoveBlock offs n new_offs)
  show ?thesis
  proof (cases "n = 0")
    case True
    with assms MoveBlock show ?thesis by (simp add: exec_op_def op_spec_def moveStackValues_def)
  next
    case False
    with assms MoveBlock have "0 < n" "move_spec offs n new_offs (stk s) = Some ys"
      by (auto simp: op_spec_def split: if_splits)
    from moveStackValues_refines [OF assms(1) this] MoveBlock show ?thesis by (simp add: exec_op_def)
  qed
next
  case (MoveOne offs new_offs)
  with assms moveStackValue_refines [OF assms(1), of offs new_offs] show ?thesis
    by (simp add: exec_op_def op_spec_def)
next
  case (Exchange offs)
  with assms exchangeStackValues_refines [OF assms(1)] show ?thesis by (simp add: exec_op_def)
qed

definition sample_stack :: vstack where
  "sample_stack = \<lparr>vs_base = 100, vs_buf = [VBool True, VNull, VGC 1, VGC 2], vs_count = 4, vs_capacity = 4,
     call_stack_funcs = [\<lparr>locals_stack_pos = 1, locals_values = 101\<rparr>], stack_func = Some 0,
     stack_func_locals = 101\<rparr>"

theorem stack_ops_refine_witness:
  "\<exists>s'. exec_op 500 (Insert (VGC 9) (-1)) sample_stack = Some s'
    \<and> stk s' = [VBool True, VNull, VGC 1, VGC 9, VGC 2] \<and> stack_inv s'"
  by (rule stack_ops_refine)
    (simp_all add: sample_stack_def stack_inv_def frames_ok_def capacity_fits_def op_spec_def abs_offs_def
      paste_def stk_def eval_nat_numeral)

end
