(* ===== verification/Vectors.thy ===== *)
theory Vectors
  imports RefTables
begin

text \<open>
  The template \<open>OS::Vector\<close> and the functions \<open>vector*\<close> of class \<open>OS\<close> that work on it.  A cell of the
  buffer is raw memory (\<open>None\<close>) or holds a constructed element: a placement \<open>new\<close> needs raw memory, a
  destructor call needs an element, and an access through \<open>operator []\<close> has to be in range; otherwise
  the result is \<open>None\<close>.  So the theorem on the operations also says that every element is constructed
  once and destroyed once.  Doubling a capacity of \<open>2 ^ 30\<close> or more overflows and is \<open>None\<close>.

  Elements are values: a copy is the element itself and destructors have no effect besides freeing the
  cell.  \<open>malloc\<close> never fails.
\<close>

record 'a os_vector =
  vec_buf :: "'a option list"
  vec_capacity :: int
  vec_count :: int

definition empty_vector :: "'a os_vector" where
  "empty_vector = \<lparr>vec_buf = [], vec_capacity = 0, vec_count = 0\<rparr>"

section \<open>Cells\<close>

definition cell_new :: "int \<Rightarrow> 'a \<Rightarrow> 'a option list \<Rightarrow> 'a option list option" where
  "cell_new i x buf =
     os_assert (0 \<le> i \<and> i < int (length buf) \<and> buf ! nat i = None) (Some (buf[nat i := Some x]))"

definition cell_delete :: "int \<Rightarrow> 'a option list \<Rightarrow> 'a option list option" where
  "cell_delete i buf =
     os_assert (0 \<le> i \<and> i < int (length buf) \<and> buf ! nat i \<noteq> None) (Some (buf[nat i := None]))"

definition cell_get :: "int \<Rightarrow> 'a option list \<Rightarrow> 'a option" where
  "cell_get i buf = (if 0 \<le> i \<and> i < int (length buf) then buf ! nat i else None)"

text \<open>\<open>new (dst + j) T(buf[i]); buf[i].~T()\<close> inside one buffer.\<close>

definition cell_move :: "int \<Rightarrow> int \<Rightarrow> 'a option list \<Rightarrow> 'a option list option" where
  "cell_move dst src buf =
     Option.bind (cell_get src buf) (\<lambda>x. Option.bind (cell_new dst x buf) (cell_delete src))"

section \<open>Operations\<close>

definition vector_get :: "int \<Rightarrow> 'a os_vector \<Rightarrow> 'a option" where
  "vector_get i v = os_assert (i \<ge> 0 \<and> i < vec_count v) (cell_get i (vec_buf v))"

definition lastElement :: "'a os_vector \<Rightarrow> 'a option" where
  "lastElement v = os_assert (vec_count v > 0) (cell_get (vec_count v - 1) (vec_buf v))"

function vector_contains_loop :: "'a \<Rightarrow> 'a option list \<Rightarrow> int \<Rightarrow> bool" where
  "vector_contains_loop x buf i =
     (if i \<ge> 0 then (if cell_get i buf = Some x then True else vector_contains_loop x buf (i - 1)) else False)"
  by auto
termination by (relation "measure (\<lambda>(x, buf, i). nat (i + 1))") auto

definition vector_contains :: "'a \<Rightarrow> 'a os_vector \<Rightarrow> bool" where
  "vector_contains x v = vector_contains_loop x (vec_buf v) (vec_count v - 1)"

function vector_indexOf_loop :: "'a \<Rightarrow> 'a option list \<Rightarrow> int \<Rightarrow> int \<Rightarrow> int" where
  "vector_indexOf_loop x buf n i =
     (if i < n then (if cell_get i buf = Some x then i else vector_indexOf_loop x buf n (i + 1)) else -1)"
  by auto
termination by (relation "measure (\<lambda>(x, buf, n, i). nat (n - i))") auto

definition vector_indexOf :: "'a \<Rightarrow> 'a os_vector \<Rightarrow> int" where
  "vector_indexOf x v = vector_indexOf_loop x (vec_buf v) (vec_count v) 0"

text \<open>The loop that moves the elements into the new block.\<close>

function move_elements :: "int \<Rightarrow> int \<Rightarrow> 'a option list \<Rightarrow> 'a option list \<Rightarrow> 'a option list option" where
  "move_elements n i old new =
     (if i < n then
        Option.bind (cell_get i old) (\<lambda>x. Option.bind (cell_new i x new) (\<lambda>new.
        Option.bind (cell_delete i old) (\<lambda>old. move_elements n (i + 1) old new)))
      else Some new)"
  by auto
termination by (relation "measure (\<lambda>(n, i, old, new). nat (n - i))") auto

definition vector_realloc :: "int \<Rightarrow> 'a os_vector \<Rightarrow> 'a os_vector option" where
  "vector_realloc capacity v =
     Option.bind (move_elements (vec_count v) 0 (vec_buf v) (replicate (nat capacity) None))
       (\<lambda>buf. Some (v\<lparr>vec_buf := buf, vec_capacity := capacity\<rparr>))"

definition vectorReserveCapacity :: "int \<Rightarrow> 'a os_vector \<Rightarrow> 'a os_vector option" where
  "vectorReserveCapacity new_capacity v =
     (if vec_capacity v < new_capacity then
        os_assert (vec_capacity v * 2 < 2 ^ 31)
          (let c = (if vec_capacity v > 0 then vec_capacity v * 2 else 4)
           in vector_realloc (if c < new_capacity then new_capacity else c) v)
      else Some v)"

definition vectorReserveCapacityExact :: "int \<Rightarrow> 'a os_vector \<Rightarrow> 'a os_vector option" where
  "vectorReserveCapacityExact capacity v =
     (if vec_capacity v < capacity then vector_realloc capacity v else Some v)"

definition vectorAddItem :: "'a \<Rightarrow> 'a os_vector \<Rightarrow> 'a os_vector option" where
  "vectorAddItem x v =
     Option.bind (vectorReserveCapacity (vec_count v + 1) v) (\<lambda>v.
     Option.bind (cell_new (vec_count v) x (vec_buf v)) (\<lambda>buf.
       Some (v\<lparr>vec_buf := buf, vec_count := vec_count v + 1\<rparr>)))"

definition vectorPush :: "'a \<Rightarrow> 'a os_vector \<Rightarrow> 'a os_vector option" where
  "vectorPush x v = vectorAddItem x v"

function destroy_elements :: "int \<Rightarrow> int \<Rightarrow> 'a option list \<Rightarrow> 'a option list option" where
  "destroy_elements n i buf =
     (if i < n then Option.bind (cell_delete i buf) (destroy_elements n (i + 1)) else Some buf)"
  by auto
termination by (relation "measure (\<lambda>(n, i, buf). nat (n - i))") auto

text \<open>\<open>free\<close> requires that nothing is left constructed in the block.\<close>

definition vectorClear :: "'a os_vector \<Rightarrow> 'a os_vector option" where
  "vectorClear v =
     Option.bind (destroy_elements (vec_count v) 0 (vec_buf v)) (\<lambda>buf.
       os_assert (\<forall>c \<in> set buf. c = None) (Some empty_vector))"

function shift_right :: "int \<Rightarrow> int \<Rightarrow> 'a option list \<Rightarrow> 'a option list option" where
  "shift_right i j buf =
     (if j \<ge> i then Option.bind (cell_move (j + 1) j buf) (shift_right i (j - 1)) else Some buf)"
  by auto
termination by (relation "measure (\<lambda>(i, j, buf). nat (j + 1 - i))") auto

definition vectorInsertAtIndex :: "int \<Rightarrow> 'a \<Rightarrow> 'a os_vector \<Rightarrow> 'a os_vector option" where
  "vectorInsertAtIndex i x v =
     os_assert (i \<ge> 0 \<and> i \<le> vec_count v)
       (Option.bind (vectorReserveCapacity (vec_count v + 1) v) (\<lambda>v.
        Option.bind (shift_right i (vec_count v - 1) (vec_buf v)) (\<lambda>buf.
        Option.bind (cell_new i x buf) (\<lambda>buf.
          Some (v\<lparr>vec_buf := buf, vec_count := vec_count v + 1\<rparr>)))))"

function shift_left :: "int \<Rightarrow> int \<Rightarrow> 'a option list \<Rightarrow> 'a option list option" where
  "shift_left n i buf =
     (if i < n then Option.bind (cell_move (i - 1) i buf) (shift_left n (i + 1)) else Some buf)"
  by auto
termination by (relation "measure (\<lambda>(n, i, buf). nat (n - i))") auto

definition vectorRemoveAtIndex :: "int \<Rightarrow> 'a os_vector \<Rightarrow> 'a os_vector option" where
  "vectorRemoveAtIndex i v =
     os_assert (i \<ge> 0 \<and> i < vec_count v)
       (Option.bind (cell_delete i (vec_buf v)) (\<lambda>buf.
        Option.bind (shift_left (vec_count v) (i + 1) buf) (\<lambda>buf.
          Some (v\<lparr>vec_buf := buf, vec_count := vec_count v - 1\<rparr>))))"

definition vectorPop :: "'a os_vector \<Rightarrow> ('a \<times> 'a os_vector) option" where
  "vectorPop v =
     Option.bind (lastElement v) (\<lambda>x.
     Option.bind (vectorRemoveAtIndex (vec_count v - 1) v) (\<lambda>v. Some (x, v)))"

section \<open>A vector is a list\<close>

definition vec_rep :: "'a os_vector \<Rightarrow> 'a list \<Rightarrow> bool" where
  "vec_rep v xs \<longleftrightarrow> vec_count v = int (length xs) \<and> vec_capacity v = int (length (vec_buf v))
     \<and> (\<exists>k. vec_buf v = map Some xs @ replicate k None)"

declare vector_contains_loop.simps [simp del] vector_indexOf_loop.simps [simp del] move_elements.simps [simp del]
  destroy_elements.simps [simp del] shift_right.simps [simp del] shift_left.simps [simp del]

lemma cell_get_in: "xs = as @ x # bs \<Longrightarrow> i = int (length as) \<Longrightarrow> cell_get i xs = x"
  by (simp add: cell_get_def nth_append)

lemma cell_new_in: "xs = as @ None # bs \<Longrightarrow> i = int (length as) \<Longrightarrow> cell_new i x xs = Some (as @ Some x # bs)"
  by (simp add: cell_new_def nth_append list_update_append)

lemma cell_delete_in:
  "xs = as @ Some y # bs \<Longrightarrow> i = int (length as) \<Longrightarrow> cell_delete i xs = Some (as @ None # bs)"
  by (simp add: cell_delete_def nth_append list_update_append)

lemma move_elements_rep:
  assumes "n = int (length done + length xs)" "i = int (length done)"
    and "old = replicate (length done) None @ map Some xs @ rest" "new = map Some done @ replicate (length xs + k) None"
  shows "move_elements n i old new = Some (map Some (done @ xs) @ replicate k None)"
  using assms
proof (induction xs arbitrary: "done" i old new)
  case Nil
  then show ?case by (simp add: move_elements.simps)
next
  case (Cons x xs)
  have "cell_get i old = Some x"
    by (rule cell_get_in [of _ "replicate (length done) None" _ "map Some xs @ rest"]) (simp_all add: Cons.prems)
  moreover have "cell_new i x new = Some (map Some done @ Some x # replicate (length xs + k) None)"
    by (rule cell_new_in) (simp_all add: Cons.prems)
  moreover have "cell_delete i old = Some (replicate (length done) None @ None # map Some xs @ rest)"
    by (rule cell_delete_in) (simp_all add: Cons.prems)
  moreover have "move_elements n (i + 1) (replicate (length done) None @ None # map Some xs @ rest)
      (map Some done @ Some x # replicate (length xs + k) None) = Some (map Some ((done @ [x]) @ xs) @ replicate k None)"
    by (rule Cons.IH) (simp_all add: Cons.prems replicate_append_same [symmetric] flip: replicate_append_same)
  ultimately show ?case using Cons.prems by (subst move_elements.simps) simp
qed

lemma vector_realloc_rep:
  assumes "vec_rep v xs" "vec_count v \<le> c"
  shows "\<exists>v'. vector_realloc c v = Some v' \<and> vec_rep v' xs \<and> vec_capacity v' = c"
proof -
  obtain k where k: "vec_buf v = map Some xs @ replicate k None" "vec_count v = int (length xs)"
    using assms(1) by (auto simp: vec_rep_def)
  have "replicate (nat c) None = map Some [] @ replicate (length xs + (nat c - length xs)) (None :: 'a option)"
    using assms(2) k(2) by simp
  then have "move_elements (vec_count v) 0 (vec_buf v) (replicate (nat c) None)
      = Some (map Some ([] @ xs) @ replicate (nat c - length xs) None)"
    by (intro move_elements_rep [where rest = "replicate k None"]) (simp_all add: k)
  then show ?thesis using k(2) assms(2) by (auto simp: vector_realloc_def vec_rep_def)
qed

lemma vectorReserveCapacity_rep:
  assumes "vec_rep v xs" "vec_capacity v < 2 ^ 30"
  shows "\<exists>v'. vectorReserveCapacity c v = Some v' \<and> vec_rep v' xs \<and> c \<le> vec_capacity v'"
proof (cases "vec_capacity v < c")
  case True
  define d where "d = (if vec_capacity v > 0 then vec_capacity v * 2 else 4)"
  have n: "0 \<le> vec_count v" "vec_count v \<le> vec_capacity v" using assms(1) by (auto simp: vec_rep_def)
  with True have "vec_count v \<le> (if d < c then c else d)" by (auto simp: d_def)
  from vector_realloc_rep [OF assms(1) this] assms(2) True n show ?thesis
    by (auto simp: vectorReserveCapacity_def Let_def d_def split: if_splits)
qed (use assms in \<open>auto simp: vectorReserveCapacity_def\<close>)

lemma vector_room:
  assumes "vec_rep v xs" "vec_capacity v < 2 ^ 30"
  obtains v' k where "vectorReserveCapacity (vec_count v + 1) v = Some v'" "vec_count v' = int (length xs)"
    "vec_buf v' = map Some xs @ None # replicate k None" "vec_capacity v' = int (length xs + Suc k)"
proof -
  obtain v' where v': "vectorReserveCapacity (vec_count v + 1) v = Some v'" "vec_rep v' xs"
    "vec_count v + 1 \<le> vec_capacity v'"
    using vectorReserveCapacity_rep [OF assms] by blast
  then obtain k where "vec_buf v' = map Some xs @ replicate k None" by (auto simp: vec_rep_def)
  moreover have "k \<noteq> 0" using v' assms(1) calculation by (auto simp: vec_rep_def)
  then obtain k' where "k = Suc k'" by (cases k) auto
  ultimately show thesis using v' by (intro that [of v' k']) (auto simp: vec_rep_def)
qed

lemma shift_right_rep:
  assumes "buf = map Some (as @ bs) @ None # rest" "i = int (length as)" "j = int (length as + length bs) - 1"
  shows "shift_right i j buf = Some (map Some as @ None # map Some bs @ rest)"
  using assms
proof (induction bs arbitrary: j buf rest rule: rev_induct)
  case Nil
  then show ?case by (simp add: shift_right.simps)
next
  case (snoc b bs)
  have j: "j = int (length (as @ bs))" using snoc.prems by simp
  have buf: "buf = map Some (as @ bs) @ Some b # None # rest" using snoc.prems by simp
  have "cell_get j buf = Some b" by (rule cell_get_in [OF buf]) (simp add: j)
  moreover have "cell_new (j + 1) b buf = Some ((map Some (as @ bs) @ [Some b]) @ Some b # rest)"
    by (rule cell_new_in) (simp_all add: j buf)
  moreover have "cell_delete j ((map Some (as @ bs) @ [Some b]) @ Some b # rest)
      = Some (map Some (as @ bs) @ None # Some b # rest)"
    by (rule cell_delete_in) (simp_all add: j)
  moreover have "shift_right i (j - 1) (map Some (as @ bs) @ None # Some b # rest)
      = Some (map Some as @ None # map Some bs @ Some b # rest)"
    by (rule snoc.IH) (simp_all add: snoc.prems)
  ultimately show ?case using j snoc.prems by (subst shift_right.simps) (simp add: cell_move_def)
qed

lemma shift_left_rep:
  assumes "buf = map Some as @ None # map Some bs @ rest" "i = int (length as) + 1"
    "n = int (length as + length bs) + 1"
  shows "shift_left n i buf = Some (map Some (as @ bs) @ None # rest)"
  using assms
proof (induction bs arbitrary: as i buf)
  case Nil
  then show ?case by (simp add: shift_left.simps)
next
  case (Cons b bs)
  have buf: "buf = (map Some as @ [None]) @ Some b # map Some bs @ rest" using Cons.prems by simp
  have "cell_get i buf = Some b" by (rule cell_get_in [OF buf]) (simp add: Cons.prems)
  moreover have "cell_new (i - 1) b buf = Some (map Some as @ Some b # Some b # map Some bs @ rest)"
    by (rule cell_new_in) (simp_all add: Cons.prems)
  moreover have "cell_delete i (map Some as @ Some b # Some b # map Some bs @ rest)
      = Some ((map Some as @ [Some b]) @ None # map Some bs @ rest)"
    by (rule cell_delete_in) (simp_all add: Cons.prems)
  moreover have "shift_left n (i + 1) ((map Some as @ [Some b]) @ None # map Some bs @ rest)
      = Some (map Some ((as @ [b]) @ bs) @ None # rest)"
    by (rule Cons.IH) (simp_all add: Cons.prems)
  ultimately show ?case using Cons.prems by (subst shift_left.simps) (simp add: cell_move_def)
qed

lemma destroy_elements_rep:
  assumes "buf = replicate m None @ map Some xs @ rest" "i = int m"
    "n = int (m + length xs)"
  shows "destroy_elements n i buf = Some (replicate (m + length xs) None @ rest)"
  using assms
proof (induction xs arbitrary: m i buf)
  case Nil
  then show ?case by (simp add: destroy_elements.simps)
next
  case (Cons x xs)
  have "cell_delete i buf = Some (replicate m None @ None # map Some xs @ rest)"
    by (rule cell_delete_in) (simp_all add: Cons.prems)
  moreover have "destroy_elements n (i + 1) (replicate m None @ None # map Some xs @ rest)
      = Some (replicate (Suc m + length xs) None @ rest)"
    by (rule Cons.IH) (simp_all add: Cons.prems flip: replicate_append_same)
  ultimately show ?case using Cons.prems by (subst destroy_elements.simps) simp
qed

lemma cell_get_rep: "cell_get i (map Some xs @ replicate k None) = Some x \<longleftrightarrow> 0 \<le> i \<and> i < int (length xs) \<and> xs ! nat i = x"
  by (auto simp: cell_get_def nth_append)

lemma vector_contains_rep:
  assumes "vec_rep v xs"
  shows "vector_contains x v \<longleftrightarrow> x \<in> set xs"
proof -
  obtain k where k: "vec_buf v = map Some xs @ replicate k None" "vec_count v = int (length xs)"
    using assms by (auto simp: vec_rep_def)
  have "vector_contains_loop x (vec_buf v) (int n - 1) \<longleftrightarrow> x \<in> set (take n xs)" if "n \<le> length xs" for n
    using that
  proof (induction n)
    case 0
    then show ?case by (simp add: vector_contains_loop.simps)
  next
    case (Suc n)
    then show ?case by (subst vector_contains_loop.simps) (auto simp: k cell_get_rep take_Suc_conv_app_nth)
  qed
  from this [of "length xs"] show ?thesis by (simp add: vector_contains_def k)
qed

lemma vector_indexOf_rep:
  assumes "vec_rep v xs"
  shows "vector_indexOf x v = (if x \<in> set xs then int (length (takeWhile (\<lambda>y. y \<noteq> x) xs)) else -1)"
proof -
  obtain k where k: "vec_buf v = map Some xs @ replicate k None" "vec_count v = int (length xs)"
    using assms by (auto simp: vec_rep_def)
  have "vector_indexOf_loop x (vec_buf v) (vec_count v) (int (length as))
      = (if x \<in> set bs then int (length as + length (takeWhile (\<lambda>y. y \<noteq> x) bs)) else -1)" if "xs = as @ bs" for as bs
    using that
  proof (induction bs arbitrary: as)
    case Nil
    then show ?case by (subst vector_indexOf_loop.simps) (simp add: k)
  next
    case (Cons b bs)
    have "cell_get (int (length as)) (vec_buf v) = Some b" using Cons.prems by (simp add: k cell_get_def nth_append)
    then show ?case using Cons.prems Cons.IH [of "as @ [b]"]
      by (subst vector_indexOf_loop.simps) (simp add: k add.commute)
  qed
  from this [of "[]" xs] show ?thesis by (simp add: vector_indexOf_def)
qed

section \<open>The operations on lists\<close>

datatype 'a vec_op = AddItem 'a | InsertAtIndex int 'a | RemoveAtIndex int | PopItem | Clear
| ReserveCapacity int | ReserveCapacityExact int

definition exec_vec_op :: "'a vec_op \<Rightarrow> 'a os_vector \<Rightarrow> 'a os_vector option" where
  "exec_vec_op op v =
     (case op of
        AddItem x \<Rightarrow> vectorAddItem x v
      | InsertAtIndex i x \<Rightarrow> vectorInsertAtIndex i x v
      | RemoveAtIndex i \<Rightarrow> vectorRemoveAtIndex i v
      | PopItem \<Rightarrow> Option.bind (vectorPop v) (\<lambda>(x, v). Some v)
      | Clear \<Rightarrow> vectorClear v
      | ReserveCapacity c \<Rightarrow> vectorReserveCapacity c v
      | ReserveCapacityExact c \<Rightarrow> vectorReserveCapacityExact c v)"

definition vec_op_spec :: "'a vec_op \<Rightarrow> 'a list \<Rightarrow> 'a list option" where
  "vec_op_spec op xs =
     (case op of
        AddItem x \<Rightarrow> Some (xs @ [x])
      | InsertAtIndex i x \<Rightarrow>
          (if 0 \<le> i \<and> i \<le> int (length xs) then Some (take (nat i) xs @ x # drop (nat i) xs) else None)
      | RemoveAtIndex i \<Rightarrow>
          (if 0 \<le> i \<and> i < int (length xs) then Some (take (nat i) xs @ drop (Suc (nat i)) xs) else None)
      | PopItem \<Rightarrow> (if xs = [] then None else Some (butlast xs))
      | Clear \<Rightarrow> Some []
      | ReserveCapacity c \<Rightarrow> Some xs
      | ReserveCapacityExact c \<Rightarrow> Some xs)"

lemma vectorAddItem_rep:
  assumes "vec_rep v xs" "vec_capacity v < 2 ^ 30"
  shows "\<exists>v'. vectorAddItem x v = Some v' \<and> vec_rep v' (xs @ [x])"
proof -
  obtain v' k where v': "vectorReserveCapacity (vec_count v + 1) v = Some v'" "vec_count v' = int (length xs)"
    "vec_buf v' = map Some xs @ None # replicate k None" "vec_capacity v' = int (length xs + Suc k)"
    using vector_room [OF assms] by blast
  have "cell_new (vec_count v') x (vec_buf v') = Some (map Some xs @ Some x # replicate k None)"
    by (rule cell_new_in [OF v'(3)]) (simp add: v')
  then show ?thesis by (auto simp: vectorAddItem_def v' vec_rep_def)
qed

lemma vectorInsertAtIndex_rep:
  assumes "vec_rep v (as @ bs)" "vec_capacity v < 2 ^ 30" "i = int (length as)"
  shows "\<exists>v'. vectorInsertAtIndex i x v = Some v' \<and> vec_rep v' (as @ x # bs)"
proof -
  obtain v' k where v': "vectorReserveCapacity (vec_count v + 1) v = Some v'" "vec_count v' = int (length (as @ bs))"
    "vec_buf v' = map Some (as @ bs) @ None # replicate k None" "vec_capacity v' = int (length (as @ bs) + Suc k)"
    using vector_room [OF assms(1,2)] by blast
  have "shift_right i (vec_count v' - 1) (vec_buf v') = Some (map Some as @ None # map Some bs @ replicate k None)"
    by (rule shift_right_rep) (simp_all add: v' assms(3))
  moreover have "cell_new i x (map Some as @ None # map Some bs @ replicate k None)
      = Some (map Some as @ Some x # map Some bs @ replicate k None)"
    by (rule cell_new_in) (simp_all add: assms(3))
  ultimately have "vectorInsertAtIndex i x v
      = Some (v'\<lparr>vec_buf := map Some (as @ x # bs) @ replicate k None, vec_count := vec_count v' + 1\<rparr>)"
    using assms(1,3) unfolding vectorInsertAtIndex_def v'(1) by (simp add: vec_rep_def)
  then show ?thesis using v' by (auto simp: vec_rep_def)
qed

lemma vectorRemoveAtIndex_rep:
  assumes "vec_rep v (as @ x # bs)" "i = int (length as)"
  shows "\<exists>v'. vectorRemoveAtIndex i v = Some v' \<and> vec_rep v' (as @ bs)"
proof -
  obtain k where k: "vec_buf v = map Some as @ Some x # map Some bs @ replicate k None"
    "vec_count v = int (length (as @ x # bs))" "vec_capacity v = int (length (vec_buf v))"
    using assms(1) by (auto simp: vec_rep_def)
  have "cell_delete i (vec_buf v) = Some (map Some as @ None # map Some bs @ replicate k None)"
    by (rule cell_delete_in [OF k(1)]) (simp add: assms(2))
  moreover have "shift_left (vec_count v) (i + 1) (map Some as @ None # map Some bs @ replicate k None)
      = Some (map Some (as @ bs) @ None # replicate k None)"
    by (rule shift_left_rep) (simp_all add: k assms(2))
  ultimately have "vectorRemoveAtIndex i v = Some (v\<lparr>vec_buf := map Some (as @ bs) @ replicate (Suc k) None,
      vec_count := vec_count v - 1\<rparr>)"
    using assms(2) by (simp add: vectorRemoveAtIndex_def k(2))
  then show ?thesis using k by (auto simp: vec_rep_def simp del: replicate_Suc)
qed

lemma vectorClear_rep:
  assumes "vec_rep v xs"
  shows "vectorClear v = Some empty_vector"
proof -
  obtain k where k: "vec_buf v = map Some xs @ replicate k None" "vec_count v = int (length xs)"
    using assms by (auto simp: vec_rep_def)
  have "destroy_elements (vec_count v) 0 (vec_buf v) = Some (replicate (0 + length xs) None @ replicate k None)"
    by (rule destroy_elements_rep) (simp_all add: k)
  then show ?thesis by (simp add: vectorClear_def set_replicate_conv_if)
qed

text \<open>
  C31: the operations of \<open>OS::Vector\<close> are the operations of a list: adding, inserting, removing, popping,
  clearing and reserving succeed whenever they are legal on the list, give the list they stand for,
  and keep exactly the elements in use constructed, so that every element is constructed before it is
  used and destroyed once; \<open>contains\<close> and \<open>indexOf\<close> search the list.
\<close>

theorem vector_ops_refine:
  assumes "vec_rep v xs" "vec_capacity v < 2 ^ 30"
  shows "(\<forall>ys. vec_op_spec op xs = Some ys \<longrightarrow> (\<exists>v'. exec_vec_op op v = Some v' \<and> vec_rep v' ys))
    \<and> (vector_contains x v \<longleftrightarrow> x \<in> set xs)
    \<and> vector_indexOf x v = (if x \<in> set xs then int (length (takeWhile (\<lambda>y. y \<noteq> x) xs)) else -1)"
proof (intro conjI allI impI)
  fix ys
  assume ys: "vec_op_spec op xs = Some ys"
  have empty: "vec_rep empty_vector []" by (simp add: vec_rep_def empty_vector_def)
  show "\<exists>v'. exec_vec_op op v = Some v' \<and> vec_rep v' ys"
  proof (cases op)
    case (InsertAtIndex i y)
    with ys have i: "xs = take (nat i) xs @ drop (nat i) xs" "i = int (length (take (nat i) xs))"
      "ys = take (nat i) xs @ y # drop (nat i) xs" by (auto simp: vec_op_spec_def split: if_splits)
    with vectorInsertAtIndex_rep [of v "take (nat i) xs" "drop (nat i) xs" i y] assms InsertAtIndex
    show ?thesis by (simp add: exec_vec_op_def)
  next
    case (RemoveAtIndex i)
    with ys have i: "nat i < length xs" "i = int (length (take (nat i) xs))"
      "ys = take (nat i) xs @ drop (Suc (nat i)) xs" by (auto simp: vec_op_spec_def split: if_splits)
    with vectorRemoveAtIndex_rep [of v "take (nat i) xs" "xs ! nat i" "drop (Suc (nat i)) xs" i] assms(1) RemoveAtIndex
    show ?thesis by (simp add: exec_vec_op_def id_take_nth_drop [symmetric])
  next
    case PopItem
    with ys obtain as y where xs: "xs = as @ [y]" "ys = as"
      by (cases xs rule: rev_cases) (auto simp: vec_op_spec_def)
    have c: "vec_count v = int (length as) + 1" using assms(1) xs by (simp add: vec_rep_def)
    moreover have "cell_get (int (length as)) (vec_buf v) = Some y"
      using assms(1) xs by (auto simp: vec_rep_def cell_get_def nth_append)
    ultimately show ?thesis using PopItem vectorRemoveAtIndex_rep [of v as y "[]" "int (length as)"] assms(1) xs
      by (auto simp: exec_vec_op_def vectorPop_def lastElement_def)
  next
    case (ReserveCapacityExact c)
    show ?thesis
    proof (cases "vec_capacity v < c")
      case True
      with assms(1) have "vec_count v \<le> c" by (auto simp: vec_rep_def)
      from vector_realloc_rep [OF assms(1) this] True ys ReserveCapacityExact show ?thesis
        by (auto simp: exec_vec_op_def vectorReserveCapacityExact_def vec_op_spec_def)
    qed (use ys assms ReserveCapacityExact in
        \<open>auto simp: exec_vec_op_def vectorReserveCapacityExact_def vec_op_spec_def\<close>)
  qed (use ys assms empty vectorAddItem_rep vectorReserveCapacity_rep vectorClear_rep in
      \<open>fastforce simp: exec_vec_op_def vec_op_spec_def\<close>)+
qed (simp_all add: vector_contains_rep [OF assms(1)] vector_indexOf_rep [OF assms(1)])

definition sample_vector :: "nat os_vector" where
  "sample_vector = \<lparr>vec_buf = [Some 3, Some 1, Some 4, Some 1], vec_capacity = 4, vec_count = 4\<rparr>"

theorem vector_ops_refine_witness:
  "(\<exists>v'. exec_vec_op (InsertAtIndex 1 9) sample_vector = Some v' \<and> vec_rep v' [3, 9, 1, 4, 1])
   \<and> vector_indexOf 1 sample_vector = 1 \<and> vector_contains 4 sample_vector"
proof -
  have "vec_rep sample_vector [3, 1, 4, 1]" by (simp add: vec_rep_def sample_vector_def)
  moreover have "vec_capacity sample_vector < 2 ^ 30" by (simp add: sample_vector_def)
  ultimately show ?thesis
    using vector_ops_refine [of sample_vector "[3, 1, 4, 1]" "InsertAtIndex 1 9" 1]
      vector_ops_refine [of sample_vector "[3, 1, 4, 1]" "InsertAtIndex 1 9" 4]
    by (simp add: vec_op_spec_def)
qed

end
