(* ===== verification/Streams.thy ===== *)
theory Streams
  imports Vectors
begin

text \<open>
  \<open>StreamWriter\<close>, \<open>StreamReader\<close> and their in-memory subclasses.  The virtual functions that the base
  classes call are the record \<open>writer_vt\<close>; \<open>mem_writer_vt\<close> holds those of \<open>MemStreamWriter\<close>.  Floats,
  doubles and long doubles are their object representations, the host is little endian, so that
  \<open>toLittleEndianByteOrder\<close> is the identity on integers and only fixes the order of the bytes.  The
  file streams, which forward to the file functions of the host, are not modelled.

  The locale \<open>byte_writer\<close> is what the writers of whole structures rely on: bytes written are appended
  to the output.  It is interpreted on \<open>MemStreamWriter\<close>.
\<close>

section \<open>Byte order\<close>

fun le_bytes :: "nat \<Rightarrow> 'a::len word \<Rightarrow> bytes" where
  "le_bytes 0 w = []"
| "le_bytes (Suc n) w = ucast w # le_bytes n (drop_bit 8 w)"

fun of_le_bytes :: "bytes \<Rightarrow> 'a::len word" where
  "of_le_bytes [] = 0"
| "of_le_bytes (b # bs) = ucast b OR push_bit 8 (of_le_bytes bs)"

lemma length_le_bytes [simp]: "length (le_bytes n w) = n"
  by (induction n arbitrary: w) auto

lemma of_le_bytes_le_bytes: "of_le_bytes (le_bytes n w) = take_bit (8 * n) w"
proof (induction n arbitrary: w)
  case 0
  then show ?case by simp
next
  case (Suc n)
  show ?case
    unfolding le_bytes.simps of_le_bytes.simps Suc.IH
    by (rule bit_word_eqI) (auto simp: bit_or_iff bit_ucast_iff bit_push_bit_iff bit_take_bit_iff bit_drop_bit_eq)
qed

lemma of_le_bytes_word: "LENGTH('a::len) \<le> 8 * n \<Longrightarrow> of_le_bytes (le_bytes n w) = (w :: 'a word)"
  by (simp add: of_le_bytes_le_bytes take_bit_word_eq_self)

section \<open>Writers\<close>

record 'w writer_vt =
  vt_writeByte :: "int \<Rightarrow> 'w \<Rightarrow> 'w option"
  vt_writeBytes :: "bytes \<Rightarrow> 'w \<Rightarrow> 'w option"
  vt_writeBytesAtPos :: "bytes \<Rightarrow> int \<Rightarrow> 'w \<Rightarrow> 'w option"

definition stream_writeByte :: "'w writer_vt \<Rightarrow> int \<Rightarrow> 'w \<Rightarrow> 'w option" where
  "stream_writeByte vt val w =
     os_assert (val \<ge> 0 \<and> val \<le> 0xff) (vt_writeBytes vt (le_bytes 1 (word_of_int val :: u8)) w)"

definition stream_writeByteAtPos :: "'w writer_vt \<Rightarrow> int \<Rightarrow> int \<Rightarrow> 'w \<Rightarrow> 'w option" where
  "stream_writeByteAtPos vt val pos w =
     os_assert (val \<ge> 0 \<and> val \<le> 0xff) (vt_writeBytesAtPos vt (le_bytes 1 (word_of_int val :: u8)) pos w)"

function uvar_loop :: "'w writer_vt \<Rightarrow> int \<Rightarrow> 'w \<Rightarrow> 'w option" where
  "uvar_loop vt val w =
     (if val \<ge> 0x7f then
        Option.bind (vt_writeByte vt ((val AND 0x7f) OR 0x80) w) (uvar_loop vt (drop_bit 7 val))
      else vt_writeByte vt val w)"
  by auto
termination
  by (relation "measure (\<lambda>(vt, val, w). nat val)") (auto simp: drop_bit_eq_div)

definition writeUVariable :: "'w writer_vt \<Rightarrow> int \<Rightarrow> 'w \<Rightarrow> 'w option" where
  "writeUVariable vt val w = os_assert (val \<ge> 0) (uvar_loop vt val w)"

definition writeU16 :: "'w writer_vt \<Rightarrow> int \<Rightarrow> 'w \<Rightarrow> 'w option" where
  "writeU16 vt val w =
     os_assert (val \<ge> 0 \<and> val \<le> 0xffff) (vt_writeBytes vt (le_bytes 2 (word_of_int val :: u16)) w)"

definition writeU16AtPos :: "'w writer_vt \<Rightarrow> int \<Rightarrow> int \<Rightarrow> 'w \<Rightarrow> 'w option" where
  "writeU16AtPos vt val pos w =
     os_assert (val \<ge> 0 \<and> val \<le> 0xffff) (vt_writeBytesAtPos vt (le_bytes 2 (word_of_int val :: u16)) pos w)"

definition writeInt8 :: "'w writer_vt \<Rightarrow> int \<Rightarrow> 'w \<Rightarrow> 'w option" where
  "writeInt8 vt val w =
     os_assert (sint (word_of_int val :: u8) = val) (vt_writeBytes vt (le_bytes 1 (word_of_int val :: u8)) w)"

definition writeInt8AtPos :: "'w writer_vt \<Rightarrow> int \<Rightarrow> int \<Rightarrow> 'w \<Rightarrow> 'w option" where
  "writeInt8AtPos vt val pos w =
     os_assert (sint (word_of_int val :: u8) = val)
       (vt_writeBytesAtPos vt (le_bytes 1 (word_of_int val :: u8)) pos w)"

definition writeInt16 :: "'w writer_vt \<Rightarrow> int \<Rightarrow> 'w \<Rightarrow> 'w option" where
  "writeInt16 vt val w =
     os_assert (sint (word_of_int val :: u16) = val) (vt_writeBytes vt (le_bytes 2 (word_of_int val :: u16)) w)"

definition writeInt16AtPos :: "'w writer_vt \<Rightarrow> int \<Rightarrow> int \<Rightarrow> 'w \<Rightarrow> 'w option" where
  "writeInt16AtPos vt val pos w =
     os_assert (sint (word_of_int val :: u16) = val)
       (vt_writeBytesAtPos vt (le_bytes 2 (word_of_int val :: u16)) pos w)"

definition writeInt32 :: "'w writer_vt \<Rightarrow> u32 \<Rightarrow> 'w \<Rightarrow> 'w option" where
  "writeInt32 vt val w = vt_writeBytes vt (le_bytes 4 val) w"

definition writeInt32AtPos :: "'w writer_vt \<Rightarrow> u32 \<Rightarrow> int \<Rightarrow> 'w \<Rightarrow> 'w option" where
  "writeInt32AtPos vt val pos w = vt_writeBytesAtPos vt (le_bytes 4 val) pos w"

definition writeInt64 :: "'w writer_vt \<Rightarrow> u64 \<Rightarrow> 'w \<Rightarrow> 'w option" where
  "writeInt64 vt val w = vt_writeBytes vt (le_bytes 8 val) w"

definition writeInt64AtPos :: "'w writer_vt \<Rightarrow> u64 \<Rightarrow> int \<Rightarrow> 'w \<Rightarrow> 'w option" where
  "writeInt64AtPos vt val pos w = vt_writeBytesAtPos vt (le_bytes 8 val) pos w"

definition writeFloat :: "'w writer_vt \<Rightarrow> u32 \<Rightarrow> 'w \<Rightarrow> 'w option" where
  "writeFloat vt val w = vt_writeBytes vt (le_bytes 4 val) w"

definition writeFloatAtPos :: "'w writer_vt \<Rightarrow> u32 \<Rightarrow> int \<Rightarrow> 'w \<Rightarrow> 'w option" where
  "writeFloatAtPos vt val pos w = vt_writeBytesAtPos vt (le_bytes 4 val) pos w"

definition writeDouble :: "'w writer_vt \<Rightarrow> u64 \<Rightarrow> 'w \<Rightarrow> 'w option" where
  "writeDouble vt val w = vt_writeBytes vt (le_bytes 8 val) w"

definition writeDoubleAtPos :: "'w writer_vt \<Rightarrow> u64 \<Rightarrow> int \<Rightarrow> 'w \<Rightarrow> 'w option" where
  "writeDoubleAtPos vt val pos w = vt_writeBytesAtPos vt (le_bytes 8 val) pos w"

text \<open>A long double is given as its bytes, as many as the host's type has.\<close>

definition writeLongDouble :: "'w writer_vt \<Rightarrow> bytes \<Rightarrow> 'w \<Rightarrow> 'w option" where
  "writeLongDouble vt val w = vt_writeBytes vt val w"

definition writeLongDoubleAtPos :: "'w writer_vt \<Rightarrow> bytes \<Rightarrow> int \<Rightarrow> 'w \<Rightarrow> 'w option" where
  "writeLongDoubleAtPos vt val pos w = vt_writeBytesAtPos vt val pos w"

section \<open>The in-memory writer\<close>

record mem_writer =
  mw_buffer :: "u8 os_vector"
  mw_pos :: int

definition new_mem_writer :: mem_writer where
  "new_mem_writer = \<lparr>mw_buffer = empty_vector, mw_pos = 0\<rparr>"

definition mem_writer_setPos :: "int \<Rightarrow> mem_writer \<Rightarrow> mem_writer option" where
  "mem_writer_setPos new_pos w =
     os_assert (new_pos \<ge> 0 \<and> new_pos \<le> vec_count (mw_buffer w)) (Some (w\<lparr>mw_pos := new_pos\<rparr>))"

definition mem_writer_getSize :: "mem_writer \<Rightarrow> int" where
  "mem_writer_getSize w = vec_count (mw_buffer w)"

definition mem_writer_clear :: "mem_writer \<Rightarrow> mem_writer option" where
  "mem_writer_clear w =
     Option.bind (vectorClear (mw_buffer w)) (\<lambda>v. Some (w\<lparr>mw_buffer := v, mw_pos := 0\<rparr>))"

text \<open>\<open>memcpy\<close> of the bytes in use into the new block.\<close>

definition mem_writer_reserveCapacity :: "int \<Rightarrow> mem_writer \<Rightarrow> mem_writer option" where
  "mem_writer_reserveCapacity new_capacity w =
     (let v = mw_buffer w in
      if vec_capacity v < new_capacity then
        os_assert (vec_capacity v * 2 < 2 ^ 31)
          (let c = (if vec_capacity v > 0 then vec_capacity v * 2 else 4);
               c = (if c < new_capacity then new_capacity else c)
           in Some (w\<lparr>mw_buffer := v\<lparr>vec_capacity := c,
                vec_buf := take (nat (vec_count v)) (vec_buf v) @ replicate (nat (c - vec_count v)) None\<rparr>\<rparr>))
      else Some w)"

definition mem_writeBytesAtPos :: "bytes \<Rightarrow> int \<Rightarrow> mem_writer \<Rightarrow> mem_writer option" where
  "mem_writeBytesAtPos bs pos w =
     (let v = mw_buffer w in
      os_assert (pos \<ge> 0 \<and> pos \<le> vec_count v - int (length bs))
        (os_assert (pos + int (length bs) \<le> int (length (vec_buf v)))
          (Some (w\<lparr>mw_buffer := v\<lparr>vec_buf :=
             take (nat pos) (vec_buf v) @ map Some bs @ drop (nat pos + length bs) (vec_buf v)\<rparr>\<rparr>))))"

definition mem_writeBytes :: "bytes \<Rightarrow> mem_writer \<Rightarrow> mem_writer option" where
  "mem_writeBytes bs w =
     Option.bind (mem_writer_reserveCapacity (mw_pos w + int (length bs)) w) (\<lambda>w.
       let save_pos = mw_pos w;
           w = w\<lparr>mw_pos := mw_pos w + int (length bs)\<rparr>;
           w = (if vec_count (mw_buffer w) \<le> mw_pos w
                then w\<lparr>mw_buffer := (mw_buffer w)\<lparr>vec_count := mw_pos w\<rparr>\<rparr> else w)
       in mem_writeBytesAtPos bs save_pos w)"

definition mem_writeByteAtPos :: "int \<Rightarrow> int \<Rightarrow> mem_writer \<Rightarrow> mem_writer option" where
  "mem_writeByteAtPos val pos w =
     os_assert (val \<ge> 0 \<and> val \<le> 0xff) (os_assert (pos \<ge> 0 \<and> pos \<le> vec_count (mw_buffer w) - 1)
       (Some (w\<lparr>mw_buffer := (mw_buffer w)\<lparr>vec_buf := (vec_buf (mw_buffer w))[nat pos := Some (word_of_int val)]\<rparr>\<rparr>)))"

definition mem_writeByte :: "int \<Rightarrow> mem_writer \<Rightarrow> mem_writer option" where
  "mem_writeByte val w =
     os_assert (val \<ge> 0 \<and> val \<le> 0xff)
       (if mw_pos w < vec_count (mw_buffer w) then
          os_assert (mw_pos w \<ge> 0)
            (Some (w\<lparr>mw_buffer := (mw_buffer w)\<lparr>vec_buf :=
                (vec_buf (mw_buffer w))[nat (mw_pos w) := Some (word_of_int val)]\<rparr>, mw_pos := mw_pos w + 1\<rparr>))
        else Option.bind (vectorAddItem (word_of_int val) (mw_buffer w)) (\<lambda>v.
               Some (w\<lparr>mw_buffer := v, mw_pos := mw_pos w + 1\<rparr>)))"

definition mem_writer_vt :: "mem_writer writer_vt" where
  "mem_writer_vt = \<lparr>vt_writeByte = mem_writeByte, vt_writeBytes = mem_writeBytes,
     vt_writeBytesAtPos = mem_writeBytesAtPos\<rparr>"

section \<open>Readers\<close>

type_synonym 'r read_bytes = "int \<Rightarrow> 'r \<Rightarrow> (bytes \<times> 'r) option"
type_synonym 'r read_bytes_at = "int \<Rightarrow> int \<Rightarrow> 'r \<Rightarrow> bytes option"

definition stream_readByte :: "'r read_bytes \<Rightarrow> 'r \<Rightarrow> (u8 \<times> 'r) option" where
  "stream_readByte readBytes r = Option.bind (readBytes 1 r) (\<lambda>(bs, r). Some (of_le_bytes bs, r))"

definition stream_readByteAtPos :: "'r read_bytes_at \<Rightarrow> int \<Rightarrow> 'r \<Rightarrow> u8 option" where
  "stream_readByteAtPos readBytesAtPos pos r = map_option of_le_bytes (readBytesAtPos 1 pos r)"

text \<open>The value is an \<open>int\<close>; shifting it by its width or more is undefined.\<close>

partial_function (option) read_uvar_loop ::
  "('r \<Rightarrow> (u8 \<times> 'r) option) \<Rightarrow> 'r \<Rightarrow> nat \<Rightarrow> u32 \<Rightarrow> (int \<times> 'r) option" where
  "read_uvar_loop readByte r i val =
     Option.bind (readByte r) (\<lambda>(b, r).
       if i \<ge> 32 then None
       else if b AND 0x80 \<noteq> 0 then read_uvar_loop readByte r (i + 7) (val OR push_bit i (ucast (b AND 0x7f)))
       else if sint (val OR push_bit i (ucast b)) \<ge> 0 then Some (sint (val OR push_bit i (ucast b)), r)
       else None)"

definition readUVariable :: "('r \<Rightarrow> (u8 \<times> 'r) option) \<Rightarrow> 'r \<Rightarrow> (int \<times> 'r) option" where
  "readUVariable readByte r =
     Option.bind (readByte r) (\<lambda>(b, r).
       if b AND 0x80 = 0 then Some (uint b, r)
       else read_uvar_loop readByte r 7 (ucast (b AND 0x7f)))"

definition readU16 :: "'r read_bytes \<Rightarrow> 'r \<Rightarrow> (u16 \<times> 'r) option" where
  "readU16 readBytes r = Option.bind (readBytes 2 r) (\<lambda>(bs, r). Some (of_le_bytes bs, r))"

definition readU16AtPos :: "'r read_bytes_at \<Rightarrow> int \<Rightarrow> 'r \<Rightarrow> u16 option" where
  "readU16AtPos readBytesAtPos pos r = map_option of_le_bytes (readBytesAtPos 2 pos r)"

definition stream_readInt8 :: "'r read_bytes \<Rightarrow> 'r \<Rightarrow> (u8 \<times> 'r) option" where
  "stream_readInt8 readBytes r = Option.bind (readBytes 1 r) (\<lambda>(bs, r). Some (of_le_bytes bs, r))"

definition readInt8AtPos :: "'r read_bytes_at \<Rightarrow> int \<Rightarrow> 'r \<Rightarrow> u8 option" where
  "readInt8AtPos readBytesAtPos pos r = map_option of_le_bytes (readBytesAtPos 1 pos r)"

definition stream_readInt16 :: "'r read_bytes \<Rightarrow> 'r \<Rightarrow> (u16 \<times> 'r) option" where
  "stream_readInt16 readBytes r = Option.bind (readBytes 2 r) (\<lambda>(bs, r). Some (of_le_bytes bs, r))"

definition readInt16AtPos :: "'r read_bytes_at \<Rightarrow> int \<Rightarrow> 'r \<Rightarrow> u16 option" where
  "readInt16AtPos readBytesAtPos pos r = map_option of_le_bytes (readBytesAtPos 2 pos r)"

definition stream_readInt32 :: "'r read_bytes \<Rightarrow> 'r \<Rightarrow> (u32 \<times> 'r) option" where
  "stream_readInt32 readBytes r = Option.bind (readBytes 4 r) (\<lambda>(bs, r). Some (of_le_bytes bs, r))"

definition readInt32AtPos :: "'r read_bytes_at \<Rightarrow> int \<Rightarrow> 'r \<Rightarrow> u32 option" where
  "readInt32AtPos readBytesAtPos pos r = map_option of_le_bytes (readBytesAtPos 4 pos r)"

definition readInt64 :: "'r read_bytes \<Rightarrow> 'r \<Rightarrow> (u64 \<times> 'r) option" where
  "readInt64 readBytes r = Option.bind (readBytes 8 r) (\<lambda>(bs, r). Some (of_le_bytes bs, r))"

definition readInt64AtPos :: "'r read_bytes_at \<Rightarrow> int \<Rightarrow> 'r \<Rightarrow> u64 option" where
  "readInt64AtPos readBytesAtPos pos r = map_option of_le_bytes (readBytesAtPos 8 pos r)"

definition readFloat :: "'r read_bytes \<Rightarrow> 'r \<Rightarrow> (u32 \<times> 'r) option" where
  "readFloat readBytes r = Option.bind (readBytes 4 r) (\<lambda>(bs, r). Some (of_le_bytes bs, r))"

definition readFloatAtPos :: "'r read_bytes_at \<Rightarrow> int \<Rightarrow> 'r \<Rightarrow> u32 option" where
  "readFloatAtPos readBytesAtPos pos r = map_option of_le_bytes (readBytesAtPos 4 pos r)"

definition readDouble :: "'r read_bytes \<Rightarrow> 'r \<Rightarrow> (u64 \<times> 'r) option" where
  "readDouble readBytes r = Option.bind (readBytes 8 r) (\<lambda>(bs, r). Some (of_le_bytes bs, r))"

definition readDoubleAtPos :: "'r read_bytes_at \<Rightarrow> int \<Rightarrow> 'r \<Rightarrow> u64 option" where
  "readDoubleAtPos readBytesAtPos pos r = map_option of_le_bytes (readBytesAtPos 8 pos r)"

definition readLongDouble :: "int \<Rightarrow> 'r read_bytes \<Rightarrow> 'r \<Rightarrow> (bytes \<times> 'r) option" where
  "readLongDouble ld_size readBytes r = readBytes ld_size r"

definition readLongDoubleAtPos :: "int \<Rightarrow> 'r read_bytes_at \<Rightarrow> int \<Rightarrow> 'r \<Rightarrow> bytes option" where
  "readLongDoubleAtPos ld_size readBytesAtPos pos r = readBytesAtPos ld_size pos r"

section \<open>The in-memory reader\<close>

record mem_reader =
  mr_buffer :: bytes
  mr_size :: int
  mr_pos :: int

definition new_mem_reader :: "bytes \<Rightarrow> int \<Rightarrow> mem_reader" where
  "new_mem_reader buf buf_size = \<lparr>mr_buffer = buf, mr_size = buf_size, mr_pos = 0\<rparr>"

definition mem_reader_setPos :: "int \<Rightarrow> mem_reader \<Rightarrow> mem_reader option" where
  "mem_reader_setPos new_pos r = os_assert (new_pos \<ge> 0 \<and> new_pos \<le> mr_size r) (Some (r\<lparr>mr_pos := new_pos\<rparr>))"

definition movePos :: "int \<Rightarrow> mem_reader \<Rightarrow> mem_reader option" where
  "movePos len r =
     os_assert (mr_pos r + len \<ge> 0 \<and> mr_pos r + len \<le> mr_size r) (Some (r\<lparr>mr_pos := mr_pos r + len\<rparr>))"

definition checkBytes :: "bytes \<Rightarrow> mem_reader \<Rightarrow> (bool \<times> mem_reader) option" where
  "checkBytes src r =
     (let len = int (length src) in
      os_assert (mr_pos r \<ge> 0 \<and> mr_pos r + len \<le> mr_size r)
        (Some (take (length src) (drop (nat (mr_pos r)) (mr_buffer r)) = src, r\<lparr>mr_pos := mr_pos r + len\<rparr>)))"

definition mem_readBytes :: "mem_reader read_bytes" where
  "mem_readBytes len r =
     os_assert (mr_pos r \<ge> 0 \<and> mr_pos r + len \<le> mr_size r)
       (Some (take (nat len) (drop (nat (mr_pos r)) (mr_buffer r)), r\<lparr>mr_pos := mr_pos r + len\<rparr>))"

definition mem_readBytesAtPos :: "mem_reader read_bytes_at" where
  "mem_readBytesAtPos len pos r =
     os_assert (pos \<ge> 0 \<and> pos + len \<le> mr_size r) (Some (take (nat len) (drop (nat pos) (mr_buffer r))))"

definition mem_readByte :: "mem_reader \<Rightarrow> (u8 \<times> mem_reader) option" where
  "mem_readByte r =
     os_assert (mr_pos r \<ge> 0 \<and> mr_pos r + 1 \<le> mr_size r)
       (Some (mr_buffer r ! nat (mr_pos r), r\<lparr>mr_pos := mr_pos r + 1\<rparr>))"

definition mem_readByteAtPos :: "int \<Rightarrow> mem_reader \<Rightarrow> u8 option" where
  "mem_readByteAtPos pos r = os_assert (pos \<ge> 0 \<and> pos + 1 \<le> mr_size r) (Some (mr_buffer r ! nat pos))"

definition mem_readInt8 :: "mem_reader \<Rightarrow> (u8 \<times> mem_reader) option" where
  "mem_readInt8 r =
     os_assert (mr_pos r \<ge> 0 \<and> mr_pos r + 1 \<le> mr_size r)
       (Some (mr_buffer r ! nat (mr_pos r), r\<lparr>mr_pos := mr_pos r + 1\<rparr>))"

definition mem_readInt16 :: "mem_reader \<Rightarrow> (u16 \<times> mem_reader) option" where
  "mem_readInt16 r =
     os_assert (mr_pos r \<ge> 0 \<and> mr_pos r + 2 \<le> mr_size r)
       (let buf = drop (nat (mr_pos r)) (mr_buffer r)
        in Some (ucast (buf ! 0) OR push_bit 8 (ucast (buf ! 1)), r\<lparr>mr_pos := mr_pos r + 2\<rparr>))"

definition mem_readInt32 :: "mem_reader \<Rightarrow> (u32 \<times> mem_reader) option" where
  "mem_readInt32 r =
     os_assert (mr_pos r \<ge> 0 \<and> mr_pos r + 4 \<le> mr_size r)
       (let buf = drop (nat (mr_pos r)) (mr_buffer r)
        in Some (ucast (buf ! 0) OR push_bit 8 (ucast (buf ! 1)) OR push_bit 16 (ucast (buf ! 2))
                 OR push_bit 24 (ucast (buf ! 3)), r\<lparr>mr_pos := mr_pos r + 4\<rparr>))"

text \<open>\<open>writeFromStream\<close> copies what is left of a reader in chunks of 128 KB.\<close>

function copy_chunks :: "'w writer_vt \<Rightarrow> int \<Rightarrow> mem_reader \<Rightarrow> 'w \<Rightarrow> ('w \<times> mem_reader) option" where
  "copy_chunks vt sz r w =
     (if sz > 0 then
        (let chunk_size = (if 131072 \<le> sz then 131072 else sz)
         in Option.bind (mem_readBytes chunk_size r) (\<lambda>(bs, r).
            Option.bind (vt_writeBytes vt bs w) (\<lambda>w. copy_chunks vt (sz - 131072) r w)))
      else Some (w, r))"
  by auto
termination by (relation "measure (\<lambda>(vt, sz, r, w). nat sz)") auto

definition writeFromStream :: "'w writer_vt \<Rightarrow> mem_reader \<Rightarrow> 'w \<Rightarrow> ('w \<times> mem_reader) option" where
  "writeFromStream vt r w = copy_chunks vt (mr_size r - mr_pos r) r w"

section \<open>What a writer of bytes promises\<close>

text \<open>
  \<open>appends ok out f bs\<close>: the action \<open>f\<close> appends the bytes \<open>bs\<close> to the output, as long as the output
  stays below the size that an \<open>int\<close> capacity can double.
\<close>

definition output_limit :: nat where
  "output_limit = 2 ^ 29"

definition appends :: "('w \<Rightarrow> bool) \<Rightarrow> ('w \<Rightarrow> bytes) \<Rightarrow> ('w \<Rightarrow> 'w option) \<Rightarrow> bytes \<Rightarrow> bool" where
  "appends ok out f bs \<longleftrightarrow>
     (\<forall>w. ok w \<and> length (out w) + length bs < output_limit \<longrightarrow> (\<exists>w'. f w = Some w' \<and> ok w' \<and> out w' = out w @ bs))"

named_theorems appends_intros

lemma appends_Nil [appends_intros]: "appends ok out Some []"
  by (simp add: appends_def)

lemma appends_bind [appends_intros]:
  assumes "appends ok out f bs" "appends ok out g cs"
  shows "appends ok out (\<lambda>w. Option.bind (f w) g) (bs @ cs)"
  unfolding appends_def
proof (intro allI impI)
  fix w
  assume w: "ok w \<and> length (out w) + length (bs @ cs) < output_limit"
  then obtain w' where w': "f w = Some w'" "ok w'" "out w' = out w @ bs"
    using assms(1) by (auto simp: appends_def)
  with w assms(2) obtain w'' where "g w' = Some w''" "ok w''" "out w'' = out w' @ cs"
    by (fastforce simp: appends_def)
  with w' show "\<exists>w'. Option.bind (f w) g = Some w' \<and> ok w' \<and> out w' = out w @ bs @ cs" by auto
qed

lemma appends_assert: "P \<Longrightarrow> appends ok out f bs \<Longrightarrow> appends ok out (\<lambda>w. os_assert P (f w)) bs"
  by simp

text \<open>A loop that writes the elements of a list one after the other.\<close>

fun write_each :: "('a \<Rightarrow> 'w \<Rightarrow> 'w option) \<Rightarrow> 'a list \<Rightarrow> 'w \<Rightarrow> 'w option" where
  "write_each f [] w = Some w"
| "write_each f (x # xs) w = Option.bind (f x w) (write_each f xs)"

lemma appends_each:
  assumes "\<And>x. x \<in> set xs \<Longrightarrow> appends ok out (f x) (enc x)"
  shows "appends ok out (write_each f xs) (concat (map enc xs))"
  using assms
proof (induction xs)
  case Nil
  then show ?case by (simp add: appends_def)
next
  case (Cons x xs)
  have "write_each f (x # xs) = (\<lambda>w. Option.bind (f x w) (write_each f xs))" by auto
  then show ?case using Cons appends_bind [of ok out "f x" "enc x" "write_each f xs"] by simp
qed

text \<open>The bytes of a variable-length integer.\<close>

function uvar_bytes :: "nat \<Rightarrow> bytes" where
  "uvar_bytes n = (if n \<ge> 127 then of_nat (n mod 128 + 128) # uvar_bytes (n div 128) else [of_nat n])"
  by auto
termination by (relation "measure id") auto

declare uvar_bytes.simps [simp del] uvar_loop.simps [simp del] copy_chunks.simps [simp del]

lemma uvar_chunk: "0 \<le> v \<Longrightarrow> (v AND 0x7f) OR 0x80 = v mod 128 + (128 :: int)"
proof -
  have "v AND 0x7f = take_bit 7 v" by (simp add: take_bit_eq_mask mask_eq_exp_minus_1)
  moreover have "take_bit 7 v AND 0x80 = 0"
  proof -
    have "bit (0x80 :: int) n \<longleftrightarrow> n = 7" for n using bit_exp_iff [where 'a = int, of 7 n] by auto
    then show ?thesis by (intro bit_eqI) (auto simp: bit_and_iff bit_take_bit_iff)
  qed
  ultimately show ?thesis by (simp add: disjunctive_add_eq_or [symmetric] take_bit_eq_mod)
qed

locale byte_writer =
  fixes vt :: "'w writer_vt" and ok :: "'w \<Rightarrow> bool" and out :: "'w \<Rightarrow> bytes"
  assumes writeBytes: "appends ok out (vt_writeBytes vt bs) bs"
    and writeByte: "0 \<le> v \<Longrightarrow> v \<le> 255 \<Longrightarrow> appends ok out (vt_writeByte vt v) [word_of_int v]"
begin

lemma uvar_loop_appends: "appends ok out (uvar_loop vt (int n)) (uvar_bytes n)"
proof (induction n rule: uvar_bytes.induct)
  case (1 n)
  show ?case
  proof (cases "n \<ge> 127")
    case True
    have "uvar_loop vt (int n) = (\<lambda>w. Option.bind (vt_writeByte vt (int (n mod 128 + 128)) w)
        (uvar_loop vt (int (n div 128))))"
      using True by (intro ext, subst uvar_loop.simps) (simp add: uvar_chunk drop_bit_eq_div zmod_int zdiv_int)
    moreover have "n mod 128 < 128" by simp
    then have "appends ok out (vt_writeByte vt (int (n mod 128 + 128))) [word_of_int (int (n mod 128 + 128))]"
      by (intro writeByte) auto
    ultimately show ?thesis
      using appends_bind [OF _ "1.IH" [OF True]] True by (subst uvar_bytes.simps) fastforce
  next
    case False
    then have "uvar_loop vt (int n) = vt_writeByte vt (int n)"
      by (intro ext, subst uvar_loop.simps) simp
    with False writeByte [of "int n"] show ?thesis by (subst uvar_bytes.simps) simp
  qed
qed

lemma writeUVariable_appends: "0 \<le> v \<Longrightarrow> appends ok out (writeUVariable vt v) (uvar_bytes (nat v))"
  using uvar_loop_appends [of "nat v"] by (simp add: writeUVariable_def [abs_def])

lemma writeInt32_appends: "appends ok out (writeInt32 vt v) (le_bytes 4 v)"
  using writeBytes by (simp add: writeInt32_def [abs_def])

lemma writeInt64_appends: "appends ok out (writeInt64 vt v) (le_bytes 8 v)"
  using writeBytes by (simp add: writeInt64_def [abs_def])

lemma writeFloat_appends: "appends ok out (writeFloat vt v) (le_bytes 4 v)"
  using writeBytes by (simp add: writeFloat_def [abs_def])

lemma writeDouble_appends: "appends ok out (writeDouble vt d) (le_bytes 8 d)"
  using writeBytes by (simp add: writeDouble_def [abs_def])

lemma writeLongDouble_appends: "appends ok out (writeLongDouble vt ld) ld"
  using writeBytes by (simp add: writeLongDouble_def [abs_def])

lemma writeU16_appends: "0 \<le> v \<Longrightarrow> v \<le> 0xffff \<Longrightarrow> appends ok out (writeU16 vt v) (le_bytes 2 (word_of_int v :: u16))"
  using writeBytes by (simp add: writeU16_def [abs_def])

lemma writeInt16_appends:
  "sint (word_of_int v :: u16) = v \<Longrightarrow> appends ok out (writeInt16 vt v) (le_bytes 2 (word_of_int v :: u16))"
  using writeBytes by (simp add: writeInt16_def [abs_def])

lemma writeInt8_appends:
  "sint (word_of_int v :: u8) = v \<Longrightarrow> appends ok out (writeInt8 vt v) (le_bytes 1 (word_of_int v :: u8))"
  using writeBytes by (simp add: writeInt8_def [abs_def])

end

section \<open>What a reader of bytes promises\<close>

text \<open>\<open>consumes ok left f bs x\<close>: in front of the bytes \<open>bs\<close>, \<open>f\<close> reads \<open>x\<close> and leaves what follows.\<close>

definition consumes :: "('r \<Rightarrow> bool) \<Rightarrow> ('r \<Rightarrow> bytes) \<Rightarrow> ('r \<Rightarrow> ('a \<times> 'r) option) \<Rightarrow> bytes \<Rightarrow> 'a \<Rightarrow> bool" where
  "consumes ok left f bs x \<longleftrightarrow>
     (\<forall>r ys. ok r \<and> left r = bs @ ys \<longrightarrow> (\<exists>r'. f r = Some (x, r') \<and> ok r' \<and> left r' = ys))"

lemma consumes_bind:
  assumes "consumes ok left f bs x" "consumes ok left (g x) cs y"
  shows "consumes ok left (\<lambda>r. Option.bind (f r) (\<lambda>(x, r). g x r)) (bs @ cs) y"
  unfolding consumes_def
proof (intro allI impI)
  fix r ys
  assume r: "ok r \<and> left r = (bs @ cs) @ ys"
  then obtain r' where "f r = Some (x, r')" "ok r'" "left r' = cs @ ys"
    using assms(1) by (fastforce simp: consumes_def)
  with assms(2) show "\<exists>r'. Option.bind (f r) (\<lambda>(x, r). g x r) = Some (y, r') \<and> ok r' \<and> left r' = ys"
    by (auto simp: consumes_def)
qed

lemma consumes_return: "consumes ok left (\<lambda>r. Some (x, r)) [] x"
  by (simp add: consumes_def)

lemma consumes_assert: "P \<Longrightarrow> consumes ok left f bs x \<Longrightarrow> consumes ok left (\<lambda>r. os_assert P (f r)) bs x"
  by simp

lemma consumes_map:
  assumes "consumes ok left f bs x"
  shows "consumes ok left (\<lambda>r. Option.bind (f r) (\<lambda>(x, r). Some (h x, r))) bs (h x)"
  using consumes_bind [OF assms consumes_return, of h] by simp

text \<open>A counted loop that reads one element after the other.\<close>

fun read_times :: "('r \<Rightarrow> ('a \<times> 'r) option) \<Rightarrow> nat \<Rightarrow> 'r \<Rightarrow> ('a list \<times> 'r) option" where
  "read_times f 0 r = Some ([], r)"
| "read_times f (Suc n) r =
     Option.bind (f r) (\<lambda>(x, r). Option.bind (read_times f n r) (\<lambda>(xs, r). Some (x # xs, r)))"

lemma consumes_times:
  assumes "\<And>x. x \<in> set xs \<Longrightarrow> consumes ok left f (enc x) (val x)"
  shows "consumes ok left (read_times f (length xs)) (concat (map enc xs)) (map val xs)"
  using assms
proof (induction xs)
  case Nil
  then show ?case by (simp add: consumes_def)
next
  case (Cons x xs)
  have "read_times f (length (x # xs)) = (\<lambda>r. Option.bind (f r) (\<lambda>(y, r).
      Option.bind (read_times f (length xs) r) (\<lambda>(ys, r). Some (y # ys, r))))" by auto
  moreover have "consumes ok left (\<lambda>r. Option.bind (read_times f (length xs) r) (\<lambda>(ys, r). Some (val x # ys, r)))
      (concat (map enc xs)) (val x # map val xs)"
    using Cons consumes_map [of ok left "read_times f (length xs)" _ _ "\<lambda>ys. val x # ys"] by simp
  ultimately show ?case
    using Cons.prems consumes_bind [of ok left f "enc x" "val x"
        "\<lambda>y r. Option.bind (read_times f (length xs) r) (\<lambda>(ys, r). Some (y # ys, r))"] by simp
qed

text \<open>The bytes of a chunk.\<close>

lemma byte_chunk:
  assumes "m < 128"
  shows "(of_nat (m + 128) :: u8) AND 0x80 \<noteq> 0" "ucast ((of_nat (m + 128) :: u8) AND 0x7f) = (of_nat m :: u32)"
proof -
  have "\<forall>m \<in> set [0..<128]. (of_nat (m + 128) :: u8) AND 0x80 \<noteq> 0
      \<and> ucast ((of_nat (m + 128) :: u8) AND 0x7f) = (of_nat m :: u32)" by code_simp
  with assms show "(of_nat (m + 128) :: u8) AND 0x80 \<noteq> 0"
    "ucast ((of_nat (m + 128) :: u8) AND 0x7f) = (of_nat m :: u32)" by auto
qed

lemma byte_last:
  assumes "m < 128"
  shows "(of_nat m :: u8) AND 0x80 = 0" "ucast (of_nat m :: u8) = (of_nat m :: u32)"
proof -
  have "\<forall>m \<in> set [0..<128]. (of_nat m :: u8) AND 0x80 = 0 \<and> ucast (of_nat m :: u8) = (of_nat m :: u32)"
    by code_simp
  with assms show "(of_nat m :: u8) AND 0x80 = 0" "ucast (of_nat m :: u8) = (of_nat m :: u32)" by auto
qed

lemma sint_of_small: "m < 2 ^ 31 \<Longrightarrow> sint (of_nat m :: u32) = int m"
  by (simp add: signed_of_nat signed_take_bit_int_eq_self)

locale byte_reader =
  fixes readByte :: "'r \<Rightarrow> (u8 \<times> 'r) option" and readBytes :: "'r read_bytes"
    and ok :: "'r \<Rightarrow> bool" and left :: "'r \<Rightarrow> bytes"
  assumes readByte: "consumes ok left readByte [b] b"
    and readBytes: "consumes ok left (readBytes (int (length bs))) bs bs"
begin

text \<open>The part of the value read so far and the chunk that follows do not overlap.\<close>

lemma join_chunk:
  assumes "v < 2 ^ i" "v + 2 ^ i * m < 2 ^ 31"
  shows "(of_nat v :: u32) OR push_bit i (of_nat m) = of_nat (v + 2 ^ i * m)"
proof -
  have "v OR push_bit i m = v + push_bit i m"
  proof (rule disjunctive_add_eq_or [symmetric])
    have "take_bit i v AND push_bit i m = 0"
      by (rule bit_eqI) (auto simp: bit_and_iff bit_push_bit_iff bit_take_bit_iff)
    then show "v AND push_bit i m = 0" using assms(1) by (simp add: take_bit_nat_eq_self)
  qed
  then have "of_nat (v OR push_bit i m) = (of_nat (v + 2 ^ i * m) :: u32)"
    by (simp add: push_bit_eq_mult mult.commute)
  then show ?thesis by (simp only: of_nat_or_eq of_nat_push_bit)
qed

lemma read_uvar_loop_consumes:
  assumes "v < 2 ^ i" "v + 2 ^ i * n < 2 ^ 31" "i < 32"
  shows "consumes ok left (\<lambda>r. read_uvar_loop readByte r i (of_nat v)) (uvar_bytes n) (int (v + 2 ^ i * n))"
  using assms
proof (induction n arbitrary: i v rule: uvar_bytes.induct)
  case (1 n)
  show ?case
  proof (cases "n \<ge> 127")
    case True
    define b where "b = (of_nat (n mod 128 + 128) :: u8)"
    let ?v = "v + 2 ^ i * (n mod 128)"
    have bytes: "uvar_bytes n = [b] @ uvar_bytes (n div 128)"
      using True by (subst uvar_bytes.simps) (simp add: b_def)
    have n: "n = n mod 128 + 128 * (n div 128)" by simp
    have "i \<le> 24"
    proof (rule ccontr)
      assume "\<not> i \<le> 24"
      then have "2 ^ 25 \<le> (2 :: nat) ^ i" by (intro power_increasing) auto
      with True have "2 ^ 25 * 127 \<le> 2 ^ i * n" by (intro mult_le_mono) auto
      with 1(3) show False by simp
    qed
    have total: "?v + 2 ^ (i + 7) * (n div 128) = v + 2 ^ i * n"
    proof -
      have "2 ^ i * n = 2 ^ i * (n mod 128) + 2 ^ i * (128 * (n div 128))" by (simp flip: distrib_left)
      then show ?thesis by (simp add: power_add algebra_simps)
    qed
    have "2 ^ i * (n mod 128) \<le> 2 ^ i * (127 :: nat)" by (intro mult_le_mono2) simp
    moreover have "2 ^ (i + 7) = 2 ^ i * (128 :: nat)" by (simp add: power_add)
    ultimately have v: "?v < 2 ^ (i + 7)" using 1(2) by linarith
    have "?v < 2 ^ 31" using 1(3) total by linarith
    then have "of_nat v OR push_bit i (of_nat (n mod 128)) = (of_nat ?v :: u32)"
      using join_chunk [OF 1(2)] by blast
    moreover have "b AND 0x80 \<noteq> 0" "ucast (b AND 0x7f) = (of_nat (n mod 128) :: u32)"
      using byte_chunk [of "n mod 128"] by (auto simp: b_def)
    ultimately have b: "(if i \<ge> 32 then None
          else if b AND 0x80 \<noteq> 0 then read_uvar_loop readByte r (i + 7) (of_nat v OR push_bit i (ucast (b AND 0x7f)))
          else if sint (of_nat v OR push_bit i (ucast b) :: u32) \<ge> 0
          then Some (sint (of_nat v OR push_bit i (ucast b) :: u32), r) else None)
        = read_uvar_loop readByte r (i + 7) (of_nat ?v)" for r
      using \<open>i \<le> 24\<close> by auto
    have "consumes ok left (\<lambda>r. read_uvar_loop readByte r (i + 7) (of_nat ?v)) (uvar_bytes (n div 128))
        (int (?v + 2 ^ (i + 7) * (n div 128)))"
      by (rule "1.IH") (use True v total 1(3) \<open>i \<le> 24\<close> in auto)
    then have "consumes ok left (\<lambda>r. if i \<ge> 32 then None
          else if b AND 0x80 \<noteq> 0 then read_uvar_loop readByte r (i + 7) (of_nat v OR push_bit i (ucast (b AND 0x7f)))
          else if sint (of_nat v OR push_bit i (ucast b) :: u32) \<ge> 0
          then Some (sint (of_nat v OR push_bit i (ucast b) :: u32), r) else None)
        (uvar_bytes (n div 128)) (int (v + 2 ^ i * n))"
      unfolding b total .
    then show ?thesis
      unfolding bytes by (subst read_uvar_loop.simps) (rule consumes_bind [OF readByte])
  next
    case False
    let ?b = "of_nat n :: u8"
    have "of_nat v OR push_bit i (of_nat n) = (of_nat (v + 2 ^ i * n) :: u32)"
      using join_chunk [OF 1(2,3)] .
    moreover have "?b AND 0x80 = 0" "ucast ?b = (of_nat n :: u32)"
      using byte_last [of n] False by auto
    ultimately have "(if i \<ge> 32 then None
          else if ?b AND 0x80 \<noteq> 0 then read_uvar_loop readByte r (i + 7) (of_nat v OR push_bit i (ucast (?b AND 0x7f)))
          else if sint (of_nat v OR push_bit i (ucast ?b) :: u32) \<ge> 0
          then Some (sint (of_nat v OR push_bit i (ucast ?b) :: u32), r) else None)
        = Some (int (v + 2 ^ i * n), r)" for r
      using 1(4) sint_of_small [OF 1(3)] by (simp del: of_nat_add of_nat_mult)
    then show ?thesis
      using consumes_bind [OF readByte [of ?b], where cs = "[]" and y = "int (v + 2 ^ i * n)"] False
      by (subst uvar_bytes.simps, subst read_uvar_loop.simps) (simp add: consumes_return)
  qed
qed

lemma readUVariable_consumes:
  assumes "v < 2 ^ 31"
  shows "consumes ok left (readUVariable readByte) (uvar_bytes v) (int v)"
proof (cases "v \<ge> 127")
  case True
  define b where "b = (of_nat (v mod 128 + 128) :: u8)"
  have v: "v mod 128 + 2 ^ 7 * (v div 128) = v" by simp
  have bytes: "uvar_bytes v = [b] @ uvar_bytes (v div 128)"
    using True by (subst uvar_bytes.simps) (simp add: b_def)
  have b: "(if b AND 0x80 = 0 then Some (uint b, r) else read_uvar_loop readByte r 7 (ucast (b AND 0x7f)))
      = read_uvar_loop readByte r 7 (of_nat (v mod 128))" for r
    using byte_chunk [of "v mod 128"] by (auto simp: b_def)
  have "consumes ok left (\<lambda>r. read_uvar_loop readByte r 7 (of_nat (v mod 128))) (uvar_bytes (v div 128))
      (int (v mod 128 + 2 ^ 7 * (v div 128)))"
    by (rule read_uvar_loop_consumes) (use assms v in auto)
  then have "consumes ok left (\<lambda>r. if b AND 0x80 = 0 then Some (uint b, r)
      else read_uvar_loop readByte r 7 (ucast (b AND 0x7f))) (uvar_bytes (v div 128)) (int v)"
    unfolding b v .
  then show ?thesis
    unfolding bytes readUVariable_def [abs_def] by (rule consumes_bind [OF readByte])
next
  case False
  have "uint (of_nat v :: u8) = int v" using False by (simp add: uint_nat unat_of_nat)
  with False byte_last [of v] show ?thesis
    using consumes_bind [OF readByte [of "of_nat v"], where cs = "[]" and y = "int v"]
    by (subst uvar_bytes.simps) (simp add: readUVariable_def [abs_def] consumes_return)
qed

lemma readDouble_consumes: "consumes ok left (readDouble readBytes) (le_bytes 8 d) d"
  using consumes_map [OF readBytes [of "le_bytes 8 d"], of "of_le_bytes :: bytes \<Rightarrow> u64"]
  by (simp add: readDouble_def [abs_def] of_le_bytes_word)

lemma readFloat_consumes: "consumes ok left (readFloat readBytes) (le_bytes 4 v) v"
  using consumes_map [OF readBytes [of "le_bytes 4 v"], of "of_le_bytes :: bytes \<Rightarrow> u32"]
  by (simp add: readFloat_def [abs_def] of_le_bytes_word)

lemma readInt64_consumes: "consumes ok left (readInt64 readBytes) (le_bytes 8 v) v"
  using consumes_map [OF readBytes [of "le_bytes 8 v"], of "of_le_bytes :: bytes \<Rightarrow> u64"]
  by (simp add: readInt64_def [abs_def] of_le_bytes_word)

lemma readU16_consumes: "consumes ok left (readU16 readBytes) (le_bytes 2 v) v"
  using consumes_map [OF readBytes [of "le_bytes 2 v"], of "of_le_bytes :: bytes \<Rightarrow> u16"]
  by (simp add: readU16_def [abs_def] of_le_bytes_word)

lemma readLongDouble_consumes:
  "int (length ld) = ld_size \<Longrightarrow> consumes ok left (readLongDouble ld_size readBytes) ld ld"
  using readBytes [of ld] by (simp add: readLongDouble_def [abs_def])

end

section \<open>The in-memory streams keep the promises\<close>

definition mem_writer_ok :: "mem_writer \<Rightarrow> bool" where
  "mem_writer_ok w \<longleftrightarrow> (\<exists>xs. vec_rep (mw_buffer w) xs \<and> mw_pos w = int (length xs)
     \<and> vec_capacity (mw_buffer w) < 2 ^ 30)"

definition written :: "mem_writer \<Rightarrow> bytes" where
  "written w = map the (take (nat (vec_count (mw_buffer w))) (vec_buf (mw_buffer w)))"

lemma written_rep: "vec_rep (mw_buffer w) xs \<Longrightarrow> written w = xs"
  by (auto simp: vec_rep_def written_def)

text \<open>How far room for \<open>n\<close> bytes can grow the capacity.\<close>

lemma vector_realloc_capacity: "vector_realloc c v = Some v' \<Longrightarrow> vec_capacity v' = c"
  by (auto simp: vector_realloc_def split: bind_splits)

lemma vectorReserveCapacity_capacity:
  assumes "vectorReserveCapacity n v = Some v'" "vec_capacity v < 2 ^ 30" "n \<le> 2 ^ 29"
  shows "vec_capacity v' < 2 ^ 30"
  using assms by (auto simp: vectorReserveCapacity_def Let_def dest!: vector_realloc_capacity split: if_splits)

lemma mem_writeByte_appends:
  assumes "0 \<le> v" "v \<le> 255"
  shows "appends mem_writer_ok written (mem_writeByte v) [word_of_int v]"
  unfolding appends_def
proof (intro allI impI)
  fix w
  assume w: "mem_writer_ok w \<and> length (written w) + length [word_of_int v :: u8] < output_limit"
  then obtain xs where xs: "vec_rep (mw_buffer w) xs" "mw_pos w = int (length xs)" "vec_capacity (mw_buffer w) < 2 ^ 30"
    by (auto simp: mem_writer_ok_def)
  obtain v' where v': "vectorAddItem (word_of_int v) (mw_buffer w) = Some v'" "vec_rep v' (xs @ [word_of_int v])"
    using vectorAddItem_rep [OF xs(1,3)] by blast
  have "vec_count (mw_buffer w) = int (length xs)" "length xs < 2 ^ 29"
    using xs w written_rep [OF xs(1)] by (auto simp: vec_rep_def output_limit_def)
  then have "vec_capacity v' < 2 ^ 30"
    using v'(1) xs(3) by (auto simp: vectorAddItem_def dest!: vectorReserveCapacity_capacity split: bind_splits)
  then have "mem_writer_ok (w\<lparr>mw_buffer := v', mw_pos := mw_pos w + 1\<rparr>)"
    using v'(2) xs(2) by (auto simp: mem_writer_ok_def)
  moreover have "written (w\<lparr>mw_buffer := v', mw_pos := mw_pos w + 1\<rparr>) = xs @ [word_of_int v]"
    by (rule written_rep) (simp add: v')
  ultimately show "\<exists>w'. mem_writeByte v w = Some w' \<and> mem_writer_ok w' \<and> written w' = written w @ [word_of_int v]"
    using assms v'(1) xs(1,2) written_rep [OF xs(1)] by (simp add: mem_writeByte_def vec_rep_def)
qed

lemma mem_writeBytes_appends: "appends mem_writer_ok written (mem_writeBytes bs) bs"
  unfolding appends_def
proof (intro allI impI)
  fix w
  assume w: "mem_writer_ok w \<and> length (written w) + length bs < output_limit"
  then obtain xs where xs: "vec_rep (mw_buffer w) xs" "mw_pos w = int (length xs)" "vec_capacity (mw_buffer w) < 2 ^ 30"
    by (auto simp: mem_writer_ok_def)
  obtain k where k: "vec_buf (mw_buffer w) = map Some xs @ replicate k None" "vec_count (mw_buffer w) = int (length xs)"
    "vec_capacity (mw_buffer w) = int (length xs + k)"
    using xs(1) by (auto simp: vec_rep_def)
  have limit: "int (length xs) + int (length bs) < 2 ^ 29"
    using w written_rep [OF xs(1)] by (simp add: output_limit_def)
  obtain w1 k1 where w1: "mem_writer_reserveCapacity (mw_pos w + int (length bs)) w = Some w1"
    "vec_buf (mw_buffer w1) = map Some xs @ replicate k1 None" "vec_count (mw_buffer w1) = int (length xs)"
    "vec_capacity (mw_buffer w1) = int (length xs + k1)" "length bs \<le> k1"
    "vec_capacity (mw_buffer w1) < 2 ^ 30" "mw_pos w1 = int (length xs)"
  proof (cases "vec_capacity (mw_buffer w) < mw_pos w + int (length bs)")
    case True
    let ?c = "if vec_capacity (mw_buffer w) > 0 then vec_capacity (mw_buffer w) * 2 else 4"
    let ?d = "if ?c < mw_pos w + int (length bs) then mw_pos w + int (length bs) else ?c"
    have "vec_capacity (mw_buffer w) * 2 < 2 ^ 31" using xs(3) by simp
    moreover have "length xs + nat (?d - int (length xs)) = nat ?d" "length bs \<le> nat (?d - int (length xs))" "?d < 2 ^ 30"
      using True limit k(3) xs(2) by auto
    ultimately show thesis using True k xs(2)
      by (intro that [of "w\<lparr>mw_buffer := (mw_buffer w)\<lparr>vec_capacity := ?d,
            vec_buf := map Some xs @ replicate (nat (?d - int (length xs))) None\<rparr>\<rparr>" "nat (?d - int (length xs))"])
        (simp_all add: mem_writer_reserveCapacity_def Let_def)
  next
    case False
    with k xs that show thesis by (auto simp: mem_writer_reserveCapacity_def)
  qed
  define w' where "w' = w1\<lparr>mw_pos := int (length xs + length bs), mw_buffer := (mw_buffer w1)\<lparr>
      vec_count := int (length xs + length bs), vec_buf := map Some (xs @ bs) @ replicate (k1 - length bs) None\<rparr>\<rparr>"
  have "mem_writeBytes bs w = Some w'"
    unfolding mem_writeBytes_def w1(1)
    using w1 by (simp add: mem_writeBytesAtPos_def Let_def w'_def drop_replicate)
  moreover have rep: "vec_rep (mw_buffer w') (xs @ bs)" using w1 by (auto simp: vec_rep_def w'_def)
  moreover have "mem_writer_ok w'"
    unfolding mem_writer_ok_def by (rule exI [of _ "xs @ bs"]) (use rep w1(6) in \<open>simp add: w'_def\<close>)
  ultimately show "\<exists>w'. mem_writeBytes bs w = Some w' \<and> mem_writer_ok w' \<and> written w' = written w @ bs"
    using written_rep [OF rep] written_rep [OF xs(1)] by auto
qed

interpretation mem_out: byte_writer mem_writer_vt mem_writer_ok written
  by unfold_locales (simp_all add: mem_writer_vt_def mem_writeByte_appends mem_writeBytes_appends)

lemma mem_writer_size:
  assumes "mem_writer_ok w"
  shows "mem_writer_getSize w = int (length (written w))"
proof -
  obtain ys where ys: "vec_rep (mw_buffer w) ys" using assms by (auto simp: mem_writer_ok_def)
  then show ?thesis using written_rep [OF ys] by (simp add: mem_writer_getSize_def vec_rep_def)
qed

lemma new_mem_writer_ok: "mem_writer_ok new_mem_writer" "written new_mem_writer = []"
  by (auto simp: mem_writer_ok_def new_mem_writer_def vec_rep_def empty_vector_def written_def)

definition mem_reader_ok :: "mem_reader \<Rightarrow> bool" where
  "mem_reader_ok r \<longleftrightarrow> 0 \<le> mr_pos r \<and> mr_pos r \<le> mr_size r \<and> mr_size r = int (length (mr_buffer r))"

definition unread :: "mem_reader \<Rightarrow> bytes" where
  "unread r = drop (nat (mr_pos r)) (mr_buffer r)"

lemma unread_advance:
  assumes "mem_reader_ok r" "unread r = bs @ ys"
  shows "mem_reader_ok (r\<lparr>mr_pos := mr_pos r + int (length bs)\<rparr>)"
    "unread (r\<lparr>mr_pos := mr_pos r + int (length bs)\<rparr>) = ys"
    "mr_pos r + int (length bs) \<le> mr_size r" "0 \<le> mr_pos r"
proof -
  have "length (mr_buffer r) = nat (mr_pos r) + length bs + length ys"
    using assms by (metis (no_types, lifting) add.assoc append_take_drop_id length_append length_take mem_reader_ok_def
        min.absorb2 nat_le_iff of_nat_le_iff unread_def)
  with assms(1) show "mem_reader_ok (r\<lparr>mr_pos := mr_pos r + int (length bs)\<rparr>)"
    "mr_pos r + int (length bs) \<le> mr_size r" "0 \<le> mr_pos r"
    by (auto simp: mem_reader_ok_def)
  have "drop (length bs) (unread r) = ys" by (simp add: assms(2))
  then show "unread (r\<lparr>mr_pos := mr_pos r + int (length bs)\<rparr>) = ys"
    using assms(1) by (simp add: unread_def mem_reader_ok_def nat_add_distrib add.commute)
qed

lemma mem_readBytes_consumes: "consumes mem_reader_ok unread (mem_readBytes (int (length bs))) bs bs"
  unfolding consumes_def
proof (intro allI impI)
  fix r ys
  assume r: "mem_reader_ok r \<and> unread r = bs @ ys"
  then have "take (length bs) (drop (nat (mr_pos r)) (mr_buffer r)) = bs" by (simp add: unread_def)
  with unread_advance [of r bs ys] r
  show "\<exists>r'. mem_readBytes (int (length bs)) r = Some (bs, r') \<and> mem_reader_ok r' \<and> unread r' = ys"
    by (auto simp: mem_readBytes_def)
qed

lemma mem_readByte_consumes: "consumes mem_reader_ok unread mem_readByte [b] b"
  unfolding consumes_def
proof (intro allI impI)
  fix r ys
  assume r: "mem_reader_ok r \<and> unread r = [b] @ ys"
  then have "mr_buffer r ! nat (mr_pos r) = b"
    by (metis append_Cons hd_drop_conv_nth list.sel(1) not_le drop_all list.distinct(1) unread_def)
  with unread_advance [of r "[b]" ys] r
  show "\<exists>r'. mem_readByte r = Some (b, r') \<and> mem_reader_ok r' \<and> unread r' = ys"
    by (auto simp: mem_readByte_def)
qed

interpretation mem_in: byte_reader mem_readByte mem_readBytes mem_reader_ok unread
  by unfold_locales (rule mem_readByte_consumes, rule mem_readBytes_consumes)

lemma new_mem_reader_ok: "mem_reader_ok (new_mem_reader bs (int (length bs)))"
  "unread (new_mem_reader bs (int (length bs))) = bs"
  by (simp_all add: mem_reader_ok_def new_mem_reader_def unread_def)

lemma of_le_bytes_2: "(of_le_bytes [a, b] :: 'a::len word) = ucast a OR push_bit 8 (ucast b)"
  by simp

lemma of_le_bytes_4:
  "(of_le_bytes [a, b, c, d] :: 'a::len word)
     = ucast a OR push_bit 8 (ucast b) OR push_bit 16 (ucast c) OR push_bit 24 (ucast d)"
  by (simp add: push_bit_or or.assoc)

lemma unread_nth:
  assumes "unread r = bs @ ys" "i < length bs"
  shows "drop (nat (mr_pos r)) (mr_buffer r) ! i = bs ! i"
  using assms by (simp add: unread_def nth_append)

lemma mem_readInt8_consumes: "consumes mem_reader_ok unread mem_readInt8 (le_bytes 1 v) v"
proof -
  have "mem_readInt8 = mem_readByte" by (rule ext) (simp add: mem_readInt8_def mem_readByte_def)
  then show ?thesis using mem_readByte_consumes [of v] by simp
qed

lemma mem_readInt16_consumes: "consumes mem_reader_ok unread mem_readInt16 (le_bytes 2 v) v"
  unfolding consumes_def
proof (intro allI impI)
  fix r ys
  assume r: "mem_reader_ok r \<and> unread r = le_bytes 2 v @ ys"
  obtain a b where ab: "le_bytes 2 v = [a, b]" by (simp add: numeral_2_eq_2)
  then have "v = ucast a OR push_bit 8 (ucast b)"
    using of_le_bytes_word [of 2 v] of_le_bytes_2 [of a b] by simp
  with unread_advance [of r "[a, b]" ys] unread_nth [of r "[a, b]" ys] r ab
  show "\<exists>r'. mem_readInt16 r = Some (v, r') \<and> mem_reader_ok r' \<and> unread r' = ys"
    by (simp add: mem_readInt16_def Let_def)
qed

lemma mem_readInt32_consumes: "consumes mem_reader_ok unread mem_readInt32 (le_bytes 4 v) v"
  unfolding consumes_def
proof (intro allI impI)
  fix r ys
  assume r: "mem_reader_ok r \<and> unread r = le_bytes 4 v @ ys"
  obtain a b c d where ab: "le_bytes 4 v = [a, b, c, d]" by (simp add: eval_nat_numeral)
  then have "v = ucast a OR push_bit 8 (ucast b) OR push_bit 16 (ucast c) OR push_bit 24 (ucast d)"
    using of_le_bytes_word [of 4 v] of_le_bytes_4 [of a b c d] by simp
  with unread_advance [of r "[a, b, c, d]" ys] unread_nth [of r "[a, b, c, d]" ys] r ab
  show "\<exists>r'. mem_readInt32 r = Some (v, r') \<and> mem_reader_ok r' \<and> unread r' = ys"
    by (simp add: mem_readInt32_def Let_def numeral_2_eq_2 numeral_3_eq_3)
qed

section \<open>Round trips\<close>

datatype stream_item =
  SByte u8 | SUVariable int | SU16 u16 | SInt8 u8 | SInt16 u16 | SInt32 u32 | SInt64 u64
| SFloat u32 | SDouble u64 | SBytes bytes

definition item_ok :: "stream_item \<Rightarrow> bool" where
  "item_ok x = (case x of SUVariable v \<Rightarrow> 0 \<le> v \<and> v < 2 ^ 31 | _ \<Rightarrow> True)"

definition write_item :: "'w writer_vt \<Rightarrow> stream_item \<Rightarrow> 'w \<Rightarrow> 'w option" where
  "write_item vt x =
     (case x of
        SByte b \<Rightarrow> vt_writeByte vt (uint b)
      | SUVariable v \<Rightarrow> writeUVariable vt v
      | SU16 v \<Rightarrow> writeU16 vt (uint v)
      | SInt8 v \<Rightarrow> writeInt8 vt (sint v)
      | SInt16 v \<Rightarrow> writeInt16 vt (sint v)
      | SInt32 v \<Rightarrow> writeInt32 vt v
      | SInt64 v \<Rightarrow> writeInt64 vt v
      | SFloat v \<Rightarrow> writeFloat vt v
      | SDouble v \<Rightarrow> writeDouble vt v
      | SBytes bs \<Rightarrow> vt_writeBytes vt bs)"

text \<open>The reader is told the kind of each item, as the loaders know it from the format.\<close>

definition read_item :: "stream_item \<Rightarrow> mem_reader \<Rightarrow> (stream_item \<times> mem_reader) option" where
  "read_item kind r =
     (case kind of
        SByte _ \<Rightarrow> Option.bind (mem_readByte r) (\<lambda>(v, r). Some (SByte v, r))
      | SUVariable _ \<Rightarrow> Option.bind (readUVariable mem_readByte r) (\<lambda>(v, r). Some (SUVariable v, r))
      | SU16 _ \<Rightarrow> Option.bind (readU16 mem_readBytes r) (\<lambda>(v, r). Some (SU16 v, r))
      | SInt8 _ \<Rightarrow> Option.bind (mem_readInt8 r) (\<lambda>(v, r). Some (SInt8 v, r))
      | SInt16 _ \<Rightarrow> Option.bind (mem_readInt16 r) (\<lambda>(v, r). Some (SInt16 v, r))
      | SInt32 _ \<Rightarrow> Option.bind (mem_readInt32 r) (\<lambda>(v, r). Some (SInt32 v, r))
      | SInt64 _ \<Rightarrow> Option.bind (readInt64 mem_readBytes r) (\<lambda>(v, r). Some (SInt64 v, r))
      | SFloat _ \<Rightarrow> Option.bind (readFloat mem_readBytes r) (\<lambda>(v, r). Some (SFloat v, r))
      | SDouble _ \<Rightarrow> Option.bind (readDouble mem_readBytes r) (\<lambda>(v, r). Some (SDouble v, r))
      | SBytes bs \<Rightarrow> Option.bind (mem_readBytes (int (length bs)) r) (\<lambda>(v, r). Some (SBytes v, r)))"

fun read_items :: "stream_item list \<Rightarrow> mem_reader \<Rightarrow> (stream_item list \<times> mem_reader) option" where
  "read_items [] r = Some ([], r)"
| "read_items (k # ks) r =
     Option.bind (read_item k r) (\<lambda>(x, r). Option.bind (read_items ks r) (\<lambda>(xs, r). Some (x # xs, r)))"

definition item_bytes :: "stream_item \<Rightarrow> bytes" where
  "item_bytes x =
     (case x of
        SByte b \<Rightarrow> [b] | SUVariable v \<Rightarrow> uvar_bytes (nat v) | SU16 v \<Rightarrow> le_bytes 2 v | SInt8 v \<Rightarrow> le_bytes 1 v
      | SInt16 v \<Rightarrow> le_bytes 2 v | SInt32 v \<Rightarrow> le_bytes 4 v | SInt64 v \<Rightarrow> le_bytes 8 v | SFloat v \<Rightarrow> le_bytes 4 v
      | SDouble v \<Rightarrow> le_bytes 8 v | SBytes bs \<Rightarrow> bs)"

lemma write_item_appends:
  assumes "item_ok x"
  shows "appends mem_writer_ok written (write_item mem_writer_vt x) (item_bytes x)"
proof (cases x)
  case (SByte b)
  have "uint b < 2 ^ 8" using uint_lt2p [of b] by simp
  then show ?thesis using SByte mem_out.writeByte [of "uint b"] by (simp add: write_item_def item_bytes_def)
next
  case (SU16 v)
  have "uint v < 2 ^ 16" using uint_lt2p [of v] by simp
  then show ?thesis using SU16 mem_out.writeU16_appends [of "uint v"] by (simp add: write_item_def item_bytes_def)
next
  case (SInt8 v)
  then show ?thesis using mem_out.writeInt8_appends [of "sint v"] by (simp add: write_item_def item_bytes_def)
next
  case (SInt16 v)
  then show ?thesis using mem_out.writeInt16_appends [of "sint v"] by (simp add: write_item_def item_bytes_def)
qed (use assms mem_out.writeUVariable_appends mem_out.writeInt32_appends mem_out.writeInt64_appends
    mem_out.writeFloat_appends mem_out.writeDouble_appends mem_out.writeBytes in
    \<open>simp_all add: write_item_def item_bytes_def item_ok_def\<close>)

lemma read_item_consumes:
  assumes "item_ok x"
  shows "consumes mem_reader_ok unread (read_item x) (item_bytes x) x"
proof (cases x)
  case (SUVariable v)
  with assms have "consumes mem_reader_ok unread (readUVariable mem_readByte) (uvar_bytes (nat v)) v"
    using mem_in.readUVariable_consumes [of "nat v"] by (auto simp: item_ok_def nat_less_iff)
  from consumes_map [OF this, of SUVariable] SUVariable show ?thesis
    by (simp add: read_item_def [abs_def] item_bytes_def)
qed (use consumes_map [OF mem_readByte_consumes, where h = SByte] consumes_map [OF mem_in.readU16_consumes, where h = SU16]
    consumes_map [OF mem_readInt8_consumes, where h = SInt8] consumes_map [OF mem_readInt16_consumes, where h = SInt16]
    consumes_map [OF mem_readInt32_consumes, where h = SInt32] consumes_map [OF mem_in.readInt64_consumes, where h = SInt64]
    consumes_map [OF mem_in.readFloat_consumes, where h = SFloat] consumes_map [OF mem_in.readDouble_consumes, where h = SDouble]
    consumes_map [OF mem_readBytes_consumes, where h = SBytes] in
    \<open>simp_all add: read_item_def [abs_def] item_bytes_def\<close>)

lemma read_items_consumes:
  assumes "\<forall>x \<in> set xs. item_ok x"
  shows "consumes mem_reader_ok unread (read_items xs) (concat (map item_bytes xs)) xs"
  using assms
proof (induction xs)
  case Nil
  then show ?case by (simp add: consumes_def)
next
  case (Cons x xs)
  have "read_items (x # xs) = (\<lambda>r. Option.bind (read_item x r) (\<lambda>(y, r).
      Option.bind (read_items xs r) (\<lambda>(ys, r). Some (y # ys, r))))" by auto
  moreover have "consumes mem_reader_ok unread (\<lambda>r. Option.bind (read_items xs r) (\<lambda>(ys, r). Some (x # ys, r)))
      (concat (map item_bytes xs)) (x # xs)"
    using Cons consumes_map [of mem_reader_ok unread "read_items xs" _ _ "\<lambda>ys. x # ys"] by simp
  ultimately show ?case
    using Cons.prems consumes_bind [OF read_item_consumes [of x],
        of "\<lambda>y r. Option.bind (read_items xs r) (\<lambda>(ys, r). Some (y # ys, r))"] by simp
qed

text \<open>
  C32: whatever is written to an in-memory stream, single bytes, variable-length integers, fixed-width
  integers, floating-point representations and blocks of bytes in any order, is read back by a reader
  placed on the bytes written, item by item, and the reader ends exactly at the end; nothing on the way fails.
\<close>

theorem stream_items_roundtrip:
  assumes "\<forall>x \<in> set xs. item_ok x" "length (concat (map item_bytes xs)) < output_limit"
  shows "\<exists>w r. write_each (write_item mem_writer_vt) xs new_mem_writer = Some w
    \<and> read_items xs (new_mem_reader (written w) (mem_writer_getSize w)) = Some (xs, r)
    \<and> mr_pos r = mr_size r"
proof -
  have "appends mem_writer_ok written (write_each (write_item mem_writer_vt) xs) (concat (map item_bytes xs))"
    by (rule appends_each) (use assms(1) write_item_appends in blast)
  then obtain w where w: "write_each (write_item mem_writer_vt) xs new_mem_writer = Some w" "mem_writer_ok w"
    "written w = concat (map item_bytes xs)"
    using assms(2) new_mem_writer_ok by (auto simp: appends_def)
  have size: "mem_writer_getSize w = int (length (written w))" using w(2) by (rule mem_writer_size)
  obtain r where r: "read_items xs (new_mem_reader (written w) (mem_writer_getSize w)) = Some (xs, r)"
    "mem_reader_ok r" "unread r = []"
    using read_items_consumes [OF assms(1)] new_mem_reader_ok [of "written w"] w(3) size
    unfolding consumes_def by (metis append_Nil2)
  then have "mr_pos r = mr_size r" by (auto simp: mem_reader_ok_def unread_def)
  with w r show ?thesis by blast
qed

theorem stream_items_roundtrip_witness:
  "\<exists>w r. write_each (write_item mem_writer_vt) [SUVariable 300, SBytes [1, 2], SInt32 7] new_mem_writer = Some w
    \<and> read_items [SUVariable 300, SBytes [1, 2], SInt32 7] (new_mem_reader (written w) (mem_writer_getSize w))
      = Some ([SUVariable 300, SBytes [1, 2], SInt32 7], r) \<and> mr_pos r = mr_size r"
  by (rule stream_items_roundtrip)
    (simp_all add: item_ok_def item_bytes_def output_limit_def uvar_bytes.simps [of 300] uvar_bytes.simps [of 2])

section \<open>Copying a stream\<close>

lemma copy_chunks_appends:
  assumes "mem_reader_ok r" "sz = int (length (unread r))" "ok w"
    and "byte_writer vt ok out" "length (out w) + length (unread r) < output_limit"
  shows "\<exists>w' r'. copy_chunks vt sz r w = Some (w', r') \<and> ok w' \<and> out w' = out w @ unread r
    \<and> mem_reader_ok r' \<and> unread r' = []"
  using assms
proof (induction vt sz r w rule: copy_chunks.induct)
  case (1 vt sz r w)
  note wb = byte_writer.writeBytes [OF "1.prems"(4)]
  show ?case
  proof (cases "sz > 0")
    case False
    with "1.prems" show ?thesis by (subst copy_chunks.simps) auto
  next
    case True
    define bs where "bs = take 131072 (unread r)"
    define ys where "ys = drop 131072 (unread r)"
    have u: "unread r = bs @ ys" by (simp add: bs_def ys_def)
    have chunk: "(if 131072 \<le> sz then 131072 else sz) = int (length bs)"
      using "1.prems"(2) by (auto simp: bs_def)
    obtain r1 where r1: "mem_readBytes (int (length bs)) r = Some (bs, r1)" "mem_reader_ok r1" "unread r1 = ys"
      using mem_readBytes_consumes [of bs] "1.prems"(1) u unfolding consumes_def by blast
    obtain w1 where w1: "vt_writeBytes vt bs w = Some w1" "ok w1" "out w1 = out w @ bs"
      using wb [of bs] "1.prems"(3,5) u by (auto simp: appends_def)
    have step: "copy_chunks vt sz r w = copy_chunks vt (sz - 131072) r1 w1"
      using True chunk r1 w1 by (subst copy_chunks.simps) simp
    show ?thesis
    proof (cases "sz \<ge> 131072")
      case True
      with "1.prems"(2) have "sz - 131072 = int (length (unread r1))" by (simp add: r1 ys_def)
      moreover have "length (out w1) + length (unread r1) < output_limit"
        using "1.prems"(5) u r1 w1 by simp
      ultimately obtain w' r' where "copy_chunks vt (sz - 131072) r1 w1 = Some (w', r')" "ok w'"
        "out w' = out w1 @ unread r1" "mem_reader_ok r'" "unread r' = []"
        using "1.IH" [OF \<open>sz > 0\<close> refl, of "(bs, r1)" bs r1 w1] chunk r1 w1 "1.prems"(4) by auto
      with step show ?thesis using u r1 w1 by simp
    next
      case False
      then have "copy_chunks vt (sz - 131072) r1 w1 = Some (w1, r1)" by (subst copy_chunks.simps) simp
      moreover have "ys = []" using False "1.prems"(2) by (simp add: ys_def)
      ultimately show ?thesis using step u r1 w1 by simp
    qed
  qed
qed

text \<open>
  \<open>writeFromStream\<close> copies everything that a reader has not read yet, whatever its size compared to the
  128 KB of the copy buffer, appends it unchanged and leaves the reader at its end.
\<close>

theorem writeFromStream_copies:
  assumes "mem_reader_ok r" "mem_writer_ok w" "length (written w) + length (unread r) < output_limit"
  shows "\<exists>w' r'. writeFromStream mem_writer_vt r w = Some (w', r') \<and> written w' = written w @ unread r
    \<and> mem_writer_ok w' \<and> mr_pos r' = mr_size r'"
proof -
  have "mr_size r - mr_pos r = int (length (unread r))"
    using assms(1) by (auto simp: mem_reader_ok_def unread_def)
  then obtain w' r' where "writeFromStream mem_writer_vt r w = Some (w', r')" "mem_writer_ok w'"
    "written w' = written w @ unread r" "mem_reader_ok r'" "unread r' = []"
    using copy_chunks_appends [OF assms(1) _ assms(2) mem_out.byte_writer_axioms assms(3)]
    by (auto simp: writeFromStream_def)
  then show ?thesis by (auto simp: mem_reader_ok_def unread_def)
qed

theorem writeFromStream_copies_witness:
  "\<exists>w' r'. writeFromStream mem_writer_vt (new_mem_reader [1, 2, 3] 3) new_mem_writer = Some (w', r')
    \<and> written w' = [1, 2, 3] \<and> mem_writer_ok w' \<and> mr_pos r' = mr_size r'"
  using writeFromStream_copies [of "new_mem_reader [1, 2, 3] 3" new_mem_writer]
    new_mem_reader_ok [of "[1, 2, 3]"] new_mem_writer_ok by (simp add: output_limit_def)

end
