(* ===== verification/Program.thy ===== *)
theory Program
  imports Streams Numbers Instr "HOL-Library.Monad_Syntax"
begin

text \<open>
  The compiled program: \<open>Compiler::saveToStream\<close> writes what the compiler has gathered (numbers, strings,
  functions with their locals and try blocks, instructions, debug information) to a stream, and
  \<open>Program::loadFromStream\<close> builds the program that the interpreter runs from a reader.

  Numbers are 64-bit patterns of doubles.  They are written in four groups, by the narrowest type that
  holds them; the conversion of a double to the host's long double, which only not-a-numbers reach, and
  back are the parameter \<open>long_double\<close>.  String constants are their contents (interning them is the subject of
  \<open>Interning\<close>).  The version is the one of a 64-bit release build.
\<close>

section \<open>Data of the compiler and of the program\<close>

record local_var_compiled =
  cached_name_index :: int
  lv_start_code_pos :: int
  lv_end_code_pos :: int
  lv_upvalue :: bool

record try_block =
  tb_start_code_pos :: int
  tb_end_code_pos :: int
  tb_catch_var_index :: int

record func_scope =
  fs_parent :: "int option"
  fs_stack_size :: int
  fs_num_locals :: int
  fs_num_params :: int
  fs_max_up_count :: int
  fs_func_depth :: int
  fs_func_index :: int
  fs_num_local_funcs :: int
  fs_try_blocks :: "try_block list"
  fs_opcodes_pos :: int
  fs_opcodes_size :: int
  fs_locals_compiled :: "local_var_compiled list"

record debug_info_item =
  di_line :: int
  di_pos :: int

record compiled =
  prog_numbers :: "u64 list"
  prog_strings :: "bytes list"
  prog_functions :: "func_scope list"
  prog_opcodes :: "u32 list"
  prog_debug_info :: "debug_info_item list"
  prog_filename_string_index :: int

datatype const_value = ConstNull | ConstBool bool | ConstNumber u64 | ConstString bytes

definition CONST_NULL :: int where "CONST_NULL = 0"
definition CONST_TRUE :: int where "CONST_TRUE = 1"
definition CONST_FALSE :: int where "CONST_FALSE = 2"
definition CONST_STD_VALUES :: int where "CONST_STD_VALUES = 3"

record local_var =
  var_name :: bytes
  var_start_code_pos :: int
  var_end_code_pos :: int
  var_upvalue :: bool

record function_decl =
  prog_parent_func_index :: int
  fd_locals :: "local_var list"
  fd_stack_size :: int
  fd_num_locals :: int
  fd_num_params :: int
  fd_max_up_count :: int
  fd_func_depth :: int
  fd_func_index :: int
  fd_num_local_funcs :: int
  fd_try_blocks :: "try_block list"
  fd_num_try_blocks :: int
  fd_opcodes_pos :: int
  fd_opcodes_size :: int

record program =
  p_filename :: bytes
  p_num_strings :: int
  p_num_numbers :: int
  p_const_values :: "const_value option list"
  p_functions :: "function_decl list"
  p_opcodes :: "u32 list"
  p_debug_info :: "debug_info_item list"

definition os_text :: "string \<Rightarrow> bytes" where
  "os_text s = map of_char s"

definition OS_COMPILED_HEADER :: bytes where
  "OS_COMPILED_HEADER = os_text ''OBJECTSCRIPT''"

definition OS_VERSION :: bytes where
  "OS_VERSION = os_text ''2.6.5-rc-x64''"

section \<open>Numbers\<close>

text \<open>\<open>(double)f\<close> is exact.\<close>

definition float_to_double :: "u32 \<Rightarrow> u64" where
  "float_to_double f =
     (let sgn = (if f \<ge> 0x80000000 then 0x8000000000000000 else 0 :: u64);
          e = uint (drop_bit 23 f AND 0xFF); m = uint (f AND 0x7FFFFF)
      in sgn OR
         (if e = 0xFF then
            (if m = 0 then 0x7FF0000000000000 else 0x7FF8000000000000 OR word_of_int (m * 2 ^ 29))
          else if e = 0 then
            (if m = 0 then 0
             else word_of_int ((int (bit_length m) + 873) * 2 ^ 52 + (m * 2 ^ (53 - bit_length m) - 2 ^ 52)))
          else word_of_int ((e + 896) * 2 ^ 52 + m * 2 ^ 29)))"

datatype num_class = CInt | CFloat | CDouble | CLongDouble

text \<open>
  The tests of \<open>saveToStream\<close>: \<open>val >= 0 && (int)val == val\<close>, then \<open>(float)val == val\<close>, then
  \<open>(double)val == val\<close>.  A conversion to \<open>int\<close> out of range is undefined; the host gives a negative
  number, which is not the value.
\<close>

definition is_small_int :: "u64 \<Rightarrow> bool" where
  "is_small_int val \<longleftrightarrow> dbl_le 0 val
     \<and> (case double_trunc val of None \<Rightarrow> False | Some i \<Rightarrow> i < 2 ^ 31 \<and> dbl_eq (double_of_int i) val)"

definition number_class :: "u64 \<Rightarrow> num_class" where
  "number_class val =
     (if is_small_int val then CInt
      else if dbl_eq (float_to_double (double_to_float val)) val then CFloat
      else if dbl_eq val val then CDouble
      else CLongDouble)"

record long_double =
  ld_size :: int
  ld_of_double :: "u64 \<Rightarrow> bytes"
  double_of_ld :: "bytes \<Rightarrow> u64"

section \<open>Saving\<close>

text \<open>One of the four groups: its stream, the number of its numbers and the index of the last one.\<close>

record number_group =
  g_stream :: mem_writer
  g_count :: int
  g_index :: int

definition empty_group :: number_group where
  "empty_group = \<lparr>g_stream = new_mem_writer, g_count = 0, g_index = 0\<rparr>"

definition write_payload :: "long_double \<Rightarrow> num_class \<Rightarrow> u64 \<Rightarrow> mem_writer \<Rightarrow> mem_writer option" where
  "write_payload ld c val w =
     (case c of
        CInt \<Rightarrow> (case double_trunc val of None \<Rightarrow> None | Some i \<Rightarrow> writeUVariable mem_writer_vt i w)
      | CFloat \<Rightarrow> writeFloat mem_writer_vt (double_to_float val) w
      | CDouble \<Rightarrow> writeDouble mem_writer_vt val w
      | CLongDouble \<Rightarrow> writeLongDouble mem_writer_vt (ld_of_double ld val) w)"

definition add_to_group :: "long_double \<Rightarrow> num_class \<Rightarrow> int \<Rightarrow> u64 \<Rightarrow> number_group \<Rightarrow> number_group option" where
  "add_to_group ld c i val g =
     Option.bind (writeUVariable mem_writer_vt (i - g_index g) (g_stream g)) (\<lambda>w.
     Option.bind (write_payload ld c val w) (\<lambda>w.
       Some \<lparr>g_stream = w, g_count = g_count g + 1, g_index = i\<rparr>))"

fun save_numbers ::
  "long_double \<Rightarrow> int \<Rightarrow> u64 list \<Rightarrow> (num_class \<Rightarrow> number_group) \<Rightarrow> (num_class \<Rightarrow> number_group) option" where
  "save_numbers ld i [] gs = Some gs"
| "save_numbers ld i (val # vals) gs =
     (let c = number_class val
      in Option.bind (add_to_group ld c i val (gs c)) (\<lambda>g. save_numbers ld (i + 1) vals (gs(c := g))))"

definition save_string :: "'w writer_vt \<Rightarrow> bytes \<Rightarrow> 'w \<Rightarrow> 'w option" where
  "save_string vt str w =
     Option.bind (writeUVariable vt (int (length str)) w) (vt_writeBytes vt str)"

definition save_local :: "'w writer_vt \<Rightarrow> func_scope \<Rightarrow> local_var_compiled \<Rightarrow> 'w \<Rightarrow> 'w option" where
  "save_local vt f v w =
     (let pos = fs_opcodes_pos f; end_pos = fs_opcodes_pos f + fs_opcodes_size f in
      os_assert (lv_start_code_pos v \<ge> pos \<and> lv_start_code_pos v < end_pos)
     (os_assert (lv_end_code_pos v > pos \<and> lv_end_code_pos v \<le> end_pos)
       (Option.bind (write_each (writeUVariable vt)
          [cached_name_index v, lv_start_code_pos v - pos, lv_end_code_pos v - pos] w)
        (vt_writeByte vt (if lv_upvalue v then 1 else 0)))))"

definition save_try_block :: "'w writer_vt \<Rightarrow> func_scope \<Rightarrow> try_block \<Rightarrow> 'w \<Rightarrow> 'w option" where
  "save_try_block vt f t w =
     (let pos = fs_opcodes_pos f; end_pos = fs_opcodes_pos f + fs_opcodes_size f in
      os_assert (tb_catch_var_index t \<ge> 0 \<and> tb_catch_var_index t < int (length (fs_locals_compiled f)))
     (os_assert (tb_end_code_pos t > tb_start_code_pos t)
     (os_assert (tb_start_code_pos t \<ge> pos \<and> tb_start_code_pos t \<le> end_pos)
     (os_assert (tb_end_code_pos t \<ge> pos \<and> tb_end_code_pos t \<le> end_pos)
       (write_each (writeUVariable vt) [tb_start_code_pos t - pos, tb_end_code_pos t - pos, tb_catch_var_index t] w)))))"

definition save_function :: "'w writer_vt \<Rightarrow> func_scope \<Rightarrow> 'w \<Rightarrow> 'w option" where
  "save_function vt f w =
     Option.bind (write_each (writeUVariable vt)
       [case fs_parent f of Some p \<Rightarrow> p + 1 | None \<Rightarrow> 0, fs_stack_size f, fs_num_locals f, fs_num_params f,
        fs_max_up_count f, fs_func_depth f, fs_func_index f, fs_num_local_funcs f,
        int (length (fs_try_blocks f)), fs_opcodes_pos f, fs_opcodes_size f] w) (\<lambda>w.
     os_assert (int (length (fs_locals_compiled f)) = fs_num_locals f)
       (Option.bind (write_each (save_local vt f) (fs_locals_compiled f) w)
          (write_each (save_try_block vt f) (fs_try_blocks f))))"

definition save_debug_item :: "'w writer_vt \<Rightarrow> debug_info_item \<Rightarrow> 'w \<Rightarrow> 'w option" where
  "save_debug_item vt d w = Option.bind (writeUVariable vt (di_line d) w) (writeUVariable vt (di_pos d))"

definition saveToStream :: "long_double \<Rightarrow> 'w writer_vt \<Rightarrow> compiled \<Rightarrow> 'w \<Rightarrow> 'w option" where
  "saveToStream ld vt p w =
     do {
       w \<leftarrow> vt_writeBytes vt OS_COMPILED_HEADER w;
       w \<leftarrow> vt_writeByte vt (int (length OS_VERSION) + 1) w;
       w \<leftarrow> vt_writeBytes vt (OS_VERSION @ [0]) w;
       gs \<leftarrow> save_numbers ld 0 (prog_numbers p) (\<lambda>_. empty_group);
       w \<leftarrow> write_each (writeUVariable vt)
         [g_count (gs CInt), g_count (gs CFloat), g_count (gs CDouble), g_count (gs CLongDouble),
          int (length (prog_strings p)), int (length (prog_functions p)), int (length (prog_opcodes p)),
          int (length (prog_debug_info p)), prog_filename_string_index p] w;
       w \<leftarrow> vt_writeBytes vt (written (g_stream (gs CInt))) w;
       w \<leftarrow> vt_writeBytes vt (written (g_stream (gs CFloat))) w;
       w \<leftarrow> vt_writeBytes vt (written (g_stream (gs CDouble))) w;
       w \<leftarrow> vt_writeBytes vt (written (g_stream (gs CLongDouble))) w;
       w \<leftarrow> write_each (save_string vt) (prog_strings p) w;
       w \<leftarrow> write_each (save_function vt) (prog_functions p) w;
       w \<leftarrow> write_each (writeInt32 vt) (prog_opcodes p) w;
       write_each (save_debug_item vt) (prog_debug_info p) w
     }"

section \<open>Loading\<close>

definition read_payload :: "long_double \<Rightarrow> num_class \<Rightarrow> mem_reader \<Rightarrow> (u64 \<times> mem_reader) option" where
  "read_payload ld c r =
     (case c of
        CInt \<Rightarrow> Option.bind (readUVariable mem_readByte r) (\<lambda>(i, r). Some (double_of_int i, r))
      | CFloat \<Rightarrow> Option.bind (readFloat mem_readBytes r) (\<lambda>(f, r). Some (float_to_double f, r))
      | CDouble \<Rightarrow> readDouble mem_readBytes r
      | CLongDouble \<Rightarrow> Option.bind (readLongDouble (ld_size ld) mem_readBytes r) (\<lambda>(d, r). Some (double_of_ld ld d, r)))"

type_synonym const_values = "const_value option list"

definition set_const :: "int \<Rightarrow> const_value \<Rightarrow> const_values \<Rightarrow> const_values option" where
  "set_const i v cs = os_assert (0 \<le> i \<and> i < int (length cs)) (Some (cs[nat i := Some v]))"

text \<open>The body of each of the four loops, \<open>n\<close> times.\<close>

fun load_group ::
  "long_double \<Rightarrow> num_class \<Rightarrow> int \<Rightarrow> nat \<Rightarrow> int \<Rightarrow> const_values \<Rightarrow> mem_reader \<Rightarrow> (const_values \<times> mem_reader) option"
where
  "load_group ld c num_numbers 0 num_index cs r = Some (cs, r)"
| "load_group ld c num_numbers (Suc n) num_index cs r =
     Option.bind (readUVariable mem_readByte r) (\<lambda>(delta, r).
       let num_index = num_index + delta in
       os_assert (num_index \<ge> 0 \<and> num_index < num_numbers)
         (Option.bind (read_payload ld c r) (\<lambda>(number, r).
          Option.bind (set_const (num_index + CONST_STD_VALUES) (ConstNumber number) cs) (\<lambda>cs.
            load_group ld c num_numbers n num_index cs r))))"

fun load_strings ::
  "int \<Rightarrow> nat \<Rightarrow> const_values \<Rightarrow> mem_reader \<Rightarrow> (const_values \<times> mem_reader) option" where
  "load_strings i 0 cs r = Some (cs, r)"
| "load_strings i (Suc n) cs r =
     Option.bind (readUVariable mem_readByte r) (\<lambda>(data_size, r).
     Option.bind (mem_readBytes data_size r) (\<lambda>(str, r).
     Option.bind (set_const i (ConstString str) cs) (\<lambda>cs. load_strings (i + 1) n cs r)))"

definition const_string :: "int \<Rightarrow> const_values \<Rightarrow> bytes option" where
  "const_string i cs =
     (if 0 \<le> i \<and> i < int (length cs)
      then (case cs ! nat i of Some (ConstString s) \<Rightarrow> Some s | _ \<Rightarrow> None) else None)"

definition load_local ::
  "int \<Rightarrow> int \<Rightarrow> const_values \<Rightarrow> int \<Rightarrow> mem_reader \<Rightarrow> (local_var \<times> mem_reader) option" where
  "load_local num_numbers num_strings cs opcodes_pos r =
     do {
       (cached_name_index, r) \<leftarrow> readUVariable mem_readByte r;
       os_assert (cached_name_index \<ge> 0 \<and> cached_name_index < num_strings) (do {
         name \<leftarrow> const_string (cached_name_index + num_numbers + CONST_STD_VALUES) cs;
         (start_pos, r) \<leftarrow> readUVariable mem_readByte r;
         (end_pos, r) \<leftarrow> readUVariable mem_readByte r;
         (upvalue, r) \<leftarrow> mem_readByte r;
         Some (\<lparr>var_name = name, var_start_code_pos = start_pos + opcodes_pos,
                var_end_code_pos = end_pos + opcodes_pos, var_upvalue = (upvalue \<noteq> 0)\<rparr>, r)
       })
     }"

definition load_try_block :: "int \<Rightarrow> mem_reader \<Rightarrow> (try_block \<times> mem_reader) option" where
  "load_try_block opcodes_pos r =
     do {
       (start_pos, r) \<leftarrow> readUVariable mem_readByte r;
       (end_pos, r) \<leftarrow> readUVariable mem_readByte r;
       (catch_var_index, r) \<leftarrow> readUVariable mem_readByte r;
       Some (\<lparr>tb_start_code_pos = start_pos + opcodes_pos, tb_end_code_pos = end_pos + opcodes_pos,
              tb_catch_var_index = catch_var_index\<rparr>, r)
     }"

definition load_function ::
  "int \<Rightarrow> int \<Rightarrow> const_values \<Rightarrow> mem_reader \<Rightarrow> (function_decl \<times> mem_reader) option" where
  "load_function num_numbers num_strings cs r =
     do {
       (parent, r) \<leftarrow> readUVariable mem_readByte r;
       (stack_size, r) \<leftarrow> readUVariable mem_readByte r;
       (num_locals, r) \<leftarrow> readUVariable mem_readByte r;
       (num_params, r) \<leftarrow> readUVariable mem_readByte r;
       (max_up_count, r) \<leftarrow> readUVariable mem_readByte r;
       (func_depth, r) \<leftarrow> readUVariable mem_readByte r;
       (func_index, r) \<leftarrow> readUVariable mem_readByte r;
       (num_local_funcs, r) \<leftarrow> readUVariable mem_readByte r;
       (num_try_blocks, r) \<leftarrow> readUVariable mem_readByte r;
       (opcodes_pos, r) \<leftarrow> readUVariable mem_readByte r;
       (opcodes_size, r) \<leftarrow> readUVariable mem_readByte r;
       (locals, r) \<leftarrow> read_times (load_local num_numbers num_strings cs opcodes_pos) (nat num_locals) r;
       (try_blocks, r) \<leftarrow> read_times (load_try_block opcodes_pos) (nat num_try_blocks) r;
       Some (\<lparr>prog_parent_func_index = parent - 1, fd_locals = locals, fd_stack_size = stack_size,
              fd_num_locals = num_locals, fd_num_params = num_params, fd_max_up_count = max_up_count,
              fd_func_depth = func_depth, fd_func_index = func_index, fd_num_local_funcs = num_local_funcs,
              fd_try_blocks = try_blocks, fd_num_try_blocks = num_try_blocks, fd_opcodes_pos = opcodes_pos,
              fd_opcodes_size = opcodes_size\<rparr>, r)
     }"

definition load_debug_item :: "mem_reader \<Rightarrow> (debug_info_item \<times> mem_reader) option" where
  "load_debug_item r =
     do {
       (line, r) \<leftarrow> readUVariable mem_readByte r;
       (pos, r) \<leftarrow> readUVariable mem_readByte r;
       Some (\<lparr>di_line = line, di_pos = pos\<rparr>, r)
     }"

text \<open>What follows the header and the version.\<close>

definition load_body :: "long_double \<Rightarrow> mem_reader \<Rightarrow> (program \<times> mem_reader) option" where
  "load_body ld r =
     do {
       (int_count, r) \<leftarrow> readUVariable mem_readByte r;
       (float_count, r) \<leftarrow> readUVariable mem_readByte r;
       (double_count, r) \<leftarrow> readUVariable mem_readByte r;
       (long_double_count, r) \<leftarrow> readUVariable mem_readByte r;
       (num_strings, r) \<leftarrow> readUVariable mem_readByte r;
       (num_functions, r) \<leftarrow> readUVariable mem_readByte r;
       (opcodes_size, r) \<leftarrow> readUVariable mem_readByte r;
       (num_debug_infos, r) \<leftarrow> readUVariable mem_readByte r;
       (filename_index, r) \<leftarrow> readUVariable mem_readByte r;
       let num_numbers = int_count + float_count + double_count + long_double_count;
       os_assert (filename_index \<ge> 0 \<and> filename_index < num_strings) (do {
         let cs = replicate (nat (num_numbers + num_strings + CONST_STD_VALUES)) None;
         cs \<leftarrow> set_const CONST_NULL ConstNull cs;
         cs \<leftarrow> set_const CONST_TRUE (ConstBool True) cs;
         cs \<leftarrow> set_const CONST_FALSE (ConstBool False) cs;
         (cs, r) \<leftarrow> load_group ld CInt num_numbers (nat int_count) 0 cs r;
         (cs, r) \<leftarrow> load_group ld CFloat num_numbers (nat float_count) 0 cs r;
         (cs, r) \<leftarrow> load_group ld CDouble num_numbers (nat double_count) 0 cs r;
         (cs, r) \<leftarrow> load_group ld CLongDouble num_numbers (nat long_double_count) 0 cs r;
         (cs, r) \<leftarrow> load_strings (num_numbers + CONST_STD_VALUES) (nat num_strings) cs r;
         filename \<leftarrow> const_string (filename_index + num_numbers + CONST_STD_VALUES) cs;
         (functions, r) \<leftarrow> read_times (load_function num_numbers num_strings cs) (nat num_functions) r;
         (opcodes, r) \<leftarrow> read_times mem_readInt32 (nat opcodes_size) r;
         (debug_info, r) \<leftarrow> read_times load_debug_item (nat num_debug_infos) r;
         Some (\<lparr>p_filename = filename, p_num_strings = num_strings, p_num_numbers = num_numbers,
                p_const_values = cs, p_functions = functions, p_opcodes = opcodes, p_debug_info = debug_info\<rparr>, r)
       })
     }"

text \<open>
  \<open>loadFromStream\<close> on a new program: \<open>Some (None, r)\<close> is the result \<open>false\<close>, for a stream that does not
  start with the header or was written by another version.
\<close>

definition loadFromStream :: "long_double \<Rightarrow> mem_reader \<Rightarrow> (program option \<times> mem_reader) option" where
  "loadFromStream ld r =
     do {
       (ok, r) \<leftarrow> checkBytes OS_COMPILED_HEADER r;
       if \<not> ok then Some (None, r)
       else do {
         r \<leftarrow> movePos 1 r;
         (ok, r) \<leftarrow> checkBytes (OS_VERSION @ [0]) r;
         if \<not> ok then Some (None, r)
         else do {
           (p, r) \<leftarrow> load_body ld r;
           Some (Some p, r)
         }
       }
     }"

definition getDebugInfo :: "int \<Rightarrow> program \<Rightarrow> debug_info_item option" where
  "getDebugInfo opcode_pos p =
     (let opcode_pos = opcode_pos - 1 in
      if opcode_pos \<ge> 0 \<and> opcode_pos < int (length (p_debug_info p))
      then Some (p_debug_info p ! nat opcode_pos) else None)"

section \<open>The image of a program\<close>

text \<open>A saved and loaded number: the sign of zero is lost, because \<open>-0.0 >= 0\<close> takes the integer group.\<close>

definition canon_number :: "u64 \<Rightarrow> u64" where
  "canon_number v = (if v = 0x8000000000000000 then 0 else v)"

definition uv :: "int \<Rightarrow> bytes" where
  "uv v = uvar_bytes (nat v)"

definition number_bytes :: "long_double \<Rightarrow> u64 \<Rightarrow> bytes" where
  "number_bytes ld v =
     (case number_class v of
        CInt \<Rightarrow> uv (the (double_trunc v))
      | CFloat \<Rightarrow> le_bytes 4 (double_to_float v)
      | CDouble \<Rightarrow> le_bytes 8 v
      | CLongDouble \<Rightarrow> ld_of_double ld v)"

fun group_bytes :: "long_double \<Rightarrow> int \<Rightarrow> (nat \<times> u64) list \<Rightarrow> bytes" where
  "group_bytes ld q [] = []"
| "group_bytes ld q ((i, v) # ivs) = uv (int i - q) @ number_bytes ld v @ group_bytes ld (int i) ivs"

definition class_items :: "num_class \<Rightarrow> nat \<Rightarrow> u64 list \<Rightarrow> (nat \<times> u64) list" where
  "class_items c i vs = filter (\<lambda>(j, v). number_class v = c) (enumerate i vs)"

lemma class_items_Cons:
  "class_items c i (v # vs) = (if number_class v = c then [(i, v)] else []) @ class_items c (Suc i) vs"
  by (simp add: class_items_def)

definition ld_exact :: "long_double \<Rightarrow> u64 \<Rightarrow> bool" where
  "ld_exact ld v \<longleftrightarrow> (dbl_is_nan v \<longrightarrow>
     double_of_ld ld (ld_of_double ld v) = v \<and> int (length (ld_of_double ld v)) = ld_size ld)"

lemma small_int_trunc:
  assumes "is_small_int v"
  obtains i where "double_trunc v = Some i" "0 \<le> i" "i < 2 ^ 31" "dbl_eq (double_of_int i) v"
proof -
  obtain i where i: "double_trunc v = Some i" "i < 2 ^ 31" "dbl_eq (double_of_int i) v" and le: "dbl_le 0 v"
    using assms by (auto simp: is_small_int_def split: option.splits)
  have "0 \<le> i"
  proof (cases "dbl_negative v")
    case True
    have "0 \<le> dbl_key v" using le by (simp add: dbl_le_def dbl_key_def dbl_negative_def)
    with True have "uint v = 2 ^ 63" by (simp add: dbl_key_def dbl_negative_eq)
    then have "dbl_exponent v = 0" by (simp add: dbl_exponent_eq)
    with i(1) show ?thesis by (auto simp: double_trunc_def Let_def split: if_splits)
  next
    case False
    have "0 \<le> dbl_mantissa v" by (simp add: dbl_mantissa_eq)
    with False i(1) show ?thesis
      by (auto simp: double_trunc_def Let_def pos_imp_zdiv_nonneg_iff split: if_splits)
  qed
  with i that show thesis by blast
qed

lemma zero_small_int: "is_small_int 0" "is_small_int 0x8000000000000000"
  "double_trunc 0 = Some 0" "double_trunc 0x8000000000000000 = Some 0"
  by code_simp+

lemma canon_other: "\<not> is_small_int v \<Longrightarrow> canon_number v = v"
  using zero_small_int by (auto simp: canon_number_def)

lemma dbl_eq_canon:
  assumes "dbl_eq x v" "\<not> is_small_int v"
  shows "x = v"
  using dbl_eq_bits [OF assms(1)] assms(2) zero_small_int by (auto simp: dbl_key_zero)

lemma small_int_canon:
  assumes "is_small_int v" "double_trunc v = Some i" "dbl_eq (double_of_int i) v"
  shows "double_of_int i = canon_number v"
proof (cases "dbl_key v = 0")
  case True
  then have "v = 0 \<or> v = 0x8000000000000000" by (simp add: dbl_key_zero)
  with assms(2) zero_small_int show ?thesis by (auto simp: canon_number_def double_of_int_zero)
next
  case False
  with dbl_eq_bits [OF assms(3)] have "double_of_int i = v" by auto
  moreover have "v \<noteq> 0x8000000000000000" using False by (auto simp: dbl_key_zero)
  ultimately show ?thesis by (simp add: canon_number_def)
qed

lemma uv_consumes:
  "0 \<le> v \<Longrightarrow> v < 2 ^ 31 \<Longrightarrow> consumes mem_reader_ok unread (readUVariable mem_readByte) (uv v) v"
  using mem_in.readUVariable_consumes [of "nat v"] by (auto simp: uv_def nat_less_iff)

lemma read_payload_consumes:
  assumes "ld_exact ld v"
  shows "consumes mem_reader_ok unread (read_payload ld (number_class v)) (number_bytes ld v) (canon_number v)"
proof (cases "number_class v")
  case CInt
  then have sm: "is_small_int v" by (auto simp: number_class_def split: if_splits)
  then obtain i where i: "double_trunc v = Some i" "0 \<le> i" "i < 2 ^ 31" "dbl_eq (double_of_int i) v"
    by (rule small_int_trunc)
  then show ?thesis
    using CInt consumes_map [OF uv_consumes [OF i(2,3)], of double_of_int] small_int_canon [OF sm i(1,4)]
    by (simp add: read_payload_def [abs_def] number_bytes_def)
next
  case CFloat
  then have "\<not> is_small_int v" "dbl_eq (float_to_double (double_to_float v)) v"
    by (auto simp: number_class_def split: if_splits)
  with dbl_eq_canon have "float_to_double (double_to_float v) = canon_number v" by (simp add: canon_other)
  with CFloat show ?thesis
    using consumes_map [OF mem_in.readFloat_consumes, of float_to_double "double_to_float v"]
    by (simp add: read_payload_def [abs_def] number_bytes_def)
next
  case CDouble
  then have "canon_number v = v" by (intro canon_other) (auto simp: number_class_def split: if_splits)
  with CDouble show ?thesis
    using mem_in.readDouble_consumes [of v] by (simp add: read_payload_def [abs_def] number_bytes_def)
next
  case CLongDouble
  then have "\<not> is_small_int v" "\<not> dbl_eq v v" by (auto simp: number_class_def split: if_splits)
  then have "canon_number v = v" "double_of_ld ld (ld_of_double ld v) = v"
    "int (length (ld_of_double ld v)) = ld_size ld"
    using assms by (auto simp: canon_other ld_exact_def dbl_eq_refl)
  with CLongDouble show ?thesis
    using consumes_map [OF mem_in.readLongDouble_consumes, of "ld_of_double ld v" "ld_size ld" "double_of_ld ld"]
    by (simp add: read_payload_def [abs_def] number_bytes_def)
qed

lemma write_payload_appends:
  "appends mem_writer_ok written (write_payload ld (number_class v) v) (number_bytes ld v)"
proof (cases "number_class v")
  case CInt
  then have "is_small_int v" by (auto simp: number_class_def split: if_splits)
  then obtain i where "double_trunc v = Some i" "0 \<le> i" by (rule small_int_trunc)
  with CInt show ?thesis
    using mem_out.writeUVariable_appends [of i] by (simp add: write_payload_def [abs_def] number_bytes_def uv_def)
qed (use mem_out.writeFloat_appends mem_out.writeDouble_appends mem_out.writeLongDouble_appends in
    \<open>simp_all add: write_payload_def [abs_def] number_bytes_def\<close>)

section \<open>The groups of numbers\<close>

lemma save_numbers_groups:
  assumes "\<forall>c. mem_writer_ok (g_stream (gs c)) \<and> 0 \<le> g_index (gs c) \<and> g_index (gs c) \<le> int i"
    and "\<forall>c. length (written (g_stream (gs c))) + length (group_bytes ld (g_index (gs c)) (class_items c i vs)) < output_limit"
  shows "\<exists>gs'. save_numbers ld (int i) vs gs = Some gs' \<and> (\<forall>c. mem_writer_ok (g_stream (gs' c))
    \<and> written (g_stream (gs' c)) = written (g_stream (gs c)) @ group_bytes ld (g_index (gs c)) (class_items c i vs)
    \<and> g_count (gs' c) = g_count (gs c) + int (length (class_items c i vs)))"
  using assms
proof (induction vs arbitrary: i gs)
  case Nil
  then show ?case by (simp add: class_items_def)
next
  case (Cons v vs)
  define c where "c = number_class v"
  have ap: "appends mem_writer_ok written (\<lambda>w. Option.bind (writeUVariable mem_writer_vt (int i - g_index (gs c)) w)
      (write_payload ld c v)) (uv (int i - g_index (gs c)) @ number_bytes ld v)"
    unfolding c_def uv_def
    by (intro appends_bind mem_out.writeUVariable_appends write_payload_appends) (use Cons.prems(1) in simp)
  have len: "length (written (g_stream (gs c))) + length (uv (int i - g_index (gs c)) @ number_bytes ld v) < output_limit"
    using Cons.prems(2) [rule_format, of c] by (simp add: class_items_Cons c_def)
  obtain w where w: "Option.bind (writeUVariable mem_writer_vt (int i - g_index (gs c)) (g_stream (gs c)))
      (write_payload ld c v) = Some w" "mem_writer_ok w"
    "written w = written (g_stream (gs c)) @ uv (int i - g_index (gs c)) @ number_bytes ld v"
    using ap Cons.prems(1) len unfolding appends_def by blast
  define g where "g = \<lparr>g_stream = w, g_count = g_count (gs c) + 1, g_index = int i\<rparr>"
  have add: "add_to_group ld c (int i) v (gs c) = Some g"
    using w(1) by (auto simp: add_to_group_def g_def split: bind_splits)
  have "\<exists>gs'. save_numbers ld (int (Suc i)) vs (gs(c := g)) = Some gs' \<and> (\<forall>d. mem_writer_ok (g_stream (gs' d))
    \<and> written (g_stream (gs' d)) = written (g_stream ((gs(c := g)) d))
        @ group_bytes ld (g_index ((gs(c := g)) d)) (class_items d (Suc i) vs)
    \<and> g_count (gs' d) = g_count ((gs(c := g)) d) + int (length (class_items d (Suc i) vs)))"
  proof (rule Cons.IH)
    have "g_index (gs d) \<le> int (Suc i)" for d using Cons.prems(1) [rule_format, of d] by simp
    then show "\<forall>d. mem_writer_ok (g_stream ((gs(c := g)) d)) \<and> 0 \<le> g_index ((gs(c := g)) d)
        \<and> g_index ((gs(c := g)) d) \<le> int (Suc i)"
      using Cons.prems(1) w by (simp add: g_def)
    show "\<forall>d. length (written (g_stream ((gs(c := g)) d)))
        + length (group_bytes ld (g_index ((gs(c := g)) d)) (class_items d (Suc i) vs)) < output_limit"
    proof
      fix d
      show "length (written (g_stream ((gs(c := g)) d)))
        + length (group_bytes ld (g_index ((gs(c := g)) d)) (class_items d (Suc i) vs)) < output_limit"
        using Cons.prems(2) [rule_format, of d] w
        by (cases "d = c") (simp_all add: g_def class_items_Cons c_def [symmetric] add.assoc)
    qed
  qed
  then obtain gs' where gs': "save_numbers ld (int (Suc i)) vs (gs(c := g)) = Some gs'"
    "\<forall>d. mem_writer_ok (g_stream (gs' d)) \<and> written (g_stream (gs' d)) = written (g_stream ((gs(c := g)) d))
        @ group_bytes ld (g_index ((gs(c := g)) d)) (class_items d (Suc i) vs)
    \<and> g_count (gs' d) = g_count ((gs(c := g)) d) + int (length (class_items d (Suc i) vs))" by blast
  have "save_numbers ld (int i) (v # vs) gs = Some gs'"
    using gs'(1) add by (simp add: c_def [symmetric] add.commute)
  moreover have "mem_writer_ok (g_stream (gs' d)) \<and> written (g_stream (gs' d)) = written (g_stream (gs d))
      @ group_bytes ld (g_index (gs d)) (class_items d i (v # vs))
    \<and> g_count (gs' d) = g_count (gs d) + int (length (class_items d i (v # vs)))" for d
    using gs'(2) [rule_format, of d] w by (simp add: class_items_Cons c_def [symmetric] g_def)
  ultimately show ?case by blast
qed

text \<open>Loading a group fills the cells of its numbers.\<close>

fun fill_numbers :: "const_values \<Rightarrow> (nat \<times> u64) list \<Rightarrow> const_values" where
  "fill_numbers cs [] = cs"
| "fill_numbers cs ((i, v) # ivs) = fill_numbers (cs[i + 3 := Some (ConstNumber (canon_number v))]) ivs"

lemma length_fill_numbers [simp]: "length (fill_numbers cs ivs) = length cs"
  by (induction cs ivs rule: fill_numbers.induct) auto

lemma nth_fill_numbers:
  assumes "k < length cs" "\<forall>(i, v) \<in> set ivs. v = vs ! i"
  shows "fill_numbers cs ivs ! k
    = (if 3 \<le> k \<and> k - 3 \<in> fst ` set ivs then Some (ConstNumber (canon_number (vs ! (k - 3)))) else cs ! k)"
  using assms
proof (induction cs ivs rule: fill_numbers.induct)
  case (2 cs i v ivs)
  have "fill_numbers cs ((i, v) # ivs) ! k
      = (if 3 \<le> k \<and> k - 3 \<in> fst ` set ivs then Some (ConstNumber (canon_number (vs ! (k - 3))))
         else cs[i + 3 := Some (ConstNumber (canon_number v))] ! k)"
    using 2 by simp
  moreover have "k = i + 3 \<longleftrightarrow> 3 \<le> k \<and> k - 3 = i" by auto
  ultimately show ?case using 2(2,3) by (auto simp: nth_list_update)
qed simp

lemma load_group_consumes:
  assumes "\<forall>(i, v) \<in> set ivs. number_class v = c \<and> ld_exact ld v \<and> i < n" "sorted_wrt (<) (q # map fst ivs) \<or> ivs = []
      \<or> (q = 0 \<and> sorted_wrt (<) (map fst ivs))"
    and "n + 3 \<le> length cs" "n < 2 ^ 31"
  shows "consumes mem_reader_ok unread (load_group ld c (int n) (length ivs) (int q) cs)
    (group_bytes ld (int q) ivs) (fill_numbers cs ivs)"
  using assms
proof (induction ivs arbitrary: q cs)
  case Nil
  then show ?case by (simp add: consumes_def)
next
  case (Cons iv ivs)
  obtain i v where iv: "iv = (i, v)" by (cases iv)
  with Cons.prems have i: "i < n" "q \<le> i" "number_class v = c" "ld_exact ld v" "sorted_wrt (<) (i # map fst ivs)"
    by auto
  have delta: "0 \<le> int i - int q" "int i - int q < 2 ^ 31"
  proof -
    have "i < 2 ^ 31" using i(1) Cons.prems(4) by (rule less_trans)
    then show "int i - int q < 2 ^ 31" by simp
  qed (use i in simp)
  have set: "set_const (int i + CONST_STD_VALUES) (ConstNumber (canon_number v)) cs
      = Some (cs[i + 3 := Some (ConstNumber (canon_number v))])"
    using i Cons.prems(3) by (simp add: set_const_def CONST_STD_VALUES_def nat_add_distrib)
  have step: "load_group ld c (int n) (length ((i, v) # ivs)) (int q) cs = (\<lambda>r.
      Option.bind (readUVariable mem_readByte r) (\<lambda>(delta, r). let num_index = int q + delta in
       os_assert (num_index \<ge> 0 \<and> num_index < int n)
         (Option.bind (read_payload ld c r) (\<lambda>(number, r).
          Option.bind (set_const (num_index + CONST_STD_VALUES) (ConstNumber number) cs) (\<lambda>cs.
            load_group ld c (int n) (length ivs) num_index cs r)))))"
    by (rule ext) simp
  show ?case
    unfolding iv step group_bytes.simps
  proof (rule consumes_bind [OF uv_consumes [OF delta]])
    have idx: "int q + (int i - int q) = int i" by simp
    have "consumes mem_reader_ok unread (\<lambda>r. Option.bind (read_payload ld c r) (\<lambda>(number, r).
          Option.bind (set_const (int i + CONST_STD_VALUES) (ConstNumber number) cs) (\<lambda>cs.
            load_group ld c (int n) (length ivs) (int i) cs r)))
        (number_bytes ld v @ group_bytes ld (int i) ivs) (fill_numbers cs ((i, v) # ivs))"
    proof (rule consumes_bind)
      show "consumes mem_reader_ok unread (read_payload ld c) (number_bytes ld v) (canon_number v)"
        using read_payload_consumes [OF i(4)] i(3) by simp
      show "consumes mem_reader_ok unread (\<lambda>r. Option.bind (set_const (int i + CONST_STD_VALUES)
          (ConstNumber (canon_number v)) cs) (\<lambda>cs. load_group ld c (int n) (length ivs) (int i) cs r))
          (group_bytes ld (int i) ivs) (fill_numbers cs ((i, v) # ivs))"
        unfolding set using Cons.IH [of i "cs[i + 3 := Some (ConstNumber (canon_number v))]"] Cons.prems i by simp
    qed
    then show "consumes mem_reader_ok unread (\<lambda>r. let num_index = int q + (int i - int q) in
        os_assert (num_index \<ge> 0 \<and> num_index < int n)
         (Option.bind (read_payload ld c r) (\<lambda>(number, r).
          Option.bind (set_const (num_index + CONST_STD_VALUES) (ConstNumber number) cs) (\<lambda>cs.
            load_group ld c (int n) (length ivs) num_index cs r))))
        (number_bytes ld v @ group_bytes ld (int i) ivs) (fill_numbers cs ((i, v) # ivs))"
      unfolding Let_def idx using i(1) by simp
  qed
qed

lemma load_strings_consumes:
  assumes "\<forall>s \<in> set strs. length s < 2 ^ 31" "i = int (length cs)"
  shows "consumes mem_reader_ok unread (load_strings i (length strs) (cs @ replicate (length strs) None))
    (concat (map (\<lambda>s. uv (int (length s)) @ s) strs)) (cs @ map (\<lambda>s. Some (ConstString s)) strs)"
  using assms
proof (induction strs arbitrary: i cs)
  case Nil
  then show ?case by (simp add: consumes_def)
next
  case (Cons s strs)
  let ?cs = "cs @ replicate (length (s # strs)) None"
  have step: "load_strings i (length (s # strs)) ?cs = (\<lambda>r. Option.bind (readUVariable mem_readByte r)
      (\<lambda>(data_size, r). Option.bind (mem_readBytes data_size r) (\<lambda>(str, r).
       Option.bind (set_const i (ConstString str) ?cs) (\<lambda>cs. load_strings (i + 1) (length strs) cs r))))"
    by (rule ext) simp
  have set: "set_const i (ConstString s) ?cs = Some ((cs @ [Some (ConstString s)]) @ replicate (length strs) None)"
    using Cons.prems(2) by (simp add: set_const_def list_update_append)
  have "consumes mem_reader_ok unread
      (load_strings (i + 1) (length strs) ((cs @ [Some (ConstString s)]) @ replicate (length strs) None))
      (concat (map (\<lambda>s. uv (int (length s)) @ s) strs)) ((cs @ [Some (ConstString s)]) @ map (\<lambda>s. Some (ConstString s)) strs)"
    by (rule Cons.IH) (use Cons.prems in auto)
  then have "consumes mem_reader_ok unread (\<lambda>r. Option.bind (set_const i (ConstString s) ?cs)
      (\<lambda>cs. load_strings (i + 1) (length strs) cs r)) (concat (map (\<lambda>s. uv (int (length s)) @ s) strs))
      (cs @ map (\<lambda>s. Some (ConstString s)) (s # strs))"
    unfolding set by simp
  then have rest: "consumes mem_reader_ok unread (\<lambda>r. Option.bind (mem_readBytes (int (length s)) r) (\<lambda>(str, r).
       Option.bind (set_const i (ConstString str) ?cs) (\<lambda>cs. load_strings (i + 1) (length strs) cs r)))
      (s @ concat (map (\<lambda>s. uv (int (length s)) @ s) strs)) (cs @ map (\<lambda>s. Some (ConstString s)) (s # strs))"
    by (rule consumes_bind [OF mem_readBytes_consumes])
  have "consumes mem_reader_ok unread (load_strings i (length (s # strs)) ?cs)
      (uv (int (length s)) @ s @ concat (map (\<lambda>s. uv (int (length s)) @ s) strs))
      (cs @ map (\<lambda>s. Some (ConstString s)) (s # strs))"
  proof -
    have l: "int (length s) < 2 ^ 31" using Cons.prems(1) by auto
    show ?thesis unfolding step by (rule consumes_bind, rule uv_consumes, simp, rule l, rule rest)
  qed
  then show ?case by (simp del: load_strings.simps)
qed

section \<open>Functions\<close>

definition int_fits :: "int \<Rightarrow> bool" where
  "int_fits v \<longleftrightarrow> 0 \<le> v \<and> v < 2 ^ 31"

definition local_ok :: "int \<Rightarrow> func_scope \<Rightarrow> local_var_compiled \<Rightarrow> bool" where
  "local_ok num_strings f v \<longleftrightarrow> int_fits (cached_name_index v) \<and> cached_name_index v < num_strings
     \<and> fs_opcodes_pos f \<le> lv_start_code_pos v \<and> lv_start_code_pos v < fs_opcodes_pos f + fs_opcodes_size f
     \<and> fs_opcodes_pos f < lv_end_code_pos v \<and> lv_end_code_pos v \<le> fs_opcodes_pos f + fs_opcodes_size f"

definition try_block_ok :: "func_scope \<Rightarrow> try_block \<Rightarrow> bool" where
  "try_block_ok f t \<longleftrightarrow> int_fits (tb_catch_var_index t)
     \<and> tb_catch_var_index t < int (length (fs_locals_compiled f)) \<and> tb_start_code_pos t < tb_end_code_pos t
     \<and> fs_opcodes_pos f \<le> tb_start_code_pos t \<and> tb_end_code_pos t \<le> fs_opcodes_pos f + fs_opcodes_size f"

definition parent_code :: "func_scope \<Rightarrow> int" where
  "parent_code f = (case fs_parent f of Some p \<Rightarrow> p + 1 | None \<Rightarrow> 0)"

definition function_ok :: "int \<Rightarrow> func_scope \<Rightarrow> bool" where
  "function_ok num_strings f \<longleftrightarrow>
     list_all int_fits [parent_code f, fs_stack_size f, fs_num_locals f, fs_num_params f, fs_max_up_count f,
       fs_func_depth f, fs_func_index f, fs_num_local_funcs f, int (length (fs_try_blocks f)), fs_opcodes_pos f,
       fs_opcodes_size f]
     \<and> int (length (fs_locals_compiled f)) = fs_num_locals f
     \<and> list_all (local_ok num_strings f) (fs_locals_compiled f) \<and> list_all (try_block_ok f) (fs_try_blocks f)"

definition local_bytes :: "func_scope \<Rightarrow> local_var_compiled \<Rightarrow> bytes" where
  "local_bytes f v = uv (cached_name_index v) @ uv (lv_start_code_pos v - fs_opcodes_pos f)
     @ uv (lv_end_code_pos v - fs_opcodes_pos f) @ [if lv_upvalue v then 1 else 0]"

definition try_block_bytes :: "func_scope \<Rightarrow> try_block \<Rightarrow> bytes" where
  "try_block_bytes f t = uv (tb_start_code_pos t - fs_opcodes_pos f) @ uv (tb_end_code_pos t - fs_opcodes_pos f)
     @ uv (tb_catch_var_index t)"

definition function_bytes :: "func_scope \<Rightarrow> bytes" where
  "function_bytes f =
     uv (parent_code f) @ uv (fs_stack_size f) @ uv (fs_num_locals f) @ uv (fs_num_params f)
     @ uv (fs_max_up_count f) @ uv (fs_func_depth f) @ uv (fs_func_index f) @ uv (fs_num_local_funcs f)
     @ uv (int (length (fs_try_blocks f))) @ uv (fs_opcodes_pos f) @ uv (fs_opcodes_size f)
     @ concat (map (local_bytes f) (fs_locals_compiled f)) @ concat (map (try_block_bytes f) (fs_try_blocks f))"

definition local_of :: "bytes list \<Rightarrow> local_var_compiled \<Rightarrow> local_var" where
  "local_of strs v = \<lparr>var_name = strs ! nat (cached_name_index v), var_start_code_pos = lv_start_code_pos v,
     var_end_code_pos = lv_end_code_pos v, var_upvalue = lv_upvalue v\<rparr>"

definition function_of :: "bytes list \<Rightarrow> func_scope \<Rightarrow> function_decl" where
  "function_of strs f =
     \<lparr>prog_parent_func_index = (case fs_parent f of Some p \<Rightarrow> p | None \<Rightarrow> -1),
      fd_locals = map (local_of strs) (fs_locals_compiled f), fd_stack_size = fs_stack_size f,
      fd_num_locals = fs_num_locals f, fd_num_params = fs_num_params f, fd_max_up_count = fs_max_up_count f,
      fd_func_depth = fs_func_depth f, fd_func_index = fs_func_index f, fd_num_local_funcs = fs_num_local_funcs f,
      fd_try_blocks = fs_try_blocks f, fd_num_try_blocks = int (length (fs_try_blocks f)),
      fd_opcodes_pos = fs_opcodes_pos f, fd_opcodes_size = fs_opcodes_size f\<rparr>"

text \<open>The constants after loading.\<close>

definition constants_of :: "u64 list \<Rightarrow> bytes list \<Rightarrow> const_values" where
  "constants_of nums strs = [Some ConstNull, Some (ConstBool True), Some (ConstBool False)]
     @ map (\<lambda>v. Some (ConstNumber (canon_number v))) nums @ map (\<lambda>s. Some (ConstString s)) strs"

lemma const_string_constants:
  assumes "0 \<le> i" "i < int (length strs)"
  shows "const_string (i + int (length nums) + CONST_STD_VALUES) (constants_of nums strs) = Some (strs ! nat i)"
proof -
  have "nat (i + int (length nums) + CONST_STD_VALUES) = length ([Some ConstNull, Some (ConstBool True), Some (ConstBool False)]
     @ map (\<lambda>v. Some (ConstNumber (canon_number v))) nums) + nat i"
    using assms(1) by (simp add: CONST_STD_VALUES_def nat_add_distrib)
  then show ?thesis
    using assms unfolding const_string_def constants_of_def append_assoc [symmetric]
    by (simp add: nth_append_length_plus CONST_STD_VALUES_def nat_less_iff nth_append)
qed

lemma load_local_consumes:
  assumes "local_ok (int (length strs)) f v" "int_fits (fs_opcodes_pos f)" "int_fits (fs_opcodes_size f)"
  shows "consumes mem_reader_ok unread
    (load_local (int (length nums)) (int (length strs)) (constants_of nums strs) (fs_opcodes_pos f))
    (local_bytes f v) (local_of strs v)"
proof -
  define i where "i = cached_name_index v"
  define st where "st = lv_start_code_pos v - fs_opcodes_pos f"
  define en where "en = lv_end_code_pos v - fs_opcodes_pos f"
  have i: "0 \<le> i" "i < 2 ^ 31" "i < int (length strs)" and st: "0 \<le> st" "st < 2 ^ 31" and en: "0 \<le> en" "en < 2 ^ 31"
    using assms by (auto simp: local_ok_def int_fits_def i_def st_def en_def)
  have up: "(if lv_upvalue v then 1 else 0) \<noteq> (0 :: u8) \<longleftrightarrow> lv_upvalue v" by simp
  have last: "consumes mem_reader_ok unread (\<lambda>r. Option.bind (mem_readByte r) (\<lambda>(upvalue, r).
      Some (\<lparr>var_name = strs ! nat i, var_start_code_pos = st + fs_opcodes_pos f,
        var_end_code_pos = en + fs_opcodes_pos f, var_upvalue = (upvalue \<noteq> 0)\<rparr>, r)))
      [if lv_upvalue v then 1 else 0] (local_of strs v)"
    using consumes_map [OF mem_readByte_consumes [of "if lv_upvalue v then 1 else 0"], of
        "\<lambda>upvalue. \<lparr>var_name = strs ! nat i, var_start_code_pos = st + fs_opcodes_pos f,
        var_end_code_pos = en + fs_opcodes_pos f, var_upvalue = (upvalue \<noteq> 0)\<rparr>"]
    unfolding up by (simp add: local_of_def i_def st_def en_def)
  show ?thesis
    unfolding load_local_def [abs_def] local_bytes_def i_def [symmetric] st_def [symmetric] en_def [symmetric]
    by (rule consumes_bind, rule uv_consumes [OF i(1,2)])
      (simp only: i const_string_constants [OF i(1,3), of nums] os_assert_simps simp_thms Option.bind.bind_lunit,
        rule consumes_bind, rule uv_consumes [OF st], rule consumes_bind, rule uv_consumes [OF en], rule last)
qed

lemma load_try_block_consumes:
  assumes "try_block_ok f t" "int_fits (fs_opcodes_pos f)" "int_fits (fs_opcodes_size f)"
  shows "consumes mem_reader_ok unread (load_try_block (fs_opcodes_pos f)) (try_block_bytes f t) t"
proof -
  define c where "c = tb_catch_var_index t"
  define st where "st = tb_start_code_pos t - fs_opcodes_pos f"
  define en where "en = tb_end_code_pos t - fs_opcodes_pos f"
  have c: "0 \<le> c" "c < 2 ^ 31" and st: "0 \<le> st" "st < 2 ^ 31" and en: "0 \<le> en" "en < 2 ^ 31"
    using assms by (auto simp: try_block_ok_def int_fits_def c_def st_def en_def)
  have last: "consumes mem_reader_ok unread (\<lambda>r. Option.bind (readUVariable mem_readByte r) (\<lambda>(c, r).
      Some (\<lparr>tb_start_code_pos = st + fs_opcodes_pos f, tb_end_code_pos = en + fs_opcodes_pos f,
        tb_catch_var_index = c\<rparr>, r))) (uv c) t"
    using consumes_map [OF uv_consumes [OF c], of "\<lambda>c. \<lparr>tb_start_code_pos = st + fs_opcodes_pos f,
        tb_end_code_pos = en + fs_opcodes_pos f, tb_catch_var_index = c\<rparr>"] by (cases t) (simp add: c_def st_def en_def)
  show ?thesis
    unfolding load_try_block_def [abs_def] try_block_bytes_def c_def [symmetric] st_def [symmetric] en_def [symmetric]
    by (rule consumes_bind, rule uv_consumes [OF st], rule consumes_bind, rule uv_consumes [OF en], rule last)
qed

lemma load_function_consumes:
  assumes "function_ok (int (length strs)) f"
  shows "consumes mem_reader_ok unread
    (load_function (int (length nums)) (int (length strs)) (constants_of nums strs)) (function_bytes f) (function_of strs f)"
proof -
  have fits: "int_fits (parent_code f)" "int_fits (fs_stack_size f)" "int_fits (fs_num_locals f)"
    "int_fits (fs_num_params f)" "int_fits (fs_max_up_count f)" "int_fits (fs_func_depth f)"
    "int_fits (fs_func_index f)" "int_fits (fs_num_local_funcs f)" "int_fits (int (length (fs_try_blocks f)))"
    "int_fits (fs_opcodes_pos f)" "int_fits (fs_opcodes_size f)"
    and nl: "nat (fs_num_locals f) = length (fs_locals_compiled f)"
    and locals: "\<forall>v \<in> set (fs_locals_compiled f). local_ok (int (length strs)) f v"
    and tries: "\<forall>t \<in> set (fs_try_blocks f). try_block_ok f t"
    using assms by (auto simp: function_ok_def list_all_iff)
  have uv: "consumes mem_reader_ok unread (readUVariable mem_readByte) (uv v) v" if "int_fits v" for v
    using that uv_consumes by (simp add: int_fits_def)
  have l: "consumes mem_reader_ok unread (read_times
      (load_local (int (length nums)) (int (length strs)) (constants_of nums strs) (fs_opcodes_pos f)) (nat (fs_num_locals f)))
      (concat (map (local_bytes f) (fs_locals_compiled f))) (map (local_of strs) (fs_locals_compiled f))"
    unfolding nl by (rule consumes_times) (use locals fits load_local_consumes in blast)
  have t: "consumes mem_reader_ok unread (read_times (load_try_block (fs_opcodes_pos f)) (nat (int (length (fs_try_blocks f)))))
      (concat (map (try_block_bytes f) (fs_try_blocks f))) (fs_try_blocks f)"
    using consumes_times [of "fs_try_blocks f" mem_reader_ok unread "load_try_block (fs_opcodes_pos f)"
        "try_block_bytes f" "\<lambda>t. t"] tries fits load_try_block_consumes by simp
  have parent: "parent_code f - 1 = (case fs_parent f of Some p \<Rightarrow> p | None \<Rightarrow> -1)"
    by (simp add: parent_code_def split: option.splits)
  define tbs where "tbs = concat (map (try_block_bytes f) (fs_try_blocks f))"
  have "consumes mem_reader_ok unread
    (load_function (int (length nums)) (int (length strs)) (constants_of nums strs))
    (uv (parent_code f) @ uv (fs_stack_size f) @ uv (fs_num_locals f) @ uv (fs_num_params f)
     @ uv (fs_max_up_count f) @ uv (fs_func_depth f) @ uv (fs_func_index f) @ uv (fs_num_local_funcs f)
     @ uv (int (length (fs_try_blocks f))) @ uv (fs_opcodes_pos f) @ uv (fs_opcodes_size f)
     @ concat (map (local_bytes f) (fs_locals_compiled f)) @ tbs @ []) (function_of strs f)"
    unfolding load_function_def [abs_def] function_of_def parent [symmetric] tbs_def
    by (rule consumes_bind, rule uv [OF fits(1)], rule consumes_bind, rule uv [OF fits(2)],
        rule consumes_bind, rule uv [OF fits(3)], rule consumes_bind, rule uv [OF fits(4)],
        rule consumes_bind, rule uv [OF fits(5)], rule consumes_bind, rule uv [OF fits(6)],
        rule consumes_bind, rule uv [OF fits(7)], rule consumes_bind, rule uv [OF fits(8)],
        rule consumes_bind, rule uv [OF fits(9)], rule consumes_bind, rule uv [OF fits(10)],
        rule consumes_bind, rule uv [OF fits(11)], rule consumes_bind, rule l, rule consumes_bind, rule t,
        rule consumes_return)
  then show ?thesis by (simp add: function_bytes_def tbs_def)
qed

section \<open>The whole program\<close>

definition class_count :: "num_class \<Rightarrow> u64 list \<Rightarrow> int" where
  "class_count c vs = int (length (class_items c 0 vs))"

definition number_groups_bytes :: "long_double \<Rightarrow> num_class \<Rightarrow> u64 list \<Rightarrow> bytes" where
  "number_groups_bytes ld c vs = group_bytes ld 0 (class_items c 0 vs)"

definition debug_bytes :: "debug_info_item \<Rightarrow> bytes" where
  "debug_bytes d = uv (di_line d) @ uv (di_pos d)"

definition body_bytes :: "long_double \<Rightarrow> compiled \<Rightarrow> bytes" where
  "body_bytes ld p =
     uv (class_count CInt (prog_numbers p)) @ uv (class_count CFloat (prog_numbers p))
     @ uv (class_count CDouble (prog_numbers p)) @ uv (class_count CLongDouble (prog_numbers p))
     @ uv (int (length (prog_strings p))) @ uv (int (length (prog_functions p)))
     @ uv (int (length (prog_opcodes p))) @ uv (int (length (prog_debug_info p))) @ uv (prog_filename_string_index p)
     @ number_groups_bytes ld CInt (prog_numbers p) @ number_groups_bytes ld CFloat (prog_numbers p)
     @ number_groups_bytes ld CDouble (prog_numbers p) @ number_groups_bytes ld CLongDouble (prog_numbers p)
     @ concat (map (\<lambda>s. uv (int (length s)) @ s) (prog_strings p)) @ concat (map function_bytes (prog_functions p))
     @ concat (map (le_bytes 4) (prog_opcodes p)) @ concat (map debug_bytes (prog_debug_info p))"

definition program_image :: "long_double \<Rightarrow> compiled \<Rightarrow> bytes" where
  "program_image ld p =
     OS_COMPILED_HEADER @ [of_nat (length OS_VERSION + 1)] @ (OS_VERSION @ [0]) @ body_bytes ld p"

definition program_ok :: "compiled \<Rightarrow> bool" where
  "program_ok p \<longleftrightarrow>
     list_all int_fits [int (length (prog_numbers p)), int (length (prog_strings p)), int (length (prog_functions p)),
       int (length (prog_opcodes p)), int (length (prog_debug_info p)), prog_filename_string_index p]
     \<and> prog_filename_string_index p < int (length (prog_strings p))
     \<and> list_all (\<lambda>s. length s < 2 ^ 31) (prog_strings p)
     \<and> list_all (function_ok (int (length (prog_strings p)))) (prog_functions p)
     \<and> list_all (\<lambda>d. int_fits (di_line d) \<and> int_fits (di_pos d)) (prog_debug_info p)"

definition program_of :: "compiled \<Rightarrow> program" where
  "program_of p =
     \<lparr>p_filename = prog_strings p ! nat (prog_filename_string_index p),
      p_num_strings = int (length (prog_strings p)), p_num_numbers = int (length (prog_numbers p)),
      p_const_values = constants_of (prog_numbers p) (prog_strings p),
      p_functions = map (function_of (prog_strings p)) (prog_functions p),
      p_opcodes = prog_opcodes p, p_debug_info = prog_debug_info p\<rparr>"

lemma set_class_items:
  "(j, v) \<in> set (class_items c i vs) \<longleftrightarrow> i \<le> j \<and> j < i + length vs \<and> v = vs ! (j - i) \<and> number_class v = c"
  by (auto simp: class_items_def in_set_enumerate_eq)

lemma sorted_class_items: "sorted_wrt (<) (map fst (class_items c i vs))"
proof -
  have "sorted_wrt (<) (map fst (enumerate i vs))" by simp
  then show ?thesis unfolding class_items_def sorted_wrt_map by (rule sorted_wrt_filter)
qed

lemma class_counts:
  "class_count CInt vs + class_count CFloat vs + class_count CDouble vs + class_count CLongDouble vs = int (length vs)"
proof -
  have "length (class_items CInt i vs) + length (class_items CFloat i vs) + length (class_items CDouble i vs)
      + length (class_items CLongDouble i vs) = length vs" for i
  proof (induction vs arbitrary: i)
    case Nil
    then show ?case by (simp add: class_items_def)
  next
    case (Cons v vs)
    from Cons [of "Suc i"] show ?case by (cases "number_class v") (simp_all add: class_items_Cons)
  qed
  from this [of 0] show ?thesis unfolding class_count_def by linarith
qed

lemma fill_all_numbers:
  assumes "length rest = n"
  shows "fill_numbers (fill_numbers (fill_numbers (fill_numbers
      ([Some ConstNull, Some (ConstBool True), Some (ConstBool False)] @ replicate (length vs) None @ rest)
        (class_items CInt 0 vs)) (class_items CFloat 0 vs)) (class_items CDouble 0 vs)) (class_items CLongDouble 0 vs)
    = [Some ConstNull, Some (ConstBool True), Some (ConstBool False)]
      @ map (\<lambda>v. Some (ConstNumber (canon_number v))) vs @ rest"
    (is "fill_numbers (fill_numbers (fill_numbers (fill_numbers ?cs ?a) ?b) ?c) ?d = ?R")
proof (rule nth_equalityI)
  show "length (fill_numbers (fill_numbers (fill_numbers (fill_numbers ?cs ?a) ?b) ?c) ?d) = length ?R" by simp
next
  fix k
  assume k: "k < length (fill_numbers (fill_numbers (fill_numbers (fill_numbers ?cs ?a) ?b) ?c) ?d)"
  have vals: "\<forall>(i, v) \<in> set (class_items c 0 vs). v = vs ! i" for c by (auto simp: set_class_items)
  have fst: "j \<in> fst ` set (class_items c 0 vs) \<longleftrightarrow> j < length vs \<and> number_class (vs ! j) = c" for j c
    by (auto simp: set_class_items image_iff intro!: bexI [of _ "(j, vs ! j)"])
  have "fill_numbers (fill_numbers (fill_numbers (fill_numbers ?cs ?a) ?b) ?c) ?d ! k
      = (if 3 \<le> k \<and> k - 3 < length vs then Some (ConstNumber (canon_number (vs ! (k - 3)))) else ?cs ! k)"
    using k num_class.exhaust [of "number_class (vs ! (k - 3))"]
    by (simp add: nth_fill_numbers [OF _ vals] fst del: append.simps) metis
  also have "\<dots> = ?R ! k"
    using k assms
    by (auto simp: nth_append nth_Cons' numeral_3_eq_3)
  finally show "fill_numbers (fill_numbers (fill_numbers (fill_numbers ?cs ?a) ?b) ?c) ?d ! k = ?R ! k" .
qed

lemma load_debug_consumes:
  assumes "int_fits (di_line d)" "int_fits (di_pos d)"
  shows "consumes mem_reader_ok unread load_debug_item (debug_bytes d) d"
proof -
  have "consumes mem_reader_ok unread (\<lambda>r. Option.bind (readUVariable mem_readByte r) (\<lambda>(pos, r).
      Some (\<lparr>di_line = di_line d, di_pos = pos\<rparr>, r))) (uv (di_pos d)) d"
    using consumes_map [OF uv_consumes, of "di_pos d" "\<lambda>pos. \<lparr>di_line = di_line d, di_pos = pos\<rparr>"] assms(2)
    by (cases d) (simp add: int_fits_def)
  moreover have "consumes mem_reader_ok unread (readUVariable mem_readByte) (uv (di_line d)) (di_line d)"
    using assms(1) uv_consumes by (simp add: int_fits_def)
  ultimately show ?thesis
    unfolding load_debug_item_def [abs_def] debug_bytes_def by (intro consumes_bind)
qed

lemma load_body_consumes:
  assumes ok: "program_ok p" and ld: "\<forall>v \<in> set (prog_numbers p). ld_exact ld v"
  shows "consumes mem_reader_ok unread (load_body ld) (body_bytes ld p) (program_of p)"
proof -
  define vs where "vs = prog_numbers p"
  define strs where "strs = prog_strings p"
  define fn where "fn = prog_filename_string_index p"
  define N where "N = length vs"
  have uv: "consumes mem_reader_ok unread (readUVariable mem_readByte) (uv v) v" if "int_fits v" for v
    using that uv_consumes by (simp add: int_fits_def)
  have N: "class_count CInt vs + class_count CFloat vs + class_count CDouble vs + class_count CLongDouble vs = int N"
    by (simp add: N_def class_counts)
  have fits: "int_fits (int N)" "int_fits (int (length strs))" "int_fits (int (length (prog_functions p)))"
    "int_fits (int (length (prog_opcodes p)))" "int_fits (int (length (prog_debug_info p)))" "int_fits fn"
    and fn: "0 \<le> fn" "fn < int (length strs)" and strs: "\<forall>s \<in> set strs. length s < 2 ^ 31"
    and fs: "\<forall>f \<in> set (prog_functions p). function_ok (int (length strs)) f"
    and ds: "\<forall>d \<in> set (prog_debug_info p). int_fits (di_line d) \<and> int_fits (di_pos d)"
    using ok by (auto simp: program_ok_def list_all_iff vs_def strs_def fn_def N_def int_fits_def)
  have cnt: "int_fits (class_count c vs)" for c
  proof -
    have "0 \<le> class_count d vs" for d by (simp add: class_count_def)
    from this [of CInt] this [of CFloat] this [of CDouble] this [of CLongDouble] N fits(1) show ?thesis
      by (cases c) (simp_all add: int_fits_def)
  qed
  define cs0 where "cs0 = [Some ConstNull, Some (ConstBool True), Some (ConstBool False)]
      @ replicate N None @ replicate (length strs) (None :: const_value option)"
  define cs1 where "cs1 = fill_numbers cs0 (class_items CInt 0 vs)"
  define cs2 where "cs2 = fill_numbers cs1 (class_items CFloat 0 vs)"
  define cs3 where "cs3 = fill_numbers cs2 (class_items CDouble 0 vs)"
  define cs4 where "cs4 = fill_numbers cs3 (class_items CLongDouble 0 vs)"
  define cs5 where "cs5 = constants_of vs strs"
  have len: "N + 3 \<le> length cs0" "N + 3 \<le> length cs1" "N + 3 \<le> length cs2" "N + 3 \<le> length cs3"
    by (simp_all add: cs0_def cs1_def cs2_def cs3_def)
  have group: "consumes mem_reader_ok unread (load_group ld c (int N) (nat (class_count c vs)) 0 cs)
      (number_groups_bytes ld c vs) (fill_numbers cs (class_items c 0 vs))" if "N + 3 \<le> length cs" for c cs
  proof -
    have "\<forall>(i, v) \<in> set (class_items c 0 vs). number_class v = c \<and> ld_exact ld v \<and> i < N"
      using ld by (auto simp: set_class_items N_def vs_def)
    with load_group_consumes [of "class_items c 0 vs" c ld N 0 cs] that sorted_class_items [of c 0 vs] fits(1)
    show ?thesis by (simp add: class_count_def number_groups_bytes_def int_fits_def)
  qed
  have cs4: "cs4 = ([Some ConstNull, Some (ConstBool True), Some (ConstBool False)]
      @ map (\<lambda>v. Some (ConstNumber (canon_number v))) vs) @ replicate (length strs) None"
    unfolding cs4_def cs3_def cs2_def cs1_def cs0_def N_def by (subst fill_all_numbers) simp_all
  have strings: "consumes mem_reader_ok unread (load_strings (int N + CONST_STD_VALUES) (nat (int (length strs))) cs4)
      (concat (map (\<lambda>s. uv (int (length s)) @ s) strs)) cs5"
    using load_strings_consumes [OF strs, of "int N + CONST_STD_VALUES"
        "[Some ConstNull, Some (ConstBool True), Some (ConstBool False)]
          @ map (\<lambda>v. Some (ConstNumber (canon_number v))) vs"]
    by (simp add: cs4 cs5_def constants_of_def CONST_STD_VALUES_def N_def)
  have decls: "consumes mem_reader_ok unread (read_times (load_function (int N) (int (length strs)) cs5)
      (nat (int (length (prog_functions p))))) (concat (map function_bytes (prog_functions p)))
      (map (function_of strs) (prog_functions p))"
    unfolding cs5_def N_def nat_int by (rule consumes_times) (use fs load_function_consumes in blast)
  have opcodes: "consumes mem_reader_ok unread (read_times mem_readInt32 (nat (int (length (prog_opcodes p)))))
      (concat (map (le_bytes 4) (prog_opcodes p))) (prog_opcodes p)"
    using consumes_times [of "prog_opcodes p" mem_reader_ok unread mem_readInt32 "le_bytes 4" "\<lambda>v. v"]
      mem_readInt32_consumes by simp
  have debug: "consumes mem_reader_ok unread (read_times load_debug_item (nat (int (length (prog_debug_info p)))))
      (concat (map debug_bytes (prog_debug_info p))) (prog_debug_info p)"
    using consumes_times [of "prog_debug_info p" mem_reader_ok unread load_debug_item debug_bytes "\<lambda>v. v"]
      load_debug_consumes ds by simp
  have set: "set_const CONST_NULL ConstNull (replicate (nat (int N + int (length strs) + CONST_STD_VALUES)) None)
      = Some (Some ConstNull # replicate (N + length strs + 2) None)"
    "set_const CONST_TRUE (ConstBool True) (Some ConstNull # replicate (N + length strs + 2) None)
      = Some (Some ConstNull # Some (ConstBool True) # replicate (N + length strs + 1) None)"
    "set_const CONST_FALSE (ConstBool False) (Some ConstNull # Some (ConstBool True) # replicate (N + length strs + 1) None)
      = Some cs0"
  proof -
    have "nat (int N + int (length strs) + CONST_STD_VALUES) = Suc (N + length strs + 2)"
      by (simp add: CONST_STD_VALUES_def)
    then show "set_const CONST_NULL ConstNull (replicate (nat (int N + int (length strs) + CONST_STD_VALUES)) None)
      = Some (Some ConstNull # replicate (N + length strs + 2) None)"
      by (simp add: set_const_def CONST_NULL_def del: replicate.simps) simp
  qed (simp_all add: set_const_def CONST_TRUE_def CONST_FALSE_def numeral_2_eq_2 cs0_def replicate_add)
  have fname: "const_string (fn + int N + CONST_STD_VALUES) cs5 = Some (strs ! nat fn)"
    unfolding cs5_def N_def by (rule const_string_constants [OF fn])
  define dbg where "dbg = concat (map debug_bytes (prog_debug_info p))"
  have tail: "consumes mem_reader_ok unread (\<lambda>r. Option.bind (load_group ld CInt (int N) (nat (class_count CInt vs)) 0 cs0 r) (\<lambda>(cs, r).
      Option.bind (load_group ld CFloat (int N) (nat (class_count CFloat vs)) 0 cs r) (\<lambda>(cs, r).
      Option.bind (load_group ld CDouble (int N) (nat (class_count CDouble vs)) 0 cs r) (\<lambda>(cs, r).
      Option.bind (load_group ld CLongDouble (int N) (nat (class_count CLongDouble vs)) 0 cs r) (\<lambda>(cs, r).
      Option.bind (load_strings (int N + CONST_STD_VALUES) (nat (int (length strs))) cs r) (\<lambda>(cs, r).
      Option.bind (const_string (fn + int N + CONST_STD_VALUES) cs) (\<lambda>filename.
      Option.bind (read_times (load_function (int N) (int (length strs)) cs) (nat (int (length (prog_functions p)))) r) (\<lambda>(functions, r).
      Option.bind (read_times mem_readInt32 (nat (int (length (prog_opcodes p)))) r) (\<lambda>(opcodes, r).
      Option.bind (read_times load_debug_item (nat (int (length (prog_debug_info p)))) r) (\<lambda>(debug_info, r).
        Some (\<lparr>p_filename = filename, p_num_strings = int (length strs), p_num_numbers = int N,
                p_const_values = cs, p_functions = functions, p_opcodes = opcodes, p_debug_info = debug_info\<rparr>, r)))))))))))
    (number_groups_bytes ld CInt vs @ number_groups_bytes ld CFloat vs
     @ number_groups_bytes ld CDouble vs @ number_groups_bytes ld CLongDouble vs
     @ concat (map (\<lambda>s. uv (int (length s)) @ s) strs) @ concat (map function_bytes (prog_functions p))
     @ concat (map (le_bytes 4) (prog_opcodes p)) @ dbg @ []) (program_of p)"
    unfolding dbg_def program_of_def strs_def [symmetric] vs_def [symmetric] fn_def [symmetric] N_def [symmetric] cs5_def [symmetric]
    by (rule consumes_bind, rule group [OF len(1)], fold cs1_def,
        rule consumes_bind, rule group [OF len(2)], fold cs2_def,
        rule consumes_bind, rule group [OF len(3)], fold cs3_def,
        rule consumes_bind, rule group [OF len(4)], fold cs4_def,
        rule consumes_bind, rule strings, simp only: fname Option.bind.bind_lunit,
        rule consumes_bind, rule decls, rule consumes_bind, rule opcodes, rule consumes_bind, rule debug,
        rule consumes_return)
  have "consumes mem_reader_ok unread (load_body ld)
    (uv (class_count CInt vs) @ uv (class_count CFloat vs)
     @ uv (class_count CDouble vs) @ uv (class_count CLongDouble vs)
     @ uv (int (length strs)) @ uv (int (length (prog_functions p)))
     @ uv (int (length (prog_opcodes p))) @ uv (int (length (prog_debug_info p))) @ uv fn
     @ number_groups_bytes ld CInt vs @ number_groups_bytes ld CFloat vs
     @ number_groups_bytes ld CDouble vs @ number_groups_bytes ld CLongDouble vs
     @ concat (map (\<lambda>s. uv (int (length s)) @ s) strs) @ concat (map function_bytes (prog_functions p))
     @ concat (map (le_bytes 4) (prog_opcodes p)) @ dbg @ []) (program_of p)"
    unfolding load_body_def [abs_def]
    by (rule consumes_bind, rule uv [OF cnt], rule consumes_bind, rule uv [OF cnt],
        rule consumes_bind, rule uv [OF cnt], rule consumes_bind, rule uv [OF cnt],
        rule consumes_bind, rule uv [OF fits(2)], rule consumes_bind, rule uv [OF fits(3)],
        rule consumes_bind, rule uv [OF fits(4)], rule consumes_bind, rule uv [OF fits(5)],
        rule consumes_bind, rule uv [OF fits(6)],
        simp only: Let_def N set fn simp_thms os_assert_simps Option.bind.bind_lunit, rule tail)
  then show ?thesis by (simp add: body_bytes_def vs_def strs_def fn_def dbg_def)
qed

section \<open>Saving writes the image\<close>

context byte_writer
begin

lemma write_ints_appends:
  "list_all int_fits vs \<Longrightarrow> appends ok out (write_each (writeUVariable vt) vs) (concat (map uv vs))"
  by (intro appends_each) (auto simp: list_all_iff int_fits_def uv_def intro: writeUVariable_appends)

lemma save_local_appends:
  assumes "local_ok n f v" "int_fits (fs_opcodes_pos f)" "int_fits (fs_opcodes_size f)"
  shows "appends ok out (save_local vt f v) (local_bytes f v)"
proof -
  let ?vs = "[cached_name_index v, lv_start_code_pos v - fs_opcodes_pos f, lv_end_code_pos v - fs_opcodes_pos f]"
  have "list_all int_fits ?vs" using assms by (auto simp: local_ok_def int_fits_def)
  from appends_bind [OF write_ints_appends [OF this] writeByte [of "if lv_upvalue v then 1 else 0"]] assms(1)
  show ?thesis
    by (cases "lv_upvalue v")
      (simp_all add: save_local_def [abs_def] local_bytes_def local_ok_def Let_def del: write_each.simps)
qed

lemma save_try_block_appends:
  assumes "try_block_ok f t" "int_fits (fs_opcodes_pos f)" "int_fits (fs_opcodes_size f)"
  shows "appends ok out (save_try_block vt f t) (try_block_bytes f t)"
proof -
  let ?vs = "[tb_start_code_pos t - fs_opcodes_pos f, tb_end_code_pos t - fs_opcodes_pos f, tb_catch_var_index t]"
  have "list_all int_fits ?vs" using assms by (auto simp: try_block_ok_def int_fits_def)
  from write_ints_appends [OF this] assms(1)
  show ?thesis
    by (simp add: save_try_block_def [abs_def] try_block_bytes_def try_block_ok_def int_fits_def Let_def
        del: write_each.simps)
qed

lemma save_function_appends:
  assumes "function_ok n f"
  shows "appends ok out (save_function vt f) (function_bytes f)"
proof -
  let ?vs = "[parent_code f, fs_stack_size f, fs_num_locals f, fs_num_params f, fs_max_up_count f, fs_func_depth f,
    fs_func_index f, fs_num_local_funcs f, int (length (fs_try_blocks f)), fs_opcodes_pos f, fs_opcodes_size f]"
  have fits: "list_all int_fits ?vs" "int (length (fs_locals_compiled f)) = fs_num_locals f"
    and parts: "\<forall>v \<in> set (fs_locals_compiled f). local_ok n f v" "\<forall>t \<in> set (fs_try_blocks f). try_block_ok f t"
    using assms unfolding function_ok_def list_all_iff by blast+
  have "appends ok out (write_each (save_local vt f) (fs_locals_compiled f)) (concat (map (local_bytes f) (fs_locals_compiled f)))"
    by (rule appends_each) (use parts fits save_local_appends in auto)
  moreover have "appends ok out (write_each (save_try_block vt f) (fs_try_blocks f))
      (concat (map (try_block_bytes f) (fs_try_blocks f)))"
    by (rule appends_each) (use parts fits save_try_block_appends in auto)
  ultimately have "appends ok out (\<lambda>w. Option.bind (write_each (writeUVariable vt) ?vs w) (\<lambda>w.
      Option.bind (write_each (save_local vt f) (fs_locals_compiled f) w) (write_each (save_try_block vt f) (fs_try_blocks f))))
      (concat (map uv ?vs) @ concat (map (local_bytes f) (fs_locals_compiled f)) @ concat (map (try_block_bytes f) (fs_try_blocks f)))"
    by (intro appends_bind write_ints_appends fits(1))
  then show ?thesis
    unfolding save_function_def [abs_def] fits(2) parent_code_def [symmetric] function_bytes_def
    by (simp del: write_each.simps)
qed

lemma save_string_appends: "length s < 2 ^ 31 \<Longrightarrow> appends ok out (save_string vt s) (uv (int (length s)) @ s)"
  unfolding save_string_def [abs_def] uv_def by (intro appends_bind writeUVariable_appends writeBytes) simp

lemma save_debug_appends:
  "int_fits (di_line d) \<Longrightarrow> int_fits (di_pos d) \<Longrightarrow> appends ok out (save_debug_item vt d) (debug_bytes d)"
  unfolding save_debug_item_def [abs_def] debug_bytes_def uv_def
  by (intro appends_bind writeUVariable_appends) (auto simp: int_fits_def)

end

lemma saveToStream_image:
  assumes ok: "program_ok p" and len: "length (program_image ld p) < output_limit"
  shows "\<exists>w. saveToStream ld mem_writer_vt p new_mem_writer = Some w \<and> mem_writer_ok w \<and> written w = program_image ld p"
proof -
  define vs where "vs = prog_numbers p"
  have grp: "length (group_bytes ld 0 (class_items c 0 vs)) < output_limit" for c
    using len by (cases c) (simp_all add: program_image_def body_bytes_def number_groups_bytes_def vs_def)
  have "\<exists>gs. save_numbers ld (int 0) vs (\<lambda>_. empty_group) = Some gs \<and> (\<forall>c. mem_writer_ok (g_stream (gs c))
    \<and> written (g_stream (gs c)) = written (g_stream empty_group) @ group_bytes ld (g_index empty_group) (class_items c 0 vs)
    \<and> g_count (gs c) = g_count empty_group + int (length (class_items c 0 vs)))"
    by (rule save_numbers_groups) (use grp in \<open>simp_all add: empty_group_def new_mem_writer_ok\<close>)
  then obtain gs where gs: "save_numbers ld 0 vs (\<lambda>_. empty_group) = Some gs"
    "\<And>c. written (g_stream (gs c)) = number_groups_bytes ld c vs" "\<And>c. g_count (gs c) = class_count c vs"
    by (auto simp: empty_group_def new_mem_writer_ok number_groups_bytes_def class_count_def)
  have cnt: "int_fits (class_count c vs)" for c
  proof -
    have "0 \<le> class_count d vs" for d by (simp add: class_count_def)
    from this [of CInt] this [of CFloat] this [of CDouble] this [of CLongDouble] class_counts [of vs] ok show ?thesis
      by (cases c) (simp_all add: int_fits_def program_ok_def vs_def)
  qed
  let ?head = "[class_count CInt vs, class_count CFloat vs, class_count CDouble vs, class_count CLongDouble vs,
    int (length (prog_strings p)), int (length (prog_functions p)), int (length (prog_opcodes p)),
    int (length (prog_debug_info p)), prog_filename_string_index p]"
  have head: "list_all int_fits ?head" using cnt ok by (simp add: program_ok_def)
  have "int (length OS_VERSION) + 1 \<le> 255" by (simp add: OS_VERSION_def os_text_def)
  then have ver: "appends mem_writer_ok written (vt_writeByte mem_writer_vt (int (length OS_VERSION) + 1))
      [of_nat (length OS_VERSION + 1)]"
    using mem_out.writeByte [of "int (length OS_VERSION) + 1"] by (simp add: add.commute)
  have strs: "appends mem_writer_ok written (write_each (save_string mem_writer_vt) (prog_strings p))
      (concat (map (\<lambda>s. uv (int (length s)) @ s) (prog_strings p)))"
    by (rule appends_each) (use ok mem_out.save_string_appends in \<open>auto simp: program_ok_def list_all_iff\<close>)
  have funcs: "appends mem_writer_ok written (write_each (save_function mem_writer_vt) (prog_functions p))
      (concat (map function_bytes (prog_functions p)))"
    by (rule appends_each) (use ok mem_out.save_function_appends in \<open>auto simp: program_ok_def list_all_iff\<close>)
  have ops: "appends mem_writer_ok written (write_each (writeInt32 mem_writer_vt) (prog_opcodes p))
      (concat (map (le_bytes 4) (prog_opcodes p)))"
    by (rule appends_each) (rule mem_out.writeInt32_appends)
  have debug: "appends mem_writer_ok written (write_each (save_debug_item mem_writer_vt) (prog_debug_info p))
      (concat (map debug_bytes (prog_debug_info p)))"
    by (rule appends_each) (use ok mem_out.save_debug_appends in \<open>auto simp: program_ok_def list_all_iff\<close>)
  have "appends mem_writer_ok written (saveToStream ld mem_writer_vt p)
    (OS_COMPILED_HEADER @ [of_nat (length OS_VERSION + 1)] @ (OS_VERSION @ [0]) @ concat (map uv ?head)
     @ number_groups_bytes ld CInt vs @ number_groups_bytes ld CFloat vs
     @ number_groups_bytes ld CDouble vs @ number_groups_bytes ld CLongDouble vs
     @ concat (map (\<lambda>s. uv (int (length s)) @ s) (prog_strings p)) @ concat (map function_bytes (prog_functions p))
     @ concat (map (le_bytes 4) (prog_opcodes p)) @ concat (map debug_bytes (prog_debug_info p)))"
    unfolding saveToStream_def [abs_def] vs_def [symmetric] gs(1) Option.bind.bind_lunit gs(2,3)
    by (intro appends_bind ver head strs funcs ops debug mem_out.writeBytes mem_out.write_ints_appends)
  then have "appends mem_writer_ok written (saveToStream ld mem_writer_vt p) (program_image ld p)"
    by (simp add: program_image_def body_bytes_def vs_def)
  with len new_mem_writer_ok show ?thesis by (auto simp: appends_def)
qed

lemma checkBytes_consumes: "consumes mem_reader_ok unread (checkBytes bs) bs True"
  unfolding consumes_def
proof (intro allI impI)
  fix r ys
  assume r: "mem_reader_ok r \<and> unread r = bs @ ys"
  then have "take (length bs) (drop (nat (mr_pos r)) (mr_buffer r)) = bs" by (simp add: unread_def)
  with unread_advance [of r bs ys] r
  show "\<exists>r'. checkBytes bs r = Some (True, r') \<and> mem_reader_ok r' \<and> unread r' = ys"
    by (auto simp: checkBytes_def Let_def)
qed

lemma loadFromStream_consumes:
  assumes "program_ok p" "\<forall>v \<in> set (prog_numbers p). ld_exact ld v"
  shows "consumes mem_reader_ok unread (loadFromStream ld) (program_image ld p) (Some (program_of p))"
proof -
  have move: "consumes mem_reader_ok unread (\<lambda>r. Option.bind (movePos 1 r) f) (b # bs) x"
    if "consumes mem_reader_ok unread f bs x" for f b bs x
    unfolding consumes_def
  proof (intro allI impI)
    fix r ys
    assume r: "mem_reader_ok r \<and> unread r = (b # bs) @ ys"
    with unread_advance [of r "[b]" "bs @ ys"] that
    show "\<exists>r'. Option.bind (movePos 1 r) f = Some (x, r') \<and> mem_reader_ok r' \<and> unread r' = ys"
      by (auto simp: movePos_def consumes_def mem_reader_ok_def)
  qed
  have body: "consumes mem_reader_ok unread (\<lambda>r. Option.bind (load_body ld r) (\<lambda>(p, r). Some (Some p, r)))
      (body_bytes ld p) (Some (program_of p))"
    by (rule consumes_map [OF load_body_consumes [OF assms]])
  have "consumes mem_reader_ok unread (\<lambda>r. Option.bind (checkBytes (OS_VERSION @ [0]) r) (\<lambda>(ok, r).
      if \<not> ok then Some (None, r) else Option.bind (load_body ld r) (\<lambda>(p, r). Some (Some p, r))))
      ((OS_VERSION @ [0]) @ body_bytes ld p) (Some (program_of p))"
    by (rule consumes_bind, rule checkBytes_consumes, simp only: not_True_eq_False if_False, rule body)
  note version = move [OF this]
  show ?thesis
    unfolding loadFromStream_def [abs_def] program_image_def
    by (rule consumes_bind, rule checkBytes_consumes, simp only: not_True_eq_False if_False append_Cons append_Nil,
        rule version [unfolded append_Cons append_Nil])
qed

text \<open>
  C29: loading what \<open>saveToStream\<close> wrote gives the program back: the same strings, instructions, debug
  information and functions, with the names of the locals looked up in the string constants and the code
  positions made absolute again, and the same numbers at the same indexes whatever their mix of
  integers, floats, doubles and not-a-numbers, only the sign of a zero being lost; the reader ends at the end of the stream.
\<close>

theorem program_roundtrip:
  assumes "program_ok p" "\<forall>v \<in> set (prog_numbers p). ld_exact ld v" "length (program_image ld p) < output_limit"
  shows "\<exists>w r. saveToStream ld mem_writer_vt p new_mem_writer = Some w
    \<and> loadFromStream ld (new_mem_reader (written w) (mem_writer_getSize w)) = Some (Some (program_of p), r)
    \<and> mr_pos r = mr_size r"
proof -
  obtain w where w: "saveToStream ld mem_writer_vt p new_mem_writer = Some w" "mem_writer_ok w"
    "written w = program_image ld p"
    using saveToStream_image [OF assms(1,3)] by blast
  have size: "mem_writer_getSize w = int (length (written w))"
    using w(2) by (rule mem_writer_size)
  obtain r where "loadFromStream ld (new_mem_reader (written w) (mem_writer_getSize w)) = Some (Some (program_of p), r)"
    "mem_reader_ok r" "unread r = []"
    using loadFromStream_consumes [OF assms(1,2)] new_mem_reader_ok [of "written w"] w(3) size
    unfolding consumes_def by (metis append_Nil2)
  then show ?thesis using w by (auto simp: mem_reader_ok_def unread_def)
qed

text \<open>A small program: the numbers 3, 0.5, 0.1 and a not-a-number, two strings, one function with a local.\<close>

definition sample_program :: compiled where
  "sample_program =
     \<lparr>prog_numbers = [0x4008000000000000, 0x3FE0000000000000, 0x3FB999999999999A, 0x7FF8000000000000],
      prog_strings = [[109, 97, 105, 110], [120]],
      prog_functions = [\<lparr>fs_parent = None, fs_stack_size = 4, fs_num_locals = 1, fs_num_params = 1,
        fs_max_up_count = 0, fs_func_depth = 0, fs_func_index = 0, fs_num_local_funcs = 0,
        fs_try_blocks = [\<lparr>tb_start_code_pos = 0, tb_end_code_pos = 2, tb_catch_var_index = 0\<rparr>],
        fs_opcodes_pos = 0, fs_opcodes_size = 2,
        fs_locals_compiled = [\<lparr>cached_name_index = 1, lv_start_code_pos = 0, lv_end_code_pos = 2, lv_upvalue = True\<rparr>]\<rparr>],
      prog_opcodes = [7, 0x12345678], prog_debug_info = [\<lparr>di_line = 1, di_pos = 200\<rparr>],
      prog_filename_string_index = 0\<rparr>"

definition sample_long_double :: long_double where
  "sample_long_double = \<lparr>ld_size = 16, ld_of_double = (\<lambda>v. le_bytes 8 v @ replicate 8 0),
     double_of_ld = (\<lambda>bs. of_le_bytes (take 8 bs))\<rparr>"

lemma sample_classes:
  "number_class 0x4008000000000000 = CInt" "number_class 0x3FE0000000000000 = CFloat"
  "number_class 0x3FB999999999999A = CDouble" "number_class 0x7FF8000000000000 = CLongDouble"
  "double_trunc 0x4008000000000000 = Some 3"
  by code_simp+

lemma length_uvar_small: "n < 127 \<Longrightarrow> length (uvar_bytes n) = 1" "127 \<le> n \<Longrightarrow> n < 16256 \<Longrightarrow> length (uvar_bytes n) = 2"
proof -
  show one: "n < 127 \<Longrightarrow> length (uvar_bytes n) = 1" for n by (simp add: uvar_bytes.simps [of n])
  show "127 \<le> n \<Longrightarrow> n < 16256 \<Longrightarrow> length (uvar_bytes n) = 2"
    using one [of "n div 128"] by (simp add: uvar_bytes.simps [of n])
qed

lemma sample_length: "length (program_image sample_long_double sample_program) < output_limit"
  by (simp add: program_image_def body_bytes_def number_groups_bytes_def class_count_def class_items_def
      sample_program_def sample_classes number_bytes_def uv_def length_uvar_small function_bytes_def local_bytes_def
      try_block_bytes_def parent_code_def debug_bytes_def output_limit_def sample_long_double_def
      OS_COMPILED_HEADER_def OS_VERSION_def os_text_def)

theorem program_roundtrip_witness:
  "\<exists>w r. saveToStream sample_long_double mem_writer_vt sample_program new_mem_writer = Some w
    \<and> loadFromStream sample_long_double (new_mem_reader (written w) (mem_writer_getSize w))
        = Some (Some (program_of sample_program), r)
    \<and> mr_pos r = mr_size r"
proof (rule program_roundtrip)
  show "program_ok sample_program"
    by (simp add: sample_program_def program_ok_def int_fits_def function_ok_def local_ok_def try_block_ok_def
        parent_code_def)
  show "\<forall>v \<in> set (prog_numbers sample_program). ld_exact sample_long_double v"
    by (simp add: ld_exact_def sample_long_double_def of_le_bytes_word)
qed (rule sample_length)

text \<open>
  \<open>loadFromStream\<close> accepts only the streams of its own version: a stream long enough to hold the header and
  the version is rejected with \<open>false\<close> unless it has both, and then nothing after them is read.  A
  stream shorter than the header is read past its end, as only an assertion of debug builds guards
  \<open>checkBytes\<close>.
\<close>

theorem load_rejects_foreign:
  assumes "mem_reader_ok r"
  shows "(\<forall>b v rest. unread r = OS_COMPILED_HEADER @ b # v @ rest \<and> length v = length OS_VERSION + 1
            \<and> v \<noteq> OS_VERSION @ [0] \<longrightarrow> (\<exists>r'. loadFromStream ld r = Some (None, r') \<and> unread r' = rest))
    \<and> (\<forall>h rest. unread r = h @ rest \<and> length h = length OS_COMPILED_HEADER \<and> h \<noteq> OS_COMPILED_HEADER
            \<longrightarrow> (\<exists>r'. loadFromStream ld r = Some (None, r') \<and> unread r' = rest))
    \<and> (length (unread r) < length OS_COMPILED_HEADER \<longrightarrow> loadFromStream ld r = None)"
proof (intro conjI allI impI)
  have check: "\<exists>r'. checkBytes bs r = Some (hs = bs, r') \<and> mem_reader_ok r' \<and> unread r' = rest"
    if "mem_reader_ok r" "unread r = hs @ rest" "length hs = length bs" for r bs hs rest
  proof -
    have "take (length bs) (drop (nat (mr_pos r)) (mr_buffer r)) = hs" using that by (simp add: unread_def)
    with unread_advance [OF that(1,2)] that(3) show ?thesis by (auto simp: checkBytes_def Let_def)
  qed
  {
    fix b v rest
    assume a: "unread r = OS_COMPILED_HEADER @ b # v @ rest \<and> length v = length OS_VERSION + 1 \<and> v \<noteq> OS_VERSION @ [0]"
    obtain r1 where r1: "checkBytes OS_COMPILED_HEADER r = Some (True, r1)" "mem_reader_ok r1" "unread r1 = [b] @ v @ rest"
      using check [OF assms, of OS_COMPILED_HEADER _ OS_COMPILED_HEADER] a by fastforce
    obtain r2 where r2: "movePos 1 r1 = Some r2" "mem_reader_ok r2" "unread r2 = v @ rest"
      using unread_advance [OF r1(2,3)] r1(2) by (auto simp: movePos_def mem_reader_ok_def)
    obtain r3 where r3: "checkBytes (OS_VERSION @ [0]) r2 = Some (False, r3)" "unread r3 = rest"
      using check [OF r2(2,3), of "OS_VERSION @ [0]"] a by fastforce
    show "\<exists>r'. loadFromStream ld r = Some (None, r') \<and> unread r' = rest"
      using r1 r2 r3 by (simp add: loadFromStream_def)
  next
    fix h rest
    assume a: "unread r = h @ rest \<and> length h = length OS_COMPILED_HEADER \<and> h \<noteq> OS_COMPILED_HEADER"
    obtain r1 where "checkBytes OS_COMPILED_HEADER r = Some (False, r1)" "unread r1 = rest"
      using check [OF assms, of h rest OS_COMPILED_HEADER] a by fastforce
    then show "\<exists>r'. loadFromStream ld r = Some (None, r') \<and> unread r' = rest" by (simp add: loadFromStream_def)
  }
  assume "length (unread r) < length OS_COMPILED_HEADER"
  then have "\<not> mr_pos r + int (length OS_COMPILED_HEADER) \<le> mr_size r"
    using assms by (auto simp: unread_def mem_reader_ok_def)
  then show "loadFromStream ld r = None" by (simp add: loadFromStream_def checkBytes_def Let_def)
qed

theorem load_rejects_foreign_witness:
  "loadFromStream sample_long_double (new_mem_reader [79, 66] 2) = None
   \<and> (\<exists>r'. loadFromStream sample_long_double (new_mem_reader (replicate 12 7 @ [1]) 13) = Some (None, r') \<and> unread r' = [1])"
proof -
  have "hd OS_COMPILED_HEADER = 79" "hd (replicate 12 (7::u8)) = 7" by (simp_all add: OS_COMPILED_HEADER_def os_text_def)
  then have "OS_COMPILED_HEADER \<noteq> replicate 12 7" by force
  moreover have "length OS_COMPILED_HEADER = 12" by (simp add: OS_COMPILED_HEADER_def os_text_def)
  ultimately have h: "length OS_COMPILED_HEADER = 12" "OS_COMPILED_HEADER \<noteq> replicate 12 7" by simp_all
  show ?thesis
    using load_rejects_foreign [of "new_mem_reader [79, 66] 2" sample_long_double]
      load_rejects_foreign [of "new_mem_reader (replicate 12 7 @ [1]) 13" sample_long_double]
      new_mem_reader_ok [of "[79, 66]"] new_mem_reader_ok [of "replicate 12 7 @ [1]"] h by simp
qed

end
