(* ===== verification/Collector.thy ===== *)
theory Collector
  imports RefTables
begin

text \<open>
  The mark phase of \<open>Core::gcFreeCandidateValues\<close>: the overloads of \<open>Lib::mark\<close> for values, locals,
  running functions, tables and objects, and their calls on the roots.

  A node of the graph is an object or a block of locals.  A call of \<open>mark\<close> that is still to be made is a
  \<open>gc_item\<close>; \<open>enter_item\<close> is the body of an overload, with the calls it makes in their order, and
  \<open>mark_items\<close> runs a list of calls depth first, so that the list is the stack of the recursion.
  (The calls read only fields that marking leaves alone.)  The result \<open>None\<close> is a failed \<open>OS_ASSERT\<close> or a
  recursion that does not end.
\<close>

section \<open>State\<close>

text \<open>
  The fields the collector reads, beside those of \<open>core\<close>: of objects, of \<open>Table\<close> and \<open>Property\<close>, of
  \<open>Locals\<close> (the \<open>num_locals\<close> values and the \<open>func_depth\<close> parents are lists) and of the core itself.
\<close>

record gc_frame =
  sf_func :: addr
  sf_self_for_proto :: link
  sf_arguments :: link
  sf_rest_arguments :: link
  sf_locals :: addr
  sf_sub_funcs :: "link list"

record collector =
  gc_core :: core
  value_name :: links
  value_table :: links
  array_values :: "addr \<Rightarrow> os_value list"
  func_env :: "addr \<Rightarrow> os_value"
  func_self :: "addr \<Rightarrow> os_value"
  func_locals :: links
  table_first :: links
  prop_index :: "addr \<Rightarrow> os_value"
  prop_value :: "addr \<Rightarrow> os_value"
  prop_next :: links
  locals_step :: "addr \<Rightarrow> u32"
  locals_is_stack :: "addr \<Rightarrow> bool"
  locals_vals :: "addr \<Rightarrow> os_value list option"
  locals_parents :: "addr \<Rightarrow> addr list"
  global_vars :: os_value
  user_pool :: os_value
  retain_pool :: os_value
  check_get_recursion :: os_value
  check_set_recursion :: os_value
  check_valueof_recursion :: os_value
  terminated_exception :: os_value
  running_funcs :: "gc_frame list"

section \<open>Marking\<close>

datatype gc_item =
  MarkValue os_value | MarkGCValue addr | MarkLocals addr | MarkStackFunction gc_frame
| MarkTable addr | MarkProps link | MarkCandidates link

definition mark_link :: "link \<Rightarrow> gc_item list" where
  "mark_link p = (case p of None \<Rightarrow> [] | Some a \<Rightarrow> [MarkGCValue a])"

definition mark_locals_items :: "addr \<Rightarrow> collector \<Rightarrow> gc_item list" where
  "mark_locals_items l s =
     (if \<not> locals_is_stack s l
      then (case locals_vals s l of None \<Rightarrow> [] | Some vs \<Rightarrow> map MarkValue vs) else [])
     @ map MarkLocals (locals_parents s l)"

definition mark_frame_items :: "gc_frame \<Rightarrow> gc_item list" where
  "mark_frame_items f =
     MarkGCValue (sf_func f) # mark_link (sf_self_for_proto f) @ mark_link (sf_arguments f)
     @ mark_link (sf_rest_arguments f) @ MarkLocals (sf_locals f) # concat (map mark_link (sf_sub_funcs f))"

definition mark_type_items :: "addr \<Rightarrow> collector \<Rightarrow> gc_item list option" where
  "mark_type_items a s =
     (case value_type (gc_core s) a of
        OS_VALUE_TYPE_STRING \<Rightarrow> os_assert (value_table s a = None) (Some [])
      | OS_VALUE_TYPE_ARRAY \<Rightarrow> Some (map MarkValue (array_values s a))
      | OS_VALUE_TYPE_OBJECT \<Rightarrow> Some []
      | OS_VALUE_TYPE_USERDATA \<Rightarrow> Some []
      | OS_VALUE_TYPE_USERPTR \<Rightarrow> Some []
      | OS_VALUE_TYPE_FUNCTION \<Rightarrow>
          Some ([MarkValue (func_env s a), MarkValue (func_self s a)]
                @ (case func_locals s a of None \<Rightarrow> [] | Some l \<Rightarrow> [MarkLocals l]))
      | OS_VALUE_TYPE_CFUNCTION \<Rightarrow> Some (map MarkValue (cfunc_closure_values (gc_core s) a))
      | OS_VALUE_TYPE_NULL \<Rightarrow> Some []
      | _ \<Rightarrow> None)"

definition mark_value_items :: "addr \<Rightarrow> collector \<Rightarrow> gc_item list option" where
  "mark_value_items a s =
     Option.bind (mark_type_items a s) (\<lambda>items. Some
       (mark_link (value_prototype (gc_core s) a) @ mark_link (value_name s a)
        @ (case value_table s a of None \<Rightarrow> [] | Some t \<Rightarrow> [MarkTable t]) @ items))"

definition stamp_value :: "addr \<Rightarrow> collector \<Rightarrow> collector" where
  "stamp_value a s =
     s\<lparr>gc_core := (gc_core s)\<lparr>value_step := (value_step (gc_core s))(a := gc_step_type (gc_core s))\<rparr>\<rparr>"

definition stamp_locals :: "addr \<Rightarrow> collector \<Rightarrow> collector" where
  "stamp_locals l s = s\<lparr>locals_step := (locals_step s)(l := gc_step_type (gc_core s))\<rparr>"

fun enter_item :: "gc_item \<Rightarrow> collector \<Rightarrow> (gc_item list \<times> collector) option" where
  "enter_item (MarkValue cur) s = Some (case cur of VGC a \<Rightarrow> [MarkGCValue a] | _ \<Rightarrow> [], s)"
| "enter_item (MarkGCValue cur) s =
     (if value_step (gc_core s) cur = gc_step_type (gc_core s) then Some ([], s)
      else Option.bind (mark_value_items cur s) (\<lambda>items. Some (items, stamp_value cur s)))"
| "enter_item (MarkLocals locals) s =
     (if locals_step s locals = gc_step_type (gc_core s) then Some ([], s)
      else Some (mark_locals_items locals s, stamp_locals locals s))"
| "enter_item (MarkStackFunction f) s = Some (mark_frame_items f, s)"
| "enter_item (MarkTable t) s = Some ([MarkProps (table_first s t)], s)"
| "enter_item (MarkProps prop) s =
     Some (case prop of None \<Rightarrow> []
           | Some p \<Rightarrow> [MarkValue (prop_index s p), MarkValue (prop_value s p), MarkProps (prop_next s p)], s)"
| "enter_item (MarkCandidates cur) s =
     Some (case cur of None \<Rightarrow> []
           | Some a \<Rightarrow> [MarkGCValue a, MarkCandidates (hash_next_free_candidate (gc_core s) a)], s)"

partial_function (option) mark_items :: "gc_item list \<Rightarrow> collector \<Rightarrow> collector option" where
  "mark_items items s =
     (case items of [] \<Rightarrow> Some s
      | item # rest \<Rightarrow> Option.bind (enter_item item s) (\<lambda>(calls, s). mark_items (calls @ rest) s))"

definition all_prototypes :: "prototype_index list" where
  "all_prototypes =
     [PROTOTYPE_BOOL, PROTOTYPE_NUMBER, PROTOTYPE_STRING, PROTOTYPE_OBJECT, PROTOTYPE_ARRAY,
      PROTOTYPE_FUNCTION, PROTOTYPE_USERDATA]"

definition root_items :: "collector \<Rightarrow> gc_item list" where
  "root_items s =
     map MarkValue [global_vars s, user_pool s, retain_pool s, check_get_recursion s,
                    check_set_recursion s, check_valueof_recursion s]
     @ map (\<lambda>i. MarkGCValue (prototypes (gc_core s) i)) all_prototypes
     @ [MarkValue (terminated_exception s)]
     @ map MarkValue (stack_values (gc_core s))
     @ map MarkStackFunction (running_funcs s)
     @ map MarkCandidates (heads (gc_candidate_values (gc_core s)))"

definition mark_phase :: "collector \<Rightarrow> collector option" where
  "mark_phase s =
     (let s = s\<lparr>gc_core := (gc_core s)\<lparr>gc_step_type := gc_step_type (gc_core s) + 1\<rparr>\<rparr>
      in mark_items (root_items s) s)"

section \<open>Reachability\<close>

datatype gc_node = NValue addr | NLocals addr

fun value_targets :: "os_value \<Rightarrow> gc_node set" where
  "value_targets (VGC a) = {NValue a}"
| "value_targets _ = {}"

definition link_targets :: "link \<Rightarrow> gc_node set" where
  "link_targets p = NValue ` set_option p"

definition list_of_chain :: "links \<Rightarrow> link \<Rightarrow> addr set" where
  "list_of_chain nxt p = {a. \<exists>as. chain nxt p as \<and> a \<in> set as}"

text \<open>The nodes an object, a block of locals or a running function refers to.\<close>

definition object_targets :: "collector \<Rightarrow> addr \<Rightarrow> gc_node set" where
  "object_targets s a =
     link_targets (value_prototype (gc_core s) a) \<union> link_targets (value_name s a)
     \<union> (\<Union>t \<in> set_option (value_table s a). \<Union>p \<in> list_of_chain (prop_next s) (table_first s t).
          value_targets (prop_index s p) \<union> value_targets (prop_value s p))
     \<union> (case value_type (gc_core s) a of
          OS_VALUE_TYPE_ARRAY \<Rightarrow> \<Union>(value_targets ` set (array_values s a))
        | OS_VALUE_TYPE_FUNCTION \<Rightarrow>
            value_targets (func_env s a) \<union> value_targets (func_self s a)
            \<union> NLocals ` set_option (func_locals s a)
        | OS_VALUE_TYPE_CFUNCTION \<Rightarrow> \<Union>(value_targets ` set (cfunc_closure_values (gc_core s) a))
        | _ \<Rightarrow> {})"

definition locals_targets :: "collector \<Rightarrow> addr \<Rightarrow> gc_node set" where
  "locals_targets s l =
     (if locals_is_stack s l then {}
      else \<Union>vs \<in> set_option (locals_vals s l). \<Union>(value_targets ` set vs))
     \<union> NLocals ` set (locals_parents s l)"

fun node_targets :: "collector \<Rightarrow> gc_node \<Rightarrow> gc_node set" where
  "node_targets s (NValue a) = object_targets s a"
| "node_targets s (NLocals l) = locals_targets s l"

definition frame_targets :: "gc_frame \<Rightarrow> gc_node set" where
  "frame_targets f =
     {NValue (sf_func f), NLocals (sf_locals f)} \<union> link_targets (sf_self_for_proto f)
     \<union> link_targets (sf_arguments f) \<union> link_targets (sf_rest_arguments f)
     \<union> \<Union>(link_targets ` set (sf_sub_funcs f))"

definition gc_roots :: "collector \<Rightarrow> gc_node set" where
  "gc_roots s =
     value_targets (global_vars s) \<union> value_targets (user_pool s) \<union> value_targets (retain_pool s)
     \<union> value_targets (check_get_recursion s) \<union> value_targets (check_set_recursion s)
     \<union> value_targets (check_valueof_recursion s) \<union> value_targets (terminated_exception s)
     \<union> range (\<lambda>i. NValue (prototypes (gc_core s) i))
     \<union> \<Union>(value_targets ` set (stack_values (gc_core s)))
     \<union> \<Union>(frame_targets ` set (running_funcs s))
     \<union> (\<Union>p \<in> set (heads (gc_candidate_values (gc_core s))).
          NValue ` list_of_chain (hash_next_free_candidate (gc_core s)) p)"

inductive reachable :: "collector \<Rightarrow> gc_node \<Rightarrow> bool" for s where
  root: "n \<in> gc_roots s \<Longrightarrow> reachable s n"
| refers: "reachable s n \<Longrightarrow> m \<in> node_targets s n \<Longrightarrow> reachable s m"

inductive_cases reachableE: "reachable s n"

text \<open>
  What the data structures guarantee of reachable nodes: there are finitely many, tables and candidate
  chains end, strings have no table, and the type of an object is one of an allocated object.
\<close>

definition ends :: "links \<Rightarrow> link \<Rightarrow> bool" where
  "ends nxt p \<longleftrightarrow> (\<exists>as. chain nxt p as)"

definition object_ok :: "collector \<Rightarrow> addr \<Rightarrow> bool" where
  "object_ok s a \<longleftrightarrow>
     value_type (gc_core s) a \<notin> {OS_VALUE_TYPE_BOOL, OS_VALUE_TYPE_NUMBER}
     \<and> (value_type (gc_core s) a = OS_VALUE_TYPE_STRING \<longrightarrow> value_table s a = None)
     \<and> (\<forall>t. value_table s a = Some t \<longrightarrow> ends (prop_next s) (table_first s t))"

definition graph_ok :: "collector \<Rightarrow> bool" where
  "graph_ok s \<longleftrightarrow>
     finite {n. reachable s n} \<and> (\<forall>a. reachable s (NValue a) \<longrightarrow> object_ok s a)
     \<and> (\<forall>p \<in> set (heads (gc_candidate_values (gc_core s))). ends (hash_next_free_candidate (gc_core s)) p)"

text \<open>The stamp of a node.\<close>

fun node_step :: "collector \<Rightarrow> gc_node \<Rightarrow> u32" where
  "node_step s (NValue a) = value_step (gc_core s) a"
| "node_step s (NLocals l) = locals_step s l"

definition marked :: "collector \<Rightarrow> gc_node set" where
  "marked s = {n. node_step s n = gc_step_type (gc_core s)}"


section \<open>Marking computes reachability\<close>

text \<open>The state in which the nodes of \<open>M\<close> have been stamped.\<close>

definition with_marks :: "collector \<Rightarrow> gc_node set \<Rightarrow> collector" where
  "with_marks s M =
     s\<lparr>gc_core := (gc_core s)\<lparr>value_step :=
          (\<lambda>a. if NValue a \<in> M then gc_step_type (gc_core s) else value_step (gc_core s) a)\<rparr>,
       locals_step := (\<lambda>l. if NLocals l \<in> M then gc_step_type (gc_core s) else locals_step s l)\<rparr>"

lemma with_marks_empty: "with_marks s {} = s"
  by (simp add: with_marks_def)

lemma stamp_with_marks:
  "stamp_value a (with_marks s M) = with_marks s (insert (NValue a) M)"
  "stamp_locals l (with_marks s M) = with_marks s (insert (NLocals l) M)"
  by (auto simp: stamp_value_def stamp_locals_def with_marks_def fun_eq_iff intro!: collector.fold_congs core.fold_congs)

lemma items_with_marks [simp]:
  "mark_value_items a (with_marks s M) = mark_value_items a s"
  "mark_locals_items l (with_marks s M) = mark_locals_items l s"
  by (simp_all add: mark_value_items_def mark_type_items_def mark_locals_items_def with_marks_def
      cong: OS_EValueType.case_cong option.case_cong if_cong)

lemma fields_with_marks [simp]:
  "table_first (with_marks s M) = table_first s" "prop_index (with_marks s M) = prop_index s"
  "prop_value (with_marks s M) = prop_value s" "prop_next (with_marks s M) = prop_next s"
  "hash_next_free_candidate (gc_core (with_marks s M)) = hash_next_free_candidate (gc_core s)"
  "gc_step_type (gc_core (with_marks s M)) = gc_step_type (gc_core s)"
  by (simp_all add: with_marks_def)

lemma step_with_marks:
  "value_step (gc_core (with_marks s M)) a = gc_step_type (gc_core s) \<longleftrightarrow> NValue a \<in> M \<union> marked s"
  "locals_step (with_marks s M) l = gc_step_type (gc_core s) \<longleftrightarrow> NLocals l \<in> M \<union> marked s"
  by (auto simp: with_marks_def marked_def)

lemma marked_with_marks: "n \<in> marked (with_marks s M) \<longleftrightarrow> n \<in> M \<union> marked s"
  by (cases n) (simp_all add: with_marks_def marked_def)

lemma mark_items_Nil [simp]: "mark_items [] s = Some s"
  by (simp add: mark_items.simps)

lemma mark_items_Cons:
  "mark_items (item # rest) s = Option.bind (enter_item item s) (\<lambda>(calls, s). mark_items (calls @ rest) s)"
  by (subst mark_items.simps) simp

text \<open>What a list of calls is about, and when its walks end.\<close>

fun item_targets :: "collector \<Rightarrow> gc_item \<Rightarrow> gc_node set" where
  "item_targets s (MarkValue v) = value_targets v"
| "item_targets s (MarkGCValue a) = {NValue a}"
| "item_targets s (MarkLocals l) = {NLocals l}"
| "item_targets s (MarkStackFunction f) = frame_targets f"
| "item_targets s (MarkTable t) =
     (\<Union>p \<in> list_of_chain (prop_next s) (table_first s t). value_targets (prop_index s p) \<union> value_targets (prop_value s p))"
| "item_targets s (MarkProps p) =
     (\<Union>p \<in> list_of_chain (prop_next s) p. value_targets (prop_index s p) \<union> value_targets (prop_value s p))"
| "item_targets s (MarkCandidates p) = NValue ` list_of_chain (hash_next_free_candidate (gc_core s)) p"

fun item_ok :: "collector \<Rightarrow> gc_item \<Rightarrow> bool" where
  "item_ok s (MarkTable t) \<longleftrightarrow> ends (prop_next s) (table_first s t)"
| "item_ok s (MarkProps p) \<longleftrightarrow> ends (prop_next s) p"
| "item_ok s (MarkCandidates p) \<longleftrightarrow> ends (hash_next_free_candidate (gc_core s)) p"
| "item_ok s _ \<longleftrightarrow> True"

definition items_targets :: "collector \<Rightarrow> gc_item list \<Rightarrow> gc_node set" where
  "items_targets s items = \<Union>(item_targets s ` set items)"

lemma items_targets_simps [simp]:
  "items_targets s [] = {}"
  "items_targets s (x # xs) = item_targets s x \<union> items_targets s xs"
  "items_targets s (xs @ ys) = items_targets s xs \<union> items_targets s ys"
  by (auto simp: items_targets_def)

lemma items_targets_map_values [simp]: "items_targets s (map MarkValue vs) = \<Union>(value_targets ` set vs)"
  by (auto simp: items_targets_def)

lemma items_targets_map_locals [simp]: "items_targets s (map MarkLocals ls) = NLocals ` set ls"
  by (auto simp: items_targets_def)

lemma items_targets_link [simp]: "items_targets s (mark_link p) = link_targets p"
  by (cases p) (auto simp: mark_link_def link_targets_def)

lemma link_items_ok [simp]: "x \<in> set (mark_link p) \<Longrightarrow> item_ok s x"
  by (cases p) (auto simp: mark_link_def)

lemma frame_items:
  "items_targets s (mark_frame_items f) = frame_targets f" "\<forall>x \<in> set (mark_frame_items f). item_ok s x"
proof -
  have "items_targets s (concat (map mark_link ps)) = \<Union>(link_targets ` set ps)" for ps
    by (induction ps) auto
  then show "items_targets s (mark_frame_items f) = frame_targets f"
    by (auto simp: mark_frame_items_def frame_targets_def)
  show "\<forall>x \<in> set (mark_frame_items f). item_ok s x"
    by (auto simp: mark_frame_items_def)
qed

lemma locals_items:
  "items_targets s (mark_locals_items l s) = locals_targets s l" "\<forall>x \<in> set (mark_locals_items l s). item_ok s x"
proof -
  show "items_targets s (mark_locals_items l s) = locals_targets s l"
    by (cases "locals_vals s l") (simp_all add: mark_locals_items_def locals_targets_def)
  show "\<forall>x \<in> set (mark_locals_items l s). item_ok s x"
  proof
    fix x
    assume "x \<in> set (mark_locals_items l s)"
    then have "x \<in> range MarkValue \<union> range MarkLocals"
      by (cases "locals_vals s l"; cases "locals_is_stack s l") (auto simp: mark_locals_items_def)
    then show "item_ok s x" by auto
  qed
qed

lemma value_items:
  assumes "object_ok s a"
  shows "\<exists>items. mark_value_items a s = Some items \<and> items_targets s items = object_targets s a
    \<and> (\<forall>x \<in> set items. item_ok s x)"
proof -
  have "\<exists>items. mark_type_items a s = Some items \<and> (\<forall>x \<in> set items. item_ok s x)
    \<and> items_targets s items = (case value_type (gc_core s) a of
          OS_VALUE_TYPE_ARRAY \<Rightarrow> \<Union>(value_targets ` set (array_values s a))
        | OS_VALUE_TYPE_FUNCTION \<Rightarrow>
            value_targets (func_env s a) \<union> value_targets (func_self s a) \<union> NLocals ` set_option (func_locals s a)
        | OS_VALUE_TYPE_CFUNCTION \<Rightarrow> \<Union>(value_targets ` set (cfunc_closure_values (gc_core s) a))
        | _ \<Rightarrow> {})"
    using assms
    by (cases "value_type (gc_core s) a") (auto simp: mark_type_items_def object_ok_def split: option.splits)
  then show ?thesis
    using assms
    by (auto simp: mark_value_items_def object_targets_def object_ok_def split: option.splits)
qed

lemma list_of_chain_simps [simp]:
  "list_of_chain nxt None = {}"
  "ends nxt (Some a) \<Longrightarrow> list_of_chain nxt (Some a) = insert a (list_of_chain nxt (nxt a))"
  by (auto simp: list_of_chain_def ends_def chain_Some)

lemma ends_simps [simp]: "ends nxt None" "ends nxt (Some a) \<longleftrightarrow> ends nxt (nxt a)"
  by (auto simp: ends_def chain_Some)

text \<open>
  \<open>marks_to s R items M\<close>: run from the marks \<open>M\<close>, the calls \<open>items\<close> return, stay inside the region \<open>R\<close>,
  stamp what they are about, and whatever they stamp has its targets stamped.
\<close>

definition marks_to :: "collector \<Rightarrow> gc_node set \<Rightarrow> gc_item list \<Rightarrow> gc_node set \<Rightarrow> bool" where
  "marks_to s R items M \<longleftrightarrow>
     (\<exists>M'. (\<forall>rest. mark_items (items @ rest) (with_marks s M) = mark_items rest (with_marks s M'))
        \<and> M \<subseteq> M' \<and> M' \<subseteq> R \<and> items_targets s items \<subseteq> M' \<and> (\<forall>n \<in> M' - M. node_targets s n \<subseteq> M'))"

definition gc_region :: "collector \<Rightarrow> gc_node set \<Rightarrow> bool" where
  "gc_region s R \<longleftrightarrow>
     finite R \<and> (\<forall>n \<in> R. node_targets s n \<subseteq> R) \<and> (\<forall>a. NValue a \<in> R \<longrightarrow> object_ok s a)"

lemma marks_to_Nil: "M \<subseteq> R \<Longrightarrow> marks_to s R [] M"
  unfolding marks_to_def by (rule exI [of _ M]) simp

lemma marks_to_append:
  assumes "marks_to s R xs M" and "\<And>M'. M \<subseteq> M' \<Longrightarrow> M' \<subseteq> R \<Longrightarrow> marks_to s R ys M'"
  shows "marks_to s R (xs @ ys) M"
proof -
  obtain M1 where M1: "\<And>rest. mark_items (xs @ rest) (with_marks s M) = mark_items rest (with_marks s M1)"
    "M \<subseteq> M1" "M1 \<subseteq> R" "items_targets s xs \<subseteq> M1" "\<forall>n \<in> M1 - M. node_targets s n \<subseteq> M1"
    using assms(1) by (auto simp: marks_to_def)
  obtain M2 where M2: "\<And>rest. mark_items (ys @ rest) (with_marks s M1) = mark_items rest (with_marks s M2)"
    "M1 \<subseteq> M2" "M2 \<subseteq> R" "items_targets s ys \<subseteq> M2" "\<forall>n \<in> M2 - M1. node_targets s n \<subseteq> M2"
    using assms(2) [OF M1(2,3)] by (auto simp: marks_to_def)
  show ?thesis
    unfolding marks_to_def using M1 M2 by (intro exI [of _ M2]) (simp, blast)
qed

text \<open>A call that only makes other calls.\<close>

lemma marks_to_calls:
  assumes "\<And>M'. enter_item x (with_marks s M') = Some (calls, with_marks s M')"
    and "item_targets s x = items_targets s calls" and "marks_to s R calls M"
  shows "marks_to s R [x] M"
proof -
  obtain M1 where M1: "\<And>rest. mark_items (calls @ rest) (with_marks s M) = mark_items rest (with_marks s M1)"
    "M \<subseteq> M1" "M1 \<subseteq> R" "items_targets s calls \<subseteq> M1" "\<forall>n \<in> M1 - M. node_targets s n \<subseteq> M1"
    using assms(3) by (auto simp: marks_to_def)
  have "mark_items ([x] @ rest) (with_marks s M) = mark_items rest (with_marks s M1)" for rest
    using M1(1) by (simp add: mark_items_Cons assms(1))
  with M1 assms(2) show ?thesis unfolding marks_to_def by (intro exI [of _ M1]) simp
qed

text \<open>A call on a node that is not stamped.\<close>

lemma marks_to_node:
  assumes "enter_item x (with_marks s M) = Some (calls, with_marks s (insert n M))"
    and "item_targets s x = {n}" "items_targets s calls = node_targets s n"
    and "marks_to s R calls (insert n M)"
  shows "marks_to s R [x] M"
proof -
  obtain M1 where M1: "\<And>rest. mark_items (calls @ rest) (with_marks s (insert n M)) = mark_items rest (with_marks s M1)"
    "insert n M \<subseteq> M1" "M1 \<subseteq> R" "items_targets s calls \<subseteq> M1" "\<forall>m \<in> M1 - insert n M. node_targets s m \<subseteq> M1"
    using assms(4) by (auto simp: marks_to_def)
  have "mark_items ([x] @ rest) (with_marks s M) = mark_items rest (with_marks s M1)" for rest
    using M1(1) by (simp add: mark_items_Cons assms(1))
  with M1 assms(2,3) show ?thesis unfolding marks_to_def by (intro exI [of _ M1]) auto
qed

lemma marks_to_done:
  assumes "\<And>M'. M' = M \<Longrightarrow> enter_item x (with_marks s M') = Some ([], with_marks s M')"
    and "M \<subseteq> R" "item_targets s x \<subseteq> M"
  shows "marks_to s R [x] M"
  unfolding marks_to_def using assms by (intro exI [of _ M]) (simp add: mark_items_Cons)


lemma marks_to_list:
  assumes "\<And>x M'. x \<in> set items \<Longrightarrow> M \<subseteq> M' \<Longrightarrow> M' \<subseteq> R \<Longrightarrow> marks_to s R [x] M'" and "M \<subseteq> R"
  shows "marks_to s R items M"
  using assms
proof (induction items arbitrary: M)
  case Nil
  then show ?case by (simp add: marks_to_Nil)
next
  case (Cons x xs)
  have "marks_to s R ([x] @ xs) M"
  proof (rule marks_to_append)
    show "marks_to s R [x] M" using Cons.prems by simp
    show "marks_to s R xs M'" if "M \<subseteq> M'" "M' \<subseteq> R" for M'
      by (rule Cons.IH) (use Cons.prems(1) that in auto)
  qed
  then show ?case by simp
qed

lemma gc_regionD:
  assumes "gc_region s R"
  shows "n \<in> R \<Longrightarrow> node_targets s n \<subseteq> R" "NValue a \<in> R \<Longrightarrow> object_ok s a" "finite R"
  using assms by (auto simp: gc_region_def)

text \<open>Calls on nodes, given that calls from more marks are known to work.\<close>

lemma marks_to_node_item:
  assumes R: "gc_region s R" and M: "M \<subseteq> R" and stale: "R \<inter> marked s \<subseteq> M"
    and x: "x = MarkGCValue a \<and> n = NValue a \<or> x = MarkLocals a \<and> n = NLocals a" and n: "n \<in> R"
    and IH: "\<And>calls. \<lbrakk>n \<notin> M; \<forall>y \<in> set calls. item_ok s y; items_targets s calls \<subseteq> R\<rbrakk>
      \<Longrightarrow> marks_to s R calls (insert n M)"
  shows "marks_to s R [x] M"
proof (cases "n \<in> M")
  case True
  then show ?thesis using x M by (intro marks_to_done) (auto simp: step_with_marks)
next
  case new: False
  then have fresh: "n \<notin> marked s" using stale n by blast
  show ?thesis
    using x
  proof
    assume v: "x = MarkGCValue a \<and> n = NValue a"
    then obtain items where items: "mark_value_items a s = Some items" "items_targets s items = object_targets s a"
      "\<forall>y \<in> set items. item_ok s y"
      using value_items [of s a] gc_regionD(2) [OF R] n by auto
    show ?thesis
    proof (rule marks_to_node)
      show "enter_item x (with_marks s M) = Some (items, with_marks s (insert n M))"
        using v new fresh items(1) by (simp add: step_with_marks stamp_with_marks)
      show "item_targets s x = {n}" "items_targets s items = node_targets s n" using v items(2) by simp_all
      then show "marks_to s R items (insert n M)"
        using IH new items(3) gc_regionD(1) [OF R n] by simp
    qed
  next
    assume v: "x = MarkLocals a \<and> n = NLocals a"
    show ?thesis
    proof (rule marks_to_node)
      show "enter_item x (with_marks s M) = Some (mark_locals_items a s, with_marks s (insert n M))"
        using v new fresh by (simp add: step_with_marks stamp_with_marks)
      show "item_targets s x = {n}" "items_targets s (mark_locals_items a s) = node_targets s n"
        using v by (simp_all add: locals_items)
      then show "marks_to s R (mark_locals_items a s) (insert n M)"
        using IH new locals_items(2) gc_regionD(1) [OF R n] by simp
    qed
  qed
qed

lemma marks_to_value_item:
  assumes "\<And>a M'. \<lbrakk>NValue a \<in> R; M \<subseteq> M'; M' \<subseteq> R\<rbrakk> \<Longrightarrow> marks_to s R [MarkGCValue a] M'"
    and "M \<subseteq> R" "value_targets v \<subseteq> R"
  shows "marks_to s R [MarkValue v] M"
proof (rule marks_to_calls)
  show "item_targets s (MarkValue v) = items_targets s (case v of VGC a \<Rightarrow> [MarkGCValue a] | _ \<Rightarrow> [])"
    by (cases v) simp_all
  show "marks_to s R (case v of VGC a \<Rightarrow> [MarkGCValue a] | _ \<Rightarrow> []) M"
    using assms by (cases v) (simp_all add: marks_to_Nil)
qed simp

lemma marks_to_props_item:
  assumes v: "\<And>v M'. \<lbrakk>value_targets v \<subseteq> R; M \<subseteq> M'; M' \<subseteq> R\<rbrakk> \<Longrightarrow> marks_to s R [MarkValue v] M'"
    and "M \<subseteq> R" "chain (prop_next s) p as" "item_targets s (MarkProps p) \<subseteq> R"
  shows "marks_to s R [MarkProps p] M"
  using assms
proof (induction as arbitrary: p M)
  case Nil
  then show ?case by (intro marks_to_done) auto
next
  case (Cons a as)
  then have p: "p = Some a" and e: "ends (prop_next s) (prop_next s a)" by (auto simp: ends_def)
  let ?calls = "[MarkValue (prop_index s a), MarkValue (prop_value s a), MarkProps (prop_next s a)]"
  have t: "item_targets s (MarkProps p) = items_targets s ?calls" using p e by auto
  show ?case
  proof (rule marks_to_calls [OF _ t])
    show "marks_to s R ?calls M"
    proof (rule marks_to_list)
      fix x M'
      assume x: "x \<in> set ?calls" and M': "M \<subseteq> M'" "M' \<subseteq> R"
      have "marks_to s R [MarkProps (prop_next s a)] M'"
        by (rule Cons.IH) (use Cons.prems M' t p in auto)
      moreover have "marks_to s R [MarkValue v] M'" if "value_targets v \<subseteq> R" for v
        using Cons.prems(1) that M' by blast
      ultimately show "marks_to s R [x] M'" using x Cons.prems(4) t by auto
    qed fact
  qed (simp add: p)
qed

lemma marks_to_candidates_item:
  assumes v: "\<And>a M'. \<lbrakk>NValue a \<in> R; M \<subseteq> M'; M' \<subseteq> R\<rbrakk> \<Longrightarrow> marks_to s R [MarkGCValue a] M'"
    and "M \<subseteq> R" "chain (hash_next_free_candidate (gc_core s)) p as" "item_targets s (MarkCandidates p) \<subseteq> R"
  shows "marks_to s R [MarkCandidates p] M"
  using assms
proof (induction as arbitrary: p M)
  case Nil
  then show ?case by (intro marks_to_done) auto
next
  case (Cons a as)
  let ?nxt = "hash_next_free_candidate (gc_core s)"
  have p: "p = Some a" and e: "ends ?nxt (?nxt a)" using Cons.prems(3) by (auto simp: ends_def)
  have t: "item_targets s (MarkCandidates p) = items_targets s [MarkGCValue a, MarkCandidates (?nxt a)]"
    using p e by auto
  show ?case
  proof (rule marks_to_calls [OF _ t])
    show "marks_to s R [MarkGCValue a, MarkCandidates (?nxt a)] M"
    proof (rule marks_to_list)
      fix x M'
      assume x: "x \<in> set [MarkGCValue a, MarkCandidates (?nxt a)]" and M': "M \<subseteq> M'" "M' \<subseteq> R"
      have "marks_to s R [MarkCandidates (?nxt a)] M'"
        by (rule Cons.IH) (use Cons.prems M' t p in auto)
      moreover have "marks_to s R [MarkGCValue a] M'"
        using Cons.prems M' t by auto
      ultimately show "marks_to s R [x] M'" using x by auto
    qed fact
  qed (simp add: p)
qed

lemma marks_to_region:
  assumes R: "gc_region s R"
  shows "\<lbrakk>M \<subseteq> R; R \<inter> marked s \<subseteq> M; \<forall>x \<in> set items. item_ok s x; items_targets s items \<subseteq> R\<rbrakk> \<Longrightarrow> marks_to s R items M"
proof (induction "card (R - M)" arbitrary: M items rule: less_induct)
  case less
  note IH = less.hyps and M = less.prems(1)
  have node: "marks_to s R [x] M'"
    if "x = MarkGCValue a \<and> n = NValue a \<or> x = MarkLocals a \<and> n = NLocals a" "n \<in> R" "M \<subseteq> M'" "M' \<subseteq> R" for x a n M'
  proof (rule marks_to_node_item [OF R that(4) _ that(1,2)])
    show "R \<inter> marked s \<subseteq> M'" using less.prems(2) that(3) by blast
  next
    fix calls
    assume "n \<notin> M'" and calls: "\<forall>y \<in> set calls. item_ok s y" "items_targets s calls \<subseteq> R"
    then have "R - insert n M' \<subset> R - M" using that by auto
    then have "card (R - insert n M') < card (R - M)"
      using gc_regionD(3) [OF R] by (simp add: psubset_card_mono)
    then show "marks_to s R calls (insert n M')" by (rule IH) (use that calls less.prems(2) in auto)
  qed
  have gc: "marks_to s R [MarkGCValue a] M'" if "NValue a \<in> R" "M \<subseteq> M'" "M' \<subseteq> R" for a M'
    using node that by blast
  have val: "marks_to s R [MarkValue v] M'" if "value_targets v \<subseteq> R" "M \<subseteq> M'" "M' \<subseteq> R" for v M'
    by (rule marks_to_value_item) (use that gc in auto)
  have props: "marks_to s R [MarkProps p] M'"
    if "ends (prop_next s) p" "item_targets s (MarkProps p) \<subseteq> R" "M \<subseteq> M'" "M' \<subseteq> R" for p M'
    using that val by (auto simp: ends_def simp del: item_targets.simps intro!: marks_to_props_item)
  show ?case
  proof (rule marks_to_list [OF _ M])
    fix x M'
    assume "x \<in> set items" and M': "M \<subseteq> M'" "M' \<subseteq> R"
    then have ok: "item_ok s x" "item_targets s x \<subseteq> R" using less.prems by (auto simp: items_targets_def)
    show "marks_to s R [x] M'"
    proof (cases x)
      case (MarkStackFunction f)
      show ?thesis
        unfolding MarkStackFunction
      proof (rule marks_to_calls)
        show "marks_to s R (mark_frame_items f) M'"
        proof (rule marks_to_list)
          fix y M''
          assume y: "y \<in> set (mark_frame_items f)" and "M' \<subseteq> M''" "M'' \<subseteq> R"
          moreover have "item_targets s y \<subseteq> R"
            using y ok(2) MarkStackFunction frame_items(1) [of s f] by (auto simp: items_targets_def)
          moreover have "y \<in> range MarkGCValue \<union> range MarkLocals"
            using y by (auto simp: mark_frame_items_def mark_link_def split: option.splits)
          ultimately show "marks_to s R [y] M''" using node M' by fastforce
        qed fact
      qed (simp_all add: frame_items)
    next
      case (MarkTable t)
      show ?thesis
        unfolding MarkTable
        by (rule marks_to_calls [of _ _ "[MarkProps (table_first s t)]"]) (use MarkTable ok props M' in simp_all)
    next
      case (MarkCandidates p)
      then obtain as where "chain (hash_next_free_candidate (gc_core s)) p as" using ok(1) by (auto simp: ends_def)
      then show ?thesis
        unfolding MarkCandidates
        by (rule marks_to_candidates_item [rotated 2]) (use MarkCandidates ok gc M' in auto)
    qed (use ok node val props M' in auto)
  qed
qed


text \<open>The roots, and the start of a collection.\<close>

definition next_step :: "collector \<Rightarrow> collector" where
  "next_step s = s\<lparr>gc_core := (gc_core s)\<lparr>gc_step_type := gc_step_type (gc_core s) + 1\<rparr>\<rparr>"

lemma next_step_simps [simp]:
  "root_items (next_step s) = root_items s" "gc_roots (next_step s) = gc_roots s"
  "object_ok (next_step s) = object_ok s" "node_step (next_step s) n = node_step s n"
  "gc_step_type (gc_core (next_step s)) = gc_step_type (gc_core s) + 1"
  by (cases n; simp add: next_step_def root_items_def gc_roots_def object_ok_def fun_eq_iff)+

lemma node_targets_next_step [simp]: "node_targets (next_step s) n = node_targets s n"
  by (cases n) (simp_all add: next_step_def object_targets_def locals_targets_def
    cong: OS_EValueType.case_cong if_cong)

lemma range_prototypes: "range f = f ` set all_prototypes"
proof -
  have "x \<in> set all_prototypes" for x by (cases x) (simp_all add: all_prototypes_def)
  then have "set all_prototypes = UNIV" by auto
  then show ?thesis by simp
qed

lemma root_items_targets: "items_targets s (root_items s) = gc_roots s"
proof -
  have "items_targets s (map MarkStackFunction fs) = \<Union>(frame_targets ` set fs)" for fs
    by (auto simp: items_targets_def)
  moreover have "items_targets s (map (\<lambda>i. MarkGCValue (prototypes (gc_core s) i)) xs)
      = (\<lambda>i. NValue (prototypes (gc_core s) i)) ` set xs" for xs
    by (auto simp: items_targets_def)
  moreover have "items_targets s (map MarkCandidates ps)
      = (\<Union>p \<in> set ps. NValue ` list_of_chain (hash_next_free_candidate (gc_core s)) p)" for ps
    by (auto simp: items_targets_def)
  ultimately show ?thesis
    by (simp add: root_items_def gc_roots_def range_prototypes Un_ac)
qed

lemma root_items_ok: "graph_ok s \<Longrightarrow> x \<in> set (root_items s) \<Longrightarrow> item_ok s x"
  by (auto simp: root_items_def graph_ok_def)

lemma reachable_region:
  assumes "graph_ok s"
  shows "gc_region (next_step s) {n. reachable s n}"
  using assms by (auto simp: gc_region_def graph_ok_def intro: reachable.intros)

lemma item_next_step [simp]: "item_ok (next_step s) x = item_ok s x" "item_targets (next_step s) x = item_targets s x"
  by (cases x; simp add: next_step_def)+

lemma mark_phase_marks:
  assumes "graph_ok s"
  defines "M \<equiv> {n. reachable s n} \<inter> marked (next_step s)"
  shows "\<exists>M'. mark_phase s = Some (with_marks (next_step s) M') \<and> M' \<subseteq> {n. reachable s n}
    \<and> gc_roots s \<subseteq> M' \<and> (\<forall>n \<in> M' - M. node_targets s n \<subseteq> M')"
proof -
  have mt: "marks_to (next_step s) {n. reachable s n} (root_items s) M"
  proof (rule marks_to_region [OF reachable_region [OF assms(1)]])
    show "items_targets (next_step s) (root_items s) \<subseteq> {n. reachable s n}"
      using root_items_targets [of s] by (auto simp: items_targets_def intro: reachable.root)
    show "\<forall>x \<in> set (root_items s). item_ok (next_step s) x" using root_items_ok [OF assms(1)] by simp
  qed (auto simp: M_def)
  have start: "with_marks (next_step s) M = next_step s"
    by (auto simp: with_marks_def M_def marked_def next_step_def fun_eq_iff intro!: collector.equality core.equality)
  have roots: "items_targets (next_step s) (root_items s) = gc_roots s"
    using root_items_targets [of "next_step s"] by simp
  have run: "mark_phase s = mark_items (root_items s @ []) (next_step s)"
    using next_step_simps(1) [of s] by (simp add: mark_phase_def next_step_def)
  from mt obtain M' where M': "\<forall>rest. mark_items (root_items s @ rest) (next_step s) = mark_items rest (with_marks (next_step s) M')"
    "M' \<subseteq> {n. reachable s n}" "gc_roots s \<subseteq> M'" "\<forall>n \<in> M' - M. node_targets s n \<subseteq> M'"
    unfolding marks_to_def start roots node_targets_next_step by blast
  from spec [OF M'(1), of "[]"] have "mark_phase s = Some (with_marks (next_step s) M')"
    unfolding run mark_items_Nil .
  with M' show ?thesis by blast
qed


text \<open>
  C19: the mark phase returns and is exact: when no reachable node carries the new stamp yet, it ends with
  the reachable objects and blocks of locals stamped, every other stamp and every other field as
  before.  The heap may be cyclic and of any size.
\<close>

theorem mark_phase_exact:
  assumes "graph_ok s" and "\<forall>n. reachable s n \<longrightarrow> node_step s n \<noteq> gc_step_type (gc_core s) + 1"
  shows "mark_phase s = Some (with_marks (next_step s) {n. reachable s n})"
proof -
  have fresh: "{n. reachable s n} \<inter> marked (next_step s) = {}" using assms(2) by (auto simp: marked_def)
  obtain M' where M': "mark_phase s = Some (with_marks (next_step s) M')" "M' \<subseteq> {n. reachable s n}"
    "gc_roots s \<subseteq> M'" "\<forall>n \<in> M'. node_targets s n \<subseteq> M'"
    using mark_phase_marks [OF assms(1)] unfolding fresh by auto
  have "n \<in> M'" if "reachable s n" for n
    using that by (induction rule: reachable.induct) (use M' in auto)
  then have "M' = {n. reachable s n}" using M'(2) by blast
  with M'(1) show ?thesis by simp
qed

text \<open>
  An object 1 whose table holds the array 3 under the string 2, the array holding object 1 again, and a
  function 5 on the stack with its locals 6; object 9 is garbage.
\<close>

definition sample_heap :: collector where
  "sample_heap =
     \<lparr>gc_core = initial_core\<lparr>value_type :=
          (\<lambda>_. OS_VALUE_TYPE_OBJECT)(2 := OS_VALUE_TYPE_STRING, 3 := OS_VALUE_TYPE_ARRAY, 5 := OS_VALUE_TYPE_FUNCTION),
        stack_values := [VNumber 0, VGC 5]\<rparr>,
      value_name = \<lambda>_. None, value_table = [1 \<mapsto> 10, 9 \<mapsto> 11],
      array_values = (\<lambda>_. [])(3 := [VGC 1, VNull]), func_env = \<lambda>_. VNull, func_self = \<lambda>_. VNull,
      func_locals = [5 \<mapsto> 6], table_first = [10 \<mapsto> 20, 11 \<mapsto> 20],
      prop_index = \<lambda>_. VGC 2, prop_value = \<lambda>_. VGC 3, prop_next = \<lambda>_. None,
      locals_step = \<lambda>_. 0, locals_is_stack = \<lambda>_. False, locals_vals = [6 \<mapsto> [VGC 2]],
      locals_parents = \<lambda>_. [], global_vars = VGC 1, user_pool = VNull, retain_pool = VNull,
      check_get_recursion = VNull, check_set_recursion = VNull, check_valueof_recursion = VNull,
      terminated_exception = VNull, running_funcs = []\<rparr>"

lemma sample_heap_reachable:
  "reachable sample_heap n \<Longrightarrow> n \<in> {NValue 0, NValue 1, NValue 2, NValue 3, NValue 5, NLocals 6}"
proof (induction rule: reachable.induct)
  case (root n)
  then show ?case
    by (auto simp: gc_roots_def sample_heap_def initial_core_def empty_table_def)
next
  case (refers n m)
  have "list_of_chain (\<lambda>_. None) (Some (20::nat)) = {20}"
    by (auto simp: list_of_chain_def chain_Some)
  with refers show ?case
    by (auto simp: sample_heap_def initial_core_def object_targets_def locals_targets_def link_targets_def
      split: if_splits)
qed

lemma sample_heap_graph_ok: "graph_ok sample_heap"
proof -
  have "{n. reachable sample_heap n} \<subseteq> {NValue 0, NValue 1, NValue 2, NValue 3, NValue 5, NLocals 6}"
    using sample_heap_reachable by blast
  then have "finite {n. reachable sample_heap n}" by (rule finite_subset) simp
  moreover have "object_ok sample_heap a" if "reachable sample_heap (NValue a)" for a
    using sample_heap_reachable [OF that] by (auto simp: object_ok_def sample_heap_def initial_core_def)
  ultimately show ?thesis by (auto simp: graph_ok_def sample_heap_def initial_core_def empty_table_def)
qed

theorem mark_phase_exact_witness:
  "\<exists>s'. mark_phase sample_heap = Some s' \<and> NValue 3 \<in> marked s' \<and> NValue 9 \<notin> marked s'"
proof -
  have fresh: "\<forall>n. node_step sample_heap n \<noteq> gc_step_type (gc_core sample_heap) + 1"
  proof
    show "node_step sample_heap n \<noteq> gc_step_type (gc_core sample_heap) + 1" for n
      by (cases n) (simp_all add: sample_heap_def initial_core_def)
  qed
  have "reachable sample_heap (NValue 1)"
    by (rule reachable.root) (simp add: gc_roots_def sample_heap_def)
  then have "reachable sample_heap (NValue 3)"
  proof (rule reachable.refers)
    have "list_of_chain (\<lambda>_. None) (Some (20::nat)) = {20}"
      by (auto simp: list_of_chain_def chain_Some)
    then show "NValue 3 \<in> node_targets sample_heap (NValue 1)"
      by (simp add: object_targets_def sample_heap_def initial_core_def)
  qed
  moreover have "\<not> reachable sample_heap (NValue 9)" using sample_heap_reachable [of "NValue 9"] by auto
  moreover have "mark_phase sample_heap = Some (with_marks (next_step sample_heap) {n. reachable sample_heap n})"
    by (rule mark_phase_exact [OF sample_heap_graph_ok]) (use fresh in blast)
  moreover have "marked (with_marks (next_step sample_heap) R) = R" for R
    using fresh marked_with_marks [of _ "next_step sample_heap" R] by (auto simp: marked_def [of "next_step sample_heap"])
  ultimately show ?thesis by (metis mem_Collect_eq)
qed

text \<open>
  C36: the mark phase returns on every well-formed heap, also when stamps of an earlier round make it skip
  nodes; it stamps every root, and only reachable nodes.
\<close>

theorem mark_phase_returns:
  assumes "graph_ok s"
  shows "\<exists>s'. mark_phase s = Some s' \<and> (\<forall>n \<in> gc_roots s. n \<in> marked s')
    \<and> (\<forall>n. node_step s' n \<noteq> node_step s n \<longrightarrow> reachable s n \<and> n \<in> marked s')"
proof -
  obtain M' where M': "mark_phase s = Some (with_marks (next_step s) M')" "M' \<subseteq> {n. reachable s n}" "gc_roots s \<subseteq> M'"
    using mark_phase_marks [OF assms(1)] by auto
  have "n \<in> marked (with_marks (next_step s) M')" if "n \<in> M'" for n
    using that by (simp add: marked_with_marks)
  moreover have "n \<in> M'" if "node_step (with_marks (next_step s) M') n \<noteq> node_step s n" for n
    using that by (cases n) (auto simp: with_marks_def next_step_def split: if_splits)
  ultimately show ?thesis using M' by blast
qed


theorem mark_phase_returns_witness:
  "\<exists>s'. mark_phase sample_heap = Some s' \<and> (\<forall>n \<in> gc_roots sample_heap. n \<in> marked s')"
  using mark_phase_returns [OF sample_heap_graph_ok] by blast

end
