(* ===== verification/Sweep.thy ===== *)
theory Sweep
  imports Collector RefCount
begin

text \<open>
  What the collector does beside marking: \<open>Core::clearValue\<close> takes a value apart, the sweep over the candidates in
  \<open>Core::gcFreeCandidateValues\<close> destroys the candidates nobody refers to, and the sweep over all values, behind the mark
  phase of \<open>Collector\<close>, destroys what was not marked.

  A result \<open>None\<close> is a failed \<open>OS_ASSERT\<close>, an access to an array that is not there or a loop that does not end.  Destructors of
  user data and the number of bytes in use are arguments of the model.  The iterators of a table belong to \<open>PropTable\<close>,
  references to programs are not counted.
\<close>

section \<open>State\<close>

text \<open>
  To the fields of \<open>collector\<close> come the references from outside of a value, the counts of the locals, the way backwards
  through a table, the values that have been destroyed, last first (\<open>num_destroyed_values\<close> is their number), and the limits.
\<close>

record sweeper =
  sw_gc :: collector
  external_ref_count :: "addr \<Rightarrow> int"
  locals_ref_count :: "addr \<Rightarrow> int"
  table_last :: links
  prop_prev :: links
  sw_destroyed :: "addr list"
  gc_start_when_used_bytes :: int
  gc_next_when_used_bytes :: int

abbreviation sw_core :: "sweeper \<Rightarrow> core" where
  "sw_core s \<equiv> gc_core (sw_gc s)"

definition set_gc :: "(collector \<Rightarrow> collector) \<Rightarrow> sweeper \<Rightarrow> sweeper" where
  "set_gc f s = s\<lparr>sw_gc := f (sw_gc s)\<rparr>"

definition set_core :: "core \<Rightarrow> sweeper \<Rightarrow> sweeper" where
  "set_core c s = set_gc (gc_core_update (\<lambda>_. c)) s"

text \<open>An operation on the core in the bigger state.\<close>

definition on_core :: "(core \<Rightarrow> core option) \<Rightarrow> sweeper \<Rightarrow> sweeper option" where
  "on_core f s = Option.bind (f (sw_core s)) (\<lambda>c. Some (set_core c s))"

text \<open>\<open>releaseValueAndClear\<close> of a pointer.\<close>

definition release_link :: "link \<Rightarrow> core \<Rightarrow> core option" where
  "release_link p c =
     (case p of
        None \<Rightarrow> Some c
      | Some a \<Rightarrow> if unreachable_in_fix c a then Some c else os_assert (0 < sint (ref_count c a)) (drop_ref a c))"

section \<open>Taking a value apart\<close>

text \<open>\<open>releaseLocals\<close> and \<open>deleteLocals\<close>; the locals have as many parents as their function is deep.\<close>

definition free_locals_values :: "addr \<Rightarrow> sweeper \<Rightarrow> sweeper option" where
  "free_locals_values l s =
     (if locals_is_stack (sw_gc s) l then Some s
      else case locals_vals (sw_gc s) l of None \<Rightarrow> Some s | Some vs \<Rightarrow> on_core (releaseValues vs) s)"

partial_function (option) release_locals :: "addr \<Rightarrow> sweeper \<Rightarrow> sweeper option" where
  "release_locals l s =
     (let n = locals_ref_count s l - 1;
          s = s\<lparr>locals_ref_count := (locals_ref_count s)(l := n)\<rparr>
      in if n > 0 then Some s
         else Option.bind (case locals_parents (sw_gc s) l of [] \<Rightarrow> Some s | p # _ \<Rightarrow> release_locals p s)
                (free_locals_values l))"

declare release_locals.simps [code] walk_chain.simps [code] relink_chain.simps [code]

text \<open>\<open>clearFunctionValue\<close>\<close>

definition clear_function :: "addr \<Rightarrow> sweeper \<Rightarrow> sweeper option" where
  "clear_function a s =
     Option.bind
       (case func_locals (sw_gc s) a of
          None \<Rightarrow> Some s
        | Some l \<Rightarrow> Option.bind (release_locals l s) (\<lambda>s.
            Some (set_gc (\<lambda>g. g\<lparr>func_locals := (func_locals g)(a := None)\<rparr>) s))) (\<lambda>s.
     Option.bind (on_core (releaseValue (func_env (sw_gc s) a)) s) (\<lambda>s.
     let s = set_gc (\<lambda>g. g\<lparr>func_env := (func_env g)(a := VNull)\<rparr>) s in
     Option.bind (on_core (releaseValue (func_self (sw_gc s) a)) s) (\<lambda>s.
     let s = set_gc (\<lambda>g. g\<lparr>func_self := (func_self g)(a := VNull)\<rparr>) s in
     Some s)))"

text \<open>The end of \<open>clearFunctionValue\<close> and of \<open>clearValue\<close>: the name and the prototype.\<close>

definition clear_name_prototype :: "addr \<Rightarrow> sweeper \<Rightarrow> sweeper option" where
  "clear_name_prototype a s =
     Option.bind (on_core (release_link (value_name (sw_gc s) a)) s) (\<lambda>s.
     let s = set_gc (\<lambda>g. g\<lparr>value_name := (value_name g)(a := None)\<rparr>) s in
     Option.bind (on_core (release_link (value_prototype (sw_core s) a)) s) (\<lambda>s.
     Some (set_core ((sw_core s)\<lparr>value_prototype := (value_prototype (sw_core s))(a := None)\<rparr>) s)))"

text \<open>\<open>clearTable\<close>, from the last property backwards.\<close>

partial_function (option) clear_table_props :: "link \<Rightarrow> sweeper \<Rightarrow> sweeper option" where
  "clear_table_props p s =
     (case p of
        None \<Rightarrow> Some s
      | Some q \<Rightarrow>
          let prev = prop_prev s q;
              s = set_gc (\<lambda>g. g\<lparr>prop_next := (prop_next g)(q := None)\<rparr>) (s\<lparr>prop_prev := (prop_prev s)(q := None)\<rparr>)
          in Option.bind (on_core (releaseValue (prop_index (sw_gc s) q)) s) (\<lambda>s.
             Option.bind (on_core (releaseValue (prop_value (sw_gc s) q)) s) (clear_table_props prev)))"

declare clear_table_props.simps [code]

definition delete_table :: "addr \<Rightarrow> sweeper \<Rightarrow> sweeper option" where
  "delete_table t s =
     (let prop = table_last s t
      in clear_table_props prop
           (set_gc (\<lambda>g. g\<lparr>table_first := (table_first g)(t := None)\<rparr>) (s\<lparr>table_last := (table_last s)(t := None)\<rparr>)))"

definition clear_userdata :: "(u64 \<Rightarrow> u64 \<Rightarrow> u64 \<Rightarrow> sweeper \<Rightarrow> sweeper option) \<Rightarrow> addr \<Rightarrow> sweeper \<Rightarrow> sweeper option" where
  "clear_userdata run_dtor a s =
     (let c = sw_core s; ptr = userdata_ptr c a; dtor = userdata_dtor c a;
          s = set_core (c\<lparr>userdata_ptr := (userdata_ptr c)(a := 0), userdata_crc := (userdata_crc c)(a := 0),
                          userdata_dtor := (userdata_dtor c)(a := 0)\<rparr>) s
      in Option.bind
           (if value_type c a = OS_VALUE_TYPE_USERPTR then on_core (unregisterUserptrRef_ptr ptr (value_id c a)) s else Some s)
           (\<lambda>s. if dtor \<noteq> 0 then run_dtor dtor ptr (userdata_user_param (sw_core s) a) s else Some s))"

definition clear_cfunction :: "addr \<Rightarrow> sweeper \<Rightarrow> sweeper option" where
  "clear_cfunction a s =
     Option.bind
       (if cfunc_closure_values (sw_core s) a \<noteq> [] then on_core (releaseValues (cfunc_closure_values (sw_core s) a)) s
        else on_core (unregisterCFuncRef a) s)
       (\<lambda>s. let c = sw_core s in
          Some (set_core (c\<lparr>cfunc_func := (cfunc_func c)(a := 0), cfunc_user_param := (cfunc_user_param c)(a := 0),
                            cfunc_closure_values := (cfunc_closure_values c)(a := [])\<rparr>) s))"

definition clear_array :: "addr \<Rightarrow> sweeper \<Rightarrow> sweeper option" where
  "clear_array a s =
     Option.bind (on_core (releaseValues (array_values (sw_gc s) a)) s)
       (\<lambda>s. Some (set_gc (\<lambda>g. g\<lparr>array_values := (array_values g)(a := [])\<rparr>) s))"

definition clear_by_type ::
  "(u64 \<Rightarrow> u64 \<Rightarrow> u64 \<Rightarrow> sweeper \<Rightarrow> sweeper option) \<Rightarrow> addr \<Rightarrow> sweeper \<Rightarrow> sweeper option" where
  "clear_by_type run_dtor a s =
     (case value_type (sw_core s) a of
        OS_VALUE_TYPE_NULL \<Rightarrow> Some s
      | OS_VALUE_TYPE_BOOL \<Rightarrow> None
      | OS_VALUE_TYPE_NUMBER \<Rightarrow> None
      | OS_VALUE_TYPE_STRING \<Rightarrow> on_core (unregisterStringRef a) s
      | OS_VALUE_TYPE_USERDATA \<Rightarrow> clear_userdata run_dtor a s
      | OS_VALUE_TYPE_USERPTR \<Rightarrow> clear_userdata run_dtor a s
      | OS_VALUE_TYPE_FUNCTION \<Rightarrow> Option.bind (clear_function a s) (clear_name_prototype a)
      | OS_VALUE_TYPE_CFUNCTION \<Rightarrow> clear_cfunction a s
      | OS_VALUE_TYPE_ARRAY \<Rightarrow> clear_array a s
      | OS_VALUE_TYPE_OBJECT \<Rightarrow> Some s)"

definition clear_table_of :: "addr \<Rightarrow> sweeper \<Rightarrow> sweeper option" where
  "clear_table_of a s =
     (case value_table (sw_gc s) a of
        None \<Rightarrow> Some s
      | Some t \<Rightarrow> delete_table t (set_gc (\<lambda>g. g\<lparr>value_table := (value_table g)(a := None)\<rparr>) s))"

definition clearValue ::
  "(u64 \<Rightarrow> u64 \<Rightarrow> u64 \<Rightarrow> sweeper \<Rightarrow> sweeper option) \<Rightarrow> addr \<Rightarrow> sweeper \<Rightarrow> sweeper option" where
  "clearValue run_dtor a s =
     os_assert (value_id (sw_core s) a \<noteq> 0)
       (Option.bind (clear_by_type run_dtor a s) (\<lambda>s.
        Option.bind (clear_table_of a s) (\<lambda>s.
        Option.bind (clear_name_prototype a s) (\<lambda>s.
          Some (set_core ((sw_core s)\<lparr>value_type := (value_type (sw_core s))(a := OS_VALUE_TYPE_NULL)\<rparr>) s)))))"

definition deleteValue :: "addr \<Rightarrow> sweeper \<Rightarrow> sweeper option" where
  "deleteValue a s =
     Option.bind (free_candidate_get (value_id (sw_core s) a) (sw_core s)) (\<lambda>old.
       os_assert (old = None)
         (os_assert (value_type (sw_core s) a = OS_VALUE_TYPE_NULL) (Some (s\<lparr>sw_destroyed := a # sw_destroyed s\<rparr>))))"

section \<open>The sweep over the candidates\<close>

text \<open>Candidates on the stack are stamped, so that the sweep passes them over.\<close>

fun stamp_stack :: "os_value list \<Rightarrow> core \<Rightarrow> core option" where
  "stamp_stack [] c = Some c"
| "stamp_stack (v # vs) c =
     (case v of
        VGC a \<Rightarrow> Option.bind (free_candidate_get (value_id c a) c) (\<lambda>found.
          stamp_stack vs (case found of
              None \<Rightarrow> c
            | Some b \<Rightarrow> c\<lparr>value_step := (value_step c)(b := gc_step_type c)\<rparr>))
      | _ \<Rightarrow> stamp_stack vs c)"

text \<open>Taking the candidate \<open>a\<close>, which follows \<open>prev\<close>, out of its slot.\<close>

definition unlink_candidate :: "nat \<Rightarrow> link \<Rightarrow> addr \<Rightarrow> core \<Rightarrow> core option" where
  "unlink_candidate i prev a c =
     (let t = gc_candidate_values c; nxt = hash_next_free_candidate c
      in os_assert (count t > 0)
           (let (hds, nxt) = unlink_node (heads t) nxt i prev a;
                c = c\<lparr>gc_candidate_values := t\<lparr>heads := hds, count := count t - 1\<rparr>,
                      hash_next_free_candidate := nxt(a := None)\<rparr>
            in Option.bind (free_candidate_get (value_id c a) c) (\<lambda>found. os_assert (found = None) (Some c))))"

definition destroy_candidate ::
  "(u64 \<Rightarrow> u64 \<Rightarrow> u64 \<Rightarrow> sweeper \<Rightarrow> sweeper option) \<Rightarrow> addr \<Rightarrow> sweeper \<Rightarrow> sweeper option" where
  "destroy_candidate run_dtor a s =
     Option.bind (clearValue run_dtor a s) (\<lambda>s.
     Option.bind (on_core (\<lambda>c. map_option fst (unregisterValue (value_id c a) c)) s) (deleteValue a))"

text \<open>
  One turn of the inner loop at the candidate \<open>a\<close>: the new \<open>prev\<close>, or \<open>None\<close> when the table has grown and the loop is left.
\<close>

definition sweep_candidate ::
  "(u64 \<Rightarrow> u64 \<Rightarrow> u64 \<Rightarrow> sweeper \<Rightarrow> sweeper option) \<Rightarrow> nat \<Rightarrow> link \<Rightarrow> addr \<Rightarrow> sweeper \<Rightarrow> (link option \<times> sweeper) option" where
  "sweep_candidate run_dtor i prev a s =
     (let c = sw_core s
      in os_assert (value_id c a \<noteq> 0)
           (if ref_count c a \<noteq> 0 \<or> external_ref_count s a \<noteq> 0
            then os_assert (0 < sint (ref_count c a) \<or> 0 < external_ref_count s a)
                   (Option.bind (on_core (unlink_candidate i prev a) s) (\<lambda>s. Some (Some prev, s)))
            else if value_step c a = gc_step_type c then Some (Some (Some a), s)
            else Option.bind (on_core (unlink_candidate i prev a) s) (\<lambda>s.
                 Option.bind (destroy_candidate run_dtor a s) (\<lambda>s'.
                   Some (if head_mask (gc_candidate_values (sw_core s')) \<noteq> head_mask (gc_candidate_values c)
                         then None else Some prev, s')))))"

partial_function (option) sweep_slot ::
  "(u64 \<Rightarrow> u64 \<Rightarrow> u64 \<Rightarrow> sweeper \<Rightarrow> sweeper option) \<Rightarrow> nat \<Rightarrow> link \<Rightarrow> link \<Rightarrow> sweeper \<Rightarrow> sweeper option" where
  "sweep_slot run_dtor i prev cur s =
     (case cur of
        None \<Rightarrow> Some s
      | Some a \<Rightarrow>
          (case sweep_candidate run_dtor i prev a s of
             None \<Rightarrow> None
           | Some (prev', s') \<Rightarrow>
               (case prev' of
                  None \<Rightarrow> Some s'
                | Some prev' \<Rightarrow> sweep_slot run_dtor i prev' (hash_next_free_candidate (sw_core s) a) s')))"

partial_function (option) sweep_slots ::
  "(u64 \<Rightarrow> u64 \<Rightarrow> u64 \<Rightarrow> sweeper \<Rightarrow> sweeper option) \<Rightarrow> nat \<Rightarrow> sweeper \<Rightarrow> sweeper option" where
  "sweep_slots run_dtor i s =
     (let t = gc_candidate_values (sw_core s)
      in if i \<le> head_mask t
         then if i < length (heads t)
              then Option.bind (sweep_slot run_dtor i None (heads t ! i) s) (sweep_slots run_dtor (Suc i))
              else None
         else Some s)"

declare sweep_slot.simps [code] sweep_slots.simps [code]

definition next_gc_step :: "sweeper \<Rightarrow> sweeper" where
  "next_gc_step s = set_core ((sw_core s)\<lparr>gc_step_type := gc_step_type (sw_core s) + 1\<rparr>) s"

definition sweep_candidates ::
  "(u64 \<Rightarrow> u64 \<Rightarrow> u64 \<Rightarrow> sweeper \<Rightarrow> sweeper option) \<Rightarrow> sweeper \<Rightarrow> sweeper option" where
  "sweep_candidates run_dtor s =
     (let s = next_gc_step s
      in Option.bind (on_core (stamp_stack (stack_values (sw_core s))) s) (sweep_slots run_dtor 0))"

section \<open>The sweep over all values\<close>

text \<open>
  One value: kept and stamped, or cleared and moved to the list of values to destroy, which is linked through \<open>hash_next\<close>
  like the slots.
\<close>

definition sweep_value ::
  "(u64 \<Rightarrow> u64 \<Rightarrow> u64 \<Rightarrow> sweeper \<Rightarrow> sweeper option) \<Rightarrow> nat \<Rightarrow> link \<Rightarrow> addr \<Rightarrow> link \<times> sweeper \<Rightarrow> (link \<times> link \<times> sweeper) option" where
  "sweep_value run_dtor i prev a ds =
     (let (dlist, s) = ds; c = sw_core s; nxt = hash_next c a
      in if value_step c a = gc_step_type c then Some (Some a, dlist, s)
         else if external_ref_count s a > 0
         then Some (Some a, dlist, set_core (c\<lparr>value_step := (value_step c)(a := gc_step_type c)\<rparr>) s)
         else os_assert (0 \<le> sint (ref_count c a)) (Option.bind (clearValue run_dtor a s) (\<lambda>s.
                let c = sw_core s; t = value_refs c;
                    (hds, nexts) = (case prev of
                        None \<Rightarrow> ((heads t)[i := nxt], hash_next c)
                      | Some p \<Rightarrow> (heads t, (hash_next c)(p := nxt)))
                in Some (prev, Some a,
                     set_core (c\<lparr>value_refs := t\<lparr>heads := hds, count := count t - 1\<rparr>,
                                hash_next := nexts(a := dlist)\<rparr>) s))))"

partial_function (option) sweep_value_slot ::
  "(u64 \<Rightarrow> u64 \<Rightarrow> u64 \<Rightarrow> sweeper \<Rightarrow> sweeper option) \<Rightarrow> nat \<Rightarrow> link \<Rightarrow> link \<Rightarrow> link \<times> sweeper \<Rightarrow> (link \<times> sweeper) option" where
  "sweep_value_slot run_dtor i prev cur ds =
     (case cur of
        None \<Rightarrow> Some ds
      | Some a \<Rightarrow>
          (case sweep_value run_dtor i prev a ds of
             None \<Rightarrow> None
           | Some (prev', ds') \<Rightarrow> sweep_value_slot run_dtor i prev' (hash_next (sw_core (snd ds)) a) ds'))"

partial_function (option) sweep_value_slots ::
  "(u64 \<Rightarrow> u64 \<Rightarrow> u64 \<Rightarrow> sweeper \<Rightarrow> sweeper option) \<Rightarrow> nat \<Rightarrow> link \<times> sweeper \<Rightarrow> (link \<times> sweeper) option" where
  "sweep_value_slots run_dtor i ds =
     (let t = value_refs (sw_core (snd ds))
      in if i \<le> head_mask t
         then if i < length (heads t)
              then Option.bind (sweep_value_slot run_dtor i None (heads t ! i) ds) (sweep_value_slots run_dtor (Suc i))
              else None
         else Some ds)"

partial_function (option) destroy_values :: "link \<Rightarrow> sweeper \<Rightarrow> sweeper option" where
  "destroy_values dlist s =
     (case dlist of
        None \<Rightarrow> Some s
      | Some a \<Rightarrow>
          let c = sw_core s; rest = hash_next c a; s = set_core (c\<lparr>hash_next := (hash_next c)(a := None)\<rparr>) s
          in Option.bind (on_core (unregisterFreeCandidateValue a) s) (\<lambda>s.
             Option.bind (deleteValue a s) (destroy_values rest)))"

declare sweep_value_slot.simps [code] sweep_value_slots.simps [code] destroy_values.simps [code]

definition set_fix :: "bool \<Rightarrow> sweeper \<Rightarrow> sweeper" where
  "set_fix b s = set_core ((sw_core s)\<lparr>gc_fix_in_progress := b\<rparr>) s"

definition sweep_values ::
  "(u64 \<Rightarrow> u64 \<Rightarrow> u64 \<Rightarrow> sweeper \<Rightarrow> sweeper option) \<Rightarrow> sweeper \<Rightarrow> sweeper option" where
  "sweep_values run_dtor s =
     (let save_next_id = next_id (sw_core s) in
      Option.bind (sweep_value_slots run_dtor 0 (None, set_fix True s)) (\<lambda>(dlist, s).
       os_assert (next_id (sw_core s) = save_next_id) (Option.bind (destroy_values dlist s) (\<lambda>s. Some (set_fix False s)))))"

text \<open>The limit is halved while less than half of it is used, in machine integers.\<close>

fun lower_limit :: "nat \<Rightarrow> int \<Rightarrow> int \<Rightarrow> int \<Rightarrow> int" where
  "lower_limit 0 used start limit = limit"
| "lower_limit (Suc n) used start limit =
     (if used < limit div 2 \<and> limit div 2 \<ge> start then lower_limit n used start (limit div 2) else limit)"

text \<open>\<open>gcFreeCandidateValues\<close>; \<open>used_bytes\<close> is \<open>getUsedBytes\<close> of the allocator.\<close>

definition adapt_limit :: "int \<Rightarrow> sweeper \<Rightarrow> sweeper" where
  "adapt_limit used s =
     s\<lparr>gc_next_when_used_bytes :=
        (if used \<ge> gc_next_when_used_bytes s then gc_next_when_used_bytes s * 2
         else lower_limit 32 used (gc_start_when_used_bytes s) (gc_next_when_used_bytes s))\<rparr>"

definition full_collection ::
  "(sweeper \<Rightarrow> int) \<Rightarrow> (u64 \<Rightarrow> u64 \<Rightarrow> u64 \<Rightarrow> sweeper \<Rightarrow> sweeper option) \<Rightarrow> sweeper \<Rightarrow> sweeper option" where
  "full_collection used_bytes run_dtor s =
     Option.bind (mark_phase (sw_gc s)) (\<lambda>g.
     Option.bind (sweep_values run_dtor (set_gc (\<lambda>_. g) s)) (\<lambda>s.
       Some (adapt_limit (used_bytes s) s)))"

definition gcFreeCandidateValues ::
  "(sweeper \<Rightarrow> int) \<Rightarrow> (u64 \<Rightarrow> u64 \<Rightarrow> u64 \<Rightarrow> sweeper \<Rightarrow> sweeper option) \<Rightarrow> bool \<Rightarrow> sweeper \<Rightarrow> sweeper option" where
  "gcFreeCandidateValues used_bytes run_dtor full s =
     (if \<not> full \<and> (num_created_values (sw_core s) + 1) AND 255 \<noteq> 0 then Some s
      else if gc_in_progress (sw_core s) then Some s
      else Option.bind (sweep_candidates run_dtor s) (\<lambda>s.
             if full \<or> used_bytes s \<ge> gc_next_when_used_bytes s then full_collection used_bytes run_dtor s else Some s))"

section \<open>A candidate that gets lost\<close>

text \<open>
  The arrays 1 and 2 are candidates in one slot, and nobody refers to them; the array 1 holds the only reference to the
  array 3, whose identifier belongs to the same slot.
\<close>

definition chain_of_three :: core where
  "chain_of_three = initial_core\<lparr>
     value_id := (\<lambda>_. 0)(1 := 1, 2 := 33, 3 := 65), next_id := 66, ref_count := (\<lambda>_. 0)(3 := 1),
     value_type := (\<lambda>_. OS_VALUE_TYPE_NULL)(1 := OS_VALUE_TYPE_ARRAY, 2 := OS_VALUE_TYPE_ARRAY, 3 := OS_VALUE_TYPE_ARRAY),
     value_prototype := (\<lambda>_. None),
     value_refs := \<lparr>head_mask = 31, heads = (replicate 32 None)[1 := Some 1], count = 3\<rparr>,
     hash_next := [1 \<mapsto> 2, 2 \<mapsto> 3],
     gc_candidate_values := \<lparr>head_mask = 31, heads = (replicate 32 None)[1 := Some 1], count = 2\<rparr>,
     hash_next_free_candidate := [1 \<mapsto> 2], stack_values := []\<rparr>"

definition array_heap :: sweeper where
  "array_heap =
     \<lparr>sw_gc = \<lparr>gc_core = chain_of_three, value_name = \<lambda>_. None, value_table = \<lambda>_. None,
        array_values = (\<lambda>_. [])(1 := [VGC 3]), func_env = \<lambda>_. VNull, func_self = \<lambda>_. VNull, func_locals = \<lambda>_. None,
        table_first = \<lambda>_. None, prop_index = \<lambda>_. VNull, prop_value = \<lambda>_. VNull, prop_next = \<lambda>_. None,
        locals_step = \<lambda>_. 0, locals_is_stack = \<lambda>_. False, locals_vals = \<lambda>_. None, locals_parents = \<lambda>_. [],
        global_vars = VNull, user_pool = VNull, retain_pool = VNull, check_get_recursion = VNull,
        check_set_recursion = VNull, check_valueof_recursion = VNull, terminated_exception = VNull, running_funcs = []\<rparr>,
      external_ref_count = \<lambda>_. 0, locals_ref_count = \<lambda>_. 0, table_last = \<lambda>_. None, prop_prev = \<lambda>_. None,
      sw_destroyed = [], gc_start_when_used_bytes = 1000, gc_next_when_used_bytes = 1000\<rparr>"

lemma one_slot_registry:
  assumes "chain nxt p xs" "\<forall>a \<in> set xs. slot_of key 31 a = 1" "length xs = n" "n \<le> 31" "\<And>a. a \<notin> set xs \<Longrightarrow> nxt a = None"
    and t: "t = \<lparr>head_mask = 31, heads = (replicate 32 None)[1 := p], count = n\<rparr>"
  shows "registry_inv key t nxt" "members t nxt = set xs"
proof -
  let ?css = "(replicate 32 [])[1 := xs]"
  have c: "concat ?css = xs" by (simp add: eval_nat_numeral)
  have "chain nxt (heads t ! i) (?css ! i) \<and> (\<forall>a \<in> set (?css ! i). slot_of key 31 a = i)" if "i < 32" for i
    using that assms(1,2) by (cases "i = 1") (simp_all add: t)
  then have rep: "table_rep key t nxt ?css"
    using assms(3,4) c by (simp add: t table_rep_def chains_rep_def)
  show m: "members t nxt = set xs" using members_rep [OF rep] unfolding c .
  show "registry_inv key t nxt" using rep assms(5) unfolding registry_inv_def table_inv_def m by blast
qed

lemma chain_of_three_registries:
  "registry_inv (value_id chain_of_three) (value_refs chain_of_three) (hash_next chain_of_three)"
  "value_members chain_of_three = {1, 2, 3}" "candidate_inv chain_of_three" "candidate_members chain_of_three = {1, 2}"
proof -
  let ?c = chain_of_three
  have slots: "\<forall>a \<in> set [1, 2, 3]. slot_of (value_id ?c) 31 a = 1" "\<forall>a \<in> set [1, 2]. slot_of (value_id ?c) 31 a = 1"
    by code_simp+
  have chains: "chain (hash_next ?c) (Some 1) [1, 2, 3]" "chain (hash_next_free_candidate ?c) (Some 1) [1, 2]"
    "\<And>a. a \<notin> set [1, 2, 3] \<Longrightarrow> hash_next ?c a = None" "\<And>a. a \<notin> set [1, 2] \<Longrightarrow> hash_next_free_candidate ?c a = None"
    by (simp_all add: chain_of_three_def)
  have t: "value_refs ?c = \<lparr>head_mask = 31, heads = (replicate 32 None)[1 := Some 1], count = 3\<rparr>"
    "gc_candidate_values ?c = \<lparr>head_mask = 31, heads = (replicate 32 None)[1 := Some 1], count = 2\<rparr>"
    by (simp_all add: chain_of_three_def)
  show "registry_inv (value_id ?c) (value_refs ?c) (hash_next ?c)" "value_members ?c = {1, 2, 3}"
    using one_slot_registry [OF chains(1) slots(1) _ _ chains(3) t(1)] by (simp_all add: value_members_def)
  show "candidate_inv ?c" "candidate_members ?c = {1, 2}"
    using one_slot_registry [OF chains(2) slots(2) _ _ chains(4) t(2)] by (simp_all add: candidate_defs)
qed

lemmas chain_of_three_members = chain_of_three_registries(2,4)

lemma chain_of_three_ok: "counts_ok chain_of_three [VGC 3]"
proof -
  have "values_inv chain_of_three"
    unfolding values_inv_def chain_of_three_members
    using chain_of_three_registries(1,3) by (simp add: chain_of_three_def inj_on_def)
  then show ?thesis
    unfolding counts_ok_def chain_of_three_members by (simp add: chain_of_three_def)
qed

text \<open>
  C21: the sweep over the candidates can lose one.  The reference counts of \<open>array_heap\<close> are exact; sweeping destroys the arrays
  1 and 2 as it should, and the array 3 is left with no reference - but not among the candidates, although they count one:
  taking the second array out of the slot overwrites the head, where the array 3 was entered meanwhile.  The next sweep does
  not destroy it either.
\<close>

theorem sweep_loses_candidate:
  "counts_ok (sw_core array_heap) [VGC 3]
   \<and> (\<exists>s s'. sweep_candidates (\<lambda>_ _ _. Some) array_heap = Some s \<and> sw_destroyed s = [2, 1]
        \<and> ref_count (sw_core s) 3 = 0 \<and> values_get 65 (sw_core s) = Some (Some 3)
        \<and> free_candidate_get 65 (sw_core s) = Some None \<and> count (gc_candidate_values (sw_core s)) = 1
        \<and> set (heads (gc_candidate_values (sw_core s))) = {None}
        \<and> sweep_candidates (\<lambda>_ _ _. Some) s = Some s' \<and> sw_destroyed s' = [2, 1])"
proof -
  let ?sweep = "sweep_candidates (\<lambda>_ _ _. Some)"
  have "map_option (\<lambda>s. (sw_destroyed s, ref_count (sw_core s) 3, values_get 65 (sw_core s), free_candidate_get 65 (sw_core s),
      count (gc_candidate_values (sw_core s)), remdups (heads (gc_candidate_values (sw_core s))),
      map_option sw_destroyed (?sweep s))) (?sweep array_heap)
    = Some ([2, 1], 0, Some (Some 3), Some None, 1, [None], Some [2, 1])"
    by code_simp
  then obtain s s' where "?sweep array_heap = Some s" "sw_destroyed s = [2, 1]" "ref_count (sw_core s) 3 = 0"
      "values_get 65 (sw_core s) = Some (Some 3)" "free_candidate_get 65 (sw_core s) = Some None"
      "count (gc_candidate_values (sw_core s)) = 1" "remdups (heads (gc_candidate_values (sw_core s))) = [None]"
      "?sweep s = Some s'" "sw_destroyed s' = [2, 1]"
    by auto
  moreover from this have "set (heads (gc_candidate_values (sw_core s))) = {None}"
    using set_remdups [of "heads (gc_candidate_values (sw_core s))"] by simp
  moreover have "sw_core array_heap = chain_of_three" by (simp add: array_heap_def)
  ultimately show ?thesis using chain_of_three_ok by auto
qed

end
