(* ===== verification/Destroy.thy ===== *)
theory Destroy
  imports Sweep "HOL-Library.Multiset"
begin

text \<open>
  Destroying a candidate (\<open>clearValue\<close>, \<open>unregisterValue\<close>, \<open>deleteValue\<close>) gives back exactly the references that the value
  held, and takes it, and nothing else, out of the values.
\<close>

section \<open>Releasing references\<close>

text \<open>Exact counts, without saying who is a candidate; \<open>freed_into c c'\<close>: values that lost their last reference are.\<close>

definition counts_exact :: "core \<Rightarrow> os_value list \<Rightarrow> bool" where
  "counts_exact c refs \<longleftrightarrow> values_inv c \<and> \<not> gc_fix_in_progress c
     \<and> (\<forall>a. VGC a \<in> set refs \<longrightarrow> a \<in> value_members c)
     \<and> (\<forall>a \<in> value_members c. unat (ref_count c a) = count_list refs (VGC a))"

definition untouched :: "core \<Rightarrow> core" where
  "untouched c = c\<lparr>ref_count := \<lambda>_. 0, gc_candidate_values := empty_table, hash_next_free_candidate := \<lambda>_. None,
     value_step := \<lambda>_. 0\<rparr>"

definition freed_into :: "core \<Rightarrow> core \<Rightarrow> bool" where
  "freed_into c c' \<longleftrightarrow> value_members c' = value_members c \<and> candidate_members c \<subseteq> candidate_members c'
     \<and> (\<forall>a \<in> candidate_members c'. a \<in> candidate_members c \<or> ref_count c' a = 0 \<and> ref_count c a \<noteq> 0)
     \<and> (\<forall>a \<in> value_members c. ref_count c' a = 0 \<longrightarrow> ref_count c a = 0 \<or> a \<in> candidate_members c')
     \<and> (\<forall>a \<in> value_members c. ref_count c a = 0 \<longrightarrow> ref_count c' a = 0)"

lemma freed_into_refl: "freed_into c c"
  by (simp add: freed_into_def)

lemma freed_intoD:
  assumes "freed_into c c'"
  shows "value_members c' = value_members c" "candidate_members c \<subseteq> candidate_members c'"
    "a \<in> candidate_members c' \<Longrightarrow> a \<in> candidate_members c \<or> ref_count c' a = 0 \<and> ref_count c a \<noteq> 0"
    "a \<in> value_members c \<Longrightarrow> ref_count c' a = 0 \<Longrightarrow> ref_count c a = 0 \<or> a \<in> candidate_members c'"
    "a \<in> value_members c \<Longrightarrow> ref_count c a = 0 \<Longrightarrow> ref_count c' a = 0"
  using assms by (simp_all add: freed_into_def)

lemma freed_into_trans:
  assumes 1: "freed_into c c'" and 2: "freed_into c' c''" and sub: "candidate_members c'' \<subseteq> value_members c''"
  shows "freed_into c c''"
proof -
  note m = freed_intoD(1) [OF 1] freed_intoD(1) [OF 2]
  show ?thesis
    unfolding freed_into_def
  proof (intro conjI ballI impI)
    show "value_members c'' = value_members c" using m by simp
    show "candidate_members c \<subseteq> candidate_members c''" using freed_intoD(2) [OF 1] freed_intoD(2) [OF 2] by (rule subset_trans)
    show "a \<in> candidate_members c \<or> ref_count c'' a = 0 \<and> ref_count c a \<noteq> 0" if "a \<in> candidate_members c''" for a
    proof -
      have a: "a \<in> value_members c" using that sub m by blast
      show ?thesis using freed_intoD(3) [OF 2 that] freed_intoD(3) [OF 1, of a] freed_intoD(5) [OF 1 a] freed_intoD(5) [OF 2, of a] a m by metis
    qed
    show "ref_count c a = 0 \<or> a \<in> candidate_members c''" if "a \<in> value_members c" "ref_count c'' a = 0" for a
      using freed_intoD(4) [OF 2, of a] freed_intoD(4) [OF 1, of a] freed_intoD(2) [OF 2] that m by (metis subsetD)
    show "ref_count c'' a = 0" if "a \<in> value_members c" "ref_count c a = 0" for a
      using freed_intoD(5) [OF 2, of a] freed_intoD(5) [OF 1, of a] that m by metis
  qed
qed

lemma untouched_simps [simp]:
  "untouched (c\<lparr>ref_count := r\<rparr>) = untouched c" "untouched (c\<lparr>gc_candidate_values := t\<rparr>) = untouched c"
  "untouched (c\<lparr>hash_next_free_candidate := n\<rparr>) = untouched c" "untouched (c\<lparr>value_step := st\<rparr>) = untouched c"
  by (simp_all add: untouched_def)

lemma addFreeCandidateValue_untouched: "addFreeCandidateValue a c = Some c' \<Longrightarrow> untouched c' = untouched c"
  by (auto simp: addFreeCandidateValue_def registerFreeCandidateValue_def bind_eq_Some_conv os_assert_def split: if_splits)

lemma drop_ref_untouched: "drop_ref a c = Some c' \<Longrightarrow> untouched c' = untouched c"
  by (auto simp: drop_ref_def saveFreeCandidateValue_def Let_def os_assert_def
      dest: addFreeCandidateValue_untouched split: if_splits)

lemma drop_ref_exact:
  assumes ok: "counts_exact c (VGC a # refs)"
  shows "\<exists>c'. drop_ref a c = Some c' \<and> counts_exact c' refs \<and> freed_into c c' \<and> untouched c' = untouched c"
proof -
  have inv: "values_inv c" and a: "a \<in> value_members c" using ok by (auto simp: counts_exact_def)
  have n: "unat (ref_count c a) = count_list refs (VGC a) + 1" using ok a by (simp add: counts_exact_def)
  then have pos: "0 < unat (ref_count c a)" by simp
  obtain c' where c': "drop_ref a c = Some c'" "values_inv c'" "value_members c' = value_members c"
      "ref_count c' = (ref_count c)(a := ref_count c a - 1)"
      "candidate_members c' = candidate_members c \<union> (if ref_count c a = 1 then {a} else {})" "same_objects c c'"
    using drop_ref_inv [OF inv a] by auto
  have one: "unat (ref_count c a - 1) = count_list refs (VGC a)" using unat_minus_1 [OF pos] n by simp
  have "counts_exact c' refs"
    using ok c'(2-4,6) one by (auto simp: counts_exact_def same_objects_def)
  moreover have "untouched c' = untouched c" by (rule drop_ref_untouched [OF c'(1)])
  moreover have "ref_count c a - 1 = 0 \<longleftrightarrow> ref_count c a = 1" "ref_count c a \<noteq> 0" using pos by auto
  ultimately show ?thesis using c' a unfolding freed_into_def by (intro exI [of _ c']) auto
qed

lemma releaseValue_exact:
  assumes ok: "counts_exact c (v # refs)" and len: "length refs < 2 ^ 31 - 1"
  shows "\<exists>c'. releaseValue v c = Some c' \<and> counts_exact c' refs \<and> freed_into c c' \<and> untouched c' = untouched c"
proof (cases v)
  case (VGC a)
  have a: "a \<in> value_members c" and inv: "values_inv c" "\<not> gc_fix_in_progress c"
    using ok VGC by (auto simp: counts_exact_def)
  have n: "unat (ref_count c a) = count_list (v # refs) (VGC a)" using ok a by (simp add: counts_exact_def)
  then have "unat (ref_count c a) < 2 ^ 31" using count_list_le [of "v # refs" "VGC a"] len by simp
  then have "0 < sint (ref_count c a)" using n VGC by (intro sint_pos_small) simp_all
  moreover have "value_id c a \<noteq> 0" using inv a by (simp add: values_inv_def)
  ultimately show ?thesis
    using drop_ref_exact [of c a refs] ok VGC inv by (simp add: releaseValue_def unreachable_in_fix_def os_assert_def)
qed (use ok freed_into_refl [of c] in \<open>auto simp: releaseValue_def counts_exact_def\<close>)

lemma release_link_exact:
  assumes ok: "counts_exact c (map VGC (case p of None \<Rightarrow> [] | Some a \<Rightarrow> [a]) @ refs)" and len: "length refs < 2 ^ 31 - 1"
  shows "\<exists>c'. release_link p c = Some c' \<and> counts_exact c' refs \<and> freed_into c c' \<and> untouched c' = untouched c"
proof (cases p)
  case (Some a)
  have a: "a \<in> value_members c" and nofix: "\<not> gc_fix_in_progress c" using ok Some by (auto simp: counts_exact_def)
  have n: "unat (ref_count c a) = count_list (VGC a # refs) (VGC a)" using ok a Some by (simp add: counts_exact_def)
  then have "unat (ref_count c a) < 2 ^ 31" using count_list_le [of "VGC a # refs" "VGC a"] len by simp
  then have "0 < sint (ref_count c a)" using n by (intro sint_pos_small) simp_all
  then show ?thesis
    using drop_ref_exact [of c a refs] ok Some nofix by (simp add: release_link_def unreachable_in_fix_def os_assert_def)
qed (use ok freed_into_refl [of c] in \<open>simp add: release_link_def\<close>)

lemma counts_exactD: "counts_exact c refs \<Longrightarrow> candidate_members c \<subseteq> value_members c"
  by (simp add: counts_exact_def values_inv_def)

lemma releaseValues_exact:
  assumes "counts_exact c (vs @ refs)" "length vs + length refs < 2 ^ 31"
  shows "\<exists>c'. releaseValues vs c = Some c' \<and> counts_exact c' refs \<and> freed_into c c' \<and> untouched c' = untouched c"
  using assms
proof (induction vs arbitrary: c)
  case Nil
  then show ?case using freed_into_refl by simp
next
  case (Cons v vs)
  obtain c1 where c1: "releaseValue v c = Some c1" "counts_exact c1 (vs @ refs)" "freed_into c c1"
      "untouched c1 = untouched c"
    using releaseValue_exact [of c v "vs @ refs"] Cons.prems by auto
  then show ?case
    using Cons.IH [of c1] Cons.prems(2) freed_into_trans [OF c1(3) _ counts_exactD] by fastforce
qed

lemma counts_exact_mset: "counts_exact c refs \<Longrightarrow> mset refs = mset refs' \<Longrightarrow> counts_exact c refs'"
  unfolding counts_exact_def by (metis count_mset set_mset_mset)

lemma untouchedD:
  assumes "untouched c' = untouched c"
  shows "value_prototype c' = value_prototype c" "value_id c' = value_id c" "value_type c' = value_type c"
    "value_refs c' = value_refs c" "hash_next c' = hash_next c" "gc_fix_in_progress c' = gc_fix_in_progress c"
    "cfunc_closure_values c' = cfunc_closure_values c" "next_id c' = next_id c" "gc_step_type c' = gc_step_type c"
    "stack_values c' = stack_values c" "gc_string_of c' = gc_string_of c"
  using assms by (cases c; cases c'; simp add: untouched_def)+

section \<open>The state of the collector\<close>

lemma set_core_simps [simp]:
  "sw_core (set_core c s) = c" "value_name (sw_gc (set_core c s)) = value_name (sw_gc s)"
  "value_table (sw_gc (set_core c s)) = value_table (sw_gc s)" "array_values (sw_gc (set_core c s)) = array_values (sw_gc s)"
  "func_env (sw_gc (set_core c s)) = func_env (sw_gc s)" "func_self (sw_gc (set_core c s)) = func_self (sw_gc s)"
  "func_locals (sw_gc (set_core c s)) = func_locals (sw_gc s)" "prop_index (sw_gc (set_core c s)) = prop_index (sw_gc s)"
  "prop_value (sw_gc (set_core c s)) = prop_value (sw_gc s)" "locals_is_stack (sw_gc (set_core c s)) = locals_is_stack (sw_gc s)"
  "locals_vals (sw_gc (set_core c s)) = locals_vals (sw_gc s)" "locals_parents (sw_gc (set_core c s)) = locals_parents (sw_gc s)"
  "locals_ref_count (set_core c s) = locals_ref_count s" "table_last (set_core c s) = table_last s"
  "prop_prev (set_core c s) = prop_prev s" "sw_destroyed (set_core c s) = sw_destroyed s"
  by (simp_all add: set_core_def set_gc_def)

lemma set_gc_simps [simp]:
  "sw_gc (set_gc f s) = f (sw_gc s)" "locals_ref_count (set_gc f s) = locals_ref_count s"
  "table_last (set_gc f s) = table_last s" "prop_prev (set_gc f s) = prop_prev s" "sw_destroyed (set_gc f s) = sw_destroyed s"
  by (simp_all add: set_gc_def)

text \<open>What the steps of \<open>clearValue\<close> leave alone.\<close>

definition keeps :: "sweeper \<Rightarrow> sweeper \<Rightarrow> bool" where
  "keeps s s' \<longleftrightarrow> value_id (sw_core s') = value_id (sw_core s) \<and> value_type (sw_core s') = value_type (sw_core s)
     \<and> value_refs (sw_core s') = value_refs (sw_core s) \<and> hash_next (sw_core s') = hash_next (sw_core s)
     \<and> sw_destroyed s' = sw_destroyed s"

definition keeps_tables :: "sweeper \<Rightarrow> sweeper \<Rightarrow> bool" where
  "keeps_tables s s' \<longleftrightarrow> value_table (sw_gc s') = value_table (sw_gc s) \<and> table_last s' = table_last s
     \<and> prop_prev s' = prop_prev s \<and> prop_index (sw_gc s') = prop_index (sw_gc s) \<and> prop_value (sw_gc s') = prop_value (sw_gc s)"

definition keeps_names :: "sweeper \<Rightarrow> sweeper \<Rightarrow> bool" where
  "keeps_names s s' \<longleftrightarrow> value_prototype (sw_core s') = value_prototype (sw_core s) \<and> value_name (sw_gc s') = value_name (sw_gc s)"

lemmas keeps_defs = keeps_def keeps_tables_def keeps_names_def

lemma keeps_release:
  assumes "untouched c = untouched (sw_core s)"
  shows "keeps s (set_core c s)" "keeps_tables s (set_core c s)" "keeps_names s (set_core c s)"
  using untouchedD [OF assms] by (simp_all add: keeps_defs)

text \<open>The step from \<open>s\<close> to \<open>s'\<close> has given back all references but \<open>rest\<close>.\<close>

definition gives_back :: "sweeper \<Rightarrow> sweeper \<Rightarrow> os_value list \<Rightarrow> bool" where
  "gives_back s s' rest \<longleftrightarrow> counts_exact (sw_core s') rest \<and> freed_into (sw_core s) (sw_core s')"

lemma gives_back_trans: "gives_back s s' refs \<Longrightarrow> gives_back s' s'' rest \<Longrightarrow> gives_back s s'' rest"
  unfolding gives_back_def using freed_into_trans [of "sw_core s" "sw_core s'" "sw_core s''"] counts_exactD by blast

lemma on_core_releaseValues:
  assumes "counts_exact (sw_core s) (vs @ rest)" "length (vs @ rest) < 2 ^ 31 - 1"
  shows "\<exists>c'. on_core (releaseValues vs) s = Some (set_core c' s) \<and> gives_back s (set_core c' s) rest
    \<and> untouched c' = untouched (sw_core s)"
  using releaseValues_exact [OF assms(1)] assms(2) by (auto simp: on_core_def gives_back_def)

lemma on_core_releaseValue:
  assumes "counts_exact (sw_core s) (v # rest)" "length (v # rest) < 2 ^ 31 - 1"
  shows "\<exists>c'. on_core (releaseValue v) s = Some (set_core c' s) \<and> gives_back s (set_core c' s) rest
    \<and> untouched c' = untouched (sw_core s)"
  using releaseValue_exact [OF assms(1)] assms(2) by (auto simp: on_core_def gives_back_def)

definition link_refs :: "link \<Rightarrow> os_value list" where
  "link_refs p = (case p of None \<Rightarrow> [] | Some a \<Rightarrow> [VGC a])"

lemma on_core_release_link:
  assumes "counts_exact (sw_core s) (link_refs p @ rest)" "length (link_refs p @ rest) < 2 ^ 31 - 1"
  shows "\<exists>c'. on_core (release_link p) s = Some (set_core c' s) \<and> gives_back s (set_core c' s) rest
    \<and> untouched c' = untouched (sw_core s)"
proof -
  have "link_refs p = map VGC (case p of None \<Rightarrow> [] | Some a \<Rightarrow> [a])" by (cases p) (simp_all add: link_refs_def)
  then show ?thesis
    using release_link_exact [of "sw_core s" p rest] assms by (auto simp: on_core_def gives_back_def)
qed

text \<open>Changes of other fields of the core.\<close>

lemma gives_back_same:
  assumes "counts_exact (sw_core s) rest" "value_id (sw_core s') = value_id (sw_core s)"
    "ref_count (sw_core s') = ref_count (sw_core s)" "value_refs (sw_core s') = value_refs (sw_core s)"
    "hash_next (sw_core s') = hash_next (sw_core s)" "gc_candidate_values (sw_core s') = gc_candidate_values (sw_core s)"
    "hash_next_free_candidate (sw_core s') = hash_next_free_candidate (sw_core s)" "next_id (sw_core s') = next_id (sw_core s)"
    "gc_fix_in_progress (sw_core s') = gc_fix_in_progress (sw_core s)"
  shows "gives_back s s' rest"
  using assms
  by (simp add: gives_back_def counts_exact_def freed_into_def values_inv_def value_members_def candidate_defs)

section \<open>What a value holds\<close>

definition locals_own :: "sweeper \<Rightarrow> addr \<Rightarrow> os_value list" where
  "locals_own s l =
     (if locals_is_stack (sw_gc s) l then []
      else case locals_vals (sw_gc s) l of None \<Rightarrow> [] | Some vs \<Rightarrow> vs)"

text \<open>Locals and their parents: the values that go with the last reference to the first of them.\<close>

fun locals_chain :: "sweeper \<Rightarrow> addr list \<Rightarrow> bool" where
  "locals_chain s [] \<longleftrightarrow> True"
| "locals_chain s (l # ls) \<longleftrightarrow> locals_parents (sw_gc s) l = ls \<and> locals_chain s ls"

fun locals_dropped :: "sweeper \<Rightarrow> addr list \<Rightarrow> os_value list" where
  "locals_dropped s [] = []"
| "locals_dropped s (l # ls) = (if locals_ref_count s l > 1 then [] else locals_dropped s ls @ locals_own s l)"

definition function_held :: "sweeper \<Rightarrow> addr \<Rightarrow> os_value list" where
  "function_held s a =
     (case func_locals (sw_gc s) a of None \<Rightarrow> [] | Some l \<Rightarrow> locals_dropped s (l # locals_parents (sw_gc s) l))
     @ [func_env (sw_gc s) a, func_self (sw_gc s) a]"

definition type_held :: "sweeper \<Rightarrow> addr \<Rightarrow> os_value list" where
  "type_held s a =
     (case value_type (sw_core s) a of
        OS_VALUE_TYPE_ARRAY \<Rightarrow> array_values (sw_gc s) a
      | OS_VALUE_TYPE_CFUNCTION \<Rightarrow> cfunc_closure_values (sw_core s) a
      | OS_VALUE_TYPE_FUNCTION \<Rightarrow> function_held s a
      | _ \<Rightarrow> [])"

definition props_held :: "sweeper \<Rightarrow> addr list \<Rightarrow> os_value list" where
  "props_held s ps = concat (map (\<lambda>q. [prop_index (sw_gc s) q, prop_value (sw_gc s) q]) ps)"

definition table_props :: "sweeper \<Rightarrow> addr \<Rightarrow> addr list \<Rightarrow> bool" where
  "table_props s a ps \<longleftrightarrow>
     (case value_table (sw_gc s) a of None \<Rightarrow> ps = [] | Some t \<Rightarrow> chain (prop_prev s) (table_last s t) ps)"

definition held :: "sweeper \<Rightarrow> addr \<Rightarrow> addr list \<Rightarrow> os_value list" where
  "held s a ps =
     type_held s a @ props_held s ps @ link_refs (value_name (sw_gc s) a) @ link_refs (value_prototype (sw_core s) a)"

text \<open>The registry of the type has the value; user data has no destructor of its own.\<close>

definition clearable :: "sweeper \<Rightarrow> addr \<Rightarrow> bool" where
  "clearable s a \<longleftrightarrow>
     (case value_type (sw_core s) a of
        OS_VALUE_TYPE_BOOL \<Rightarrow> False
      | OS_VALUE_TYPE_NUMBER \<Rightarrow> False
      | OS_VALUE_TYPE_STRING \<Rightarrow> string_inv (sw_core s) \<and> a \<in> string_members (sw_core s)
      | OS_VALUE_TYPE_USERDATA \<Rightarrow> userdata_dtor (sw_core s) a = 0
      | OS_VALUE_TYPE_USERPTR \<Rightarrow> userdata_dtor (sw_core s) a = 0 \<and> userptr_inv (sw_core s)
      | OS_VALUE_TYPE_CFUNCTION \<Rightarrow> cfunc_closure_values (sw_core s) a = [] \<longrightarrow>
          cfunc_inv (sw_core s) \<and> a \<in> cfunc_members (sw_core s)
      | OS_VALUE_TYPE_FUNCTION \<Rightarrow>
          (case func_locals (sw_gc s) a of None \<Rightarrow> True | Some l \<Rightarrow> locals_chain s (l # locals_parents (sw_gc s) l))
      | _ \<Rightarrow> True)"

section \<open>Clearing a value\<close>

text \<open>Releasing locals reads and writes no more than their counts and the core.\<close>

lemma parents_not_self: "locals_chain s ls \<Longrightarrow> locals_parents (sw_gc s) l = ls \<Longrightarrow> l \<notin> set ls"
proof -
  have "l \<in> set ks \<Longrightarrow> locals_chain s ks \<Longrightarrow> length (locals_parents (sw_gc s) l) < length ks" for ks
    by (induction ks) auto
  then show "locals_chain s ls \<Longrightarrow> locals_parents (sw_gc s) l = ls \<Longrightarrow> l \<notin> set ls" by blast
qed

lemma locals_dropped_cong:
  assumes "\<And>l. l \<in> set ls \<Longrightarrow> locals_ref_count s' l = locals_ref_count s l"
    "locals_is_stack (sw_gc s') = locals_is_stack (sw_gc s)" "locals_vals (sw_gc s') = locals_vals (sw_gc s)"
  shows "locals_dropped s' ls = locals_dropped s ls"
  using assms by (induction ls) (simp_all add: locals_own_def)

lemma locals_chain_cong:
  "locals_parents (sw_gc s') = locals_parents (sw_gc s) \<Longrightarrow> locals_chain s' ls = locals_chain s ls"
  by (induction ls) simp_all

lemma set_core_same [simp]: "set_core (sw_core s) s = s"
  by (simp add: set_core_def set_gc_def)

lemma free_locals_values_run:
  assumes "counts_exact (sw_core s) (locals_own s l @ rest)" "length (locals_own s l @ rest) < 2 ^ 31 - 1"
  shows "\<exists>c. free_locals_values l s = Some (set_core c s) \<and> counts_exact c rest
    \<and> freed_into (sw_core s) c \<and> untouched c = untouched (sw_core s)"
proof (cases "locals_is_stack (sw_gc s) l \<or> locals_vals (sw_gc s) l = None")
  case True
  then show ?thesis
    using assms freed_into_refl by (intro exI [of _ "sw_core s"]) (auto simp: free_locals_values_def locals_own_def)
next
  case False
  then show ?thesis
    using assms on_core_releaseValues [of s "locals_own s l" rest]
    by (auto simp: free_locals_values_def locals_own_def gives_back_def)
qed

lemma release_locals_run:
  assumes "locals_chain s (l # ls)" "counts_exact (sw_core s) (locals_dropped s (l # ls) @ rest)"
    "length (locals_dropped s (l # ls) @ rest) < 2 ^ 31 - 1"
  shows "\<exists>c n. release_locals l s = Some (set_core c (s\<lparr>locals_ref_count := n\<rparr>)) \<and> counts_exact c rest
    \<and> freed_into (sw_core s) c \<and> untouched c = untouched (sw_core s)"
  using assms
proof (induction ls arbitrary: l s rest)
  case (Nil l s rest)
  let ?s = "s\<lparr>locals_ref_count := (locals_ref_count s)(l := locals_ref_count s l - 1)\<rparr>"
  have own: "locals_own ?s l = locals_own s l" by (simp add: locals_own_def)
  show ?case
  proof (cases "locals_ref_count s l > 1")
    case True
    then have "release_locals l s = Some (set_core (sw_core s) ?s)"
      by (simp add: release_locals.simps [of l] set_core_def set_gc_def)
    then show ?thesis using Nil.prems(2) True freed_into_refl by auto
  next
    case False
    then have "release_locals l s = free_locals_values l ?s"
      using Nil.prems(1) by (simp add: release_locals.simps [of l])
    then show ?thesis
      using free_locals_values_run [of ?s l rest] Nil.prems(2,3) False own by auto
  qed
next
  case (Cons p ls)
  let ?s = "s\<lparr>locals_ref_count := (locals_ref_count s)(l := locals_ref_count s l - 1)\<rparr>"
  show ?case
  proof (cases "locals_ref_count s l > 1")
    case True
    then have "release_locals l s = Some (set_core (sw_core s) ?s)"
      by (simp add: release_locals.simps [of l] set_core_def set_gc_def)
    then show ?thesis using Cons.prems(2) True freed_into_refl by auto
  next
    case False
    have notin: "l \<notin> set (p # ls)" using parents_not_self [of s "p # ls" l] Cons.prems(1) by simp
    have drop: "locals_dropped ?s (p # ls) = locals_dropped s (p # ls)"
      by (rule locals_dropped_cong) (use notin in auto)
    have all: "locals_dropped s (l # p # ls) = locals_dropped s (p # ls) @ locals_own s l" using False by simp
    have "locals_chain ?s (p # ls)" using Cons.prems(1) locals_chain_cong [of ?s s "p # ls"] by simp
    then obtain c n where c: "release_locals p ?s = Some (set_core c (?s\<lparr>locals_ref_count := n\<rparr>))"
        "counts_exact c (locals_own s l @ rest)" "freed_into (sw_core s) c" "untouched c = untouched (sw_core s)"
      using Cons.IH [of ?s p "locals_own s l @ rest"] Cons.prems(2,3) drop unfolding all by auto
    let ?t = "set_core c (?s\<lparr>locals_ref_count := n\<rparr>)"
    have own: "locals_own ?t l = locals_own s l" by (simp add: locals_own_def)
    have "length (locals_own s l @ rest) < 2 ^ 31 - 1" using Cons.prems(3) unfolding all by simp
    then obtain c' where c': "free_locals_values l ?t = Some (set_core c' ?t)" "counts_exact c' rest"
        "freed_into c c'" "untouched c' = untouched c"
      using free_locals_values_run [of ?t l rest] c(2) own by auto
    have "release_locals l s = Some (set_core c' ?t)"
      using False Cons.prems(1) c(1) c'(1) by (simp add: release_locals.simps [of l])
    moreover have "set_core c' ?t = set_core c' (s\<lparr>locals_ref_count := n\<rparr>)" by (simp add: set_core_def set_gc_def)
    ultimately show ?thesis
      using c(4) c'(2,4) freed_into_trans [OF c(3) c'(3) counts_exactD [OF c'(2)]] by auto
  qed
qed

lemma clear_array_run:
  assumes "counts_exact (sw_core s) (array_values (sw_gc s) a @ rest)" "length (array_values (sw_gc s) a @ rest) < 2 ^ 31 - 1"
  shows "\<exists>s'. clear_array a s = Some s' \<and> gives_back s s' rest \<and> keeps s s' \<and> keeps_tables s s' \<and> keeps_names s s'"
proof -
  obtain c where c: "on_core (releaseValues (array_values (sw_gc s) a)) s = Some (set_core c s)"
      "gives_back s (set_core c s) rest" "untouched c = untouched (sw_core s)"
    using on_core_releaseValues [OF assms] by blast
  then show ?thesis
    using keeps_release [OF c(3)] by (simp add: clear_array_def gives_back_def keeps_defs)
qed

lemma clear_cfunction_run:
  assumes "counts_exact (sw_core s) (cfunc_closure_values (sw_core s) a @ rest)"
    "length (cfunc_closure_values (sw_core s) a @ rest) < 2 ^ 31 - 1"
    and reg: "cfunc_closure_values (sw_core s) a = [] \<Longrightarrow> cfunc_inv (sw_core s) \<and> a \<in> cfunc_members (sw_core s)"
  shows "\<exists>s'. clear_cfunction a s = Some s' \<and> gives_back s s' rest \<and> keeps s s' \<and> keeps_tables s s' \<and> keeps_names s s'"
proof (cases "cfunc_closure_values (sw_core s) a = []")
  case True
  then obtain c where "unregisterCFuncRef a (sw_core s) = Some c" using reg cfns.unregister [of "sw_core s" a] by blast
  then obtain t n where "unregisterCFuncRef a (sw_core s) = Some ((sw_core s)\<lparr>cfunc_refs := t, cfunc_next_ref := n\<rparr>)"
    by (auto simp: unregisterCFuncRef_def bind_eq_Some_conv os_assert_def split: if_splits)
  then show ?thesis
    using assms(1) True by (auto simp: clear_cfunction_def on_core_def Let_def keeps_defs intro!: gives_back_same)
next
  case False
  obtain c where c: "on_core (releaseValues (cfunc_closure_values (sw_core s) a)) s = Some (set_core c s)"
      "gives_back s (set_core c s) rest" "untouched c = untouched (sw_core s)"
    using on_core_releaseValues [OF assms(1,2)] by blast
  let ?c = "c\<lparr>cfunc_func := (cfunc_func c)(a := 0), cfunc_user_param := (cfunc_user_param c)(a := 0),
      cfunc_closure_values := (cfunc_closure_values c)(a := [])\<rparr>"
  have "gives_back (set_core c s) (set_core ?c (set_core c s)) rest"
    by (rule gives_back_same) (use c(2) in \<open>simp_all add: gives_back_def\<close>)
  then show ?thesis
    using c False keeps_release [OF c(3)] gives_back_trans [OF c(2)] by (simp add: clear_cfunction_def Let_def keeps_defs)
qed

lemma clear_function_run:
  assumes "counts_exact (sw_core s) (function_held s a @ rest)" "length (function_held s a @ rest) < 2 ^ 31 - 1"
    and chain: "\<And>l. func_locals (sw_gc s) a = Some l \<Longrightarrow> locals_chain s (l # locals_parents (sw_gc s) l)"
  shows "\<exists>s'. clear_function a s = Some s' \<and> gives_back s s' rest \<and> keeps s s' \<and> keeps_tables s s' \<and> keeps_names s s'"
proof -
  let ?more = "[func_env (sw_gc s) a, func_self (sw_gc s) a] @ rest"
  obtain s1 where s1: "(case func_locals (sw_gc s) a of None \<Rightarrow> Some s
        | Some l \<Rightarrow> Option.bind (release_locals l s) (\<lambda>s.
            Some (set_gc (\<lambda>g. g\<lparr>func_locals := (func_locals g)(a := None)\<rparr>) s))) = Some s1"
      "gives_back s s1 ?more" "keeps s s1" "keeps_tables s s1" "keeps_names s s1"
      "func_env (sw_gc s1) = func_env (sw_gc s)" "func_self (sw_gc s1) = func_self (sw_gc s)"
  proof (cases "func_locals (sw_gc s) a")
    case None
    then show thesis using that [of s] assms(1) freed_into_refl by (simp add: gives_back_def keeps_defs function_held_def)
  next
    case (Some l)
    obtain c n where c: "release_locals l s = Some (set_core c (s\<lparr>locals_ref_count := n\<rparr>))" "counts_exact c ?more"
        "freed_into (sw_core s) c" "untouched c = untouched (sw_core s)"
      using release_locals_run [OF chain [OF Some], of ?more] assms(1,2) Some by (auto simp: function_held_def)
    then show thesis
      using that [of "set_gc (\<lambda>g. g\<lparr>func_locals := (func_locals g)(a := None)\<rparr>) (set_core c (s\<lparr>locals_ref_count := n\<rparr>))"]
        Some untouchedD [OF c(4)] by (simp add: gives_back_def keeps_defs)
  qed
  have len: "length ?more < 2 ^ 31 - 1" "length (func_self (sw_gc s) a # rest) < 2 ^ 31 - 1"
    using assms(2) by (simp_all add: function_held_def)
  obtain c2 where c2: "on_core (releaseValue (func_env (sw_gc s1) a)) s1 = Some (set_core c2 s1)"
      "gives_back s1 (set_core c2 s1) (func_self (sw_gc s) a # rest)" "untouched c2 = untouched (sw_core s1)"
    using on_core_releaseValue [of s1 "func_env (sw_gc s) a" "func_self (sw_gc s) a # rest"] s1(2,6) len
    by (auto simp: gives_back_def)
  let ?s2 = "set_gc (\<lambda>g. g\<lparr>func_env := (func_env g)(a := VNull)\<rparr>) (set_core c2 s1)"
  obtain c3 where c3: "on_core (releaseValue (func_self (sw_gc ?s2) a)) ?s2 = Some (set_core c3 ?s2)"
      "gives_back ?s2 (set_core c3 ?s2) rest" "untouched c3 = untouched c2"
    using on_core_releaseValue [of ?s2 "func_self (sw_gc s) a" rest] c2(2) s1(7) len by (auto simp: gives_back_def)
  let ?s3 = "set_gc (\<lambda>g. g\<lparr>func_self := (func_self g)(a := VNull)\<rparr>) (set_core c3 ?s2)"
  have "clear_function a s = Some ?s3" using s1(1) c2(1) c3(1) by (simp add: clear_function_def Let_def)
  moreover have "gives_back s ?s3 rest"
    using gives_back_trans [OF s1(2) gives_back_trans [OF c2(2), of ?s3 rest]] c3(2) by (simp add: gives_back_def)
  moreover have "keeps s ?s3" "keeps_tables s ?s3" "keeps_names s ?s3"
    using s1(3-5) untouchedD [OF c2(3)] untouchedD [OF c3(3)] by (simp_all add: keeps_defs)
  ultimately show ?thesis by blast
qed

lemma unregisterUserptrRef_ptr_run:
  assumes inv: "userptr_inv c" and t: "userptr_refs c' = userptr_refs c" "userptr_next_ref c' = userptr_next_ref c"
  shows "\<exists>t n. unregisterUserptrRef_ptr ptr vid c' = Some (c'\<lparr>userptr_refs := t, userptr_next_ref := n\<rparr>)"
proof (cases "chain_table.count (userptr_refs c) > 0")
  case True
  note reg = inv [unfolded userptr_inv_def]
  have "members (userptr_refs c) (userptr_next_ref c) \<noteq> {}" using True registry_count [OF reg] by auto
  then have hds: "heads (userptr_refs c) \<noteq> []" by (auto simp: members_def)
  have "chain_table.count (userptr_refs c) \<le> head_mask (userptr_refs c)"
    using reg by (auto simp: registry_inv_def table_inv_def table_rep_def)
  then have mask: "head_mask (userptr_refs c) \<noteq> 0" using True by simp
  let ?i = "hash_slot (OS_PTR_HASH ptr) (head_mask (userptr_refs c))"
  obtain r where r: "find_in_slot (\<lambda>cur. value_id c' cur = vid) (userptr_refs c) (userptr_next_ref c) ?i = Some r"
    using find_in_slot_set [OF reg registry_heads(2) [OF reg hds], of "\<lambda>cur. value_id c' cur = vid"] by blast
  show ?thesis
  proof (cases r)
    case None
    then show ?thesis using r True hds mask t
      by (intro exI [of _ "userptr_refs c'"] exI [of _ "userptr_next_ref c'"])
        (simp add: unregisterUserptrRef_ptr_def remove_node_def os_assert_def)
  next
    case (Some pc)
    then show ?thesis using r True hds mask t
      by (auto simp: unregisterUserptrRef_ptr_def remove_node_def os_assert_def Let_def split: prod.splits)
  qed
next
  case False
  then show ?thesis using t by (intro exI [of _ "userptr_refs c'"] exI [of _ "userptr_next_ref c'"])
      (simp add: unregisterUserptrRef_ptr_def)
qed

lemma clear_userdata_run:
  assumes ok: "counts_exact (sw_core s) rest" and dtor: "userdata_dtor (sw_core s) a = 0"
    and reg: "value_type (sw_core s) a = OS_VALUE_TYPE_USERPTR \<Longrightarrow> userptr_inv (sw_core s)"
  shows "\<exists>s'. clear_userdata run_dtor a s = Some s' \<and> gives_back s s' rest \<and> keeps s s' \<and> keeps_tables s s' \<and> keeps_names s s'"
proof -
  let ?c = "(sw_core s)\<lparr>userdata_ptr := (userdata_ptr (sw_core s))(a := 0), userdata_crc := (userdata_crc (sw_core s))(a := 0),
      userdata_dtor := (userdata_dtor (sw_core s))(a := 0)\<rparr>"
  have "gives_back s (set_core ?c s) rest" by (rule gives_back_same [OF ok]) simp_all
  show ?thesis
  proof (cases "value_type (sw_core s) a = OS_VALUE_TYPE_USERPTR")
    case True
    obtain t n where u: "unregisterUserptrRef_ptr (userdata_ptr (sw_core s) a) (value_id (sw_core s) a) ?c
        = Some (?c\<lparr>userptr_refs := t, userptr_next_ref := n\<rparr>)"
      using unregisterUserptrRef_ptr_run [OF reg [OF True], of ?c "userdata_ptr (sw_core s) a" "value_id (sw_core s) a"] by auto
    let ?s = "set_core (?c\<lparr>userptr_refs := t, userptr_next_ref := n\<rparr>) (set_core ?c s)"
    have "clear_userdata run_dtor a s = Some ?s"
      using True dtor u by (simp add: clear_userdata_def on_core_def Let_def)
    moreover have "gives_back s ?s rest" by (rule gives_back_same [OF ok]) simp_all
    ultimately show ?thesis by (simp add: keeps_defs)
  next
    case False
    then have "clear_userdata run_dtor a s = Some (set_core ?c s)" using dtor by (simp add: clear_userdata_def Let_def)
    then show ?thesis using \<open>gives_back s (set_core ?c s) rest\<close> by (simp add: keeps_defs)
  qed
qed

lemma clear_string_run:
  assumes ok: "counts_exact (sw_core s) rest" and reg: "string_inv (sw_core s)" "a \<in> string_members (sw_core s)"
  shows "\<exists>s'. on_core (unregisterStringRef a) s = Some s' \<and> gives_back s s' rest \<and> keeps s s' \<and> keeps_tables s s' \<and> keeps_names s s'"
proof -
  obtain c where "unregisterStringRef a (sw_core s) = Some c" using strs.unregister [OF reg] by blast
  then obtain t n where "unregisterStringRef a (sw_core s) = Some ((sw_core s)\<lparr>string_refs := t, string_next_ref := n\<rparr>)"
    by (auto simp: unregisterStringRef_def bind_eq_Some_conv os_assert_def split: if_splits)
  then show ?thesis using ok by (auto simp: on_core_def keeps_defs intro!: gives_back_same)
qed

lemma clear_name_prototype_run:
  assumes "counts_exact (sw_core s) (link_refs (value_name (sw_gc s) a) @ link_refs (value_prototype (sw_core s) a) @ rest)"
    "length (link_refs (value_name (sw_gc s) a) @ link_refs (value_prototype (sw_core s) a) @ rest) < 2 ^ 31 - 1"
  shows "\<exists>s'. clear_name_prototype a s = Some s' \<and> gives_back s s' rest \<and> keeps s s' \<and> keeps_tables s s'
    \<and> value_name (sw_gc s') = (value_name (sw_gc s))(a := None)
    \<and> value_prototype (sw_core s') = (value_prototype (sw_core s))(a := None)"
proof -
  obtain c where c: "on_core (release_link (value_name (sw_gc s) a)) s = Some (set_core c s)"
      "gives_back s (set_core c s) (link_refs (value_prototype (sw_core s) a) @ rest)" "untouched c = untouched (sw_core s)"
    using on_core_release_link [OF assms] by blast
  let ?s1 = "set_gc (\<lambda>g. g\<lparr>value_name := (value_name g)(a := None)\<rparr>) (set_core c s)"
  note same = untouchedD [OF c(3)]
  have "length (link_refs (value_prototype (sw_core s) a) @ rest) < 2 ^ 31 - 1" using assms(2) by simp
  then obtain d where d: "on_core (release_link (value_prototype (sw_core ?s1) a)) ?s1 = Some (set_core d ?s1)"
      "gives_back ?s1 (set_core d ?s1) rest" "untouched d = untouched c"
    using on_core_release_link [of ?s1 "value_prototype (sw_core s) a" rest] c(2) same(1) by (auto simp: gives_back_def)
  let ?s2 = "set_core (d\<lparr>value_prototype := (value_prototype d)(a := None)\<rparr>) (set_core d ?s1)"
  have "clear_name_prototype a s = Some ?s2" using c(1) d(1) by (simp add: clear_name_prototype_def Let_def)
  moreover have "gives_back (set_core d ?s1) ?s2 rest"
    by (rule gives_back_same) (use d(2) in \<open>simp_all add: gives_back_def\<close>)
  then have "gives_back s ?s2 rest"
    using gives_back_trans [OF c(2), of ?s2 rest] gives_back_trans [OF d(2), of ?s2 rest] by (simp add: gives_back_def)
  moreover have "keeps s ?s2" "keeps_tables s ?s2" using same untouchedD [OF d(3)] by (simp_all add: keeps_defs)
  ultimately show ?thesis using same(1) untouchedD(1) [OF d(3)] by simp
qed

lemma clear_table_props_run:
  assumes "chain (prop_prev s) p ps" "counts_exact (sw_core s) (props_held s ps @ rest)"
    "length (props_held s ps @ rest) < 2 ^ 31 - 1"
  shows "\<exists>s'. clear_table_props p s = Some s' \<and> gives_back s s' rest \<and> keeps s s' \<and> keeps_names s s'
    \<and> value_table (sw_gc s') = value_table (sw_gc s)"
  using assms
proof (induction ps arbitrary: p s)
  case Nil
  then show ?case using freed_into_refl by (simp add: clear_table_props.simps gives_back_def keeps_defs props_held_def)
next
  case (Cons q ps)
  let ?s = "set_gc (\<lambda>g. g\<lparr>prop_next := (prop_next g)(q := None)\<rparr>) (s\<lparr>prop_prev := (prop_prev s)(q := None)\<rparr>)"
  let ?i = "prop_index (sw_gc s) q" and ?v = "prop_value (sw_gc s) q"
  have p: "p = Some q" and ch: "chain (prop_prev s) (prop_prev s q) ps" using Cons.prems(1) by simp_all
  have "q \<notin> set ps" using chain_distinct [OF Cons.prems(1)] by simp
  then have ch': "chain (prop_prev ?s) (prop_prev s q) ps" using ch by simp
  have refs: "props_held s (q # ps) @ rest = ?i # ?v # props_held s ps @ rest" by (simp add: props_held_def)
  obtain c where c: "on_core (releaseValue ?i) ?s = Some (set_core c ?s)"
      "gives_back ?s (set_core c ?s) (?v # props_held s ps @ rest)" "untouched c = untouched (sw_core ?s)"
    using on_core_releaseValue [of ?s ?i "?v # props_held s ps @ rest"] Cons.prems(2,3) unfolding refs by auto
  let ?s1 = "set_core c ?s"
  obtain d where d: "on_core (releaseValue ?v) ?s1 = Some (set_core d ?s1)"
      "gives_back ?s1 (set_core d ?s1) (props_held s ps @ rest)" "untouched d = untouched (sw_core ?s1)"
    using on_core_releaseValue [of ?s1 ?v "props_held s ps @ rest"] c(2) Cons.prems(3) unfolding refs by (auto simp: gives_back_def)
  let ?s2 = "set_core d ?s1"
  have held: "props_held ?s2 ps = props_held s ps" by (simp add: props_held_def)
  obtain s' where s': "clear_table_props (prop_prev s q) ?s2 = Some s'" "gives_back ?s2 s' rest" "keeps ?s2 s'"
      "keeps_names ?s2 s'" "value_table (sw_gc s') = value_table (sw_gc ?s2)"
  proof -
    have "chain (prop_prev ?s2) (prop_prev s q) ps" using ch' by simp
    moreover have "counts_exact (sw_core ?s2) (props_held ?s2 ps @ rest)" using d(2) held by (simp add: gives_back_def)
    moreover have "length (props_held ?s2 ps @ rest) < 2 ^ 31 - 1" using Cons.prems(3) held unfolding refs by simp
    ultimately show thesis using that Cons.IH by blast
  qed
  have "clear_table_props p s = Some s'"
    using p c(1) d(1) s'(1) by (simp add: clear_table_props.simps [of "Some q"] Let_def)
  moreover have "gives_back s s' rest"
    using gives_back_trans [OF c(2) gives_back_trans [OF d(2) s'(2)]] by (simp add: gives_back_def)
  moreover have "keeps s s'" "keeps_names s s'"
    using s'(3,4) untouchedD [OF c(3)] untouchedD [OF d(3)] by (simp_all add: keeps_defs)
  ultimately show ?case using s'(5) by auto
qed

lemma clear_table_of_run:
  assumes "table_props s a ps" "counts_exact (sw_core s) (props_held s ps @ rest)" "length (props_held s ps @ rest) < 2 ^ 31 - 1"
  shows "\<exists>s'. clear_table_of a s = Some s' \<and> gives_back s s' rest \<and> keeps s s' \<and> keeps_names s s'
    \<and> value_table (sw_gc s') = (value_table (sw_gc s))(a := None)"
proof (cases "value_table (sw_gc s) a")
  case None
  then have "(value_table (sw_gc s))(a := None) = value_table (sw_gc s)" by auto
  then show ?thesis
    using None assms freed_into_refl by (simp add: clear_table_of_def table_props_def props_held_def gives_back_def keeps_defs)
next
  case (Some t)
  let ?s1 = "set_gc (\<lambda>g. g\<lparr>value_table := (value_table g)(a := None)\<rparr>) s"
  let ?s = "set_gc (\<lambda>g. g\<lparr>table_first := (table_first g)(t := None)\<rparr>) (?s1\<lparr>table_last := (table_last ?s1)(t := None)\<rparr>)"
  have held: "props_held ?s ps = props_held s ps" by (simp add: props_held_def)
  have "chain (prop_prev ?s) (table_last s t) ps" using assms(1) Some by (simp add: table_props_def)
  then obtain s' where s': "clear_table_props (table_last s t) ?s = Some s'" "gives_back ?s s' rest" "keeps ?s s'"
      "keeps_names ?s s'" "value_table (sw_gc s') = value_table (sw_gc ?s)"
    using clear_table_props_run [of ?s "table_last s t" ps rest] assms(2,3) held by auto
  then show ?thesis using Some by (simp add: clear_table_of_def delete_table_def Let_def gives_back_def keeps_defs)
qed

text \<open>
  \<open>clear_by_type\<close>; for a function the name and the prototype go at the same time.
\<close>

definition names_held :: "sweeper \<Rightarrow> addr \<Rightarrow> os_value list" where
  "names_held s a = link_refs (value_name (sw_gc s) a) @ link_refs (value_prototype (sw_core s) a)"

lemma clear_by_type_run:
  assumes clr: "clearable s a" and ok: "counts_exact (sw_core s) (type_held s a @ names_held s a @ rest)"
    and len: "length (type_held s a @ names_held s a @ rest) < 2 ^ 31 - 1"
  shows "\<exists>s'. clear_by_type run_dtor a s = Some s' \<and> gives_back s s' (names_held s' a @ rest) \<and> keeps s s' \<and> keeps_tables s s'
    \<and> (\<forall>b. b \<noteq> a \<longrightarrow> names_held s' b = names_held s b) \<and> length (names_held s' a) \<le> length (names_held s a)"
proof -
  let ?ok = "\<lambda>s'. clear_by_type run_dtor a s = Some s' \<and> gives_back s s' (names_held s a @ rest)
    \<and> keeps s s' \<and> keeps_tables s s' \<and> keeps_names s s'"
  have done_: ?thesis if "\<exists>s'. ?ok s'"
    using that by (auto simp: names_held_def keeps_names_def)
  have nil: "type_held s a = [] \<Longrightarrow> counts_exact (sw_core s) (names_held s a @ rest)" using ok by simp
  show ?thesis
  proof (cases "value_type (sw_core s) a")
    case OS_VALUE_TYPE_ARRAY
    then show ?thesis
      using clear_array_run [of s a "names_held s a @ rest"] ok len by (intro done_) (simp add: clear_by_type_def type_held_def)
  next
    case OS_VALUE_TYPE_CFUNCTION
    then show ?thesis
      using clear_cfunction_run [of s a "names_held s a @ rest"] ok len clr
      by (intro done_) (simp add: clear_by_type_def type_held_def clearable_def)
  next
    case OS_VALUE_TYPE_STRING
    then show ?thesis
      using clear_string_run [of s "names_held s a @ rest" a] ok clr
      by (intro done_) (simp add: clear_by_type_def type_held_def clearable_def)
  next
    case OS_VALUE_TYPE_USERDATA
    then show ?thesis
      using clear_userdata_run [of s "names_held s a @ rest" a run_dtor] ok clr
      by (intro done_) (simp add: clear_by_type_def type_held_def clearable_def)
  next
    case OS_VALUE_TYPE_USERPTR
    then show ?thesis
      using clear_userdata_run [of s "names_held s a @ rest" a run_dtor] ok clr
      by (intro done_) (simp add: clear_by_type_def type_held_def clearable_def)
  next
    case OS_VALUE_TYPE_FUNCTION
    have held: "type_held s a = function_held s a" using OS_VALUE_TYPE_FUNCTION by (simp add: type_held_def)
    obtain s1 where s1: "clear_function a s = Some s1" "gives_back s s1 (names_held s a @ rest)" "keeps s s1"
        "keeps_tables s s1" "keeps_names s s1"
    proof -
      have "locals_chain s (l # locals_parents (sw_gc s) l)" if "func_locals (sw_gc s) a = Some l" for l
        using clr that OS_VALUE_TYPE_FUNCTION unfolding clearable_def by simp
      then show thesis
        using that clear_function_run [of s a "names_held s a @ rest"] ok len unfolding held by blast
    qed
    have names: "names_held s1 b = names_held s b" for b using s1(5) by (simp add: names_held_def keeps_names_def)
    have "counts_exact (sw_core s1) (names_held s1 a @ rest)" "length (names_held s1 a @ rest) < 2 ^ 31 - 1"
      using s1(2) len names by (simp_all add: gives_back_def)
    then obtain s2 where s2: "clear_name_prototype a s1 = Some s2" "gives_back s1 s2 rest" "keeps s1 s2" "keeps_tables s1 s2"
        "value_name (sw_gc s2) = (value_name (sw_gc s1))(a := None)"
        "value_prototype (sw_core s2) = (value_prototype (sw_core s1))(a := None)"
      using clear_name_prototype_run [of s1 a rest] by (auto simp: names_held_def)
    have "names_held s2 a = []" "b \<noteq> a \<Longrightarrow> names_held s2 b = names_held s b" for b
      using s2(5,6) names [of b] by (simp_all add: names_held_def link_refs_def)
    then show ?thesis
      using s1 s2 OS_VALUE_TYPE_FUNCTION gives_back_trans [OF s1(2) s2(2)]
      by (auto simp: clear_by_type_def keeps_defs)
  next
    case OS_VALUE_TYPE_NULL
    then show ?thesis using nil freed_into_refl
      by (intro done_) (simp add: clear_by_type_def type_held_def gives_back_def keeps_defs)
  next
    case OS_VALUE_TYPE_OBJECT
    then show ?thesis using nil freed_into_refl
      by (intro done_) (simp add: clear_by_type_def type_held_def gives_back_def keeps_defs)
  qed (use clr in \<open>simp_all add: clearable_def\<close>)
qed

lemma clearValue_run:
  assumes id: "value_id (sw_core s) a \<noteq> 0" and clr: "clearable s a" and props: "table_props s a ps"
    and ok: "counts_exact (sw_core s) (held s a ps @ rest)" and len: "length (held s a ps @ rest) < 2 ^ 31 - 1"
  shows "\<exists>s'. clearValue run_dtor a s = Some s' \<and> gives_back s s' rest
    \<and> value_id (sw_core s') = value_id (sw_core s) \<and> value_refs (sw_core s') = value_refs (sw_core s)
    \<and> hash_next (sw_core s') = hash_next (sw_core s) \<and> sw_destroyed s' = sw_destroyed s
    \<and> value_type (sw_core s') = (value_type (sw_core s))(a := OS_VALUE_TYPE_NULL)
    \<and> (\<forall>b. b \<noteq> a \<longrightarrow> names_held s' b = names_held s b)"
proof -
  have all: "mset (held s a ps @ rest) = mset (type_held s a @ names_held s a @ props_held s ps @ rest)"
    by (simp add: held_def names_held_def)
  have "counts_exact (sw_core s) (type_held s a @ names_held s a @ props_held s ps @ rest)"
    by (rule counts_exact_mset [OF ok all])
  moreover have "length (type_held s a @ names_held s a @ props_held s ps @ rest) < 2 ^ 31 - 1"
    using len arg_cong [OF all, of size] by (simp del: mset_append)
  ultimately obtain s1 where s1: "clear_by_type run_dtor a s = Some s1" "gives_back s s1 (names_held s1 a @ props_held s ps @ rest)"
      "keeps s s1" "keeps_tables s s1" "\<And>b. b \<noteq> a \<Longrightarrow> names_held s1 b = names_held s b"
      "length (names_held s1 a) \<le> length (names_held s a)"
    using clear_by_type_run [OF clr] by blast
  have held1: "props_held s1 ps = props_held s ps" "table_props s1 a ps"
    using s1(4) props by (simp_all add: props_held_def table_props_def keeps_tables_def cong: option.case_cong)
  have "counts_exact (sw_core s1) (props_held s1 ps @ names_held s1 a @ rest)"
    using counts_exact_mset [of "sw_core s1" "names_held s1 a @ props_held s ps @ rest"] s1(2) held1(1)
    by (simp add: gives_back_def)
  moreover have len1: "length (props_held s1 ps @ names_held s1 a @ rest) < 2 ^ 31 - 1"
    using len s1(6) held1(1) by (simp add: held_def names_held_def)
  ultimately obtain s2 where s2: "clear_table_of a s1 = Some s2" "gives_back s1 s2 (names_held s1 a @ rest)" "keeps s1 s2"
      "keeps_names s1 s2" "value_table (sw_gc s2) = (value_table (sw_gc s1))(a := None)"
    using clear_table_of_run [OF held1(2)] by blast
  have names2: "names_held s2 b = names_held s1 b" for b using s2(4) by (simp add: names_held_def keeps_names_def)
  have "counts_exact (sw_core s2) (names_held s2 a @ rest)" "length (names_held s2 a @ rest) < 2 ^ 31 - 1"
    using s2(2) len1 names2 by (simp_all add: gives_back_def)
  then obtain s3 where s3: "clear_name_prototype a s2 = Some s3" "gives_back s2 s3 rest" "keeps s2 s3"
      "value_name (sw_gc s3) = (value_name (sw_gc s2))(a := None)"
      "value_prototype (sw_core s3) = (value_prototype (sw_core s2))(a := None)"
    using clear_name_prototype_run [of s2 a rest] by (auto simp: names_held_def)
  let ?s = "set_core ((sw_core s3)\<lparr>value_type := (value_type (sw_core s3))(a := OS_VALUE_TYPE_NULL)\<rparr>) s3"
  have run: "clearValue run_dtor a s = Some ?s"
    using id s1(1) s2(1) s3(1) by (simp add: clearValue_def os_assert_def)
  have names3: "b \<noteq> a \<Longrightarrow> names_held ?s b = names_held s b" for b
    using s3(4,5) names2 [of b] s1(5) [of b] by (simp add: names_held_def)
  have "gives_back s s3 rest"
  proof -
    have "gives_back s s1 (props_held s1 ps @ names_held s1 a @ rest)"
      using s1(2) held1(1) counts_exact_mset unfolding gives_back_def by fastforce
    then show ?thesis using gives_back_trans [OF _ gives_back_trans [OF s2(2)]] s3(2) by blast
  qed
  moreover have "gives_back s3 ?s rest" by (rule gives_back_same) (use s3(2) in \<open>simp_all add: gives_back_def\<close>)
  ultimately have "gives_back s ?s rest" using gives_back_trans by blast
  then show ?thesis
    using run names3 s1(3) s2(3) s3(3) by (simp add: keeps_def)
qed

section \<open>Destroying a candidate\<close>

lemma unregisterValue_exact:
  assumes ok: "counts_exact c rest" and a: "a \<in> value_members c" "a \<notin> candidate_members c" "ref_count c a = 0"
  shows "\<exists>t n. unregisterValue (value_id c a) c = Some (c\<lparr>value_refs := t, hash_next := n\<rparr>, Some a)
    \<and> value_members (c\<lparr>value_refs := t, hash_next := n\<rparr>) = value_members c - {a}
    \<and> counts_exact (c\<lparr>value_refs := t, hash_next := n\<rparr>) rest
    \<and> free_candidate_get (value_id c a) (c\<lparr>value_refs := t, hash_next := n\<rparr>) = Some None"
proof -
  have inv: "registry_inv (value_id c) (value_refs c) (hash_next c)" "candidate_inv c"
      "candidate_members c \<subseteq> value_members c" "inj_on (value_id c) (value_members c)"
    using ok by (simp_all add: counts_exact_def values_inv_def)
  have "value_id c b \<noteq> value_id c a" if "b \<in> candidate_members c" for b
    using that a(1,2) inv(3,4) by (metis inj_onD subsetD)
  then have none: "free_candidate_get (value_id c a) c = Some None" using free_candidate_get_None [OF inv(2)] by blast
  have only: "b = a" if "b \<in> members (value_refs c) (hash_next c)" "value_id c b = value_id c a" for b
    using that a(1) inv(4) by (metis inj_onD value_members_def)
  obtain t n where t: "remove_node True (\<lambda>cur. value_id c cur = value_id c a) (value_refs c) (hash_next c)
        (slot_of (value_id c) (head_mask (value_refs c)) a) = Some (t, n, Some a)"
      "registry_inv (value_id c) t n" "members t n = members (value_refs c) (hash_next c) - {a}"
    using remove_node_set [OF inv(1), of a "\<lambda>cur. value_id c cur = value_id c a"] only a(1)
    by (auto simp: value_members_def)
  let ?c = "c\<lparr>value_refs := t, hash_next := n\<rparr>"
  have "unregisterValue (value_id c a) c = Some (?c, Some a)"
    using none t(1) by (simp add: unregisterValue_def os_assert_def hash_slot_key)
  moreover have m: "value_members ?c = value_members c - {a}" using t(3) by (simp add: value_members_def)
  moreover have k: "candidate_members ?c = candidate_members c" "candidate_inv ?c = candidate_inv c"
    by (simp_all add: candidate_defs)
  have "values_inv ?c"
    using ok t(2) inv(3) a(2) unfolding counts_exact_def values_inv_def m k by (auto intro: inj_on_subset)
  moreover have "VGC a \<notin> set rest"
  proof -
    have "unat (ref_count c a) = count_list rest (VGC a)" using ok a(1) by (simp add: counts_exact_def)
    then show ?thesis using a(3) by (simp add: count_list_0_iff)
  qed
  ultimately have "counts_exact ?c rest" using ok unfolding counts_exact_def m by auto
  moreover have "free_candidate_get (value_id c a) ?c = Some None"
    using none by (cases "heads (gc_candidate_values c) = []") (simp_all add: free_candidate_get_def)
  ultimately show ?thesis using \<open>unregisterValue (value_id c a) c = Some (?c, Some a)\<close> m by blast
qed



end
