(* ===== verification/Tokens.thy ===== *)
theory Tokens
  imports NumParse "HOL-Library.Multiset"
begin

text \<open>
  The tokens of \<open>OS::Core::Tokenizer\<close>: their types and names, the classes of \<open>isTypeOf\<close>, and the table of
  operators, which \<open>initOperatorsTable\<close> sorts by length so that the scan of the table finds the longest
  operator at the text.  \<open>qsort\<close> may order operators of one length in any way, so the table is any
  sorted permutation of the one in the source.
\<close>

section \<open>Types\<close>

datatype (plugins only: code) TokenType =
  NOTHING
| BEGIN_CODE_BLOCK | END_CODE_BLOCK | BEGIN_BRACKET_BLOCK | END_BRACKET_BLOCK
| BEGIN_ARRAY_BLOCK | END_ARRAY_BLOCK | CODE_SEPARATOR | PARAM_SEPARATOR
| COMMENT_LINE | COMMENT_MULTI_LINE
| NAME | STRING | OUTPUT_STRING | OUTPUT_NEXT_VALUE | REGEXP_STRING
| BEFORE_INJECT_VAR | AFTER_INJECT_VAR | NUMBER
| OPERATOR | BINARY_OPERATOR | SEPARATOR
| OPERATOR_INDIRECT | OPERATOR_CONCAT | REST_ARGUMENTS | OPERATOR_THIS
| OPERATOR_LOGIC_AND | OPERATOR_LOGIC_OR | OPERATOR_LOGIC_PTR_EQ | OPERATOR_LOGIC_PTR_NE
| OPERATOR_LOGIC_EQ | OPERATOR_LOGIC_NE | OPERATOR_LOGIC_GE | OPERATOR_LOGIC_LE
| OPERATOR_LOGIC_GREATER | OPERATOR_LOGIC_LESS | OPERATOR_COMPARE | OPERATOR_LOGIC_NOT
| OPERATOR_INC | OPERATOR_DEC | OPERATOR_QUESTION | OPERATOR_COLON
| OPERATOR_IN | OPERATOR_IS | OPERATOR_AS | OPERATOR_LENGTH
| OPERATOR_BIT_AND | OPERATOR_BIT_OR | OPERATOR_BIT_XOR | OPERATOR_BIT_NOT
| OPERATOR_ADD | OPERATOR_SUB | OPERATOR_MUL | OPERATOR_DIV | OPERATOR_MOD
| OPERATOR_LSHIFT | OPERATOR_RSHIFT | OPERATOR_POW
| OPERATOR_BIT_AND_ASSIGN | OPERATOR_BIT_OR_ASSIGN | OPERATOR_BIT_XOR_ASSIGN | OPERATOR_BIT_NOT_ASSIGN
| OPERATOR_ADD_ASSIGN | OPERATOR_SUB_ASSIGN | OPERATOR_MUL_ASSIGN | OPERATOR_DIV_ASSIGN
| OPERATOR_MOD_ASSIGN | OPERATOR_LSHIFT_ASSIGN | OPERATOR_RSHIFT_ASSIGN | OPERATOR_POW_ASSIGN
| OPERATOR_ASSIGN | OPERATOR_RESERVED | OPERATOR_END | ERROR_TOKEN

definition getTokenTypeName :: "TokenType \<Rightarrow> string" where
  "getTokenTypeName token_type =
     (case token_type of
        NOTHING \<Rightarrow> ''NOTHING''
      | BEGIN_CODE_BLOCK \<Rightarrow> ''BEGIN_CODE_BLOCK''
      | END_CODE_BLOCK \<Rightarrow> ''END_CODE_BLOCK''
      | BEGIN_BRACKET_BLOCK \<Rightarrow> ''BEGIN_BRACKET_BLOCK''
      | END_BRACKET_BLOCK \<Rightarrow> ''END_BRACKET_BLOCK''
      | BEGIN_ARRAY_BLOCK \<Rightarrow> ''BEGIN_ARRAY_BLOCK''
      | END_ARRAY_BLOCK \<Rightarrow> ''END_ARRAY_BLOCK''
      | CODE_SEPARATOR \<Rightarrow> ''CODE_SEPARATOR''
      | PARAM_SEPARATOR \<Rightarrow> ''PARAM_SEPARATOR''
      | COMMENT_LINE \<Rightarrow> ''COMMENT_LINE''
      | COMMENT_MULTI_LINE \<Rightarrow> ''COMMENT_MULTI_LINE''
      | NAME \<Rightarrow> ''NAME''
      | STRING \<Rightarrow> ''STRING''
      | NUMBER \<Rightarrow> ''NUMBER''
      | OPERATOR \<Rightarrow> ''OPERATOR''
      | BINARY_OPERATOR \<Rightarrow> ''BINARY_OPERATOR''
      | OPERATOR_INDIRECT \<Rightarrow> ''OPERATOR_INDIRECT''
      | OPERATOR_CONCAT \<Rightarrow> ''OPERATOR_CONCAT''
      | BEFORE_INJECT_VAR \<Rightarrow> ''BEFORE_INJECT_VAR''
      | AFTER_INJECT_VAR \<Rightarrow> ''AFTER_INJECT_VAR''
      | OPERATOR_THIS \<Rightarrow> ''OPERATOR_THIS''
      | OPERATOR_LOGIC_AND \<Rightarrow> ''OPERATOR_LOGIC_AND''
      | OPERATOR_LOGIC_OR \<Rightarrow> ''OPERATOR_LOGIC_OR''
      | OPERATOR_LOGIC_PTR_EQ \<Rightarrow> ''OPERATOR_LOGIC_PTR_EQ''
      | OPERATOR_LOGIC_PTR_NE \<Rightarrow> ''OPERATOR_LOGIC_PTR_NE''
      | OPERATOR_LOGIC_EQ \<Rightarrow> ''OPERATOR_LOGIC_EQ''
      | OPERATOR_LOGIC_NE \<Rightarrow> ''OPERATOR_LOGIC_NE''
      | OPERATOR_LOGIC_GE \<Rightarrow> ''OPERATOR_LOGIC_GE''
      | OPERATOR_LOGIC_LE \<Rightarrow> ''OPERATOR_LOGIC_LE''
      | OPERATOR_LOGIC_GREATER \<Rightarrow> ''OPERATOR_LOGIC_GREATER''
      | OPERATOR_LOGIC_LESS \<Rightarrow> ''OPERATOR_LOGIC_LESS''
      | OPERATOR_LOGIC_NOT \<Rightarrow> ''OPERATOR_LOGIC_NOT''
      | OPERATOR_INC \<Rightarrow> ''OPERATOR_INC''
      | OPERATOR_DEC \<Rightarrow> ''OPERATOR_DEC''
      | OPERATOR_QUESTION \<Rightarrow> ''OPERATOR_QUESTION''
      | OPERATOR_COLON \<Rightarrow> ''OPERATOR_COLON''
      | OPERATOR_BIT_AND \<Rightarrow> ''OPERATOR_BIT_AND''
      | OPERATOR_BIT_OR \<Rightarrow> ''OPERATOR_BIT_OR''
      | OPERATOR_BIT_XOR \<Rightarrow> ''OPERATOR_BIT_XOR''
      | OPERATOR_BIT_NOT \<Rightarrow> ''OPERATOR_BIT_NOT''
      | OPERATOR_COMPARE \<Rightarrow> ''OPERATOR_COMPARE''
      | OPERATOR_ADD \<Rightarrow> ''OPERATOR_ADD''
      | OPERATOR_SUB \<Rightarrow> ''OPERATOR_SUB''
      | OPERATOR_MUL \<Rightarrow> ''OPERATOR_MUL''
      | OPERATOR_DIV \<Rightarrow> ''OPERATOR_DIV''
      | OPERATOR_MOD \<Rightarrow> ''OPERATOR_MOD''
      | OPERATOR_LSHIFT \<Rightarrow> ''OPERATOR_LSHIFT''
      | OPERATOR_RSHIFT \<Rightarrow> ''OPERATOR_RSHIFT''
      | OPERATOR_POW \<Rightarrow> ''OPERATOR_POW''
      | OPERATOR_BIT_AND_ASSIGN \<Rightarrow> ''OPERATOR_BIT_AND_ASSIGN''
      | OPERATOR_BIT_OR_ASSIGN \<Rightarrow> ''OPERATOR_BIT_OR_ASSIGN''
      | OPERATOR_BIT_XOR_ASSIGN \<Rightarrow> ''OPERATOR_BIT_XOR_ASSIGN''
      | OPERATOR_BIT_NOT_ASSIGN \<Rightarrow> ''OPERATOR_BIT_NOT_ASSIGN''
      | OPERATOR_ADD_ASSIGN \<Rightarrow> ''OPERATOR_ADD_ASSIGN''
      | OPERATOR_SUB_ASSIGN \<Rightarrow> ''OPERATOR_SUB_ASSIGN''
      | OPERATOR_MUL_ASSIGN \<Rightarrow> ''OPERATOR_MUL_ASSIGN''
      | OPERATOR_DIV_ASSIGN \<Rightarrow> ''OPERATOR_DIV_ASSIGN''
      | OPERATOR_MOD_ASSIGN \<Rightarrow> ''OPERATOR_MOD_ASSIGN''
      | OPERATOR_LSHIFT_ASSIGN \<Rightarrow> ''OPERATOR_LSHIFT_ASSIGN''
      | OPERATOR_RSHIFT_ASSIGN \<Rightarrow> ''OPERATOR_RSHIFT_ASSIGN''
      | OPERATOR_POW_ASSIGN \<Rightarrow> ''OPERATOR_POW_ASSIGN''
      | OPERATOR_ASSIGN \<Rightarrow> ''OPERATOR_ASSIGN''
      | OPERATOR_RESERVED \<Rightarrow> ''OPERATOR_RESERVED''
      | OPERATOR_END \<Rightarrow> ''OPERATOR_END''
      | ERROR_TOKEN \<Rightarrow> ''ERROR_TOKEN''
      | _ \<Rightarrow> ''UNKNOWN_TOKENTYPE'')"

definition separator_types :: "TokenType list" where
  "separator_types =
     [BEGIN_CODE_BLOCK, END_CODE_BLOCK, BEGIN_BRACKET_BLOCK, END_BRACKET_BLOCK, BEGIN_ARRAY_BLOCK,
      END_ARRAY_BLOCK, CODE_SEPARATOR, PARAM_SEPARATOR]"

definition binary_operator_types :: "TokenType list" where
  "binary_operator_types =
     [PARAM_SEPARATOR, OPERATOR_QUESTION, OPERATOR_INDIRECT, OPERATOR_CONCAT, BEFORE_INJECT_VAR,
      AFTER_INJECT_VAR, OPERATOR_IN, OPERATOR_IS, OPERATOR_AS,
      OPERATOR_LOGIC_AND, OPERATOR_LOGIC_OR, OPERATOR_LOGIC_PTR_EQ, OPERATOR_LOGIC_PTR_NE,
      OPERATOR_LOGIC_EQ, OPERATOR_LOGIC_NE, OPERATOR_LOGIC_GE, OPERATOR_LOGIC_LE,
      OPERATOR_LOGIC_GREATER, OPERATOR_LOGIC_LESS,
      OPERATOR_BIT_AND, OPERATOR_BIT_OR, OPERATOR_BIT_XOR, OPERATOR_BIT_NOT, OPERATOR_COMPARE,
      OPERATOR_ADD, OPERATOR_SUB, OPERATOR_MUL, OPERATOR_DIV, OPERATOR_MOD, OPERATOR_LSHIFT,
      OPERATOR_RSHIFT, OPERATOR_POW,
      OPERATOR_BIT_AND_ASSIGN, OPERATOR_BIT_OR_ASSIGN, OPERATOR_BIT_XOR_ASSIGN, OPERATOR_BIT_NOT_ASSIGN,
      OPERATOR_ADD_ASSIGN, OPERATOR_SUB_ASSIGN, OPERATOR_MUL_ASSIGN, OPERATOR_DIV_ASSIGN,
      OPERATOR_MOD_ASSIGN, OPERATOR_LSHIFT_ASSIGN, OPERATOR_RSHIFT_ASSIGN, OPERATOR_POW_ASSIGN,
      OPERATOR_ASSIGN]"

definition isTypeOf :: "TokenType \<Rightarrow> TokenType \<Rightarrow> bool" where
  "isTypeOf typ token_type \<longleftrightarrow>
     (if typ = token_type then True
      else if token_type = SEPARATOR then typ \<in> set separator_types
      else if token_type = BINARY_OPERATOR then typ \<in> set binary_operator_types
      else False)"

section \<open>The table of operators\<close>

type_synonym operator_desc = "TokenType \<times> string"

definition operator_table :: "operator_desc list" where
  "operator_table =
     [(OPERATOR_INDIRECT, ''.''), (REST_ARGUMENTS, ''...''),
      (OPERATOR_RESERVED, ''->''), (OPERATOR_RESERVED, ''::''),
      (OPERATOR_THIS, ''@''),
      (OPERATOR_LOGIC_AND, ''&&''), (OPERATOR_LOGIC_OR, ''||''),
      (OPERATOR_LOGIC_PTR_EQ, ''===''), (OPERATOR_LOGIC_PTR_NE, ''!==''),
      (OPERATOR_LOGIC_EQ, ''==''), (OPERATOR_LOGIC_NE, ''!=''),
      (OPERATOR_LOGIC_GE, ''>=''), (OPERATOR_LOGIC_LE, ''<=''),
      (OPERATOR_LOGIC_GREATER, ''>''), (OPERATOR_LOGIC_LESS, ''<''), (OPERATOR_LOGIC_NOT, ''!''),
      (OPERATOR_INC, ''++''), (OPERATOR_DEC, ''--''),
      (OPERATOR_QUESTION, ''?''), (OPERATOR_COLON, '':''),
      (OPERATOR_LENGTH, ''#''),
      (OPERATOR_BIT_AND, ''&''), (OPERATOR_BIT_OR, ''|''), (OPERATOR_BIT_XOR, ''^''), (OPERATOR_BIT_NOT, ''~''),
      (OPERATOR_CONCAT, ''..''), (OPERATOR_COMPARE, ''<=>''),
      (OPERATOR_ADD, ''+''), (OPERATOR_SUB, ''-''), (OPERATOR_MUL, ''*''), (OPERATOR_DIV, ''/''),
      (OPERATOR_MOD, ''%''), (OPERATOR_LSHIFT, ''<<''), (OPERATOR_RSHIFT, ''>>''), (OPERATOR_POW, ''**''),
      (OPERATOR_BIT_AND_ASSIGN, ''&=''), (OPERATOR_BIT_OR_ASSIGN, ''|=''), (OPERATOR_BIT_XOR_ASSIGN, ''^=''),
      (OPERATOR_BIT_NOT_ASSIGN, ''~=''), (OPERATOR_ADD_ASSIGN, ''+=''), (OPERATOR_SUB_ASSIGN, ''-=''),
      (OPERATOR_MUL_ASSIGN, ''*=''), (OPERATOR_DIV_ASSIGN, ''/=''), (OPERATOR_MOD_ASSIGN, ''%=''),
      (OPERATOR_LSHIFT_ASSIGN, ''<<=''), (OPERATOR_RSHIFT_ASSIGN, ''>>=''), (OPERATOR_POW_ASSIGN, ''**=''),
      (OPERATOR_ASSIGN, ''=''),
      (BEGIN_CODE_BLOCK, ''{''), (END_CODE_BLOCK, ''}''),
      (BEGIN_BRACKET_BLOCK, ''(''), (END_BRACKET_BLOCK, '')''),
      (BEGIN_ARRAY_BLOCK, CHR 0x5B # []), (END_ARRAY_BLOCK, CHR 0x5D # []),
      (CODE_SEPARATOR, '';''), (PARAM_SEPARATOR, '','')]"

definition compareOperatorDesc :: "operator_desc \<Rightarrow> operator_desc \<Rightarrow> int" where
  "compareOperatorDesc op0 op1 = int (length (snd op1)) - int (length (snd op0))"

text \<open>\<open>qsort\<close> of the table.\<close>

definition sorted_table :: "operator_desc list \<Rightarrow> bool" where
  "sorted_table ops \<longleftrightarrow> mset ops = mset operator_table
     \<and> sorted_wrt (\<lambda>a b. compareOperatorDesc a b \<le> 0) ops"

definition operator_desc :: "operator_desc list" where
  "operator_desc = sort_key (\<lambda>op. - int (length (snd op))) operator_table"

text \<open>\<open>OS_STRNCMP(str, name, len) == 0\<close> for the first entry that matches.\<close>

fun find_operator :: "operator_desc list \<Rightarrow> string \<Rightarrow> operator_desc option" where
  "find_operator [] str = None"
| "find_operator ((typ, name) # ops) str =
     (if take (length name) str = name then Some (typ, name) else find_operator ops str)"

section \<open>The longest operator\<close>

definition matches :: "string \<Rightarrow> operator_desc \<Rightarrow> bool" where
  "matches str op \<longleftrightarrow> take (length (snd op)) str = snd op"

lemma find_operator_None: "find_operator ops str = None \<longleftrightarrow> (\<forall>op \<in> set ops. \<not> matches str op)"
  by (induction ops str rule: find_operator.induct) (auto simp: matches_def)

lemma find_operator_Some:
  assumes "find_operator ops str = Some op" and "sorted_wrt (\<lambda>a b. length (snd b) \<le> length (snd a)) ops"
  shows "op \<in> set ops \<and> matches str op \<and> (\<forall>op' \<in> set ops. matches str op' \<longrightarrow> length (snd op') \<le> length (snd op))"
  using assms by (induction ops str rule: find_operator.induct) (auto simp: matches_def split: if_splits)

lemma operator_names_distinct: "distinct (map snd operator_table)"
  by code_simp

lemma matches_unique:
  assumes "matches str op" "matches str op'" "length (snd op) = length (snd op')"
    and "op \<in> set operator_table" "op' \<in> set operator_table"
  shows "op = op'"
proof -
  have "snd op = snd op'" using assms(1,2,3) by (simp add: matches_def)
  with operator_names_distinct assms(4,5) show ?thesis by (auto simp: distinct_map dest: inj_onD)
qed

lemma sorted_table_desc: "sorted_table operator_desc"
proof -
  have "sorted_wrt (\<lambda>a b. - int (length (snd a)) \<le> - int (length (snd b))) operator_desc"
    using sorted_sort_key [of "\<lambda>op. - int (length (snd op))" operator_table]
    by (simp add: operator_desc_def sorted_map)
  then show ?thesis by (simp add: sorted_table_def compareOperatorDesc_def operator_desc_def)
qed

text \<open>
  After the sort of \<open>initOperatorsTable\<close>, whichever order \<open>qsort\<close> gives to operators of one length,
  the scan of the table finds an operator exactly if one starts the text, and then it is the longest one
  (so \<open><<=\<close> is one token and not three); the result does not depend on the order.
\<close>

theorem find_operator_longest:
  assumes "sorted_table ops"
  shows "find_operator ops str = find_operator operator_desc str
    \<and> (case find_operator ops str of
         None \<Rightarrow> \<forall>op \<in> set operator_table. \<not> matches str op
       | Some op \<Rightarrow> op \<in> set operator_table \<and> matches str op
           \<and> (\<forall>op' \<in> set operator_table. matches str op' \<longrightarrow> op' = op \<or> length (snd op') < length (snd op)))"
proof -
  have found: "find_operator t str = Some op \<Longrightarrow> op \<in> set operator_table \<and> matches str op
      \<and> (\<forall>op' \<in> set operator_table. matches str op' \<longrightarrow> op' = op \<or> length (snd op') < length (snd op))"
    and missing: "find_operator t str = None \<longleftrightarrow> (\<forall>op \<in> set operator_table. \<not> matches str op)"
    if "sorted_table t" for t op
  proof -
    have s: "set t = set operator_table" "sorted_wrt (\<lambda>a b. length (snd b) \<le> length (snd a)) t"
      using that mset_eq_setD by (auto simp: sorted_table_def compareOperatorDesc_def)
    show "find_operator t str = None \<longleftrightarrow> (\<forall>op \<in> set operator_table. \<not> matches str op)"
      by (simp add: find_operator_None s(1))
    show "op \<in> set operator_table \<and> matches str op
      \<and> (\<forall>op' \<in> set operator_table. matches str op' \<longrightarrow> op' = op \<or> length (snd op') < length (snd op))"
      if "find_operator t str = Some op"
      using find_operator_Some [OF that s(2)] matches_unique [of str _ op] s(1) by (metis le_neq_implies_less)
  qed
  show ?thesis
  proof (cases "find_operator ops str")
    case None
    with missing [OF assms] missing [OF sorted_table_desc] show ?thesis by simp
  next
    case (Some op)
    note op = found [OF assms Some]
    then have "find_operator operator_desc str \<noteq> None" using missing [OF sorted_table_desc] by blast
    then obtain op' where op': "find_operator operator_desc str = Some op'" by blast
    have "op' = op" using op found [OF sorted_table_desc op'] by fastforce
    with Some op op' show ?thesis by simp
  qed
qed

theorem find_operator_longest_witness:
  "find_operator operator_desc ''<<=1'' = Some (OPERATOR_LSHIFT_ASSIGN, ''<<='')"
proof -
  have m: "(OPERATOR_LSHIFT_ASSIGN, ''<<='') \<in> set operator_table" "matches ''<<=1'' (OPERATOR_LSHIFT_ASSIGN, ''<<='')"
    by (simp_all add: operator_table_def matches_def)
  obtain op where op: "find_operator operator_desc ''<<=1'' = Some op"
    using find_operator_longest [OF sorted_table_desc, of "''<<=1''"] m
    by (cases "find_operator operator_desc ''<<=1''") auto
  have "op = (OPERATOR_LSHIFT_ASSIGN, ''<<='')" if "length (snd op) \<le> 3"
    using find_operator_longest [OF sorted_table_desc, of "''<<=1''"] m that unfolding op by fastforce
  moreover have "\<forall>op \<in> set operator_table. length (snd op) \<le> 3" by (simp add: operator_table_def)
  ultimately show ?thesis
    using find_operator_longest [OF sorted_table_desc, of "''<<=1''"] unfolding op by simp
qed

end
