(* ===== verification/Lexer.thy ===== *)
theory Lexer
  imports Tokens
begin

text \<open>
  \<open>OS::Core::Tokenizer::parseText\<close> and \<open>parseLines\<close>: the text is split at newlines and scanned line by line
  into tokens, with template text outside of \<open><% %>\<close>, quoted strings with escapes and injected variables,
  multi-line strings, comments, names, operators and numbers.

  A pointer into a line is the rest of the line from there; \<open>toChar()\<close> of a line ends at its first null
  character.  One round of the \<open>for(;;)\<close> of \<open>parseLines\<close> is \<open>lex_step\<close>, with the inner loops as functions of
  their own.  The result of a round is the next round, the next line, a return, or \<open>Crash\<close>: an access outside
  an array (a failed \<open>OS_ASSERT\<close> in a debug build).  Numbers are over the operations \<open>'f fops\<close> of \<open>NumParse\<close>.
  Positions are the \<open>int\<close> differences of pointers.
\<close>

section \<open>State\<close>

datatype tok_error =
  ERROR_NOTHING | ERROR_MULTI_LINE_COMMENT | ERROR_CONST_STRING | ERROR_CONST_STRING_ESCAPE_CHAR | ERROR_SYNTAX

datatype OS_ESourceCodeType = OS_SOURCECODE_AUTO | OS_SOURCECODE_PLAIN | OS_SOURCECODE_TEMPLATE

datatype EStringType = NOT_STRING | SIMPLE | QUOTE | MULTI_SIMPLE | MULTI_QUOTE

record 'f token =
  tk_str :: string
  tk_type :: TokenType
  tk_line :: nat
  tk_pos :: int
  tk_float :: 'f

text \<open>The fields of the tokenizer and the local variables of \<open>parseLines\<close>.\<close>

record 'f lexer =
  tz_lines :: "string list"
  tz_tokens :: "'f token list"
  tz_error :: tok_error
  tz_cur_line :: nat
  tz_cur_pos :: int
  tz_save_comments :: bool
  template_enabled :: bool
  is_template :: bool
  string_type :: EStringType
  string_type_stack :: "EStringType list"
  var_in_string :: int
  multi_string_id :: string
  line_start :: string
  lx_str :: string

datatype 'f lex_result = Continue "'f lexer" | NextLine "'f lexer" | Stop bool "'f lexer" | Crash

definition c_str :: "string \<Rightarrow> string" where
  "c_str s = takeWhile (\<lambda>c. c \<noteq> CHR 0x00) s"

definition pos_of :: "'f lexer \<Rightarrow> string \<Rightarrow> int" where
  "pos_of s str = int (length (line_start s)) - int (length str)"

definition addToken :: "'f fops \<Rightarrow> string \<Rightarrow> TokenType \<Rightarrow> nat \<Rightarrow> int \<Rightarrow> 'f lexer \<Rightarrow> 'f lexer" where
  "addToken ops str typ line pos s =
     s\<lparr>tz_tokens := tz_tokens s @
         [\<lparr>tk_str = str, tk_type = typ, tk_line = line, tk_pos = pos, tk_float = f_of_nat ops 0\<rparr>]\<rparr>"

definition lex_fail :: "tok_error \<Rightarrow> int \<Rightarrow> 'f lexer \<Rightarrow> 'f lex_result" where
  "lex_fail err pos s = Stop False (s\<lparr>tz_error := err, tz_cur_pos := pos\<rparr>)"

text \<open>\<open>str = line_start = text_data->lines[++cur_line].toChar()\<close>\<close>

definition next_text :: "'f lexer \<Rightarrow> 'f lexer" where
  "next_text s =
     (let l = c_str (tz_lines s ! (tz_cur_line s + 1))
      in s\<lparr>tz_cur_line := tz_cur_line s + 1, line_start := l, lx_str := l\<rparr>)"

definition has_next :: "'f lexer \<Rightarrow> bool" where
  "has_next s \<longleftrightarrow> tz_cur_line s + 1 < length (tz_lines s)"

text \<open>\<open>strstr\<close>: what precedes the first occurrence, and the text from there.\<close>

fun os_strstr :: "string \<Rightarrow> string \<Rightarrow> (string \<times> string) option" where
  "os_strstr pat [] = (if pat = [] then Some ([], []) else None)"
| "os_strstr pat (c # cs) =
     (if take (length pat) (c # cs) = pat then Some ([], c # cs)
      else map_option (\<lambda>(before, rest). (c # before, rest)) (os_strstr pat cs))"

section \<open>Template text\<close>

text \<open>The loop over the lines up to \<open><%\<close>.  \<open>Inr\<close>: the text ended, \<open>return true\<close>.\<close>

function template_text :: "'f fops \<Rightarrow> string \<Rightarrow> 'f lexer \<Rightarrow> 'f lexer + 'f lexer" where
  "template_text ops buf s =
     (let line_pos = lx_str s in
      case os_strstr ''<%'' line_pos of
        Some (before, open_os_tag) \<Rightarrow>
          (let buf = buf @ before;
               s = (if buf \<noteq> [] then addToken ops buf OUTPUT_STRING (tz_cur_line s) (pos_of s line_pos) s else s);
               str = drop 2 open_os_tag;
               s = s\<lparr>lx_str := str, is_template := False\<rparr>
           in Inl (if peek str = CHR ''=''
                   then (addToken ops [peek str] OUTPUT_NEXT_VALUE (tz_cur_line s)
                           (int (length line_pos) - int (length str)) s)\<lparr>lx_str := drop 1 str\<rparr>
                   else s))
      | None \<Rightarrow>
          (let buf = buf @ line_pos @ [CHR 0x0A] in
           if \<not> has_next s
           then Inr (addToken ops buf OUTPUT_STRING (tz_cur_line s) 0 s)
           else template_text ops buf (next_text s)))"
  by pat_completeness auto

termination
  by (relation "measure (\<lambda>(ops, buf, s). length (tz_lines s) - tz_cur_line s)")
    (auto simp: has_next_def next_text_def Let_def)

section \<open>Strings\<close>

text \<open>\<open>${\<close> in a string: the string so far is a token, then an opening bracket.\<close>

definition begin_injection :: "'f fops \<Rightarrow> string \<Rightarrow> string \<Rightarrow> string \<Rightarrow> 'f lexer \<Rightarrow> 'f lexer" where
  "begin_injection ops buf token_start str s =
     (let s = s\<lparr>var_in_string := 1, string_type_stack := string_type s # string_type_stack s,
                string_type := NOT_STRING, lx_str := str\<rparr>;
          s = addToken ops buf STRING (tz_cur_line s) (pos_of s token_start) s;
          s = addToken ops ''${'' BEFORE_INJECT_VAR (tz_cur_line s) (pos_of s str - 2) s
      in addToken ops ''('' BEGIN_BRACKET_BLOCK (tz_cur_line s) (pos_of s str - 2) s)"

text \<open>The end of a multi-line string whose terminator starts a line drops the last line break.\<close>

definition drop_line_break :: "string \<Rightarrow> string option" where
  "drop_line_break buf =
     (if buf = [] then Some buf
      else (let buf = (if last buf = CHR 0x0A then butlast buf else buf) in
        if buf = [] then None
        else Some (if last buf = CHR 0x0D then butlast buf else buf)))"

function multi_string :: "'f fops \<Rightarrow> string \<Rightarrow> string \<Rightarrow> 'f lexer \<Rightarrow> 'f lex_result" where
  "multi_string ops buf token_start s =
     (case lx_str s of
        [] \<Rightarrow>
          (if \<not> has_next s then lex_fail ERROR_CONST_STRING (int (length (line_start s))) s
           else (let s = next_text s in multi_string ops (buf @ [CHR 0x0A]) (lx_str s) s))
      | c # str \<Rightarrow>
          (if take (length (multi_string_id s)) (c # str) = multi_string_id s then
             (if var_in_string s \<noteq> 0 then lex_fail ERROR_SYNTAX (pos_of s (c # str)) s
              else (case (if length (c # str) = length (line_start s) then drop_line_break buf else Some buf) of
                      None \<Rightarrow> Crash
                    | Some buf \<Rightarrow> Continue (addToken ops buf STRING (tz_cur_line s) (pos_of s token_start)
                        (s\<lparr>string_type := NOT_STRING, lx_str := drop (length (multi_string_id s)) (c # str)\<rparr>))))
           else if string_type s = MULTI_QUOTE \<and> c = CHR ''$'' \<and> peek str = CHR 0x7B then
             (if var_in_string s \<noteq> 0 then lex_fail ERROR_SYNTAX (pos_of s str) s
              else Continue (begin_injection ops buf token_start (drop 1 str) s))
           else if string_type s = MULTI_QUOTE \<and> c = CHR 0x5C \<and> peek str = CHR ''$'' then
             multi_string ops (buf @ ''$'') token_start (s\<lparr>lx_str := drop 1 str\<rparr>)
           else multi_string ops (buf @ [c]) token_start (s\<lparr>lx_str := str\<rparr>)))"
  by pat_completeness auto

termination
  by (relation "measures [\<lambda>(ops, buf, t, s). length (tz_lines s) - tz_cur_line s,
                          \<lambda>(ops, buf, t, s). length (lx_str s)]")
    (auto simp: has_next_def next_text_def Let_def)

text \<open>
  An escape in a quoted string, after the backslash.  \<open>Inl\<close>: the rest of the text where the scan of a number
  failed.  A number above 255 becomes 255; another character leaves the backslash.
\<close>

definition escape_number :: "bool \<times> 32 word \<times> string \<Rightarrow> string + (char \<times> string)" where
  "escape_number r =
     (case r of (ok, val, str) \<Rightarrow>
        if ok then Inr (char_of (if sint val \<le> 255 then unat val else 255), str) else Inl str)"

definition quote_escape :: "string \<Rightarrow> string + (char \<times> string)" where
  "quote_escape str =
     (let c = peek str; rest = drop 1 str in
      if c = CHR ''r'' then Inr (CHR 0x0D, rest)
      else if c = CHR ''n'' then Inr (CHR 0x0A, rest)
      else if c = CHR ''t'' then Inr (CHR 0x09, rest)
      else if c = CHR ''v'' then Inr (CHR 0x0B, rest)
      else if c = CHR ''b'' then Inr (CHR 0x08, rest)
      else if c = CHR ''f'' then Inr (CHR 0x0C, rest)
      else if c = CHR 0x22 then Inr (CHR 0x22, rest)
      else if c = CHR 0x5C then Inr (CHR 0x5C, rest)
      else if c = CHR ''$'' then Inr (CHR ''$'', rest)
      else if c = CHR ''x'' then escape_number (parseSimpleHex_int rest)
      else if c = CHR ''0'' then escape_number (parseSimpleOctal_int str)
      else if in_range_char CHR ''1'' CHR ''9'' c then escape_number (parseSimpleDec_int str)
      else Inr (CHR 0x5C, str))"

definition string_escape :: "EStringType \<Rightarrow> string \<Rightarrow> string + (char \<times> string)" where
  "string_escape typ str =
     (if typ = SIMPLE
      then (if peek str = CHR 0x27 \<or> peek str = CHR 0x5C then Inr (peek str, drop 1 str) else Inr (CHR 0x5C, str))
      else quote_escape str)"

definition close_char :: "EStringType \<Rightarrow> char" where
  "close_char typ = (if typ = SIMPLE then CHR 0x27 else if typ = QUOTE then CHR 0x22 else CHR 0x00)"

lemma scan_result_length: "length (snd (snd (scan_result s (scan_digits digit gt acc v s)))) \<le> length s"
  using suffix_scan_result [of s digit gt acc v] by (rule suffix_length_le)

lemma escape_number_rest:
  "escape_number (scan_result s (scan_digits digit gt acc v s)) = Inr (c, rest) \<Longrightarrow> length rest \<le> length s"
  using scan_result_length [of s digit gt acc v] by (auto simp: escape_number_def split: prod.splits if_splits)

lemma string_escape_rest: "string_escape typ str = Inr (c, rest) \<Longrightarrow> length rest \<le> length str"
  unfolding string_escape_def quote_escape_def Let_def scanner_defs
  by (auto split: if_splits dest!: escape_number_rest)

function quoted_string :: "'f fops \<Rightarrow> string \<Rightarrow> string \<Rightarrow> 'f lexer \<Rightarrow> 'f lex_result" where
  "quoted_string ops buf token_start s =
     (case lx_str s of
        [] \<Rightarrow> lex_fail ERROR_CONST_STRING (pos_of s []) s
      | c # str \<Rightarrow>
          (if c = close_char (string_type s) then
             Continue (addToken ops buf STRING (tz_cur_line s) (pos_of s token_start)
               (s\<lparr>string_type := NOT_STRING, lx_str := str\<rparr>))
           else if c = CHR ''$'' \<and> string_type s \<noteq> SIMPLE \<and> peek str = CHR 0x7B then
             (if var_in_string s \<noteq> 0 then lex_fail ERROR_SYNTAX (pos_of s str) s
              else Continue (begin_injection ops buf token_start (drop 1 str) s))
           else if c = CHR 0x5C then
             (case string_escape (string_type s) str of
                Inl rest \<Rightarrow> lex_fail ERROR_CONST_STRING_ESCAPE_CHAR (pos_of s rest) s
              | Inr (c', rest) \<Rightarrow> quoted_string ops (buf @ [c']) token_start (s\<lparr>lx_str := rest\<rparr>))
           else quoted_string ops (buf @ [c]) token_start (s\<lparr>lx_str := str\<rparr>)))"
  by pat_completeness auto

termination
  by (relation "measure (\<lambda>(ops, buf, t, s). length (lx_str s))")
    (auto dest!: string_escape_rest)

section \<open>One round\<close>

text \<open>
  What the first character says about strings.  \<open>Inr\<close>: go on with the \<open>string_type\<close> of the state; \<open>Inl\<close>: the
  round is over.
\<close>

definition end_injection :: "'f fops \<Rightarrow> 'f lexer \<Rightarrow> 'f lex_result + 'f lexer" where
  "end_injection ops s =
     (let s = s\<lparr>var_in_string := 0\<rparr>;
          s = addToken ops '')'' END_BRACKET_BLOCK (tz_cur_line s) (pos_of s (lx_str s)) s;
          s = addToken ops [CHR 0x7D] AFTER_INJECT_VAR (tz_cur_line s) (pos_of s (lx_str s)) s
      in case string_type_stack s of
           [] \<Rightarrow> Inl Crash
         | typ # stack \<Rightarrow>
             (let s = s\<lparr>string_type := typ, string_type_stack := stack\<rparr> in
              if typ = QUOTE \<or> typ = MULTI_QUOTE
              then Inr (if typ = MULTI_QUOTE then s\<lparr>lx_str := drop 1 (lx_str s)\<rparr> else s)
              else Inl Crash))"

definition raw_string :: "'f fops \<Rightarrow> 'f lexer \<Rightarrow> 'f lex_result" where
  "raw_string ops s =
     (let token_start = lx_str s; body = takeWhile (\<lambda>c. c \<noteq> CHR 0x60) (drop 1 token_start);
          str = drop (length body + 1) token_start
      in if str = [] then lex_fail ERROR_CONST_STRING (int (length (line_start s))) s
         else Continue (addToken ops body STRING (tz_cur_line s) (pos_of s token_start) (s\<lparr>lx_str := drop 1 str\<rparr>)))"

definition is_quote :: "char \<Rightarrow> bool" where
  "is_quote c \<longleftrightarrow> c = CHR 0x27 \<or> c = CHR 0x22"

text \<open>\<open>*str && *str <= ' '\<close> on a signed \<open>char\<close>.\<close>

definition at_most_space :: "char \<Rightarrow> bool" where
  "at_most_space c \<longleftrightarrow> (of_char c :: nat) \<le> 32 \<or> 128 \<le> (of_char c :: nat)"

definition begin_multi_string :: "'f lexer \<Rightarrow> 'f lex_result + 'f lexer" where
  "begin_multi_string s =
     (if var_in_string s \<noteq> 0 then Inl (lex_fail ERROR_SYNTAX (pos_of s (lx_str s)) s)
      else
        (let start = drop 3 (lx_str s); id = takeWhile (\<lambda>c. \<not> is_quote c) start; str = drop (length id) start in
         if str = [] \<or> length id < 2 then Inl (lex_fail ERROR_CONST_STRING (pos_of s str) s)
         else
           (let s = s\<lparr>multi_string_id := id, string_type := (if peek str = CHR 0x27 then MULTI_SIMPLE else MULTI_QUOTE)\<rparr>;
                str = drop 1 str
            in if dropWhile at_most_space str \<noteq> [] then Inr (s\<lparr>lx_str := str\<rparr>)
               else if \<not> has_next s then Inl (lex_fail ERROR_CONST_STRING (int (length (line_start s))) s)
               else Inr (next_text s))))"

definition string_start :: "'f fops \<Rightarrow> 'f lexer \<Rightarrow> 'f lex_result + 'f lexer" where
  "string_start ops s =
     (let c = peek (lx_str s) in
      if var_in_string s = 1 \<and> c = CHR 0x7D then end_injection ops s
      else if c = CHR 0x60 then Inl (raw_string ops s)
      else if c = CHR 0x22 then Inr (s\<lparr>string_type := QUOTE\<rparr>)
      else if c = CHR 0x27 then Inr (s\<lparr>string_type := SIMPLE\<rparr>)
      else if take 3 (lx_str s) = ''<<<'' then begin_multi_string s
      else Inr (s\<lparr>string_type := NOT_STRING\<rparr>))"

text \<open>The comment loop; \<open>cur_line >= lines.count\<close> is never true in it.\<close>

function comment_text :: "'f fops \<Rightarrow> string \<Rightarrow> nat \<Rightarrow> int \<Rightarrow> 'f lexer \<Rightarrow> 'f lex_result" where
  "comment_text ops comment startLine startPos s =
     (case os_strstr ''*/'' (lx_str s) of
        Some (before, rest) \<Rightarrow>
          (let s = s\<lparr>lx_str := drop 2 rest\<rparr> in
           Continue (if tz_save_comments s
             then addToken ops (comment @ before @ ''*/'') COMMENT_MULTI_LINE startLine startPos s else s))
      | None \<Rightarrow>
          (if tz_cur_line s \<ge> length (tz_lines s) then lex_fail ERROR_MULTI_LINE_COMMENT (pos_of s (lx_str s)) s
           else if has_next s
           then comment_text ops (if tz_save_comments s then comment @ lx_str s @ [CHR 0x0A] else comment)
                  startLine startPos (next_text s)
           else Crash))"
  by pat_completeness auto

termination
  by (relation "measure (\<lambda>(ops, comment, l, p, s). length (tz_lines s) - tz_cur_line s)")
    (auto simp: has_next_def next_text_def Let_def)

definition is_name_start :: "char \<Rightarrow> bool" where
  "is_name_start c \<longleftrightarrow> c = CHR ''_'' \<or> c = CHR ''$'' \<or> in_range_char CHR ''a'' CHR ''z'' c \<or> in_range_char CHR ''A'' CHR ''Z'' c"

definition is_name_char :: "char \<Rightarrow> bool" where
  "is_name_char c \<longleftrightarrow> c = CHR ''_'' \<or> c = CHR ''$'' \<or> c = CHR ''@'' \<or> in_range_char CHR ''a'' CHR ''z'' c
     \<or> in_range_char CHR ''A'' CHR ''Z'' c \<or> in_range_char CHR ''0'' CHR ''9'' c"

definition name_token :: "'f fops \<Rightarrow> 'f lexer \<Rightarrow> 'f lexer" where
  "name_token ops s =
     (let name = hd (lx_str s) # takeWhile is_name_char (tl (lx_str s))
      in addToken ops name NAME (tz_cur_line s) (pos_of s (lx_str s)) (s\<lparr>lx_str := drop (length name) (lx_str s)\<rparr>))"

definition operator_token :: "'f fops \<Rightarrow> operator_desc \<Rightarrow> 'f lexer \<Rightarrow> 'f lex_result" where
  "operator_token ops op s =
     (case op of (typ, name) \<Rightarrow>
        (let c = peek (lx_str s);
             s1 = addToken ops name typ (tz_cur_line s) (pos_of s (lx_str s)) s;
             next = s1\<lparr>lx_str := drop (length name) (lx_str s)\<rparr>
         in if var_in_string s \<noteq> 0 \<and> length name = 1 then
              (if c = CHR 0x7B then Continue (next\<lparr>var_in_string := var_in_string s + 1\<rparr>)
               else if c = CHR 0x7D then
                 (let next = next\<lparr>var_in_string := var_in_string s - 1\<rparr> in
                  if var_in_string next \<le> 0
                  then lex_fail ERROR_SYNTAX (pos_of s (lx_str s)) (next\<lparr>lx_str := lx_str s\<rparr>)
                  else Continue next)
               else Continue next)
            else Continue next))"

text \<open>
  \<open>Tokenizer::parseFloat\<close>: a number followed by a letter is cut at its last point, if it has one after its first
  character; a suffix \<open>f\<close> is skipped.
\<close>

fun last_point :: "nat \<Rightarrow> string \<Rightarrow> nat option" where
  "last_point 0 text = None"
| "last_point (Suc 0) text = None"
| "last_point (Suc (Suc i)) text = (if text ! Suc i = CHR ''.'' then Some (Suc i) else last_point (Suc i) text)"

definition tok_parseFloat :: "'f fops \<Rightarrow> string \<Rightarrow> (bool \<times> 'f \<times> string)" where
  "tok_parseFloat ops start =
     (let (ok, fval, str) = parseFloat ops start PARSE_TOKEN 0 in
      if \<not> ok then (False, fval, str)
      else if isValidCharAfterNumber str then (True, fval, parseSpaces str)
      else (case last_point (length start - length str) start of
              Some i \<Rightarrow> (True, fval, drop i start)
            | None \<Rightarrow>
                if peek str = CHR ''f'' \<and> isValidCharAfterNumber (drop 1 str)
                then (True, fval, parseSpaces (drop 1 str))
                else (False, fval, str)))"

text \<open>The text of a number token loses its trailing spaces (\<open>trim_right\<close>).\<close>

definition trim_right :: "string \<Rightarrow> string" where
  "trim_right s = rev (dropWhile OS_IS_SPACE (rev s))"

definition number_token :: "'f fops \<Rightarrow> 'f \<Rightarrow> string \<Rightarrow> 'f lexer \<Rightarrow> 'f lexer" where
  "number_token ops fval str s =
     s\<lparr>tz_tokens := tz_tokens s @
         [\<lparr>tk_str = trim_right (take (length (lx_str s) - length str) (lx_str s)), tk_type = NUMBER, tk_line = tz_cur_line s,
           tk_pos = pos_of s (lx_str s), tk_float = fval\<rparr>],
       lx_str := str\<rparr>"

definition plain_token :: "'f fops \<Rightarrow> 'f lexer \<Rightarrow> 'f lex_result" where
  "plain_token ops s =
     (let str = lx_str s in
      if take 2 str = ''//'' then
        NextLine (if tz_save_comments s then addToken ops str COMMENT_LINE (tz_cur_line s) (pos_of s str) s else s)
      else if take 2 str = ''/*'' then
        comment_text ops ''/*'' (tz_cur_line s) (pos_of s str) (s\<lparr>lx_str := drop 2 str\<rparr>)
      else if is_name_start (peek str) then Continue (name_token ops s)
      else (case find_operator operator_desc str of
              Some op \<Rightarrow> operator_token ops op s
            | None \<Rightarrow>
                (case tok_parseFloat ops str of (ok, fval, rest) \<Rightarrow>
                   if ok then Continue (number_token ops fval rest s)
                   else lex_fail ERROR_SYNTAX (pos_of s rest) (s\<lparr>lx_str := rest\<rparr>))))"

text \<open>A round, after the template text.\<close>

definition lex_code :: "'f fops \<Rightarrow> 'f lexer \<Rightarrow> 'f lex_result" where
  "lex_code ops s =
     (let s = s\<lparr>lx_str := parseSpaces (lx_str s)\<rparr> in
      if lx_str s = [] then NextLine s
      else if template_enabled s \<and> \<not> is_template s \<and> take 2 (lx_str s) = ''%>''
      then Continue (s\<lparr>lx_str := drop 2 (lx_str s), is_template := True\<rparr>)
      else (case string_start ops s of
              Inl r \<Rightarrow> r
            | Inr s \<Rightarrow>
                if string_type s = MULTI_QUOTE \<or> string_type s = MULTI_SIMPLE then
                  (if var_in_string s \<noteq> 0 then lex_fail ERROR_SYNTAX (pos_of s (lx_str s)) s
                   else multi_string ops [] (lx_str s) s)
                else if string_type s \<noteq> NOT_STRING
                then quoted_string ops [] (lx_str s) (s\<lparr>lx_str := drop 1 (lx_str s)\<rparr>)
                else plain_token ops s))"

definition lex_step :: "'f fops \<Rightarrow> 'f lexer \<Rightarrow> 'f lex_result" where
  "lex_step ops s =
     (if template_enabled s \<and> is_template s
      then (case template_text ops [] s of Inr s \<Rightarrow> Stop True s | Inl s \<Rightarrow> lex_code ops s)
      else lex_code ops s)"

section \<open>The whole text\<close>

text \<open>The start of a line; the byte order mark and \<open><%\<close> are looked for on the first one.\<close>

definition begin_line :: "OS_ESourceCodeType \<Rightarrow> bool \<Rightarrow> 'f lexer \<Rightarrow> 'f lexer" where
  "begin_line source_code_type check_utf8_bom s =
     (let line = c_str (tz_lines s ! tz_cur_line s);
          line = (if tz_cur_line s = 0 \<and> check_utf8_bom \<and> take 3 line = [CHR 0xEF, CHR 0xBB, CHR 0xBF]
                  then drop 3 line else line);
          s = s\<lparr>tz_cur_pos := 0, line_start := line, lx_str := line\<rparr>
      in if tz_cur_line s = 0 \<and> source_code_type = OS_SOURCECODE_AUTO \<and> take 2 line = ''<%''
         then s\<lparr>template_enabled := True, is_template := False, lx_str := drop 2 line\<rparr> else s)"

datatype 'f parse_result = Parsed bool "'f lexer" | Crashed

partial_function (option) lex_rounds ::
  "'f fops \<Rightarrow> OS_ESourceCodeType \<Rightarrow> bool \<Rightarrow> 'f lexer \<Rightarrow> 'f parse_result option" where
  "lex_rounds ops typ bom s =
     (case lex_step ops s of
        Continue s \<Rightarrow> lex_rounds ops typ bom s
      | NextLine s \<Rightarrow>
          (if has_next s then lex_rounds ops typ bom (begin_line typ bom (s\<lparr>tz_cur_line := tz_cur_line s + 1\<rparr>))
           else Some (Parsed True (s\<lparr>tz_cur_line := tz_cur_line s + 1\<rparr>)))
      | Stop ok s \<Rightarrow> Some (Parsed ok s)
      | Crash \<Rightarrow> Some Crashed)"

declare lex_rounds.simps [code]

definition parseLines ::
  "'f fops \<Rightarrow> OS_ESourceCodeType \<Rightarrow> bool \<Rightarrow> 'f lexer \<Rightarrow> 'f parse_result option" where
  "parseLines ops source_code_type check_utf8_bom s =
     (let template = (source_code_type = OS_SOURCECODE_TEMPLATE);
          s = s\<lparr>tz_cur_line := 0, tz_cur_pos := 0, template_enabled := template, is_template := template,
                string_type := NOT_STRING, string_type_stack := [], var_in_string := 0, multi_string_id := []\<rparr>
      in if tz_lines s = [] then Some (Parsed True s)
         else lex_rounds ops source_code_type check_utf8_bom (begin_line source_code_type check_utf8_bom s))"

function split_lines :: "string \<Rightarrow> string list" where
  "split_lines str =
     (if str = [] then []
      else (let line = takeWhile (\<lambda>c. c \<noteq> CHR 0x0A) str in line # split_lines (drop (length line + 1) str)))"
  by pat_completeness auto

termination by (relation "measure length") auto

definition parseText ::
  "'f fops \<Rightarrow> string \<Rightarrow> OS_ESourceCodeType \<Rightarrow> bool \<Rightarrow> 'f lexer \<Rightarrow> 'f parse_result option" where
  "parseText ops text source_code_type check_utf8_bom s =
     (let s = s\<lparr>tz_lines := split_lines text\<rparr> in
      Option.bind (parseLines ops source_code_type check_utf8_bom s) (\<lambda>r. case r of
        Crashed \<Rightarrow> Some Crashed
      | Parsed ok s \<Rightarrow>
          if ok \<and> tz_tokens s = []
          then parseLines ops OS_SOURCECODE_PLAIN False (s\<lparr>tz_lines := [''return;'']\<rparr>)
          else Some (Parsed ok s)))"

definition new_lexer :: "bool \<Rightarrow> 'f lexer" where
  "new_lexer save_comments =
     \<lparr>tz_lines = [], tz_tokens = [], tz_error = ERROR_NOTHING, tz_cur_line = 0, tz_cur_pos = 0,
      tz_save_comments = save_comments, template_enabled = False, is_template = False,
      string_type = NOT_STRING, string_type_stack = [], var_in_string = 0, multi_string_id = [],
      line_start = [], lx_str = []\<rparr>"

declare template_text.simps [simp del] multi_string.simps [simp del] quoted_string.simps [simp del]
  comment_text.simps [simp del] split_lines.simps [simp del]

section \<open>Every round makes progress and stays inside the text\<close>

text \<open>
  \<open>moves\<close>: a later place of the same text, \<open>lex_ok\<close>: what holds between rounds.  A variable is being injected
  exactly when one string type is on the stack.
\<close>

definition moves_le :: "'f lexer \<Rightarrow> 'f lexer \<Rightarrow> bool" where
  "moves_le s s' \<longleftrightarrow> tz_lines s' = tz_lines s
     \<and> (tz_cur_line s < tz_cur_line s' \<or> tz_cur_line s' = tz_cur_line s \<and> length (lx_str s') \<le> length (lx_str s))"

definition moves :: "'f lexer \<Rightarrow> 'f lexer \<Rightarrow> bool" where
  "moves s s' \<longleftrightarrow> tz_lines s' = tz_lines s
     \<and> (tz_cur_line s < tz_cur_line s' \<or> tz_cur_line s' = tz_cur_line s \<and> length (lx_str s') < length (lx_str s))"

definition has_heredoc :: "string list \<Rightarrow> bool" where
  "has_heredoc lines \<longleftrightarrow> (\<exists>l \<in> set lines. sublist ''<<<'' l)"

definition has_comment :: "string list \<Rightarrow> bool" where
  "has_comment lines \<longleftrightarrow> (\<exists>l \<in> set lines. sublist ''/*'' l)"

definition lex_ok :: "'f lexer \<Rightarrow> bool" where
  "lex_ok s \<longleftrightarrow>
     tz_cur_line s < length (tz_lines s) \<and> suffix (lx_str s) (line_start s)
     \<and> sublist (line_start s) (tz_lines s ! tz_cur_line s)
     \<and> 0 \<le> var_in_string s
     \<and> (if var_in_string s = 0 then string_type_stack s = []
        else string_type_stack s = [QUOTE] \<or> string_type_stack s = [MULTI_QUOTE] \<and> has_heredoc (tz_lines s))"

definition error_ok :: "'f lexer \<Rightarrow> bool" where
  "error_ok s \<longleftrightarrow> tz_error s \<noteq> ERROR_NOTHING \<and> tz_cur_line s < length (tz_lines s)
     \<and> 0 \<le> tz_cur_pos s \<and> tz_cur_pos s \<le> int (length (tz_lines s ! tz_cur_line s))"

definition round_ok :: "('f lexer \<Rightarrow> 'f lexer \<Rightarrow> bool) \<Rightarrow> 'f lexer \<Rightarrow> 'f lex_result \<Rightarrow> bool" where
  "round_ok R s r \<longleftrightarrow>
     (case r of
        Continue s' \<Rightarrow> lex_ok s' \<and> R s s'
      | NextLine s' \<Rightarrow> lex_ok s' \<and> moves_le s s'
      | Stop ok s' \<Rightarrow> tz_lines s' = tz_lines s \<and> (\<not> ok \<longrightarrow> error_ok s')
      | Crash \<Rightarrow> has_comment (tz_lines s) \<or> has_heredoc (tz_lines s))"

named_theorems lex_simps

lemma round_ok_simps [lex_simps]:
  "round_ok R s (Continue s') \<longleftrightarrow> lex_ok s' \<and> R s s'"
  "round_ok R s (NextLine s') \<longleftrightarrow> lex_ok s' \<and> moves_le s s'"
  "round_ok R s (Stop ok s') \<longleftrightarrow> tz_lines s' = tz_lines s \<and> (\<not> ok \<longrightarrow> error_ok s')"
  "round_ok R s Crash \<longleftrightarrow> has_comment (tz_lines s) \<or> has_heredoc (tz_lines s)"
  by (simp_all add: round_ok_def)

lemma moves_refl [simp]: "moves_le s s"
  by (simp add: moves_le_def)

lemma moves_trans:
  "moves_le s t \<Longrightarrow> moves_le t u \<Longrightarrow> moves_le s u" "moves s t \<Longrightarrow> moves_le t u \<Longrightarrow> moves s u"
  "moves_le s t \<Longrightarrow> moves t u \<Longrightarrow> moves s u"
  by (auto simp: moves_le_def moves_def)

lemma moves_imp_le: "moves s t \<Longrightarrow> moves_le s t"
  by (auto simp: moves_le_def moves_def)

lemma moves_lines: "moves_le s t \<Longrightarrow> tz_lines t = tz_lines s" "moves s t \<Longrightarrow> tz_lines t = tz_lines s"
  by (simp_all add: moves_le_def moves_def)

lemma round_ok_after:
  assumes "round_ok R t r" "moves_le s t" "\<And>u. R t u \<Longrightarrow> R' s u"
  shows "round_ok R' s r"
  using assms moves_trans(1) [OF assms(2)] moves_lines(1) [OF assms(2)] by (cases r) (auto simp: lex_simps)

lemma round_le_after: "round_ok moves_le t r \<Longrightarrow> moves_le s t \<Longrightarrow> round_ok moves_le s r"
  by (rule round_ok_after [where R = moves_le and t = t]) (auto intro: moves_trans)

lemma round_lt_after: "round_ok moves_le t r \<Longrightarrow> moves s t \<Longrightarrow> round_ok moves s r"
  by (rule round_ok_after [where R = moves_le and t = t]) (auto intro: moves_trans moves_imp_le)

lemma round_lt_after_le: "round_ok moves t r \<Longrightarrow> moves_le s t \<Longrightarrow> round_ok moves s r"
  by (rule round_ok_after [where R = moves and t = t]) (auto intro: moves_trans)

text \<open>What the operations do to the fields.\<close>

lemma addToken_fields [simp]:
  "tz_lines (addToken ops str typ l p s) = tz_lines s" "tz_cur_line (addToken ops str typ l p s) = tz_cur_line s"
  "lx_str (addToken ops str typ l p s) = lx_str s" "line_start (addToken ops str typ l p s) = line_start s"
  "var_in_string (addToken ops str typ l p s) = var_in_string s"
  "string_type_stack (addToken ops str typ l p s) = string_type_stack s"
  "string_type (addToken ops str typ l p s) = string_type s"
  "multi_string_id (addToken ops str typ l p s) = multi_string_id s"
  "tz_save_comments (addToken ops str typ l p s) = tz_save_comments s"
  "template_enabled (addToken ops str typ l p s) = template_enabled s"
  "is_template (addToken ops str typ l p s) = is_template s"
  by (simp_all add: addToken_def)

lemma addToken_ok [simp]:
  "lex_ok (addToken ops str typ l p s) = lex_ok s" "moves_le t (addToken ops str typ l p s) = moves_le t s"
  "moves t (addToken ops str typ l p s) = moves t s"
  by (simp_all add: lex_ok_def moves_le_def moves_def)

text \<open>Moving forward in the line.\<close>

lemma lex_ok_str:
  assumes "lex_ok s" "suffix str (lx_str s)"
  shows "lex_ok (s\<lparr>lx_str := str\<rparr>)"
  using assms suffix_order.trans by (fastforce simp: lex_ok_def)

lemma lex_ok_string_type [simp]:
  "lex_ok (s\<lparr>string_type := t\<rparr>) = lex_ok s" "lex_ok (s\<lparr>multi_string_id := i\<rparr>) = lex_ok s"
  "lex_ok (s\<lparr>is_template := b\<rparr>) = lex_ok s" "lex_ok (s\<lparr>template_enabled := b\<rparr>) = lex_ok s"
  "lex_ok (s\<lparr>tz_cur_pos := pos\<rparr>) = lex_ok s"
  by (simp_all add: lex_ok_def)

lemma moves_str:
  "moves_le s (s\<lparr>lx_str := str\<rparr>) \<longleftrightarrow> length str \<le> length (lx_str s)"
  "moves s (s\<lparr>lx_str := str\<rparr>) \<longleftrightarrow> length str < length (lx_str s)"
  by (simp_all add: moves_le_def moves_def)

lemma lex_ok_typed:
  assumes "lex_ok s" "suffix u (lx_str s)"
  shows "lex_ok (s\<lparr>string_type := t, lx_str := u\<rparr>)" "moves_le s (s\<lparr>string_type := t, lx_str := u\<rparr>)"
  using assms lex_ok_str [of "s\<lparr>string_type := t\<rparr>" u] suffix_length_le [OF assms(2)]
  by (simp_all add: moves_le_def)

lemma lex_fail_ok:
  assumes "lex_ok s" "suffix str (line_start s)" "err \<noteq> ERROR_NOTHING" "tz_lines s = tz_lines t"
  shows "round_ok R t (lex_fail err (pos_of s str) s)"
proof -
  have "length str \<le> length (line_start s)" using assms(2) by (rule suffix_length_le)
  moreover have "length (line_start s) \<le> length (tz_lines s ! tz_cur_line s)"
    using assms(1) by (simp add: lex_ok_def sublist_length_le)
  ultimately show ?thesis
    using assms by (simp add: lex_fail_def lex_simps error_ok_def pos_of_def lex_ok_def)
qed

lemma lex_fail_end_ok:
  assumes "lex_ok s" "err \<noteq> ERROR_NOTHING" "tz_lines s = tz_lines t"
  shows "round_ok R t (lex_fail err (int (length (line_start s))) s)"
  using lex_fail_ok [OF assms(1) _ assms(2,3), of "[]"] by (simp add: pos_of_def)

lemma sublist_c_str: "sublist (c_str l) l"
  unfolding c_str_def by (metis prefix_imp_sublist takeWhile_is_prefix)

lemma next_text_ok:
  assumes "lex_ok s" "has_next s"
  shows "lex_ok (next_text s)" "moves s (next_text s)"
  using assms sublist_c_str by (auto simp: lex_ok_def has_next_def next_text_def moves_def Let_def)

lemma next_text_fields [simp]:
  "tz_lines (next_text s) = tz_lines s" "string_type (next_text s) = string_type s"
  "var_in_string (next_text s) = var_in_string s" "string_type_stack (next_text s) = string_type_stack s"
  "multi_string_id (next_text s) = multi_string_id s"
  by (simp_all add: next_text_def Let_def)

lemma begin_injection_ok:
  assumes "lex_ok s" "suffix str (lx_str s)" "var_in_string s = 0"
    and "string_type s = QUOTE \<or> string_type s = MULTI_QUOTE \<and> has_heredoc (tz_lines s)"
  shows "lex_ok (begin_injection ops buf ts str s)" "moves_le s (begin_injection ops buf ts str s)"
proof -
  have "suffix str (line_start s)" using assms(1,2) suffix_order.trans by (auto simp: lex_ok_def)
  then show "lex_ok (begin_injection ops buf ts str s)"
    using assms by (auto simp: begin_injection_def Let_def lex_ok_def)
  show "moves_le s (begin_injection ops buf ts str s)"
    using suffix_length_le [OF assms(2)] by (simp add: begin_injection_def Let_def moves_le_def)
qed

lemma suffix_line: "lex_ok s \<Longrightarrow> suffix str (lx_str s) \<Longrightarrow> suffix str (line_start s)"
  using suffix_order.trans by (auto simp: lex_ok_def)

text \<open>The inner loops.\<close>

lemma string_escape_suffix:
  "string_escape typ str = Inr (c, rest) \<Longrightarrow> suffix rest str" "string_escape typ str = Inl rest \<Longrightarrow> suffix rest str"
proof -
  have num: "escape_number (scan_result u (scan_digits digit gt acc v u)) = Inr (c, rest) \<Longrightarrow> suffix rest u"
    "escape_number (scan_result u (scan_digits digit gt acc v u)) = Inl rest \<Longrightarrow> suffix rest u"
    for u c rest and digit :: "char \<Rightarrow> nat option" and gt acc v
    using suffix_scan_result [of u digit gt acc v]
    by (auto simp: escape_number_def split: prod.splits if_splits)
  have d: "suffix (drop (Suc 0) str) str" by (rule suffix_drop)
  show "string_escape typ str = Inr (c, rest) \<Longrightarrow> suffix rest str" "string_escape typ str = Inl rest \<Longrightarrow> suffix rest str"
    unfolding string_escape_def quote_escape_def Let_def scanner_defs using d
    by (auto split: if_splits dest!: num intro: suffix_order.trans)
qed

lemma quoted_string_ok:
  assumes "lex_ok s" "string_type s = SIMPLE \<or> string_type s = QUOTE" "suffix ts (line_start s)"
  shows "round_ok moves_le s (quoted_string ops buf ts s)"
  using assms
proof (induction ops buf ts s rule: quoted_string.induct)
  case (1 ops buf ts s)
  note ok = "1.prems"(1) and ty = "1.prems"(2)
  show ?case
  proof (cases "lx_str s")
    case Nil
    then show ?thesis using lex_fail_ok [OF ok, of "[]" ERROR_CONST_STRING s] by (simp add: quoted_string.simps)
  next
    case (Cons c str)
    have str: "suffix str (lx_str s)" using Cons by (simp add: suffix_ConsI)
    have step: "lex_ok (s\<lparr>lx_str := u\<rparr>)" "moves_le s (s\<lparr>lx_str := u\<rparr>)" "suffix u (line_start s)" if "suffix u str" for u
      using lex_ok_str [OF ok, of u] suffix_line [OF ok, of u] suffix_order.trans [OF that str]
      by (simp_all add: moves_str suffix_length_le)
    consider "c = close_char (string_type s)" | "c \<noteq> close_char (string_type s)" "c = CHR ''$'' \<and> string_type s \<noteq> SIMPLE \<and> peek str = CHR 0x7B"
      | "c \<noteq> close_char (string_type s)" "\<not> (c = CHR ''$'' \<and> string_type s \<noteq> SIMPLE \<and> peek str = CHR 0x7B)" "c = CHR 0x5C"
      | "c \<noteq> close_char (string_type s)" "\<not> (c = CHR ''$'' \<and> string_type s \<noteq> SIMPLE \<and> peek str = CHR 0x7B)" "c \<noteq> CHR 0x5C"
      by blast
    then show ?thesis
    proof cases
      case 1
      then show ?thesis using Cons lex_ok_typed [OF ok str] by (simp add: quoted_string.simps lex_simps)
    next
      case 2
      have "suffix (drop (Suc 0) str) (lx_str s)" using suffix_order.trans [OF suffix_drop str] .
      then show ?thesis
        using 2 Cons ty begin_injection_ok [OF ok, of "drop (Suc 0) str"]
          lex_fail_ok [OF ok step(3), of str ERROR_SYNTAX s]
        by (subst quoted_string.simps) (auto simp: lex_simps)
    next
      case 3
      show ?thesis
      proof (cases "string_escape (string_type s) str")
        case (Inl rest)
        then show ?thesis
          using 3 Cons lex_fail_ok [OF ok step(3), of rest ERROR_CONST_STRING_ESCAPE_CHAR s] string_escape_suffix(2)
          by (subst quoted_string.simps) simp
      next
        case (Inr p)
        obtain c' rest where p: "p = (c', rest)" by fastforce
        have rest: "suffix rest str" using string_escape_suffix(1) Inr p by blast
        have "round_ok moves_le (s\<lparr>lx_str := rest\<rparr>) (quoted_string ops (buf @ [c']) ts (s\<lparr>lx_str := rest\<rparr>))"
          by (rule "1.IH"(1)) (use 3 Cons Inr p step [OF rest] "1.prems" in simp_all)
        from round_le_after [OF this step(2) [OF rest]] show ?thesis using 3 Cons Inr p by (subst quoted_string.simps) simp
      qed
    next
      case 4
      have "round_ok moves_le (s\<lparr>lx_str := str\<rparr>) (quoted_string ops (buf @ [c]) ts (s\<lparr>lx_str := str\<rparr>))"
        by (rule "1.IH"(2)) (use 4 Cons step [of str] "1.prems" in simp_all)
      from round_le_after [OF this step(2)] show ?thesis using 4 Cons by (subst quoted_string.simps) auto
    qed
  qed
qed

lemma multi_string_ok:
  assumes "lex_ok s" "string_type s = MULTI_SIMPLE \<or> string_type s = MULTI_QUOTE" "has_heredoc (tz_lines s)"
  shows "round_ok moves_le s (multi_string ops buf ts s)"
  using assms
proof (induction ops buf ts s rule: multi_string.induct)
  case (1 ops buf ts s)
  note ok = "1.prems"(1) and ty = "1.prems"(2)
  show ?case
  proof (cases "lx_str s")
    case Nil
    show ?thesis
    proof (cases "has_next s")
      case True
      have "round_ok moves_le (next_text s) (multi_string ops (buf @ [CHR 0x0A]) (lx_str (next_text s)) (next_text s))"
        by (rule "1.IH"(1)) (use True Nil "1.prems" next_text_ok in simp_all)
      from round_le_after [OF this moves_imp_le [OF next_text_ok(2) [OF ok True]]] show ?thesis
        using True Nil by (subst multi_string.simps) (simp add: Let_def)
    next
      case False
      then show ?thesis using Nil lex_fail_end_ok [OF ok, of ERROR_CONST_STRING s] by (subst multi_string.simps) simp
    qed
  next
    case (Cons c str)
    have str: "suffix str (lx_str s)" using Cons by (simp add: suffix_ConsI)
    have step: "lex_ok (s\<lparr>lx_str := u\<rparr>)" "moves_le s (s\<lparr>lx_str := u\<rparr>)" "suffix u (line_start s)" if "suffix u (c # str)" for u
      using lex_ok_str [OF ok, of u] suffix_line [OF ok, of u] suffix_length_le [OF that] that Cons
      by (simp_all add: moves_str)
    have d: "suffix (drop (Suc 0) str) (c # str)" by (meson suffix_ConsI suffix_drop)
    have again: "round_ok moves_le s (multi_string ops b t (s\<lparr>lx_str := u\<rparr>))"
      if "round_ok moves_le (s\<lparr>lx_str := u\<rparr>) (multi_string ops b t (s\<lparr>lx_str := u\<rparr>))" "suffix u (c # str)" for b t u
      using round_le_after [OF that(1) step(2) [OF that(2)]] .
    consider (ends) "take (length (multi_string_id s)) (c # str) = multi_string_id s"
      | (inject) "take (length (multi_string_id s)) (c # str) \<noteq> multi_string_id s"
          "string_type s = MULTI_QUOTE \<and> c = CHR ''$'' \<and> peek str = CHR 0x7B"
      | (esc) "take (length (multi_string_id s)) (c # str) \<noteq> multi_string_id s"
          "\<not> (string_type s = MULTI_QUOTE \<and> c = CHR ''$'' \<and> peek str = CHR 0x7B)"
          "string_type s = MULTI_QUOTE \<and> c = CHR 0x5C \<and> peek str = CHR ''$''"
      | (char) "take (length (multi_string_id s)) (c # str) \<noteq> multi_string_id s"
          "\<not> (string_type s = MULTI_QUOTE \<and> c = CHR ''$'' \<and> peek str = CHR 0x7B)"
          "\<not> (string_type s = MULTI_QUOTE \<and> c = CHR 0x5C \<and> peek str = CHR ''$'')"
      by blast
    then show ?thesis
    proof cases
      case ends
      show ?thesis
      proof (cases "var_in_string s = 0")
        case False
        then show ?thesis using ends Cons lex_fail_ok [OF ok step(3), of "c # str" ERROR_SYNTAX s] by (subst multi_string.simps) simp
      next
        case True
        define rest where "rest = drop (length (multi_string_id s)) (c # str)"
        have "lex_ok (addToken ops b STRING l p (s\<lparr>string_type := NOT_STRING, lx_str := rest\<rparr>))
            \<and> moves_le s (addToken ops b STRING l p (s\<lparr>string_type := NOT_STRING, lx_str := rest\<rparr>))" for b l p
          using lex_ok_typed [OF ok, of rest] suffix_drop [of "length (multi_string_id s)" "c # str"] Cons
          by (simp add: rest_def)
        then show ?thesis
          using True ends Cons "1.prems"(3)
          by (subst multi_string.simps) (auto simp: lex_simps simp flip: rest_def split: option.splits)
      qed
    next
      case inject
      have "suffix (drop (Suc 0) str) (lx_str s)" using d Cons by simp
      then show ?thesis
        using inject Cons ty "1.prems"(3) begin_injection_ok [OF ok, of "drop (Suc 0) str"]
          lex_fail_ok [OF ok step(3), of str ERROR_SYNTAX s]
        by (subst multi_string.simps) (auto simp: lex_simps suffix_ConsI)
    next
      case esc
      have "round_ok moves_le (s\<lparr>lx_str := drop 1 str\<rparr>) (multi_string ops (buf @ ''$'') ts (s\<lparr>lx_str := drop 1 str\<rparr>))"
        by (rule "1.IH"(2)) (use esc Cons step d "1.prems" in simp_all)
      from again [OF this] d show ?thesis using esc Cons by (subst multi_string.simps) auto
    next
      case char
      have "round_ok moves_le (s\<lparr>lx_str := str\<rparr>) (multi_string ops (buf @ [c]) ts (s\<lparr>lx_str := str\<rparr>))"
        by (rule "1.IH"(3)) (use char Cons step [of str] "1.prems" in \<open>simp_all add: suffix_ConsI\<close>)
      from again [OF this] show ?thesis using char Cons by (subst multi_string.simps) (auto simp: suffix_ConsI)
    qed
  qed
qed

lemma os_strstr_Some:
  "os_strstr pat s = Some (before, rest) \<Longrightarrow> s = before @ rest \<and> take (length pat) rest = pat"
  by (induction pat s arbitrary: before rule: os_strstr.induct) (auto split: if_splits)

lemma os_strstr_drop:
  assumes "os_strstr pat s = Some (before, rest)" "pat \<noteq> []"
  shows "suffix (drop (length pat) rest) s" "length (drop (length pat) rest) < length s"
proof -
  have s: "s = before @ rest" "take (length pat) rest = pat" using os_strstr_Some [OF assms(1)] by auto
  then show "suffix (drop (length pat) rest) s" by (metis append_assoc append_take_drop_id suffixI)
  show "length (drop (length pat) rest) < length s"
    using s assms(2) by (cases rest; cases pat) auto
qed

lemma comment_text_ok:
  assumes "lex_ok s" "has_comment (tz_lines s)"
  shows "round_ok moves_le s (comment_text ops comment l p s)"
  using assms
proof (induction ops comment l p s rule: comment_text.induct)
  case (1 ops comment l p s)
  note ok = "1.prems"(1)
  show ?case
  proof (cases "os_strstr ''*/'' (lx_str s)")
    case (Some q)
    obtain before rest where q: "q = (before, rest)" by fastforce
    with Some os_strstr_drop [of "''*/''" "lx_str s" before rest] have "suffix (drop 2 rest) (lx_str s)" by (simp add: numeral_2_eq_2)
    with Some q ok suffix_length_le [OF this] show ?thesis
      by (subst comment_text.simps) (simp add: Let_def lex_simps lex_ok_str moves_str)
  next
    case None
    show ?thesis
    proof (cases "has_next s")
      case True
      let ?c = "if tz_save_comments s then comment @ lx_str s @ [CHR 0x0A] else comment"
      have "tz_cur_line s < length (tz_lines s)" using ok by (simp add: lex_ok_def)
      moreover have "round_ok moves_le (next_text s) (comment_text ops ?c l p (next_text s))"
        using "1.IH" None True calculation next_text_ok(1) [OF ok True] "1.prems"(2) by simp
      note round_le_after [OF this moves_imp_le [OF next_text_ok(2) [OF ok True]]]
      ultimately show ?thesis using None True by (subst comment_text.simps) auto
    next
      case False
      have "tz_cur_line s < length (tz_lines s)" using ok by (simp add: lex_ok_def)
      with None False "1.prems"(2) show ?thesis by (subst comment_text.simps) (simp add: lex_simps)
    qed
  qed
qed

lemma template_text_ok:
  assumes "lex_ok s"
  shows "case template_text ops buf s of Inl s' \<Rightarrow> lex_ok s' \<and> moves s s' | Inr s' \<Rightarrow> tz_lines s' = tz_lines s"
  using assms
proof (induction ops buf s rule: template_text.induct)
  case (1 ops buf s)
  note ok = "1.prems"
  show ?case
  proof (cases "os_strstr ''<%'' (lx_str s)")
    case (Some q)
    obtain before rest where q: "q = (before, rest)" by fastforce
    with Some os_strstr_drop [of "''<%''" "lx_str s" before rest]
    have r: "suffix (drop 2 rest) (lx_str s)" "length (drop 2 rest) < length (lx_str s)" by (simp_all add: numeral_2_eq_2)
    then have r1: "suffix (drop (Suc 0) (drop 2 rest)) (lx_str s)" by (meson suffix_drop suffix_order.trans)
    have "lex_ok (s\<lparr>lx_str := u, is_template := b\<rparr>)" if "suffix u (lx_str s)" for u b
      using lex_ok_str [OF ok that] by simp
    with Some q r r1 show ?thesis
      by (subst template_text.simps) (auto simp: Let_def moves_def lex_ok_def)
  next
    case None
    show ?thesis
    proof (cases "has_next s")
      case True
      have "case template_text ops (buf @ lx_str s @ [CHR 0x0A]) (next_text s) of
          Inl s' \<Rightarrow> lex_ok s' \<and> moves (next_text s) s' | Inr s' \<Rightarrow> tz_lines s' = tz_lines (next_text s)"
        using "1.IH" None True next_text_ok(1) [OF ok True] by simp
      with None True moves_imp_le [OF next_text_ok(2) [OF ok True]] show ?thesis
        by (subst template_text.simps) (auto simp: Let_def split: sum.splits intro: moves_trans)
    next
      case False
      with None show ?thesis by (subst template_text.simps) (simp add: Let_def)
    qed
  qed
qed

text \<open>The starts of strings.\<close>

lemma suffix_drop_of: "suffix str t \<Longrightarrow> suffix (drop n str) t"
  by (meson suffix_drop suffix_order.trans)

lemma raw_string_ok:
  assumes "lex_ok s" "lx_str s \<noteq> []"
  shows "round_ok moves s (raw_string ops s)"
proof -
  define body where "body = takeWhile (\<lambda>c. c \<noteq> CHR 0x60) (drop (Suc 0) (lx_str s))"
  have "lex_ok (s\<lparr>lx_str := drop 1 (drop (length body + 1) (lx_str s))\<rparr>)"
    by (rule lex_ok_str [OF assms(1)]) (intro suffix_drop_of suffix_order.refl)
  with assms lex_fail_end_ok [OF assms(1), of ERROR_CONST_STRING s] show ?thesis
    by (simp add: raw_string_def Let_def lex_simps moves_str flip: body_def)
qed

lemma lex_sublist:
  assumes "lex_ok s" "take (length pat) (lx_str s) = pat"
  shows "sublist pat (tz_lines s ! tz_cur_line s)" "tz_lines s ! tz_cur_line s \<in> set (tz_lines s)"
proof -
  have "prefix pat (lx_str s)" using assms(2) by (metis take_is_prefix)
  then have "sublist pat (lx_str s)" by (rule prefix_imp_sublist)
  also have "sublist (lx_str s) (line_start s)" using assms(1) by (simp add: lex_ok_def suffix_imp_sublist)
  also have "sublist (line_start s) (tz_lines s ! tz_cur_line s)" using assms(1) by (simp add: lex_ok_def)
  finally show "sublist pat (tz_lines s ! tz_cur_line s)" .
  show "tz_lines s ! tz_cur_line s \<in> set (tz_lines s)" using assms(1) by (simp add: lex_ok_def)
qed

lemma begin_multi_string_ok:
  assumes ok: "lex_ok s" and "take 3 (lx_str s) = ''<<<''"
  shows "case begin_multi_string s of
      Inl r \<Rightarrow> round_ok moves s r
    | Inr s' \<Rightarrow> lex_ok s' \<and> moves s s' \<and> has_heredoc (tz_lines s)
        \<and> (string_type s' = MULTI_SIMPLE \<or> string_type s' = MULTI_QUOTE)"
proof -
  define start where "start = drop 3 (lx_str s)"
  define id where "id = takeWhile (\<lambda>c. \<not> is_quote c) start"
  define str where "str = drop (length id) start"
  define ty where "ty = (if peek str = CHR 0x27 then MULTI_SIMPLE else MULTI_QUOTE)"
  have here: "has_heredoc (tz_lines s)"
    using lex_sublist [OF ok, of "''<<<''"] assms(2) by (auto simp: has_heredoc_def numeral_3_eq_3)
  have "length (take 3 (lx_str s)) = 3" unfolding assms(2) by simp
  then have "3 \<le> length (lx_str s)" by (simp add: min_def split: if_splits)
  then have less: "length str < length (lx_str s)" by (simp add: str_def start_def)
  have suf: "suffix str (lx_str s)" unfolding str_def start_def by (intro suffix_drop_of suffix_order.refl)
  have ok': "lex_ok (s\<lparr>multi_string_id := id, string_type := ty\<rparr>)" using ok by simp
  note fail = lex_fail_ok [OF ok _ _ refl, of _ ERROR_SYNTAX] lex_fail_ok [OF ok suffix_line [OF ok suf] _ refl, of ERROR_CONST_STRING]
  show ?thesis
  proof (cases "var_in_string s = 0 \<and> \<not> (str = [] \<or> length id < 2)")
    case False
    with fail suffix_line [OF ok suffix_order.refl] show ?thesis
      unfolding begin_multi_string_def Let_def start_def [symmetric] id_def [symmetric] str_def [symmetric]
      by (cases "var_in_string s = 0") simp_all
  next
    case True
    let ?s = "s\<lparr>multi_string_id := id, string_type := ty\<rparr>"
    have fwd: "lex_ok (?s\<lparr>lx_str := drop 1 str\<rparr>)" "moves s (?s\<lparr>lx_str := drop 1 str\<rparr>)"
      using lex_ok_str [OF ok', of "drop 1 str"] suffix_drop_of [OF suf, of 1] less by (simp_all add: moves_def)
    have nxt: "lex_ok (next_text ?s)" "moves s (next_text ?s)" if "has_next ?s"
      using next_text_ok [OF ok' that] by (simp_all add: moves_def)
    have bad: "round_ok moves s (lex_fail ERROR_CONST_STRING (int (length (line_start ?s))) ?s)"
      by (rule lex_fail_end_ok [OF ok']) simp_all
    have "begin_multi_string s =
        (if dropWhile at_most_space (drop 1 str) \<noteq> [] then Inr (?s\<lparr>lx_str := drop 1 str\<rparr>)
         else if \<not> has_next ?s then Inl (lex_fail ERROR_CONST_STRING (int (length (line_start ?s))) ?s)
         else Inr (next_text ?s))"
      using True
      unfolding begin_multi_string_def Let_def start_def [symmetric] id_def [symmetric] str_def [symmetric] ty_def [symmetric]
      by simp
    then show ?thesis using fwd nxt bad here by (simp add: ty_def)
  qed
qed

lemma end_injection_ok:
  assumes ok: "lex_ok s" and "var_in_string s = 1"
  shows "\<exists>s'. end_injection ops s = Inr s' \<and> lex_ok s'
    \<and> (string_type s' = QUOTE \<and> moves_le s s' \<and> lx_str s' = lx_str s \<and> tz_cur_line s' = tz_cur_line s
       \<or> string_type s' = MULTI_QUOTE \<and> moves_le s s' \<and> lx_str s' = drop 1 (lx_str s) \<and> tz_cur_line s' = tz_cur_line s
         \<and> has_heredoc (tz_lines s))"
proof -
  have "suffix (drop (Suc 0) (lx_str s)) (line_start s)" using suffix_line [OF ok] suffix_drop by blast
  with assms show ?thesis
    by (auto simp: end_injection_def Let_def lex_ok_def moves_le_def)
qed

lemma string_start_ok:
  assumes "lex_ok s" "lx_str s \<noteq> []"
  shows "case string_start ops s of
      Inl r \<Rightarrow> round_ok moves s r
    | Inr s' \<Rightarrow> lex_ok s' \<and>
        ((string_type s' = MULTI_SIMPLE \<or> string_type s' = MULTI_QUOTE) \<and> moves s s' \<and> has_heredoc (tz_lines s)
         \<or> string_type s' \<in> {SIMPLE, QUOTE, NOT_STRING} \<and> moves_le s s' \<and> lx_str s' = lx_str s)"
proof -
  consider (inj) "var_in_string s = 1 \<and> peek (lx_str s) = CHR 0x7D"
    | (raw) "\<not> (var_in_string s = 1 \<and> peek (lx_str s) = CHR 0x7D)" "peek (lx_str s) = CHR 0x60"
    | (multi) "\<not> (var_in_string s = 1 \<and> peek (lx_str s) = CHR 0x7D)" "take 3 (lx_str s) = ''<<<''"
    | (other) "\<not> (var_in_string s = 1 \<and> peek (lx_str s) = CHR 0x7D)" "peek (lx_str s) \<noteq> CHR 0x60" "take 3 (lx_str s) \<noteq> ''<<<''"
    by blast
  then show ?thesis
  proof cases
    case inj
    then obtain s' where s': "end_injection ops s = Inr s'" "lex_ok s'"
      "string_type s' = QUOTE \<and> moves_le s s' \<and> lx_str s' = lx_str s \<and> tz_cur_line s' = tz_cur_line s
       \<or> string_type s' = MULTI_QUOTE \<and> moves_le s s' \<and> lx_str s' = drop 1 (lx_str s) \<and> tz_cur_line s' = tz_cur_line s
         \<and> has_heredoc (tz_lines s)"
      using end_injection_ok [OF assms(1)] by blast
    then show ?thesis using inj assms(2) by (auto simp: string_start_def Let_def moves_le_def moves_def)
  next
    case raw
    then show ?thesis using raw_string_ok [OF assms] by (simp add: string_start_def Let_def)
  next
    case multi
    then have "peek (lx_str s) = CHR ''<''" by (cases "lx_str s") (auto simp: peek_def)
    then show ?thesis
      using multi begin_multi_string_ok [OF assms(1) multi(2)]
      by (auto simp: string_start_def Let_def split: sum.splits)
  next
    case other
    then show ?thesis using assms by (auto simp: string_start_def Let_def moves_le_def)
  qed
qed

text \<open>Names, operators and numbers.\<close>

lemma suffix_parseSpaces: "suffix (parseSpaces s) s"
  by (induction s) (auto intro: suffix_ConsI)

lemma last_point_bound: "last_point n u = Some i \<Longrightarrow> 0 < i \<and> i < n"
  by (induction n u rule: last_point.induct) (auto split: if_splits)

lemma tok_parseFloat_ok:
  assumes "tok_parseFloat ops start = (ok, fval, rest)"
  shows "suffix rest start" "ok \<Longrightarrow> length rest < length start"
proof -
  obtain ok' fval' str where p: "parseFloat ops start PARSE_TOKEN 0 = (ok', fval', str)" by (metis prod_cases3)
  have suf: "suffix str start" using suffix_parseFloat [of ops start PARSE_TOKEN 0] p by simp
  have less: "ok' \<Longrightarrow> length str < length start" using parseFloat_token_less [of ops start 0] p by simp
  have trail: "suffix (parseSpaces u) start" "length (parseSpaces u) < length start"
    if "suffix u start" "length u < length start" for u
    using suffix_order.trans [OF suffix_parseSpaces that(1)] suffix_length_le [OF suffix_parseSpaces [of u]] that(2)
    by simp_all
  show "suffix rest start"
    using assms p suf less trail [of str] trail [of "drop (Suc 0) str"] suffix_drop_of [OF suf, of 1]
    by (auto simp: tok_parseFloat_def suffix_drop split: if_splits option.splits)
  show "ok \<Longrightarrow> length rest < length start"
    using assms p suf less trail [of str] trail [of "drop (Suc 0) str"] suffix_drop_of [OF suf, of 1]
    by (auto simp: tok_parseFloat_def dest: last_point_bound split: if_splits option.splits)
qed

lemma operator_not_empty: "op \<in> set operator_table \<Longrightarrow> snd op \<noteq> []"
proof -
  have "\<forall>op \<in> set operator_table. snd op \<noteq> []" by (simp add: operator_table_def)
  then show "op \<in> set operator_table \<Longrightarrow> snd op \<noteq> []" by blast
qed

lemma find_operator_desc:
  assumes "find_operator operator_desc str = Some (ty, name)"
  shows "name \<noteq> []" "take (length name) str = name"
proof -
  have "\<exists>op \<in> set ops. op = (ty, name) \<and> take (length name) str = name"
    if "find_operator ops str = Some (ty, name)" for ops
    using that by (induction ops str rule: find_operator.induct) (auto split: if_splits)
  from this [OF assms] operator_not_empty [of "(ty, name)"]
  show "name \<noteq> []" "take (length name) str = name" by (auto simp: operator_desc_def)
qed

lemma operator_token_ok:
  assumes ok: "lex_ok s" and op: "find_operator operator_desc (lx_str s) = Some op"
    and inj: "\<not> (var_in_string s = 1 \<and> peek (lx_str s) = CHR 0x7D)"
  shows "round_ok moves s (operator_token ops op s)"
proof -
  obtain ty name where opq: "op = (ty, name)" by fastforce
  note name = find_operator_desc [OF op [unfolded opq]]
  define str where "str = drop (length name) (lx_str s)"
  have str: "suffix str (line_start s)" "length str < length (lx_str s)"
  proof -
    show "suffix str (line_start s)" using suffix_line [OF ok suffix_drop] by (simp add: str_def)
    have "length name \<le> length (lx_str s)" by (metis name(2) length_take min.cobounded1)
    then show "length str < length (lx_str s)" using name(1) by (cases name) (simp_all add: str_def)
  qed
  have next_ok: "lex_ok (addToken ops name ty l p s\<lparr>lx_str := str\<rparr>)" "moves s (addToken ops name ty l p s\<lparr>lx_str := str\<rparr>)" for l p
    using ok str by (simp_all add: lex_ok_def moves_def)
  have var: "lex_ok (addToken ops name ty l p s\<lparr>lx_str := str, var_in_string := v\<rparr>)"
    "moves s (addToken ops name ty l p s\<lparr>lx_str := str, var_in_string := v\<rparr>)" if "var_in_string s > 0" "v > 0" for l p v
    using ok str that by (simp_all add: lex_ok_def moves_def)
  have pos: "0 \<le> var_in_string s" using ok by (simp add: lex_ok_def)
  show ?thesis
    unfolding operator_token_def opq Let_def prod.case str_def [symmetric]
    using next_ok var pos inj by (auto simp: lex_simps)
qed

lemma plain_token_ok:
  assumes ok: "lex_ok s" and ne: "lx_str s \<noteq> []"
    and inj: "\<not> (var_in_string s = 1 \<and> peek (lx_str s) = CHR 0x7D)"
  shows "round_ok moves s (plain_token ops s)"
proof -
  have fwd: "lex_ok (s\<lparr>lx_str := u\<rparr>)" "length u < length (lx_str s) \<Longrightarrow> moves s (s\<lparr>lx_str := u\<rparr>)"
    if "suffix u (lx_str s)" for u
    using lex_ok_str [OF ok that] by (simp_all add: moves_str)
  consider (line) "take 2 (lx_str s) = ''//''"
    | (comment) "take 2 (lx_str s) \<noteq> ''//''" "take 2 (lx_str s) = ''/*''"
    | (name) "take 2 (lx_str s) \<noteq> ''//''" "take 2 (lx_str s) \<noteq> ''/*''" "is_name_start (peek (lx_str s))"
    | (other) "take 2 (lx_str s) \<noteq> ''//''" "take 2 (lx_str s) \<noteq> ''/*''" "\<not> is_name_start (peek (lx_str s))"
    by blast
  then show ?thesis
  proof cases
    case line
    then show ?thesis using ok by (simp add: plain_token_def Let_def lex_simps)
  next
    case comment
    have "has_comment (tz_lines s)"
      using lex_sublist [OF ok, of "''/*''"] comment(2) by (auto simp: has_comment_def numeral_2_eq_2)
    then have "round_ok moves_le (s\<lparr>lx_str := drop 2 (lx_str s)\<rparr>)
        (comment_text ops ''/*'' (tz_cur_line s) (pos_of s (lx_str s)) (s\<lparr>lx_str := drop 2 (lx_str s)\<rparr>))"
      using fwd(1) [OF suffix_drop] by (intro comment_text_ok) auto
    from round_lt_after [OF this fwd(2) [OF suffix_drop]] ne comment show ?thesis
      by (simp add: plain_token_def Let_def)
  next
    case name
    have "lex_ok (s\<lparr>lx_str := drop n (lx_str s)\<rparr>)" "0 < n \<Longrightarrow> moves s (s\<lparr>lx_str := drop n (lx_str s)\<rparr>)" for n
      using fwd [OF suffix_drop] ne by simp_all
    then show ?thesis using name by (simp add: plain_token_def name_token_def Let_def lex_simps)
  next
    case other
    show ?thesis
    proof (cases "find_operator operator_desc (lx_str s)")
      case (Some op)
      then show ?thesis using other operator_token_ok [OF ok Some inj] by (simp add: plain_token_def Let_def)
    next
      case None
      obtain good fval rest where t: "tok_parseFloat ops (lx_str s) = (good, fval, rest)" by (metis prod_cases3)
      have num: "lex_ok (number_token ops fval rest s) = lex_ok (s\<lparr>lx_str := rest\<rparr>)"
        "moves s (number_token ops fval rest s) = moves s (s\<lparr>lx_str := rest\<rparr>)"
        by (simp_all add: number_token_def lex_ok_def moves_def)
      have "round_ok moves s (lex_fail ERROR_SYNTAX (pos_of s rest) (s\<lparr>lx_str := rest\<rparr>))"
        using lex_fail_ok [OF fwd(1), of rest rest ERROR_SYNTAX s] tok_parseFloat_ok(1) [OF t]
          suffix_line [OF ok] by (simp add: pos_of_def)
      then show ?thesis
        using other None t fwd [OF tok_parseFloat_ok(1) [OF t]] tok_parseFloat_ok(2) [OF t] num
        by (simp add: plain_token_def Let_def lex_simps)
    qed
  qed
qed

lemma lex_code_ok:
  assumes "lex_ok s"
  shows "round_ok moves s (lex_code ops s)"
proof -
  define t where "t = s\<lparr>lx_str := parseSpaces (lx_str s)\<rparr>"
  have t: "lex_ok t" "moves_le s t"
    using lex_ok_str [OF assms suffix_parseSpaces] suffix_length_le [OF suffix_parseSpaces] by (simp_all add: t_def moves_str)
  show ?thesis
  proof (cases "lx_str t = []")
    case True
    then show ?thesis using t by (simp add: lex_code_def lex_simps flip: t_def)
  next
    case ne: False
    have closing: "lex_ok (t\<lparr>lx_str := drop 2 (lx_str t), is_template := True\<rparr>)"
      "moves t (t\<lparr>lx_str := drop 2 (lx_str t), is_template := True\<rparr>)"
      using lex_ok_str [OF t(1) suffix_drop] ne by (simp_all add: moves_def)
    have "round_ok moves t (case string_start ops t of
              Inl r \<Rightarrow> r
            | Inr s \<Rightarrow>
                if string_type s = MULTI_QUOTE \<or> string_type s = MULTI_SIMPLE then
                  (if var_in_string s \<noteq> 0 then lex_fail ERROR_SYNTAX (pos_of s (lx_str s)) s
                   else multi_string ops [] (lx_str s) s)
                else if string_type s \<noteq> NOT_STRING
                then quoted_string ops [] (lx_str s) (s\<lparr>lx_str := drop 1 (lx_str s)\<rparr>)
                else plain_token ops s)"
    proof (cases "string_start ops t")
      case (Inl r)
      then show ?thesis using string_start_ok [OF t(1) ne, of ops] by simp
    next
      case (Inr u)
      note u = string_start_ok [OF t(1) ne, of ops, unfolded Inr sum.case]
      then have uok: "lex_ok u" by blast
      from u consider (multi) "string_type u = MULTI_SIMPLE \<or> string_type u = MULTI_QUOTE" "moves t u" "has_heredoc (tz_lines t)"
        | (str) "string_type u = SIMPLE \<or> string_type u = QUOTE" "moves_le t u" "lx_str u = lx_str t"
        | (plain) "string_type u = NOT_STRING" "moves_le t u" "lx_str u = lx_str t"
        by blast
      then show ?thesis
      proof cases
        case multi
        have "round_ok moves_le u (multi_string ops [] (lx_str u) u)"
          using multi_string_ok [OF uok multi(1)] multi(3) moves_lines(2) [OF multi(2)] by simp
        then have "round_ok moves t (multi_string ops [] (lx_str u) u)" using multi(2) by (rule round_lt_after)
        moreover have "round_ok moves t (lex_fail ERROR_SYNTAX (pos_of u (lx_str u)) u)"
          using lex_fail_ok [OF uok suffix_line [OF uok suffix_order.refl], of ERROR_SYNTAX t] moves_lines(2) [OF multi(2)]
          by simp
        ultimately show ?thesis using Inr multi(1) by auto
      next
        case str
        let ?u = "u\<lparr>lx_str := drop 1 (lx_str u)\<rparr>"
        have "lex_ok ?u" "moves u ?u" using lex_ok_str [OF uok suffix_drop] str(3) ne by (simp_all add: moves_str)
        then have "round_ok moves_le ?u (quoted_string ops [] (lx_str u) ?u)" "moves t ?u"
          using quoted_string_ok [of ?u "lx_str u"] str suffix_line [OF uok suffix_order.refl] moves_trans(3) by auto
        then have "round_ok moves t (quoted_string ops [] (lx_str u) ?u)" by (rule round_lt_after)
        then show ?thesis using Inr str(1) by auto
      next
        case plain
        have "\<not> (var_in_string u = 1 \<and> peek (lx_str u) = CHR 0x7D)"
        proof
          assume a: "var_in_string u = 1 \<and> peek (lx_str u) = CHR 0x7D"
          have "var_in_string t = 1 \<and> peek (lx_str t) = CHR 0x7D \<or> var_in_string u = var_in_string t"
            using Inr plain(1)
            by (auto simp: string_start_def Let_def begin_multi_string_def next_text_def split: if_splits)
          with a plain(3) have "var_in_string t = 1" "peek (lx_str t) = CHR 0x7D" by auto
          then have "\<exists>v. string_start ops t = Inr v \<and> string_type v \<noteq> NOT_STRING"
            using end_injection_ok [OF t(1), of ops] by (auto simp: string_start_def Let_def)
          with Inr plain(1) show False by auto
        qed
        then have "round_ok moves u (plain_token ops u)" using plain_token_ok [OF uok] plain(3) ne by simp
        then have "round_ok moves t (plain_token ops u)" using plain(2) by (rule round_lt_after_le)
        then show ?thesis using Inr plain(1) by simp
      qed
    qed
    then have "round_ok moves t (lex_code ops s)"
      using ne closing unfolding lex_code_def Let_def t_def [symmetric] by (simp add: lex_simps)
    then show ?thesis using t(2) by (rule round_lt_after_le)
  qed
qed

lemma lex_step_ok:
  assumes "lex_ok s"
  shows "round_ok moves s (lex_step ops s)"
proof (cases "template_enabled s \<and> is_template s")
  case False
  then show ?thesis using lex_code_ok [OF assms] by (auto simp: lex_step_def)
next
  case True
  show ?thesis
  proof (cases "template_text ops [] s")
    case (Inl t)
    then have "lex_ok t" "moves s t" using template_text_ok [OF assms, of ops "[]"] by simp_all
    then have "round_ok moves s (lex_code ops t)" using round_lt_after_le [OF lex_code_ok moves_imp_le] by blast
    then show ?thesis using True Inl by (simp add: lex_step_def)
  next
    case (Inr t)
    then show ?thesis using True template_text_ok [OF assms, of ops "[]"] by (simp add: lex_step_def lex_simps)
  qed
qed

section \<open>The scanner returns\<close>

lemma begin_line_fields [simp]:
  "tz_lines (begin_line ty bom s) = tz_lines s" "tz_cur_line (begin_line ty bom s) = tz_cur_line s"
  by (simp_all add: begin_line_def Let_def)

lemma begin_line_ok:
  assumes "tz_cur_line s < length (tz_lines s)" "0 \<le> var_in_string s"
    and "if var_in_string s = 0 then string_type_stack s = []
      else string_type_stack s = [QUOTE] \<or> string_type_stack s = [MULTI_QUOTE] \<and> has_heredoc (tz_lines s)"
  shows "lex_ok (begin_line ty bom s)"
proof -
  define l where "l = (if tz_cur_line s = 0 \<and> bom \<and> take 3 (c_str (tz_lines s ! tz_cur_line s)) = [CHR 0xEF, CHR 0xBB, CHR 0xBF]
    then drop 3 (c_str (tz_lines s ! tz_cur_line s)) else c_str (tz_lines s ! tz_cur_line s))"
  have "sublist (drop 3 (c_str x)) x" for x
    using sublist_order.order_trans [OF sublist_drop sublist_c_str] .
  then have "sublist l (tz_lines s ! tz_cur_line s)" using sublist_c_str by (simp add: l_def)
  then show ?thesis
    unfolding begin_line_def Let_def l_def [symmetric]
    using assms suffix_drop by (auto simp: lex_ok_def)
qed

lemma next_line_ok:
  assumes "lex_ok s" "has_next s"
  shows "lex_ok (begin_line ty bom (s\<lparr>tz_cur_line := tz_cur_line s + 1\<rparr>))"
  using assms by (intro begin_line_ok) (auto simp: lex_ok_def has_next_def)

definition result_ok :: "string list \<Rightarrow> 'f parse_result \<Rightarrow> bool" where
  "result_ok lines r \<longleftrightarrow>
     (case r of Parsed ok s \<Rightarrow> tz_lines s = lines \<and> (\<not> ok \<longrightarrow> error_ok s)
      | Crashed \<Rightarrow> has_comment lines \<or> has_heredoc lines)"

lemma result_ok_simps [lex_simps]:
  "result_ok lines (Parsed ok s) \<longleftrightarrow> tz_lines s = lines \<and> (\<not> ok \<longrightarrow> error_ok s)"
  "result_ok lines Crashed \<longleftrightarrow> has_comment lines \<or> has_heredoc lines"
  by (simp_all add: result_ok_def)

lemma lex_rounds_result:
  assumes "lex_ok s"
  shows "\<exists>r. lex_rounds ops ty bom s = Some r \<and> result_ok (tz_lines s) r"
  using assms
proof (induction s rule: wf_induct_rule [OF wf_measures,
    of "[\<lambda>s. length (tz_lines s) - tz_cur_line s, \<lambda>s. length (lx_str s)]"])
  case (1 s)
  have step: "round_ok moves s (lex_step ops s)" using lex_step_ok [OF "1.prems"] .
  show ?case
  proof (cases "lex_step ops s")
    case (Continue t)
    with step have t: "lex_ok t" "moves s t" by (simp_all add: lex_simps)
    then have "\<exists>r. lex_rounds ops ty bom t = Some r \<and> result_ok (tz_lines t) r"
      by (intro "1.IH") (auto simp: moves_def lex_ok_def)
    with Continue t show ?thesis by (subst lex_rounds.simps) (simp add: moves_def)
  next
    case (NextLine t)
    with step have t: "lex_ok t" "moves_le s t" by (simp_all add: lex_simps)
    show ?thesis
    proof (cases "has_next t")
      case True
      let ?u = "begin_line ty bom (t\<lparr>tz_cur_line := tz_cur_line t + 1\<rparr>)"
      have "\<exists>r. lex_rounds ops ty bom ?u = Some r \<and> result_ok (tz_lines ?u) r"
        by (rule "1.IH") (use t next_line_ok [OF t(1) True] True in \<open>auto simp: moves_le_def has_next_def\<close>)
      with NextLine True t show ?thesis by (subst lex_rounds.simps) (simp add: moves_le_def)
    next
      case False
      with NextLine t show ?thesis by (subst lex_rounds.simps) (simp add: lex_simps moves_le_def)
    qed
  next
    case (Stop ok t)
    with step show ?thesis by (subst lex_rounds.simps) (simp add: lex_simps)
  next
    case Crash
    with step show ?thesis by (subst lex_rounds.simps) (simp add: lex_simps)
  qed
qed

lemma parseLines_result: "\<exists>r. parseLines ops ty bom s = Some r \<and> result_ok (tz_lines s) r"
proof -
  define t where "t = s\<lparr>tz_cur_line := 0, tz_cur_pos := 0,
    template_enabled := (ty = OS_SOURCECODE_TEMPLATE), is_template := (ty = OS_SOURCECODE_TEMPLATE),
    string_type := NOT_STRING, string_type_stack := [], var_in_string := 0, multi_string_id := []\<rparr>"
  have t: "tz_lines t = tz_lines s" by (simp add: t_def)
  show ?thesis
  proof (cases "tz_lines s = []")
    case True
    then show ?thesis by (simp add: parseLines_def Let_def lex_simps)
  next
    case False
    then have "lex_ok (begin_line ty bom t)" by (intro begin_line_ok) (simp_all add: t_def)
    from lex_rounds_result [OF this, of ops ty bom] False t show ?thesis
      by (simp add: parseLines_def Let_def flip: t_def)
  qed
qed

lemma parseLines_no_crash:
  assumes "\<not> has_comment (tz_lines s)" "\<not> has_heredoc (tz_lines s)"
  shows "\<exists>ok t. parseLines ops ty bom s = Some (Parsed ok t) \<and> (\<not> ok \<longrightarrow> error_ok t)"
proof -
  obtain r where r: "parseLines ops ty bom s = Some r" "result_ok (tz_lines s) r"
    using parseLines_result by blast
  with assms show ?thesis by (cases r) (auto simp: lex_simps)
qed

text \<open>
  C35: the tokenizer always returns: for every text, in each of the three source modes, with unclosed strings,
  injections, comments and templates of any nesting, after finitely many rounds \<open>parseText\<close> ends with
  success, an error or an invalid access, whatever the floating point operations are.
\<close>

theorem parseText_returns: "\<exists>r. parseText ops src ty bom s = Some r"
proof -
  obtain r where r: "parseLines ops ty bom (s\<lparr>tz_lines := split_lines src\<rparr>) = Some r"
    using parseLines_result by blast
  show ?thesis
  proof (cases r)
    case (Parsed ok t)
    then show ?thesis
      using r parseLines_result [of ops OS_SOURCECODE_PLAIN False "t\<lparr>tz_lines := [''return;'']\<rparr>"]
      by (auto simp: parseText_def Let_def)
  next
    case Crashed
    with r show ?thesis by (simp add: parseText_def Let_def)
  qed
qed

text \<open>
  C34: a text without \<open>/*\<close> and without \<open><<<\<close> is tokenized without an invalid access: no line is read that does not
  exist, the stack of string types is never popped when it is empty, and what is popped is always the type
  of a string with injections.  If the text is rejected, an error code is set and the error position lies in
  an existing line.
\<close>

theorem parseText_safe:
  assumes "\<not> has_comment (split_lines src)" "\<not> has_heredoc (split_lines src)"
  shows "\<exists>ok s'. parseText ops src ty bom s = Some (Parsed ok s') \<and> (\<not> ok \<longrightarrow> error_ok s')"
proof -
  obtain ok t where r: "parseLines ops ty bom (s\<lparr>tz_lines := split_lines src\<rparr>) = Some (Parsed ok t)"
    "\<not> ok \<longrightarrow> error_ok t"
    using parseLines_no_crash [of "s\<lparr>tz_lines := split_lines src\<rparr>" ops ty bom] assms by auto
  have "\<not> has_comment [''return;'']" "\<not> has_heredoc [''return;'']"
    by (simp_all add: has_comment_def has_heredoc_def sublist_code)
  then obtain ok' t' where "parseLines ops OS_SOURCECODE_PLAIN False (t\<lparr>tz_lines := [''return;'']\<rparr>) = Some (Parsed ok' t')"
    "\<not> ok' \<longrightarrow> error_ok t'"
    using parseLines_no_crash [of "t\<lparr>tz_lines := [''return;'']\<rparr>" ops OS_SOURCECODE_PLAIN False] by auto
  with r show ?thesis by (auto simp: parseText_def Let_def)
qed

theorem parseText_safe_witness:
  "\<forall>ops :: nat fops. \<exists>ok s'. parseText ops ''a+\"x'' OS_SOURCECODE_PLAIN False (new_lexer False) = Some (Parsed ok s')
     \<and> (ok \<or> error_ok s')"
proof
  fix ops :: "nat fops"
  have "split_lines ''a+\"x'' = [''a+\"x'']" by (simp add: split_lines.simps)
  then have "\<not> has_comment (split_lines ''a+\"x'')" "\<not> has_heredoc (split_lines ''a+\"x'')"
    by (simp_all add: has_comment_def has_heredoc_def sublist_code)
  then show "\<exists>ok s'. parseText ops ''a+\"x'' OS_SOURCECODE_PLAIN False (new_lexer False) = Some (Parsed ok s')
     \<and> (ok \<or> error_ok s')"
    using parseText_safe [of "''a+\"x''" ops OS_SOURCECODE_PLAIN False "new_lexer False"] by blast
qed

end
