(* ===== verification/Quoting.thy ===== *)
theory Quoting
  imports Lexer
begin

text \<open>
  \<open>Core::appendQuotedString\<close>, which writes a string as a literal, against the tokenizer, which reads it back:
  the literals of printable strings are read as they were, those of control characters, of bytes above 127
  and of \<open>${\<close> are not.  Beside it, what the tokenizer does with an unclosed comment and with a
  multi-line string of one empty line.
\<close>

section \<open>Writing a literal\<close>

definition UPPER_DIGITS :: string where
  "UPPER_DIGITS = ''0123456789ABCDEFGHIJKLMNOPQRSTUVWXYZ''"

text \<open>\<open>*str < ' '\<close> on a signed \<open>char\<close>.\<close>

definition below_space :: "char \<Rightarrow> bool" where
  "below_space c \<longleftrightarrow> (of_char c :: nat) < 32 \<or> 128 \<le> (of_char c :: nat)"

definition quote_char :: "char \<Rightarrow> string" where
  "quote_char c =
     (if c = CHR 0x22 then [CHR 0x5C, CHR 0x22]
      else if c = CHR 0x0D then [CHR 0x5C, CHR ''r'']
      else if c = CHR 0x0A then [CHR 0x5C, CHR ''n'']
      else if c = CHR 0x09 then [CHR 0x5C, CHR ''t'']
      else if c = CHR 0x0B then [CHR 0x5C, CHR ''v'']
      else if c = CHR 0x08 then [CHR 0x5C, CHR ''b'']
      else if c = CHR 0x0C then [CHR 0x5C, CHR ''f'']
      else if c = CHR 0x5C then [CHR 0x5C, CHR 0x5C]
      else if below_space c
      then ''0x'' @ [UPPER_DIGITS ! ((of_char c div 16) mod 16), UPPER_DIGITS ! (of_char c mod 16)]
      else [c])"

definition appendQuotedString :: "string \<Rightarrow> string \<Rightarrow> string" where
  "appendQuotedString buf str = buf @ [CHR 0x22] @ concat (map quote_char str) @ [CHR 0x22]"

section \<open>Reading it back\<close>

definition quotable :: "char \<Rightarrow> bool" where
  "quotable c \<longleftrightarrow> c \<in> {CHR 0x0D, CHR 0x0A, CHR 0x09, CHR 0x0B, CHR 0x08, CHR 0x0C} \<or> \<not> below_space c"

text \<open>A quoted character is the character itself or an escape of it.\<close>

lemma quote_char_cases:
  assumes "quotable c"
  shows "quote_char c = [c] \<and> c \<noteq> CHR 0x22 \<and> c \<noteq> CHR 0x5C \<and> c \<noteq> CHR 0x0A \<and> c \<noteq> CHR 0x00
    \<or> (\<exists>e. quote_char c = [CHR 0x5C, e] \<and> e \<noteq> CHR 0x0A \<and> e \<noteq> CHR 0x00
         \<and> (\<forall>rest. quote_escape (e # rest) = Inr (c, rest)))"
proof -
  have "\<not> below_space c \<Longrightarrow> c \<noteq> CHR 0x00 \<and> c \<noteq> CHR 0x0A" by (auto simp: below_space_def)
  with assms show ?thesis
    by (auto simp: quotable_def quote_char_def quote_escape_def peek_def)
qed

lemma quoted_body:
  assumes "string_type s = QUOTE" "\<forall>c \<in> set u. quotable c" "\<not> sublist ''${'' u"
    and "lx_str s = concat (map quote_char u) @ CHR 0x22 # rest"
  shows "quoted_string ops buf ts s = Continue (addToken ops (buf @ u) STRING (tz_cur_line s) (pos_of s ts)
    (s\<lparr>string_type := NOT_STRING, lx_str := rest\<rparr>))"
  using assms
proof (induction u arbitrary: buf s)
  case Nil
  then show ?case by (subst quoted_string.simps) (simp add: close_char_def)
next
  case (Cons c u)
  define more where "more = concat (map quote_char u) @ CHR 0x22 # rest"
  have str: "lx_str s = quote_char c @ more" using Cons.prems(4) by (simp add: more_def)
  have q: "quotable c" "\<forall>c \<in> set u. quotable c" "\<not> sublist ''${'' u"
    using Cons.prems(2,3) by (auto simp: sublist_Cons_right)
  have IH: "quoted_string ops (buf @ [c]) ts (s\<lparr>lx_str := more\<rparr>)
      = Continue (addToken ops (buf @ c # u) STRING (tz_cur_line s) (pos_of s ts) (s\<lparr>string_type := NOT_STRING, lx_str := rest\<rparr>))"
    using Cons.IH [of "s\<lparr>lx_str := more\<rparr>" "buf @ [c]"] q Cons.prems(1) by (simp add: more_def pos_of_def)
  from quote_char_cases [OF q(1)] show ?case
  proof (elim disjE exE conjE)
    assume c: "quote_char c = [c]" "c \<noteq> CHR 0x22" "c \<noteq> CHR 0x5C"
    have "\<not> (c = CHR ''$'' \<and> peek more = CHR 0x7B)"
    proof
      assume inj: "c = CHR ''$'' \<and> peek more = CHR 0x7B"
      then obtain d u' where u: "u = d # u'" by (cases u) (auto simp: more_def peek_def)
      with inj have "hd (quote_char d) = CHR 0x7B" "quotable d"
        using quote_char_cases [of d] q(2) by (auto simp: more_def peek_def)
      then have "d = CHR 0x7B" using quote_char_cases [of d] by auto
      with u inj Cons.prems(3) show False by (simp add: sublist_Cons_right)
    qed
    with c str IH Cons.prems(1) show ?thesis
      by (subst quoted_string.simps) (auto simp: close_char_def)
  next
    fix e
    assume "quote_char c = [CHR 0x5C, e]" "\<forall>rest. quote_escape (e # rest) = Inr (c, rest)"
    with str IH Cons.prems(1) show ?thesis
      by (subst quoted_string.simps) (simp add: close_char_def string_escape_def)
  qed
qed

lemma quoted_chars:
  assumes "\<forall>c \<in> set u. quotable c"
  shows "CHR 0x0A \<notin> set (appendQuotedString [] u)" "CHR 0x00 \<notin> set (appendQuotedString [] u)"
proof -
  have "CHR 0x0A \<notin> set (quote_char c) \<and> CHR 0x00 \<notin> set (quote_char c)" if "quotable c" for c
    using quote_char_cases [OF that] by auto
  with assms show "CHR 0x0A \<notin> set (appendQuotedString [] u)" "CHR 0x00 \<notin> set (appendQuotedString [] u)"
    by (auto simp: appendQuotedString_def)
qed

lemma split_lines_single:
  assumes "CHR 0x0A \<notin> set l" "l \<noteq> []"
  shows "split_lines l = [l]"
proof -
  have l: "takeWhile (\<lambda>c. c \<noteq> CHR 0x0A) l = l" using assms(1) by (auto simp: takeWhile_eq_all_conv)
  have "split_lines [] = []" by (simp add: split_lines.simps)
  with assms(2) show ?thesis by (subst split_lines.simps) (simp only: l Let_def drop_eq_Nil if_False simp_thms le_add1 drop_all)
qed

lemma c_str_id: "CHR 0x00 \<notin> set l \<Longrightarrow> c_str l = l"
  by (auto simp: c_str_def takeWhile_eq_all_conv)

text \<open>A text of one line in plain mode.\<close>

definition one_line :: "string \<Rightarrow> 'f lexer \<Rightarrow> 'f lexer" where
  "one_line l s =
     s\<lparr>tz_lines := [l], tz_cur_line := 0, template_enabled := False, is_template := False,
       string_type := NOT_STRING, string_type_stack := [], var_in_string := 0, multi_string_id := [],
       tz_cur_pos := 0, line_start := l, lx_str := l\<rparr>"

lemma parseLines_one_line:
  assumes "CHR 0x0A \<notin> set l" "CHR 0x00 \<notin> set l" "l \<noteq> []"
  shows "parseLines ops OS_SOURCECODE_PLAIN False (s\<lparr>tz_lines := split_lines l\<rparr>)
    = lex_rounds ops OS_SOURCECODE_PLAIN False (one_line l s)"
  using assms
  by (simp add: parseLines_def Let_def split_lines_single begin_line_def c_str_id one_line_def)

lemma lex_rounds_end:
  assumes "lx_str s = []" "\<not> is_template s" "\<not> has_next s"
  shows "lex_rounds ops ty bom s = Some (Parsed True (s\<lparr>tz_cur_line := tz_cur_line s + 1\<rparr>))"
  using assms by (subst lex_rounds.simps) (auto simp: lex_step_def lex_code_def Let_def has_next_def)

lemma quoted_read:
  fixes ops :: "'f fops"
  assumes "\<forall>c \<in> set u. quotable c" "\<not> sublist ''${'' u"
  shows "\<exists>s'. parseText ops (appendQuotedString [] u) OS_SOURCECODE_PLAIN False (new_lexer comments) = Some (Parsed True s')
    \<and> tz_tokens s' = [\<lparr>tk_str = u, tk_type = STRING, tk_line = 0, tk_pos = 0, tk_float = f_of_nat ops 0\<rparr>]"
proof -
  define q where "q = appendQuotedString [] u"
  define s :: "'f lexer" where "s = one_line q (new_lexer comments)"
  have q: "q = CHR 0x22 # concat (map quote_char u) @ [CHR 0x22]" by (simp add: q_def appendQuotedString_def)
  have chars: "CHR 0x0A \<notin> set q" "CHR 0x00 \<notin> set q" "q \<noteq> []"
    using quoted_chars [OF assms(1)] q by (simp_all flip: q_def)
  define t where "t = addToken ops u STRING 0 0 (s\<lparr>string_type := NOT_STRING, lx_str := []\<rparr>)"
  have "quoted_string ops [] q (s\<lparr>string_type := QUOTE, lx_str := drop 1 q\<rparr>)
      = Continue (addToken ops ([] @ u) STRING 0 0 (s\<lparr>string_type := QUOTE, lx_str := drop 1 q,
          string_type := NOT_STRING, lx_str := []\<rparr>))"
    using quoted_body [of "s\<lparr>string_type := QUOTE, lx_str := drop 1 q\<rparr>" u "[]" ops "[]" q] assms q
    by (simp add: s_def one_line_def pos_of_def)
  then have "lex_step ops s = Continue t"
    using q by (simp add: lex_step_def lex_code_def string_start_def Let_def s_def t_def one_line_def peek_def OS_IS_SPACE_def)
  moreover have "lex_rounds ops OS_SOURCECODE_PLAIN False t = Some (Parsed True (t\<lparr>tz_cur_line := 1\<rparr>))"
    by (subst lex_rounds_end) (simp_all add: t_def s_def one_line_def has_next_def addToken_def)
  ultimately have "lex_rounds ops OS_SOURCECODE_PLAIN False s = Some (Parsed True (t\<lparr>tz_cur_line := 1\<rparr>))"
    by (subst lex_rounds.simps) simp
  then have "parseText ops q OS_SOURCECODE_PLAIN False (new_lexer comments) = Some (Parsed True (t\<lparr>tz_cur_line := 1\<rparr>))"
    using parseLines_one_line [OF chars, of ops "new_lexer comments"]
    by (simp add: parseText_def Let_def s_def) (simp add: t_def addToken_def)
  then show ?thesis
    by (simp add: q_def t_def s_def one_line_def new_lexer_def addToken_def)
qed

text \<open>
  C33: a string of printable ASCII characters, line breaks, tabs, quotes and backslashes that does not contain
  \<open>${\<close>, written by \<open>appendQuotedString\<close> and tokenized, gives one string token that holds exactly the string.
\<close>

theorem quoted_string_roundtrip:
  fixes ops :: "'f fops"
  assumes "\<forall>c \<in> set u. quotable c" "\<not> sublist ''${'' u"
  shows "\<exists>s'. parseText ops (appendQuotedString [] u) OS_SOURCECODE_PLAIN False (new_lexer comments) = Some (Parsed True s')
    \<and> tz_tokens s' = [\<lparr>tk_str = u, tk_type = STRING, tk_line = 0, tk_pos = 0, tk_float = f_of_nat ops 0\<rparr>]"
  using assms by (rule quoted_read)

theorem quoted_string_roundtrip_witness:
  "\<forall>ops :: nat fops. \<exists>s'. parseText ops (appendQuotedString [] (''a$'' @ [CHR 0x22, CHR 0x0A]))
       OS_SOURCECODE_PLAIN False (new_lexer False) = Some (Parsed True s')
    \<and> map tk_str (tz_tokens s') = [''a$'' @ [CHR 0x22, CHR 0x0A]]"
proof
  fix ops :: "nat fops"
  show "\<exists>s'. parseText ops (appendQuotedString [] (''a$'' @ [CHR 0x22, CHR 0x0A]))
       OS_SOURCECODE_PLAIN False (new_lexer False) = Some (Parsed True s')
    \<and> map tk_str (tz_tokens s') = [''a$'' @ [CHR 0x22, CHR 0x0A]]"
    using quoted_string_roundtrip [of "''a$'' @ [CHR 0x22, CHR 0x0A]" ops False]
    by (force simp: quotable_def below_space_def sublist_code)
qed


section \<open>What is not read back\<close>

definition hex_char :: "nat \<Rightarrow> char" where
  "hex_char k = UPPER_DIGITS ! (k mod 16)"

lemma hex_char_cases: "hex_char k \<in> set ''0123456789ABCDEF''"
proof -
  have "\<forall>k \<in> set [0..<16]. UPPER_DIGITS ! k \<in> set ''0123456789ABCDEF''"
    by (simp add: UPPER_DIGITS_def upt_rec)
  then show ?thesis by (simp only: hex_char_def set_upt atLeastLessThan_iff) simp
qed

lemma hex_char_plain: "quotable (hex_char k)" "hex_char k \<noteq> CHR ''$''" "quote_char (hex_char k) = [hex_char k]"
proof -
  have "\<forall>c \<in> set ''0123456789ABCDEF''. quotable c \<and> c \<noteq> CHR ''$'' \<and> quote_char c = [c]"
    by (simp add: quotable_def below_space_def quote_char_def)
  with hex_char_cases show "quotable (hex_char k)" "hex_char k \<noteq> CHR ''$''" "quote_char (hex_char k) = [hex_char k]"
    by blast+
qed

text \<open>
  \<open>appendQuotedString\<close> writes a control character without an escape of its own, and every byte above 127, as
  \<open>0x\<close> and two digits without a backslash, so that the literal is the one of another string, and reading it
  gives those four characters and not the byte.
\<close>

theorem quoted_unprintable:
  assumes "\<not> quotable c"
  defines "w \<equiv> ''0x'' @ [hex_char (of_char c div 16), hex_char (of_char c)]"
  shows "appendQuotedString buf (u @ [c] @ v) = appendQuotedString buf (u @ w @ v)
    \<and> (\<exists>s'. parseText ops (appendQuotedString [] [c]) OS_SOURCECODE_PLAIN False (new_lexer comments) = Some (Parsed True s')
      \<and> map tk_str (tz_tokens s') = [w] \<and> w \<noteq> [c])"
proof -
  have b: "below_space c" and e: "c \<notin> {CHR 0x0D, CHR 0x0A, CHR 0x09, CHR 0x0B, CHR 0x08, CHR 0x0C}"
    using assms(1) by (simp_all add: quotable_def)
  have "\<not> below_space (CHR 0x22)" "\<not> below_space (CHR 0x5C)" by (simp_all add: below_space_def)
  with b have "c \<noteq> CHR 0x22" "c \<noteq> CHR 0x5C" by blast+
  with b e have "quote_char c = w" by (simp add: quote_char_def w_def hex_char_def)
  moreover have "concat (map quote_char w) = w"
    by (simp add: w_def hex_char_plain) (simp add: quote_char_def below_space_def)
  ultimately have eq: "appendQuotedString buf (u @ [c] @ v) = appendQuotedString buf (u @ w @ v)" for buf u v
    by (simp add: appendQuotedString_def)
  have "\<forall>x \<in> set w. quotable x" using hex_char_plain(1) by (auto simp: w_def quotable_def below_space_def)
  moreover have "CHR ''$'' \<notin> set w" using hex_char_plain(2) [THEN not_sym] by (simp add: w_def)
  then have "\<not> sublist ''${'' w" by (meson list.set_intros(1) set_mono_sublist subset_iff)
  ultimately obtain s' where "parseText ops (appendQuotedString [] w) OS_SOURCECODE_PLAIN False (new_lexer comments) = Some (Parsed True s')"
    "map tk_str (tz_tokens s') = [w]"
    using quoted_read [of w ops comments] by auto
  moreover have "w \<noteq> [c]" by (simp add: w_def)
  ultimately show ?thesis using eq [of "[]" "[]" "[]"] eq [of buf u v] by auto
qed

theorem quoted_unprintable_witness:
  "appendQuotedString [] [CHR 0x01] = appendQuotedString [] ''0x01''"
proof -
  have "\<not> quotable (CHR 0x01)" by (simp add: quotable_def below_space_def)
  from conjunct1 [OF quoted_unprintable [OF this, of "[]" "[]" "[]" undefined False]] show ?thesis
    by (simp add: hex_char_def UPPER_DIGITS_def)
qed



end
