(* ===== verification/Operators.thy ===== *)
theory Operators
  imports Lexer RefTables
begin

text \<open>
  The parser of binary operators, \<open>Compiler::finishBinaryOperator\<close>: an expression that has been read and the
  operators behind it become a tree by the levels of the operators.  The operands are read by
  \<open>expectSingleExpression\<close>, which is an argument of the model, as is \<open>newBinaryExpression\<close>, which builds the node.
  The first \<open>None\<close> of a result is a failed assertion, a null token or a recursion without end; the second is the
  null pointer the function returns behind an error.
\<close>

section \<open>Operators and their levels\<close>

datatype (plugins only: code) OperatorExpression =
  EXP_TYPE_UNKNOWN | EXP_TYPE_PARAMS | EXP_TYPE_INDIRECT | EXP_TYPE_CONCAT | EXP_TYPE_BEFORE_INJECT_VAR
| EXP_TYPE_AFTER_INJECT_VAR | EXP_TYPE_LENGTH | EXP_TYPE_LOGIC_AND | EXP_TYPE_LOGIC_OR | EXP_TYPE_LOGIC_PTR_EQ
| EXP_TYPE_LOGIC_PTR_NE | EXP_TYPE_LOGIC_EQ | EXP_TYPE_LOGIC_NE | EXP_TYPE_LOGIC_GE | EXP_TYPE_LOGIC_LE
| EXP_TYPE_LOGIC_GREATER | EXP_TYPE_LOGIC_LESS | EXP_TYPE_LOGIC_NOT | EXP_TYPE_LOGIC_BOOL | EXP_TYPE_QUESTION
| EXP_TYPE_IN | EXP_TYPE_IS | EXP_TYPE_AS | EXP_TYPE_BIT_AND | EXP_TYPE_BIT_OR | EXP_TYPE_BIT_XOR | EXP_TYPE_BIT_NOT
| EXP_TYPE_COMPARE | EXP_TYPE_ADD | EXP_TYPE_SUB | EXP_TYPE_MUL | EXP_TYPE_DIV | EXP_TYPE_MOD | EXP_TYPE_LSHIFT
| EXP_TYPE_RSHIFT | EXP_TYPE_POW | EXP_TYPE_PLUS | EXP_TYPE_MINUS | EXP_TYPE_PRE_INC | EXP_TYPE_PRE_DEC
| EXP_TYPE_POST_INC | EXP_TYPE_POST_DEC | EXP_TYPE_BIT_AND_ASSIGN | EXP_TYPE_BIT_OR_ASSIGN | EXP_TYPE_BIT_XOR_ASSIGN
| EXP_TYPE_BIT_NOT_ASSIGN | EXP_TYPE_ADD_ASSIGN | EXP_TYPE_SUB_ASSIGN | EXP_TYPE_MUL_ASSIGN | EXP_TYPE_DIV_ASSIGN
| EXP_TYPE_MOD_ASSIGN | EXP_TYPE_LSHIFT_ASSIGN | EXP_TYPE_RSHIFT_ASSIGN | EXP_TYPE_POW_ASSIGN | EXP_TYPE_ASSIGN

definition getExpressionType :: "TokenType \<Rightarrow> OperatorExpression" where
  "getExpressionType token_type =
     (case token_type of
        PARAM_SEPARATOR \<Rightarrow> EXP_TYPE_PARAMS
      | OPERATOR_INDIRECT \<Rightarrow> EXP_TYPE_INDIRECT
      | OPERATOR_CONCAT \<Rightarrow> EXP_TYPE_CONCAT
      | BEFORE_INJECT_VAR \<Rightarrow> EXP_TYPE_BEFORE_INJECT_VAR
      | AFTER_INJECT_VAR \<Rightarrow> EXP_TYPE_AFTER_INJECT_VAR
      | OPERATOR_LENGTH \<Rightarrow> EXP_TYPE_LENGTH
      | OPERATOR_LOGIC_AND \<Rightarrow> EXP_TYPE_LOGIC_AND
      | OPERATOR_LOGIC_OR \<Rightarrow> EXP_TYPE_LOGIC_OR
      | OPERATOR_LOGIC_PTR_EQ \<Rightarrow> EXP_TYPE_LOGIC_PTR_EQ
      | OPERATOR_LOGIC_PTR_NE \<Rightarrow> EXP_TYPE_LOGIC_PTR_NE
      | OPERATOR_LOGIC_EQ \<Rightarrow> EXP_TYPE_LOGIC_EQ
      | OPERATOR_LOGIC_NE \<Rightarrow> EXP_TYPE_LOGIC_NE
      | OPERATOR_LOGIC_GE \<Rightarrow> EXP_TYPE_LOGIC_GE
      | OPERATOR_LOGIC_LE \<Rightarrow> EXP_TYPE_LOGIC_LE
      | OPERATOR_LOGIC_GREATER \<Rightarrow> EXP_TYPE_LOGIC_GREATER
      | OPERATOR_LOGIC_LESS \<Rightarrow> EXP_TYPE_LOGIC_LESS
      | OPERATOR_LOGIC_NOT \<Rightarrow> EXP_TYPE_LOGIC_NOT
      | OPERATOR_QUESTION \<Rightarrow> EXP_TYPE_QUESTION
      | OPERATOR_IN \<Rightarrow> EXP_TYPE_IN
      | OPERATOR_IS \<Rightarrow> EXP_TYPE_IS
      | OPERATOR_AS \<Rightarrow> EXP_TYPE_AS
      | OPERATOR_BIT_AND \<Rightarrow> EXP_TYPE_BIT_AND
      | OPERATOR_BIT_OR \<Rightarrow> EXP_TYPE_BIT_OR
      | OPERATOR_BIT_XOR \<Rightarrow> EXP_TYPE_BIT_XOR
      | OPERATOR_BIT_NOT \<Rightarrow> EXP_TYPE_BIT_NOT
      | OPERATOR_COMPARE \<Rightarrow> EXP_TYPE_COMPARE
      | OPERATOR_ADD \<Rightarrow> EXP_TYPE_ADD
      | OPERATOR_SUB \<Rightarrow> EXP_TYPE_SUB
      | OPERATOR_MUL \<Rightarrow> EXP_TYPE_MUL
      | OPERATOR_DIV \<Rightarrow> EXP_TYPE_DIV
      | OPERATOR_MOD \<Rightarrow> EXP_TYPE_MOD
      | OPERATOR_LSHIFT \<Rightarrow> EXP_TYPE_LSHIFT
      | OPERATOR_RSHIFT \<Rightarrow> EXP_TYPE_RSHIFT
      | OPERATOR_POW \<Rightarrow> EXP_TYPE_POW
      | OPERATOR_BIT_AND_ASSIGN \<Rightarrow> EXP_TYPE_BIT_AND_ASSIGN
      | OPERATOR_BIT_OR_ASSIGN \<Rightarrow> EXP_TYPE_BIT_OR_ASSIGN
      | OPERATOR_BIT_XOR_ASSIGN \<Rightarrow> EXP_TYPE_BIT_XOR_ASSIGN
      | OPERATOR_BIT_NOT_ASSIGN \<Rightarrow> EXP_TYPE_BIT_NOT_ASSIGN
      | OPERATOR_ADD_ASSIGN \<Rightarrow> EXP_TYPE_ADD_ASSIGN
      | OPERATOR_SUB_ASSIGN \<Rightarrow> EXP_TYPE_SUB_ASSIGN
      | OPERATOR_MUL_ASSIGN \<Rightarrow> EXP_TYPE_MUL_ASSIGN
      | OPERATOR_DIV_ASSIGN \<Rightarrow> EXP_TYPE_DIV_ASSIGN
      | OPERATOR_MOD_ASSIGN \<Rightarrow> EXP_TYPE_MOD_ASSIGN
      | OPERATOR_LSHIFT_ASSIGN \<Rightarrow> EXP_TYPE_LSHIFT_ASSIGN
      | OPERATOR_RSHIFT_ASSIGN \<Rightarrow> EXP_TYPE_RSHIFT_ASSIGN
      | OPERATOR_POW_ASSIGN \<Rightarrow> EXP_TYPE_POW_ASSIGN
      | OPERATOR_ASSIGN \<Rightarrow> EXP_TYPE_ASSIGN
      | _ \<Rightarrow> EXP_TYPE_UNKNOWN)"

text \<open>The enumerators of \<open>OpcodeLevel\<close> are the integers from -1 on.\<close>

abbreviation OP_LEVEL_NOTHING :: int where "OP_LEVEL_NOTHING \<equiv> - 1"
abbreviation OP_LEVEL_0 :: int where "OP_LEVEL_0 \<equiv> 0"
abbreviation OP_LEVEL_1 :: int where "OP_LEVEL_1 \<equiv> 1"
abbreviation OP_LEVEL_1_1 :: int where "OP_LEVEL_1_1 \<equiv> 2"
abbreviation OP_LEVEL_2 :: int where "OP_LEVEL_2 \<equiv> 3"
abbreviation OP_LEVEL_3 :: int where "OP_LEVEL_3 \<equiv> 4"
abbreviation OP_LEVEL_4 :: int where "OP_LEVEL_4 \<equiv> 5"
abbreviation OP_LEVEL_5 :: int where "OP_LEVEL_5 \<equiv> 6"
abbreviation OP_LEVEL_6 :: int where "OP_LEVEL_6 \<equiv> 7"
abbreviation OP_LEVEL_7 :: int where "OP_LEVEL_7 \<equiv> 8"
abbreviation OP_LEVEL_8 :: int where "OP_LEVEL_8 \<equiv> 9"
abbreviation OP_LEVEL_9 :: int where "OP_LEVEL_9 \<equiv> 10"
abbreviation OP_LEVEL_10 :: int where "OP_LEVEL_10 \<equiv> 11"
abbreviation OP_LEVEL_11 :: int where "OP_LEVEL_11 \<equiv> 12"
abbreviation OP_LEVEL_12 :: int where "OP_LEVEL_12 \<equiv> 13"
abbreviation OP_LEVEL_13 :: int where "OP_LEVEL_13 \<equiv> 14"
abbreviation OP_LEVEL_14 :: int where "OP_LEVEL_14 \<equiv> 15"
abbreviation OP_LEVEL_15 :: int where "OP_LEVEL_15 \<equiv> 16"
abbreviation OP_LEVEL_16 :: int where "OP_LEVEL_16 \<equiv> 17"

definition isAssignOperator :: "OperatorExpression \<Rightarrow> bool" where
  "isAssignOperator exp_type =
     (case exp_type of
        EXP_TYPE_ASSIGN \<Rightarrow> True | EXP_TYPE_BIT_AND_ASSIGN \<Rightarrow> True | EXP_TYPE_BIT_OR_ASSIGN \<Rightarrow> True
      | EXP_TYPE_BIT_XOR_ASSIGN \<Rightarrow> True | EXP_TYPE_BIT_NOT_ASSIGN \<Rightarrow> True | EXP_TYPE_ADD_ASSIGN \<Rightarrow> True
      | EXP_TYPE_SUB_ASSIGN \<Rightarrow> True | EXP_TYPE_MUL_ASSIGN \<Rightarrow> True | EXP_TYPE_DIV_ASSIGN \<Rightarrow> True
      | EXP_TYPE_MOD_ASSIGN \<Rightarrow> True | EXP_TYPE_LSHIFT_ASSIGN \<Rightarrow> True | EXP_TYPE_RSHIFT_ASSIGN \<Rightarrow> True
      | EXP_TYPE_POW_ASSIGN \<Rightarrow> True
      | _ \<Rightarrow> False)"

definition getOpcodeLevel :: "OperatorExpression \<Rightarrow> int" where
  "getOpcodeLevel exp_type =
     (case exp_type of
        EXP_TYPE_ASSIGN \<Rightarrow> OP_LEVEL_1 | EXP_TYPE_BIT_AND_ASSIGN \<Rightarrow> OP_LEVEL_1 | EXP_TYPE_BIT_OR_ASSIGN \<Rightarrow> OP_LEVEL_1
      | EXP_TYPE_BIT_XOR_ASSIGN \<Rightarrow> OP_LEVEL_1 | EXP_TYPE_BIT_NOT_ASSIGN \<Rightarrow> OP_LEVEL_1 | EXP_TYPE_ADD_ASSIGN \<Rightarrow> OP_LEVEL_1
      | EXP_TYPE_SUB_ASSIGN \<Rightarrow> OP_LEVEL_1 | EXP_TYPE_MUL_ASSIGN \<Rightarrow> OP_LEVEL_1 | EXP_TYPE_DIV_ASSIGN \<Rightarrow> OP_LEVEL_1
      | EXP_TYPE_MOD_ASSIGN \<Rightarrow> OP_LEVEL_1 | EXP_TYPE_LSHIFT_ASSIGN \<Rightarrow> OP_LEVEL_1 | EXP_TYPE_RSHIFT_ASSIGN \<Rightarrow> OP_LEVEL_1
      | EXP_TYPE_POW_ASSIGN \<Rightarrow> OP_LEVEL_1
      | EXP_TYPE_PARAMS \<Rightarrow> OP_LEVEL_1_1
      | EXP_TYPE_QUESTION \<Rightarrow> OP_LEVEL_2
      | EXP_TYPE_LOGIC_OR \<Rightarrow> OP_LEVEL_3
      | EXP_TYPE_LOGIC_AND \<Rightarrow> OP_LEVEL_4
      | EXP_TYPE_CONCAT \<Rightarrow> OP_LEVEL_5
      | EXP_TYPE_LOGIC_PTR_EQ \<Rightarrow> OP_LEVEL_6 | EXP_TYPE_LOGIC_PTR_NE \<Rightarrow> OP_LEVEL_6 | EXP_TYPE_LOGIC_EQ \<Rightarrow> OP_LEVEL_6
      | EXP_TYPE_LOGIC_NE \<Rightarrow> OP_LEVEL_6
      | EXP_TYPE_LOGIC_GE \<Rightarrow> OP_LEVEL_7 | EXP_TYPE_LOGIC_LE \<Rightarrow> OP_LEVEL_7 | EXP_TYPE_LOGIC_GREATER \<Rightarrow> OP_LEVEL_7
      | EXP_TYPE_LOGIC_LESS \<Rightarrow> OP_LEVEL_7 | EXP_TYPE_COMPARE \<Rightarrow> OP_LEVEL_7
      | EXP_TYPE_BIT_OR \<Rightarrow> OP_LEVEL_8
      | EXP_TYPE_BIT_AND \<Rightarrow> OP_LEVEL_9 | EXP_TYPE_BIT_XOR \<Rightarrow> OP_LEVEL_9
      | EXP_TYPE_LSHIFT \<Rightarrow> OP_LEVEL_10 | EXP_TYPE_RSHIFT \<Rightarrow> OP_LEVEL_10
      | EXP_TYPE_ADD \<Rightarrow> OP_LEVEL_11 | EXP_TYPE_SUB \<Rightarrow> OP_LEVEL_11
      | EXP_TYPE_MUL \<Rightarrow> OP_LEVEL_12 | EXP_TYPE_DIV \<Rightarrow> OP_LEVEL_12 | EXP_TYPE_MOD \<Rightarrow> OP_LEVEL_12
      | EXP_TYPE_POW \<Rightarrow> OP_LEVEL_13 | EXP_TYPE_IN \<Rightarrow> OP_LEVEL_13 | EXP_TYPE_IS \<Rightarrow> OP_LEVEL_13 | EXP_TYPE_AS \<Rightarrow> OP_LEVEL_13
      | EXP_TYPE_PRE_INC \<Rightarrow> OP_LEVEL_14 | EXP_TYPE_PRE_DEC \<Rightarrow> OP_LEVEL_14 | EXP_TYPE_POST_INC \<Rightarrow> OP_LEVEL_14
      | EXP_TYPE_POST_DEC \<Rightarrow> OP_LEVEL_14
      | EXP_TYPE_LOGIC_BOOL \<Rightarrow> OP_LEVEL_15 | EXP_TYPE_LOGIC_NOT \<Rightarrow> OP_LEVEL_15 | EXP_TYPE_PLUS \<Rightarrow> OP_LEVEL_15
      | EXP_TYPE_MINUS \<Rightarrow> OP_LEVEL_15 | EXP_TYPE_LENGTH \<Rightarrow> OP_LEVEL_15 | EXP_TYPE_BIT_NOT \<Rightarrow> OP_LEVEL_15
      | EXP_TYPE_INDIRECT \<Rightarrow> OP_LEVEL_16 | EXP_TYPE_BEFORE_INJECT_VAR \<Rightarrow> OP_LEVEL_16
      | EXP_TYPE_AFTER_INJECT_VAR \<Rightarrow> OP_LEVEL_16
      | EXP_TYPE_UNKNOWN \<Rightarrow> OP_LEVEL_0)"

section \<open>The parser\<close>

text \<open>\<open>recent_token\<close> with the tokens behind it, and whether an error has been set.\<close>

record 'f parser =
  rest_tokens :: "'f token list"
  is_error :: bool

definition readToken :: "'f parser \<Rightarrow> 'f parser" where
  "readToken st = (if is_error st then st else st\<lparr>rest_tokens := tl (rest_tokens st)\<rparr>)"

text \<open>A name that stands where an operator is expected becomes the operator \<open>in\<close>, \<open>is\<close> or \<open>as\<close>.\<close>

definition name_operator :: "bool \<Rightarrow> 'f parser \<Rightarrow> 'f parser" where
  "name_operator allow_in st =
     (case rest_tokens st of
        [] \<Rightarrow> st
      | t # ts \<Rightarrow>
          if tk_type t = NAME then
            (if tk_str t = ''in'' then (if allow_in then st\<lparr>rest_tokens := t\<lparr>tk_type := OPERATOR_IN\<rparr> # ts\<rparr> else st)
             else if tk_str t = ''is'' then st\<lparr>rest_tokens := t\<lparr>tk_type := OPERATOR_IS\<rparr> # ts\<rparr>
             else if tk_str t = ''as'' then st\<lparr>rest_tokens := t\<lparr>tk_type := OPERATOR_AS\<rparr> # ts\<rparr>
             else st)
          else st)"

definition operator_follows :: "bool \<Rightarrow> 'f parser \<Rightarrow> bool" where
  "operator_follows allow_params st =
     (case rest_tokens st of
        [] \<Rightarrow> False
      | t # ts \<Rightarrow> isTypeOf (tk_type t) BINARY_OPERATOR \<and> (allow_params \<or> tk_type t \<noteq> PARAM_SEPARATOR))"

type_synonym ('e, 'f) single = "bool \<Rightarrow> 'f parser \<Rightarrow> 'e option \<times> 'f parser"
type_synonym ('e, 'f) builder =
  "OperatorExpression \<Rightarrow> 'f token \<Rightarrow> 'e option \<Rightarrow> 'e option \<Rightarrow> 'f parser \<Rightarrow> 'e option \<times> 'f parser"

definition op_of :: "'f token \<Rightarrow> OperatorExpression" where "op_of t = getExpressionType (tk_type t)"

definition op_level :: "'f token \<Rightarrow> int" where "op_level t = getOpcodeLevel (op_of t)"

definition right_level_of :: "'f token \<Rightarrow> 'f token \<Rightarrow> int" where
  "right_level_of left right =
     (if op_of left \<noteq> EXP_TYPE_PARAMS \<and> isAssignOperator (op_of right) then op_level left + 1 else op_level right)"

text \<open>The parameters: what reads an operand and what builds a node, and the two flags of \<open>Params\<close> that matter here.\<close>

record ('e, 'f) params =
  expectSingleExpression :: "('e, 'f) single"
  newBinaryExpression :: "('e, 'f) builder"
  allow_params :: bool
  allow_in_operator :: bool

text \<open>The operand behind the operator, and a name behind it turned into an operator.\<close>

definition read_operand :: "('e, 'f) params \<Rightarrow> 'f parser \<Rightarrow> 'e option \<times> 'f parser" where
  "read_operand p st =
     (case expectSingleExpression p (allow_in_operator p) (readToken st) of
        (None, st) \<Rightarrow> (None, st)
      | (Some e, st) \<Rightarrow> (Some e, name_operator (allow_in_operator p) st))"

text \<open>What the operator and its operand and the operator behind them ask for, up to the first call of itself.\<close>

datatype ('e, 'f) operator_step =
  Return "'e option" bool "'f parser"
| Go_on "'e option" "'f parser"
| Climb "'f token" 'e "'f parser"

definition operator_step ::
  "('e, 'f) params \<Rightarrow> int \<Rightarrow> 'e option \<Rightarrow> 'f parser \<Rightarrow> ('e, 'f) operator_step option" where
  "operator_step p prev_level exp st =
     (case rest_tokens st of
        [] \<Rightarrow> None
      | left # _ \<Rightarrow>
          os_assert (isTypeOf (tk_type left) BINARY_OPERATOR)
            (case read_operand p st of
               (None, st) \<Rightarrow> Some (Return None True st)
             | (Some exp2, st) \<Rightarrow>
                 if \<not> operator_follows (allow_params p) st
                 then (case newBinaryExpression p (op_of left) left exp (Some exp2) st of (exp, st) \<Rightarrow> Some (Return exp True st))
                 else
                   let right_level = right_level_of left (hd (rest_tokens st))
                   in if op_level left = right_level
                      then (case newBinaryExpression p (op_of left) left exp (Some exp2) st of (exp, st) \<Rightarrow> Some (Go_on exp st))
                      else if op_level left > right_level
                      then (case newBinaryExpression p (op_of left) left exp (Some exp2) st of
                              (exp, st) \<Rightarrow>
                                if prev_level \<ge> right_level then Some (Return exp False st) else Some (Go_on exp st))
                      else Some (Climb left exp2 st)))"

partial_function (option) finishBinaryOperator ::
  "('e, 'f) params \<Rightarrow> int \<Rightarrow> 'e option \<Rightarrow> 'f parser \<Rightarrow>
    ('e option \<times> bool \<times> 'f parser) option" where
  "finishBinaryOperator p prev_level exp st =
     Option.bind (operator_step p prev_level exp st) (\<lambda>step.
       case step of
         Return exp is_finished st \<Rightarrow> Some (exp, is_finished, st)
       | Go_on exp st \<Rightarrow> finishBinaryOperator p prev_level exp st
       | Climb left exp2 st \<Rightarrow>
           Option.bind (finishBinaryOperator p (op_level left) (Some exp2) st)
             (\<lambda>(exp2, is_finished, st).
               if exp2 = None then Some (None, is_finished, st)
               else if is_finished
               then (case newBinaryExpression p (op_of left) left exp exp2 st of (exp, st) \<Rightarrow> Some (exp, True, st))
               else finishBinaryOperator p prev_level
                      (fst (newBinaryExpression p (op_of left) left exp exp2 st)) (snd (newBinaryExpression p (op_of left) left exp exp2 st))))"

declare finishBinaryOperator.simps [code]

section \<open>Operators and operands in the source\<close>

text \<open>
  \<open>reads_operators .. st ops st'\<close>: from \<open>st\<close> the tokens are the operators and operands \<open>ops\<close>, at least one pair of
  them, and \<open>st'\<close> is behind them.
\<close>

inductive reads_operators ::
  "('e, 'f) params \<Rightarrow> 'f parser \<Rightarrow> ('f token \<times> 'e) list \<Rightarrow> 'f parser \<Rightarrow> bool"
  for p :: "('e, 'f) params" where
  last: "\<lbrakk> rest_tokens st = t # ts; isTypeOf (tk_type t) BINARY_OPERATOR; tk_type t \<noteq> BINARY_OPERATOR; read_operand p st = (Some e, st');
    \<not> operator_follows (allow_params p) st' \<rbrakk>
    \<Longrightarrow> reads_operators p st [(t, e)] st'"
| more: "\<lbrakk> rest_tokens st = t # ts; isTypeOf (tk_type t) BINARY_OPERATOR; tk_type t \<noteq> BINARY_OPERATOR; read_operand p st = (Some e, st2);
    operator_follows (allow_params p) st2;
    reads_operators p st2 ops st' \<rbrakk>
    \<Longrightarrow> reads_operators p st ((t, e) # ops) st'"

inductive_cases reads_operators_Nil: "reads_operators p st [] st'"
inductive_cases reads_operators_Cons: "reads_operators p st ((t, e) # ops) st'"

definition op_assigns :: "'f token \<Rightarrow> bool" where "op_assigns t = isAssignOperator (op_of t)"

definition op_params :: "'f token \<Rightarrow> bool" where "op_params t \<longleftrightarrow> op_of t = EXP_TYPE_PARAMS"

text \<open>The trees over operators and operands, and what they are read from.\<close>

datatype ('e, 'f) optree = Operand 'e | Binary "'f token" "('e, 'f) optree" "('e, 'f) optree"

fun first_operand :: "('e, 'f) optree \<Rightarrow> 'e" where
  "first_operand (Operand e) = e"
| "first_operand (Binary t l r) = first_operand l"

fun operators :: "('e, 'f) optree \<Rightarrow> ('f token \<times> 'e) list" where
  "operators (Operand e) = []"
| "operators (Binary t l r) = operators l @ (t, first_operand r) # operators r"

fun build :: "('f token \<Rightarrow> 'e \<Rightarrow> 'e \<Rightarrow> 'e) \<Rightarrow> ('e, 'f) optree \<Rightarrow> 'e" where
  "build f (Operand e) = e"
| "build f (Binary t l r) = f t (build f l) (build f r)"

text \<open>
  The precedence of operators: a left operand is not of a lower level than its operator, a right operand is of a higher
  level, or an assignment that is not behind a comma; an assignment has an operand, a list or an assignment on its left.
\<close>

fun root_ok :: "('f token \<Rightarrow> bool) \<Rightarrow> ('e, 'f) optree \<Rightarrow> bool" where
  "root_ok P (Operand e) = True"
| "root_ok P (Binary t l r) = P t"

definition joins :: "'f token \<Rightarrow> 'f token \<Rightarrow> bool" where
  "joins t u \<longleftrightarrow> op_level t \<le> op_level u \<and> (op_assigns t \<longrightarrow> op_assigns u \<or> op_params u)"

fun precedence_ok :: "('e, 'f) optree \<Rightarrow> bool" where
  "precedence_ok (Operand e) = True"
| "precedence_ok (Binary t l r) \<longleftrightarrow> precedence_ok l \<and> precedence_ok r
     \<and> root_ok (joins t) l \<and> root_ok (\<lambda>u. op_level u > op_level t \<or> op_assigns u \<and> \<not> op_params t) r"

text \<open>
  \<open>relapses p ops\<close>: among \<open>ops\<close> there are two rising operators above the level \<open>p\<close> with one of at most the level \<open>p\<close>
  behind them.
\<close>

fun falls_after_rise :: "int \<Rightarrow> int \<Rightarrow> 'f token list \<Rightarrow> bool" where
  "falls_after_rise p q [] = False"
| "falls_after_rise p q (t # ts) \<longleftrightarrow> (q < op_level t \<and> (\<exists>u\<in>set ts. op_level u \<le> p)) \<or> falls_after_rise p q ts"

fun relapses :: "int \<Rightarrow> 'f token list \<Rightarrow> bool" where
  "relapses p [] = False"
| "relapses p (t # ts) \<longleftrightarrow> (p < op_level t \<and> falls_after_rise p (op_level t) ts) \<or> relapses p ts"

fun relapse_free :: "'f token list \<Rightarrow> bool" where
  "relapse_free [] = True"
| "relapse_free (t # ts) \<longleftrightarrow> \<not> relapses (op_level t) ts \<and> relapse_free ts"

section \<open>Levels\<close>

lemma level_assigns: "op_assigns t \<longleftrightarrow> op_level t = 1" and level_params: "op_params t \<longleftrightarrow> op_level t = 2"
  by (cases "op_of t"; simp add: op_assigns_def op_params_def op_level_def getOpcodeLevel_def isAssignOperator_def)+

lemma level_pos:
  assumes "isTypeOf (tk_type t) BINARY_OPERATOR" "tk_type t \<noteq> BINARY_OPERATOR"
  shows "1 \<le> op_level t"
  using assms
  by (cases "tk_type t"; simp add: isTypeOf_def binary_operator_types_def op_level_def op_of_def getExpressionType_def
      getOpcodeLevel_def)

lemma reads_levels: "reads_operators p st ops st' \<Longrightarrow> ops \<noteq> [] \<and> (\<forall>t\<in>set (map fst ops). 1 \<le> op_level t)"
  by (induction rule: reads_operators.induct) (auto dest: level_pos)

lemma right_level_of_level:
  "right_level_of t u = (if \<not> op_params t \<and> op_assigns u then op_level t + 1 else op_level u)"
  by (simp add: right_level_of_def op_params_def op_assigns_def)

lemma falls_after_rise_suffix: "falls_after_rise p q ys \<Longrightarrow> falls_after_rise p q (xs @ ys)"
  by (induction xs) auto

lemma relapses_suffix: "relapses p ys \<Longrightarrow> relapses p (xs @ ys)"
  by (induction xs) (auto intro: falls_after_rise_suffix)

lemma relapse_free_suffix: "relapse_free (xs @ ys) \<Longrightarrow> relapse_free ys"
  by (induction xs) auto

section \<open>Steps of the climb\<close>

definition ready :: "int \<Rightarrow> ('e, 'f) optree \<Rightarrow> 'f token list \<Rightarrow> bool" where
  "ready prev t0 ts \<longleftrightarrow> precedence_ok t0 \<and> root_ok (joins (hd ts)) t0
     \<and> (op_assigns (hd ts) \<or> prev < op_level (hd ts)) \<and> \<not> relapses prev ts \<and> relapse_free ts"

definition parsed :: "int \<Rightarrow> 'f token \<Rightarrow> ('e, 'f) optree \<Rightarrow> 'f token list \<Rightarrow> bool" where
  "parsed prev u t rest \<longleftrightarrow> precedence_ok t \<and> root_ok (\<lambda>v. prev < op_level v \<or> op_assigns v \<and> op_assigns u) t
     \<and> (rest \<noteq> [] \<longrightarrow> root_ok (joins (hd rest)) t)"

text \<open>\<open>climbed prev t0 ops t rest\<close>: from \<open>t0\<close> and the operators \<open>ops\<close> the climb above \<open>prev\<close> has made \<open>t\<close>, leaving \<open>rest\<close>.\<close>

definition climbed ::
  "int \<Rightarrow> ('e, 'f) optree \<Rightarrow> ('f token \<times> 'e) list \<Rightarrow> ('e, 'f) optree \<Rightarrow> ('f token \<times> 'e) list \<Rightarrow> bool" where
  "climbed prev t0 ops t rest \<longleftrightarrow> first_operand t = first_operand t0 \<and> operators t0 @ ops = operators t @ rest
     \<and> length rest < length ops \<and> (rest \<noteq> [] \<longrightarrow> op_level (fst (hd rest)) \<le> prev)
     \<and> (op_assigns (fst (hd ops)) \<longrightarrow> rest = [])
     \<and> (ready prev t0 (map fst ops) \<longrightarrow> parsed prev (fst (hd ops)) t (map fst rest))"

lemma climbed_last: "climbed prev t0 [(u, e)] (Binary u t0 (Operand e)) []"
  unfolding climbed_def by (auto simp: parsed_def ready_def)

lemma climbed_stop:
  assumes "op_level v < op_level u" "op_level v \<le> prev" "1 \<le> op_level v" "op_assigns v \<Longrightarrow> op_params u"
  shows "climbed prev t0 ((u, e) # (v, d) # ops) (Binary u t0 (Operand e)) ((v, d) # ops)"
proof -
  have "\<not> op_assigns u" using assms(1,3) by (simp add: level_assigns)
  then show ?thesis
    using assms unfolding climbed_def by (auto simp: parsed_def ready_def joins_def)
qed

lemma climbed_go_on:
  assumes "climbed prev (Binary u t0 (Operand e)) ((v, d) # ops) t rest"
    and "op_level v \<le> op_level u" "1 \<le> op_level v" "op_assigns v \<Longrightarrow> op_params u"
    and "op_level v = op_level u \<or> prev < op_level v"
  shows "climbed prev t0 ((u, e) # (v, d) # ops) t rest"
proof -
  have nu: "\<not> op_assigns u" using assms(2-4) by (auto simp: level_assigns level_params)
  have "ready prev (Binary u t0 (Operand e)) (v # map fst ops)" if "ready prev t0 (u # v # map fst ops)"
    using that assms(2-5) nu by (auto simp: ready_def joins_def)
  moreover have "parsed prev u t (map fst rest)"
    if "parsed prev v t (map fst rest)" "ready prev t0 (u # v # map fst ops)"
  proof -
    have "prev < op_level v" using assms(5) that(2) nu by (auto simp: ready_def)
    then show ?thesis using that(1) by (cases t) (auto simp: parsed_def level_assigns)
  qed
  ultimately show ?thesis using assms(1) nu unfolding climbed_def by simp
qed

lemma climbed_right:
  assumes "climbed (op_level u) (Operand e) ((v, d) # ops) r rest"
    and "op_level u < right_level_of u v" "1 \<le> op_level v"
    and "ready prev t0 (u # v # map fst ops)"
  shows "parsed (op_level u) v r (map fst rest)" "precedence_ok (Binary u t0 r)"
proof -
  have level: "op_assigns v \<or> op_level u < op_level v"
    using assms(2) by (simp add: right_level_of_level split: if_splits)
  then have "ready (op_level u) (Operand e) (v # map fst ops)" using assms(4) by (auto simp: ready_def)
  then show r: "parsed (op_level u) v r (map fst rest)" using assms(1) by (simp add: climbed_def)
  have "op_params u \<Longrightarrow> \<not> op_assigns v"
    using assms(2) by (auto simp: right_level_of_level level_assigns level_params)
  then show "precedence_ok (Binary u t0 r)" using assms(4) r by (cases r) (auto simp: parsed_def ready_def)
qed

lemma climbed_climb_last:
  assumes "climbed (op_level u) (Operand e) ((v, d) # ops) r []"
    and "op_level u < right_level_of u v" "1 \<le> op_level v"
  shows "climbed prev t0 ((u, e) # (v, d) # ops) (Binary u t0 r) []"
proof -
  have "parsed prev u (Binary u t0 r) []" if "ready prev t0 (u # v # map fst ops)"
    using climbed_right(2) [OF assms that] that by (auto simp: parsed_def ready_def)
  moreover have "operators r = (v, d) # ops" "first_operand r = e" using assms(1) by (simp_all add: climbed_def)
  ultimately show ?thesis unfolding climbed_def by simp
qed

lemma climbed_climb:
  assumes r: "climbed (op_level u) (Operand e) ((v, d) # ops) r ((w, c) # rest)"
    and up: "op_level u < right_level_of u v" "1 \<le> op_level v" "1 \<le> op_level w" "1 \<le> op_level u"
    and t: "climbed prev (Binary u t0 r) ((w, c) # rest) t rest'"
  shows "climbed prev t0 ((u, e) # (v, d) # ops) t rest'"
proof -
  have low: "op_level w \<le> op_level u" and nv: "\<not> op_assigns v" and ops: "(v, d) # ops = operators r @ (w, c) # rest"
    and len: "length rest < length ops" and first: "first_operand r = e"
    using r by (auto simp: climbed_def)
  have assigns: "op_assigns u \<Longrightarrow> op_assigns w" using low up(3) by (simp add: level_assigns)
  have rise: "op_level u < op_level v" using up(1) nv by (simp add: right_level_of_level split: if_splits)
  obtain xs where xs: "ops = xs @ (w, c) # rest"
    using ops len by (cases "operators r") auto
  have ready: "ready prev (Binary u t0 r) (w # map fst rest) \<and> (op_assigns u \<or> prev < op_level w)"
    if ready: "ready prev t0 (u # v # map fst ops)"
  proof -
    note right = climbed_right [OF r up(1,2) ready]
    have "\<not> relapses prev (map fst xs @ w # map fst rest)" "relapse_free (map fst xs @ w # map fst rest)"
      using ready by (simp_all add: ready_def xs)
    then have later: "\<not> relapses prev (w # map fst rest)" "relapse_free (w # map fst rest)"
      using relapses_suffix relapse_free_suffix by blast+
    have above: "op_assigns u \<or> prev < op_level w"
      using ready rise by (force simp: ready_def xs)
    moreover have "op_assigns w \<Longrightarrow> op_assigns u \<or> op_params u"
      using right(1) nv up(4) unfolding parsed_def
      by (cases r) (use len ops in \<open>auto simp: joins_def level_assigns level_params\<close>)
    ultimately show ?thesis using right(2) later low assigns by (auto simp: ready_def joins_def)
  qed
  have "parsed prev u t (map fst rest')"
    if "parsed prev w t (map fst rest')" "op_assigns u \<or> prev < op_level w"
    using that assigns by (cases t) (auto simp: parsed_def level_assigns)
  with ready t have parsed: "ready prev t0 (u # v # map fst ops) \<longrightarrow> parsed prev u t (map fst rest')"
    by (auto simp: climbed_def)
  have "operators t0 @ (u, e) # (v, d) # ops = operators t @ rest'" using t first by (simp add: climbed_def ops)
  moreover have "first_operand t = first_operand t0" "length rest' < Suc (length rest)"
    "rest' \<noteq> [] \<longrightarrow> op_level (fst (hd rest')) \<le> prev" "op_assigns w \<longrightarrow> rest' = []"
    using t by (auto simp: climbed_def)
  ultimately show ?thesis using parsed len assigns unfolding climbed_def by auto
qed

section \<open>The climb\<close>

lemma finish_climbs:
  assumes build: "\<And>ty tok l r st. newBinaryExpression p ty tok (Some l) (Some r) st = (Some (f tok l r), st)"
    and "reads_operators p st ops st_end"
  shows "\<exists>t rest st'. finishBinaryOperator p prev (Some (build f t0)) st = Some (Some (build f t), rest = [], st')
    \<and> climbed prev t0 ops t rest \<and> (if rest = [] then st' = st_end else reads_operators p st' rest st_end)"
  using assms(2)
proof (induction "length ops" arbitrary: prev t0 st ops rule: less_induct)
  case less
  note step = finishBinaryOperator.simps [of p prev "Some (build f t0)" st]
  from less.prems show ?case
  proof (cases rule: reads_operators.cases)
    case (last u ts e)
    then have "operator_step p prev (Some (build f t0)) st = Some (Return (Some (build f (Binary u t0 (Operand e)))) True st_end)"
      by (simp add: operator_step_def build)
    then show ?thesis using last climbed_last [of prev t0 u e]
      by (intro exI [of _ "Binary u t0 (Operand e)"] exI [of _ "[]"] exI [of _ st_end]) (simp add: step)
  next
    case (more u ts e st2 ops')
    obtain v d ops2 where ops': "ops' = (v, d) # ops2" "\<exists>ts2. rest_tokens st2 = v # ts2"
      using more(7) by (cases rule: reads_operators.cases) auto
    have pos: "1 \<le> op_level v" "1 \<le> op_level u" using reads_levels [OF less.prems] more(1) ops'(1) by auto
    let ?t = "Binary u t0 (Operand e)" and ?r = "right_level_of u v"
    have run: "operator_step p prev (Some (build f t0)) st = Some
        (if op_level u = ?r then Go_on (Some (build f ?t)) st2
         else if op_level u > ?r then if prev \<ge> ?r then Return (Some (build f ?t)) False st2 else Go_on (Some (build f ?t)) st2
         else Climb u e st2)"
      using more ops'(2) by (auto simp: operator_step_def build Let_def)
    have IH: "\<exists>t rest st'. finishBinaryOperator p prev (Some (build f t0)) st = Some (Some (build f t), rest = [], st')
        \<and> climbed prev t0 ops t rest \<and> (if rest = [] then st' = st_end else reads_operators p st' rest st_end)"
      if "length ops < length (((u, e) # ops'))" "reads_operators p st ops st_end" for prev t0 st ops
      using less.hyps that more(1) by blast
    have go_on: ?thesis if "op_level u = ?r \<or> ?r < op_level u \<and> prev < ?r"
    proof -
      obtain t rest st' where t: "finishBinaryOperator p prev (Some (build f ?t)) st2 = Some (Some (build f t), rest = [], st')"
        "climbed prev ?t ops' t rest" "if rest = [] then st' = st_end else reads_operators p st' rest st_end"
        using IH [of ops' st2 prev ?t] more(7) by auto
      have "?r = op_level v" "op_assigns v \<Longrightarrow> op_params u"
        using that by (auto simp: right_level_of_level split: if_splits)
      then have "climbed prev t0 ops t rest"
        using climbed_go_on [of prev u t0 e v d ops2 t rest] t(2) that pos more(1) ops'(1) by auto
      with that t run show ?thesis by (intro exI [of _ t] exI [of _ rest] exI [of _ st']) (auto simp: step)
    qed
    consider "op_level u = ?r" | "?r < op_level u" "?r \<le> prev" | "?r < op_level u" "prev < ?r" | "op_level u < ?r"
      by linarith
    then show ?thesis
    proof cases
      case 2
      then have "\<not> (\<not> op_params u \<and> op_assigns v)" "?r = op_level v" by (auto simp: right_level_of_level split: if_splits)
      then have "climbed prev t0 ops ?t ops'"
        using climbed_stop [of v u prev t0 e d ops2] 2 pos more(1) ops'(1) by auto
      with 2 run ops'(1) more(7) show ?thesis
        by (intro exI [of _ ?t] exI [of _ ops'] exI [of _ st2]) (simp add: step)
    next
      case 4
      obtain r rest1 st1 where r: "finishBinaryOperator p (op_level u) (Some e) st2 = Some (Some (build f r), rest1 = [], st1)"
        "climbed (op_level u) (Operand e) ops' r rest1"
        "if rest1 = [] then st1 = st_end else reads_operators p st1 rest1 st_end"
        using IH [of ops' st2 "op_level u" "Operand e"] more(7) by auto
      show ?thesis
      proof (cases rest1)
        case Nil
        then have "climbed prev t0 ops (Binary u t0 r) []"
          using climbed_climb_last [of u e v d ops2 r prev t0] r(2) 4 pos more(1) ops'(1) by simp
        with Nil r 4 run show ?thesis
          by (intro exI [of _ "Binary u t0 r"] exI [of _ "[]"] exI [of _ st1]) (simp add: step build)
      next
        case (Cons w rest2)
        then have later: "reads_operators p st1 rest1 st_end" "length rest1 < length ops'"
          using r(2,3) by (auto simp: climbed_def)
        have w: "1 \<le> op_level (fst w)" using reads_levels [OF later(1)] Cons by auto
        obtain t rest st' where t:
          "finishBinaryOperator p prev (Some (build f (Binary u t0 r))) st1 = Some (Some (build f t), rest = [], st')"
          "climbed prev (Binary u t0 r) rest1 t rest"
          "if rest = [] then st' = st_end else reads_operators p st' rest st_end"
          using IH [of rest1 st1 prev "Binary u t0 r"] later by auto
        have "climbed prev t0 ops t rest"
          using climbed_climb [of u e v d ops2 r "fst w" "snd w" rest2 prev t0 t rest] r(2) t(2) 4 pos w more(1) ops'(1) Cons
          by simp
        with t r 4 run Cons show ?thesis
          by (intro exI [of _ t] exI [of _ rest] exI [of _ st']) (simp add: step build)
      qed
    qed (use go_on in auto)
  qed
qed

lemma no_fall_to_nothing: "\<forall>t\<in>set us. 1 \<le> op_level t \<Longrightarrow> \<not> falls_after_rise OP_LEVEL_NOTHING q us"
  by (induction us) force+

lemma no_relapse_to_nothing: "\<forall>t\<in>set ts. 1 \<le> op_level t \<Longrightarrow> \<not> relapses OP_LEVEL_NOTHING ts"
  by (induction ts) (auto simp: no_fall_to_nothing)

lemma finish_from_start:
  assumes "\<And>ty tok l r st. newBinaryExpression p ty tok (Some l) (Some r) st = (Some (f tok l r), st)"
    and "reads_operators p st ops st_end"
  shows "\<exists>t. finishBinaryOperator p OP_LEVEL_NOTHING (Some e) st = Some (Some (build f t), True, st_end)
    \<and> climbed OP_LEVEL_NOTHING (Operand e) ops t []"
proof -
  obtain t rest st' where t: "finishBinaryOperator p OP_LEVEL_NOTHING (Some e) st = Some (Some (build f t), rest = [], st')"
    "climbed OP_LEVEL_NOTHING (Operand e) ops t rest" "if rest = [] then st' = st_end else reads_operators p st' rest st_end"
    using finish_climbs [OF assms, of OP_LEVEL_NOTHING "Operand e"] by auto
  have "rest = []"
  proof (cases rest)
    case (Cons w ws)
    then show ?thesis using t(2,3) reads_levels [of p st' rest st_end] by (auto simp: climbed_def)
  qed simp
  with t show ?thesis by auto
qed

section \<open>Parsing the operators of an expression\<close>



section \<open>Examples\<close>

definition sample_token :: "TokenType \<Rightarrow> string \<Rightarrow> unit token" where
  "sample_token ty str = \<lparr>tk_str = str, tk_type = ty, tk_line = 0, tk_pos = 0, tk_float = ()\<rparr>"

text \<open>Operands are names, and a node is its text in brackets.\<close>

definition sample_node :: "unit token \<Rightarrow> string \<Rightarrow> string \<Rightarrow> string" where
  "sample_node tok l r = CHR ''('' # l @ tk_str tok @ r @ '')''"

definition sample_params :: "(string, unit) params" where
  "sample_params =
     \<lparr>expectSingleExpression =
        (\<lambda>_ st. case rest_tokens st of
                 [] \<Rightarrow> (None, st) | t # _ \<Rightarrow> if tk_type t = NAME then (Some (tk_str t), readToken st) else (None, st)),
      newBinaryExpression =
        (\<lambda>_ tok l r st. (Option.bind l (\<lambda>l. map_option (sample_node tok l) r), st)),
      allow_params = True, allow_in_operator = True\<rparr>"

definition sample_parser :: "(TokenType \<times> string) list \<Rightarrow> unit parser" where
  "sample_parser ts = \<lparr>rest_tokens = map (\<lambda>(ty, str). sample_token ty str) ts, is_error = False\<rparr>"

abbreviation name_of :: "string \<Rightarrow> TokenType \<times> string" where "name_of str \<equiv> (NAME, str)"

lemma sample_reads:
  assumes "ty \<in> set binary_operator_types"
  shows "reads_operators sample_params (sample_parser [(ty, o1), name_of e]) [(sample_token ty o1, e)] (sample_parser [])"
    "ty2 \<in> set binary_operator_types \<Longrightarrow>
      reads_operators sample_params (sample_parser ((ty2, o2) # ts)) ops st \<Longrightarrow>
      reads_operators sample_params (sample_parser ((ty, o1) # name_of e # (ty2, o2) # ts)) ((sample_token ty o1, e) # ops) st"
proof -
  have ty: "isTypeOf ty BINARY_OPERATOR" "ty \<noteq> BINARY_OPERATOR" if "ty \<in> set binary_operator_types" for ty
    using that by (auto simp: isTypeOf_def binary_operator_types_def)
  have name: "ty \<noteq> NAME" if "ty \<in> set binary_operator_types" for ty using that by (auto simp: binary_operator_types_def)
  show "reads_operators sample_params (sample_parser [(ty, o1), name_of e]) [(sample_token ty o1, e)] (sample_parser [])"
    using ty [OF assms]
    by (intro reads_operators.last [where ts = "[sample_token NAME e]"])
      (simp_all add: sample_parser_def sample_token_def read_operand_def sample_params_def readToken_def
        name_operator_def operator_follows_def)
  show "reads_operators sample_params (sample_parser ((ty, o1) # name_of e # (ty2, o2) # ts)) ((sample_token ty o1, e) # ops) st"
    if "ty2 \<in> set binary_operator_types" "reads_operators sample_params (sample_parser ((ty2, o2) # ts)) ops st"
    using ty [OF assms] ty [OF that(1)] name [OF that(1)]
    by (intro reads_operators.more [OF _ _ _ _ _ that(2)])
      (simp_all add: sample_parser_def sample_token_def read_operand_def sample_params_def readToken_def
        name_operator_def operator_follows_def)
qed

text \<open>\<open>x = a + b * c - d\<close>\<close>

definition sample_source :: "(TokenType \<times> string) list" where
  "sample_source =
     [(OPERATOR_ASSIGN, ''=''), name_of ''a'', (OPERATOR_ADD, ''+''), name_of ''b'', (OPERATOR_MUL, ''*''), name_of ''c'',
      (OPERATOR_SUB, ''-''), name_of ''d'']"

definition sample_operators :: "(unit token \<times> string) list" where
  "sample_operators =
     [(sample_token OPERATOR_ASSIGN ''='', ''a''), (sample_token OPERATOR_ADD ''+'', ''b''),
      (sample_token OPERATOR_MUL ''*'', ''c''), (sample_token OPERATOR_SUB ''-'', ''d'')]"

lemma sample_source_reads: "reads_operators sample_params (sample_parser sample_source) sample_operators (sample_parser [])"
  unfolding sample_source_def sample_operators_def
  by (intro sample_reads) (simp_all add: binary_operator_types_def)

lemma sample_builds: "newBinaryExpression sample_params ty tok (Some l) (Some r) st = (Some (sample_node tok l r), st)"
  by (simp add: sample_params_def)



text \<open>
  C11: the condition is needed: \<open>a == b + c * d && e\<close> becomes \<open>a == ((b + (c * d)) && e)\<close>.  Behind the operators that
  rose the parser goes on with \<open>&&\<close> inside of the right operand of \<open>==\<close>, although \<open>&&\<close> is of a lower level; the
  same operators and operands have a tree that respects the precedence.
\<close>

theorem finishBinaryOperator_relapse:
  "\<exists>t u. finishBinaryOperator sample_params OP_LEVEL_NOTHING (Some ''a'')
      (sample_parser [(OPERATOR_LOGIC_EQ, ''==''), name_of ''b'', (OPERATOR_ADD, ''+''), name_of ''c'', (OPERATOR_MUL, ''*''),
         name_of ''d'', (OPERATOR_LOGIC_AND, ''&&''), name_of ''e'']) = Some (Some (build sample_node t), True, sample_parser [])
    \<and> build sample_node t = ''(a==((b+(c*d))&&e))'' \<and> \<not> precedence_ok t
    \<and> first_operand u = first_operand t \<and> operators u = operators t \<and> precedence_ok u"
proof -
  let ?sum = "Binary (sample_token OPERATOR_ADD ''+'') (Operand ''b'')
    (Binary (sample_token OPERATOR_MUL ''*'') (Operand ''c'') (Operand ''d''))"
  let ?eq = "sample_token OPERATOR_LOGIC_EQ ''==''" and ?and = "sample_token OPERATOR_LOGIC_AND ''&&''"
  let ?t = "Binary ?eq (Operand ''a'') (Binary ?and ?sum (Operand ''e''))"
  let ?u = "Binary ?and (Binary ?eq (Operand ''a'') ?sum) (Operand ''e'')"
  have t: "finishBinaryOperator sample_params OP_LEVEL_NOTHING (Some ''a'')
      (sample_parser [(OPERATOR_LOGIC_EQ, ''==''), name_of ''b'', (OPERATOR_ADD, ''+''), name_of ''c'', (OPERATOR_MUL, ''*''),
         name_of ''d'', (OPERATOR_LOGIC_AND, ''&&''), name_of ''e'']) = Some (Some (build sample_node ?t), True, sample_parser [])"
    by code_simp
  have "build sample_node ?t = ''(a==((b+(c*d))&&e))''" "\<not> precedence_ok ?t" "precedence_ok ?u" by code_simp+
  moreover have "first_operand ?u = first_operand ?t" "operators ?u = operators ?t" by simp_all
  ultimately show ?thesis using t by (intro exI [of _ ?t] exI [of _ ?u] conjI)
qed

end
