(* ===== verification/Closures.thy ===== *)
theory Closures
  imports Program RefCount PropTable "HOL-Library.Multiset"
begin

text \<open>
  \<open>Core::Locals\<close>: the local variables of a function as an object of its own.  While the function runs they lie on the
  value stack; a function value created meanwhile captures them, and when the function returns before its captors are
  gone, the variables that inner functions use (the upvalues) move to the heap.  The instructions \<open>OP_GET_UPVALUE\<close> and
  \<open>OP_SET_UPVALUE\<close> reach the variables of an enclosing function through the array of parents, in which only the first
  entry is counted.

  A result \<open>None\<close> is a failed \<open>OS_ASSERT\<close>, an access to locals that have been freed or to values that are not there.
  References to programs are not counted in the model.
\<close>

section \<open>State\<close>

text \<open>Where \<open>values\<close> points: into the buffer of the value stack, to a block of its own, or nowhere.\<close>

datatype values_at = On_stack nat | On_heap "os_value list" | No_values

record locals =
  lc_ref_count :: int
  lc_func_decl :: function_decl
  lc_values :: values_at
  lc_is_stack_locals :: bool
  lc_parents :: "addr list"

text \<open>
  \<open>cl_frames\<close> are the locals of the running functions, the current one first; \<open>cl_funcs\<close> the declaration and the
  captured locals of the function values that exist.
\<close>

record closures =
  cl_core :: core
  cl_stack :: "os_value list"
  cl_locals :: "addr \<Rightarrow> locals option"
  cl_frames :: "addr list"
  cl_funcs :: "addr \<Rightarrow> (function_decl \<times> addr option) option"

section \<open>Reference counts of locals\<close>

definition locals_retain :: "addr \<Rightarrow> closures \<Rightarrow> closures option" where
  "locals_retain a s =
     (case cl_locals s a of
        None \<Rightarrow> None
      | Some l \<Rightarrow> Some (s\<lparr>cl_locals := (cl_locals s)(a \<mapsto> l\<lparr>lc_ref_count := lc_ref_count l + 1\<rparr>)\<rparr>))"

text \<open>\<open>--locals->ref_count > 0\<close>\<close>

definition drop_locals_ref :: "addr \<Rightarrow> closures \<Rightarrow> (bool \<times> closures) option" where
  "drop_locals_ref a s =
     (case cl_locals s a of
        None \<Rightarrow> None
      | Some l \<Rightarrow>
          Some (lc_ref_count l - 1 > 0,
                s\<lparr>cl_locals := (cl_locals s)(a \<mapsto> l\<lparr>lc_ref_count := lc_ref_count l - 1\<rparr>)\<rparr>))"

definition free_locals :: "addr \<Rightarrow> closures \<Rightarrow> closures option" where
  "free_locals a s =
     (case cl_locals s a of
        None \<Rightarrow> None
      | Some l \<Rightarrow>
          Option.bind
            (case lc_values l of
               On_heap vs \<Rightarrow> if \<not> lc_is_stack_locals l then releaseValues vs (cl_core s) else Some (cl_core s)
             | _ \<Rightarrow> Some (cl_core s))
            (\<lambda>c. Some (s\<lparr>cl_core := c, cl_locals := (cl_locals s)(a := None)\<rparr>)))"

partial_function (option) deleteLocals :: "addr \<Rightarrow> closures \<Rightarrow> closures option" where
  "deleteLocals a s =
     (case cl_locals s a of
        None \<Rightarrow> None
      | Some l \<Rightarrow>
          Option.bind
            (if fd_func_depth (lc_func_decl l) > 0
             then (case lc_parents l of
                     [] \<Rightarrow> None
                   | p # _ \<Rightarrow>
                       Option.bind (drop_locals_ref p s) (\<lambda>(alive, s). if alive then Some s else deleteLocals p s))
             else Some s)
            (free_locals a))"

definition releaseLocals :: "addr \<Rightarrow> closures \<Rightarrow> closures option" where
  "releaseLocals a s = Option.bind (drop_locals_ref a s) (\<lambda>(alive, s). if alive then Some s else deleteLocals a s)"

declare deleteLocals.simps [code]

section \<open>Function values\<close>

text \<open>\<open>pushFunctionValue\<close>: the new function value holds the locals of the running function.\<close>

definition capture_locals :: "addr \<Rightarrow> function_decl \<Rightarrow> closures \<Rightarrow> closures option" where
  "capture_locals f decl s =
     os_assert (cl_funcs s f = None)
       (case cl_frames s of
          [] \<Rightarrow> Some (s\<lparr>cl_funcs := (cl_funcs s)(f \<mapsto> (decl, None))\<rparr>)
        | a # _ \<Rightarrow>
            Option.bind (locals_retain a s) (\<lambda>s. Some (s\<lparr>cl_funcs := (cl_funcs s)(f \<mapsto> (decl, Some a))\<rparr>)))"

text \<open>\<open>clearFunctionValue\<close>, when the function value is destroyed.\<close>

definition drop_captured :: "addr \<Rightarrow> closures \<Rightarrow> closures option" where
  "drop_captured f s =
     (case cl_funcs s f of
        None \<Rightarrow> None
      | Some (decl, captured) \<Rightarrow>
          let s = s\<lparr>cl_funcs := (cl_funcs s)(f := None)\<rparr>
          in (case captured of None \<Rightarrow> Some s | Some a \<Rightarrow> releaseLocals a s))"

section \<open>Entering and leaving a function\<close>

text \<open>The locals of a call, at the address \<open>a\<close>: \<open>parents\<close> are those of the function value.\<close>

definition call_parents :: "function_decl \<Rightarrow> addr option \<Rightarrow> closures \<Rightarrow> (addr list \<times> closures) option" where
  "call_parents decl captured s =
     (if fd_func_depth decl > 0 then
        (case captured of
           None \<Rightarrow> None
         | Some p \<Rightarrow>
             (case cl_locals s p of
                None \<Rightarrow> None
              | Some l \<Rightarrow>
                  os_assert (fd_func_depth (lc_func_decl l) = fd_func_depth decl - 1)
                    (Option.bind (locals_retain p s) (\<lambda>s.
                       Some (p # take (nat (fd_func_depth decl - 1)) (lc_parents l), s)))))
      else Some ([], s))"

definition set_values :: "nat \<Rightarrow> 'a list \<Rightarrow> 'a list \<Rightarrow> 'a list option" where
  "set_values pos vs buf =
     os_assert (pos + length vs \<le> length buf) (Some (take pos buf @ vs @ drop (pos + length vs) buf))"

definition enter_locals :: "addr \<Rightarrow> addr \<Rightarrow> nat \<Rightarrow> nat \<Rightarrow> closures \<Rightarrow> closures option" where
  "enter_locals a f start_pos call_params s =
     os_assert (cl_locals s a = None)
       (case cl_funcs s f of
          None \<Rightarrow> None
        | Some (decl, captured) \<Rightarrow>
            Option.bind (call_parents decl captured s) (\<lambda>(parents, s).
            Option.bind (set_values (start_pos + call_params)
                (replicate (nat (fd_stack_size decl - int call_params)) VNull) (cl_stack s)) (\<lambda>stack.
              Some (s\<lparr>cl_stack := stack, cl_frames := a # cl_frames s,
                      cl_locals := (cl_locals s)(a \<mapsto>
                        \<lparr>lc_ref_count = 1, lc_func_decl = decl, lc_values = On_stack start_pos,
                         lc_is_stack_locals = True, lc_parents = parents\<rparr>)\<rparr>))))"

text \<open>\<open>clearStackFunction\<close>: the upvalues of locals that somebody still holds move to the heap.\<close>

definition locals_get :: "closures \<Rightarrow> locals \<Rightarrow> nat \<Rightarrow> os_value option" where
  "locals_get s l i =
     (case lc_values l of
        On_stack pos \<Rightarrow> os_assert (pos + i < length (cl_stack s)) (Some (cl_stack s ! (pos + i)))
      | On_heap vs \<Rightarrow> os_assert (i < length vs) (Some (vs ! i))
      | No_values \<Rightarrow> None)"

definition is_upvalue :: "function_decl \<Rightarrow> nat \<Rightarrow> bool" where
  "is_upvalue decl i \<longleftrightarrow> i < length (fd_locals decl) \<and> var_upvalue (fd_locals decl ! i)"

fun copy_upvalues :: "closures \<Rightarrow> locals \<Rightarrow> nat list \<Rightarrow> core \<Rightarrow> (os_value list \<times> core) option" where
  "copy_upvalues s l [] c = Some ([], c)"
| "copy_upvalues s l (i # is) c =
     os_assert (i < length (fd_locals (lc_func_decl l)))
       (if is_upvalue (lc_func_decl l) i
        then Option.bind (locals_get s l i) (\<lambda>v. Option.bind (retainValue v c) (\<lambda>c.
               Option.bind (copy_upvalues s l is c) (\<lambda>(vs, c). Some (v # vs, c))))
        else Option.bind (copy_upvalues s l is c) (\<lambda>(vs, c). Some (VNull # vs, c)))"

definition leave_locals :: "closures \<Rightarrow> closures option" where
  "leave_locals s =
     (case cl_frames s of
        [] \<Rightarrow> None
      | a # frames \<Rightarrow>
          Option.bind (drop_locals_ref a (s\<lparr>cl_frames := frames\<rparr>)) (\<lambda>(alive, s).
            if alive then
              (case cl_locals s a of
                 None \<Rightarrow> None
               | Some l \<Rightarrow>
                   let n = nat (fd_num_locals (lc_func_decl l)) in
                   Option.bind (copy_upvalues s l [0..<n] (cl_core s)) (\<lambda>(vs, c).
                     let used = (n > 0 \<and> (\<exists>i<n. is_upvalue (lc_func_decl l) i));
                         l = l\<lparr>lc_values := (if used then On_heap vs else No_values), lc_is_stack_locals := False\<rparr>
                     in Some (s\<lparr>cl_core := c, cl_locals := (cl_locals s)(a \<mapsto> l)\<rparr>)))
            else deleteLocals a s))"

section \<open>Upvalues\<close>

text \<open>The locals that argument \<open>C\<close> of the instruction names, with the assertions.\<close>

definition upvalue_scope :: "closures \<Rightarrow> int \<Rightarrow> int \<Rightarrow> (addr \<times> locals) option" where
  "upvalue_scope s c i =
     (case cl_frames s of
        [] \<Rightarrow> None
      | a # _ \<Rightarrow>
          (case cl_locals s a of
             None \<Rightarrow> None
           | Some l \<Rightarrow>
               os_assert (0 < c \<and> c \<le> fd_max_up_count (lc_func_decl l))
              (os_assert (c \<le> fd_func_depth (lc_func_decl l))
              (os_assert (nat (c - 1) < length (lc_parents l))
                (let p = lc_parents l ! nat (c - 1) in
                 case cl_locals s p of
                   None \<Rightarrow> None
                 | Some scope \<Rightarrow>
                     os_assert (0 \<le> i \<and> i < fd_num_locals (lc_func_decl scope))
                       (os_assert (is_upvalue (lc_func_decl scope) (nat i)) (Some (p, scope))))))))"

text \<open>\<open>stack_func_locals[a]\<close> of the running function.\<close>

definition stack_slot :: "closures \<Rightarrow> int \<Rightarrow> nat option" where
  "stack_slot s i =
     (case cl_frames s of
        [] \<Rightarrow> None
      | a # _ \<Rightarrow>
          (case cl_locals s a of
             None \<Rightarrow> None
           | Some l \<Rightarrow>
               (case lc_values l of
                  On_stack pos \<Rightarrow>
                    os_assert (0 \<le> i \<and> i < fd_stack_size (lc_func_decl l) \<and> pos + nat i < length (cl_stack s))
                      (Some (pos + nat i))
                | _ \<Rightarrow> None)))"

definition exec_OP_GET_UPVALUE :: "int \<Rightarrow> int \<Rightarrow> int \<Rightarrow> closures \<Rightarrow> closures option" where
  "exec_OP_GET_UPVALUE a b c s =
     Option.bind (stack_slot s a) (\<lambda>slot.
     Option.bind (upvalue_scope s c b) (\<lambda>(p, scope).
     Option.bind (locals_get s scope (nat b)) (\<lambda>v.
       Some (s\<lparr>cl_stack := (cl_stack s)[slot := v]\<rparr>))))"

definition exec_OP_SET_UPVALUE :: "int \<Rightarrow> int \<Rightarrow> int \<Rightarrow> closures \<Rightarrow> closures option" where
  "exec_OP_SET_UPVALUE a b c s =
     Option.bind (stack_slot s b) (\<lambda>slot.
     Option.bind (upvalue_scope s c a) (\<lambda>(p, scope).
       case lc_values scope of
         On_stack pos \<Rightarrow>
           os_assert (lc_is_stack_locals scope \<and> pos + nat a < length (cl_stack s))
             (Some (s\<lparr>cl_stack := (cl_stack s)[pos + nat a := cl_stack s ! slot]\<rparr>))
       | On_heap vs \<Rightarrow>
           os_assert (\<not> lc_is_stack_locals scope \<and> nat a < length vs)
             (Option.bind (setValue (vs ! nat a) (cl_stack s ! slot) (cl_core s)) (\<lambda>(v, core).
               Some (s\<lparr>cl_core := core,
                       cl_locals := (cl_locals s)(p \<mapsto> scope\<lparr>lc_values := On_heap (vs[nat a := v])\<rparr>)\<rparr>)))
       | No_values \<Rightarrow> None))"

section \<open>The invariant\<close>

definition captors :: "closures \<Rightarrow> addr \<Rightarrow> addr set" where
  "captors s a = {f. \<exists>d. cl_funcs s f = Some (d, Some a)}"

definition children :: "closures \<Rightarrow> addr set \<Rightarrow> addr \<Rightarrow> addr set" where
  "children s D a = {b. b \<notin> D \<and> (\<exists>l ps. cl_locals s b = Some l \<and> lc_parents l = a # ps)}"

definition decl_ok :: "function_decl \<Rightarrow> bool" where
  "decl_ok d \<longleftrightarrow>
     0 \<le> fd_func_depth d \<and> fd_num_locals d = int (length (fd_locals d)) \<and> fd_num_locals d \<le> fd_stack_size d"

definition values_ok :: "closures \<Rightarrow> locals \<Rightarrow> bool" where
  "values_ok s l \<longleftrightarrow>
     (case lc_values l of
        On_stack pos \<Rightarrow> lc_is_stack_locals l \<and> pos + nat (fd_stack_size (lc_func_decl l)) \<le> length (cl_stack s)
      | On_heap vs \<Rightarrow> \<not> lc_is_stack_locals l \<and> length vs = length (fd_locals (lc_func_decl l))
      | No_values \<Rightarrow> \<not> lc_is_stack_locals l \<and> (\<forall>i. \<not> is_upvalue (lc_func_decl l) i))"

text \<open>Who is whose parent does not depend on the counts and the values.\<close>

definition parents_at :: "closures \<Rightarrow> addr \<Rightarrow> addr list option" where
  "parents_at s a = map_option lc_parents (cl_locals s a)"

definition parents_ok :: "closures \<Rightarrow> bool \<Rightarrow> locals \<Rightarrow> bool" where
  "parents_ok s alive l \<longleftrightarrow>
     (case lc_parents l of
        [] \<Rightarrow> True
      | p # ps \<Rightarrow> parents_at s p = Some ps \<or> \<not> alive \<and> parents_at s p = None)"

text \<open>
  \<open>locals_inv s ex D\<close>: \<open>ex\<close> are references about to be released, \<open>D\<close> the locals that are being deleted.  The count of
  locals is the number of running functions, function values, direct children and pending references that hold them; the
  parents of locals are their first parent and its parents.
\<close>

definition local_ok :: "closures \<Rightarrow> addr list \<Rightarrow> addr set \<Rightarrow> addr \<Rightarrow> locals \<Rightarrow> bool" where
  "local_ok s ex D a l \<longleftrightarrow>
     decl_ok (lc_func_decl l) \<and> length (lc_parents l) = nat (fd_func_depth (lc_func_decl l)) \<and> values_ok s l
     \<and> parents_ok s (a \<notin> D) l
     \<and> (a \<notin> D \<longrightarrow> (a \<in> set (cl_frames s) \<longrightarrow> lc_is_stack_locals l) \<and> 0 < lc_ref_count l
          \<and> lc_ref_count l = int (count_list (cl_frames s @ ex) a + card (captors s a) + card (children s D a)))"

definition func_ok :: "closures \<Rightarrow> function_decl \<times> addr option \<Rightarrow> bool" where
  "func_ok s fc \<longleftrightarrow> decl_ok (fst fc)
     \<and> (case snd fc of
          None \<Rightarrow> fd_func_depth (fst fc) = 0
        | Some a \<Rightarrow> \<exists>l. cl_locals s a = Some l \<and> fd_func_depth (fst fc) = fd_func_depth (lc_func_decl l) + 1)"

definition unheld :: "closures \<Rightarrow> addr list \<Rightarrow> addr set \<Rightarrow> addr \<Rightarrow> bool" where
  "unheld s ex D a \<longleftrightarrow> a \<notin> set (cl_frames s @ ex) \<and> captors s a = {} \<and> children s D a = {}"

definition locals_inv :: "closures \<Rightarrow> addr list \<Rightarrow> addr set \<Rightarrow> bool" where
  "locals_inv s ex D \<longleftrightarrow>
     finite (dom (cl_locals s)) \<and> finite (dom (cl_funcs s)) \<and> set (cl_frames s @ ex) \<subseteq> dom (cl_locals s)
     \<and> (\<forall>a l. cl_locals s a = Some l \<longrightarrow> local_ok s ex D a l)
     \<and> (\<forall>f fc. cl_funcs s f = Some fc \<longrightarrow> func_ok s fc) \<and> (\<forall>a\<in>D. unheld s ex D a)"

definition heap_values :: "locals \<Rightarrow> os_value list" where
  "heap_values l = (case lc_values l of On_heap vs \<Rightarrow> vs | _ \<Rightarrow> [])"

definition held_values :: "closures \<Rightarrow> os_value multiset" where
  "held_values s = (\<Sum>a\<in>dom (cl_locals s). mset (heap_values (the (cl_locals s a))))"

definition values_counted :: "closures \<Rightarrow> os_value list \<Rightarrow> nat \<Rightarrow> bool" where
  "values_counted s rest k \<longleftrightarrow> \<not> gc_fix_in_progress (cl_core s) \<and> size (held_values s) + length rest + k < 2 ^ 31 - 1
     \<and> (\<exists>refs. counts_ok (cl_core s) refs \<and> mset refs = held_values s + mset rest)"

text \<open>Locals have gone or lost references, nothing else.\<close>

definition same_but_count :: "locals \<Rightarrow> locals \<Rightarrow> bool" where
  "same_but_count l l' \<longleftrightarrow> lc_func_decl l' = lc_func_decl l \<and> lc_values l' = lc_values l
     \<and> lc_is_stack_locals l' = lc_is_stack_locals l \<and> lc_parents l' = lc_parents l"

definition shrunk :: "closures \<Rightarrow> closures \<Rightarrow> bool" where
  "shrunk s s' \<longleftrightarrow> cl_stack s' = cl_stack s \<and> cl_frames s' = cl_frames s \<and> cl_funcs s' = cl_funcs s
     \<and> value_members (cl_core s') = value_members (cl_core s)
     \<and> (\<forall>b l'. cl_locals s' b = Some l' \<longrightarrow> (\<exists>l. cl_locals s b = Some l \<and> same_but_count l l'))"

lemma shrunk_refl: "shrunk s s"
  by (simp add: shrunk_def same_but_count_def)

lemma shrunk_trans: "shrunk s t \<Longrightarrow> shrunk t u \<Longrightarrow> shrunk s u"
  unfolding shrunk_def same_but_count_def by metis

section \<open>Releasing locals\<close>

text \<open>A change of counts alone.\<close>

definition set_count :: "addr \<Rightarrow> int \<Rightarrow> closures \<Rightarrow> closures" where
  "set_count a n s = s\<lparr>cl_locals := (cl_locals s)(a := map_option (lc_ref_count_update (\<lambda>_. n)) (cl_locals s a))\<rparr>"

lemma set_count_simps [simp]:
  "cl_stack (set_count a n s) = cl_stack s" "cl_frames (set_count a n s) = cl_frames s"
  "cl_funcs (set_count a n s) = cl_funcs s" "cl_core (set_count a n s) = cl_core s"
  "dom (cl_locals (set_count a n s)) = dom (cl_locals s)"
  "captors (set_count a n s) = captors s"
  by (auto simp: set_count_def captors_def fun_eq_iff split: if_splits)

lemma set_count_locals:
  "cl_locals (set_count a n s) b = (if b = a then map_option (lc_ref_count_update (\<lambda>_. n)) (cl_locals s b) else cl_locals s b)"
  by (simp add: set_count_def)

lemma parents_at_set_count [simp]: "parents_at (set_count a n s) = parents_at s"
proof
  show "parents_at (set_count a n s) b = parents_at s b" for b
    by (cases "b = a"; cases "cl_locals s b") (simp_all add: parents_at_def set_count_locals)
qed

lemma children_parents_at: "children s D a = {b. b \<notin> D \<and> (\<exists>ps. parents_at s b = Some (a # ps))}"
  by (auto simp: children_def parents_at_def)

lemma set_count_children [simp]: "children (set_count a n s) D b = children s D b"
  by (simp add: children_parents_at)

lemma set_count_values_ok [simp]:
  "values_ok (set_count a n s) l = values_ok s l" "values_ok s (l\<lparr>lc_ref_count := m\<rparr>) = values_ok s l"
  by (simp_all add: values_ok_def split: values_at.split)

lemma set_count_parents_ok: "parents_ok s alive l \<Longrightarrow> parents_ok (set_count a n s) alive l"
  by (simp add: parents_ok_def split: list.splits)

lemma parents_ok_count [simp]: "parents_ok s alive (l\<lparr>lc_ref_count := m\<rparr>) = parents_ok s alive l"
  by (simp add: parents_ok_def)

lemma parents_ok_weaken: "parents_ok s alive l \<Longrightarrow> (alive' \<Longrightarrow> alive) \<Longrightarrow> parents_ok s alive' l"
  by (auto simp: parents_ok_def split: list.splits)

lemma values_ok_stack: "length (cl_stack s') = length (cl_stack s) \<Longrightarrow> values_ok s' l = values_ok s l"
  by (cases "lc_values l") (simp_all add: values_ok_def)

lemma set_count_held: "held_values (set_count a n s) = held_values s"
proof -
  have "heap_values (the (cl_locals (set_count a n s) b)) = heap_values (the (cl_locals s b))"
    if "b \<in> dom (cl_locals s)" for b
    using that by (auto simp: set_count_locals heap_values_def)
  then show ?thesis unfolding held_values_def by simp
qed

lemma set_count_counted [simp]: "values_counted (set_count a n s) rest k = values_counted s rest k"
  by (simp add: values_counted_def set_count_held)

lemma set_count_shrunk: "shrunk s (set_count a n s)"
  by (auto simp: shrunk_def set_count_locals same_but_count_def)

lemma finite_captors: "finite (dom (cl_funcs s)) \<Longrightarrow> finite (captors s a)"
  by (rule finite_subset [of _ "dom (cl_funcs s)"]) (auto simp: captors_def)

lemma finite_children: "finite (dom (cl_locals s)) \<Longrightarrow> finite (children s D a)"
  by (rule finite_subset [of _ "dom (cl_locals s)"]) (auto simp: children_def)

lemma locals_invD:
  assumes "locals_inv s ex D" "cl_locals s a = Some l"
  shows "decl_ok (lc_func_decl l)" "length (lc_parents l) = nat (fd_func_depth (lc_func_decl l))" "values_ok s l"
    "a \<notin> D \<Longrightarrow> a \<in> set (cl_frames s) \<Longrightarrow> lc_is_stack_locals l"
    "a \<notin> D \<Longrightarrow> 0 < lc_ref_count l"
    "a \<notin> D \<Longrightarrow> lc_ref_count l = int (count_list (cl_frames s @ ex) a + card (captors s a) + card (children s D a))"
    "parents_ok s (a \<notin> D) l"
proof -
  have "local_ok s ex D a l" using assms by (simp add: locals_inv_def)
  then show "decl_ok (lc_func_decl l)" "length (lc_parents l) = nat (fd_func_depth (lc_func_decl l))" "values_ok s l"
    "a \<notin> D \<Longrightarrow> a \<in> set (cl_frames s) \<Longrightarrow> lc_is_stack_locals l"
    "a \<notin> D \<Longrightarrow> 0 < lc_ref_count l"
    "a \<notin> D \<Longrightarrow> lc_ref_count l = int (count_list (cl_frames s @ ex) a + card (captors s a) + card (children s D a))"
    "parents_ok s (a \<notin> D) l"
    by (simp_all add: local_ok_def)
qed

lemma locals_inv_funcs: "locals_inv s ex D \<Longrightarrow> cl_funcs s f = Some fc \<Longrightarrow> func_ok s fc"
  unfolding locals_inv_def by blast

lemma locals_inv_rest:
  assumes "locals_inv s ex D"
  shows "finite (dom (cl_locals s))" "finite (dom (cl_funcs s))" "set (cl_frames s) \<subseteq> dom (cl_locals s)"
    "set ex \<subseteq> dom (cl_locals s)"
    "a \<in> D \<Longrightarrow> a \<notin> set (cl_frames s) \<and> a \<notin> set ex \<and> captors s a = {} \<and> children s D a = {}"
  using assms by (simp_all add: locals_inv_def unheld_def)

lemma locals_invI:
  assumes "finite (dom (cl_locals s))" "finite (dom (cl_funcs s))" "set (cl_frames s) \<subseteq> dom (cl_locals s)"
    "set ex \<subseteq> dom (cl_locals s)" "\<And>a l. cl_locals s a = Some l \<Longrightarrow> local_ok s ex D a l"
    "\<And>f fc. cl_funcs s f = Some fc \<Longrightarrow> func_ok s fc" "\<And>a. a \<in> D \<Longrightarrow> unheld s ex D a"
  shows "locals_inv s ex D"
  using assms by (simp add: locals_inv_def)

lemma set_count_func_ok [simp]: "func_ok (set_count a n s) fc = func_ok s fc"
  by (cases "snd fc") (auto simp: func_ok_def set_count_locals)

lemma locals_inv_alive:
  assumes inv: "locals_inv s (a # ex) D"
  obtains l where "cl_locals s a = Some l" "a \<notin> D"
proof -
  have "a \<in> dom (cl_locals s)" "a \<notin> D" using locals_inv_rest(4,5) [OF inv] by auto
  then show thesis using that by blast
qed

lemma drop_locals_ref_eq:
  "cl_locals s a = Some l \<Longrightarrow> drop_locals_ref a s = Some (lc_ref_count l - 1 > 0, set_count a (lc_ref_count l - 1) s)"
  by (simp add: drop_locals_ref_def set_count_def)

lemma drop_locals_ref_alive:
  assumes inv: "locals_inv s (a # ex) D" and l: "cl_locals s a = Some l" "1 < lc_ref_count l"
  shows "locals_inv (set_count a (lc_ref_count l - 1) s) ex D"
proof (rule locals_invI)
  let ?s = "set_count a (lc_ref_count l - 1) s"
  fix b l' assume b: "cl_locals ?s b = Some l'"
  then obtain l0 where l0: "cl_locals s b = Some l0"
    "l' = (if b = a then l0\<lparr>lc_ref_count := lc_ref_count l - 1\<rparr> else l0)"
    by (auto simp: set_count_locals split: if_splits)
  note old = locals_invD [OF inv l0(1)]
  have "parents_ok ?s (b \<notin> D) l0" by (rule set_count_parents_ok [OF old(7)])
  then show "local_ok ?s ex D b l'"
    using old l0 l by (auto simp: local_ok_def count_list_append)
qed (use locals_inv_funcs [OF inv] locals_inv_rest [OF inv] in \<open>auto simp: unheld_def\<close>)

lemma card_children_insert:
  assumes "finite (dom (cl_locals s))" "a \<notin> D" "cl_locals s a = Some l"
  shows "card (children s D b) = card (children s (insert a D) b) + count_list (take 1 (lc_parents l)) b"
proof (cases "\<exists>ps. lc_parents l = b # ps")
  case True
  then have "children s D b = insert a (children s (insert a D) b)" using assms(2,3) by (auto simp: children_def)
  moreover have "a \<notin> children s (insert a D) b" by (simp add: children_def)
  ultimately show ?thesis using True finite_children [OF assms(1)] by auto
next
  case False
  then have "children s D b = children s (insert a D) b" using assms(3) by (auto simp: children_def)
  then show ?thesis using False by (cases "lc_parents l") auto
qed

lemma drop_locals_ref_dead:
  assumes inv: "locals_inv s (a # ex) D" and l: "cl_locals s a = Some l" "\<not> 1 < lc_ref_count l"
  shows "locals_inv (set_count a (lc_ref_count l - 1) s) (take 1 (lc_parents l) @ ex) (insert a D)"
proof -
  let ?s = "set_count a (lc_ref_count l - 1) s" and ?D = "insert a D"
  have aD: "a \<notin> D" using inv locals_inv_alive by blast
  note fin = locals_inv_rest(1,2) [OF inv]
  note al = locals_invD [OF inv l(1)]
  have "count_list (cl_frames s @ ex) a + card (captors s a) + card (children s D a) = 0"
    using al(5) [OF aD] al(6) [OF aD] l(2) by (simp add: count_list_append)
  then have none: "a \<notin> set (cl_frames s)" "a \<notin> set ex" "captors s a = {}" "children s D a = {}"
    using finite_captors [OF fin(2), of a] finite_children [OF fin(1), of D a]
    by (auto simp: count_list_append count_list_0_iff)
  note card = card_children_insert [OF fin(1) aD l(1)]
  have q: "lc_parents l \<noteq> [] \<Longrightarrow> hd (lc_parents l) \<in> dom (cl_locals s)"
    using al(7) aD by (cases "lc_parents l") (auto simp: parents_ok_def parents_at_def)
  have qD: "p \<notin> D" "p \<noteq> a" if "lc_parents l = p # ps" for p ps
  proof -
    have "a \<in> children s D p" using l(1) aD that by (auto simp: children_def)
    then show "p \<notin> D" "p \<noteq> a" using locals_inv_rest(5) [OF inv, of p] none(4) by auto
  qed
  show ?thesis
  proof (rule locals_invI)
    fix b l' assume b: "cl_locals ?s b = Some l'"
    then obtain l0 where l0: "cl_locals s b = Some l0"
      "l' = (if b = a then l0\<lparr>lc_ref_count := lc_ref_count l - 1\<rparr> else l0)"
      by (auto simp: set_count_locals split: if_splits)
    note old = locals_invD [OF inv l0(1)]
    have "parents_ok ?s (b \<notin> ?D) l0"
      by (rule parents_ok_weaken [OF set_count_parents_ok [OF old(7)]]) simp
    then show "local_ok ?s (take 1 (lc_parents l) @ ex) ?D b l'"
      using old l0(2) card [of b] by (auto simp: local_ok_def count_list_append)
  next
    fix b assume b: "b \<in> ?D"
    have "b \<notin> set (cl_frames ?s @ take 1 (lc_parents l) @ ex)"
      using b none locals_inv_rest(5) [OF inv, of b] qD by (cases "lc_parents l") auto
    moreover have "children s ?D b \<subseteq> children s D b" by (auto simp: children_def)
    ultimately show "unheld ?s (take 1 (lc_parents l) @ ex) ?D b"
      using b none locals_inv_rest(5) [OF inv, of b] by (auto simp: unheld_def)
  next
    show "set (take 1 (lc_parents l) @ ex) \<subseteq> dom (cl_locals ?s)"
      using locals_inv_rest [OF inv] q by (cases "lc_parents l") auto
  qed (use locals_inv_funcs [OF inv] locals_inv_rest [OF inv] in auto)
qed

lemma releaseValues_counts:
  assumes "counts_ok c (vs @ refs)" "length vs + length refs < 2 ^ 31 - 1" "\<not> gc_fix_in_progress c"
  shows "\<exists>c'. releaseValues vs c = Some c' \<and> counts_ok c' refs \<and> same_objects c c' \<and> value_members c' = value_members c"
  using assms
proof (induction vs arbitrary: c)
  case (Cons v vs)
  then obtain c1 where c1: "releaseValue v c = Some c1" "counts_ok c1 (vs @ refs)" "same_objects c c1"
      "value_members c1 = value_members c"
    using releaseValue_counts [of c v "vs @ refs"] by auto
  then have "\<not> gc_fix_in_progress c1" using Cons.prems(3) by (simp add: same_objects_def)
  with Cons.IH [OF c1(2)] Cons.prems c1 show ?case using same_objects_trans by fastforce
qed simp

lemma held_values_remove:
  assumes "finite (dom (cl_locals s))" "cl_locals s a = Some l"
    "\<And>b. b \<noteq> a \<Longrightarrow> cl_locals s' b = cl_locals s b" "cl_locals s' a = None"
  shows "held_values s = mset (heap_values l) + held_values s'"
proof -
  have "b \<in> dom (cl_locals s') \<longleftrightarrow> b \<in> dom (cl_locals s) - {a}" for b
    using assms(3) [of b] assms(4) by (cases "b = a") (auto simp: dom_def)
  then have "dom (cl_locals s') = dom (cl_locals s) - {a}" by blast
  moreover have "mset (heap_values (the (cl_locals s' b))) = mset (heap_values (the (cl_locals s b)))"
    if "b \<in> dom (cl_locals s) - {a}" for b using that assms(3) by simp
  ultimately have "held_values s' = (\<Sum>b\<in>dom (cl_locals s) - {a}. mset (heap_values (the (cl_locals s b))))"
    unfolding held_values_def by simp
  then show ?thesis
    using assms(1,2) unfolding held_values_def by (simp add: sum.remove [of _ a] domIff)
qed

lemma counts_ok_mset: "mset refs = mset refs' \<Longrightarrow> counts_ok c refs = counts_ok c refs'"
  by (rule counts_ok_perm) (metis count_mset)

lemma free_locals_inv:
  assumes inv: "locals_inv s ex (insert a D)" and l: "cl_locals s a = Some l" and aD: "a \<notin> D"
    and cnt: "values_counted s rest k"
  shows "\<exists>s'. free_locals a s = Some s' \<and> locals_inv s' ex D \<and> values_counted s' rest k \<and> shrunk s s'
    \<and> cl_locals s' a = None \<and> (\<forall>b\<in>D. cl_locals s' b = cl_locals s b)"
proof -
  obtain refs where refs: "counts_ok (cl_core s) refs" "mset refs = held_values s + mset rest"
    using cnt by (auto simp: values_counted_def)
  let ?L = "(cl_locals s)(a := None)"
  note fin = locals_inv_rest(1,2) [OF inv]
  have held: "held_values s = mset (heap_values l) + held_values (s\<lparr>cl_locals := ?L, cl_core := c\<rparr>)" for c
    using fin(1) l by (intro held_values_remove) auto
  obtain refs' where refs': "mset refs' = held_values (s\<lparr>cl_locals := ?L, cl_core := cl_core s\<rparr>) + mset rest"
    using ex_mset by blast
  have same: "held_values (s\<lparr>cl_locals := ?L, cl_core := c\<rparr>) = held_values (s\<lparr>cl_locals := ?L, cl_core := cl_core s\<rparr>)" for c
    by (simp add: held_values_def)
  have "counts_ok (cl_core s) (heap_values l @ refs')"
    using refs counts_ok_mset [of refs "heap_values l @ refs'"] refs' held [of "cl_core s"] by simp
  moreover have "length (heap_values l) + length refs' < 2 ^ 31 - 1"
    using cnt arg_cong [OF refs', of size] arg_cong [OF held [of "cl_core s"], of size] by (simp add: values_counted_def)
  ultimately obtain c where c: "releaseValues (heap_values l) (cl_core s) = Some c" "counts_ok c refs'"
      "same_objects (cl_core s) c" "value_members c = value_members (cl_core s)"
    using releaseValues_counts [of "cl_core s" "heap_values l" refs'] cnt by (auto simp: values_counted_def)
  let ?s = "s\<lparr>cl_locals := ?L, cl_core := c\<rparr>"
  have "values_ok s l" using locals_invD(3) [OF inv l] .
  then have run: "free_locals a s = Some ?s"
    using l c(1) by (auto simp: free_locals_def values_ok_def heap_values_def split: values_at.splits)
  have kids: "children ?s D b = children s (insert a D) b" for b by (auto simp: children_def)
  have capt: "captors ?s b = captors s b" for b by (simp add: captors_def)
  note dead = locals_inv_rest(5) [OF inv, of a, simplified]
  have "locals_inv ?s ex D"
  proof (rule locals_invI)
    fix b l' assume "cl_locals ?s b = Some l'"
    then have b: "b \<noteq> a" "cl_locals s b = Some l'" by (auto split: if_splits)
    note old = locals_invD [OF inv b(2)]
    have "b \<notin> D \<Longrightarrow> lc_parents l' = p # ps \<Longrightarrow> b \<in> children s (insert a D) p" for p ps
      using b by (auto simp: children_def)
    then have "b \<notin> D \<Longrightarrow> lc_parents l' = p # ps \<Longrightarrow> p \<noteq> a" for p ps using dead by fastforce
    moreover have "parents_at ?s p = (if p = a then None else parents_at s p)" for p by (simp add: parents_at_def)
    ultimately have "parents_ok ?s (b \<notin> D) l'"
      using old(7) b(1) unfolding parents_ok_def by (cases "lc_parents l'") auto
    then show "local_ok ?s ex D b l'"
      using old b(1) kids capt values_ok_stack [of ?s s l'] by (auto simp: local_ok_def)
  next
    fix f fc assume f: "cl_funcs ?s f = Some fc"
    then have "snd fc = Some c' \<Longrightarrow> f \<in> captors s c'" for c' by (cases fc) (auto simp: captors_def)
    then have "snd fc \<noteq> Some a" using dead by auto
    then show "func_ok ?s fc" using locals_inv_funcs [OF inv, of f fc] f by (auto simp: func_ok_def split: option.splits)
  next
    show "set ex \<subseteq> dom (cl_locals ?s)" "set (cl_frames ?s) \<subseteq> dom (cl_locals ?s)"
      using locals_inv_rest(3,4) [OF inv] dead by auto
  next
    fix b assume "b \<in> D"
    then show "unheld ?s ex D b" using locals_inv_rest(5) [OF inv, of b] kids capt by (auto simp: unheld_def)
  qed (use fin in auto)
  moreover have "values_counted ?s rest k"
    using cnt c(2,3) refs' held [of c] same [of c] unfolding values_counted_def by (auto simp: same_objects_def)
  moreover have "shrunk s ?s" "cl_locals ?s a = None" "\<forall>b\<in>D. cl_locals ?s b = cl_locals s b"
    using c(4) aD by (auto simp: shrunk_def same_but_count_def)
  ultimately show ?thesis using run by blast
qed

lemma deleteLocals_inv:
  assumes "locals_inv s (take 1 (lc_parents l) @ ex) (insert a D)" "cl_locals s a = Some l" "a \<notin> D"
    and "values_counted s rest k"
  shows "\<exists>s'. deleteLocals a s = Some s' \<and> locals_inv s' ex D \<and> values_counted s' rest k \<and> shrunk s s'
    \<and> cl_locals s' a = None \<and> (\<forall>b\<in>D. cl_locals s' b = cl_locals s b)"
  using assms
proof (induction "length (lc_parents l)" arbitrary: a l s D)
  case 0
  then have "\<not> fd_func_depth (lc_func_decl l) > 0" using locals_invD(2) by fastforce
  with 0 show ?case using free_locals_inv [of s ex a D l rest k] by (simp add: deleteLocals.simps [of a])
next
  case (Suc n)
  note inv = Suc.prems(1) and l = Suc.prems(2)
  obtain p ps where ps: "lc_parents l = p # ps" using Suc.hyps(2) by (cases "lc_parents l") auto
  have depth: "fd_func_depth (lc_func_decl l) > 0" using locals_invD(2) [OF inv l] ps by simp
  have inv': "locals_inv s (p # ex) (insert a D)" using inv ps by simp
  then obtain lp where lp: "cl_locals s p = Some lp" "p \<notin> insert a D" by (rule locals_inv_alive)
  let ?s = "set_count p (lc_ref_count lp - 1) s"
  have a: "cl_locals ?s a = Some l" using l lp(2) by (simp add: set_count_locals)
  have cnt: "values_counted ?s rest k" using Suc.prems(4) by simp
  have "\<exists>s1. (if lc_ref_count lp - 1 > 0 then Some ?s else deleteLocals p ?s) = Some s1
      \<and> locals_inv s1 ex (insert a D) \<and> values_counted s1 rest k \<and> shrunk ?s s1
      \<and> (\<forall>b\<in>insert a D. cl_locals s1 b = cl_locals ?s b)"
  proof (cases "1 < lc_ref_count lp")
    case True
    then show ?thesis using drop_locals_ref_alive [OF inv' lp(1)] cnt shrunk_refl by auto
  next
    case False
    let ?lp = "lp\<lparr>lc_ref_count := lc_ref_count lp - 1\<rparr>"
    have "lc_parents lp = ps" using locals_invD(7) [OF inv' l] ps lp(1) by (simp add: parents_ok_def parents_at_def)
    then have "n = length (lc_parents ?lp)" using Suc.hyps(2) ps by simp
    moreover have "locals_inv ?s (take 1 (lc_parents ?lp) @ ex) (insert p (insert a D))"
      using drop_locals_ref_dead [OF inv' lp(1) False] by simp
    moreover have "cl_locals ?s p = Some ?lp" using lp(1) by (simp add: set_count_locals)
    ultimately show ?thesis using Suc.hyps(1) [of ?lp ?s p "insert a D"] lp(2) cnt False by auto
  qed
  then obtain s1 where s1: "(if lc_ref_count lp - 1 > 0 then Some ?s else deleteLocals p ?s) = Some s1"
      "locals_inv s1 ex (insert a D)" "values_counted s1 rest k" "shrunk ?s s1" "\<forall>b\<in>insert a D. cl_locals s1 b = cl_locals ?s b"
    by blast
  have l1: "cl_locals s1 a = Some l" using s1(5) a by simp
  have D: "cl_locals s1 b = cl_locals s b" if "b \<in> D" for b using s1(5) lp(2) that by (auto simp: set_count_locals)
  obtain s2 where "free_locals a s1 = Some s2" "locals_inv s2 ex D" "values_counted s2 rest k" "shrunk s1 s2"
    "cl_locals s2 a = None" "\<forall>b\<in>D. cl_locals s2 b = cl_locals s b"
    using free_locals_inv [OF s1(2) l1 Suc.prems(3) s1(3)] D by auto
  moreover from this have "shrunk s s2" using shrunk_trans [OF set_count_shrunk shrunk_trans [OF s1(4)]] by blast
  moreover have "deleteLocals a s = Option.bind (Some s1) (free_locals a)"
    using s1(1) l ps depth drop_locals_ref_eq [OF lp(1)] by (simp add: deleteLocals.simps [of a s])
  ultimately show ?case by auto
qed

end
