(* ===== verification/Upvalues.thy ===== *)
theory Upvalues
  imports Closures
begin

text \<open>
  The operations of \<open>Closures\<close> keep the invariant and return, and what happens to the variables of an enclosing function:
  they keep their values while function values that use them come and go and when their function returns, and
  \<open>OP_SET_UPVALUE\<close> changes one of them.
\<close>

section \<open>Steps on the locals\<close>

lemma retain_inv:
  assumes inv: "locals_inv s ex {}" and l: "cl_locals s a = Some l"
  shows "locals_inv (set_count a (lc_ref_count l + 1) s) (a # ex) {}"
proof (rule locals_invI)
  let ?s = "set_count a (lc_ref_count l + 1) s"
  fix b l' assume b: "cl_locals ?s b = Some l'"
  then obtain l0 where l0: "cl_locals s b = Some l0"
    "l' = (if b = a then l0\<lparr>lc_ref_count := lc_ref_count l + 1\<rparr> else l0)"
    by (auto simp: set_count_locals split: if_splits)
  note old = locals_invD [OF inv l0(1)]
  have "parents_ok ?s (b \<notin> {}) l0" by (rule set_count_parents_ok [OF old(7)])
  then show "local_ok ?s (a # ex) {} b l'"
    using old l0 l by (auto simp: local_ok_def)
qed (use locals_inv_funcs [OF inv] locals_inv_rest [OF inv] l in \<open>auto simp: unheld_def\<close>)

lemma locals_retain_eq:
  "cl_locals s a = Some l \<Longrightarrow> locals_retain a s = Some (set_count a (lc_ref_count l + 1) s)"
  by (simp add: locals_retain_def set_count_def)

lemma releaseLocals_inv:
  assumes inv: "locals_inv s (a # ex) {}" and cnt: "values_counted s rest k"
  shows "\<exists>s'. releaseLocals a s = Some s' \<and> locals_inv s' ex {} \<and> values_counted s' rest k \<and> shrunk s s'"
proof -
  obtain l where l: "cl_locals s a = Some l" using inv by (rule locals_inv_alive)
  let ?s = "set_count a (lc_ref_count l - 1) s"
  show ?thesis
  proof (cases "1 < lc_ref_count l")
    case True
    then show ?thesis
      using drop_locals_ref_alive [OF inv l True] drop_locals_ref_eq [OF l] cnt set_count_shrunk
      by (simp add: releaseLocals_def)
  next
    case False
    have "cl_locals ?s a = Some (l\<lparr>lc_ref_count := lc_ref_count l - 1\<rparr>)" using l by (simp add: set_count_locals)
    then obtain s' where "deleteLocals a ?s = Some s'" "locals_inv s' ex {}" "values_counted s' rest k" "shrunk ?s s'"
      using deleteLocals_inv [of ?s "l\<lparr>lc_ref_count := lc_ref_count l - 1\<rparr>" ex a "{}" rest k]
        drop_locals_ref_dead [OF inv l False] cnt by auto
    then show ?thesis
      using drop_locals_ref_eq [OF l] False shrunk_trans [OF set_count_shrunk] by (auto simp: releaseLocals_def)
  qed
qed

text \<open>A function value comes, another goes.\<close>

lemma children_cong: "cl_locals s' = cl_locals s \<Longrightarrow> children s' D b = children s D b"
  by (simp add: children_def)

lemma parents_ok_cong: "cl_locals s' = cl_locals s \<Longrightarrow> parents_ok s' alive l = parents_ok s alive l"
  by (simp add: parents_ok_def parents_at_def split: list.split)

lemma func_ok_cong: "cl_locals s' = cl_locals s \<Longrightarrow> func_ok s' fc = func_ok s fc"
  by (simp add: func_ok_def split: option.split)

lemma func_ok_mono:
  assumes "\<And>c lc. cl_locals s c = Some lc \<Longrightarrow> cl_locals s' c = Some lc" "func_ok s fc"
  shows "func_ok s' fc"
proof (cases "snd fc")
  case (Some c)
  then obtain lc where "cl_locals s c = Some lc" "fd_func_depth (fst fc) = fd_func_depth (lc_func_decl lc) + 1"
    using assms(2) by (auto simp: func_ok_def)
  then show ?thesis using assms Some by (auto simp: func_ok_def)
qed (use assms(2) in \<open>simp add: func_ok_def\<close>)

lemma local_ok_refs:
  assumes "local_ok s ex D b l" "cl_locals s' = cl_locals s" "length (cl_stack s') = length (cl_stack s)"
    and "set (cl_frames s') \<subseteq> set (cl_frames s)"
    and "b \<notin> D \<Longrightarrow> count_list (cl_frames s' @ ex') b + card (captors s' b)
           = count_list (cl_frames s @ ex) b + card (captors s b)"
  shows "local_ok s' ex' D b l"
  using assms values_ok_stack [OF assms(3)] children_cong [OF assms(2)] parents_ok_cong [OF assms(2)]
  unfolding local_ok_def by (metis subsetD)

lemma add_func_inv:
  assumes inv: "locals_inv s (a # ex) {}" and f: "cl_funcs s f = None" and d: "func_ok s (d, Some a)"
  shows "locals_inv (s\<lparr>cl_funcs := (cl_funcs s)(f \<mapsto> (d, Some a))\<rparr>) ex {}"
proof (rule locals_invI)
  let ?s = "s\<lparr>cl_funcs := (cl_funcs s)(f \<mapsto> (d, Some a))\<rparr>"
  have capt: "captors ?s b = (if b = a then insert f (captors s b) else captors s b)" "f \<notin> captors s b" for b
    using f by (auto simp: captors_def)
  fix b l assume b: "cl_locals ?s b = Some l"
  have "local_ok s (a # ex) {} b l" using inv b by (simp add: locals_inv_def)
  then show "local_ok ?s ex {} b l"
    by (rule local_ok_refs)
      (use capt finite_captors [OF locals_inv_rest(2) [OF inv], of b] in \<open>auto simp: count_list_append\<close>)
next
  let ?s = "s\<lparr>cl_funcs := (cl_funcs s)(f \<mapsto> (d, Some a))\<rparr>"
  have ok: "func_ok ?s fc = func_ok s fc" for fc by (simp add: func_ok_cong [of ?s s])
  fix f' fc assume "cl_funcs ?s f' = Some fc"
  then have "fc = (d, Some a) \<or> cl_funcs s f' = Some fc" by (cases "f' = f") simp_all
  then show "func_ok ?s fc" using locals_inv_funcs [OF inv] d ok by blast
qed (use locals_inv_rest [OF inv] in auto)

lemma add_root_inv:
  assumes inv: "locals_inv s ex {}" and f: "cl_funcs s f = None" and d: "func_ok s (d, None)"
  shows "locals_inv (s\<lparr>cl_funcs := (cl_funcs s)(f \<mapsto> (d, None))\<rparr>) ex {}"
proof (rule locals_invI)
  let ?s = "s\<lparr>cl_funcs := (cl_funcs s)(f \<mapsto> (d, None))\<rparr>"
  have capt: "captors ?s b = captors s b" for b using f by (auto simp: captors_def)
  fix b l assume b: "cl_locals ?s b = Some l"
  have "local_ok s ex {} b l" using inv b by (simp add: locals_inv_def)
  then show "local_ok ?s ex {} b l" by (rule local_ok_refs) (use capt in auto)
next
  let ?s = "s\<lparr>cl_funcs := (cl_funcs s)(f \<mapsto> (d, None))\<rparr>"
  have ok: "func_ok ?s fc = func_ok s fc" for fc by (simp add: func_ok_cong [of ?s s])
  fix f' fc assume "cl_funcs ?s f' = Some fc"
  then have "fc = (d, None) \<or> cl_funcs s f' = Some fc" by (cases "f' = f") simp_all
  then show "func_ok ?s fc" using locals_inv_funcs [OF inv] d ok by blast
qed (use locals_inv_rest [OF inv] in auto)

lemma remove_func_inv:
  assumes inv: "locals_inv s ex {}" and f: "cl_funcs s f = Some (d, c)"
  shows "locals_inv (s\<lparr>cl_funcs := (cl_funcs s)(f := None)\<rparr>) (case c of None \<Rightarrow> ex | Some a \<Rightarrow> a # ex) {}"
proof (rule locals_invI)
  let ?s = "s\<lparr>cl_funcs := (cl_funcs s)(f := None)\<rparr>" and ?ex = "case c of None \<Rightarrow> ex | Some a \<Rightarrow> a # ex"
  have capt: "captors ?s b = captors s b - {f}" "f \<in> captors s b \<longleftrightarrow> c = Some b" for b
    using f by (auto simp: captors_def)
  fix b l assume b: "cl_locals ?s b = Some l"
  have "card (captors s b) = card (captors s b - {f}) + (if c = Some b then 1 else 0)"
    using capt finite_captors [OF locals_inv_rest(2) [OF inv], of b] by (cases "c = Some b") (simp_all add: card_Suc_Diff1 del: card_Diff_insert)
  then have n: "count_list (cl_frames ?s @ ?ex) b + card (captors ?s b) = count_list (cl_frames s @ ex) b + card (captors s b)"
    by (simp add: capt(1) count_list_append split: option.split)
  have "local_ok s ex {} b l" using inv b by (simp add: locals_inv_def)
  then show "local_ok ?s ?ex {} b l" by (rule local_ok_refs) (use n in simp_all)
next
  show "set (case c of None \<Rightarrow> ex | Some a \<Rightarrow> a # ex) \<subseteq> dom (cl_locals (s\<lparr>cl_funcs := (cl_funcs s)(f := None)\<rparr>))"
    using locals_inv_rest(4) [OF inv] locals_inv_funcs [OF inv f] by (auto simp: func_ok_def split: option.split)
next
  let ?s = "s\<lparr>cl_funcs := (cl_funcs s)(f := None)\<rparr>"
  fix f' fc assume "cl_funcs ?s f' = Some fc"
  then have "cl_funcs s f' = Some fc" by (cases "f' = f") simp_all
  then show "func_ok ?s fc" using locals_inv_funcs [OF inv] func_ok_cong [of ?s s fc] by simp
qed (use locals_inv_rest [OF inv] in auto)

text \<open>Locals receive other values.\<close>

lemma update_values_inv:
  assumes inv: "locals_inv s ex {}" and l: "cl_locals s a = Some l" and ok: "values_ok s l'"
    and same: "lc_func_decl l' = lc_func_decl l" "lc_parents l' = lc_parents l" "lc_ref_count l' = lc_ref_count l"
      "a \<in> set (cl_frames s) \<Longrightarrow> lc_is_stack_locals l'"
  shows "locals_inv (s\<lparr>cl_core := c, cl_locals := (cl_locals s)(a \<mapsto> l')\<rparr>) ex {}"
proof (rule locals_invI)
  let ?s = "s\<lparr>cl_core := c, cl_locals := (cl_locals s)(a \<mapsto> l')\<rparr>"
  have p: "parents_at ?s = parents_at s" using l same(2) by (auto simp: parents_at_def fun_eq_iff)
  have k: "children ?s D b = children s D b" for D b by (simp add: children_parents_at p)
  have capt: "captors ?s b = captors s b" for b by (simp add: captors_def)
  fix b lb assume b: "cl_locals ?s b = Some lb"
  then obtain l0 where l0: "cl_locals s b = Some l0" "b \<noteq> a \<Longrightarrow> lb = l0" "b = a \<Longrightarrow> lb = l' \<and> l0 = l"
    using l by (auto split: if_splits)
  note old = locals_invD [OF inv l0(1)]
  have "values_ok ?s lb" using ok old(3) l0 values_ok_stack [of ?s s] by (cases "b = a") auto
  moreover have "parents_ok ?s (b \<notin> {}) lb"
    using old(7) l0 same(2) p by (cases "b = a") (simp_all add: parents_ok_def split: list.splits)
  ultimately show "local_ok ?s ex {} b lb"
    using old l0 same k capt by (cases "b = a") (simp_all add: local_ok_def)
next
  fix f fc assume "cl_funcs (s\<lparr>cl_core := c, cl_locals := (cl_locals s)(a \<mapsto> l')\<rparr>) f = Some fc"
  then show "func_ok (s\<lparr>cl_core := c, cl_locals := (cl_locals s)(a \<mapsto> l')\<rparr>) fc"
    using locals_inv_funcs [OF inv, of f fc] l same(1) by (auto simp: func_ok_def split: option.split)
qed (use locals_inv_rest [OF inv] in auto)

text \<open>The locals of a call.\<close>

lemma absent_unheld:
  assumes inv: "locals_inv s ex {}" and a: "cl_locals s a = None"
  shows "a \<notin> set (cl_frames s)" "a \<notin> set ex" "captors s a = {}" "children s {} a = {}"
proof -
  show "a \<notin> set (cl_frames s)" "a \<notin> set ex" using a locals_inv_rest(3,4) [OF inv] by auto
  show "captors s a = {}" using a locals_inv_funcs [OF inv] by (fastforce simp: captors_def func_ok_def)
  have "b \<notin> children s {} a" for b
  proof
    assume "b \<in> children s {} a"
    then obtain l ps where b: "cl_locals s b = Some l" "lc_parents l = a # ps" by (auto simp: children_def)
    then show False using locals_invD(7) [OF inv b(1)] a by (simp add: parents_ok_def parents_at_def)
  qed
  then show "children s {} a = {}" by blast
qed

lemma enter_inv:
  fixes d pos parents
  defines "l \<equiv> \<lparr>lc_ref_count = 1, lc_func_decl = d, lc_values = On_stack pos, lc_is_stack_locals = True, lc_parents = parents\<rparr>"
  assumes inv: "locals_inv s (take 1 parents) {}" and a: "cl_locals s a = None" and d: "decl_ok d"
    and ps: "length parents = nat (fd_func_depth d)" "case parents of [] \<Rightarrow> True | p # ps \<Rightarrow> parents_at s p = Some ps"
    and st: "length st = length (cl_stack s)" "pos + nat (fd_stack_size d) \<le> length st"
  shows "locals_inv (s\<lparr>cl_stack := st, cl_frames := a # cl_frames s, cl_locals := (cl_locals s)(a \<mapsto> l)\<rparr>) [] {}"
proof (rule locals_invI)
  let ?s = "s\<lparr>cl_stack := st, cl_frames := a # cl_frames s, cl_locals := (cl_locals s)(a \<mapsto> l)\<rparr>"
  note none = absent_unheld [OF inv a] and fin = locals_inv_rest(1,2) [OF inv]
  have pat: "parents_at ?s b = (if b = a then Some parents else parents_at s b)" for b
    by (simp add: parents_at_def l_def)
  have lp: "lc_parents l = parents" by (simp add: l_def)
  have pa: "parents_at s a = None" using a by (simp add: parents_at_def)
  have kids: "card (children ?s {} b) = card (children s {} b) + count_list (take 1 parents) b" for b
  proof -
    have "a \<notin> children s {} b" using a by (simp add: children_def)
    moreover have "children ?s {} b = (if count_list (take 1 parents) b = 1 then insert a (children s {} b) else children s {} b)"
      using pa by (cases parents) (auto simp: children_parents_at pat)
    moreover have "count_list (take 1 parents) b \<le> 1" by (cases parents) simp_all
    ultimately show ?thesis using finite_children [OF fin(1), of "{}" b] by auto
  qed
  have capt: "captors ?s b = captors s b" for b by (simp add: captors_def)
  fix b lb assume b: "cl_locals ?s b = Some lb"
  have alive: "parents_at s p = Some qs \<Longrightarrow> p \<noteq> a" for p qs using a by (auto simp: parents_at_def)
  show "local_ok ?s [] {} b lb"
  proof (cases "b = a")
    case True
    then have lb: "lb = l" using b by simp
    have "parents_ok ?s True l" using ps(2) alive lp by (auto simp: parents_ok_def pat split: list.splits)
    moreover have "count_list (cl_frames s) a = 0" "count_list (take 1 parents) a = 0"
      using none(1,2) by (simp_all add: count_list_0_iff)
    ultimately show ?thesis
      using d ps(1) st(2) none kids [of a] capt by (simp add: local_ok_def lb True values_ok_def l_def)
  next
    case False
    then have l0: "cl_locals s b = Some lb" using b by simp
    note old = locals_invD [OF inv l0]
    have "parents_ok ?s True lb" using old(7) alive by (auto simp: parents_ok_def pat split: list.splits)
    moreover have "values_ok ?s lb" using old(3) values_ok_stack [of ?s s lb] st(1) by simp
    ultimately show ?thesis using old False kids [of b] capt by (simp add: local_ok_def count_list_append)
  qed
next
  let ?s = "s\<lparr>cl_stack := st, cl_frames := a # cl_frames s, cl_locals := (cl_locals s)(a \<mapsto> l)\<rparr>"
  fix f fc assume "cl_funcs ?s f = Some fc"
  then have fc: "func_ok s fc" using locals_inv_funcs [OF inv, of f fc] by simp
  show "func_ok ?s fc" by (rule func_ok_mono [OF _ fc]) (use a in auto)
qed (use locals_inv_rest [OF inv] in auto)

section \<open>The values on the heap\<close>

lemma held_values_update:
  assumes "finite (dom (cl_locals s))" "cl_locals s' = (cl_locals s)(a \<mapsto> l')"
  shows "held_values s' + (case cl_locals s a of None \<Rightarrow> {#} | Some l \<Rightarrow> mset (heap_values l))
    = held_values s + mset (heap_values l')"
proof -
  let ?h = "\<lambda>s b. mset (heap_values (the (cl_locals s b)))" and ?D = "dom (cl_locals s) - {a}"
  have "held_values s' = (\<Sum>b\<in>insert a ?D. ?h s' b)"
    unfolding held_values_def using assms(2) by (intro sum.cong) auto
  also have "\<dots> = mset (heap_values l') + (\<Sum>b\<in>?D. ?h s' b)"
    by (subst sum.insert) (use assms in simp_all)
  also have "(\<Sum>b\<in>?D. ?h s' b) = (\<Sum>b\<in>?D. ?h s b)" using assms(2) by (intro sum.cong) auto
  also have "mset (heap_values l') + \<dots> + (case cl_locals s a of None \<Rightarrow> {#} | Some l \<Rightarrow> mset (heap_values l))
      = held_values s + mset (heap_values l')"
  proof (cases "cl_locals s a")
    case None
    then have "?D = dom (cl_locals s)" by auto
    then show ?thesis using None by (simp add: held_values_def)
  next
    case (Some l)
    then have "held_values s = ?h s a + (\<Sum>b\<in>?D. ?h s b)"
      unfolding held_values_def using assms(1) by (intro sum.remove) auto
    then show ?thesis using Some by simp
  qed
  finally show ?thesis .
qed

lemma counts_ok_nulls: "set vs \<subseteq> {VNull} \<Longrightarrow> counts_ok c (vs @ refs) = counts_ok c refs"
proof -
  assume "set vs \<subseteq> {VNull}"
  then have "VGC a \<notin> set vs" for a by auto
  moreover from this have "count_list vs (VGC a) = 0" for a by (simp add: count_list_0_iff)
  ultimately show ?thesis by (simp add: counts_ok_def count_list_append)
qed

lemma locals_get_heap: "lc_values l = On_heap vs \<Longrightarrow> i < length vs \<Longrightarrow> locals_get s l i = Some (vs ! i)"
  by (simp add: locals_get_def os_assert_def)

lemma copy_upvalues_run:
  assumes "\<And>i. i \<in> set is \<Longrightarrow> i < length (fd_locals (lc_func_decl l))"
    and "\<And>i. i \<in> set is \<Longrightarrow> is_upvalue (lc_func_decl l) i \<Longrightarrow>
       \<exists>v. locals_get s l i = Some v \<and> (\<forall>a. v = VGC a \<longrightarrow> a \<in> value_members c)"
    and "counts_ok c refs" "length is + length refs < 2 ^ 31"
  shows "\<exists>vs c'. copy_upvalues s l is c = Some (vs, c') \<and> counts_ok c' (vs @ refs) \<and> same_objects c c'
    \<and> value_members c' = value_members c
    \<and> vs = map (\<lambda>i. if is_upvalue (lc_func_decl l) i then the (locals_get s l i) else VNull) is"
  using assms
proof (induction "is" arbitrary: c refs)
  case (Cons i "is")
  have i: "i < length (fd_locals (lc_func_decl l))" using Cons.prems(1) by simp
  show ?case
  proof (cases "is_upvalue (lc_func_decl l) i")
    case True
    then obtain v where v: "locals_get s l i = Some v" "\<And>a. v = VGC a \<Longrightarrow> a \<in> value_members c"
      using Cons.prems(2) [of i] by auto
    obtain c1 where c1: "retainValue v c = Some c1" "counts_ok c1 (v # refs)" "same_objects c c1"
        "value_members c1 = value_members c"
      using retainValue_counts [OF Cons.prems(3) v(2)] Cons.prems(4) by auto
    then obtain vs c2 where c2: "copy_upvalues s l is c1 = Some (vs, c2)" "counts_ok c2 (vs @ v # refs)"
        "same_objects c1 c2" "value_members c2 = value_members c1"
        "vs = map (\<lambda>i. if is_upvalue (lc_func_decl l) i then the (locals_get s l i) else VNull) is"
      using Cons.IH [of c1 "v # refs"] Cons.prems by auto
    have "counts_ok c2 ((v # vs) @ refs)" using c2(2) counts_ok_mset [of "(v # vs) @ refs" "vs @ v # refs"] by simp
    then show ?thesis
      using i True v(1) c1 c2 same_objects_trans [OF c1(3) c2(3)] by (simp add: os_assert_def)
  next
    case False
    then obtain vs c2 where c2: "copy_upvalues s l is c = Some (vs, c2)" "counts_ok c2 (vs @ refs)"
        "same_objects c c2" "value_members c2 = value_members c"
        "vs = map (\<lambda>i. if is_upvalue (lc_func_decl l) i then the (locals_get s l i) else VNull) is"
      using Cons.IH [of c refs] Cons.prems by auto
    moreover have "counts_ok c2 ((VNull # vs) @ refs)"
      using c2(2) counts_ok_nulls [of "[VNull]" c2 "vs @ refs"] by simp
    ultimately show ?thesis using i False by (simp add: os_assert_def)
  qed
qed simp

section \<open>The operations together\<close>

datatype closure_op =
  Make_function addr function_decl
| Destroy_function addr
| Call_function addr addr nat nat
| Return_function
| Get_upvalue int int int
| Set_upvalue int int int

fun closure_step :: "closure_op \<Rightarrow> closures \<Rightarrow> closures option" where
  "closure_step (Make_function f d) s = capture_locals f d s"
| "closure_step (Destroy_function f) s = drop_captured f s"
| "closure_step (Call_function a f pos n) s = enter_locals a f pos n s"
| "closure_step Return_function s = leave_locals s"
| "closure_step (Get_upvalue a b c) s = exec_OP_GET_UPVALUE a b c s"
| "closure_step (Set_upvalue a b c) s = exec_OP_SET_UPVALUE a b c s"

text \<open>The part of the stack that holds the local variables of a running function.\<close>

definition frame_start :: "closures \<Rightarrow> addr \<Rightarrow> nat" where
  "frame_start s a =
     (case cl_locals s a of
        Some l \<Rightarrow> (case lc_values l of On_stack pos \<Rightarrow> pos | _ \<Rightarrow> 0)
      | None \<Rightarrow> 0)"

definition frame_size :: "closures \<Rightarrow> addr \<Rightarrow> nat" where
  "frame_size s a = (case cl_locals s a of Some l \<Rightarrow> length (fd_locals (lc_func_decl l)) | None \<Rightarrow> 0)"

definition frames_ok :: "closures \<Rightarrow> bool" where
  "frames_ok s \<longleftrightarrow> distinct (cl_frames s)
     \<and> sorted_wrt (\<lambda>a b. frame_start s b + frame_size s b \<le> frame_start s a) (cl_frames s)
     \<and> (\<forall>a l. cl_locals s a = Some l \<longrightarrow> lc_is_stack_locals l \<longrightarrow> a \<in> set (cl_frames s))"

text \<open>
  \<open>closures_ok s rest\<close>: besides \<open>locals_inv\<close>, the local variables of the running functions do not overlap, the values on
  the stack exist, and the counts of the values are those of the upvalues on the heap and of the locations \<open>rest\<close>.
\<close>

definition closures_ok :: "closures \<Rightarrow> os_value list \<Rightarrow> bool" where
  "closures_ok s rest \<longleftrightarrow> locals_inv s [] {} \<and> frames_ok s
     \<and> (\<forall>a. VGC a \<in> set (cl_stack s) \<longrightarrow> a \<in> value_members (cl_core s)) \<and> \<not> gc_fix_in_progress (cl_core s)
     \<and> (\<exists>refs. counts_ok (cl_core s) refs \<and> mset refs = held_values s + mset rest)"

text \<open>What the caller of an operation provides: new addresses, room on the stack, and checked instructions.\<close>

definition upvalue_access :: "closures \<Rightarrow> int \<Rightarrow> int \<Rightarrow> int \<Rightarrow> bool" where
  "upvalue_access s slot c i \<longleftrightarrow>
     (case cl_frames s of
        [] \<Rightarrow> False
      | f # _ \<Rightarrow>
          (case cl_locals s f of
             None \<Rightarrow> False
           | Some l \<Rightarrow>
               0 \<le> slot \<and> slot < fd_stack_size (lc_func_decl l) \<and> 0 < c \<and> c \<le> fd_max_up_count (lc_func_decl l)
               \<and> c \<le> fd_func_depth (lc_func_decl l) \<and> 0 \<le> i
               \<and> (case cl_locals s (lc_parents l ! nat (c - 1)) of
                    None \<Rightarrow> True
                  | Some scope \<Rightarrow> is_upvalue (lc_func_decl scope) (nat i))))"

fun op_ok :: "closure_op \<Rightarrow> closures \<Rightarrow> bool" where
  "op_ok (Make_function f d) s \<longleftrightarrow> cl_funcs s f = None \<and> decl_ok d
     \<and> fd_func_depth d = (case cl_frames s of
         [] \<Rightarrow> 0 | a # _ \<Rightarrow> fd_func_depth (lc_func_decl (the (cl_locals s a))) + 1)"
| "op_ok (Destroy_function f) s \<longleftrightarrow> cl_funcs s f \<noteq> None"
| "op_ok (Call_function a f pos n) s \<longleftrightarrow> cl_locals s a = None
     \<and> (case cl_funcs s f of
          None \<Rightarrow> False
        | Some (d, _) \<Rightarrow> int n \<le> fd_stack_size d \<and> pos + nat (fd_stack_size d) \<le> length (cl_stack s))
     \<and> (case cl_frames s of [] \<Rightarrow> True | b # _ \<Rightarrow> frame_start s b + frame_size s b \<le> pos)"
| "op_ok Return_function s \<longleftrightarrow> cl_frames s \<noteq> []"
| "op_ok (Get_upvalue a b c) s \<longleftrightarrow> upvalue_access s a c b"
| "op_ok (Set_upvalue a b c) s \<longleftrightarrow> upvalue_access s b c a"

definition counts_fit :: "closures \<Rightarrow> os_value list \<Rightarrow> bool" where
  "counts_fit s rest \<longleftrightarrow>
     size (held_values s) + length rest + (case cl_frames s of [] \<Rightarrow> 0 | a # _ \<Rightarrow> frame_size s a) < 2 ^ 31 - 1"

text \<open>
  The abstract view: the value of variable \<open>i\<close> of the locals \<open>a\<close>, for the variables that inner functions use.
  \<open>OP_SET_UPVALUE\<close> changes one of them, \<open>OP_GET_UPVALUE\<close> when it loads into a variable of the running function, the others
  none.
\<close>

definition upvalues :: "closures \<Rightarrow> addr \<Rightarrow> nat \<Rightarrow> os_value option" where
  "upvalues s a i =
     (case cl_locals s a of
        None \<Rightarrow> None
      | Some l \<Rightarrow> if is_upvalue (lc_func_decl l) i then locals_get s l i else None)"

definition set_upvalue :: "addr \<Rightarrow> nat \<Rightarrow> os_value option \<Rightarrow> (addr \<Rightarrow> nat \<Rightarrow> os_value option) \<Rightarrow> addr \<Rightarrow> nat \<Rightarrow> os_value option" where
  "set_upvalue p i v u = u(p := (u p)(i := (if u p i = None then None else v)))"

definition parent_of_running :: "closures \<Rightarrow> int \<Rightarrow> addr" where
  "parent_of_running s c = lc_parents (the (cl_locals s (hd (cl_frames s)))) ! nat (c - 1)"

fun upvalue_spec :: "closure_op \<Rightarrow> closures \<Rightarrow> addr \<Rightarrow> nat \<Rightarrow> os_value option" where
  "upvalue_spec (Get_upvalue a b c) s =
     set_upvalue (hd (cl_frames s)) (nat a) (upvalues s (parent_of_running s c) (nat b)) (upvalues s)"
| "upvalue_spec (Set_upvalue a b c) s =
     set_upvalue (parent_of_running s c) (nat a) (Some (cl_stack s ! (frame_start s (hd (cl_frames s)) + nat b))) (upvalues s)"
| "upvalue_spec _ s = upvalues s"

definition op_kept :: "closure_op \<Rightarrow> closures \<Rightarrow> os_value list \<Rightarrow> bool" where
  "op_kept p s rest \<longleftrightarrow>
     (\<exists>s'. closure_step p s = Some s' \<and> closures_ok s' rest
        \<and> (\<forall>a \<in> dom (cl_locals s) \<inter> dom (cl_locals s'). upvalues s' a = upvalue_spec p s a))"

lemma upvalues_eq:
  "cl_locals s a = Some l \<Longrightarrow> is_upvalue (lc_func_decl l) i \<Longrightarrow> upvalues s a i = locals_get s l i"
  by (simp add: upvalues_def)

lemma op_keptI:
  assumes "closure_step p s = Some s'" "locals_inv s' [] {}" "frames_ok s'" "values_counted s' rest k"
    and "\<And>a. VGC a \<in> set (cl_stack s') \<Longrightarrow> a \<in> value_members (cl_core s')"
    and "\<And>a i. a \<in> dom (cl_locals s) \<Longrightarrow> a \<in> dom (cl_locals s') \<Longrightarrow> upvalues s' a i = upvalue_spec p s a i"
  shows "op_kept p s rest"
  using assms unfolding op_kept_def closures_ok_def values_counted_def by (auto simp: fun_eq_iff)

lemma closures_okD:
  assumes "closures_ok s rest" "counts_fit s rest"
  shows "locals_inv s [] {}" "frames_ok s" "\<And>a. VGC a \<in> set (cl_stack s) \<Longrightarrow> a \<in> value_members (cl_core s)"
    "values_counted s rest (case cl_frames s of [] \<Rightarrow> 0 | a # _ \<Rightarrow> frame_size s a)" "values_counted s rest 0"
  using assms by (auto simp: closures_ok_def counts_fit_def values_counted_def)

lemma shrunkD:
  assumes "shrunk s s'" "cl_locals s' a = Some l'"
  obtains l where "cl_locals s a = Some l" "same_but_count l l'"
  using assms unfolding shrunk_def by blast

lemma shrunk_lookup:
  assumes "shrunk s s'" "a \<in> dom (cl_locals s')"
  shows "upvalues s' a = upvalues s a" "frame_start s' a = frame_start s a" "frame_size s' a = frame_size s a"
proof -
  obtain l' where l': "cl_locals s' a = Some l'" using assms(2) by blast
  then obtain l where l: "cl_locals s a = Some l" "same_but_count l l'" by (rule shrunkD [OF assms(1)])
  moreover have "locals_get s' l' i = locals_get s l i" for i
    using assms(1) l(2) by (simp add: locals_get_def same_but_count_def shrunk_def split: values_at.split)
  ultimately show "upvalues s' a = upvalues s a" "frame_start s' a = frame_start s a" "frame_size s' a = frame_size s a"
    using l' by (simp_all add: upvalues_def frame_start_def frame_size_def same_but_count_def fun_eq_iff)
qed

lemma frames_ok_cong:
  assumes "frames_ok s" "cl_frames s' = cl_frames s"
    and "\<And>a. a \<in> set (cl_frames s) \<Longrightarrow> frame_start s' a = frame_start s a \<and> frame_size s' a = frame_size s a"
    and "\<And>a l'. cl_locals s' a = Some l' \<Longrightarrow> lc_is_stack_locals l' \<Longrightarrow> \<exists>l. cl_locals s a = Some l \<and> lc_is_stack_locals l"
  shows "frames_ok s'"
proof -
  have "sorted_wrt (\<lambda>a b. frame_start s' b + frame_size s' b \<le> frame_start s' a) (cl_frames s)"
    by (rule sorted_wrt_mono_rel [of _ "\<lambda>a b. frame_start s b + frame_size s b \<le> frame_start s a"])
      (use assms(1,3) in \<open>auto simp: frames_ok_def\<close>)
  then show ?thesis using assms(1,2,4) unfolding frames_ok_def by metis
qed

lemma frames_ok_shrunk:
  assumes "shrunk s s'" "set (cl_frames s') \<subseteq> dom (cl_locals s')" "frames_ok s"
  shows "frames_ok s'"
proof (rule frames_ok_cong [OF assms(3)])
  show "cl_frames s' = cl_frames s" using assms(1) by (simp add: shrunk_def)
  then have "set (cl_frames s) \<subseteq> dom (cl_locals s')" using assms(2) by simp
  then show "frame_start s' a = frame_start s a \<and> frame_size s' a = frame_size s a" if "a \<in> set (cl_frames s)" for a
    using that shrunk_lookup [OF assms(1), of a] by blast
  show "\<exists>l. cl_locals s a = Some l \<and> lc_is_stack_locals l" if "cl_locals s' a = Some l'" "lc_is_stack_locals l'" for a l'
    using that(2) by (rule_tac shrunkD [OF assms(1) that(1)]) (simp add: same_but_count_def)
qed

lemma update_funcs [simp]:
  "upvalues (s\<lparr>cl_funcs := F\<rparr>) = upvalues s" "frames_ok (s\<lparr>cl_funcs := F\<rparr>) = frames_ok s"
  "values_counted (s\<lparr>cl_funcs := F\<rparr>) rest k = values_counted s rest k"
proof -
  show "upvalues (s\<lparr>cl_funcs := F\<rparr>) = upvalues s"
    by (simp add: upvalues_def locals_get_def fun_eq_iff split: option.split values_at.split)
  show "frames_ok (s\<lparr>cl_funcs := F\<rparr>) = frames_ok s" by (simp add: frames_ok_def frame_start_def frame_size_def)
  show "values_counted (s\<lparr>cl_funcs := F\<rparr>) rest k = values_counted s rest k"
    by (simp add: values_counted_def held_values_def)
qed

lemma make_function_kept:
  assumes ok: "closures_ok s rest" "counts_fit s rest" and op: "op_ok (Make_function f d) s"
  shows "op_kept (Make_function f d) s rest"
proof (cases "cl_frames s")
  case Nil
  let ?s = "s\<lparr>cl_funcs := (cl_funcs s)(f \<mapsto> (d, None))\<rparr>"
  note inv = closures_okD [OF ok]
  have "closure_step (Make_function f d) s = Some ?s" using op Nil by (simp add: capture_locals_def os_assert_def)
  moreover have "locals_inv ?s [] {}"
    by (rule add_root_inv [OF inv(1)]) (use op Nil in \<open>simp_all add: func_ok_def\<close>)
  ultimately show ?thesis by (rule op_keptI) (use inv in simp_all)
next
  case (Cons a fs)
  note inv = closures_okD [OF ok]
  obtain l where l: "cl_locals s a = Some l" using locals_inv_rest(3) [OF inv(1)] Cons by auto
  let ?s = "set_count a (lc_ref_count l + 1) s"
  let ?t = "?s\<lparr>cl_funcs := (cl_funcs ?s)(f \<mapsto> (d, Some a))\<rparr>"
  have sh: "shrunk s ?s" by (rule set_count_shrunk)
  have s: "locals_inv ?s [a] {}" using retain_inv [OF inv(1) l] .
  then have t: "locals_inv ?t [] {}"
    by (rule add_func_inv) (use op Cons l in \<open>auto simp: func_ok_def set_count_locals\<close>)
  have "frames_ok ?t" using frames_ok_shrunk [OF sh _ inv(2)] locals_inv_rest(3) [OF s] by simp
  moreover have "closure_step (Make_function f d) s = Some ?t"
    using op Cons locals_retain_eq [OF l] by (simp add: capture_locals_def os_assert_def)
  ultimately show ?thesis
    by (intro op_keptI [OF _ t]) (use inv shrunk_lookup(1) [OF sh] in auto)
qed

lemma destroy_function_kept:
  assumes ok: "closures_ok s rest" "counts_fit s rest" and op: "op_ok (Destroy_function f) s"
  shows "op_kept (Destroy_function f) s rest"
proof -
  obtain d c where f: "cl_funcs s f = Some (d, c)" using op by auto
  note inv = closures_okD [OF ok]
  let ?s = "s\<lparr>cl_funcs := (cl_funcs s)(f := None)\<rparr>"
  note removed = remove_func_inv [OF inv(1) f]
  have "\<exists>s'. (case c of None \<Rightarrow> Some ?s | Some a \<Rightarrow> releaseLocals a ?s) = Some s' \<and> locals_inv s' [] {}
      \<and> values_counted s' rest 0 \<and> shrunk ?s s'"
    using removed releaseLocals_inv [of ?s _ "[]" rest 0] inv(5) shrunk_refl by (cases c) auto
  then obtain s' where s': "(case c of None \<Rightarrow> Some ?s | Some a \<Rightarrow> releaseLocals a ?s) = Some s'" "locals_inv s' [] {}"
      "values_counted s' rest 0" "shrunk ?s s'" by blast
  have "frames_ok s'" using frames_ok_shrunk [OF s'(4) locals_inv_rest(3) [OF s'(2)]] inv(2) by simp
  moreover have "closure_step (Destroy_function f) s = Some s'" using f s'(1) by (simp add: drop_captured_def Let_def)
  moreover have "cl_stack s' = cl_stack s" "value_members (cl_core s') = value_members (cl_core s)"
    using s'(4) by (simp_all add: shrunk_def)
  ultimately show ?thesis
    using s' inv(3) shrunk_lookup(1) [OF s'(4)] by (intro op_keptI [of _ s s']) auto
qed

text \<open>Where the variables lie.\<close>

lemma frames_below:
  assumes "frames_ok s" "a \<in> set (cl_frames s)"
    and "case cl_frames s of [] \<Rightarrow> True | b # _ \<Rightarrow> frame_start s b + frame_size s b \<le> pos"
  shows "frame_start s a + frame_size s a \<le> pos"
  using assms by (cases "cl_frames s") (auto simp: frames_ok_def)

lemma frames_disjoint:
  assumes "frames_ok s" "a \<in> set (cl_frames s)" "b \<in> set (cl_frames s)" "a \<noteq> b"
  shows "frame_start s a + frame_size s a \<le> frame_start s b \<or> frame_start s b + frame_size s b \<le> frame_start s a"
proof -
  obtain i j where ij: "i < length (cl_frames s)" "a = cl_frames s ! i" "j < length (cl_frames s)" "b = cl_frames s ! j"
    using assms(2,3) by (metis in_set_conv_nth)
  with assms(4) have "i < j \<or> j < i" by (cases i j rule: linorder_cases) auto
  then show ?thesis using assms(1) ij unfolding frames_ok_def sorted_wrt_iff_nth_less by metis
qed

lemma upvalue_index: "is_upvalue d i \<Longrightarrow> i < length (fd_locals d)"
  by (simp add: is_upvalue_def)

lemma frames_okD: "frames_ok s \<Longrightarrow> cl_locals s a = Some l \<Longrightarrow> lc_is_stack_locals l \<Longrightarrow> a \<in> set (cl_frames s)"
  unfolding frames_ok_def by blast

lemma locals_on_stack:
  assumes inv: "locals_inv s ex {}" "frames_ok s" and l: "cl_locals s a = Some l"
  shows "a \<in> set (cl_frames s) \<longleftrightarrow> lc_values l = On_stack (frame_start s a)"
    "lc_values l = On_stack pos \<Longrightarrow> a \<in> set (cl_frames s) \<and> pos = frame_start s a \<and> lc_is_stack_locals l
       \<and> frame_start s a + frame_size s a \<le> length (cl_stack s)
       \<and> frame_start s a + nat (fd_stack_size (lc_func_decl l)) \<le> length (cl_stack s)"
proof -
  note old = locals_invD [OF inv(1) l]
  have size: "length (fd_locals (lc_func_decl l)) \<le> nat (fd_stack_size (lc_func_decl l))"
    using old(1) unfolding decl_ok_def by linarith
  have on: "lc_is_stack_locals l \<longleftrightarrow> a \<in> set (cl_frames s)" using old(4) frames_okD [OF inv(2) l] by blast
  show "a \<in> set (cl_frames s) \<longleftrightarrow> lc_values l = On_stack (frame_start s a)"
    using old(3) on l by (cases "lc_values l") (simp_all add: values_ok_def frame_start_def)
  show "lc_values l = On_stack pos \<Longrightarrow> a \<in> set (cl_frames s) \<and> pos = frame_start s a \<and> lc_is_stack_locals l
      \<and> frame_start s a + frame_size s a \<le> length (cl_stack s)
      \<and> frame_start s a + nat (fd_stack_size (lc_func_decl l)) \<le> length (cl_stack s)"
    using old(3) on l size by (simp add: values_ok_def frame_start_def frame_size_def)
qed

lemma held_values_split:
  assumes "finite (dom (cl_locals s))" "cl_locals s a = Some l"
  obtains others where "held_values s = mset (heap_values l) + others"
proof -
  have "held_values s = mset (heap_values l) + (\<Sum>b\<in>dom (cl_locals s) - {a}. mset (heap_values (the (cl_locals s b))))"
    using assms sum.remove [of "dom (cl_locals s)" a "\<lambda>b. mset (heap_values (the (cl_locals s b)))"]
    by (simp add: held_values_def domIff)
  then show thesis by (rule that)
qed

lemma locals_get_some:
  assumes ok: "closures_ok s rest" and l: "cl_locals s a = Some l" and i: "is_upvalue (lc_func_decl l) i"
  shows "\<exists>v. locals_get s l i = Some v \<and> upvalues s a i = Some v \<and> (\<forall>b. v = VGC b \<longrightarrow> b \<in> value_members (cl_core s))"
proof -
  have inv: "locals_inv s [] {}" "frames_ok s" using ok by (simp_all add: closures_ok_def)
  note old = locals_invD [OF inv(1) l] and idx = upvalue_index [OF i]
  obtain refs where refs: "counts_ok (cl_core s) refs" "mset refs = held_values s + mset rest"
    using ok by (auto simp: closures_ok_def)
  obtain others where "held_values s = mset (heap_values l) + others"
    using held_values_split [OF locals_inv_rest(1) [OF inv(1)] l] .
  then have heap: "set (heap_values l) \<subseteq> set refs" using arg_cong [OF refs(2), of set_mset] by auto
  have "\<exists>v. locals_get s l i = Some v \<and> (\<forall>b. v = VGC b \<longrightarrow> b \<in> value_members (cl_core s))"
  proof (cases "lc_values l")
    case (On_stack pos)
    then have n: "pos + i < length (cl_stack s)"
      using locals_on_stack(2) [OF inv l On_stack] idx l by (simp add: frame_size_def)
    have "VGC b \<in> set (cl_stack s) \<Longrightarrow> b \<in> value_members (cl_core s)" for b
      using ok by (simp add: closures_ok_def)
    then have "\<forall>b. cl_stack s ! (pos + i) = VGC b \<longrightarrow> b \<in> value_members (cl_core s)" using nth_mem [OF n] by metis
    then show ?thesis using n On_stack by (simp add: locals_get_def os_assert_def)
  next
    case (On_heap vs)
    then have n: "i < length vs" using old(3) idx by (simp add: values_ok_def)
    then have "vs ! i \<in> set refs" using heap On_heap nth_mem [OF n] by (auto simp: heap_values_def)
    then have "\<forall>b. vs ! i = VGC b \<longrightarrow> b \<in> value_members (cl_core s)" using refs(1) unfolding counts_ok_def by metis
    then show ?thesis using n On_heap by (simp add: locals_get_def os_assert_def)
  next
    case No_values
    then show ?thesis using old(3) i by (simp add: values_ok_def)
  qed
  then show ?thesis using l i by (auto simp: upvalues_def)
qed

section \<open>Calls\<close>

lemma call_parents_run:
  assumes inv: "locals_inv s [] {}" and f: "func_ok s (d, c)"
  shows "\<exists>ps s1. call_parents d c s = Some (ps, s1) \<and> locals_inv s1 (take 1 ps) {} \<and> length ps = nat (fd_func_depth d)
    \<and> (case ps of [] \<Rightarrow> True | p # qs \<Rightarrow> parents_at s1 p = Some qs) \<and> shrunk s s1 \<and> cl_core s1 = cl_core s
    \<and> dom (cl_locals s1) = dom (cl_locals s) \<and> held_values s1 = held_values s"
proof (cases c)
  case None
  then show ?thesis using inv f shrunk_refl by (simp add: call_parents_def func_ok_def)
next
  case (Some p)
  then obtain l where l: "cl_locals s p = Some l" and d: "fd_func_depth d = fd_func_depth (lc_func_decl l) + 1"
    using f by (auto simp: func_ok_def)
  note old = locals_invD [OF inv l]
  let ?s = "set_count p (lc_ref_count l + 1) s" and ?ps = "p # lc_parents l"
  have n: "0 \<le> fd_func_depth (lc_func_decl l)" using old(1) by (simp add: decl_ok_def)
  have "call_parents d c s = Some (?ps, ?s)"
    using Some l d n old(2) locals_retain_eq [OF l] by (simp add: call_parents_def os_assert_def)
  moreover have "length ?ps = nat (fd_func_depth d)" using d n old(2) by simp
  moreover have "locals_inv ?s (take 1 ?ps) {}" using retain_inv [OF inv l] by simp
  moreover have "parents_at ?s p = Some (lc_parents l)" using l by (simp add: parents_at_def [of s])
  ultimately show ?thesis
    using set_count_shrunk [of s] set_count_held [of _ _ s] by (intro exI [of _ ?ps] exI [of _ ?s]) simp
qed

lemma set_values_run:
  assumes "pos + length vs \<le> length buf"
  shows "\<exists>buf'. set_values pos vs buf = Some buf' \<and> length buf' = length buf \<and> set buf' \<subseteq> set vs \<union> set buf
    \<and> (\<forall>i < pos. buf' ! i = buf ! i)"
  using assms set_take_subset [of pos buf] set_drop_subset [of "pos + length vs" buf]
  by (auto simp: set_values_def os_assert_def nth_append)

lemma upvalues_cong:
  assumes "cl_locals s' a = cl_locals s a" "length (cl_stack s') = length (cl_stack s)"
    and "\<And>l pos i. cl_locals s a = Some l \<Longrightarrow> lc_values l = On_stack pos \<Longrightarrow> i < length (fd_locals (lc_func_decl l)) \<Longrightarrow>
      cl_stack s' ! (pos + i) = cl_stack s ! (pos + i)"
  shows "upvalues s' a = upvalues s a"
proof
  fix i
  show "upvalues s' a i = upvalues s a i"
    using assms(1,2) assms(3) [OF _ _ upvalue_index]
    by (cases "cl_locals s a") (auto simp: upvalues_def locals_get_def split: values_at.split)
qed

lemma call_function_kept:
  assumes ok: "closures_ok s rest" "counts_fit s rest" and op: "op_ok (Call_function a f pos n) s"
  shows "op_kept (Call_function a f pos n) s rest"
proof -
  note inv = closures_okD [OF ok]
  have a: "cl_locals s a = None" using op by simp
  obtain d c where f: "cl_funcs s f = Some (d, c)" and n: "int n \<le> fd_stack_size d"
      and room: "pos + nat (fd_stack_size d) \<le> length (cl_stack s)"
    using op by (auto split: option.splits)
  have fok: "func_ok s (d, c)" by (rule locals_inv_funcs [OF inv(1) f])
  obtain ps s1 where s1: "call_parents d c s = Some (ps, s1)" "locals_inv s1 (take 1 ps) {}"
      "length ps = nat (fd_func_depth d)" "case ps of [] \<Rightarrow> True | p # qs \<Rightarrow> parents_at s1 p = Some qs"
      "shrunk s s1" "cl_core s1 = cl_core s" "dom (cl_locals s1) = dom (cl_locals s)" "held_values s1 = held_values s"
    using call_parents_run [OF inv(1) fok] by blast
  have same: "cl_stack s1 = cl_stack s" "cl_frames s1 = cl_frames s" using s1(5) by (simp_all add: shrunk_def)
  let ?new = "replicate (nat (fd_stack_size d - int n)) VNull"
  have "pos + n + length ?new \<le> length (cl_stack s)" using n room by simp
  then obtain st where st: "set_values (pos + n) ?new (cl_stack s) = Some st" "length st = length (cl_stack s)"
      "set st \<subseteq> set ?new \<union> set (cl_stack s)" "\<forall>i < pos + n. st ! i = cl_stack s ! i"
    using set_values_run by blast
  let ?l = "\<lparr>lc_ref_count = 1, lc_func_decl = d, lc_values = On_stack pos, lc_is_stack_locals = True, lc_parents = ps\<rparr>"
  let ?t = "s1\<lparr>cl_stack := st, cl_frames := a # cl_frames s1, cl_locals := (cl_locals s1)(a \<mapsto> ?l)\<rparr>"
  have run: "closure_step (Call_function a f pos n) s = Some ?t"
    using a f s1(1) st(1) same by (simp add: enter_locals_def os_assert_def)
  have a1: "cl_locals s1 a = None" using a s1(7) by blast
  have "decl_ok d" using fok by (simp add: func_ok_def)
  then have t: "locals_inv ?t [] {}"
    using enter_inv [OF s1(2) a1 _ s1(3,4), of st pos] st(2) room same by simp
  have frames: "set (cl_frames s) \<subseteq> dom (cl_locals s)" using locals_inv_rest(3) [OF inv(1)] .
  have ok1: "frames_ok s1" using frames_ok_shrunk [OF s1(5) _ inv(2)] same frames s1(7) by simp
  have below: "frame_start s1 b + frame_size s1 b \<le> pos" if "b \<in> set (cl_frames s)" for b
  proof -
    have b: "b \<in> dom (cl_locals s1)" using that frames s1(7) by blast
    show ?thesis using frames_below [OF inv(2) that, of pos] op shrunk_lookup(2,3) [OF s1(5) b] by simp
  qed
  have look: "frame_start ?t b = (if b = a then pos else frame_start s1 b)"
      "frame_size ?t b = (if b = a then length (fd_locals d) else frame_size s1 b)" for b
    by (simp_all add: frame_start_def frame_size_def)
  have new: "a \<notin> set (cl_frames s)" using frames a by auto
  have "frames_ok ?t"
    unfolding frames_ok_def
  proof (intro conjI allI impI)
    show "distinct (cl_frames ?t)" using ok1 new same by (simp add: frames_ok_def)
    have "sorted_wrt (\<lambda>a b. frame_start ?t b + frame_size ?t b \<le> frame_start ?t a) (cl_frames s)"
    proof (rule sorted_wrt_mono_rel [of _ "\<lambda>a b. frame_start s1 b + frame_size s1 b \<le> frame_start s1 a"])
      show "sorted_wrt (\<lambda>a b. frame_start s1 b + frame_size s1 b \<le> frame_start s1 a) (cl_frames s)"
        using ok1 same by (simp add: frames_ok_def)
      show "frame_start ?t c + frame_size ?t c \<le> frame_start ?t b"
        if "b \<in> set (cl_frames s)" "c \<in> set (cl_frames s)" "frame_start s1 c + frame_size s1 c \<le> frame_start s1 b" for b c
        using that new by (auto simp only: look split: if_splits)
    qed
    moreover have "\<forall>b\<in>set (cl_frames s). frame_start ?t b + frame_size ?t b \<le> frame_start ?t a"
      using below new by (auto simp only: look split: if_splits)
    moreover have fr: "cl_frames ?t = a # cl_frames s" using same by simp
    ultimately show "sorted_wrt (\<lambda>a b. frame_start ?t b + frame_size ?t b \<le> frame_start ?t a) (cl_frames ?t)"
      unfolding fr sorted_wrt.simps by blast
    show "b \<in> set (cl_frames ?t)" if "cl_locals ?t b = Some l" "lc_is_stack_locals l" for b l
      using that frames_okD [OF ok1, of b l] by (cases "b = a") simp_all
  qed
  moreover have "values_counted ?t rest 0"
    using inv(5) s1(6,8) held_values_update [OF locals_inv_rest(1) [OF s1(2)], of ?t a ?l] a1
    by (simp add: values_counted_def heap_values_def)
  moreover have "upvalues ?t b i = upvalue_spec (Call_function a f pos n) s b i" if "b \<in> dom (cl_locals s)" for b i
  proof -
    have "b \<noteq> a" using that a by auto
    have "upvalues ?t b = upvalues s1 b"
    proof (rule upvalues_cong)
      fix l q j assume l: "cl_locals s1 b = Some l" "lc_values l = On_stack q" "j < length (fd_locals (lc_func_decl l))"
      have "b \<in> set (cl_frames s)" "q = frame_start s1 b"
        using locals_on_stack(2) [OF s1(2) ok1 l(1,2)] same by simp_all
      then have "q + j < pos" using below [of b] l by (simp add: frame_size_def)
      then show "cl_stack ?t ! (q + j) = cl_stack s1 ! (q + j)" using st(4) same by simp
    qed (use \<open>b \<noteq> a\<close> st(2) same in simp_all)
    then show ?thesis using shrunk_lookup(1) [OF s1(5), of b] that s1(7) by simp
  qed
  moreover have "VGC b \<in> set (cl_stack ?t) \<Longrightarrow> b \<in> value_members (cl_core ?t)" for b
    using st(3) inv(3) s1(6) by auto
  ultimately show ?thesis using run t by (intro op_keptI [of _ s ?t]) blast+
qed

lemma update_frames [simp]:
  "upvalues (s\<lparr>cl_frames := F\<rparr>) = upvalues s" "frame_start (s\<lparr>cl_frames := F\<rparr>) = frame_start s"
  "frame_size (s\<lparr>cl_frames := F\<rparr>) = frame_size s"
  "values_counted (s\<lparr>cl_frames := F\<rparr>) rest k = values_counted s rest k"
  by (simp_all add: upvalues_def locals_get_def frame_start_def frame_size_def
      values_counted_def held_values_def fun_eq_iff split: option.split values_at.split)

lemma frames_ok_return:
  assumes "frames_ok s" "cl_frames s = a # fs" "cl_frames s' = fs"
    and "\<And>b. b \<in> set fs \<Longrightarrow> frame_start s' b = frame_start s b \<and> frame_size s' b = frame_size s b"
    and "\<And>b l'. cl_locals s' b = Some l' \<Longrightarrow> lc_is_stack_locals l' \<Longrightarrow>
      b \<noteq> a \<and> (\<exists>l. cl_locals s b = Some l \<and> lc_is_stack_locals l)"
  shows "frames_ok s'"
  unfolding frames_ok_def
proof (intro conjI allI impI)
  show "distinct (cl_frames s')" using assms(1-3) by (simp add: frames_ok_def)
  have "sorted_wrt (\<lambda>a b. frame_start s' b + frame_size s' b \<le> frame_start s' a) fs"
    by (rule sorted_wrt_mono_rel [of _ "\<lambda>a b. frame_start s b + frame_size s b \<le> frame_start s a"])
      (use assms(1,2,4) in \<open>auto simp: frames_ok_def\<close>)
  then show "sorted_wrt (\<lambda>a b. frame_start s' b + frame_size s' b \<le> frame_start s' a) (cl_frames s')"
    using assms(3) by simp
  show "b \<in> set (cl_frames s')" if b: "cl_locals s' b = Some l'" "lc_is_stack_locals l'" for b l'
    using assms(5) [OF b] frames_okD [OF assms(1), of b] assms(2,3) by auto
qed

lemma pop_frame_inv:
  assumes inv: "locals_inv s [] {}" and frames: "cl_frames s = a # fs"
  shows "locals_inv (s\<lparr>cl_frames := fs\<rparr>) [a] {}"
proof (rule locals_invI)
  let ?s = "s\<lparr>cl_frames := fs\<rparr>"
  fix b l assume b: "cl_locals ?s b = Some l"
  then have "local_ok s [] {} b l" using inv by (simp add: locals_inv_def)
  then show "local_ok ?s [a] {} b l"
    by (rule local_ok_refs) (use frames in \<open>auto simp: count_list_append captors_def\<close>)
next
  fix f fc assume "cl_funcs (s\<lparr>cl_frames := fs\<rparr>) f = Some fc"
  then show "func_ok (s\<lparr>cl_frames := fs\<rparr>) fc"
    using locals_inv_funcs [OF inv, of f fc] func_ok_cong [of "s\<lparr>cl_frames := fs\<rparr>" s fc] by simp
qed (use locals_inv_rest [OF inv] frames in auto)

lemma return_function_kept:
  assumes ok: "closures_ok s rest" "counts_fit s rest" and op: "op_ok Return_function s"
  shows "op_kept Return_function s rest"
proof -
  note inv = closures_okD [OF ok]
  obtain a fs where frames: "cl_frames s = a # fs" using op by (cases "cl_frames s") auto
  let ?s = "s\<lparr>cl_frames := fs\<rparr>"
  have s0: "locals_inv ?s [a] {}" by (rule pop_frame_inv [OF inv(1) frames])
  obtain l where l: "cl_locals s a = Some l" using locals_inv_rest(3) [OF inv(1)] frames by auto
  note old = locals_invD [OF inv(1) l]
  have new: "a \<notin> set fs" using inv(2) frames by (simp add: frames_ok_def)
  let ?s1 = "set_count a (lc_ref_count l - 1) ?s" and ?l1 = "l\<lparr>lc_ref_count := lc_ref_count l - 1\<rparr>"
  have l0: "cl_locals ?s a = Some l" and l1: "cl_locals ?s1 a = Some ?l1" using l by (simp_all add: set_count_locals)
  have drop: "drop_locals_ref a ?s = Some (lc_ref_count l - 1 > 0, ?s1)" by (rule drop_locals_ref_eq [OF l0])
  have cnt: "values_counted ?s1 rest (length (fd_locals (lc_func_decl l)))"
    using inv(4) frames l by (simp add: frame_size_def)
  show ?thesis
  proof (cases "1 < lc_ref_count l")
    case False
    have "locals_inv ?s1 (take 1 (lc_parents ?l1) @ []) {a}" using drop_locals_ref_dead [OF s0 l0 False] by simp
    then obtain s' where s': "deleteLocals a ?s1 = Some s'" "locals_inv s' [] {}"
        "values_counted s' rest (length (fd_locals (lc_func_decl l)))" "shrunk ?s1 s'" "cl_locals s' a = None"
      using deleteLocals_inv [OF _ l1 _ cnt, of "[]" "{}"] by auto
    have run: "closure_step Return_function s = Some s'"
      using frames drop False s'(1) by (simp add: leave_locals_def)
    have sh: "shrunk ?s s'" using shrunk_trans [OF set_count_shrunk s'(4)] .
    have same: "cl_stack s' = cl_stack s" "cl_frames s' = fs" "value_members (cl_core s') = value_members (cl_core s)"
      using sh by (simp_all add: shrunk_def)
    have "frames_ok s'"
    proof (rule frames_ok_return [OF inv(2) frames same(2)])
      show "frame_start s' b = frame_start s b \<and> frame_size s' b = frame_size s b" if "b \<in> set fs" for b
      proof -
        have "b \<in> dom (cl_locals s')" using that locals_inv_rest(3) [OF s'(2)] same(2) by blast
        then show ?thesis using shrunk_lookup(2,3) [OF sh, of b] by simp
      qed
      show "b \<noteq> a \<and> (\<exists>l. cl_locals s b = Some l \<and> lc_is_stack_locals l)"
        if b: "cl_locals s' b = Some l'" "lc_is_stack_locals l'" for b l'
        using b s'(5) by (rule_tac shrunkD [OF sh b(1)]) (auto simp: same_but_count_def)
    qed
    moreover have "values_counted s' rest 0" using s'(3) by (simp add: values_counted_def)
    ultimately show ?thesis
      by (intro op_keptI [OF run s'(2)]) (use same inv(3) shrunk_lookup(1) [OF sh] in simp_all)
  next
    case True
    let ?n = "length (fd_locals (lc_func_decl l))"
    have stack: "lc_values l = On_stack (frame_start s a)" using locals_on_stack(1) [OF inv(1,2) l] frames by simp
    have get: "locals_get ?s1 ?l1 i = locals_get s l i" for i
      by (simp add: locals_get_def split: values_at.split)
    obtain refs where refs: "counts_ok (cl_core s) refs" "mset refs = held_values ?s1 + mset rest"
      using cnt by (auto simp: values_counted_def)
    have "size (mset refs) = size (held_values ?s1) + length rest" by (simp add: refs(2))
    then have len: "?n + length refs < 2 ^ 31" using cnt by (simp add: values_counted_def)
    let ?vs = "map (\<lambda>i. if is_upvalue (lc_func_decl l) i then the (locals_get s l i) else VNull) [0..<?n]"
    obtain c where c: "copy_upvalues ?s1 ?l1 [0..<?n] (cl_core s) = Some (?vs, c)" "counts_ok c (?vs @ refs)"
        "same_objects (cl_core s) c" "value_members c = value_members (cl_core s)"
    proof -
      have g: "(\<lambda>i. if is_upvalue (lc_func_decl ?l1) i then the (locals_get ?s1 ?l1 i) else VNull)
          = (\<lambda>i. if is_upvalue (lc_func_decl l) i then the (locals_get s l i) else VNull)"
        by (simp add: get fun_eq_iff)
      have "\<exists>v. locals_get ?s1 ?l1 i = Some v \<and> (\<forall>b. v = VGC b \<longrightarrow> b \<in> value_members (cl_core s))"
        if "is_upvalue (lc_func_decl ?l1) i" for i
        using locals_get_some [OF ok(1) l, of i] that unfolding get by auto
      then have "\<exists>vs c. copy_upvalues ?s1 ?l1 [0..<?n] (cl_core s) = Some (vs, c) \<and> counts_ok c (vs @ refs)
          \<and> same_objects (cl_core s) c \<and> value_members c = value_members (cl_core s) \<and> vs = ?vs"
        unfolding g [symmetric] using refs(1) len by (intro copy_upvalues_run) simp_all
      then show thesis using that by blast
    qed
    let ?used = "?n > 0 \<and> (\<exists>i<?n. is_upvalue (lc_func_decl l) i)"
    let ?l2 = "?l1\<lparr>lc_values := (if ?used then On_heap ?vs else No_values), lc_is_stack_locals := False\<rparr>"
    let ?t = "?s1\<lparr>cl_core := c, cl_locals := (cl_locals ?s1)(a \<mapsto> ?l2)\<rparr>"
    have n: "nat (fd_num_locals (lc_func_decl l)) = ?n" using old(1) by (simp add: decl_ok_def)
    have run: "closure_step Return_function s = Some ?t"
      using frames drop True l1 c(1) n by (simp add: leave_locals_def Let_def)
    have s1: "locals_inv ?s1 [] {}" by (rule drop_locals_ref_alive [OF s0 l0 True])
    have used: "is_upvalue (lc_func_decl l) i \<Longrightarrow> ?used" for i using upvalue_index [of _ i] by (metis gr_implies_not0 not_gr0)
    then have "values_ok ?s1 ?l2" by (auto simp: values_ok_def)
    then have t: "locals_inv ?t [] {}" using new by (intro update_values_inv [OF s1 l1]) simp_all
    have "held_values ?t + mset (heap_values ?l1) = held_values ?s1 + mset (heap_values ?l2)"
      using held_values_update [OF locals_inv_rest(1) [OF s1], of ?t a ?l2] l1 by simp
    then have held: "held_values ?t = held_values ?s1 + mset (if ?used then ?vs else [])"
      by (simp add: heap_values_def stack)
    have "\<exists>refs'. counts_ok c refs' \<and> mset refs' = held_values ?t + mset rest"
    proof (cases ?used)
      case True
      then show ?thesis using c(2) held refs(2) by (intro exI [of _ "?vs @ refs"]) simp
    next
      case False
      then have "set ?vs \<subseteq> {VNull}" by auto
      then show ?thesis using c(2) held refs(2) False counts_ok_nulls [of ?vs c refs] by (intro exI [of _ refs]) auto
    qed
    moreover have "size (held_values ?t) \<le> size (held_values ?s1) + ?n" unfolding held by simp
    ultimately have "values_counted ?t rest 0" using cnt c(3) by (auto simp: values_counted_def same_objects_def)
    moreover have "frames_ok ?t"
    proof (rule frames_ok_return [OF inv(2) frames])
      show "frame_start ?t b = frame_start s b \<and> frame_size ?t b = frame_size s b" if "b \<in> set fs" for b
        using that new by (auto simp: frame_start_def frame_size_def set_count_locals)
      show "b \<noteq> a \<and> (\<exists>l. cl_locals s b = Some l \<and> lc_is_stack_locals l)"
        if "cl_locals ?t b = Some l'" "lc_is_stack_locals l'" for b l'
        using that by (cases "b = a") (auto simp: set_count_locals)
    qed simp
    moreover have "upvalues ?t b i = upvalues s b i" for b i
    proof (cases "b = a")
      case True
      show ?thesis
      proof (cases "is_upvalue (lc_func_decl l) i")
        case up: True
        then obtain v where v: "locals_get s l i = Some v" "upvalues s a i = Some v"
          using locals_get_some [OF ok(1) l] by blast
        have "locals_get ?t ?l2 i = Some (?vs ! i)"
          by (rule locals_get_heap) (use used [OF up] upvalue_index [OF up] in auto)
        moreover have "upvalues ?t a i = locals_get ?t ?l2 i" by (rule upvalues_eq) (use up in simp_all)
        moreover have "?vs ! i = v" using up v upvalue_index [OF up] by simp
        ultimately show ?thesis using True v(2) by (simp only:)
      qed (use True l in \<open>simp add: upvalues_def\<close>)
    next
      case False
      then have "upvalues ?t b = upvalues s b" by (intro upvalues_cong) (simp_all add: set_count_locals)
      then show ?thesis by simp
    qed
    ultimately show ?thesis
      by (intro op_keptI [OF run t]) (use inv(3) c(4) in simp_all)
  qed
qed

section \<open>Upvalues of the running function\<close>

lemma parents_alive:
  assumes "locals_inv s ex {}" "cl_locals s a = Some l" "i < length (lc_parents l)"
  shows "\<exists>lp. cl_locals s (lc_parents l ! i) = Some lp"
  using assms(2,3)
proof (induction i arbitrary: a l)
  case 0
  then show ?case using locals_invD(7) [OF assms(1) 0(1)] by (cases "lc_parents l") (auto simp: parents_ok_def parents_at_def)
next
  case (Suc i)
  then obtain p ps where ps: "lc_parents l = p # ps" by (cases "lc_parents l") auto
  then obtain lp where lp: "cl_locals s p = Some lp" "lc_parents lp = ps"
    using locals_invD(7) [OF assms(1) Suc.prems(1)] by (auto simp: parents_ok_def parents_at_def)
  show ?case using Suc.IH [OF lp(1)] Suc.prems(2) ps lp(2) by simp
qed

lemma access_run:
  assumes ok: "closures_ok s rest" and acc: "upvalue_access s slot c i"
  shows "\<exists>f fs l scope. cl_frames s = f # fs \<and> cl_locals s f = Some l
    \<and> stack_slot s slot = Some (frame_start s f + nat slot) \<and> frame_start s f + nat slot < length (cl_stack s)
    \<and> upvalue_scope s c i = Some (parent_of_running s c, scope) \<and> cl_locals s (parent_of_running s c) = Some scope
    \<and> is_upvalue (lc_func_decl scope) (nat i)"
proof -
  have inv: "locals_inv s [] {}" "frames_ok s" using ok by (simp_all add: closures_ok_def)
  obtain f fs l where f: "cl_frames s = f # fs" "cl_locals s f = Some l"
      and acc: "0 \<le> slot" "slot < fd_stack_size (lc_func_decl l)" "0 < c" "c \<le> fd_max_up_count (lc_func_decl l)"
        "c \<le> fd_func_depth (lc_func_decl l)" "0 \<le> i"
        "case cl_locals s (lc_parents l ! nat (c - 1)) of None \<Rightarrow> True | Some scope \<Rightarrow> is_upvalue (lc_func_decl scope) (nat i)"
    using acc by (auto simp: upvalue_access_def split: list.splits option.splits)
  note old = locals_invD [OF inv(1) f(2)]
  have stack: "lc_values l = On_stack (frame_start s f)" using locals_on_stack(1) [OF inv f(2)] f(1) by simp
  have slot: "frame_start s f + nat slot < length (cl_stack s)"
    using locals_on_stack(2) [OF inv f(2) stack] acc(1,2) by linarith
  have n: "nat (c - 1) < length (lc_parents l)" using old(2) acc(3,5) by simp
  have p: "parent_of_running s c = lc_parents l ! nat (c - 1)" using f by (simp add: parent_of_running_def)
  obtain scope where scope: "cl_locals s (parent_of_running s c) = Some scope"
    using parents_alive [OF inv(1) f(2) n] p by auto
  then have up: "is_upvalue (lc_func_decl scope) (nat i)" using acc(7) p by simp
  then have "i < fd_num_locals (lc_func_decl scope)"
    using upvalue_index [OF up] locals_invD(1) [OF inv(1) scope] acc(6) by (simp add: decl_ok_def)
  then have "upvalue_scope s c i = Some (parent_of_running s c, scope)"
    using f acc n up scope p by (simp add: upvalue_scope_def os_assert_def Let_def)
  moreover have "stack_slot s slot = Some (frame_start s f + nat slot)"
    using f stack slot acc(1,2) by (simp add: stack_slot_def os_assert_def)
  ultimately show ?thesis using f slot scope up by blast
qed

lemma write_stack_kept:
  assumes ok: "closures_ok s rest" "counts_fit s rest" and p: "p \<in> set (cl_frames s)"
    and apart: "\<And>q. q \<in> set (cl_frames s) \<Longrightarrow> q \<noteq> p \<Longrightarrow>
      frame_start s q + frame_size s q \<le> frame_start s p + j \<or> frame_start s p + j < frame_start s q"
    and j: "frame_start s p + j < length (cl_stack s)" and v: "\<And>b. v = VGC b \<Longrightarrow> b \<in> value_members (cl_core s)"
    and run: "closure_step op s = Some (s\<lparr>cl_stack := (cl_stack s)[frame_start s p + j := v]\<rparr>)"
    and spec: "upvalue_spec op s = set_upvalue p j (Some v) (upvalues s)"
  shows "op_kept op s rest"
proof -
  note inv = closures_okD [OF ok]
  let ?s = "s\<lparr>cl_stack := (cl_stack s)[frame_start s p + j := v]\<rparr>"
  have "locals_inv ?s [] {}"
  proof (rule locals_invI)
    fix b l assume b: "cl_locals ?s b = Some l"
    then have "local_ok s [] {} b l" using inv(1) by (simp add: locals_inv_def)
    then show "local_ok ?s [] {} b l" by (rule local_ok_refs) (simp_all add: captors_def)
  next
    fix f fc assume "cl_funcs ?s f = Some fc"
    then show "func_ok ?s fc" using locals_inv_funcs [OF inv(1), of f fc] func_ok_cong [of ?s s fc] by simp
  qed (use locals_inv_rest [OF inv(1)] in auto)
  moreover have "frames_ok ?s" using inv(2) by (simp add: frames_ok_def frame_start_def frame_size_def)
  moreover have "values_counted ?s rest 0" using inv(5) by (simp add: values_counted_def held_values_def)
  moreover have "VGC b \<in> set (cl_stack ?s) \<Longrightarrow> b \<in> value_members (cl_core ?s)" for b
    using inv(3) v set_update_subset_insert [of "cl_stack s" "frame_start s p + j" v] by auto
  moreover have "upvalues ?s q i = upvalue_spec op s q i" if q: "q \<in> dom (cl_locals s)" for q i
  proof -
    obtain l where l: "cl_locals s q = Some l" using q by blast
    show ?thesis
    proof (cases "is_upvalue (lc_func_decl l) i \<and> (\<exists>pos. lc_values l = On_stack pos)")
      case True
      then obtain pos where pos: "lc_values l = On_stack pos" by blast
      note on = locals_on_stack(2) [OF inv(1,2) l pos]
      have i: "i < frame_size s q" using True upvalue_index l by (simp add: frame_size_def)
      have "frame_start s p + j = frame_start s q + i \<longleftrightarrow> q = p \<and> i = j"
        using apart [of q] on i by (cases "q = p") auto
      then have "upvalues ?s q i = (if q = p \<and> i = j then Some v else upvalues s q i)"
        using l True pos on i j by (simp add: upvalues_def locals_get_def os_assert_def nth_list_update)
      moreover have "upvalues s q i \<noteq> None" using locals_get_some [OF ok(1) l] True by auto
      ultimately show ?thesis unfolding spec by (auto simp: set_upvalue_def)
    next
      case False
      then have "upvalues ?s q i = upvalues s q i" using l by (auto simp: upvalues_def locals_get_def split: values_at.split)
      moreover have "q = p \<Longrightarrow> upvalues s q i = None"
        using False l locals_on_stack(1) [OF inv(1,2) l] p by (auto simp: upvalues_def)
      ultimately show ?thesis unfolding spec by (auto simp: set_upvalue_def)
    qed
  qed
  ultimately show ?thesis using run by (intro op_keptI [of op s ?s]) blast+
qed

lemma get_upvalue_kept:
  assumes ok: "closures_ok s rest" "counts_fit s rest" and op: "op_ok (Get_upvalue a b c) s"
  shows "op_kept (Get_upvalue a b c) s rest"
proof -
  note inv = closures_okD [OF ok]
  let ?p = "parent_of_running s c"
  obtain f fs l scope where f: "cl_frames s = f # fs" "cl_locals s f = Some l"
      "stack_slot s a = Some (frame_start s f + nat a)" "frame_start s f + nat a < length (cl_stack s)"
      and p: "upvalue_scope s c b = Some (?p, scope)" "cl_locals s ?p = Some scope" "is_upvalue (lc_func_decl scope) (nat b)"
    using access_run [OF ok(1), of a c b] op by auto
  obtain v where v: "locals_get s scope (nat b) = Some v" "upvalues s ?p (nat b) = Some v"
      "\<forall>x. v = VGC x \<longrightarrow> x \<in> value_members (cl_core s)"
    using locals_get_some [OF ok(1) p(2,3)] by blast
  show ?thesis
  proof (rule write_stack_kept [OF ok, of f])
    show "closure_step (Get_upvalue a b c) s = Some (s\<lparr>cl_stack := (cl_stack s)[frame_start s f + nat a := v]\<rparr>)"
      using f p v by (simp add: exec_OP_GET_UPVALUE_def)
    show "upvalue_spec (Get_upvalue a b c) s = set_upvalue f (nat a) (Some v) (upvalues s)" using f v by simp
    show "frame_start s q + frame_size s q \<le> frame_start s f + nat a \<or> frame_start s f + nat a < frame_start s q"
      if "q \<in> set (cl_frames s)" "q \<noteq> f" for q
      using that f(1) inv(2) by (auto simp: frames_ok_def intro: trans_le_add1)
  qed (use f v in auto)
qed

lemma set_upvalue_kept:
  assumes ok: "closures_ok s rest" "counts_fit s rest" and op: "op_ok (Set_upvalue a b c) s"
  shows "op_kept (Set_upvalue a b c) s rest"
proof -
  note inv = closures_okD [OF ok]
  let ?p = "parent_of_running s c"
  obtain f fs l scope where f: "cl_frames s = f # fs" "cl_locals s f = Some l"
      "stack_slot s b = Some (frame_start s f + nat b)" "frame_start s f + nat b < length (cl_stack s)"
      and p: "upvalue_scope s c a = Some (?p, scope)" "cl_locals s ?p = Some scope" "is_upvalue (lc_func_decl scope) (nat a)"
    using access_run [OF ok(1), of b c a] op by auto
  let ?v = "cl_stack s ! (frame_start s f + nat b)"
  have v: "?v = VGC x \<Longrightarrow> x \<in> value_members (cl_core s)" for x using inv(3) nth_mem [OF f(4)] by metis
  have spec: "upvalue_spec (Set_upvalue a b c) s = set_upvalue ?p (nat a) (Some ?v) (upvalues s)" using f by simp
  note old = locals_invD [OF inv(1) p(2)] and idx = upvalue_index [OF p(3)]
  show ?thesis
  proof (cases "lc_values scope")
    case (On_stack pos)
    note on = locals_on_stack(2) [OF inv(1,2) p(2) On_stack]
    have a: "nat a < frame_size s ?p" using idx p(2) by (simp add: frame_size_def)
    show ?thesis
    proof (rule write_stack_kept [OF ok, of ?p])
      show "closure_step (Set_upvalue a b c) s = Some (s\<lparr>cl_stack := (cl_stack s)[frame_start s ?p + nat a := ?v]\<rparr>)"
        using f p On_stack on a by (simp add: exec_OP_SET_UPVALUE_def os_assert_def)
      show "frame_start s q + frame_size s q \<le> frame_start s ?p + nat a \<or> frame_start s ?p + nat a < frame_start s q"
        if "q \<in> set (cl_frames s)" "q \<noteq> ?p" for q
        using frames_disjoint [OF inv(2) that(1) _ that(2)] on a by auto
    qed (use on a v spec in auto)
  next
    case (On_heap vs)
    have a: "nat a < length vs" "\<not> lc_is_stack_locals scope" using old(3) On_heap idx by (simp_all add: values_ok_def)
    have notin: "?p \<notin> set (cl_frames s)" using locals_on_stack(1) [OF inv(1,2) p(2)] On_heap by simp
    obtain others where others: "held_values s = mset vs + others"
      using held_values_split [OF locals_inv_rest(1) [OF inv(1)] p(2)] On_heap by (auto simp: heap_values_def)
    obtain refs where refs: "counts_ok (cl_core s) refs" "mset refs = held_values s + mset rest"
      using ok(1) by (auto simp: closures_ok_def)
    obtain os where os: "mset os = others + mset rest" using ex_mset by blast
    have "counts_ok (cl_core s) (vs @ os)" using refs others os counts_ok_mset [of refs "vs @ os"] by (simp add: ac_simps)
    moreover have len: "length (vs @ os) = size (held_values s) + length rest"
      using arg_cong [OF os, of size] others by simp
    moreover have "case ?v of VGC x \<Rightarrow> x \<in> value_members (cl_core s) | _ \<Rightarrow> True"
      using v by (auto split: os_value.split)
    ultimately obtain c' where c': "setValue (vs ! nat a) ?v (cl_core s) = Some (?v, c')" "counts_ok c' (vs[nat a := ?v] @ os)"
        "same_objects (cl_core s) c'" "value_members c' = value_members (cl_core s)"
      using setValue_counts [of "cl_core s" "vs @ os" "nat a" ?v] a(1) inv(5)
      by (auto simp: values_counted_def nth_append list_update_append)
    let ?l = "scope\<lparr>lc_values := On_heap (vs[nat a := ?v])\<rparr>"
    let ?t = "s\<lparr>cl_core := c', cl_locals := (cl_locals s)(?p \<mapsto> ?l)\<rparr>"
    have run: "closure_step (Set_upvalue a b c) s = Some ?t"
      using f p On_heap a c'(1) by (simp add: exec_OP_SET_UPVALUE_def os_assert_def)
    have "values_ok s ?l" using old(3) On_heap by (simp add: values_ok_def)
    then have t: "locals_inv ?t [] {}" using notin by (intro update_values_inv [OF inv(1) p(2)]) simp_all
    have "held_values ?t + mset vs = others + mset (vs[nat a := ?v]) + mset vs"
      using held_values_update [OF locals_inv_rest(1) [OF inv(1)], of ?t ?p ?l] p(2) On_heap others
      by (simp add: heap_values_def)
    then have held: "held_values ?t = others + mset (vs[nat a := ?v])" by simp
    have "mset (vs[nat a := ?v] @ os) = held_values ?t + mset rest" unfolding held by (simp add: os ac_simps)
    moreover have "size (held_values ?t) = size (held_values s)" unfolding held others by simp
    ultimately have "values_counted ?t rest 0"
      using inv(5) c'(2,3) unfolding values_counted_def same_objects_def by auto
    moreover have "frames_ok ?t"
      by (rule frames_ok_cong [OF inv(2)]) (use notin p(2) in \<open>auto simp: frame_start_def frame_size_def split: if_splits\<close>)
    moreover have "upvalues ?t q i = upvalue_spec (Set_upvalue a b c) s q i" for q i
    proof (cases "q = ?p")
      case True
      show ?thesis
      proof (cases "is_upvalue (lc_func_decl scope) i")
        case up: True
        then have i: "i < length vs" using upvalue_index [OF up] old(3) On_heap by (simp add: values_ok_def)
        have "upvalues ?t ?p i = locals_get ?t ?l i" by (rule upvalues_eq) (use up in simp_all)
        also have "\<dots> = Some (vs[nat a := ?v] ! i)" by (rule locals_get_heap) (use i in simp_all)
        finally have "upvalues ?t ?p i = Some (if i = nat a then ?v else vs ! i)" using i by (simp add: nth_list_update)
        moreover have "upvalues s ?p i = Some (vs ! i)"
          using upvalues_eq [OF p(2) up] locals_get_heap [OF On_heap i] by simp
        ultimately show ?thesis unfolding spec True by (cases "i = nat a") (auto simp: set_upvalue_def)
      next
        case False
        then have "upvalues ?t ?p i = None" "upvalues s ?p i = None" using p(2) by (simp_all add: upvalues_def)
        then show ?thesis unfolding spec True by (cases "i = nat a") (auto simp: set_upvalue_def)
      qed
    next
      case False
      then have "upvalues ?t q = upvalues s q" by (intro upvalues_cong) simp_all
      then show ?thesis using False spec by (simp add: set_upvalue_def)
    qed
    ultimately show ?thesis by (intro op_keptI [OF run t]) (use inv(3) c'(4) in simp_all)
  next
    case No_values
    then show ?thesis using old(3) p(3) by (simp add: values_ok_def)
  qed
qed

section \<open>Properties\<close>

lemma every_op_kept:
  assumes "closures_ok s rest" "counts_fit s rest" "op_ok p s"
  shows "op_kept p s rest"
  using assms
  by (cases p) (blast intro: make_function_kept destroy_function_kept call_function_kept return_function_kept
      get_upvalue_kept set_upvalue_kept)+

text \<open>
  C23: the variables of enclosing functions are kept alive exactly as long as needed: every operation on them - a function
  value is made or destroyed, a function is called or returns, an upvalue is read or written - returns without a failed
  assertion and without touching freed locals, and keeps the counts of the locals equal to the number of running
  functions, function values and inner locals that hold them, and the counts of the values on the heap exact.
\<close>

theorem closure_step_ok:
  assumes "closures_ok s rest" "counts_fit s rest" "op_ok p s"
  shows "\<exists>s'. closure_step p s = Some s' \<and> closures_ok s' rest"
  using every_op_kept [OF assms] by (auto simp: op_kept_def)

definition sample_variable :: local_var where
  "sample_variable = \<lparr>var_name = [], var_start_code_pos = 0, var_end_code_pos = 0, var_upvalue = True\<rparr>"

definition sample_function :: "int \<Rightarrow> local_var list \<Rightarrow> function_decl" where
  "sample_function depth vars =
     \<lparr>prog_parent_func_index = 0, fd_locals = vars, fd_stack_size = 2, fd_num_locals = int (length vars), fd_num_params = 0,
      fd_max_up_count = 1, fd_func_depth = depth, fd_func_index = 0, fd_num_local_funcs = 0, fd_try_blocks = [],
      fd_num_try_blocks = 0, fd_opcodes_pos = 0, fd_opcodes_size = 0\<rparr>"

definition sample_start :: closures where
  "sample_start =
     \<lparr>cl_core = initial_core, cl_stack = [VBool True, VNull, VNull], cl_locals = (\<lambda>_. None), cl_frames = [],
      cl_funcs = (\<lambda>_. None)\<rparr>"

lemma sample_start_ok: "closures_ok sample_start []"
proof -
  have "held_values sample_start = {#}" by (simp add: held_values_def sample_start_def)
  moreover have "counts_ok initial_core []" using initial_core_inv by (simp add: counts_ok_def)
  ultimately show ?thesis
    by (simp add: closures_ok_def locals_inv_def frames_ok_def sample_start_def initial_core_def)
qed

theorem closure_step_ok_witness:
  "\<exists>s'. closure_step (Make_function 10 (sample_function 0 [sample_variable])) sample_start = Some s' \<and> closures_ok s' []"
  by (rule closure_step_ok [OF sample_start_ok])
    (simp_all add: counts_fit_def held_values_def decl_ok_def sample_function_def sample_start_def)

text \<open>
  C24: the variables of enclosing functions behave as variables of the enclosing call: a function that returns leaves their
  values unchanged although they move from the stack to the heap, as do calls and function values that come and go; a write
  through \<open>OP_SET_UPVALUE\<close> changes just the variable it names, for every function that shares it, a read just a variable
  of the running function it loads into; and the locals that a function value refers to exist.
\<close>

theorem upvalues_follow_spec:
  assumes "closures_ok s rest" "counts_fit s rest" "op_ok p s" and step: "closure_step p s = Some s'"
  shows "(\<forall>a \<in> dom (cl_locals s) \<inter> dom (cl_locals s'). upvalues s' a = upvalue_spec p s a)
    \<and> (\<forall>f d a. cl_funcs s' f = Some (d, Some a) \<longrightarrow> a \<in> dom (cl_locals s'))"
proof -
  have kept: "closures_ok s' rest" "\<forall>a \<in> dom (cl_locals s) \<inter> dom (cl_locals s'). upvalues s' a = upvalue_spec p s a"
    using every_op_kept [OF assms(1-3)] step by (auto simp: op_kept_def)
  then have "locals_inv s' [] {}" by (simp add: closures_ok_def)
  note funcs = locals_inv_funcs [OF this]
  have "a \<in> dom (cl_locals s')" if "cl_funcs s' f = Some (d, Some a)" for f d a
    using funcs [OF that] by (auto simp: func_ok_def)
  then show ?thesis using kept(2) by blast
qed

text \<open>The function 10 runs, with the locals 20, and has made the function value 11.\<close>

definition sample_running :: closures where
  "sample_running =
     \<lparr>cl_core = initial_core, cl_stack = [VBool True, VNull, VNull],
      cl_locals = [20 \<mapsto> \<lparr>lc_ref_count = 2, lc_func_decl = sample_function 0 [sample_variable], lc_values = On_stack 0,
        lc_is_stack_locals = True, lc_parents = []\<rparr>],
      cl_frames = [20],
      cl_funcs = [10 \<mapsto> (sample_function 0 [sample_variable], None), 11 \<mapsto> (sample_function 1 [], Some 20)]\<rparr>"

lemma sample_running_ok: "closures_ok sample_running []"
proof -
  have "held_values sample_running = {#}" by (simp add: held_values_def sample_running_def heap_values_def)
  moreover have "counts_ok initial_core []" using initial_core_inv by (simp add: counts_ok_def)
  moreover have "locals_inv sample_running [] {}"
  proof (rule locals_invI)
    have c: "captors sample_running 20 = {11}" by (auto simp: captors_def sample_running_def split: if_splits)
    have k: "children sample_running {} 20 = {}" by (auto simp: children_def sample_running_def split: if_splits)
    show "local_ok sample_running [] {} a l" if "cl_locals sample_running a = Some l" for a l
      using that c k by (auto simp: sample_running_def local_ok_def decl_ok_def values_ok_def parents_ok_def
          sample_function_def split: if_splits)
    show "func_ok sample_running fc" if "cl_funcs sample_running f = Some fc" for f fc
      using that by (auto simp: sample_running_def func_ok_def decl_ok_def sample_function_def split: if_splits)
  qed (simp_all add: sample_running_def)
  ultimately show ?thesis
    by (simp add: closures_ok_def frames_ok_def sample_running_def initial_core_def)
qed

theorem upvalues_follow_spec_witness:
  "\<exists>s'. closure_step Return_function sample_running = Some s' \<and> cl_frames s' = [] \<and> upvalues s' 20 0 = Some (VBool True)"
proof -
  have fit: "counts_fit sample_running []"
    by (simp add: counts_fit_def held_values_def heap_values_def frame_size_def sample_running_def sample_function_def)
  have op: "op_ok Return_function sample_running" by (simp add: sample_running_def)
  obtain s' where s': "closure_step Return_function sample_running = Some s'"
      "cl_frames s' = []" "cl_funcs s' = cl_funcs sample_running" "20 \<in> dom (cl_locals s')"
    by (auto simp: leave_locals_def drop_locals_ref_def sample_running_def sample_function_def sample_variable_def
        os_assert_def is_upvalue_def locals_get_def retainValue_def)
  have "upvalues s' 20 = upvalue_spec Return_function sample_running 20"
    using upvalues_follow_spec [OF sample_running_ok fit op s'(1)] s'(4) by (simp add: sample_running_def)
  moreover have "upvalues sample_running 20 0 = Some (VBool True)" by code_simp
  ultimately show ?thesis using s' by auto
qed

end
