(* ===== verification/Expressions.thy ===== *)
theory Expressions
  imports Program
begin

text \<open>
  The expression tree of \<open>OS::Core::Compiler\<close> as the code generator reads it: the types of expressions,
  \<open>Expression\<close> and \<open>Scope\<close>.  A \<open>Scope\<close> is an expression of its own, whose further fields the generator
  changes while parents and children point at it, so an expression holds the address of its scope
  and the state of the compiler maps addresses to scopes.
\<close>

section \<open>Types of expressions\<close>

text \<open>
  The types for which \<open>writeOpcodes\<close> has a case, in the order of its cases.  The other members of the enumeration
  stand for source constructs which the passes before the code generator replace by these; its \<open>default\<close>
  is a failed assertion.
\<close>

datatype (plugins only:) ExpressionType =
    EXP_TYPE_NOP | EXP_TYPE_NEW_LOCAL_VAR | EXP_TYPE_VALUE
  | EXP_TYPE_CODE_LIST | EXP_TYPE_PARAMS | EXP_TYPE_POP_VALUE
  | EXP_TYPE_FUNCTION | EXP_TYPE_SCOPE | EXP_TYPE_LOOP_SCOPE
  | EXP_TYPE_FOR_LOOP_SCOPE | EXP_TYPE_IF | EXP_TYPE_QUESTION
  | EXP_TYPE_LOGIC_PTR_EQ | EXP_TYPE_LOGIC_PTR_NE | EXP_TYPE_LOGIC_EQ
  | EXP_TYPE_LOGIC_NE | EXP_TYPE_LOGIC_LE | EXP_TYPE_LOGIC_GREATER
  | EXP_TYPE_LOGIC_GE | EXP_TYPE_LOGIC_LESS | EXP_TYPE_TRY_CATCH
  | EXP_TYPE_THROW | EXP_TYPE_LOGIC_AND | EXP_TYPE_LOGIC_OR
  | EXP_TYPE_ARRAY | EXP_TYPE_OBJECT | EXP_TYPE_GET_ARGUMENTS
  | EXP_TYPE_GET_REST_ARGUMENTS | EXP_TYPE_SUPER | EXP_TYPE_DEBUGGER
  | EXP_TYPE_LOGIC_BOOL | EXP_TYPE_LOGIC_NOT | EXP_TYPE_SUPER_CALL
  | EXP_TYPE_CALL | EXP_TYPE_CALL_AUTO_PARAM | EXP_TYPE_CALL_METHOD
  | EXP_TYPE_INIT_ITER | EXP_TYPE_TAIL_CALL | EXP_TYPE_TAIL_CALL_METHOD
  | EXP_TYPE_GET_PROPERTY | EXP_TYPE_SET_PROPERTY | EXP_TYPE_SET_PROPERTY_NO_POP
  | EXP_TYPE_INIT_PROPERTY | EXP_TYPE_GET_UPVALUE | EXP_TYPE_SET_UPVALUE
  | EXP_TYPE_SET_UPVALUE_NO_POP | EXP_TYPE_MOVE | EXP_TYPE_RETURN
  | EXP_TYPE_BIT_NOT | EXP_TYPE_PLUS | EXP_TYPE_MINUS
  | EXP_TYPE_BIT_AND | EXP_TYPE_BIT_OR | EXP_TYPE_BIT_XOR
  | EXP_TYPE_COMPARE | EXP_TYPE_ADD
  | EXP_TYPE_SUB | EXP_TYPE_MUL | EXP_TYPE_DIV
  | EXP_TYPE_MOD | EXP_TYPE_LSHIFT | EXP_TYPE_RSHIFT
  | EXP_TYPE_POW | EXP_TYPE_GET_XCONST | EXP_TYPE_BREAK
  | EXP_TYPE_CONTINUE | EXP_TYPE_SWITCH_SCOPE | EXP_TYPE_CASE
  | EXP_TYPE_CASE_DEFAULT | EXP_TYPE_CASE_JUMP

instantiation ExpressionType :: equal
begin

definition "HOL.equal (t :: ExpressionType) u \<longleftrightarrow> t = u"

instance by standard (simp add: equal_ExpressionType_def)

end

datatype ECompiledValueType = CVT_UNKNOWN | CVT_NUMBER | CVT_DYNAMIC

datatype ELocalVarScopeType = LOCAL_GENERIC | LOCAL_PARAM | LOCAL_TEMP

record LocalVarDesc =
  lvd_up_count :: nat
  lvd_index :: nat
  lvd_scope_type :: ELocalVarScopeType
  lvd_type :: ECompiledValueType

record exp_tok =
  et_addr :: addr
  et_line :: int
  et_pos :: int

record exp_slots =
  slot_a :: int
  slot_b :: int
  slot_c :: int

datatype expression =
  Expression (exp_type: ExpressionType) (exp_token: exp_tok) (exp_list: "expression list")
    (exp_local_var: LocalVarDesc) (exp_ret_values: nat) (exp_slots: exp_slots) (exp_scope: "addr option")

section \<open>Opcodes of expressions\<close>

definition get_num :: "ECompiledValueType \<Rightarrow> OpcodeType \<Rightarrow> OpcodeType \<Rightarrow> OpcodeType" where
  "get_num vt num_type typ = (if vt = CVT_NUMBER then num_type else typ)"

text \<open>\<open>Program::getOpcodeType\<close>; the two tail calls are compiled in only with \<open>OS_TAIL_CALL_ENABLED\<close>.\<close>

definition getOpcodeType :: "ExpressionType \<Rightarrow> ECompiledValueType \<Rightarrow> OpcodeType option" where
  "getOpcodeType t vt =
     (case t of
        EXP_TYPE_CALL \<Rightarrow> Some OP_CALL
      | EXP_TYPE_CALL_AUTO_PARAM \<Rightarrow> Some OP_CALL
      | EXP_TYPE_CALL_METHOD \<Rightarrow> Some OP_CALL_METHOD
      | EXP_TYPE_SUPER_CALL \<Rightarrow> Some OP_SUPER_CALL
      | EXP_TYPE_INIT_ITER \<Rightarrow> Some OP_INIT_ITER
      | EXP_TYPE_GET_PROPERTY \<Rightarrow> Some OP_GET_PROPERTY
      | EXP_TYPE_SET_PROPERTY \<Rightarrow> Some OP_SET_PROPERTY
      | EXP_TYPE_INIT_PROPERTY \<Rightarrow> Some OP_INIT_PROPERTY
      | EXP_TYPE_SET_PROPERTY_NO_POP \<Rightarrow> Some OP_SET_PROPERTY
      | EXP_TYPE_GET_UPVALUE \<Rightarrow> Some OP_GET_UPVALUE
      | EXP_TYPE_SET_UPVALUE \<Rightarrow> Some OP_SET_UPVALUE
      | EXP_TYPE_SET_UPVALUE_NO_POP \<Rightarrow> Some OP_SET_UPVALUE
      | EXP_TYPE_MOVE \<Rightarrow> Some OP_MOVE
      | EXP_TYPE_RETURN \<Rightarrow> Some OP_RETURN
      | EXP_TYPE_BIT_NOT \<Rightarrow> Some OP_BIT_NOT
      | EXP_TYPE_PLUS \<Rightarrow> Some OP_PLUS
      | EXP_TYPE_MINUS \<Rightarrow> Some OP_MINUS
      | EXP_TYPE_BIT_AND \<Rightarrow> Some (get_num vt OP_NUMBER_BIT_AND OP_BIT_AND)
      | EXP_TYPE_BIT_OR \<Rightarrow> Some (get_num vt OP_NUMBER_BIT_OR OP_BIT_OR)
      | EXP_TYPE_BIT_XOR \<Rightarrow> Some (get_num vt OP_NUMBER_BIT_XOR OP_BIT_XOR)
      | EXP_TYPE_COMPARE \<Rightarrow> Some (get_num vt OP_NUMBER_SUB OP_COMPARE)
      | EXP_TYPE_ADD \<Rightarrow> Some (get_num vt OP_NUMBER_ADD OP_ADD)
      | EXP_TYPE_SUB \<Rightarrow> Some (get_num vt OP_NUMBER_SUB OP_SUB)
      | EXP_TYPE_MUL \<Rightarrow> Some (get_num vt OP_NUMBER_MUL OP_MUL)
      | EXP_TYPE_DIV \<Rightarrow> Some (get_num vt OP_NUMBER_DIV OP_DIV)
      | EXP_TYPE_MOD \<Rightarrow> Some (get_num vt OP_NUMBER_MOD OP_MOD)
      | EXP_TYPE_LSHIFT \<Rightarrow> Some (get_num vt OP_NUMBER_LSHIFT OP_LSHIFT)
      | EXP_TYPE_RSHIFT \<Rightarrow> Some (get_num vt OP_NUMBER_RSHIFT OP_RSHIFT)
      | EXP_TYPE_POW \<Rightarrow> Some (get_num vt OP_NUMBER_POW OP_POW)
      | _ \<Rightarrow> None)"

text \<open>The opcode of an expression, with the variants of addition and subtraction by kind of operand.\<close>

definition operand_opcode :: "OpcodeType \<Rightarrow> int \<Rightarrow> int \<Rightarrow> OpcodeType" where
  "operand_opcode opcode b c =
     (if opcode = OP_NUMBER_ADD
      then if b \<ge> 0 \<and> c < 0 then OP_NUMBER_ADD_LC else if b \<ge> 0 \<and> c \<ge> 0 then OP_NUMBER_ADD_LL else opcode
      else if opcode = OP_NUMBER_SUB
      then if b \<ge> 0 \<and> c < 0 then OP_NUMBER_SUB_LC else if b \<ge> 0 \<and> c \<ge> 0 then OP_NUMBER_SUB_LL else opcode
      else opcode)"

section \<open>The cases of the code generator\<close>

text \<open>
  The groups of case labels of \<open>Compiler::writeOpcodes(Scope*, Expression*)\<close> that share a body, in the order
  of the source.
\<close>

datatype exp_kind =
    KList | KFunction | KScope | KLoop | KForLoop | KIf | KTry | KThrow | KLogic | KContainer
  | KArguments | KSuper | KDebugger | KBool | KCompare | KOperator | KXconst | KBreak | KSwitch
  | KCase | KCaseJump

definition exp_kind :: "ExpressionType \<Rightarrow> exp_kind" where
  "exp_kind t =
     (case t of
        EXP_TYPE_NOP \<Rightarrow> KList | EXP_TYPE_NEW_LOCAL_VAR \<Rightarrow> KList | EXP_TYPE_VALUE \<Rightarrow> KList
      | EXP_TYPE_CODE_LIST \<Rightarrow> KList | EXP_TYPE_PARAMS \<Rightarrow> KList | EXP_TYPE_POP_VALUE \<Rightarrow> KList
      | EXP_TYPE_FUNCTION \<Rightarrow> KFunction
      | EXP_TYPE_SCOPE \<Rightarrow> KScope | EXP_TYPE_LOOP_SCOPE \<Rightarrow> KLoop | EXP_TYPE_FOR_LOOP_SCOPE \<Rightarrow> KForLoop
      | EXP_TYPE_IF \<Rightarrow> KIf | EXP_TYPE_QUESTION \<Rightarrow> KIf
      | EXP_TYPE_TRY_CATCH \<Rightarrow> KTry
      | EXP_TYPE_THROW \<Rightarrow> KThrow
      | EXP_TYPE_LOGIC_AND \<Rightarrow> KLogic | EXP_TYPE_LOGIC_OR \<Rightarrow> KLogic
      | EXP_TYPE_ARRAY \<Rightarrow> KContainer | EXP_TYPE_OBJECT \<Rightarrow> KContainer
      | EXP_TYPE_GET_ARGUMENTS \<Rightarrow> KArguments | EXP_TYPE_GET_REST_ARGUMENTS \<Rightarrow> KArguments
      | EXP_TYPE_SUPER \<Rightarrow> KSuper
      | EXP_TYPE_DEBUGGER \<Rightarrow> KDebugger
      | EXP_TYPE_LOGIC_BOOL \<Rightarrow> KBool | EXP_TYPE_LOGIC_NOT \<Rightarrow> KBool
      | EXP_TYPE_LOGIC_PTR_EQ \<Rightarrow> KCompare | EXP_TYPE_LOGIC_PTR_NE \<Rightarrow> KCompare
      | EXP_TYPE_LOGIC_EQ \<Rightarrow> KCompare | EXP_TYPE_LOGIC_NE \<Rightarrow> KCompare
      | EXP_TYPE_LOGIC_LE \<Rightarrow> KCompare | EXP_TYPE_LOGIC_GREATER \<Rightarrow> KCompare
      | EXP_TYPE_LOGIC_GE \<Rightarrow> KCompare | EXP_TYPE_LOGIC_LESS \<Rightarrow> KCompare
      | EXP_TYPE_SUPER_CALL \<Rightarrow> KOperator | EXP_TYPE_CALL \<Rightarrow> KOperator | EXP_TYPE_CALL_AUTO_PARAM \<Rightarrow> KOperator
      | EXP_TYPE_CALL_METHOD \<Rightarrow> KOperator | EXP_TYPE_INIT_ITER \<Rightarrow> KOperator
      | EXP_TYPE_TAIL_CALL \<Rightarrow> KOperator | EXP_TYPE_TAIL_CALL_METHOD \<Rightarrow> KOperator
      | EXP_TYPE_GET_PROPERTY \<Rightarrow> KOperator | EXP_TYPE_SET_PROPERTY \<Rightarrow> KOperator
      | EXP_TYPE_SET_PROPERTY_NO_POP \<Rightarrow> KOperator | EXP_TYPE_INIT_PROPERTY \<Rightarrow> KOperator
      | EXP_TYPE_GET_UPVALUE \<Rightarrow> KOperator | EXP_TYPE_SET_UPVALUE \<Rightarrow> KOperator
      | EXP_TYPE_SET_UPVALUE_NO_POP \<Rightarrow> KOperator
      | EXP_TYPE_MOVE \<Rightarrow> KOperator | EXP_TYPE_RETURN \<Rightarrow> KOperator
      | EXP_TYPE_BIT_NOT \<Rightarrow> KOperator | EXP_TYPE_PLUS \<Rightarrow> KOperator | EXP_TYPE_MINUS \<Rightarrow> KOperator
      | EXP_TYPE_BIT_AND \<Rightarrow> KOperator | EXP_TYPE_BIT_OR \<Rightarrow> KOperator | EXP_TYPE_BIT_XOR \<Rightarrow> KOperator
      | EXP_TYPE_COMPARE \<Rightarrow> KOperator | EXP_TYPE_ADD \<Rightarrow> KOperator | EXP_TYPE_SUB \<Rightarrow> KOperator
      | EXP_TYPE_MUL \<Rightarrow> KOperator | EXP_TYPE_DIV \<Rightarrow> KOperator | EXP_TYPE_MOD \<Rightarrow> KOperator
      | EXP_TYPE_LSHIFT \<Rightarrow> KOperator | EXP_TYPE_RSHIFT \<Rightarrow> KOperator | EXP_TYPE_POW \<Rightarrow> KOperator
      | EXP_TYPE_GET_XCONST \<Rightarrow> KXconst
      | EXP_TYPE_BREAK \<Rightarrow> KBreak | EXP_TYPE_CONTINUE \<Rightarrow> KBreak
      | EXP_TYPE_SWITCH_SCOPE \<Rightarrow> KSwitch
      | EXP_TYPE_CASE \<Rightarrow> KCase | EXP_TYPE_CASE_DEFAULT \<Rightarrow> KCase
      | EXP_TYPE_CASE_JUMP \<Rightarrow> KCaseJump)"

end
