(* ===== verification/CodeWriter.thy ===== *)
theory CodeWriter
  imports Expressions Codegen Tokens
begin

text \<open>
  The code generator \<open>Compiler::writeOpcodes(Scope*, Expression*)\<close> with everything it calls: the instruction
  writers and their range checks, debug information, the names of locals, breaks and continues of loops,
  case labels of \<open>switch\<close>, try blocks and function bodies.

  A result \<open>None\<close> is a failed \<open>OS_ASSERT\<close> or an access through a null pointer; \<open>Some (False, s)\<close> is the
  return value \<open>false\<close>, after an error has been set.
\<close>

section \<open>State\<close>

record scope_local =
  sl_name :: bytes
  sl_index :: nat
  sl_upvalue :: bool

text \<open>
  A case label of a \<open>switch\<close>: \<open>key\<close> is the address of its token, which identifies it, and only the label of
  \<open>default\<close> has no expression.
\<close>

record SwitchCaseLabel =
  cl_key :: addr
  cl_has_exp :: bool
  cl_to_pos :: nat
  cl_from_pos :: nat

text \<open>
  The fields of \<open>Scope\<close> besides those of its expression; \<open>sc_func\<close> are those that only a function scope uses
  and that \<open>saveToStream\<close> writes.
\<close>

record comp_scope =
  sc_type :: ExpressionType
  sc_parent :: "addr option"
  sc_function :: addr
  sc_prog_func_index :: int
  sc_locals :: "scope_local list"
  sc_loop_breaks :: "LoopBreak list"
  sc_case_labels :: "SwitchCaseLabel list"
  sc_func :: func_scope

datatype ErrorType =
    ERROR_NOTHING | ERROR_SYNTAX | ERROR_NESTED_ROOT_BLOCK | ERROR_LOCAL_VAL_NOT_DECLARED
  | ERROR_VAR_NAME | ERROR_EXPECT_TOKEN_TYPE | ERROR_EXPECT_TOKEN_STR | ERROR_EXPECT_TOKEN
  | ERROR_EXPECT_VALUE | ERROR_EXPECT_WRITEABLE | ERROR_EXPECT_GET_OR_SET | ERROR_EXPECT_EXPRESSION
  | ERROR_EXPECT_FUNCTION_SCOPE | ERROR_EXPECT_CODE_SEP_BEFORE_NESTED_BLOCK
  | ERROR_EXPECT_SWITCH_SCOPE | ERROR_EXPECT_LOOP_SCOPE | ERROR_FINISH_BINARY_OP | ERROR_FINISH_UNARY_OP

text \<open>
  The compiler: the output of \<open>Program\<close>, the position of the peephole, the scopes by address.  \<open>raw_local\<close> is
  what raw memory holds when \<open>locals_compiled\<close> is made longer without constructing its elements.
\<close>

record compiler = compiled +
  prog_optimize_offs :: nat
  create_debug_info :: bool
  scopes :: "addr \<Rightarrow> comp_scope"
  raw_local :: local_var_compiled
  comp_error :: ErrorType
  comp_error_token :: "exp_tok option"
  comp_expect_token_type :: TokenType

type_synonym cresult = "(bool \<times> compiler) option"

abbreviation set_scope :: "addr \<Rightarrow> (comp_scope \<Rightarrow> comp_scope) \<Rightarrow> compiler \<Rightarrow> compiler" where
  "set_scope a f s \<equiv> s\<lparr>scopes := (scopes s)(a := f (scopes s a))\<rparr>"

abbreviation set_func :: "addr \<Rightarrow> (func_scope \<Rightarrow> func_scope) \<Rightarrow> compiler \<Rightarrow> compiler" where
  "set_func a f s \<equiv> set_scope a (\<lambda>sc. sc\<lparr>sc_func := f (sc_func sc)\<rparr>) s"

definition setError :: "ErrorType \<Rightarrow> exp_tok option \<Rightarrow> compiler \<Rightarrow> compiler" where
  "setError err tok s =
     (if comp_error s \<noteq> ERROR_NOTHING then s else s\<lparr>comp_error := err, comp_error_token := tok, comp_expect_token_type := NOTHING\<rparr>)"

section \<open>Writing instructions\<close>

definition getOpcodePos :: "compiler \<Rightarrow> nat" where
  "getOpcodePos s = length (prog_opcodes s)"

definition put_opcode :: "u32 \<Rightarrow> compiler \<Rightarrow> compiler" where
  "put_opcode opcode s = s\<lparr>prog_opcodes := fst (writeOpcode (prog_opcodes s) opcode)\<rparr>"

definition put_type :: "OpcodeType \<Rightarrow> compiler \<Rightarrow> compiler" where
  "put_type opcode s = s\<lparr>prog_opcodes := fst (writeOpcodeType (prog_opcodes s) opcode)\<rparr>"

text \<open>The assertions of \<open>writeOpcodeABC\<close> on its operands.\<close>

definition fits_ABC :: "int \<Rightarrow> int \<Rightarrow> int \<Rightarrow> bool" where
  "fits_ABC a b c \<longleftrightarrow> 0 \<le> a \<and> a \<le> OS_MAXARG_A
     \<and> (if b < 0 then -1 - b else b) \<le> OS_MAXARG_B \<and> (if c < 0 then -1 - c else c) \<le> OS_MAXARG_C"

definition word_ABC :: "OpcodeType \<Rightarrow> int \<Rightarrow> int \<Rightarrow> int \<Rightarrow> u32 option" where
  "word_ABC opcode a b c = os_assert (fits_ABC a b c) (Some (instr_ABC opcode a b c))"

definition put_ABC :: "OpcodeType \<Rightarrow> int \<Rightarrow> int \<Rightarrow> int \<Rightarrow> compiler \<Rightarrow> compiler option" where
  "put_ABC opcode a b c s = map_option (\<lambda>w. put_opcode w s) (word_ABC opcode a b c)"

definition word_ABx :: "OpcodeType \<Rightarrow> int \<Rightarrow> int \<Rightarrow> u32 option" where
  "word_ABx opcode a b =
     os_assert (0 \<le> a \<and> a \<le> OS_MAXARG_A) (os_assert (0 \<le> b \<and> b \<le> OS_MAXARG_Bx)
       (Some (OS_OPCODE_ABx (of_nat (opcode_index opcode)) a b)))"

definition put_jump :: "int \<Rightarrow> compiler \<Rightarrow> compiler" where
  "put_jump offs s = s\<lparr>prog_opcodes := writeJumpOpcode (prog_opcodes s) offs\<rparr>"

definition fix_jump :: "int \<Rightarrow> nat \<Rightarrow> compiler \<Rightarrow> compiler option" where
  "fix_jump offs pos s =
     os_assert (pos < length (prog_opcodes s)
       \<and> OS_GET_OPCODE_TYPE (prog_opcodes s ! pos) = of_nat (opcode_index OP_JUMP))
       (Some (s\<lparr>prog_opcodes := fixJumpOpcode (prog_opcodes s) offs pos\<rparr>))"

text \<open>\<open>prog_strings_table\<close> maps every element of \<open>prog_strings\<close> to its index.\<close>

definition cacheString :: "bytes \<Rightarrow> compiler \<Rightarrow> int \<times> compiler" where
  "cacheString str s =
     (if str \<in> set (prog_strings s)
      then (int (length (takeWhile (\<lambda>t. t \<noteq> str) (prog_strings s))), s)
      else (int (length (prog_strings s)), s\<lparr>prog_strings := prog_strings s @ [str]\<rparr>))"

definition writeDebugInfo :: "expression \<Rightarrow> compiler \<Rightarrow> compiler option" where
  "writeDebugInfo e s =
     (if create_debug_info s
      then
        let opcode_pos = getOpcodePos s;
            infos = prog_debug_info s
              @ replicate (opcode_pos - length (prog_debug_info s)) \<lparr>di_line = 0, di_pos = 0\<rparr>;
            item = \<lparr>di_line = et_line (exp_token e) + 1, di_pos = et_pos (exp_token e) + 1\<rparr>
        in os_assert (opcode_pos = length infos \<or> opcode_pos + 1 = length infos)
             (Some (s\<lparr>prog_debug_info :=
                if opcode_pos + 1 = length infos then butlast infos @ [item] else infos @ [item]\<rparr>))
      else Some s)"

text \<open>The test for two moves in a row, after an element of a list has been written.\<close>

definition fuse_moves :: "compiler \<Rightarrow> compiler" where
  "fuse_moves s =
     (let (prog, offs) = fuse_last_moves (prog_opcodes s) (prog_optimize_offs s)
      in s\<lparr>prog_opcodes := prog, prog_optimize_offs := offs\<rparr>)"

definition optimize_from_here :: "compiler \<Rightarrow> compiler" where
  "optimize_from_here s = s\<lparr>prog_optimize_offs := getOpcodePos s\<rparr>"

definition OP_MULTI_GET_ARGUMENTS :: int where "OP_MULTI_GET_ARGUMENTS = 0"
definition OP_MULTI_GET_REST_ARGUMENTS :: int where "OP_MULTI_GET_REST_ARGUMENTS = 1"
definition OP_MULTI_SUPER :: int where "OP_MULTI_SUPER = 2"
definition OP_MULTI_DEBUGGER :: int where "OP_MULTI_DEBUGGER = 3"
definition OP_MULTI_THROW :: int where "OP_MULTI_THROW = 4"

section \<open>Scopes\<close>

text \<open>The loop of \<open>addLoopBreak\<close> over the enclosing scopes, with the scope where it stops, if there is one.\<close>

partial_function (option) find_break_scope ::
  "ELoopBreakType \<Rightarrow> (addr \<Rightarrow> comp_scope) \<Rightarrow> addr option \<Rightarrow> addr option option" where
  "find_break_scope t scs p =
     (case p of None \<Rightarrow> Some None
      | Some a \<Rightarrow>
          if sc_type (scs a) = EXP_TYPE_LOOP_SCOPE \<or> sc_type (scs a) = EXP_TYPE_FOR_LOOP_SCOPE then Some (Some a)
          else if sc_type (scs a) = EXP_TYPE_SWITCH_SCOPE
          then if t = LOOP_CONTINUE then find_break_scope t scs (sc_parent (scs a)) else Some (Some a)
          else if sc_type (scs a) \<noteq> EXP_TYPE_SCOPE then Some None
          else find_break_scope t scs (sc_parent (scs a)))"

declare find_break_scope.simps [code]

definition addLoopBreak :: "addr \<Rightarrow> nat \<Rightarrow> ELoopBreakType \<Rightarrow> compiler \<Rightarrow> cresult" where
  "addLoopBreak scope pos t s =
     Option.bind (find_break_scope t (scopes s) (Some scope)) (\<lambda>found.
       Some (case found of None \<Rightarrow> (False, s)
             | Some a \<Rightarrow> (True, set_scope a (\<lambda>sc. sc\<lparr>sc_loop_breaks := sc_loop_breaks sc
                 @ [\<lparr>lb_pos = pos, lb_type = t\<rparr>]\<rparr>) s)))"

fun fix_breaks :: "LoopBreak list \<Rightarrow> nat \<Rightarrow> nat \<Rightarrow> compiler \<Rightarrow> compiler option" where
  "fix_breaks [] scope_start_pos scope_end_pos s = Some s"
| "fix_breaks (b # bs) scope_start_pos scope_end_pos s =
     Option.bind (fix_jump (int (loop_break_target scope_start_pos scope_end_pos b) - int (lb_pos b) - 1) (lb_pos b) s)
       (fix_breaks bs scope_start_pos scope_end_pos)"

definition scope_fixLoopBreaks :: "addr \<Rightarrow> nat \<Rightarrow> nat \<Rightarrow> compiler \<Rightarrow> compiler option" where
  "scope_fixLoopBreaks scope scope_start_pos scope_end_pos s =
     fix_breaks (sc_loop_breaks (scopes s scope)) scope_start_pos scope_end_pos s"

definition getSwitchScope :: "addr \<Rightarrow> compiler \<Rightarrow> addr option" where
  "getSwitchScope scope s =
     (case sc_parent (scopes s scope) of None \<Rightarrow> None
      | Some p \<Rightarrow> if sc_type (scopes s p) = EXP_TYPE_SWITCH_SCOPE then Some p else None)"

text \<open>
  \<open>setCaseLabelPos\<close> and \<open>setCaseLabelJump\<close> on the list of labels: the first label with the key gets the
  position, and its jump is patched when both positions are known.  Their results are never used.
\<close>

definition fix_case_jump :: "SwitchCaseLabel \<Rightarrow> compiler \<Rightarrow> compiler option" where
  "fix_case_jump l s =
     (if cl_to_pos l \<noteq> 0 \<and> cl_from_pos l \<noteq> 0
      then fix_jump (int (cl_to_pos l) - int (cl_from_pos l) - 1) (cl_from_pos l) s else Some s)"

fun set_label :: "addr \<Rightarrow> (SwitchCaseLabel \<Rightarrow> SwitchCaseLabel) \<Rightarrow> SwitchCaseLabel list \<Rightarrow> compiler \<Rightarrow>
    (SwitchCaseLabel list \<times> compiler) option" where
  "set_label key f [] s = Some ([], s)"
| "set_label key f (l # ls) s =
     (if cl_key l = key then Option.bind (fix_case_jump (f l) s) (\<lambda>s. Some (f l # ls, s))
      else Option.bind (set_label key f ls s) (\<lambda>(ls, s). Some (l # ls, s)))"

definition setCaseLabel :: "addr \<Rightarrow> addr \<Rightarrow> (SwitchCaseLabel \<Rightarrow> SwitchCaseLabel) \<Rightarrow> compiler \<Rightarrow> compiler option" where
  "setCaseLabel scope key f s =
     Option.bind (set_label key f (sc_case_labels (scopes s scope)) s) (\<lambda>(ls, s).
       Some (set_scope scope (\<lambda>sc. sc\<lparr>sc_case_labels := ls\<rparr>) s))"

definition setCaseLabelPos :: "addr \<Rightarrow> addr \<Rightarrow> nat \<Rightarrow> compiler \<Rightarrow> compiler option" where
  "setCaseLabelPos scope key pos = setCaseLabel scope key (\<lambda>l. l\<lparr>cl_to_pos := pos\<rparr>)"

definition setCaseLabelJump :: "addr \<Rightarrow> addr \<Rightarrow> nat \<Rightarrow> compiler \<Rightarrow> compiler option" where
  "setCaseLabelJump scope key pos = setCaseLabel scope key (\<lambda>l. l\<lparr>cl_from_pos := pos\<rparr>)"

text \<open>The label of \<open>default\<close> that no statement has placed: it jumps to the end of the \<open>switch\<close>.\<close>

fun end_default_labels :: "addr \<Rightarrow> SwitchCaseLabel list \<Rightarrow> compiler \<Rightarrow> compiler option" where
  "end_default_labels scope [] s = Some s"
| "end_default_labels scope (l # ls) s =
     Option.bind (if \<not> cl_has_exp l \<and> cl_to_pos l = 0 then setCaseLabelPos scope (cl_key l) (getOpcodePos s) s
                  else Some s)
       (end_default_labels scope ls)"

definition addTryBlock :: "addr \<Rightarrow> nat \<Rightarrow> nat \<Rightarrow> expression \<Rightarrow> compiler \<Rightarrow> compiler option" where
  "addTryBlock function start end_pos catch_block s =
     (let v = exp_local_var catch_block in
      os_assert (lvd_index v > 0) (os_assert (lvd_scope_type v = LOCAL_GENERIC) (os_assert (lvd_up_count v = 0)
        (Some (set_func function (\<lambda>f. f\<lparr>fs_try_blocks := fs_try_blocks f
            @ [\<lparr>tb_start_code_pos = int start, tb_end_code_pos = int end_pos,
                 tb_catch_var_index = int (lvd_index v)\<rparr>]\<rparr>) s)))))"

text \<open>The range of instructions in which the locals of a scope live.\<close>

fun compile_locals :: "addr \<Rightarrow> int \<Rightarrow> scope_local list \<Rightarrow> compiler \<Rightarrow> compiler option" where
  "compile_locals function start_code_pos [] s = Some s"
| "compile_locals function start_code_pos (var # vars) s =
     os_assert (sl_index var < length (fs_locals_compiled (sc_func (scopes s function))))
       (let (name_index, s) = cacheString (sl_name var) s
        in compile_locals function start_code_pos vars
             (set_func function (\<lambda>f. f\<lparr>fs_locals_compiled := (fs_locals_compiled f)[sl_index var :=
                \<lparr>cached_name_index = name_index, lv_start_code_pos = start_code_pos,
                  lv_end_code_pos = int (getOpcodePos s), lv_upvalue = sl_upvalue var\<rparr>]\<rparr>) s))"

definition reserve_locals :: "addr \<Rightarrow> compiler \<Rightarrow> compiler" where
  "reserve_locals scope s =
     set_func scope (\<lambda>f. f\<lparr>fs_locals_compiled := take (nat (fs_num_locals f)) (fs_locals_compiled f)
       @ replicate (nat (fs_num_locals f) - length (fs_locals_compiled f)) (raw_local s)\<rparr>) s"

section \<open>Expressions\<close>

abbreviation slot_A :: "expression \<Rightarrow> int" where "slot_A e \<equiv> slot_a (exp_slots e)"
abbreviation slot_B :: "expression \<Rightarrow> int" where "slot_B e \<equiv> slot_b (exp_slots e)"
abbreviation slot_C :: "expression \<Rightarrow> int" where "slot_C e \<equiv> slot_c (exp_slots e)"

text \<open>Sequencing of calls that return \<open>bool\<close>: the rest is skipped after \<open>false\<close>.\<close>

definition and_then :: "cresult \<Rightarrow> (compiler \<Rightarrow> cresult) \<Rightarrow> cresult" where
  "and_then r f = Option.bind r (\<lambda>(ok, s). if ok then f s else Some (False, s))"

definition return_true :: "compiler option \<Rightarrow> cresult" where
  "return_true r = map_option (\<lambda>s. (True, s)) r"

lemma and_then_cong [fundef_cong]:
  "r = r' \<Longrightarrow> (\<And>s. r' = Some (True, s) \<Longrightarrow> f s = f' s) \<Longrightarrow> and_then r f = and_then r' f'"
  by (cases r') (auto simp: and_then_def)

text \<open>The instruction of a comparison and whether its result is negated, and the comparison of two numbers.\<close>

definition compare_opcode :: "ExpressionType \<Rightarrow> OpcodeType \<times> bool" where
  "compare_opcode t =
     (if t = EXP_TYPE_LOGIC_PTR_EQ then (OP_LOGIC_PTR_EQ, False)
      else if t = EXP_TYPE_LOGIC_PTR_NE then (OP_LOGIC_PTR_EQ, True)
      else if t = EXP_TYPE_LOGIC_EQ then (OP_LOGIC_EQ, False)
      else if t = EXP_TYPE_LOGIC_NE then (OP_LOGIC_EQ, True)
      else if t = EXP_TYPE_LOGIC_GREATER then (OP_LOGIC_GREATER, False)
      else if t = EXP_TYPE_LOGIC_LE then (OP_LOGIC_GREATER, True)
      else if t = EXP_TYPE_LOGIC_GE then (OP_LOGIC_GE, False)
      else (OP_LOGIC_GE, True))"

definition number_compare :: "OpcodeType \<Rightarrow> OpcodeType" where
  "number_compare opcode =
     (if opcode = OP_LOGIC_EQ then OP_NUMBER_LOGIC_EQ
      else if opcode = OP_LOGIC_GREATER then OP_NUMBER_LOGIC_GREATER
      else if opcode = OP_LOGIC_GE then OP_NUMBER_LOGIC_GE else opcode)"

definition is_number_exp :: "expression \<Rightarrow> bool" where
  "is_number_exp e \<longleftrightarrow> lvd_type (exp_local_var e) = CVT_NUMBER"

text \<open>The test of the condition of an \<open>if\<close>.\<close>

definition if_opcode :: "expression \<Rightarrow> OpcodeType \<times> bool" where
  "if_opcode e =
     (if exp_kind (exp_type e) = KCompare
      then let (opcode, inverse) = compare_opcode (exp_type e)
           in (if length (exp_list e) = 2 \<and> is_number_exp (exp_list e ! 0) \<and> is_number_exp (exp_list e ! 1)
               then number_compare opcode else opcode, inverse)
      else (OP_LOGIC_BOOL, exp_type e = EXP_TYPE_LOGIC_NOT))"

definition is_optimized_list :: "ExpressionType \<Rightarrow> bool" where
  "is_optimized_list t \<longleftrightarrow> t = EXP_TYPE_CODE_LIST \<or> t = EXP_TYPE_PARAMS"

text \<open>The instruction of an expression that has one of its own beside those of its operands.\<close>

definition own_word :: "expression \<Rightarrow> u32 option" where
  "own_word e =
     (let t = exp_type e in
      case exp_kind t of
        KThrow \<Rightarrow> word_ABC OP_MULTI (slot_A e) 0 OP_MULTI_THROW
      | KArguments \<Rightarrow> word_ABC OP_MULTI (slot_A e) 0
          (if t = EXP_TYPE_GET_ARGUMENTS then OP_MULTI_GET_ARGUMENTS else OP_MULTI_GET_REST_ARGUMENTS)
      | KSuper \<Rightarrow> word_ABC OP_MULTI (slot_A e) 0 OP_MULTI_SUPER
      | KDebugger \<Rightarrow> word_ABC OP_MULTI 0 0 OP_MULTI_DEBUGGER
      | KBool \<Rightarrow> word_ABC OP_LOGIC_BOOL (slot_A e) (of_bool (t = EXP_TYPE_LOGIC_NOT)) 0
      | KCompare \<Rightarrow> word_ABC (fst (compare_opcode t)) (slot_A e) (of_bool (snd (compare_opcode t))) 0
      | KContainer \<Rightarrow> word_ABC (if t = EXP_TYPE_OBJECT then OP_NEW_OBJECT else OP_NEW_ARRAY)
          (slot_A e) (int (length (exp_list e))) 0
      | KOperator \<Rightarrow>
          Option.bind (getOpcodeType t (lvd_type (exp_local_var e))) (\<lambda>opcode.
            word_ABC (operand_opcode opcode (slot_B e) (slot_C e)) (slot_A e) (slot_B e) (slot_C e))
      | KXconst \<Rightarrow> os_assert (slot_B e < 0) (word_ABx OP_GET_XCONST (slot_A e) (-1 - slot_B e))
      | _ \<Rightarrow> None)"

definition own_instruction :: "expression \<Rightarrow> compiler \<Rightarrow> compiler option" where
  "own_instruction e s = map_option (\<lambda>w. put_opcode w s) (own_word e)"

lemma size_exp_list: "size_list size (exp_list e) < size e"
  by (cases e) simp

lemma size_list_le:
  "size_list size (butlast es) \<le> size_list size es" "size_list size (drop n es) \<le> size_list size es"
  "size_list size (exp_list e) \<le> size e"
proof -
  show "size_list size (butlast es) \<le> size_list size es"
    by (cases es rule: rev_cases) simp_all
  show "size_list size (drop n es) \<le> size_list size es"
    by (metis append_take_drop_id le_add2 size_list_append)
qed (rule less_imp_le [OF size_exp_list])

lemma size_exp_elements:
  assumes "exp_list e = x # xs"
  shows "size x < size e" "size_list size xs < size e" "size_list size (exp_list x) < size e"
  using size_exp_list [of e] size_exp_list [of x] assms by simp_all

lemmas size_exp_rules = size_exp_list size_exp_elements le_less_trans [OF size_list_le(1) size_exp_list]
  le_less_trans [OF size_list_le(2) size_exp_list]

function writeOpcodes :: "addr \<Rightarrow> expression \<Rightarrow> compiler \<Rightarrow> cresult"
  and writeOpcodes_list :: "addr \<Rightarrow> bool \<Rightarrow> expression list \<Rightarrow> compiler \<Rightarrow> cresult" where
  "writeOpcodes scope e s =
     (case exp_kind (exp_type e) of
        KList \<Rightarrow> writeOpcodes_list scope (is_optimized_list (exp_type e)) (exp_list e) (optimize_from_here s)
      | KFunction \<Rightarrow>
          Option.bind (exp_scope e) (\<lambda>scope.
          Option.bind (writeDebugInfo e s) (\<lambda>s.
          os_assert (sc_prog_func_index (scopes s scope) \<ge> 0)
         (Option.bind (put_ABC OP_NEW_FUNCTION (slot_A e) (sc_prog_func_index (scopes s scope)) 0 s) (\<lambda>s.
          let s = reserve_locals scope s;
              opcodes_pos = getOpcodePos s;
              s = set_func scope (\<lambda>f. f\<lparr>fs_opcodes_pos := int opcodes_pos\<rparr>) s in
          and_then (writeOpcodes_list scope True (exp_list e) (optimize_from_here s)) (\<lambda>s.
          return_true (Option.bind (put_ABC OP_RETURN 0 0 1 s) (\<lambda>s.
          let s = set_func scope (\<lambda>f. f\<lparr>fs_opcodes_size := int (getOpcodePos s) - fs_opcodes_pos f\<rparr>) s in
          compile_locals scope (fs_opcodes_pos (sc_func (scopes s scope))) (sc_locals (scopes s scope)) s)))))))
      | KScope \<Rightarrow>
          Option.bind (exp_scope e) (\<lambda>scope.
          let start_code_pos = getOpcodePos s in
          and_then (writeOpcodes_list scope True (exp_list e) (optimize_from_here s)) (\<lambda>s.
          os_assert (sc_loop_breaks (scopes s scope) = [])
         (return_true (compile_locals (sc_function (scopes s scope)) (int start_code_pos) (sc_locals (scopes s scope)) s))))
      | KLoop \<Rightarrow>
          Option.bind (exp_scope e) (\<lambda>scope.
          let start_code_pos = getOpcodePos s in
          and_then (writeOpcodes_list scope True (exp_list e) (optimize_from_here s)) (\<lambda>s.
          let s = put_jump (int start_code_pos - int (getOpcodePos s) - 2) s in
          return_true (Option.bind (scope_fixLoopBreaks scope start_code_pos (getOpcodePos s) s) (\<lambda>s.
          compile_locals (sc_function (scopes s scope)) (int start_code_pos) (sc_locals (scopes s scope)) s))))
      | KForLoop \<Rightarrow>
          Option.bind (exp_scope e) (\<lambda>scope.
          let start_code_pos = getOpcodePos s in
          and_then (writeOpcodes_list scope False (butlast (exp_list e)) s) (\<lambda>s.
          let start_for_post = (if exp_list e = [] then 0 else getOpcodePos s) in
          and_then (writeOpcodes_list scope False (drop (length (exp_list e) - 1) (exp_list e)) s) (\<lambda>s.
          let s = put_jump (int start_code_pos - int (getOpcodePos s) - 2) s in
          return_true (Option.bind
            (scope_fixLoopBreaks scope (if start_for_post \<noteq> 0 then start_for_post else start_code_pos) (getOpcodePos s) s)
            (\<lambda>s. compile_locals (sc_function (scopes s scope)) (int start_code_pos) (sc_locals (scopes s scope)) s)))))
      | KIf \<Rightarrow>
          (case exp_list e of
             e0 # e1 # rest \<Rightarrow>
               os_assert (length rest \<le> 1)
              (os_assert (slot_A e0 \<ge> fs_num_locals (sc_func (scopes s (sc_function (scopes s scope)))))
              (and_then
                (if exp_kind (exp_type e0) = KCompare
                 then writeOpcodes_list scope True (exp_list e0) (optimize_from_here s)
                 else if exp_kind (exp_type e0) = KBool
                 then writeOpcodes_list scope False (exp_list e0) (optimize_from_here s)
                 else writeOpcodes scope e0 s)
                (\<lambda>s. Option.bind (writeDebugInfo e s) (\<lambda>s.
                 Option.bind (put_ABC (fst (if_opcode e0)) (slot_A e0) (of_bool (snd (if_opcode e0))) 1 s) (\<lambda>s.
                 let if_jump_pos = getOpcodePos s; s = put_type OP_JUMP s in
                 and_then (writeOpcodes scope e1 s) (\<lambda>s.
                 let if_jump_to = getOpcodePos s; s = optimize_from_here s in
                 (case rest of
                    [] \<Rightarrow> return_true (fix_jump (int if_jump_to - int if_jump_pos - 1) if_jump_pos s)
                  | e2 # _ \<Rightarrow>
                      let jump_pos = getOpcodePos s; s = put_type OP_JUMP s; if_jump_to = getOpcodePos s in
                      and_then (writeOpcodes scope e2 s) (\<lambda>s.
                      let s = optimize_from_here s in
                      return_true (Option.bind (fix_jump (int (getOpcodePos s) - int jump_pos - 1) jump_pos s)
                        (fix_jump (int if_jump_to - int if_jump_pos - 1) if_jump_pos))))))))))
           | _ \<Rightarrow> None)
      | KTry \<Rightarrow>
          (case exp_list e of
             [e0, e1] \<Rightarrow>
               os_assert (exp_type e1 = EXP_TYPE_SCOPE)
              (let op_try_start = getOpcodePos s in
               and_then (writeOpcodes scope e0 s) (\<lambda>s.
               let op_jump_pos = getOpcodePos s; s = put_type OP_JUMP s in
               and_then (writeOpcodes scope e1 s) (\<lambda>s.
               let op_jump_to = getOpcodePos s in
               return_true (Option.bind (fix_jump (int op_jump_to - int op_jump_pos - 1) op_jump_pos s) (\<lambda>s.
               os_assert (exp_scope e1 \<noteq> None)
                 (addTryBlock (sc_function (scopes s scope)) op_try_start (op_jump_pos + 1) e1 s))))))
           | _ \<Rightarrow> None)
      | KLogic \<Rightarrow>
          (case exp_list e of
             [e0, e1] \<Rightarrow>
               and_then (writeOpcodes scope e0 s) (\<lambda>s.
               Option.bind (writeDebugInfo e s) (\<lambda>s.
               Option.bind (put_ABC OP_LOGIC_BOOL (slot_A e) (of_bool (exp_type e = EXP_TYPE_LOGIC_OR)) 1 s) (\<lambda>s.
               let op_jump_pos = getOpcodePos s; s = put_type OP_JUMP s in
               and_then (writeOpcodes scope e1 s) (\<lambda>s.
               return_true (fix_jump (int (getOpcodePos s) - int op_jump_pos - 1) op_jump_pos s)))))
           | _ \<Rightarrow> None)
      | KContainer \<Rightarrow>
          Option.bind (writeDebugInfo e s) (\<lambda>s.
          Option.bind (own_instruction e s) (\<lambda>s.
          writeOpcodes_list scope False (exp_list e) (optimize_from_here s)))
      | KBreak \<Rightarrow>
          os_assert (exp_list e = [])
         (Option.bind (writeDebugInfo e s) (\<lambda>s.
          let pos = getOpcodePos s; s = put_type OP_JUMP s in
          Option.bind (addLoopBreak scope pos (if exp_type e = EXP_TYPE_BREAK then LOOP_BREAK else LOOP_CONTINUE) s)
            (\<lambda>(ok, s). if ok then Some (True, s)
               else Some (False, setError ERROR_EXPECT_LOOP_SCOPE (Some (exp_token e)) s))))
      | KSwitch \<Rightarrow>
          Option.bind (exp_scope e) (\<lambda>scope.
          let start_code_pos = getOpcodePos s in
          and_then (writeOpcodes_list scope True (exp_list e) (optimize_from_here s)) (\<lambda>s.
          return_true (Option.bind
            (compile_locals (sc_function (scopes s scope)) (int start_code_pos) (sc_locals (scopes s scope)) s) (\<lambda>s.
             Option.bind (end_default_labels scope (sc_case_labels (scopes s scope)) s) (\<lambda>s.
             scope_fixLoopBreaks scope start_code_pos (getOpcodePos s) s)))))
      | KCase \<Rightarrow>
          return_true (case getSwitchScope scope s of None \<Rightarrow> Some s
             | Some p \<Rightarrow> setCaseLabelPos p (et_addr (exp_token e)) (getOpcodePos s) s)
      | KCaseJump \<Rightarrow>
          return_true (if sc_type (scopes s scope) = EXP_TYPE_SWITCH_SCOPE
             then setCaseLabelJump scope (et_addr (exp_token e)) (getOpcodePos s) (put_jump 0 s) else Some s)
      | KOperator \<Rightarrow>
          and_then (writeOpcodes_list scope False (exp_list e) (optimize_from_here s)) (\<lambda>s.
          return_true (Option.bind (writeDebugInfo e s) (own_instruction e)))
      | KXconst \<Rightarrow>
          and_then (writeOpcodes_list scope False (exp_list e) (optimize_from_here s)) (\<lambda>s.
          return_true (Option.bind (writeDebugInfo e s) (own_instruction e)))
      | KThrow \<Rightarrow>
          os_assert (length (exp_list e) = 1)
         (and_then (writeOpcodes_list scope False (exp_list e) (optimize_from_here s)) (\<lambda>s.
          return_true (Option.bind (writeDebugInfo e s) (own_instruction e))))
      | KBool \<Rightarrow>
          os_assert (length (exp_list e) = 1)
         (and_then (writeOpcodes_list scope False (exp_list e) (optimize_from_here s)) (\<lambda>s.
          return_true (Option.bind (writeDebugInfo e s) (own_instruction e))))
      | KCompare \<Rightarrow>
          os_assert (length (exp_list e) = 2)
         (and_then (writeOpcodes_list scope True (exp_list e) (optimize_from_here s)) (\<lambda>s.
          return_true (Option.bind (writeDebugInfo e s) (own_instruction e))))
      | _ \<Rightarrow>
          os_assert (exp_list e = []) (return_true (Option.bind (writeDebugInfo e s) (own_instruction e))))"
| "writeOpcodes_list scope optimization_enabled [] s = Some (True, s)"
| "writeOpcodes_list scope optimization_enabled (e # es) s =
     and_then (writeOpcodes scope e s) (\<lambda>s.
       writeOpcodes_list scope optimization_enabled es (if optimization_enabled then fuse_moves s else s))"
  by pat_completeness auto

termination
proof (relation "measure (\<lambda>x. case x of Inl (scope, e, s) \<Rightarrow> size e | Inr (scope, opt, es, s) \<Rightarrow> size_list size es)")
qed (use size_exp_elements(2) in \<open>auto simp: size_exp_rules dest: size_exp_elements\<close>)

declare writeOpcodes.simps [simp del]

end
