(* ===== verification/CodeFlow.thy ===== *)
theory CodeFlow
  imports CodeWriter
begin

text \<open>
  Running pieces of code.  \<open>exec_instr\<close> is the loop body of \<open>Core::execute\<close> as far as control flow goes: jumps,
  tests that skip a jump, function literals that skip the body of the function, moves between slots.  What
  the other instructions do to the slots and to the rest of the machine is an argument (\<open>interp_ops\<close>), so
  the results hold whatever they do.

  A piece of code is a list of instructions with the positions of the breaks and continues that have not
  been patched yet; \<open>frag_run\<close> runs it from a position to its end, to such a position, or until an
  instruction leaves the function.
\<close>

section \<open>The interpreter\<close>

record ('v, 'w) machine =
  m_locals :: "'v list"
  m_consts :: "'v list"
  m_world :: 'w

datatype ('a, 'm) effect = Next 'a | Leave 'm

text \<open>
  \<open>io_truth\<close> is \<open>valueToBool\<close>, \<open>io_bool\<close> makes a boolean value, \<open>io_compare\<close> is the result of a comparison with
  its negation applied, \<open>io_data\<close> all other instructions, \<open>io_func_size\<close> the field \<open>opcodes_size\<close> of a function of
  the program.  \<open>Leave\<close> is a return or an exception, \<open>None\<close> a failed assertion.
\<close>

record ('v, 'w) interp_ops =
  io_truth :: "'v \<Rightarrow> bool"
  io_bool :: "bool \<Rightarrow> 'v"
  io_compare :: "u32 \<Rightarrow> ('v, 'w) machine \<Rightarrow> (bool \<times> ('v, 'w) machine, ('v, 'w) machine) effect option"
  io_data :: "u32 \<Rightarrow> ('v, 'w) machine \<Rightarrow> (('v, 'w) machine, ('v, 'w) machine) effect option"
  io_func_size :: "nat \<Rightarrow> nat"

definition has_op :: "u32 \<Rightarrow> OpcodeType \<Rightarrow> bool" where
  "has_op w p \<longleftrightarrow> OS_GET_OPCODE_TYPE w = of_nat (opcode_index p)"

definition compare_opcodes :: "OpcodeType list" where
  "compare_opcodes = [OP_LOGIC_PTR_EQ, OP_LOGIC_EQ, OP_NUMBER_LOGIC_EQ, OP_LOGIC_GREATER,
     OP_NUMBER_LOGIC_GREATER, OP_LOGIC_GE, OP_NUMBER_LOGIC_GE]"

definition is_compare :: "u32 \<Rightarrow> bool" where
  "is_compare w \<longleftrightarrow> list_ex (has_op w) compare_opcodes"

definition is_test :: "u32 \<Rightarrow> bool" where
  "is_test w \<longleftrightarrow> has_op w OP_LOGIC_BOOL \<or> is_compare w"

definition instr_test ::
  "('v, 'w) interp_ops \<Rightarrow> u32 \<Rightarrow> ('v, 'w) machine \<Rightarrow> (bool \<times> ('v, 'w) machine, ('v, 'w) machine) effect option" where
  "instr_test ops w m =
     (if is_compare w then io_compare ops w m
      else Option.bind (nth_slot (m_locals m) (OS_GETARG_A w)) (\<lambda>v.
        Some (Next ((of_bool (io_truth ops v) XOR OS_GETARG_B w) \<noteq> 0, m))))"

definition at_pos :: "int \<Rightarrow> 'm \<Rightarrow> (nat \<times> 'm, 'm) effect option" where
  "at_pos j m = os_assert (0 \<le> j) (Some (Next (nat j, m)))"

definition exec_instr ::
  "('v, 'w) interp_ops \<Rightarrow> u32 list \<Rightarrow> nat \<Rightarrow> ('v, 'w) machine \<Rightarrow> (nat \<times> ('v, 'w) machine, ('v, 'w) machine) effect option" where
  "exec_instr ops code i m =
     os_assert (i < length code)
      (let w = code ! i in
       if has_op w OP_JUMP then at_pos (exec_OP_JUMP code i) m
       else if is_test w
       then Option.bind (instr_test ops w m) (\<lambda>r. case r of
           Leave m \<Rightarrow> Some (Leave m)
         | Next (res, m) \<Rightarrow>
             if OS_GETARG_C w = 0
             then Option.bind (set_slot (m_locals m) (OS_GETARG_A w) (io_bool ops res)) (\<lambda>l.
               Some (Next (Suc i, m\<lparr>m_locals := l\<rparr>)))
             else os_assert (Suc i < length code \<and> has_op (code ! Suc i) OP_JUMP)
               (at_pos (exec_cond_jump code (Suc i) res) m))
       else if has_op w OP_MOVE
       then Option.bind (exec_OP_MOVE (m_locals m) (m_consts m) w) (\<lambda>l. Some (Next (Suc i, m\<lparr>m_locals := l\<rparr>)))
       else if has_op w OP_MOVE2
       then Option.bind (exec_OP_MOVE2 (m_locals m) (m_consts m) w) (\<lambda>l. Some (Next (Suc i, m\<lparr>m_locals := l\<rparr>)))
       else Option.bind (io_data ops w m) (\<lambda>r. case r of
           Leave m \<Rightarrow> Some (Leave m)
         | Next m \<Rightarrow> Some (Next (if has_op w OP_NEW_FUNCTION then Suc i + io_func_size ops (OS_GETARG_B w) else Suc i, m))))"

text \<open>A run of the interpreter inside one function, and how it can leave the function.\<close>

inductive vm_run :: "('v, 'w) interp_ops \<Rightarrow> u32 list \<Rightarrow> nat \<Rightarrow> ('v, 'w) machine \<Rightarrow> nat \<Rightarrow> ('v, 'w) machine \<Rightarrow> bool"
  for ops code where
  stay: "vm_run ops code i m i m"
| go: "exec_instr ops code i m = Some (Next (j, m1)) \<Longrightarrow> vm_run ops code j m1 k m2 \<Longrightarrow> vm_run ops code i m k m2"

definition vm_leaves :: "('v, 'w) interp_ops \<Rightarrow> u32 list \<Rightarrow> nat \<Rightarrow> ('v, 'w) machine \<Rightarrow> ('v, 'w) machine \<Rightarrow> bool" where
  "vm_leaves ops code i m m' \<longleftrightarrow>
     (\<exists>j m1. vm_run ops code i m j m1 \<and> exec_instr ops code j m1 = Some (Leave m'))"

section \<open>Pieces of code\<close>

datatype 'm outcome = Done 'm | Broken 'm | Continued 'm | Left 'm

abbreviation break_positions :: "LoopBreak list \<Rightarrow> nat set" where
  "break_positions bs \<equiv> lb_pos ` set bs"

definition is_branch :: "u32 \<Rightarrow> bool" where
  "is_branch w \<longleftrightarrow> is_test w \<and> OS_GETARG_C w \<noteq> 0"

definition settled :: "u32 list \<Rightarrow> LoopBreak list \<Rightarrow> nat \<Rightarrow> bool" where
  "settled code bs i \<longleftrightarrow> i \<notin> break_positions bs \<and> (is_branch (code ! i) \<longrightarrow> Suc i \<notin> break_positions bs)"

inductive frag_run :: "('v, 'w) interp_ops \<Rightarrow> u32 list \<Rightarrow> LoopBreak list \<Rightarrow> nat \<Rightarrow> ('v, 'w) machine \<Rightarrow>
    ('v, 'w) machine outcome \<Rightarrow> bool" for ops code bs where
  finish: "frag_run ops code bs (length code) m (Done m)"
| break_out: "b \<in> set bs \<Longrightarrow> lb_type b = LOOP_BREAK \<Longrightarrow> frag_run ops code bs (lb_pos b) m (Broken m)"
| continue_out: "b \<in> set bs \<Longrightarrow> lb_type b = LOOP_CONTINUE \<Longrightarrow> frag_run ops code bs (lb_pos b) m (Continued m)"
| step: "settled code bs i \<Longrightarrow> exec_instr ops code i m = Some (Next (j, m1)) \<Longrightarrow>
    frag_run ops code bs j m1 out \<Longrightarrow> frag_run ops code bs i m out"
| leave: "i \<notin> break_positions bs \<Longrightarrow> exec_instr ops code i m = Some (Leave m1) \<Longrightarrow> frag_run ops code bs i m (Left m1)"

text \<open>\<open>code\<close> lies in \<open>prog\<close> from \<open>k\<close> on, with its open positions in any state.\<close>

definition embedded :: "u32 list \<Rightarrow> LoopBreak list \<Rightarrow> nat \<Rightarrow> u32 list \<Rightarrow> LoopBreak list \<Rightarrow> bool" where
  "embedded code bs k prog cs \<longleftrightarrow> k + length code \<le> length prog
     \<and> (\<forall>i < length code. i \<notin> break_positions bs \<longrightarrow> prog ! (k + i) = code ! i \<and> k + i \<notin> break_positions cs)"

fun shift_effect :: "nat \<Rightarrow> (nat \<times> 'm, 'm) effect \<Rightarrow> (nat \<times> 'm, 'm) effect" where
  "shift_effect k (Next (j, m)) = Next (k + j, m)"
| "shift_effect k (Leave m) = Leave m"

lemma exec_jump_shift:
  assumes "prog ! (k + i) = code ! i"
  shows "exec_OP_JUMP prog (k + i) = int k + exec_OP_JUMP code i"
    "exec_cond_jump prog (k + i) res = int k + exec_cond_jump code i res"
  using assms by (simp_all add: exec_OP_JUMP_def exec_cond_jump_def)

lemma at_pos_shift: "at_pos j m = Some r \<Longrightarrow> at_pos (int k + j) m = Some (shift_effect k r)"
  by (auto simp: at_pos_def os_assert_def nat_add_distrib split: if_splits)

lemma exec_instr_length: "exec_instr ops code i m = Some r \<Longrightarrow> i < length code"
  by (simp add: exec_instr_def os_assert_def split: if_splits)

lemma exec_instr_branch:
  assumes "exec_instr ops code i m = Some (Next (j, m1))" "is_branch (code ! i)"
  shows "Suc i < length code \<and> has_op (code ! Suc i) OP_JUMP"
proof -
  have "\<not> has_op (code ! i) OP_JUMP" using assms(2)
    by (auto simp: is_branch_def is_test_def is_compare_def compare_opcodes_def has_op_def)
  with assms show ?thesis
    by (auto simp: exec_instr_def os_assert_def is_branch_def Let_def split: if_splits bind_splits effect.splits)
qed

lemma exec_instr_embed:
  assumes e: "exec_instr ops code i m = Some r" and s: "settled code bs i" and emb: "embedded code bs k prog cs"
  shows "exec_instr ops prog (k + i) m = Some (shift_effect k r)"
proof -
  note i = exec_instr_length [OF e]
  with s emb have w: "prog ! (k + i) = code ! i" "k + i < length prog"
    by (auto simp: settled_def embedded_def)
  have next_w: "prog ! (k + Suc i) = code ! Suc i" "k + Suc i < length prog"
    if "is_test (code ! i)" "OS_GETARG_C (code ! i) \<noteq> 0" "Suc i < length code"
    using that s emb by (auto simp: settled_def embedded_def is_branch_def dest: spec [of _ "Suc i"])
  consider (jump) "has_op (code ! i) OP_JUMP" | (test) "\<not> has_op (code ! i) OP_JUMP" "is_test (code ! i)"
    | (data) "\<not> has_op (code ! i) OP_JUMP" "\<not> is_test (code ! i)" by blast
  then show ?thesis
  proof cases
    case jump
    with e w i show ?thesis
      by (auto simp: exec_instr_def os_assert_def exec_jump_shift intro: at_pos_shift)
  next
    case test
    show ?thesis
    proof (cases "OS_GETARG_C (code ! i) = 0")
      case True
      with test e w i show ?thesis
        by (auto simp: exec_instr_def os_assert_def Let_def split: bind_splits effect.splits)
    next
      case False
      with test e w i next_w exec_jump_shift(2) [OF next_w(1)] show ?thesis
        by (auto simp: exec_instr_def os_assert_def Let_def intro: at_pos_shift split: bind_splits effect.splits if_splits)
    qed
  next
    case data
    with e w i show ?thesis
      by (auto simp: exec_instr_def os_assert_def Let_def split: bind_splits effect.splits if_splits)
  qed
qed

lemma exec_leave_embed:
  assumes "exec_instr ops code i m = Some (Leave m1)" "prog ! (k + i) = code ! i" "k + i < length prog"
  shows "exec_instr ops prog (k + i) m = Some (Leave m1)"
  using assms exec_instr_length [OF assms(1)]
  by (auto simp: exec_instr_def os_assert_def at_pos_def Let_def split: bind_splits effect.splits if_splits)

lemma settled_embed:
  assumes "exec_instr ops code i m = Some (Next (j, m1))" "settled code bs i" "embedded code bs k prog cs"
  shows "settled prog cs (k + i)"
  using exec_instr_length [OF assms(1)] exec_instr_branch [OF assms(1)] assms(2,3)
  by (auto simp: settled_def embedded_def dest: spec [of _ "Suc i"])

text \<open>What a run of a piece says about the code that it is embedded in.\<close>

fun continues_as :: "(nat \<Rightarrow> 'm \<Rightarrow> 'm outcome \<Rightarrow> bool) \<Rightarrow> u32 list \<Rightarrow> LoopBreak list \<Rightarrow> nat \<Rightarrow> nat \<Rightarrow> 'm \<Rightarrow> 'm outcome \<Rightarrow> bool" where
  "continues_as run code bs k i m (Done m1) \<longleftrightarrow>
     (\<forall>out. run (k + length code) m1 out \<longrightarrow> run i m out)"
| "continues_as run code bs k i m (Broken m1) \<longleftrightarrow>
     (\<exists>b \<in> set bs. lb_type b = LOOP_BREAK \<and> (\<forall>out. run (k + lb_pos b) m1 out \<longrightarrow> run i m out))"
| "continues_as run code bs k i m (Continued m1) \<longleftrightarrow>
     (\<exists>b \<in> set bs. lb_type b = LOOP_CONTINUE \<and> (\<forall>out. run (k + lb_pos b) m1 out \<longrightarrow> run i m out))"
| "continues_as run code bs k i m (Left m1) \<longleftrightarrow> run i m (Left m1)"

lemma continues_as_step:
  assumes "continues_as run code bs k j m1 out" "\<And>out. run j m1 out \<Longrightarrow> run i m out"
  shows "continues_as run code bs k i m out"
  using assms by (cases out) auto

lemma frag_run_embed:
  assumes "frag_run ops code bs i m out" "embedded code bs k prog cs"
  shows "continues_as (frag_run ops prog cs) code bs k (k + i) m out"
  using assms
proof (induction rule: frag_run.induct)
  case (finish m)
  then show ?case by simp
next
  case (break_out b m)
  then show ?case by auto
next
  case (continue_out b m)
  then show ?case by auto
next
  case (step i m j m1 out)
  have "exec_instr ops prog (k + i) m = Some (Next (k + j, m1))"
    using exec_instr_embed [OF step.hyps(2,1) step.prems] by simp
  with settled_embed [OF step.hyps(2,1) step.prems] step.IH [OF step.prems] show ?case
    by (blast intro: continues_as_step frag_run.step)
next
  case (leave i m m1)
  with exec_instr_length [OF leave.hyps(2)] have "prog ! (k + i) = code ! i" "k + i < length prog"
    "k + i \<notin> break_positions cs" by (auto simp: embedded_def)
  with leave show ?case by (auto intro!: frag_run.leave exec_leave_embed)
qed

text \<open>A run of the whole code of a function.\<close>

lemma frag_run_vm:
  assumes "frag_run ops code bs i m out" "embedded code bs k prog []" "bs = []"
  shows "case out of Done m1 \<Rightarrow> vm_run ops prog (k + i) m (k + length code) m1
    | Left m1 \<Rightarrow> vm_leaves ops prog (k + i) m m1 | _ \<Rightarrow> False"
  using assms
proof (induction rule: frag_run.induct)
  case (finish m)
  then show ?case by (auto intro: vm_run.stay)
next
  case (step i m j m1 out)
  have "exec_instr ops prog (k + i) m = Some (Next (k + j, m1))"
    using exec_instr_embed [OF step.hyps(2,1) step.prems(1)] by simp
  with step.IH [OF step.prems] show ?case
    by (auto split: outcome.splits simp: vm_leaves_def intro: vm_run.go)
next
  case (leave i m m1)
  with exec_instr_length [OF leave.hyps(2)] have "exec_instr ops prog (k + i) m = Some (Leave m1)"
    by (intro exec_leave_embed) (auto simp: embedded_def)
  then show ?case by (auto simp: vm_leaves_def intro: vm_run.stay)
qed simp_all

section \<open>Jump targets\<close>

definition jump_target :: "('v, 'w) interp_ops \<Rightarrow> u32 list \<Rightarrow> nat \<Rightarrow> int option" where
  "jump_target ops code i =
     (if has_op (code ! i) OP_JUMP then Some (exec_OP_JUMP code i)
      else if has_op (code ! i) OP_NEW_FUNCTION
      then Some (int (Suc i + io_func_size ops (OS_GETARG_B (code ! i)))) else None)"

definition targets :: "('v, 'w) interp_ops \<Rightarrow> u32 list \<Rightarrow> LoopBreak list \<Rightarrow> int set" where
  "targets ops code bs = {t. \<exists>i < length code. i \<notin> break_positions bs \<and> jump_target ops code i = Some t}"

definition breaks_ok :: "u32 list \<Rightarrow> LoopBreak list \<Rightarrow> bool" where
  "breaks_ok code bs \<longleftrightarrow> distinct (map lb_pos bs)
     \<and> (\<forall>b \<in> set bs. lb_pos b < length code \<and> has_op (code ! lb_pos b) OP_JUMP)"

definition frag_ok :: "('v, 'w) interp_ops \<Rightarrow> u32 list \<Rightarrow> LoopBreak list \<Rightarrow> bool" where
  "frag_ok ops code bs \<longleftrightarrow> breaks_ok code bs \<and> targets ops code bs \<subseteq> {0..int (length code)}"

lemma exec_instr_next:
  assumes "exec_instr ops code i m = Some (Next (j, m1))"
  shows "j = Suc i \<or> jump_target ops code i = Some (int j)
    \<or> is_branch (code ! i) \<and> (j = Suc (Suc i) \<or> jump_target ops code (Suc i) = Some (int j))"
proof -
  note unfold = exec_instr_def os_assert_def Let_def
  consider (jump) "has_op (code ! i) OP_JUMP" | (test) "\<not> has_op (code ! i) OP_JUMP" "is_test (code ! i)"
    | (data) "\<not> has_op (code ! i) OP_JUMP" "\<not> is_test (code ! i)" by blast
  then show ?thesis
  proof cases
    case jump
    with assms show ?thesis
      by (auto simp: unfold at_pos_def jump_target_def split: if_splits)
  next
    case test
    show ?thesis
    proof (cases "OS_GETARG_C (code ! i) = 0")
      case True
      with test assms show ?thesis
        by (auto simp: unfold split: if_splits bind_splits effect.splits)
    next
      case False
      with test assms obtain res where "has_op (code ! Suc i) OP_JUMP"
        "0 \<le> exec_cond_jump code (Suc i) res" "j = nat (exec_cond_jump code (Suc i) res)"
        by (auto simp: unfold at_pos_def split: if_splits bind_splits effect.splits)
      with False test show ?thesis
        by (cases res) (auto simp: is_branch_def jump_target_def exec_cond_jump_def exec_OP_JUMP_def nat_add_distrib)
    qed
  next
    case data
    with assms show ?thesis
      by (auto simp: unfold jump_target_def split: if_splits bind_splits effect.splits)
  qed
qed

lemma exec_instr_cong:
  assumes "exec_instr ops code i m = Some r" "code' ! i = code ! i" "i < length code'"
    and "is_branch (code ! i) \<Longrightarrow> Suc i < length code \<Longrightarrow> has_op (code ! Suc i) OP_JUMP \<Longrightarrow>
      Suc i < length code' \<and> code' ! Suc i = code ! Suc i"
  shows "exec_instr ops code' i m = Some r"
proof -
  have branch: "Suc i < length code' \<and> code' ! Suc i = code ! Suc i"
    if "is_test (code ! i)" "OS_GETARG_C (code ! i) \<noteq> 0" "Suc i < length code \<and> has_op (code ! Suc i) OP_JUMP"
    using assms(4) that by (simp add: is_branch_def)
  have jump: "exec_OP_JUMP code' i = exec_OP_JUMP code i" using assms(2) by (simp add: exec_OP_JUMP_def)
  have cond: "exec_cond_jump code' (Suc i) res = exec_cond_jump code (Suc i) res" if "code' ! Suc i = code ! Suc i" for res
    using that by (simp add: exec_cond_jump_def)
  show ?thesis
  proof (cases "is_test (code ! i) \<and> OS_GETARG_C (code ! i) \<noteq> 0")
    case True
    with assms(1-3) jump show ?thesis
      by (auto simp: exec_instr_def os_assert_def Let_def branch cond split: bind_splits effect.splits if_splits)
  next
    case False
    with assms(1-3) exec_instr_length [OF assms(1)] jump show ?thesis
      by (cases "is_test (code ! i)"; cases "has_op (code ! i) OP_JUMP") (simp_all add: exec_instr_def os_assert_def Let_def)
  qed
qed

section \<open>Fusing two moves\<close>

definition fusible :: "u32 \<Rightarrow> u32 \<Rightarrow> bool" where
  "fusible prev cur \<longleftrightarrow> has_op prev OP_MOVE \<and> has_op cur OP_MOVE
     \<and> \<not> (OS_GETARG_A prev = OS_GETARG_B cur \<and> OS_GETARG_A cur = OS_GETARG_B prev)
     \<and> OS_GETARG_A prev + 1 = OS_GETARG_A cur"

lemma exec_instr_MOVE:
  assumes "has_op (code ! i) OP_MOVE" "i < length code"
  shows "exec_instr ops code i m =
    Option.bind (exec_OP_MOVE (m_locals m) (m_consts m) (code ! i)) (\<lambda>l. Some (Next (Suc i, m\<lparr>m_locals := l\<rparr>)))"
  using assms
  by (auto simp: exec_instr_def os_assert_def Let_def has_op_def is_test_def is_compare_def compare_opcodes_def)

lemma exec_instr_MOVE2:
  assumes "has_op (code ! i) OP_MOVE2" "i < length code"
  shows "exec_instr ops code i m =
    Option.bind (exec_OP_MOVE2 (m_locals m) (m_consts m) (code ! i)) (\<lambda>l. Some (Next (Suc i, m\<lparr>m_locals := l\<rparr>)))"
  using assms
  by (auto simp: exec_instr_def os_assert_def Let_def has_op_def is_test_def is_compare_def compare_opcodes_def)

lemma frag_run_MOVE:
  assumes "frag_run ops code bs i m out" "has_op (code ! i) OP_MOVE" "i < length code" "breaks_ok code bs"
  shows "\<exists>l. exec_OP_MOVE (m_locals m) (m_consts m) (code ! i) = Some l
    \<and> frag_run ops code bs (Suc i) (m\<lparr>m_locals := l\<rparr>) out"
proof -
  have "\<not> has_op (code ! i) OP_JUMP" using assms(2) by (simp add: has_op_def)
  with assms(4) have "i \<noteq> lb_pos b" if "b \<in> set bs" for b using that by (auto simp: breaks_ok_def)
  with assms(1,3) show ?thesis
    by (cases rule: frag_run.cases) (auto simp: exec_instr_MOVE [OF assms(2,3)] split: bind_splits)
qed

lemma frag_run_end:
  assumes "frag_run ops code bs (length code) m out" "breaks_ok code bs"
  shows "out = Done m"
  using assms(1)
proof (cases rule: frag_run.cases)
  case (step j m1)
  from exec_instr_length [OF step(2)] show ?thesis by simp
next
  case (leave m1)
  from exec_instr_length [OF leave(3)] show ?thesis by simp
qed (use assms(2) in \<open>auto simp: breaks_ok_def\<close>)

lemma frag_run_fuse:
  assumes "frag_run ops code bs i m out" "code = us @ [prev, cur]" "i \<le> length us"
    and f: "fusible prev cur" and ok: "frag_ok ops code bs"
    and t: "int (length us + 1) \<notin> targets ops code bs" "int (length us + 2) \<notin> targets ops code bs"
  shows "frag_run ops (us @ [move2_of prev cur]) bs i m out"
  using assms(1-3)
proof (induction rule: frag_run.induct)
  case (finish m)
  with assms(2) show ?case by simp
next
  case (break_out b m)
  then show ?case by (blast intro: frag_run.break_out)
next
  case (continue_out b m)
  then show ?case by (blast intro: frag_run.continue_out)
next
  case (step i m j m1 out)
  note code = assms(2)
  let ?new = "us @ [move2_of prev cur]"
  have bok: "breaks_ok code bs" using ok by (simp add: frag_ok_def)
  show ?case
  proof (cases "i = length us")
    case True
    with f code have mv: "has_op (code ! i) OP_MOVE" "i < length code" by (simp_all add: fusible_def nth_append)
    from frag_run_MOVE [OF frag_run.step [OF step.hyps] mv bok]
    obtain l where l: "exec_OP_MOVE (m_locals m) (m_consts m) prev = Some l"
      "frag_run ops code bs (Suc i) (m\<lparr>m_locals := l\<rparr>) out"
      using True code by (auto simp: nth_append)
    have mv2: "has_op (code ! Suc i) OP_MOVE" "Suc i < length code"
      using f code True by (simp_all add: fusible_def nth_append)
    from frag_run_MOVE [OF l(2) mv2 bok] obtain l2
      where l2: "exec_OP_MOVE l (m_consts m) cur = Some l2"
        "frag_run ops code bs (length code) (m\<lparr>m_locals := l2\<rparr>) out"
      using True code by (auto simp: nth_append)
    have "exec_OP_MOVE2 (m_locals m) (m_consts m) (move2_of prev cur) = Some l2"
      using f l(1) l2(1) by (subst exec_move2_of) (auto simp: fusible_def)
    then have "exec_instr ops ?new i m = Some (Next (length ?new, m\<lparr>m_locals := l2\<rparr>))"
      using True by (subst exec_instr_MOVE2) (simp_all add: has_op_def opcode_type_move2_of)
    moreover have "settled ?new bs i"
      using step.hyps(1) True code
      by (auto simp: settled_def is_branch_def is_test_def is_compare_def compare_opcodes_def has_op_def opcode_type_move2_of)
    ultimately show ?thesis
      using frag_run_end [OF l2(2) bok] frag_run.finish [of ops ?new bs] by (blast intro: frag_run.step)
  next
    case False
    with step.prems have i: "i < length us" by simp
    have branch: "Suc i < length us" if "is_branch (code ! i)"
    proof -
      from exec_instr_branch [OF step.hyps(2) that] have "has_op (code ! Suc i) OP_JUMP" by simp
      with f code i show ?thesis
        by (cases "Suc i = length us") (auto simp: fusible_def nth_append has_op_def)
    qed
    have "exec_instr ops ?new i m = Some (Next (j, m1))"
      using i branch code by (intro exec_instr_cong [OF step.hyps(2)]) (auto simp: nth_append)
    moreover have "settled ?new bs i"
      using step.hyps(1) i code by (auto simp: settled_def nth_append)
    moreover have "j \<le> length us"
    proof -
      have small: "j \<le> length us" if "int j \<in> targets ops code bs"
      proof -
        from that ok have "int j \<le> int (length code)" by (auto simp: frag_ok_def)
        with that t code show ?thesis by (cases "j = length us + 1"; cases "j = length us + 2") auto
      qed
      have "int j \<in> targets ops code bs" if "jump_target ops code i = Some (int j)"
        using that i step.hyps(1) code by (auto simp: targets_def settled_def intro!: exI [of _ i])
      moreover have "int j \<in> targets ops code bs"
        if "is_branch (code ! i)" "jump_target ops code (Suc i) = Some (int j)"
        using that branch i step.hyps(1) code by (auto simp: targets_def settled_def intro!: exI [of _ "Suc i"])
      ultimately show ?thesis
        using exec_instr_next [OF step.hyps(2)] small i branch by fastforce
    qed
    ultimately show ?thesis using step.IH [OF code] by (blast intro: frag_run.step)
  qed
next
  case (leave i m m1)
  note code = assms(2)
  have "i \<noteq> length us"
    using leave.hyps(2) f code by (auto simp: fusible_def exec_instr_MOVE nth_append split: bind_splits)
  with leave.prems have "i < length us" by simp
  then show ?case
    using exec_leave_embed [OF leave.hyps(2), of "us @ [move2_of prev cur]" 0] leave.hyps(1) code
    by (auto simp: nth_append intro: frag_run.leave)
qed

end
