(* ===== verification/CodeShapes.thy ===== *)
theory CodeShapes
  imports CodeFlow
begin

text \<open>
  The shapes of code that the generator builds from smaller pieces: one instruction, sequence, conditional,
  loop, function literal, try block.  \<open>code_for\<close> says that a piece is well formed and that its runs do what a
  relation between machines and outcomes says; each shape has one lemma, which does not mention the
  state of the generator.
\<close>

type_synonym ('v, 'w) behaviour = "('v, 'w) machine \<Rightarrow> ('v, 'w) machine outcome \<Rightarrow> bool"

definition code_for ::
  "('v, 'w) interp_ops \<Rightarrow> u32 list \<Rightarrow> LoopBreak list \<Rightarrow> ('v, 'w) behaviour \<Rightarrow> bool" where
  "code_for ops code bs R \<longleftrightarrow> frag_ok ops code bs \<and> (\<forall>m out. R m out \<longrightarrow> frag_run ops code bs 0 m out)"

abbreviation is_done :: "'m outcome \<Rightarrow> bool" where
  "is_done out \<equiv> \<exists>m. out = Done m"

definition seq :: "('v, 'w) behaviour \<Rightarrow> ('v, 'w) behaviour \<Rightarrow> ('v, 'w) behaviour" where
  "seq R1 R2 m out \<longleftrightarrow> (\<exists>m1. R1 m (Done m1) \<and> R2 m1 out) \<or> (\<not> is_done out \<and> R1 m out)"

definition skip :: "('v, 'w) behaviour" where
  "skip m out \<longleftrightarrow> out = Done m"

definition shift_breaks :: "nat \<Rightarrow> LoopBreak list \<Rightarrow> LoopBreak list" where
  "shift_breaks k bs = map (\<lambda>b. b\<lparr>lb_pos := k + lb_pos b\<rparr>) bs"

lemma shift_breaks_simps [simp]:
  "shift_breaks k [] = []" "shift_breaks 0 bs = bs"
  "shift_breaks k (bs @ cs) = shift_breaks k bs @ shift_breaks k cs"
  "shift_breaks j (shift_breaks k bs) = shift_breaks (j + k) bs"
  "break_positions (shift_breaks k bs) = (+) k ` break_positions bs"
  "shift_breaks k bs = [] \<longleftrightarrow> bs = []"
  by (simp_all add: shift_breaks_def add.assoc image_image)

lemma break_positions_append [simp]:
  "lb_pos ` (set bs \<union> set (shift_breaks k cs)) = break_positions bs \<union> (+) k ` break_positions cs"
  by (simp add: image_Un)

lemma in_shift_breaksD: "b \<in> set (shift_breaks k bs) \<Longrightarrow> \<exists>c \<in> set bs. b = c\<lparr>lb_pos := k + lb_pos c\<rparr>"
  by (auto simp: shift_breaks_def)

lemma in_shift_breaks: "b \<in> set bs \<Longrightarrow> b\<lparr>lb_pos := k + lb_pos b\<rparr> \<in> set (shift_breaks k bs)"
  by (auto simp: shift_breaks_def)

section \<open>Sequence\<close>

lemma jump_target_cong: "code ! i = code' ! i \<Longrightarrow> jump_target ops code i = jump_target ops code' i"
  by (simp add: jump_target_def exec_OP_JUMP_def)

lemma jump_target_append:
  "i < length us \<Longrightarrow> jump_target ops (us @ vs) i = jump_target ops us i"
  "jump_target ops (us @ vs) (length us + i) = map_option (\<lambda>t. int (length us) + t) (jump_target ops vs i)"
  by (simp_all add: jump_target_def exec_OP_JUMP_def nth_append)

lemma targets_append:
  assumes "breaks_ok us bs"
  shows "targets ops (us @ vs) (bs @ shift_breaks (length us) cs)
    = targets ops us bs \<union> (+) (int (length us)) ` targets ops vs cs"
proof (intro set_eqI iffI)
  fix t
  assume "t \<in> targets ops (us @ vs) (bs @ shift_breaks (length us) cs)"
  then obtain i where i: "i < length us + length vs" "i \<notin> break_positions bs"
    "i \<notin> (+) (length us) ` break_positions cs" "jump_target ops (us @ vs) i = Some t"
    by (auto simp: targets_def)
  show "t \<in> targets ops us bs \<union> (+) (int (length us)) ` targets ops vs cs"
  proof (cases "i < length us")
    case True
    with i show ?thesis by (auto simp: targets_def jump_target_append)
  next
    case False
    then obtain j where j: "i = length us + j" using le_Suc_ex by (metis not_less)
    with i show ?thesis by (auto simp: targets_def jump_target_append image_iff)
  qed
next
  fix t
  assume "t \<in> targets ops us bs \<union> (+) (int (length us)) ` targets ops vs cs"
  then show "t \<in> targets ops (us @ vs) (bs @ shift_breaks (length us) cs)"
  proof
    assume "t \<in> targets ops us bs"
    then obtain i where "i < length us" "i \<notin> break_positions bs" "jump_target ops us i = Some t"
      by (auto simp: targets_def)
    then show ?thesis by (auto simp: targets_def jump_target_append intro!: exI [of _ i])
  next
    assume "t \<in> (+) (int (length us)) ` targets ops vs cs"
    then obtain i u where i: "i < length vs" "i \<notin> break_positions cs" "jump_target ops vs i = Some u" "t = int (length us) + u"
      by (auto simp: targets_def)
    moreover have "length us + i \<notin> break_positions bs" using assms by (auto simp: breaks_ok_def)
    ultimately show ?thesis
      by (auto simp: targets_def jump_target_append intro!: exI [of _ "length us + i"])
  qed
qed

lemma breaks_ok_append:
  assumes "breaks_ok us bs" "breaks_ok vs cs"
  shows "breaks_ok (us @ vs) (bs @ shift_breaks (length us) cs)"
proof -
  have "distinct (map lb_pos (shift_breaks (length us) cs))"
    using assms(2) by (auto simp: breaks_ok_def shift_breaks_def distinct_map inj_on_def)
  moreover have "break_positions bs \<inter> break_positions (shift_breaks (length us) cs) = {}"
    using assms(1) by (auto simp: breaks_ok_def simp del: shift_breaks_simps) (auto simp: shift_breaks_def)
  moreover have "\<forall>b \<in> set (shift_breaks (length us) cs). lb_pos b < length us + length vs
      \<and> has_op ((us @ vs) ! lb_pos b) OP_JUMP"
    using assms(2) by (auto simp: breaks_ok_def shift_breaks_def)
  moreover have "\<forall>b \<in> set bs. lb_pos b < length us + length vs \<and> has_op ((us @ vs) ! lb_pos b) OP_JUMP"
    using assms(1) by (auto simp: breaks_ok_def nth_append)
  ultimately show ?thesis using assms by (auto simp: breaks_ok_def)
qed

lemma frag_ok_append:
  assumes "frag_ok ops us bs" "frag_ok ops vs cs"
  shows "frag_ok ops (us @ vs) (bs @ shift_breaks (length us) cs)"
proof -
  have "targets ops us bs \<subseteq> {0..int (length us)}" "targets ops vs cs \<subseteq> {0..int (length vs)}"
    using assms by (simp_all add: frag_ok_def)
  with assms show ?thesis
    by (fastforce simp: frag_ok_def breaks_ok_append targets_append)
qed

lemma embedded_append:
  assumes "breaks_ok us bs"
  shows "embedded us bs 0 (us @ vs) (bs @ shift_breaks (length us) cs)"
    "embedded vs cs (length us) (us @ vs) (bs @ shift_breaks (length us) cs)"
  using assms by (auto simp: embedded_def nth_append breaks_ok_def dest!: in_shift_breaksD)

lemma frag_run_append:
  assumes "breaks_ok us bs"
  shows "frag_run ops us bs i m (Done m1) \<Longrightarrow> frag_run ops vs cs 0 m1 out \<Longrightarrow>
      frag_run ops (us @ vs) (bs @ shift_breaks (length us) cs) i m out"
    and "frag_run ops us bs i m out \<Longrightarrow> \<not> is_done out \<Longrightarrow>
      frag_run ops (us @ vs) (bs @ shift_breaks (length us) cs) i m out"
    and "frag_run ops vs cs j m out \<Longrightarrow>
      frag_run ops (us @ vs) (bs @ shift_breaks (length us) cs) (length us + j) m out"
proof -
  let ?bs = "bs @ shift_breaks (length us) cs"
  let ?run = "frag_run ops (us @ vs) ?bs"
  note emb = embedded_append(1) [OF assms, of vs cs]
  show right: "?run (length us + j) m out" if "frag_run ops vs cs j m out" for j m out
  proof (cases out)
    case (Done m1)
    with frag_run_embed [OF that embedded_append(2) [OF assms]] frag_run.finish [of ops "us @ vs" ?bs m1]
    show ?thesis by simp
  next
    case (Broken m1)
    with frag_run_embed [OF that embedded_append(2) [OF assms]] obtain b where b: "b \<in> set cs" "lb_type b = LOOP_BREAK"
      "\<forall>out. ?run (length us + lb_pos b) m1 out \<longrightarrow> ?run (length us + j) m out" by auto
    from frag_run.break_out [of "b\<lparr>lb_pos := length us + lb_pos b\<rparr>" ?bs ops "us @ vs" m1] b Broken show ?thesis
      by (simp add: in_shift_breaks)
  next
    case (Continued m1)
    with frag_run_embed [OF that embedded_append(2) [OF assms]] obtain b where b: "b \<in> set cs" "lb_type b = LOOP_CONTINUE"
      "\<forall>out. ?run (length us + lb_pos b) m1 out \<longrightarrow> ?run (length us + j) m out" by auto
    from frag_run.continue_out [of "b\<lparr>lb_pos := length us + lb_pos b\<rparr>" ?bs ops "us @ vs" m1] b Continued show ?thesis
      by (simp add: in_shift_breaks)
  next
    case (Left m1)
    with frag_run_embed [OF that embedded_append(2) [OF assms]] show ?thesis by simp
  qed
  show "?run i m out" if "frag_run ops us bs i m (Done m1)" "frag_run ops vs cs 0 m1 out"
    using frag_run_embed [OF that(1) embedded_append(1) [OF assms]] right [OF that(2)] by simp
  show "?run i m out" if "frag_run ops us bs i m out" "\<not> is_done out"
  proof (cases out)
    case (Done m1)
    with that(2) show ?thesis by simp
  next
    case (Broken m1)
    with frag_run_embed [OF that(1) emb] obtain b where b: "b \<in> set bs" "lb_type b = LOOP_BREAK"
      "\<forall>out. ?run (lb_pos b) m1 out \<longrightarrow> ?run i m out" by auto
    from frag_run.break_out [of b ?bs ops "us @ vs" m1] b Broken show ?thesis by simp
  next
    case (Continued m1)
    with frag_run_embed [OF that(1) emb] obtain b where b: "b \<in> set bs" "lb_type b = LOOP_CONTINUE"
      "\<forall>out. ?run (lb_pos b) m1 out \<longrightarrow> ?run i m out" by auto
    from frag_run.continue_out [of b ?bs ops "us @ vs" m1] b Continued show ?thesis by simp
  next
    case (Left m1)
    with frag_run_embed [OF that(1) emb] show ?thesis by simp
  qed
qed

lemma code_for_append:
  assumes "code_for ops us bs R1" "code_for ops vs cs R2"
  shows "code_for ops (us @ vs) (bs @ shift_breaks (length us) cs) (seq R1 R2)"
proof -
  have "breaks_ok us bs" using assms(1) by (simp add: code_for_def frag_ok_def)
  note run = frag_run_append(1,2) [OF this, of ops]
  show ?thesis unfolding code_for_def
  proof (intro conjI allI impI)
    fix m out
    assume "seq R1 R2 m out"
    then consider m1 where "R1 m (Done m1)" "R2 m1 out" | "\<not> is_done out" "R1 m out"
      by (auto simp: seq_def)
    then show "frag_run ops (us @ vs) (bs @ shift_breaks (length us) cs) 0 m out"
      using assms unfolding code_for_def by cases (blast intro: run)+
  qed (use assms in \<open>simp add: code_for_def frag_ok_append\<close>)
qed

lemma code_for_Nil: "code_for ops [] [] skip"
  using frag_run.finish [of ops "[]" "[]"]
  by (auto simp: code_for_def skip_def frag_ok_def breaks_ok_def targets_def)

lemma code_for_mono: "code_for ops code bs R \<Longrightarrow> (\<And>m out. R' m out \<Longrightarrow> R m out) \<Longrightarrow> code_for ops code bs R'"
  by (simp add: code_for_def)

section \<open>Pieces inside larger pieces\<close>

lemma run_piece:
  assumes "code_for ops c bs R" "R m out" "embedded c bs k prog cs" "set (shift_breaks k bs) \<subseteq> set cs"
  shows "out = Done m1 \<Longrightarrow> frag_run ops prog cs (k + length c) m1 out' \<Longrightarrow> frag_run ops prog cs k m out'"
    and "\<not> is_done out \<Longrightarrow> frag_run ops prog cs k m out"
proof -
  have "frag_run ops c bs 0 m out" using assms(1,2) by (simp add: code_for_def)
  note emb = frag_run_embed [OF this assms(3)]
  show "frag_run ops prog cs k m out'" if "out = Done m1" "frag_run ops prog cs (k + length c) m1 out'"
    using emb that by simp
  show "frag_run ops prog cs k m out" if "\<not> is_done out"
  proof (cases out)
    case (Broken m1)
    with emb obtain b where b: "b \<in> set bs" "lb_type b = LOOP_BREAK"
      "\<forall>out. frag_run ops prog cs (k + lb_pos b) m1 out \<longrightarrow> frag_run ops prog cs k m out" by auto
    from frag_run.break_out [of "b\<lparr>lb_pos := k + lb_pos b\<rparr>" cs ops prog m1] b Broken assms(4) show ?thesis
      by (simp add: subset_iff in_shift_breaks)
  next
    case (Continued m1)
    with emb obtain b where b: "b \<in> set bs" "lb_type b = LOOP_CONTINUE"
      "\<forall>out. frag_run ops prog cs (k + lb_pos b) m1 out \<longrightarrow> frag_run ops prog cs k m out" by auto
    from frag_run.continue_out [of "b\<lparr>lb_pos := k + lb_pos b\<rparr>" cs ops prog m1] b Continued assms(4) show ?thesis
      by (simp add: subset_iff in_shift_breaks)
  qed (use emb that in auto)
qed

lemma embedded_mid:
  assumes "\<And>i. i < length c \<Longrightarrow> i \<notin> break_positions bs \<Longrightarrow> length pre + i \<notin> break_positions cs"
  shows "embedded c bs (length pre) (pre @ c @ post) cs"
  using assms by (auto simp: embedded_def nth_append)

section \<open>Single instructions\<close>

definition jump_word :: "int \<Rightarrow> u32" where
  "jump_word d = OS_SETARG_sBx (of_nat (opcode_index OP_JUMP)) d"

lemma unat_opcode_word: "unat (of_nat (opcode_index p) :: u32) = opcode_index p"
  using opcode_index_less_64 [of p] by (simp add: unsigned_of_nat take_bit_nat_eq_self)

lemma opcode_word_inj: "(of_nat (opcode_index p) :: u32) = of_nat (opcode_index q) \<longleftrightarrow> p = q"
  by (metis unat_opcode_word opcode_index_inj)

lemma opcode_type_word: "OS_GET_OPCODE_TYPE (of_nat (opcode_index p)) = of_nat (opcode_index p)"
  unfolding OS_GET_OPCODE_TYPE_def layout_defs
  by (intro bit_word_eqI) (auto simp: bit_getarg dest: bit_opcode_word)

lemma has_op_word [simp]: "has_op (of_nat (opcode_index p)) q \<longleftrightarrow> p = q"
  unfolding has_op_def opcode_type_word opcode_word_inj ..

lemma has_op_setarg_sBx [simp]: "has_op (OS_SETARG_sBx w d) p \<longleftrightarrow> has_op w p"
  by (simp add: has_op_def opcode_type_setarg_sBx)

lemma has_op_jump_word [simp]: "has_op (jump_word d) p \<longleftrightarrow> p = OP_JUMP"
  unfolding jump_word_def has_op_setarg_sBx has_op_word by auto

lemma has_op_unique: "has_op w p \<Longrightarrow> has_op w q \<Longrightarrow> p = q"
  unfolding has_op_def by (metis opcode_word_inj)

lemma jump_not_branch: "has_op w OP_JUMP \<Longrightarrow> \<not> is_test w \<and> \<not> is_branch w"
  by (auto simp: is_branch_def is_test_def is_compare_def compare_opcodes_def dest: has_op_unique)

lemma exec_jump_word: "jump_offset_fits d \<Longrightarrow> code ! i = jump_word d \<Longrightarrow> exec_OP_JUMP code i = int i + 1 + d"
  by (simp add: exec_OP_JUMP_def jump_word_def sBx_fits)

definition small :: "nat \<Rightarrow> bool" where
  "small n \<longleftrightarrow> n \<le> 131071"

lemma small_fits: "small n \<Longrightarrow> \<bar>d\<bar> \<le> int n \<Longrightarrow> jump_offset_fits d"
  by (auto simp: small_def jump_offset_fits_def maxarg_defs layout_defs)

lemma small_mono: "small n \<Longrightarrow> k \<le> n \<Longrightarrow> small k"
  by (simp add: small_def)

lemma run_jump:
  assumes "frag_run ops prog cs t m out" "has_op (prog ! i) OP_JUMP" "exec_OP_JUMP prog i = int t"
    and "i < length prog" "i \<notin> break_positions cs"
  shows "frag_run ops prog cs i m out"
proof -
  have "exec_instr ops prog i m = Some (Next (t, m))"
    using assms(2-4) by (simp add: exec_instr_def os_assert_def at_pos_def)
  moreover have "settled prog cs i" using assms(2,5) jump_not_branch by (simp add: settled_def)
  ultimately show ?thesis using assms(1) by (blast intro: frag_run.step)
qed

definition branch :: "('v, 'w) interp_ops \<Rightarrow> u32 \<Rightarrow> ('v, 'w) behaviour \<Rightarrow> ('v, 'w) behaviour \<Rightarrow> ('v, 'w) behaviour" where
  "branch ops w R1 R2 m out \<longleftrightarrow>
     (case instr_test ops w m of None \<Rightarrow> False
      | Some (Leave m1) \<Rightarrow> out = Left m1
      | Some (Next (res, m1)) \<Rightarrow> if res then R1 m1 out else R2 m1 out)"

lemma run_branch:
  assumes "branch ops w R1 R2 m out" "is_branch w" "prog ! i = w" "prog ! Suc i = jump_word d"
    and "i < length prog" "Suc i < length prog" "i \<notin> break_positions cs" "Suc i \<notin> break_positions cs"
    and "jump_offset_fits d" "0 \<le> d"
    and "\<And>m1. R1 m1 out \<Longrightarrow> frag_run ops prog cs (Suc (Suc i)) m1 out"
    and "\<And>m1. R2 m1 out \<Longrightarrow> frag_run ops prog cs (Suc (Suc i) + nat d) m1 out"
  shows "frag_run ops prog cs i m out"
proof -
  have w: "\<not> has_op w OP_JUMP" "is_test w" "OS_GETARG_C w \<noteq> 0"
    using assms(2) jump_not_branch by (auto simp: is_branch_def)
  have cond: "exec_cond_jump prog (Suc i) res = int (if res then Suc (Suc i) else Suc (Suc i) + nat d)" for res
    using assms(4,9,10) by (auto simp: exec_cond_jump_def jump_word_def sBx_fits)
  show ?thesis
  proof (cases "instr_test ops w m")
    case None
    with assms(1) show ?thesis by (simp add: branch_def)
  next
    case (Some r)
    show ?thesis
    proof (cases r)
      case (Leave m1)
      with Some assms(1) have "out = Left m1" by (simp add: branch_def)
      moreover have "exec_instr ops prog i m = Some (Leave m1)"
        using w Some Leave assms(3,5) by (simp add: exec_instr_def os_assert_def)
      ultimately show ?thesis using assms(7) by (blast intro: frag_run.leave)
    next
      case (Next p)
      obtain res m1 where p: "p = (res, m1)" by fastforce
      have "exec_instr ops prog i m = Some (Next (if res then Suc (Suc i) else Suc (Suc i) + nat d, m1))"
        using w Some Next p assms(3-6) cond by (simp add: exec_instr_def os_assert_def at_pos_def)
      moreover have "settled prog cs i" using assms(7,8) by (simp add: settled_def)
      moreover have "frag_run ops prog cs (if res then Suc (Suc i) else Suc (Suc i) + nat d) m1 out"
        using Some Next p assms(1,11,12) by (simp add: branch_def split: if_splits)
      ultimately show ?thesis by (blast intro: frag_run.step)
    qed
  qed
qed

definition plain :: "u32 \<Rightarrow> bool" where
  "plain w \<longleftrightarrow> \<not> has_op w OP_JUMP \<and> \<not> has_op w OP_NEW_FUNCTION \<and> \<not> is_branch w"

definition one_instr :: "('v, 'w) interp_ops \<Rightarrow> u32 \<Rightarrow> ('v, 'w) behaviour" where
  "one_instr ops w m out \<longleftrightarrow>
     (case exec_instr ops [w] 0 m of None \<Rightarrow> False
      | Some (Leave m1) \<Rightarrow> out = Left m1 | Some (Next (j, m1)) \<Rightarrow> out = Done m1)"

lemma code_for_one:
  assumes "plain w"
  shows "code_for ops [w] [] (one_instr ops w)" and "targets ops [w] [] = {}"
proof -
  have jt: "jump_target ops [w] 0 = None" using assms by (simp add: jump_target_def plain_def)
  then show t: "targets ops [w] [] = {}" by (auto simp: targets_def)
  have run: "frag_run ops [w] [] 0 m out" if "one_instr ops w m out" for m out
  proof (cases "exec_instr ops [w] 0 m")
    case None
    with that show ?thesis by (simp add: one_instr_def)
  next
    case (Some r)
    show ?thesis
    proof (cases r)
      case (Leave m1)
      with Some that show ?thesis by (auto simp: one_instr_def intro: frag_run.leave)
    next
      case (Next p)
      obtain j m1 where p: "p = (j, m1)" by fastforce
      from exec_instr_next [of ops "[w]" 0 m j m1] Some Next p jt assms have "j = 1"
        by (simp add: plain_def)
      with Some Next p that frag_run.finish [of ops "[w]" "[]" m1] show ?thesis
        by (auto simp: one_instr_def settled_def intro: frag_run.step)
    qed
  qed
  show "code_for ops [w] [] (one_instr ops w)"
    using t run by (simp add: code_for_def frag_ok_def breaks_ok_def)
qed

section \<open>Conditionals and try blocks\<close>

lemma breaks_ok_Nil [simp]: "breaks_ok code []"
  by (simp add: breaks_ok_def)

lemma branch_target: "is_branch w \<Longrightarrow> w = code ! i \<Longrightarrow> jump_target ops code i = None"
  by (auto simp: jump_target_def is_branch_def is_test_def is_compare_def compare_opcodes_def dest: has_op_unique)

lemma targets_jump: "jump_offset_fits d \<Longrightarrow> targets ops [jump_word d] [] = {1 + d}"
  by (auto simp: targets_def jump_target_def exec_jump_word)

lemma targets_branch:
  assumes "is_branch w" "jump_offset_fits d"
  shows "targets ops [w, jump_word d] [] = {2 + d}"
proof -
  have "jump_target ops [w, jump_word d] 0 = None" using assms(1) by (simp add: branch_target)
  moreover have "jump_target ops [w, jump_word d] (Suc 0) = Some (2 + d)"
    using exec_jump_word [OF assms(2), of "[w, jump_word d]" "Suc 0"] by (simp add: jump_target_def)
  ultimately show ?thesis by (auto simp: targets_def less_Suc_eq intro!: exI [of _ "Suc 0"])
qed

lemma code_for_parts: "code_for ops code bs R \<Longrightarrow> frag_ok ops code bs" "code_for ops code bs R \<Longrightarrow> breaks_ok code bs"
  "code_for ops code bs R \<Longrightarrow> targets ops code bs \<subseteq> {0..int (length code)}"
  by (simp_all add: code_for_def frag_ok_def)

lemma code_branch:
  assumes c: "code_for ops c bs R" and w: "is_branch w" and small: "small (length c)"
  shows "code_for ops ([w, jump_word (int (length c))] @ c) (shift_breaks (Suc (Suc 0)) bs) (branch ops w R skip)"
    (is "code_for ops (?pre @ c) ?bs _")
proof -
  note fits = small_fits [OF small, of "int (length c)", simplified]
  note parts = code_for_parts(2,3) [OF c]
  have "targets ops (?pre @ c) ?bs \<subseteq> {0..int (length (?pre @ c))}"
    using targets_append [of ?pre "[]" ops c bs] parts(2) by (auto simp: targets_branch [OF w fits])
  moreover have "breaks_ok (?pre @ c) ?bs" using breaks_ok_append [of ?pre "[]" c bs] parts(1) by simp
  moreover have "frag_run ops (?pre @ c) ?bs 0 m out" if "branch ops w R skip m out" for m out
  proof (rule run_branch [OF that w])
    have emb: "embedded c bs (Suc (Suc 0)) (?pre @ c) ?bs" using embedded_append(2) [of ?pre "[]" c bs] by simp
    show "frag_run ops (?pre @ c) ?bs (Suc (Suc 0)) m1 out" if "R m1 out" for m1
      using run_piece [OF c that emb] frag_run.finish [of ops "?pre @ c" ?bs] by (cases out) auto
    show "frag_run ops (?pre @ c) ?bs (Suc (Suc 0) + nat (int (length c))) m1 out" if "skip m1 out" for m1
      using that frag_run.finish [of ops "?pre @ c" ?bs m1] by (simp add: skip_def)
  qed (use fits in auto)
  ultimately show ?thesis by (simp add: code_for_def frag_ok_def)
qed

lemma code_if_else:
  assumes c1: "code_for ops c1 b1 R1" and c2: "code_for ops c2 b2 R2" and w: "is_branch w"
    and small: "small (length c1 + length c2 + 1)"
  shows "code_for ops ([w, jump_word (int (length c1) + 1)] @ c1 @ [jump_word (int (length c2))] @ c2)
    (shift_breaks (Suc (Suc 0)) b1 @ shift_breaks (Suc (Suc (Suc (length c1)))) b2) (branch ops w R1 R2)"
    (is "code_for ops ?prog ?bs _")
proof -
  let ?pre = "[w, jump_word (int (length c1) + 1)]" and ?mid = "[jump_word (int (length c2))]"
  note fits = small_fits [OF small, of "int (length c1) + 1", simplified] small_fits [OF small, of "int (length c2)", simplified]
  note p1 = code_for_parts(2,3) [OF c1] and p2 = code_for_parts(2,3) [OF c2]
  let ?b2 = "shift_breaks (Suc 0) b2"
  let ?b1 = "b1 @ shift_breaks (length c1) ?b2"
  have bs: "?bs = shift_breaks (Suc (Suc 0)) ?b1" by simp
  have mid: "breaks_ok (?mid @ c2) ?b2" "targets ops (?mid @ c2) ?b2 \<subseteq> {0..int (length c2) + 1}"
    using breaks_ok_append [of ?mid "[]" c2 b2] p2(1) targets_append [of ?mid "[]" ops c2 b2] p2(2)
    by (auto simp: targets_jump [OF fits(2)])
  have tail: "breaks_ok (c1 @ ?mid @ c2) ?b1" "targets ops (c1 @ ?mid @ c2) ?b1 \<subseteq> {0..int (length c1 + length c2) + 1}"
    using breaks_ok_append [OF p1(1) mid(1)] targets_append [OF p1(1), of ops "?mid @ c2" ?b2] mid(2) p1(2)
    by (simp, fastforce)
  have "breaks_ok ?prog ?bs"
    using breaks_ok_append [of ?pre "[]", OF _ tail(1)] unfolding bs by simp
  moreover have "targets ops ?prog ?bs \<subseteq> {0..int (length ?prog)}"
    using targets_append [of ?pre "[]" ops "c1 @ ?mid @ c2" ?b1] tail(2)
    unfolding bs by (auto simp: targets_branch [OF w fits(1)])
  moreover have "frag_run ops ?prog ?bs 0 m out" if "branch ops w R1 R2 m out" for m out
  proof (rule run_branch [OF that w])
    let ?run = "frag_run ops ?prog ?bs"
    have pos1: "lb_pos b < length c1" if "b \<in> set b1" for b using p1(1) that by (auto simp: breaks_ok_def)
    have "embedded c1 b1 (length ?pre) (?pre @ c1 @ ?mid @ c2) ?bs"
      by (rule embedded_mid) (auto dest!: in_shift_breaksD)
    then have emb1: "embedded c1 b1 (Suc (Suc 0)) ?prog ?bs" by simp
    have "embedded c2 b2 (length (?pre @ c1 @ ?mid)) ((?pre @ c1 @ ?mid) @ c2 @ []) ?bs"
      by (rule embedded_mid) (auto dest!: in_shift_breaksD dest: pos1)
    then have emb2: "embedded c2 b2 (Suc (Suc (Suc (length c1)))) ?prog ?bs" by (simp add: algebra_simps)
    have fin: "?run (Suc (Suc (Suc (length c1))) + length c2) m1 (Done m1)" for m1
      using frag_run.finish [of ops ?prog ?bs m1] by (simp add: algebra_simps)
    have jump: "?run (Suc (Suc (length c1))) m1 (Done m1)" for m1
    proof (rule run_jump)
      show "?run (Suc (Suc (Suc (length c1))) + length c2) m1 (Done m1)" by (rule fin)
      show "exec_OP_JUMP ?prog (Suc (Suc (length c1))) = int (Suc (Suc (Suc (length c1))) + length c2)"
        using fits(2) by (subst exec_jump_word [where d = "int (length c2)"]) (auto simp: nth_append)
    qed (auto simp: nth_append dest!: in_shift_breaksD dest: pos1)
    show "?run (Suc (Suc 0)) m1 out" if "R1 m1 out" for m1
      using run_piece [OF c1 that emb1] jump by (cases out) auto
    show "?run (Suc (Suc 0) + nat (int (length c1) + 1)) m1 out" if "R2 m1 out" for m1
      using run_piece [OF c2 that emb2] fin by (cases out) (auto simp: nat_add_distrib algebra_simps)
    show "0 \<notin> break_positions ?bs" "Suc 0 \<notin> break_positions ?bs" by (auto dest!: in_shift_breaksD)
  qed (use fits in auto)
  ultimately show ?thesis by (simp add: code_for_def frag_ok_def)
qed

text \<open>The code of a handler is only reached by an exception.\<close>

lemma code_try:
  assumes c1: "code_for ops c1 b1 R1" and c2: "code_for ops c2 b2 R2" and small: "small (length c2)"
  shows "code_for ops (c1 @ [jump_word (int (length c2))] @ c2) (b1 @ shift_breaks (Suc (length c1)) b2) R1"
    (is "code_for ops ?prog ?bs _")
proof -
  let ?mid = "[jump_word (int (length c2))]"
  note fits = small_fits [OF small, of "int (length c2)", simplified]
  note p1 = code_for_parts(2,3) [OF c1] and p2 = code_for_parts(2,3) [OF c2]
  let ?b2 = "shift_breaks (Suc 0) b2"
  have bs: "?bs = b1 @ shift_breaks (length c1) ?b2" by simp
  have mid: "breaks_ok (?mid @ c2) ?b2" "targets ops (?mid @ c2) ?b2 \<subseteq> {0..int (length c2) + 1}"
    using breaks_ok_append [of ?mid "[]" c2 b2] p2(1) targets_append [of ?mid "[]" ops c2 b2] p2(2)
    by (auto simp: targets_jump [OF fits])
  have "breaks_ok ?prog ?bs" "targets ops ?prog ?bs \<subseteq> {0..int (length ?prog)}"
    using breaks_ok_append [OF p1(1) mid(1)] targets_append [OF p1(1), of ops "?mid @ c2" ?b2] mid(2) p1(2)
    unfolding bs by (simp, fastforce)
  moreover have "frag_run ops ?prog ?bs 0 m out" if "R1 m out" for m out
  proof -
    let ?run = "frag_run ops ?prog ?bs"
    have pos1: "lb_pos b < length c1" if "b \<in> set b1" for b using p1(1) that by (auto simp: breaks_ok_def)
    have emb1: "embedded c1 b1 0 ?prog ?bs"
      using embedded_append(1) [OF p1(1), of "?mid @ c2" ?b2] unfolding bs by simp
    have jump: "?run (length c1) m1 (Done m1)" for m1
    proof (rule run_jump)
      show "?run (Suc (length c1) + length c2) m1 (Done m1)"
        using frag_run.finish [of ops ?prog ?bs m1] by (simp add: algebra_simps)
      show "exec_OP_JUMP ?prog (length c1) = int (Suc (length c1) + length c2)"
        using fits by (subst exec_jump_word [where d = "int (length c2)"]) auto
    qed (auto simp: nth_append dest!: in_shift_breaksD dest: pos1)
    show ?thesis using run_piece [OF c1 that emb1] jump by (cases out) auto
  qed
  ultimately show ?thesis by (simp add: code_for_def frag_ok_def)
qed

section \<open>Function literals\<close>

definition func_literal :: "('v, 'w) interp_ops \<Rightarrow> u32 \<Rightarrow> ('v, 'w) behaviour" where
  "func_literal ops w m out \<longleftrightarrow>
     (case io_data ops w m of None \<Rightarrow> False
      | Some (Leave m1) \<Rightarrow> out = Left m1 | Some (Next m1) \<Rightarrow> out = Done m1)"

lemma code_function:
  assumes c: "code_for ops c [] R" and w: "has_op w OP_NEW_FUNCTION" and size: "io_func_size ops (OS_GETARG_B w) = length c"
  shows "code_for ops (w # c) [] (func_literal ops w)"
proof -
  note p = code_for_parts(3) [OF c]
  have "targets ops [w] [] = {1 + int (length c)}"
    using w size by (auto simp: targets_def jump_target_def dest: has_op_unique)
  then have "targets ops (w # c) [] \<subseteq> {0..int (length (w # c))}"
    using targets_append [of "[w]" "[]" ops c "[]"] p by auto
  moreover have "frag_run ops (w # c) [] 0 m out" if "func_literal ops w m out" for m out
  proof (cases "io_data ops w m")
    case None
    with that show ?thesis by (simp add: func_literal_def)
  next
    case (Some r)
    have not: "\<not> has_op w OP_JUMP" "\<not> is_test w" "\<not> has_op w OP_MOVE" "\<not> has_op w OP_MOVE2"
      using w by (auto simp: is_test_def is_compare_def compare_opcodes_def dest: has_op_unique)
    show ?thesis
    proof (cases r)
      case (Leave m1)
      with Some not that show ?thesis
        by (auto simp: func_literal_def exec_instr_def os_assert_def intro: frag_run.leave)
    next
      case (Next m1)
      with Some not w size have "exec_instr ops (w # c) 0 m = Some (Next (length (w # c), m1))"
        by (simp add: exec_instr_def os_assert_def)
      moreover have "settled (w # c) [] 0" by (simp add: settled_def)
      ultimately show ?thesis using that Some Next frag_run.finish [of ops "w # c" "[]" m1]
        by (auto simp: func_literal_def intro: frag_run.step)
    qed
  qed
  ultimately show ?thesis by (simp add: code_for_def frag_ok_def)
qed

section \<open>Loops\<close>

text \<open>
  A loop alternates between its body and what is done after it, up to a break; a continue goes on with
  the latter.
\<close>

inductive loop_run :: "(bool \<Rightarrow> ('v, 'w) behaviour) \<Rightarrow> bool \<Rightarrow> ('v, 'w) behaviour" for R where
  next_part: "R post m (Done m1) \<Longrightarrow> loop_run R (\<not> post) m1 out \<Longrightarrow> loop_run R post m out"
| continue_part: "R post m (Continued m1) \<Longrightarrow> loop_run R True m1 out \<Longrightarrow> loop_run R post m out"
| break_part: "R post m (Broken m1) \<Longrightarrow> loop_run R post m (Done m1)"
| leave_part: "R post m (Left m1) \<Longrightarrow> loop_run R post m (Left m1)"

definition loop :: "('v, 'w) behaviour \<Rightarrow> ('v, 'w) behaviour \<Rightarrow> ('v, 'w) behaviour" where
  "loop body post = loop_run (\<lambda>p. if p then post else body) False"

text \<open>
  \<open>k\<close> is where a continue goes: to the part after the body or, when there is no such part, to the start.
\<close>

definition loop_code :: "u32 list \<Rightarrow> LoopBreak list \<Rightarrow> u32 list \<Rightarrow> LoopBreak list \<Rightarrow> nat \<Rightarrow> u32 list" where
  "loop_code c1 b1 c2 b2 k =
     fixLoopBreaks (c1 @ c2 @ [jump_word (- int (length c1 + length c2) - 1)]) (b1 @ shift_breaks (length c1) b2)
       k (length c1 + length c2 + 1)"

lemma length_loop_code [simp]: "length (loop_code c1 b1 c2 b2 k) = Suc (length c1 + length c2)"
  by (simp add: loop_code_def)

lemma code_loop:
  assumes c1: "code_for ops c1 b1 R1" and c2: "code_for ops c2 b2 R2"
    and small: "small (Suc (length c1 + length c2))"
    and k: "k = length c1 \<or> k = 0 \<and> c2 = [] \<and> R2 = skip"
  shows "code_for ops (loop_code c1 b1 c2 b2 k) [] (loop R1 R2)"
proof -
  let ?len = "length c1 + length c2"
  let ?jb = "jump_word (- int ?len - 1)"
  let ?raw = "c1 @ c2 @ [?jb]" and ?bs = "b1 @ shift_breaks (length c1) b2"
  let ?prog = "loop_code c1 b1 c2 b2 k" and ?stop = "Suc ?len"
  let ?run = "frag_run ops ?prog []"
  let ?R = "\<lambda>p. if p then R2 else R1" and ?at = "\<lambda>p. if p then k else 0"
  have k_le: "k \<le> length c1" using k by auto
  note p1 = code_for_parts(2,3) [OF c1] and p2 = code_for_parts(2,3) [OF c2]
  have bok: "breaks_ok (c1 @ c2) ?bs" by (rule breaks_ok_append [OF p1(1) p2(1)])
  have pos: "lb_pos b < ?len" "has_op (?raw ! lb_pos b) OP_JUMP" if "b \<in> set ?bs" for b
    using bok that by (auto simp: breaks_ok_def nth_append simp del: set_append split: if_splits)
  have other: "?prog ! i = ?raw ! i" if "i \<notin> break_positions ?bs" for i
    unfolding loop_code_def by (rule fixLoopBreaks_other [OF that])
  have jumps: "exec_OP_JUMP ?prog (lb_pos b) = int (if lb_type b = LOOP_BREAK then ?stop else k)"
      "has_op (?prog ! lb_pos b) OP_JUMP" if b: "b \<in> set ?bs" for b
  proof -
    have "distinct (map lb_pos ?bs)" using bok by (simp add: breaks_ok_def)
    note one = fixLoopBreaks_one [OF this b, of ?raw k "?len + 1"]
    have "\<bar>int (loop_break_target k (?len + 1) b) - int (lb_pos b) - 1\<bar> \<le> int ?stop"
      using pos(1) [OF b] k_le by (auto simp: loop_break_target_def)
    from sBx_fits [OF small_fits [OF small this]] one pos [OF b]
    show "exec_OP_JUMP ?prog (lb_pos b) = int (if lb_type b = LOOP_BREAK then ?stop else k)"
      by (auto simp: loop_code_def exec_OP_JUMP_def loop_break_target_def)
    show "has_op (?prog ! lb_pos b) OP_JUMP" using one pos [OF b] by (simp add: loop_code_def)
  qed
  have last: "?prog ! ?len = ?jb" "exec_OP_JUMP ?prog ?len = 0"
  proof -
    have "?len \<notin> break_positions ?bs"
    proof
      assume "?len \<in> break_positions ?bs"
      then obtain b where "b \<in> set ?bs" "?len = lb_pos b" by (rule imageE)
      with pos(1) [of b] show False by simp
    qed
    from other [OF this] show *: "?prog ! ?len = ?jb" by (simp add: nth_append)
    have "jump_offset_fits (- int ?len - 1)" by (rule small_fits [OF small]) simp
    from exec_jump_word [OF this *] show "exec_OP_JUMP ?prog ?len = 0" by simp
  qed
  have emb: "embedded c1 b1 0 ?prog []" "embedded c2 b2 (length c1) ?prog []"
  proof -
    have "i \<notin> break_positions ?bs" if "i < length c1" "i \<notin> break_positions b1" for i
      using that by auto
    with other show "embedded c1 b1 0 ?prog []" by (auto simp: embedded_def nth_append)
    have "length c1 + i \<notin> break_positions ?bs" if "i \<notin> break_positions b2" for i
      using that p1(1) by (auto simp: breaks_ok_def)
    with other show "embedded c2 b2 (length c1) ?prog []" by (auto simp: embedded_def nth_append)
  qed
  have back_jump: "?run ?len m out" if "?run 0 m out" for m out
    using last by (intro run_jump [OF that]) simp_all
  have piece: "continues_as ?run (if p then c2 else c1) (if p then b2 else b1) (if p then length c1 else 0)
      (if p then length c1 else 0) m out" if "?R p m out" "p \<Longrightarrow> k = length c1" for p m out
    using that c1 c2 emb frag_run_embed [OF _ emb(1), of ops 0] frag_run_embed [OF _ emb(2), of ops 0]
    by (auto simp: code_for_def)
  have brk: "?run (lb_pos b) m (Done m)" if "b \<in> set ?bs" "lb_type b = LOOP_BREAK" for b m
  proof -
    have "?run ?stop m (Done m)" using frag_run.finish [of ops ?prog "[]" m] by simp
    from run_jump [OF this jumps(2) [OF that(1)]] jumps(1) [OF that(1)] that(2) pos(1) [OF that(1)] show ?thesis by simp
  qed
  have cont: "?run (lb_pos b) m out" if "b \<in> set ?bs" "lb_type b = LOOP_CONTINUE" "?run k m out" for b m out
    using run_jump [OF that(3) jumps(2) [OF that(1)]] jumps(1) [OF that(1)] that(2) pos(1) [OF that(1)] by simp
  have in_bs: "(if p then b2 else b1) = bs \<Longrightarrow> b \<in> set bs \<Longrightarrow>
      b\<lparr>lb_pos := (if p then length c1 else 0) + lb_pos b\<rparr> \<in> set ?bs" for p bs b
    by (auto simp: in_shift_breaks)
  have run: "?run (?at p) m out" if "loop_run ?R p m out" for p m out
    using that
  proof (induction rule: loop_run.induct)
    case (next_part p m m1 out)
    show ?case
    proof (cases "p \<and> k \<noteq> length c1")
      case True
      with k next_part show ?thesis by (auto simp: skip_def)
    next
      case False
      with piece [OF next_part.hyps(1)] next_part.IH back_jump k show ?thesis by (cases p) (auto split: if_splits)
    qed
  next
    case (continue_part p m m1 out)
    have "\<not> (p \<and> k \<noteq> length c1)" using continue_part.hyps(1) k by (auto simp: skip_def)
    with piece [OF continue_part.hyps(1)] obtain b where b: "b \<in> set (if p then b2 else b1)"
      "lb_type b = LOOP_CONTINUE" and go: "\<And>out. ?run ((if p then length c1 else 0) + lb_pos b) m1 out \<Longrightarrow> ?run (?at p) m out"
      by (cases p) auto
    from cont [OF in_bs [OF refl b(1)]] b(2) continue_part.IH go show ?case by auto
  next
    case (break_part p m m1)
    have "\<not> (p \<and> k \<noteq> length c1)" using break_part k by (auto simp: skip_def)
    with piece [OF break_part] obtain b where b: "b \<in> set (if p then b2 else b1)"
      "lb_type b = LOOP_BREAK" and go: "\<And>out. ?run ((if p then length c1 else 0) + lb_pos b) m1 out \<Longrightarrow> ?run (?at p) m out"
      by (cases p) auto
    from brk [OF in_bs [OF refl b(1)]] b(2) go show ?case by auto
  next
    case (leave_part p m m1)
    have "\<not> (p \<and> k \<noteq> length c1)" using leave_part k by (auto simp: skip_def)
    with piece [OF leave_part] show ?case by (cases p) auto
  qed
  have "targets ops ?prog [] \<subseteq> {0..int (length ?prog)}"
  proof
    fix t
    assume "t \<in> targets ops ?prog []"
    then obtain i where i: "i < ?stop" "jump_target ops ?prog i = Some t" by (auto simp: targets_def)
    show "t \<in> {0..int (length ?prog)}"
    proof (cases "i \<in> break_positions ?bs")
      case True
      then obtain b where "b \<in> set ?bs" "i = lb_pos b" by blast
      with jumps [of b] i k_le show ?thesis by (auto simp: jump_target_def split: if_splits)
    next
      case False
      show ?thesis
      proof (cases "i = ?len")
        case True
        with last i show ?thesis by (auto simp: jump_target_def)
      next
        case False
        with i \<open>i \<notin> break_positions ?bs\<close> have "i < ?len" "?prog ! i = (c1 @ c2) ! i"
          using other by (auto simp: nth_append)
        with i(2) have "jump_target ops (c1 @ c2) i = Some t" by (metis jump_target_cong)
        with \<open>i < ?len\<close> \<open>i \<notin> break_positions ?bs\<close> have "t \<in> targets ops (c1 @ c2) ?bs"
          unfolding targets_def by auto
        with frag_ok_append [OF code_for_parts(1) [OF c1] code_for_parts(1) [OF c2]] show ?thesis
          by (auto simp: frag_ok_def)
      qed
    qed
  qed
  with run [of False] show ?thesis by (auto simp: code_for_def frag_ok_def loop_def)
qed

end
