(* ===== verification/CodeEval.thy ===== *)
theory CodeEval
  imports CodeShapes
begin

text \<open>
  The meaning of an expression tree, as a relation between machines and outcomes defined by recursion on
  the tree, without code and jumps; and the conditions on trees under which the code generator is
  proved correct: the links between the scopes, and \<open>safe\<close>, which excludes the trees that the fusion
  of moves compiles wrongly.
\<close>

section \<open>Meaning\<close>

definition with_word :: "u32 option \<Rightarrow> (u32 \<Rightarrow> ('v, 'w) behaviour) \<Rightarrow> ('v, 'w) behaviour" where
  "with_word w f = (case w of None \<Rightarrow> (\<lambda>m out. False) | Some w \<Rightarrow> f w)"

definition function_word :: "(addr \<Rightarrow> int) \<Rightarrow> expression \<Rightarrow> u32 option" where
  "function_word index e =
     Option.bind (exp_scope e) (\<lambda>a. word_ABC OP_NEW_FUNCTION (slot_A e) (index a) 0)"

definition if_word :: "expression \<Rightarrow> u32 option" where
  "if_word e = word_ABC (fst (if_opcode e)) (slot_A e) (of_bool (snd (if_opcode e))) 1"

definition logic_word :: "expression \<Rightarrow> u32 option" where
  "logic_word e = word_ABC OP_LOGIC_BOOL (slot_A e) (of_bool (exp_type e = EXP_TYPE_LOGIC_OR)) 1"

definition breaks :: "expression \<Rightarrow> ('v, 'w) behaviour" where
  "breaks e m out \<longleftrightarrow> out = (if exp_type e = EXP_TYPE_BREAK then Broken m else Continued m)"

text \<open>
  \<open>index\<close> is the number of a function in the program.  The branches of a \<open>switch\<close> are gotos and have no
  meaning here; a handler has none because exceptions leave the piece.
\<close>

function eval :: "('v, 'w) interp_ops \<Rightarrow> (addr \<Rightarrow> int) \<Rightarrow> expression \<Rightarrow> ('v, 'w) behaviour"
  and evals :: "('v, 'w) interp_ops \<Rightarrow> (addr \<Rightarrow> int) \<Rightarrow> expression list \<Rightarrow> ('v, 'w) behaviour" where
  "eval ops index e =
     (case exp_kind (exp_type e) of
        KList \<Rightarrow> evals ops index (exp_list e)
      | KScope \<Rightarrow> evals ops index (exp_list e)
      | KFunction \<Rightarrow> with_word (function_word index e) (func_literal ops)
      | KLoop \<Rightarrow> loop (evals ops index (exp_list e)) skip
      | KForLoop \<Rightarrow> loop (evals ops index (butlast (exp_list e)))
          (evals ops index (drop (length (exp_list e) - 1) (exp_list e)))
      | KIf \<Rightarrow>
          (case exp_list e of
             e0 # e1 # rest \<Rightarrow>
               seq (if exp_kind (exp_type e0) = KCompare \<or> exp_kind (exp_type e0) = KBool
                    then evals ops index (exp_list e0) else eval ops index e0)
                 (with_word (if_word e0) (\<lambda>w. branch ops w (eval ops index e1)
                   (case rest of [] \<Rightarrow> skip | e2 # _ \<Rightarrow> eval ops index e2)))
           | _ \<Rightarrow> (\<lambda>m out. False))
      | KTry \<Rightarrow> (case exp_list e of [e0, e1] \<Rightarrow> eval ops index e0 | _ \<Rightarrow> (\<lambda>m out. False))
      | KLogic \<Rightarrow>
          (case exp_list e of
             [e0, e1] \<Rightarrow> seq (eval ops index e0) (with_word (logic_word e) (\<lambda>w. branch ops w (eval ops index e1) skip))
           | _ \<Rightarrow> (\<lambda>m out. False))
      | KContainer \<Rightarrow> seq (with_word (own_word e) (one_instr ops)) (evals ops index (exp_list e))
      | KBreak \<Rightarrow> breaks e
      | KSwitch \<Rightarrow> (\<lambda>m out. False)
      | KCase \<Rightarrow> (\<lambda>m out. False)
      | KCaseJump \<Rightarrow> (\<lambda>m out. False)
      | _ \<Rightarrow> seq (evals ops index (exp_list e)) (with_word (own_word e) (one_instr ops)))"
| "evals ops index [] = skip"
| "evals ops index (e # es) = seq (eval ops index e) (evals ops index es)"
  by pat_completeness auto
termination
proof (relation "measure (\<lambda>x. case x of Inl (ops, index, e) \<Rightarrow> size e | Inr (ops, index, es) \<Rightarrow> size_list size es)")
qed (use size_exp_elements(2) in \<open>auto simp: size_exp_rules dest: size_exp_elements\<close>)

declare eval.simps [simp del]

section \<open>Conditions\<close>

text \<open>Slots of moves with which the code of an expression may end.\<close>

fun last_slots :: "expression \<Rightarrow> int list" where
  "last_slots (Expression t tok es v r sl sc) =
     (case exp_kind t of
        KList \<Rightarrow> concat (map last_slots es)
      | KScope \<Rightarrow> concat (map last_slots es)
      | KContainer \<Rightarrow> concat (map last_slots es)
      | KTry \<Rightarrow> (case es of [e0, e1] \<Rightarrow> last_slots e1 | _ \<Rightarrow> [])
      | KLogic \<Rightarrow> (case es of [e0, e1] \<Rightarrow> last_slots e1 | _ \<Rightarrow> [])
      | KOperator \<Rightarrow> (if t = EXP_TYPE_MOVE then [slot_a sl] else [])
      | _ \<Rightarrow> [])"

text \<open>The same for expressions whose end is the target of a jump that the peephole does not know.\<close>

fun join_slots :: "expression \<Rightarrow> int list" where
  "join_slots (Expression t tok es v r sl sc) =
     (case exp_kind t of
        KList \<Rightarrow> concat (map join_slots es)
      | KScope \<Rightarrow> concat (map join_slots es)
      | KContainer \<Rightarrow> concat (map join_slots es)
      | KTry \<Rightarrow> (case es of [e0, e1] \<Rightarrow> last_slots e1 | _ \<Rightarrow> [])
      | KLogic \<Rightarrow> (case es of [e0, e1] \<Rightarrow> last_slots e1 | _ \<Rightarrow> [])
      | _ \<Rightarrow> [])"

text \<open>Whether the code may end with two moves that fit into one instruction.\<close>

fun ends_fusible :: "expression \<Rightarrow> bool" where
  "ends_fusible (Expression t tok es v r sl sc) =
     (case exp_kind t of
        KList \<Rightarrow> list_ex ends_fusible es
      | KScope \<Rightarrow> list_ex ends_fusible es
      | KContainer \<Rightarrow> list_ex ends_fusible es
      | KTry \<Rightarrow> (case es of [e0, e1] \<Rightarrow> ends_fusible e1 | _ \<Rightarrow> False)
      | KLogic \<Rightarrow> (case es of [e0, e1] \<Rightarrow> ends_fusible e1 | _ \<Rightarrow> False)
      | KOperator \<Rightarrow> t = EXP_TYPE_MOVE \<and> slot_a sl - 1 \<in> set (concat (map last_slots es))
      | _ \<Rightarrow> False)"

text \<open>
  No jump leads between or behind two moves that are fused: a move is not fused with one before which
  paths meet, and the second operand of \<open>&&\<close> and \<open>||\<close> does not end with such a pair.
\<close>

fun safe :: "expression \<Rightarrow> bool" where
  "safe (Expression t tok es v r sl sc) \<longleftrightarrow>
     list_all safe es \<and>
     (case exp_kind t of
        KOperator \<Rightarrow> t = EXP_TYPE_MOVE \<longrightarrow> slot_a sl - 1 \<notin> set (concat (map join_slots es))
      | KTry \<Rightarrow> \<not> ends_fusible (last es)
      | KLogic \<Rightarrow> \<not> ends_fusible (last es)
      | KSwitch \<Rightarrow> False
      | KCase \<Rightarrow> False
      | KCaseJump \<Rightarrow> False
      | _ \<Rightarrow> True)"

definition has_scope :: "ExpressionType \<Rightarrow> bool" where
  "has_scope t \<longleftrightarrow> exp_kind t \<in> {KFunction, KScope, KLoop, KForLoop}"

fun scope_addrs :: "expression \<Rightarrow> addr list" where
  "scope_addrs (Expression t tok es v r sl sc) =
     (if has_scope t then (case sc of None \<Rightarrow> [] | Some a \<Rightarrow> [a]) else []) @ concat (map scope_addrs es)"

text \<open>The scopes of the tree are new, have their parents, and no breaks yet.\<close>

fun scopes_ok :: "(addr \<Rightarrow> comp_scope) \<Rightarrow> addr \<Rightarrow> expression \<Rightarrow> bool" where
  "scopes_ok scs scope (Expression t tok es v r sl sc) \<longleftrightarrow>
     (if has_scope t
      then (case sc of None \<Rightarrow> False
            | Some a \<Rightarrow> sc_type (scs a) = t \<and> sc_parent (scs a) = Some scope \<and> sc_loop_breaks (scs a) = []
                \<and> list_all (scopes_ok scs a) es)
      else list_all (scopes_ok scs scope) es)"

text \<open>The function literals have the sizes that the compiler has recorded.\<close>

definition sizes_ok :: "('v, 'w) interp_ops \<Rightarrow> (addr \<Rightarrow> comp_scope) \<Rightarrow> addr set \<Rightarrow> bool" where
  "sizes_ok ops scs as \<longleftrightarrow>
     (\<forall>a \<in> as. sc_type (scs a) = EXP_TYPE_FUNCTION \<longrightarrow>
        io_func_size ops (nat (sc_prog_func_index (scs a))) = nat (fs_opcodes_size (sc_func (scs a))))"

text \<open>The conditions by the parts of an expression.\<close>

lemma last_slots_eq:
  "last_slots e =
     (case exp_kind (exp_type e) of
        KList \<Rightarrow> concat (map last_slots (exp_list e))
      | KScope \<Rightarrow> concat (map last_slots (exp_list e))
      | KContainer \<Rightarrow> concat (map last_slots (exp_list e))
      | KTry \<Rightarrow> (case exp_list e of [e0, e1] \<Rightarrow> last_slots e1 | _ \<Rightarrow> [])
      | KLogic \<Rightarrow> (case exp_list e of [e0, e1] \<Rightarrow> last_slots e1 | _ \<Rightarrow> [])
      | KOperator \<Rightarrow> (if exp_type e = EXP_TYPE_MOVE then [slot_A e] else [])
      | _ \<Rightarrow> [])"
  by (cases e) (simp only: last_slots.simps expression.sel)

lemma join_slots_eq:
  "join_slots e =
     (case exp_kind (exp_type e) of
        KList \<Rightarrow> concat (map join_slots (exp_list e))
      | KScope \<Rightarrow> concat (map join_slots (exp_list e))
      | KContainer \<Rightarrow> concat (map join_slots (exp_list e))
      | KTry \<Rightarrow> (case exp_list e of [e0, e1] \<Rightarrow> last_slots e1 | _ \<Rightarrow> [])
      | KLogic \<Rightarrow> (case exp_list e of [e0, e1] \<Rightarrow> last_slots e1 | _ \<Rightarrow> [])
      | _ \<Rightarrow> [])"
  by (cases e) (simp only: join_slots.simps expression.sel)

lemma ends_fusible_eq:
  "ends_fusible e =
     (case exp_kind (exp_type e) of
        KList \<Rightarrow> list_ex ends_fusible (exp_list e)
      | KScope \<Rightarrow> list_ex ends_fusible (exp_list e)
      | KContainer \<Rightarrow> list_ex ends_fusible (exp_list e)
      | KTry \<Rightarrow> (case exp_list e of [e0, e1] \<Rightarrow> ends_fusible e1 | _ \<Rightarrow> False)
      | KLogic \<Rightarrow> (case exp_list e of [e0, e1] \<Rightarrow> ends_fusible e1 | _ \<Rightarrow> False)
      | KOperator \<Rightarrow> exp_type e = EXP_TYPE_MOVE \<and> slot_A e - 1 \<in> set (concat (map last_slots (exp_list e)))
      | _ \<Rightarrow> False)"
  by (cases e) (simp only: ends_fusible.simps expression.sel)

lemma safe_eq:
  "safe e \<longleftrightarrow>
     list_all safe (exp_list e) \<and>
     (case exp_kind (exp_type e) of
        KOperator \<Rightarrow> exp_type e = EXP_TYPE_MOVE \<longrightarrow> slot_A e - 1 \<notin> set (concat (map join_slots (exp_list e)))
      | KTry \<Rightarrow> \<not> ends_fusible (last (exp_list e))
      | KLogic \<Rightarrow> \<not> ends_fusible (last (exp_list e))
      | KSwitch \<Rightarrow> False
      | KCase \<Rightarrow> False
      | KCaseJump \<Rightarrow> False
      | _ \<Rightarrow> True)"
  by (cases e) (simp only: safe.simps expression.sel)

lemma scope_addrs_eq:
  "scope_addrs e = (if has_scope (exp_type e) then (case exp_scope e of None \<Rightarrow> [] | Some a \<Rightarrow> [a]) else [])
     @ concat (map scope_addrs (exp_list e))"
  by (cases e) (simp only: scope_addrs.simps expression.sel)

lemma scopes_ok_eq:
  "scopes_ok scs scope e \<longleftrightarrow>
     (if has_scope (exp_type e)
      then (case exp_scope e of None \<Rightarrow> False
            | Some a \<Rightarrow> sc_type (scs a) = exp_type e \<and> sc_parent (scs a) = Some scope \<and> sc_loop_breaks (scs a) = []
                \<and> list_all (scopes_ok scs a) (exp_list e))
      else list_all (scopes_ok scs scope) (exp_list e))"
  by (cases e) (simp only: scopes_ok.simps expression.sel)

end
