(* ===== verification/CodeTail.thy ===== *)
theory CodeTail
  imports CodeEval
begin

text \<open>
  What the peephole may find at the end of the code that has been written: \<open>tail_ok\<close> describes the last
  instructions of a piece by the slots of \<open>CodeEval\<close>, and the rules say how each shape keeps it.  The
  main result is that the fusion at the end of a list element keeps the meaning of the code.
\<close>

text \<open>
  \<open>p\<close> is the position of the piece in the program, \<open>offs\<close> is \<open>prog_optimize_offs\<close>: only what lies behind it
  may be fused; \<open>T\<close> are the targets of the jumps of the piece.
\<close>

definition tail_ok :: "int list \<Rightarrow> int list \<Rightarrow> bool \<Rightarrow> u32 list \<Rightarrow> int set \<Rightarrow> nat \<Rightarrow> nat \<Rightarrow> bool" where
  "tail_ok lasts joins pair code T p offs \<longleftrightarrow>
     offs \<le> p + length code
     \<and> (offs < p + length code \<longrightarrow> code \<noteq> [])
     \<and> (offs < p + length code \<and> has_op (last code) OP_MOVE \<longrightarrow>
          int (OS_GETARG_A (last code)) \<in> set lasts
          \<and> (int (length code) \<in> T \<longrightarrow> int (OS_GETARG_A (last code)) \<in> set joins)
          \<and> (offs + 2 \<le> p + length code \<longrightarrow> 2 \<le> length code
              \<and> (fusible (code ! (length code - 2)) (last code) \<longrightarrow>
                   pair \<and> int (length code) - 1 \<notin> T \<and> int (length code) \<notin> T)))"

lemma tail_ok_le: "tail_ok L J P code T p offs \<Longrightarrow> offs \<le> p + length code"
  by (simp add: tail_ok_def)

lemma tail_ok_here: "tail_ok L J P code T p (p + length code)"
  by (simp add: tail_ok_def)

lemma tail_ok_mono:
  "tail_ok L J P code T p offs \<Longrightarrow> set L \<subseteq> set L' \<Longrightarrow> set J \<subseteq> set J' \<Longrightarrow> (P \<Longrightarrow> P') \<Longrightarrow> tail_ok L' J' P' code T p offs"
  unfolding tail_ok_def by blast

lemma tail_ok_other:
  "\<not> has_op w OP_MOVE \<Longrightarrow> offs \<le> p + Suc (length code) \<Longrightarrow> tail_ok L J P (code @ [w]) T p offs"
  by (simp add: tail_ok_def)

lemma last_two_append: "2 \<le> length vs \<Longrightarrow> (us @ vs) ! (length (us @ vs) - 2) = vs ! (length vs - 2)"
proof -
  assume "2 \<le> length vs"
  then have "length (us @ vs) - 2 = length us + (length vs - 2)" by simp
  then show ?thesis by (metis nth_append_length_plus)
qed

lemma tail_ok_append:
  assumes c2: "tail_ok L J P c2 T2 (p + length c1) offs" and T: "\<And>n. 0 < n \<Longrightarrow> int (length c1) + n \<in> T \<Longrightarrow> n \<in> T2"
  shows "tail_ok L J P (c1 @ c2) T p offs"
proof (cases "offs < p + length c1 + length c2")
  case True
  then have ne: "c2 \<noteq> []" using c2 by (auto simp: tail_ok_def)
  then have t: "int (length c1 + length c2) \<in> T \<longrightarrow> int (length c2) \<in> T2" using T [of "int (length c2)"] by simp
  have t2: "int (length c1 + length c2) - 1 \<in> T \<longrightarrow> int (length c2) - 1 \<in> T2" if "2 \<le> length c2"
    using T [of "int (length c2) - 1"] that by (simp add: algebra_simps)
  show ?thesis
    using c2 ne t t2 last_two_append [of c2 c1] unfolding tail_ok_def by (auto simp: add.assoc)
next
  case False
  with c2 show ?thesis by (simp add: tail_ok_def add.assoc)
qed

text \<open>Where paths meet behind the piece, only its last slots are known.\<close>

lemma tail_ok_join:
  assumes "tail_ok L J False c2 T2 (p + length pre) offs"
  shows "tail_ok L L P (pre @ c2) T p offs"
proof (cases "offs < p + length pre + length c2")
  case True
  with assms have "c2 \<noteq> []" by (simp add: tail_ok_def)
  with assms last_two_append [of c2 pre] show ?thesis
    unfolding tail_ok_def by (auto simp: add.assoc)
next
  case False
  with assms show ?thesis by (simp add: tail_ok_def add.assoc)
qed

lemma targets_snoc:
  assumes "frag_ok ops c bs" "plain w"
  shows "targets ops (c @ [w]) bs = targets ops c bs"
  using targets_append [of c bs ops "[w]" "[]"] assms by (simp add: frag_ok_def code_for_one(2))

lemma tail_ok_MOVE:
  assumes T: "T \<subseteq> {0..int (length c)}" and t: "tail_ok L J P c T p offs"
    and w: "int (OS_GETARG_A w) = a" and safe: "a - 1 \<notin> set J"
  shows "tail_ok [a] [] (a - 1 \<in> set L) (c @ [w]) T p offs"
proof -
  have behind: "int (length (c @ [w])) \<notin> T" using T by auto
  have pair: "2 \<le> length (c @ [w]) \<and> (fusible ((c @ [w]) ! (length (c @ [w]) - 2)) w \<longrightarrow>
      a - 1 \<in> set L \<and> int (length (c @ [w])) - 1 \<notin> T)" if "offs < p + length c"
  proof -
    have "c \<noteq> []" using t that by (simp add: tail_ok_def)
    then have nth: "(c @ [w]) ! (length (c @ [w]) - 2) = last c" by (simp add: nth_append last_conv_nth)
    have "a - 1 \<in> set L \<and> int (length c) \<notin> T" if f: "fusible (last c) w"
    proof -
      have "has_op (last c) OP_MOVE" "a - 1 = int (OS_GETARG_A (last c))" using f w by (simp_all add: fusible_def)
      with t \<open>offs < p + length c\<close> safe show ?thesis by (simp add: tail_ok_def)
    qed
    with nth \<open>c \<noteq> []\<close> show ?thesis by (simp add: Suc_le_eq)
  qed
  have "offs \<le> p + length c" by (rule tail_ok_le [OF t])
  with behind pair w show ?thesis unfolding tail_ok_def by simp
qed

section \<open>Fusion\<close>

lemma fuse_last_moves_cases:
  "fuse_last_moves prog offs = (prog, offs)
   \<or> (\<exists>us prev cur. prog = us @ [prev, cur] \<and> offs + 2 \<le> length prog \<and> fusible prev cur
        \<and> fuse_last_moves prog offs = (us @ [move2_of prev cur], Suc (length us)))"
proof (cases "offs + 2 \<le> length prog")
  case True
  define prev cur where "prev = prog ! (length prog - 2)" and "cur = prog ! (length prog - 1)"
  have prog: "prog = take (length prog - 2) prog @ [prev, cur]"
    using True split_last_two [of prog] by (simp add: prev_def cur_def)
  have "fuse_last_moves prog offs = (prog, offs) \<or> fusible prev cur
      \<and> fuse_last_moves prog offs = (take (length prog - 2) prog @ [move2_of prev cur], length prog - 1)"
    using True unfolding fuse_last_moves_def Let_def prev_def [symmetric] cur_def [symmetric]
    by (auto simp: fusible_def has_op_def)
  moreover have "length prog - 1 = Suc (length (take (length prog - 2) prog))" using True by simp
  ultimately show ?thesis using prog True by metis
qed (simp add: fuse_last_moves_def)

lemma fusible_not_jump: "fusible prev cur \<Longrightarrow> \<not> has_op prev OP_JUMP \<and> \<not> has_op cur OP_JUMP
    \<and> \<not> has_op prev OP_NEW_FUNCTION \<and> \<not> has_op cur OP_NEW_FUNCTION"
  by (auto simp: fusible_def dest: has_op_unique)

lemma has_op_move2_of [simp]: "has_op (move2_of prev cur) p \<longleftrightarrow> p = OP_MOVE2"
  unfolding has_op_def opcode_type_move2_of opcode_word_inj by auto

lemma fused_breaks_ok:
  assumes ok: "breaks_ok (us @ [prev, cur]) bs" and f: "fusible prev cur"
  shows "breaks_ok (us @ [move2_of prev cur]) bs"
proof -
  let ?old = "us @ [prev, cur]" and ?new = "us @ [move2_of prev cur]"
  have pos: "lb_pos b < length us \<and> has_op (us ! lb_pos b) OP_JUMP" if "b \<in> set bs" for b
  proof -
    have b: "lb_pos b < Suc (Suc (length us))" "has_op (?old ! lb_pos b) OP_JUMP"
      using ok that by (auto simp: breaks_ok_def)
    then have "lb_pos b \<noteq> length us" "lb_pos b \<noteq> Suc (length us)"
      using fusible_not_jump [OF f] by (auto simp: nth_append)
    with b show ?thesis by (simp add: nth_append)
  qed
  have "\<forall>b \<in> set bs. lb_pos b < length ?new \<and> has_op (?new ! lb_pos b) OP_JUMP"
    using pos by (simp add: nth_append less_SucI)
  then show ?thesis using ok by (simp add: breaks_ok_def)
qed

lemma fused_frag_ok:
  assumes ok: "frag_ok ops (us @ [prev, cur]) bs" and f: "fusible prev cur"
    and t: "int (length us + 2) \<notin> targets ops (us @ [prev, cur]) bs"
  shows "frag_ok ops (us @ [move2_of prev cur]) bs"
proof -
  let ?old = "us @ [prev, cur]" and ?new = "us @ [move2_of prev cur]"
  have "breaks_ok ?new bs" using ok f by (auto simp: frag_ok_def intro: fused_breaks_ok)
  moreover have sub: "u \<in> targets ops ?old bs" if "u \<in> targets ops ?new bs" for u
  proof -
    from that obtain i where i: "i < Suc (length us)" "i \<notin> break_positions bs" "jump_target ops ?new i = Some u"
      by (auto simp: targets_def)
    from i(1,3) have "i < length us" by (cases "i = length us") (simp_all add: jump_target_def nth_append)
    moreover from this i(3) have "jump_target ops ?old i = Some u" by (simp add: jump_target_append)
    ultimately show ?thesis using i(2) by (auto simp: targets_def intro!: exI [of _ i])
  qed
  moreover have "0 \<le> u \<and> u \<le> int (length us) + 1" if "u \<in> targets ops ?old bs" for u
  proof -
    have "u \<in> {0..int (length us + 2)}" "u \<noteq> int (length us + 2)" using ok t that by (auto simp: frag_ok_def)
    then show ?thesis by simp
  qed
  ultimately show ?thesis by (fastforce simp: frag_ok_def)
qed

lemma code_for_fuse:
  assumes c: "code_for ops (us @ [prev, cur]) bs R" and f: "fusible prev cur"
    and t: "int (length us + 1) \<notin> targets ops (us @ [prev, cur]) bs" "int (length us + 2) \<notin> targets ops (us @ [prev, cur]) bs"
  shows "code_for ops (us @ [move2_of prev cur]) bs R"
  using c frag_run_fuse [OF _ refl _ f code_for_parts(1) [OF c] t] fused_frag_ok [OF code_for_parts(1) [OF c] f t(2)]
  by (simp add: code_for_def)

end
