(* ===== verification/CodeWritten.thy ===== *)
theory CodeWritten
  imports CodeTail
begin

text \<open>
  What the parts of the code generator change: \<open>written\<close> says which instructions and breaks a call has
  added and that it has left alone the rest of the program and the scopes of other expressions, \<open>quiet\<close>
  that it has written no code at all.
\<close>

section \<open>Frames\<close>

abbreviation code_len :: "compiler \<Rightarrow> nat" where
  "code_len s \<equiv> length (prog_opcodes s)"

definition same_links :: "compiler \<Rightarrow> compiler \<Rightarrow> bool" where
  "same_links s s' \<longleftrightarrow> (\<forall>a. sc_type (scopes s' a) = sc_type (scopes s a)
     \<and> sc_parent (scopes s' a) = sc_parent (scopes s a)
     \<and> sc_prog_func_index (scopes s' a) = sc_prog_func_index (scopes s a))"

definition same_extent :: "compiler \<Rightarrow> compiler \<Rightarrow> addr \<Rightarrow> bool" where
  "same_extent s s' a \<longleftrightarrow>
     fs_opcodes_size (sc_func (scopes s' a)) = fs_opcodes_size (sc_func (scopes s a))
     \<and> fs_opcodes_pos (sc_func (scopes s' a)) = fs_opcodes_pos (sc_func (scopes s a))"

text \<open>\<open>tg\<close> is the loop that breaks belong to, \<open>as\<close> are the scopes of the expression that is written.\<close>

definition written :: "addr option \<Rightarrow> addr set \<Rightarrow> compiler \<Rightarrow> u32 list \<Rightarrow> LoopBreak list \<Rightarrow> compiler \<Rightarrow> bool" where
  "written tg as s code bs s' \<longleftrightarrow>
     prog_opcodes s' = prog_opcodes s @ code \<and> (tg = None \<longrightarrow> bs = []) \<and> same_links s s'
     \<and> (\<forall>a. a \<notin> as \<longrightarrow> same_extent s s' a
          \<and> sc_loop_breaks (scopes s' a) = sc_loop_breaks (scopes s a)
              @ (if tg = Some a then shift_breaks (code_len s) bs else []))"

definition quiet :: "compiler \<Rightarrow> compiler \<Rightarrow> bool" where
  "quiet s s' \<longleftrightarrow> prog_opcodes s' = prog_opcodes s \<and> prog_optimize_offs s' = prog_optimize_offs s \<and> same_links s s'
     \<and> (\<forall>a. same_extent s s' a \<and> sc_loop_breaks (scopes s' a) = sc_loop_breaks (scopes s a))"

lemma same_links_simps: "same_links s s' \<Longrightarrow> sc_type (scopes s' a) = sc_type (scopes s a)"
    "same_links s s' \<Longrightarrow> sc_parent (scopes s' a) = sc_parent (scopes s a)"
    "same_links s s' \<Longrightarrow> sc_prog_func_index (scopes s' a) = sc_prog_func_index (scopes s a)"
  by (simp_all add: same_links_def)

lemma same_links_trans: "same_links s1 s2 \<Longrightarrow> same_links s2 s3 \<Longrightarrow> same_links s1 s3"
  by (simp add: same_links_def)

lemma written_Nil: "written tg as s [] [] s"
  by (simp add: written_def same_links_def same_extent_def)

lemma quiet_refl: "quiet s s"
  by (simp add: quiet_def same_links_def same_extent_def)

lemma quiet_trans: "quiet s1 s2 \<Longrightarrow> quiet s2 s3 \<Longrightarrow> quiet s1 s3"
  by (simp add: quiet_def same_links_def same_extent_def)

lemma written_quiet: "written tg as s code bs s1 \<Longrightarrow> quiet s1 s2 \<Longrightarrow> written tg as s code bs s2"
  by (simp add: written_def quiet_def same_links_def same_extent_def)

lemma quiet_written: "quiet s s1 \<Longrightarrow> written tg as s1 code bs s2 \<Longrightarrow> written tg as s code bs s2"
  by (simp add: written_def quiet_def same_links_def same_extent_def)

lemma written_optimize [simp]: "written tg as (optimize_from_here s) code bs s' \<longleftrightarrow> written tg as s code bs s'"
    "written tg as s code bs (optimize_from_here s') \<longleftrightarrow> written tg as s code bs s'"
  by (simp_all add: written_def optimize_from_here_def same_links_def same_extent_def)

lemma optimize_simps [simp]: "prog_opcodes (optimize_from_here s) = prog_opcodes s"
    "prog_optimize_offs (optimize_from_here s) = code_len s" "scopes (optimize_from_here s) = scopes s"
  by (simp_all add: optimize_from_here_def getOpcodePos_def)

lemma written_mono: "written tg as s code bs s' \<Longrightarrow> as \<subseteq> as' \<Longrightarrow> written tg as' s code bs s'"
  by (auto simp: written_def)

lemma written_trans:
  assumes "written tg as s c1 b1 s1" "written tg as s1 c2 b2 s2"
  shows "written tg as s (c1 @ c2) (b1 @ shift_breaks (length c1) b2) s2"
  using assms by (simp add: written_def same_links_def same_extent_def)

lemma written_len: "written tg as s code bs s' \<Longrightarrow> code_len s' = code_len s + length code"
  by (simp add: written_def)

lemma written_links: "written tg as s code bs s' \<Longrightarrow> same_links s s'"
  by (simp add: written_def)

text \<open>The loop that catches the breaks is done with them.\<close>

lemma written_inner:
  assumes "written (Some a) as s code bs s1"
    and "prog_opcodes s2 = prog_opcodes s @ code'" "scopes s2 = scopes s1"
  shows "written tg (insert a as) s code' [] s2"
  using assms by (auto simp: written_def same_links_def same_extent_def)

section \<open>Parts that write no code\<close>

lemma quiet_scopes:
  assumes "prog_opcodes s' = prog_opcodes s" "prog_optimize_offs s' = prog_optimize_offs s" "scopes s' = scopes s"
  shows "quiet s s'"
  using assms by (simp add: quiet_def same_links_def same_extent_def)

lemma quiet_set_func:
  assumes "\<And>f. fs_opcodes_size (g f) = fs_opcodes_size f" "\<And>f. fs_opcodes_pos (g f) = fs_opcodes_pos f"
  shows "quiet s (set_func a g s)"
  using assms by (simp add: quiet_def same_links_def same_extent_def)

lemma quiet_debug: "writeDebugInfo e s = Some s' \<Longrightarrow> quiet s s'"
  by (auto simp: writeDebugInfo_def Let_def os_assert_def intro!: quiet_scopes split: if_splits)

lemma quiet_cacheString: "quiet s (snd (cacheString str s))"
  by (auto simp: cacheString_def intro: quiet_scopes)

lemma quiet_locals: "compile_locals f start vars s = Some s' \<Longrightarrow> quiet s s'"
proof (induction vars arbitrary: s)
  case Nil
  then show ?case by (simp add: quiet_refl)
next
  case (Cons var vars)
  obtain n s1 where c: "cacheString (sl_name var) s = (n, s1)" by fastforce
  have q: "quiet s s1" using quiet_cacheString [of s "sl_name var"] c by simp
  from Cons.prems c obtain g where g: "\<And>f. fs_opcodes_size (g f) = fs_opcodes_size f"
      "\<And>f. fs_opcodes_pos (g f) = fs_opcodes_pos f"
    and rest: "compile_locals f start vars (set_func f g s1) = Some s'"
    by (auto simp: os_assert_def split: if_splits
        intro!: that [of "\<lambda>f. f\<lparr>fs_locals_compiled := (fs_locals_compiled f)[sl_index var := _]\<rparr>"])
  from quiet_trans [OF q quiet_trans [OF quiet_set_func [OF g] Cons.IH [OF rest]]] show ?case .
qed

lemma quiet_reserve: "quiet s (reserve_locals a s)"
  unfolding reserve_locals_def by (rule quiet_set_func) simp_all

lemma quiet_try: "addTryBlock f start stop e s = Some s' \<Longrightarrow> quiet s s'"
  by (auto simp: addTryBlock_def os_assert_def Let_def intro!: quiet_set_func split: if_splits)

section \<open>Writing single instructions\<close>

lemma put_opcode_simps: "put_opcode w s = s\<lparr>prog_opcodes := prog_opcodes s @ [w]\<rparr>"
  by (simp add: put_opcode_def writeOpcode_def)

lemma put_jump_opcode: "put_jump d s = put_opcode (jump_word (d + 1)) s"
  by (simp add: put_jump_def put_opcode_def writeJumpOpcode_def jump_word_def)

lemma put_type_opcode: "put_type p s = put_opcode (of_nat (opcode_index p)) s"
  by (simp add: put_type_def put_opcode_def writeOpcodeType_def)

lemma put_offs [simp]: "prog_optimize_offs (put_opcode w s) = prog_optimize_offs s"
    "prog_optimize_offs (put_type p s) = prog_optimize_offs s"
    "prog_optimize_offs (put_jump d s) = prog_optimize_offs s"
    "scopes (put_opcode w s) = scopes s" "scopes (put_type p s) = scopes s" "scopes (put_jump d s) = scopes s"
  by (simp_all add: put_jump_opcode put_type_opcode put_opcode_simps)

lemma put_code [simp]: "prog_opcodes (put_opcode w s) = prog_opcodes s @ [w]"
    "prog_opcodes (put_type p s) = prog_opcodes s @ [of_nat (opcode_index p)]"
    "prog_opcodes (put_jump d s) = prog_opcodes s @ [jump_word (d + 1)]"
  by (simp_all add: put_jump_opcode put_type_opcode put_opcode_simps)

lemma written_put: "written tg as s [w] [] (put_opcode w s)"
    "written tg as s [of_nat (opcode_index p)] [] (put_type p s)"
    "written tg as s [jump_word (d + 1)] [] (put_jump d s)"
  by (simp_all add: written_def same_links_def same_extent_def)

lemma put_ABC_Some: "put_ABC p a b c s = Some s' \<longleftrightarrow> (\<exists>w. word_ABC p a b c = Some w \<and> s' = put_opcode w s)"
  by (auto simp: put_ABC_def)

text \<open>Patching a jump inside the code that has been written.\<close>

lemma fix_jump_written:
  assumes "written tg as s code bs s1" "fix_jump offs (code_len s + k) s1 = Some s2"
  shows "written tg as s (code[k := OS_SETARG_sBx (code ! k) offs]) bs s2
    \<and> prog_optimize_offs s2 = prog_optimize_offs s1 \<and> k < length code"
proof -
  have p: "prog_opcodes s1 = prog_opcodes s @ code" using assms(1) by (simp add: written_def)
  have k: "k < length code" and s2: "s2 = s1\<lparr>prog_opcodes := fixJumpOpcode (prog_opcodes s1) offs (code_len s + k)\<rparr>"
    using assms(2) p by (auto simp: fix_jump_def os_assert_def split: if_splits)
  have "prog_opcodes s2 = prog_opcodes s @ code[k := OS_SETARG_sBx (code ! k) offs]"
    using k p s2 by (simp add: fixJumpOpcode_def list_update_append nth_append)
  with assms(1) s2 k show ?thesis by (simp add: written_def same_links_def same_extent_def)
qed

lemma fix_breaks_prog:
  "fix_breaks bs start stop s = Some s' \<Longrightarrow> s' = s\<lparr>prog_opcodes := fixLoopBreaks (prog_opcodes s) bs start stop\<rparr>"
proof (induction bs arbitrary: s)
  case Nil
  then show ?case by simp
next
  case (Cons b bs)
  then obtain s1 where s1: "fix_jump (int (loop_break_target start stop b) - int (lb_pos b) - 1) (lb_pos b) s = Some s1"
    "fix_breaks bs start stop s1 = Some s'" by (auto split: bind_splits)
  have "s1 = s\<lparr>prog_opcodes := fixJumpOpcode (prog_opcodes s) (int (loop_break_target start stop b) - int (lb_pos b) - 1) (lb_pos b)\<rparr>"
    using s1(1) by (auto simp: fix_jump_def os_assert_def split: if_splits)
  with Cons.IH [OF s1(2)] show ?case by (simp add: loop_break_target_def)
qed

lemma fixLoopBreaks_shift:
  "\<forall>b \<in> set bs. lb_pos b < length code \<Longrightarrow>
    fixLoopBreaks (pre @ code) (shift_breaks (length pre) bs) (length pre + i) (length pre + j)
      = pre @ fixLoopBreaks code bs i j"
proof (induction bs arbitrary: code)
  case Nil
  then show ?case by simp
next
  case (Cons b bs)
  have "fixJumpOpcode (pre @ code) (int (length pre + t) - int (length pre + lb_pos b) - 1) (length pre + lb_pos b)
      = pre @ fixJumpOpcode code (int t - int (lb_pos b) - 1) (lb_pos b)" for t
    by (simp add: fixJumpOpcode_def list_update_append nth_append)
  with Cons.IH Cons.prems show ?case
    by (simp add: shift_breaks_def)
qed

section \<open>Words\<close>

lemma fits_ABC_range: "fits_ABC a b c \<Longrightarrow> operands_in_range a b c"
  by (auto simp: fits_ABC_def operands_in_range_def maxarg_defs layout_defs split: if_splits)

lemma word_ABC_decode:
  assumes "word_ABC p a b c = Some w"
  shows "has_op w q \<longleftrightarrow> q = p" "int (OS_GETARG_A w) = a" "OS_GETARG_B w = operand_index b" "OS_GETARG_C w = operand_index c"
proof -
  have r: "operands_in_range a b c" and w: "w = instr_ABC p a b c"
    using assms by (auto simp: word_ABC_def os_assert_def fits_ABC_range split: if_splits)
  show "has_op w q \<longleftrightarrow> q = p"
    unfolding w has_op_def decode_ABC(1) [OF r] opcode_word_inj by auto
  show "int (OS_GETARG_A w) = a" "OS_GETARG_B w = operand_index b" "OS_GETARG_C w = operand_index c"
    using r by (simp_all add: w decode_ABC operands_in_range_def)
qed

lemma word_ABx_decode:
  assumes "word_ABx p a b = Some w"
  shows "has_op w q \<longleftrightarrow> q = p"
proof -
  have w: "w = OS_OPCODE_ABx (of_nat (opcode_index p)) a b"
    using assms by (auto simp: word_ABx_def os_assert_def split: if_splits)
  have "OS_GET_OPCODE_TYPE w = of_nat (opcode_index p)"
    unfolding w OS_OPCODE_ABx_def OS_GET_OPCODE_TYPE_def layout_defs
    by (intro bit_word_eqI) (auto simp: bit_getarg bit_or_iff bit_push_bit_iff dest: bit_opcode_word)
  then show ?thesis unfolding has_op_def by (metis opcode_word_inj)
qed

definition test_opcodes :: "OpcodeType list" where
  "test_opcodes = OP_LOGIC_BOOL # compare_opcodes"

lemma is_test_opcode: "word_ABC p a b c = Some w \<Longrightarrow> is_test w \<longleftrightarrow> p \<in> set test_opcodes"
  by (auto simp: is_test_def is_compare_def list_ex_iff test_opcodes_def word_ABC_decode(1))

lemma branch_word: "word_ABC p a b 1 = Some w \<Longrightarrow> p \<in> set test_opcodes \<Longrightarrow> is_branch w"
  using word_ABC_decode(4) [of p a b 1 w] is_test_opcode [of p a b 1 w]
  by (simp add: is_branch_def operand_index_def)

lemma plain_word:
  assumes "word_ABC p a b c = Some w" "p \<noteq> OP_JUMP" "p \<noteq> OP_NEW_FUNCTION" "p \<in> set test_opcodes \<Longrightarrow> c = 0"
  shows "plain w"
  using assms is_test_opcode [OF assms(1)] word_ABC_decode(1,4) [OF assms(1)]
  by (auto simp: plain_def is_branch_def operand_index_def)

lemma operand_opcode_plain:
  assumes "getOpcodeType t vt = Some p"
  shows "operand_opcode p b c \<notin> set test_opcodes \<union> {OP_JUMP, OP_NEW_FUNCTION}"
    "operand_opcode p b c = OP_MOVE \<longleftrightarrow> t = EXP_TYPE_MOVE"
  using assms
  by (cases t; simp add: getOpcodeType_def get_num_def operand_opcode_def test_opcodes_def compare_opcodes_def split: if_splits; fail)+

lemma compare_opcode_test: "fst (compare_opcode t) \<in> set test_opcodes"
  by (simp add: compare_opcode_def test_opcodes_def compare_opcodes_def)

lemma if_opcode_test: "fst (if_opcode e) \<in> set test_opcodes"
  by (simp add: if_opcode_def compare_opcode_def number_compare_def test_opcodes_def compare_opcodes_def)

lemma own_word_plain:
  assumes "own_word e = Some w"
  shows "plain w" and "has_op w OP_MOVE \<Longrightarrow> exp_type e = EXP_TYPE_MOVE \<and> int (OS_GETARG_A w) = slot_A e"
proof -
  consider p a b c where "word_ABC p a b c = Some w" "p \<notin> set test_opcodes \<union> {OP_JUMP, OP_NEW_FUNCTION}"
      "p = OP_MOVE \<Longrightarrow> exp_type e = EXP_TYPE_MOVE \<and> a = slot_A e"
    | p a b where "word_ABC p a b 0 = Some w" "p \<in> set test_opcodes"
    | a b where "word_ABx OP_GET_XCONST a b = Some w"
  proof (cases "exp_kind (exp_type e) = KOperator")
    case True
    with assms obtain p where p: "getOpcodeType (exp_type e) (lvd_type (exp_local_var e)) = Some p"
      "word_ABC (operand_opcode p (slot_B e) (slot_C e)) (slot_A e) (slot_B e) (slot_C e) = Some w"
      by (auto simp: own_word_def Let_def split: bind_splits)
    show ?thesis by (rule that(1) [OF p(2)]) (use operand_opcode_plain [OF p(1)] in auto)
  next
    case other: False
    show ?thesis
    proof (cases "exp_kind (exp_type e) = KCompare")
      case True
      with assms have "word_ABC (fst (compare_opcode (exp_type e))) (slot_A e) (of_bool (snd (compare_opcode (exp_type e)))) 0
          = Some w" by (simp add: own_word_def Let_def)
      then show ?thesis by (rule that(2)) (rule compare_opcode_test)
    next
      case False
      with assms that other show ?thesis
        by (cases "exp_kind (exp_type e)")
          (auto simp: own_word_def Let_def os_assert_def test_opcodes_def compare_opcodes_def split: if_splits)
    qed
  qed
  then have "plain w \<and> (has_op w OP_MOVE \<longrightarrow> exp_type e = EXP_TYPE_MOVE \<and> int (OS_GETARG_A w) = slot_A e)"
  proof cases
    case (1 p a b c)
    then have "plain w" by (auto intro: plain_word)
    moreover have "exp_type e = EXP_TYPE_MOVE \<and> int (OS_GETARG_A w) = slot_A e" if "has_op w OP_MOVE"
      using 1 that word_ABC_decode(1,2) [OF 1(1)] by auto
    ultimately show ?thesis by blast
  next
    case (2 p a b)
    then have "plain w" by (auto intro: plain_word simp: test_opcodes_def compare_opcodes_def)
    moreover have "\<not> has_op w OP_MOVE"
      using 2 word_ABC_decode(1) [OF 2(1)] by (auto simp: test_opcodes_def compare_opcodes_def)
    ultimately show ?thesis by blast
  next
    case 3
    then show ?thesis
      by (auto simp: plain_def is_branch_def is_test_def is_compare_def compare_opcodes_def word_ABx_decode)
  qed
  then show "plain w" "has_op w OP_MOVE \<Longrightarrow> exp_type e = EXP_TYPE_MOVE \<and> int (OS_GETARG_A w) = slot_A e"
    by blast+
qed

end
