(* ===== verification/CodeInduct.thy ===== *)
theory CodeInduct
  imports CodeWritten
begin

text \<open>
  The induction over the tree: \<open>generates\<close> says of a call of the generator what it has written, how the
  code runs and how it ends, \<open>ready\<close> is what a call needs.  Lists with their peephole, and the expressions
  that end with an instruction of their own, are done here.
\<close>

section \<open>The invariant\<close>

fun exp_count :: "expression \<Rightarrow> nat" where
  "exp_count (Expression t tok es v r sl sc) = Suc (sum_list (map exp_count es))"

lemma exp_count_eq: "exp_count e = Suc (sum_list (map exp_count (exp_list e)))"
  by (cases e) (simp only: exp_count.simps expression.sel)

definition generates ::
  "addr option \<Rightarrow> addr set \<Rightarrow> nat \<Rightarrow> int list \<Rightarrow> int list \<Rightarrow> bool \<Rightarrow> compiler \<Rightarrow> compiler \<Rightarrow>
    (('v, 'w) interp_ops \<Rightarrow> ('v, 'w) behaviour) \<Rightarrow> bool" where
  "generates tg as n L J P s s' R \<longleftrightarrow>
     (\<exists>code bs. written tg as s code bs s' \<and> breaks_ok code bs \<and> length code \<le> n
        \<and> tail_ok L J P code {} (code_len s) (prog_optimize_offs s')
        \<and> (\<forall>ops. sizes_ok ops (scopes s') as \<longrightarrow>
             code_for ops code bs (R ops)
             \<and> tail_ok L J P code (targets ops code bs) (code_len s) (prog_optimize_offs s')))"

lemma generatesE:
  assumes "generates tg as n L J P s s' R"
  obtains code bs where "written tg as s code bs s'" "breaks_ok code bs" "length code \<le> n"
    "tail_ok L J P code {} (code_len s) (prog_optimize_offs s')"
    "\<And>ops. sizes_ok ops (scopes s') as \<Longrightarrow> code_for ops code bs (R ops)
      \<and> tail_ok L J P code (targets ops code bs) (code_len s) (prog_optimize_offs s')"
  using assms unfolding generates_def by blast

text \<open>When nothing has to be known of the targets.\<close>

lemma generatesI:
  assumes "written tg as s code bs s'" "breaks_ok code bs" "length code \<le> n"
    and "\<And>T. tail_ok L J P code T (code_len s) (prog_optimize_offs s')"
    and "\<And>ops. sizes_ok ops (scopes s') as \<Longrightarrow> code_for ops code bs (R ops)"
  shows "generates tg as n L J P s s' R"
  using assms unfolding generates_def by blast

lemma generates_mono:
  assumes "generates tg as n L J P s s' R" "as \<subseteq> as'" "n \<le> n'" "set L \<subseteq> set L'" "set J \<subseteq> set J'" "P \<Longrightarrow> P'"
  shows "generates tg as' n' L' J' P' s s' R"
proof -
  have "sizes_ok ops (scopes s') as" if "sizes_ok ops (scopes s') as'" for ops :: "('a, 'b) interp_ops"
    using that assms(2) by (auto simp: sizes_ok_def)
  with assms(1,3) show ?thesis
    unfolding generates_def
    by (blast intro: written_mono [OF _ assms(2)] tail_ok_mono [OF _ assms(4,5,6)] le_trans)
qed

lemma sizes_ok_quiet: "quiet s s' \<Longrightarrow> sizes_ok ops (scopes s') as \<longleftrightarrow> sizes_ok ops (scopes s) as"
  by (simp add: sizes_ok_def quiet_def same_links_def same_extent_def)

lemma sizes_ok_before:
  "written tg as2 s1 code bs s2 \<Longrightarrow> as1 \<inter> as2 = {} \<Longrightarrow> sizes_ok ops (scopes s2) as1 \<longleftrightarrow> sizes_ok ops (scopes s1) as1"
  by (auto simp: sizes_ok_def written_def same_links_def same_extent_def disjoint_iff)

lemma sizes_ok_Un: "sizes_ok ops scs (as1 \<union> as2) \<longleftrightarrow> sizes_ok ops scs as1 \<and> sizes_ok ops scs as2"
  by (auto simp: sizes_ok_def)

lemma quiet_len: "quiet s s' \<Longrightarrow> code_len s' = code_len s"
  by (simp add: quiet_def)

lemma generates_quiet:
  assumes "generates tg as n L J P s s1 R" "quiet s1 s2"
  shows "generates tg as n L J P s s2 R"
proof -
  have offs: "prog_optimize_offs s2 = prog_optimize_offs s1" using assms(2) by (simp add: quiet_def)
  from assms(1) show ?thesis
    unfolding generates_def sizes_ok_quiet [OF assms(2)] offs by (blast intro: written_quiet [OF _ assms(2)])
qed

lemma quiet_generates:
  assumes "quiet s s1" "generates tg as n L J P s1 s2 R"
  shows "generates tg as n L J P s s2 R"
  using assms(2) unfolding generates_def quiet_len [OF assms(1)] by (blast intro: quiet_written [OF assms(1)])

lemma generates_optimize:
  "generates tg as n L J P (optimize_from_here s) s' R \<longleftrightarrow> generates tg as n L J P s s' R"
  by (simp add: generates_def)

lemma generates_here:
  assumes "generates tg as n L J P s s' R"
  shows "generates tg as n L' J' P' s (optimize_from_here s') R"
proof -
  obtain c b where c: "written tg as s c b s'" "breaks_ok c b" "length c \<le> n"
    "\<And>ops. sizes_ok ops (scopes s') as \<Longrightarrow> code_for ops c b (R ops)"
    by (rule generatesE [OF assms]) blast
  then show ?thesis
    using tail_ok_here [of L' J' P' c _ "code_len s"] written_len [OF c(1)]
    by (intro generatesI [of tg as s c b]) simp_all
qed

lemma generates_Nil:
  assumes "prog_optimize_offs s = code_len s"
  shows "generates tg as n L J P s s (\<lambda>ops. skip)"
  using assms tail_ok_here [of L J P "[]" _ "code_len s"]
  by (intro generatesI [OF written_Nil]) (simp_all add: code_for_Nil)

lemma generates_seq:
  assumes 1: "generates tg as1 n1 L1 J1 P1 s s1 R1" and 2: "generates tg as2 n2 L J P s1 s2 R2" and d: "as1 \<inter> as2 = {}"
  shows "generates tg (as1 \<union> as2) (n1 + n2) L J P s s2 (\<lambda>ops. seq (R1 ops) (R2 ops))"
proof -
  obtain c1 b1 where c1: "written tg as1 s c1 b1 s1" "length c1 \<le> n1" "breaks_ok c1 b1"
    and k1: "\<And>ops. sizes_ok ops (scopes s1) as1 \<Longrightarrow> code_for ops c1 b1 (R1 ops)" by (rule generatesE [OF 1]) blast
  obtain c2 b2 where c2: "written tg as2 s1 c2 b2 s2" "length c2 \<le> n2" "breaks_ok c2 b2"
    "tail_ok L J P c2 {} (code_len s1) (prog_optimize_offs s2)"
    and k2: "\<And>ops. sizes_ok ops (scopes s2) as2 \<Longrightarrow> code_for ops c2 b2 (R2 ops)
      \<and> tail_ok L J P c2 (targets ops c2 b2) (code_len s1) (prog_optimize_offs s2)"
    using 2 unfolding generates_def by blast
  have w: "written tg (as1 \<union> as2) s (c1 @ c2) (b1 @ shift_breaks (length c1) b2) s2"
    by (rule written_trans [OF written_mono [OF c1(1)] written_mono [OF c2(1)]]) simp_all
  note len = written_len [OF c1(1)]
  have code: "code_for ops (c1 @ c2) (b1 @ shift_breaks (length c1) b2) (seq (R1 ops) (R2 ops))
      \<and> tail_ok L J P (c1 @ c2) (targets ops (c1 @ c2) (b1 @ shift_breaks (length c1) b2)) (code_len s) (prog_optimize_offs s2)"
    if "sizes_ok ops (scopes s2) (as1 \<union> as2)" for ops
  proof -
    from that have s1: "sizes_ok ops (scopes s1) as1" and s2: "sizes_ok ops (scopes s2) as2"
      by (simp_all add: sizes_ok_Un sizes_ok_before [OF c2(1) d])
    note k1 = k1 [OF s1]
    have "n \<in> targets ops c2 b2"
      if "0 < n" "int (length c1) + n \<in> targets ops (c1 @ c2) (b1 @ shift_breaks (length c1) b2)" for n
      using targets_append [OF code_for_parts(2) [OF k1], of ops c2 b2] code_for_parts(3) [OF k1] that by auto
    with code_for_append [OF k1] k2 [OF s2] len show ?thesis by (auto intro: tail_ok_append)
  qed
  moreover have "tail_ok L J P (c1 @ c2) {} (code_len s) (prog_optimize_offs s2)"
    by (rule tail_ok_append [where ?T2.0 = "{}"]) (use c2(4) len in simp_all)
  ultimately show ?thesis unfolding generates_def
    using w c1(2) c2(2) breaks_ok_append [OF c1(3) c2(3)] by (intro exI [of _ "c1 @ c2"] exI [of _ "b1 @ shift_breaks (length c1) b2"]) simp
qed

text \<open>The instruction of an expression after its operands.\<close>

lemma generates_own:
  assumes 1: "generates tg as n L J P s s1 R" and w: "plain w" "\<not> has_op w OP_MOVE"
  shows "generates tg as (n + 1) L' J' P' s (put_opcode w s1) (\<lambda>ops. seq (R ops) (one_instr ops w))"
proof -
  obtain c b where c: "written tg as s c b s1" "length c \<le> n" "tail_ok L J P c {} (code_len s) (prog_optimize_offs s1)"
    "\<And>ops. sizes_ok ops (scopes s1) as \<Longrightarrow> code_for ops c b (R ops)" "breaks_ok c b" by (rule generatesE [OF 1]) blast
  have "written tg as s (c @ [w]) b (put_opcode w s1)"
    using written_trans [OF c(1) written_put(1)] by simp
  moreover have "code_for ops (c @ [w]) b (seq (R ops) (one_instr ops w))"
    if "sizes_ok ops (scopes (put_opcode w s1)) as" for ops
    using code_for_append [OF c(4) code_for_one(1) [OF w(1)]] that by simp
  ultimately show ?thesis
    using c(2) tail_ok_le [OF c(3)] breaks_ok_append [OF c(5) breaks_ok_Nil, of "[w]"]
    by (intro generatesI [of tg as s "c @ [w]" b]) (simp_all add: tail_ok_other w(2))
qed

lemma generates_MOVE:
  assumes 1: "generates tg as n L J P s s1 R"
    and w: "plain w" "int (OS_GETARG_A w) = a" and safe: "a - 1 \<notin> set J"
  shows "generates tg as (n + 1) [a] [] (a - 1 \<in> set L) s (put_opcode w s1) (\<lambda>ops. seq (R ops) (one_instr ops w))"
proof -
  obtain c b where c: "written tg as s c b s1" "length c \<le> n" "tail_ok L J P c {} (code_len s) (prog_optimize_offs s1)"
    "\<And>ops. sizes_ok ops (scopes s1) as \<Longrightarrow> code_for ops c b (R ops)
      \<and> tail_ok L J P c (targets ops c b) (code_len s) (prog_optimize_offs s1)"
    "breaks_ok c b"
    using 1 unfolding generates_def by blast
  have "written tg as s (c @ [w]) b (put_opcode w s1)"
    using written_trans [OF c(1) written_put(1)] by simp
  moreover have "tail_ok [a] [] (a - 1 \<in> set L) (c @ [w]) {} (code_len s) (prog_optimize_offs s1)"
    by (rule tail_ok_MOVE [OF _ c(3) w(2) safe]) simp
  moreover have "code_for ops (c @ [w]) b (seq (R ops) (one_instr ops w))
      \<and> tail_ok [a] [] (a - 1 \<in> set L) (c @ [w]) (targets ops (c @ [w]) b) (code_len s) (prog_optimize_offs s1)"
    if "sizes_ok ops (scopes s1) as" for ops
  proof -
    have k: "code_for ops c b (R ops)" "tail_ok L J P c (targets ops c b) (code_len s) (prog_optimize_offs s1)"
      using c(4) [OF that] by simp_all
    have "tail_ok [a] [] (a - 1 \<in> set L) (c @ [w]) (targets ops c b) (code_len s) (prog_optimize_offs s1)"
      by (rule tail_ok_MOVE [OF code_for_parts(3) [OF k(1)] k(2) w(2) safe])
    with code_for_append [OF k(1) code_for_one(1) [OF w(1)]] targets_snoc [OF code_for_parts(1) [OF k(1)] w(1)] show ?thesis
      by simp
  qed
  ultimately show ?thesis unfolding generates_def using c(2) breaks_ok_append [OF c(5) breaks_ok_Nil, of "[w]"]
    by (intro exI [of _ "c @ [w]"] exI [of _ b]) simp
qed

text \<open>The peephole at the end of an element of a list.\<close>

lemma generates_fuse:
  assumes 1: "generates tg as n L J P s s1 R"
  shows "generates tg as n L J P s (fuse_moves s1) R"
proof -
  obtain c b where c: "written tg as s c b s1" "length c \<le> n" "tail_ok L J P c {} (code_len s) (prog_optimize_offs s1)"
    "\<And>ops. sizes_ok ops (scopes s1) as \<Longrightarrow> code_for ops c b (R ops)
      \<and> tail_ok L J P c (targets ops c b) (code_len s) (prog_optimize_offs s1)"
    "breaks_ok c b"
    using 1 unfolding generates_def by blast
  have prog: "prog_opcodes s1 = prog_opcodes s @ c" using c(1) by (simp add: written_def)
  consider (same) "fuse_last_moves (prog_opcodes s1) (prog_optimize_offs s1) = (prog_opcodes s1, prog_optimize_offs s1)"
    | (fused) us prev cur where "prog_opcodes s1 = us @ [prev, cur]" "prog_optimize_offs s1 + 2 \<le> code_len s1"
      "fusible prev cur" "fuse_last_moves (prog_opcodes s1) (prog_optimize_offs s1) = (us @ [move2_of prev cur], Suc (length us))"
    using fuse_last_moves_cases [of "prog_opcodes s1" "prog_optimize_offs s1"] by blast
  then show ?thesis
  proof cases
    case same
    then have "fuse_moves s1 = s1" by (simp add: fuse_moves_def)
    with 1 show ?thesis by simp
  next
    case fused
    have "last c = cur" "2 \<le> length c"
    proof -
      have "c \<noteq> []" using c(3) fused(2) prog by (auto simp: tail_ok_def)
      then have "last (prog_opcodes s1) = last c" using prog by simp
      with fused(1) show "last c = cur" by simp
      with fused(2,3) c(3) prog show "2 \<le> length c" by (simp add: tail_ok_def fusible_def)
    qed
    have "us = prog_opcodes s @ take (length c - 2) c" "c = take (length c - 2) c @ [prev, cur]"
    proof -
      have *: "c = take (length c - 2) c @ [c ! (length c - 2), c ! (length c - 1)]"
        by (rule split_last_two [OF \<open>2 \<le> length c\<close>])
      with prog fused(1) have "us @ [prev, cur] = (prog_opcodes s @ take (length c - 2) c) @ [c ! (length c - 2), c ! (length c - 1)]"
        by simp
      then have eq: "us = prog_opcodes s @ take (length c - 2) c \<and> [prev, cur] = [c ! (length c - 2), c ! (length c - 1)]"
        by (subst (asm) append_eq_append_conv) simp_all
      then show "us = prog_opcodes s @ take (length c - 2) c" by simp
      from * eq show "c = take (length c - 2) c @ [prev, cur]" by simp
    qed
    then obtain vs where us: "us = prog_opcodes s @ vs" and cv: "c = vs @ [prev, cur]" by blast
    let ?s = "fuse_moves s1" and ?c = "vs @ [move2_of prev cur]"
    have s: "?s = s1\<lparr>prog_opcodes := us @ [move2_of prev cur], prog_optimize_offs := Suc (length us)\<rparr>"
      using fused(4) by (simp add: fuse_moves_def)
    have "written tg as s ?c b ?s"
      using c(1) us by (simp add: s written_def same_links_def same_extent_def)
    moreover have "code_for ops ?c b (R ops)" if "sizes_ok ops (scopes ?s) as" for ops
    proof -
      have sz: "sizes_ok ops (scopes s1) as" using that by (simp add: s)
      have "prog_optimize_offs s1 + 2 \<le> code_len s + length c" using fused(2) prog by simp
      with c(4) [OF sz] fused(3) have t: "int (length c) - 1 \<notin> targets ops c b" "int (length c) \<notin> targets ops c b"
        by (simp_all add: tail_ok_def cv nth_append fusible_def)
      show ?thesis
        by (rule code_for_fuse [OF c(4) [OF sz, THEN conjunct1, unfolded cv] fused(3)]) (use t in \<open>simp_all add: cv algebra_simps\<close>)
    qed
    moreover have "prog_optimize_offs ?s = code_len s + length ?c" using us by (simp add: s)
    moreover have "breaks_ok ?c b" using c(5) fused(3) cv by (auto intro: fused_breaks_ok)
    ultimately show ?thesis
      using c(2) cv by (intro generatesI [of tg as s ?c b]) (simp_all add: tail_ok_here [of _ _ _ ?c, simplified])
  qed
qed

section \<open>Premises and goal of the induction\<close>

abbreviation list_addrs :: "expression list \<Rightarrow> addr list" where
  "list_addrs es \<equiv> concat (map scope_addrs es)"

abbreviation list_count :: "expression list \<Rightarrow> nat" where
  "list_count es \<equiv> sum_list (map exp_count es)"

definition break_target :: "compiler \<Rightarrow> addr \<Rightarrow> addr option \<Rightarrow> bool" where
  "break_target s scope tg \<longleftrightarrow> (\<forall>t. find_break_scope t (scopes s) (Some scope) = Some tg)"

definition ready :: "(addr \<Rightarrow> int) \<Rightarrow> addr option \<Rightarrow> addr \<Rightarrow> expression list \<Rightarrow> compiler \<Rightarrow> bool" where
  "ready index tg scope es s \<longleftrightarrow>
     list_all (scopes_ok (scopes s) scope) es \<and> list_all safe es \<and> distinct (list_addrs es)
     \<and> (\<forall>a. tg = Some a \<longrightarrow> a \<notin> set (list_addrs es)) \<and> break_target s scope tg
     \<and> (\<forall>a. index a = sc_prog_func_index (scopes s a)) \<and> prog_optimize_offs s \<le> code_len s"

definition correct ::
  "(('v, 'w) interp_ops \<Rightarrow> expression \<Rightarrow> ('v, 'w) behaviour) \<Rightarrow> (addr \<Rightarrow> int) \<Rightarrow> expression \<Rightarrow> bool" where
  "correct means index e \<longleftrightarrow>
     (\<forall>tg scope s s'. ready index tg scope [e] s \<longrightarrow> writeOpcodes scope e s = Some (True, s') \<longrightarrow>
        small (3 * exp_count e) \<longrightarrow>
        generates tg (set (scope_addrs e)) (3 * exp_count e) (last_slots e) (join_slots e) (ends_fusible e) s s'
          (\<lambda>ops. means ops e))"

lemma and_then_True [simp]:
  "and_then r f = Some (True, s') \<longleftrightarrow> (\<exists>s1. r = Some (True, s1) \<and> f s1 = Some (True, s'))"
  by (auto simp: and_then_def split: bind_splits if_splits)

lemma return_true_True [simp]: "return_true r = Some (True, s') \<longleftrightarrow> r = Some s'"
  by (cases r) (simp_all add: return_true_def)

lemma os_assert_Some [simp]: "os_assert p x = Some y \<longleftrightarrow> p \<and> x = Some y"
  by (simp add: os_assert_def)

lemma find_break_links:
  assumes "find_break_scope t scs p = Some r"
    and "\<And>a. sc_type (scs' a) = sc_type (scs a) \<and> sc_parent (scs' a) = sc_parent (scs a)"
  shows "find_break_scope t scs' p = Some r"
proof -
  have "(\<forall>a. sc_type (scs' a) = sc_type (scs a) \<and> sc_parent (scs' a) = sc_parent (scs a)) \<longrightarrow>
      find_break_scope t scs' p = Some r"
  proof (rule find_break_scope.raw_induct [OF _ assms(1)])
    fix find t p r and scs :: "addr \<Rightarrow> comp_scope"
    assume IH: "\<And>t scs p r. find t scs p = Some r \<Longrightarrow>
        (\<forall>a. sc_type (scs' a) = sc_type (scs a) \<and> sc_parent (scs' a) = sc_parent (scs a)) \<longrightarrow> find_break_scope t scs' p = Some r"
      and body: "(case p of None \<Rightarrow> Some None
        | Some a \<Rightarrow>
            if sc_type (scs a) = EXP_TYPE_LOOP_SCOPE \<or> sc_type (scs a) = EXP_TYPE_FOR_LOOP_SCOPE then Some (Some a)
            else if sc_type (scs a) = EXP_TYPE_SWITCH_SCOPE
                 then if t = LOOP_CONTINUE then find t scs (sc_parent (scs a)) else Some (Some a)
                 else if sc_type (scs a) \<noteq> EXP_TYPE_SCOPE then Some None else find t scs (sc_parent (scs a))) = Some r"
    show "(\<forall>a. sc_type (scs' a) = sc_type (scs a) \<and> sc_parent (scs' a) = sc_parent (scs a)) \<longrightarrow>
        find_break_scope t scs' p = Some r"
    proof
      assume eq: "\<forall>a. sc_type (scs' a) = sc_type (scs a) \<and> sc_parent (scs' a) = sc_parent (scs a)"
      have rec: "find t scs p = Some r \<Longrightarrow> find_break_scope t scs' p = Some r" for t p r using IH eq by blast
      show "find_break_scope t scs' p = Some r"
        using body eq by (subst find_break_scope.simps) (auto intro: rec split: option.splits if_splits)
    qed
  qed
  with assms(2) show ?thesis by blast
qed

lemma break_target_links: "same_links s s' \<Longrightarrow> break_target s scope tg \<Longrightarrow> break_target s' scope tg"
  unfolding break_target_def by (blast intro: find_break_links dest: same_links_simps)

lemma break_target_function: "sc_type (scopes s a) = EXP_TYPE_FUNCTION \<Longrightarrow> break_target s a None"
  by (simp add: break_target_def find_break_scope.simps)

lemma break_target_loop:
  "sc_type (scopes s a) = EXP_TYPE_LOOP_SCOPE \<or> sc_type (scopes s a) = EXP_TYPE_FOR_LOOP_SCOPE \<Longrightarrow> break_target s a (Some a)"
  by (auto simp: break_target_def find_break_scope.simps)

lemma break_target_scope:
  "break_target s scope tg \<Longrightarrow> sc_type (scopes s a) = EXP_TYPE_SCOPE \<Longrightarrow> sc_parent (scopes s a) = Some scope \<Longrightarrow>
    break_target s a tg"
  unfolding break_target_def by (subst find_break_scope.simps) simp

lemma scopes_ok_cong:
  assumes "\<And>a. a \<in> set (scope_addrs e) \<Longrightarrow> sc_type (scs' a) = sc_type (scs a)
    \<and> sc_parent (scs' a) = sc_parent (scs a) \<and> sc_loop_breaks (scs' a) = sc_loop_breaks (scs a)"
  shows "scopes_ok scs' scope e \<longleftrightarrow> scopes_ok scs scope e"
  using assms
proof (induction e arbitrary: scope)
  case (Expression t tok es v r sl sc)
  have "scopes_ok scs' a e \<longleftrightarrow> scopes_ok scs a e" if "e \<in> set es" for a e
  proof (rule Expression.IH [OF that])
    fix b
    assume "b \<in> set (scope_addrs e)"
    with that have "b \<in> set (scope_addrs (Expression t tok es v r sl sc))"
      unfolding scope_addrs.simps set_append set_concat set_map by blast
    then show "sc_type (scs' b) = sc_type (scs b) \<and> sc_parent (scs' b) = sc_parent (scs b)
      \<and> sc_loop_breaks (scs' b) = sc_loop_breaks (scs b)" by (rule Expression.prems)
  qed
  then have es: "list_all (scopes_ok scs' a) es \<longleftrightarrow> list_all (scopes_ok scs a) es" for a
    by (simp add: list_all_iff)
  show ?case
  proof (cases "has_scope t \<and> sc \<noteq> None")
    case True
    then obtain a where a: "sc = Some a" by blast
    with True Expression.prems [of a] es show ?thesis by simp
  next
    case False
    with es show ?thesis by auto
  qed
qed

lemma scopes_ok_written:
  assumes "written tg as s code bs s'" "set (scope_addrs e) \<inter> as = {}" "\<forall>a. tg = Some a \<longrightarrow> a \<notin> set (scope_addrs e)"
  shows "scopes_ok (scopes s') scope e \<longleftrightarrow> scopes_ok (scopes s) scope e"
proof (rule scopes_ok_cong)
  fix a
  assume "a \<in> set (scope_addrs e)"
  with assms have "a \<notin> as" "tg \<noteq> Some a" by auto
  with assms(1) show "sc_type (scopes s' a) = sc_type (scopes s a) \<and> sc_parent (scopes s' a) = sc_parent (scopes s a)
    \<and> sc_loop_breaks (scopes s' a) = sc_loop_breaks (scopes s a)"
    by (simp add: written_def same_links_def)
qed

lemma ready_part: "ready index tg scope (pre @ es @ post) s \<Longrightarrow> ready index tg scope es s"
  by (auto simp: ready_def)

lemma ready_after:
  assumes "ready index tg scope es s" "written tg as s code bs s'" "set (list_addrs es) \<inter> as = {}"
    and "prog_optimize_offs s' \<le> code_len s'"
  shows "ready index tg scope es s'"
proof -
  note links = written_links [OF assms(2)]
  have "scopes_ok (scopes s') scope e \<longleftrightarrow> scopes_ok (scopes s) scope e" if "e \<in> set es" for e
    using assms(1,3) that by (intro scopes_ok_written [OF assms(2)]) (auto simp: ready_def)
  then have "list_all (scopes_ok (scopes s') scope) es" using assms(1) by (simp add: ready_def list_all_iff)
  with assms(1,4) break_target_links [OF links] show ?thesis
    by (simp add: ready_def same_links_simps(3) [OF links])
qed

lemma ready_optimize: "ready index tg scope es s \<Longrightarrow> ready index tg scope es (optimize_from_here s)"
  by (simp add: ready_def break_target_def)

lemma ready_list: "ready index tg scope [e] s \<Longrightarrow> \<not> has_scope (exp_type e) \<Longrightarrow> ready index tg scope (exp_list e) s"
  by (simp add: ready_def scopes_ok_eq [of _ _ e] scope_addrs_eq [of e] safe_eq [of e])

lemma ready_scope:
  assumes "ready index tg scope [e] s" "has_scope (exp_type e)"
  obtains a where "exp_scope e = Some a" "sc_type (scopes s a) = exp_type e" "sc_parent (scopes s a) = Some scope"
    "sc_loop_breaks (scopes s a) = []" "scope_addrs e = a # list_addrs (exp_list e)" "tg \<noteq> Some a"
    "a \<notin> set (list_addrs (exp_list e))"
    "\<forall>tg'. break_target s a tg' \<and> (tg' = tg \<or> tg' = None \<or> tg' = Some a) \<longrightarrow> ready index tg' a (exp_list e) s"
proof -
  from assms obtain a where a: "exp_scope e = Some a"
    by (auto simp: ready_def scopes_ok_eq [of _ _ e] split: option.splits)
  with assms show ?thesis
    by (intro that [of a])
      (auto simp: ready_def scopes_ok_eq [of _ _ e] scope_addrs_eq [of e] safe_eq [of e])
qed

section \<open>Lists\<close>

lemma seq_skip [simp]: "seq R skip = R" "seq skip R = R"
  by (auto simp: seq_def skip_def fun_eq_iff)

lemma generates_le: "generates tg as n L J P s s' R \<Longrightarrow> prog_optimize_offs s' \<le> code_len s'"
  by (elim generatesE) (simp add: tail_ok_le written_len)

lemma correct_list:
  assumes "\<forall>x \<in> set es. correct means index x" "ready index tg scope es s"
    and "writeOpcodes_list scope opt es s = Some (True, s')" "small (3 * list_count es)" "es \<noteq> []"
    and means: "\<And>ops. means_list ops [] = skip" "\<And>ops e es. means_list ops (e # es) = seq (means ops e) (means_list ops es)"
  shows "generates tg (set (list_addrs es)) (3 * list_count es) (concat (map last_slots es)) (concat (map join_slots es))
    (list_ex ends_fusible es) s s' (\<lambda>ops. means_list ops es)"
  using assms(1-5)
proof (induction es arbitrary: s)
  case Nil
  then show ?case by simp
next
  case (Cons e es)
  let ?fuse = "\<lambda>s. if opt then fuse_moves s else s"
  from Cons.prems(3) obtain s1 where s1: "writeOpcodes scope e s = Some (True, s1)"
    "writeOpcodes_list scope opt es (?fuse s1) = Some (True, s')" by auto
  have "generates tg (set (scope_addrs e)) (3 * exp_count e) (last_slots e) (join_slots e) (ends_fusible e) s s1
      (\<lambda>ops. means ops e)"
    using Cons.prems(1) small_mono [OF Cons.prems(4), of "3 * exp_count e"] s1(1)
      ready_part [of index tg scope "[]" "[e]" es s] Cons.prems(2)
    by (simp add: correct_def)
  then have e: "generates tg (set (scope_addrs e)) (3 * exp_count e) (last_slots e) (join_slots e) (ends_fusible e) s (?fuse s1)
      (\<lambda>ops. means ops e)"
    by (simp add: generates_fuse)
  show ?case
  proof (cases "es = []")
    case True
    with e s1(2) show ?thesis by (simp add: means)
  next
    case False
    obtain code bs where w: "written tg (set (scope_addrs e)) s code bs (?fuse s1)" using e by (rule generatesE)
    have d: "set (scope_addrs e) \<inter> set (list_addrs es) = {}" using Cons.prems(2) by (auto simp: ready_def)
    have "ready index tg scope es (?fuse s1)"
      using Cons.prems(2) ready_part [of index tg scope "[e]" es "[]" s] d
      by (intro ready_after [OF _ w _ generates_le [OF e]]) auto
    note IH = Cons.IH [OF _ this s1(2) small_mono [OF Cons.prems(4)] False]
    have "generates tg (set (list_addrs es)) (3 * list_count es) (concat (map last_slots es)) (concat (map join_slots es))
        (list_ex ends_fusible es) (?fuse s1) s' (\<lambda>ops. means_list ops es)"
      by (rule IH) (use Cons.prems(1) in simp_all)
    then show ?thesis unfolding means by (rule generates_mono [OF generates_seq [OF e _ d]]) auto
  qed
qed

lemma correct_list_here:
  assumes "\<forall>x \<in> set es. correct (\<lambda>ops :: ('v, 'w) interp_ops. eval ops index) index x" "ready index tg scope es s"
    and "writeOpcodes_list scope opt es (optimize_from_here s) = Some (True, s')" "small (3 * list_count es)"
  shows "generates tg (set (list_addrs es)) (3 * list_count es) (concat (map last_slots es)) (concat (map join_slots es))
    (list_ex ends_fusible es) s s' (\<lambda>ops :: ('v, 'w) interp_ops. evals ops index es)"
proof (cases "es = []")
  case True
  with assms(3) have "s' = optimize_from_here s" by simp
  with True generates_Nil [of "optimize_from_here s"] show ?thesis
    by (simp add: generates_optimize)
next
  case False
  from correct_list [OF assms(1) ready_optimize [OF assms(2)] assms(3,4) False, of "\<lambda>ops :: ('v, 'w) interp_ops. evals ops index"]
  show ?thesis by (simp add: generates_optimize)
qed

section \<open>The cases of the generator\<close>

lemma correctI:
  "(\<And>tg scope s s'. ready index tg scope [e] s \<Longrightarrow> writeOpcodes scope e s = Some (True, s') \<Longrightarrow> small (3 * exp_count e) \<Longrightarrow>
     generates tg (set (scope_addrs e)) (3 * exp_count e) (last_slots e) (join_slots e) (ends_fusible e) s s' (\<lambda>ops. means ops e))
   \<Longrightarrow> correct means index e"
  by (simp add: correct_def)

lemma size_exp_in: "x \<in> set (exp_list e) \<Longrightarrow> size x < size e"
  using size_exp_list [of e] size_list_estimation' [of x "exp_list e" "size x" size] by simp

lemma elements:
  "\<forall>x. size x < size e \<longrightarrow> correct means index x \<Longrightarrow> \<forall>x \<in> set (exp_list e). correct means index x"
  using size_exp_in by blast

lemma small_list: "small (3 * exp_count e) \<Longrightarrow> small (3 * list_count (exp_list e))"
  by (erule small_mono) (subst exp_count_eq, simp)

lemma small_in: "small (3 * exp_count e) \<Longrightarrow> x \<in> set (exp_list e) \<Longrightarrow> small (3 * exp_count x)"
  using member_le_sum_list [of "exp_count x" "map exp_count (exp_list e)"]
  by (elim small_mono) (simp add: exp_count_eq [of e])

lemma ready_offs: "ready index tg scope es s \<Longrightarrow> prog_optimize_offs s \<le> code_len s"
  by (simp add: ready_def)

lemma written_offs: "ready index tg scope es s \<Longrightarrow> quiet s s' \<Longrightarrow> prog_optimize_offs s' \<le> code_len s'"
  by (simp add: ready_def quiet_def)

text \<open>A single instruction, without operands.\<close>

lemma generates_leaf:
  assumes "prog_optimize_offs s \<le> code_len s" "plain w" "\<not> has_op w OP_MOVE"
  shows "generates tg as 3 L J P s (put_opcode w s) (\<lambda>ops. one_instr ops w)"
  using assms code_for_one(1) [OF assms(2)] tail_ok_other [OF assms(3), of _ _ "[]"]
  by (intro generatesI [OF written_put(1)]) simp_all

lemma correct_KList:
  assumes k: "exp_kind (exp_type e) = KList"
    and sub: "\<forall>x. size x < size e \<longrightarrow> correct (\<lambda>ops :: ('v, 'w) interp_ops. eval ops index) index x"
  shows "correct (\<lambda>ops :: ('v, 'w) interp_ops. eval ops index) index e"
proof (rule correctI)
  fix tg scope s s'
  assume r: "ready index tg scope [e] s" and w: "writeOpcodes scope e s = Some (True, s')" and small: "small (3 * exp_count e)"
  have "\<not> has_scope (exp_type e)" using k by (simp add: has_scope_def)
  note list = correct_list_here [OF elements [OF sub] ready_list [OF r this] _ small_list [OF small]]
  from w k have "writeOpcodes_list scope (is_optimized_list (exp_type e)) (exp_list e) (optimize_from_here s) = Some (True, s')"
    by (simp add: writeOpcodes.simps [of scope e s])
  note g = list [OF this]
  have means: "eval ops index e = evals ops index (exp_list e)" for ops :: "('v, 'w) interp_ops"
    using k by (simp add: eval.simps [of _ _ e])
  show "generates tg (set (scope_addrs e)) (3 * exp_count e) (last_slots e) (join_slots e) (ends_fusible e) s s'
      (\<lambda>ops :: ('v, 'w) interp_ops. eval ops index e)"
    unfolding means
    by (rule generates_mono [OF g])
      (use k \<open>\<not> has_scope (exp_type e)\<close> in \<open>simp_all add: last_slots_eq [of e] join_slots_eq [of e] ends_fusible_eq [of e]
        scope_addrs_eq [of e] exp_count_eq [of e]\<close>)
qed

text \<open>Expressions with an instruction of their own behind their operands.\<close>

definition own_kinds :: "exp_kind set" where
  "own_kinds = {KThrow, KArguments, KSuper, KDebugger, KBool, KCompare, KOperator, KXconst}"

lemma own_kinds_write:
  assumes "writeOpcodes scope e s = Some (True, s')" "exp_kind (exp_type e) \<in> own_kinds"
  obtains opt s1 s2 w where "quiet s1 s2" "own_word e = Some w" "s' = put_opcode w s2"
    "writeOpcodes_list scope opt (exp_list e) (optimize_from_here s) = Some (True, s1)
      \<or> exp_list e = [] \<and> s1 = s \<and> exp_kind (exp_type e) \<noteq> KOperator"
proof -
  have "\<exists>opt s1 s2. writeDebugInfo e s1 = Some s2 \<and> own_instruction e s2 = Some s'
    \<and> (writeOpcodes_list scope opt (exp_list e) (optimize_from_here s) = Some (True, s1)
      \<or> exp_list e = [] \<and> s1 = s \<and> exp_kind (exp_type e) \<noteq> KOperator)"
    using assms(2) assms(1) [unfolded writeOpcodes.simps [of scope e s]] unfolding own_kinds_def
    by (elim insertE emptyE) (simp; auto split: bind_splits)+
  then obtain opt s1 s2 where d: "writeDebugInfo e s1 = Some s2" "own_instruction e s2 = Some s'"
    and list: "writeOpcodes_list scope opt (exp_list e) (optimize_from_here s) = Some (True, s1)
      \<or> exp_list e = [] \<and> s1 = s \<and> exp_kind (exp_type e) \<noteq> KOperator" by blast
  from d(2) obtain w where "own_word e = Some w" "s' = put_opcode w s2" by (auto simp: own_instruction_def)
  then show ?thesis by (rule that [OF quiet_debug [OF d(1)] _ _ list])
qed

lemma correct_own:
  assumes k: "exp_kind (exp_type e) \<in> own_kinds"
    and sub: "\<forall>x. size x < size e \<longrightarrow> correct (\<lambda>ops :: ('v, 'w) interp_ops. eval ops index) index x"
  shows "correct (\<lambda>ops :: ('v, 'w) interp_ops. eval ops index) index e"
proof (rule correctI)
  fix tg scope s s'
  assume r: "ready index tg scope [e] s" and w: "writeOpcodes scope e s = Some (True, s')" and small: "small (3 * exp_count e)"
  let ?as = "set (list_addrs (exp_list e))" and ?n = "3 * list_count (exp_list e)"
  have no_scope: "\<not> has_scope (exp_type e)" using k by (auto simp: has_scope_def own_kinds_def)
  note list = correct_list_here [OF elements [OF sub] ready_list [OF r this] _ small_list [OF small]]
  obtain opt s1 s2 w where s2: "quiet s1 s2" "own_word e = Some w" "s' = put_opcode w s2"
    and s1: "writeOpcodes_list scope opt (exp_list e) (optimize_from_here s) = Some (True, s1)
      \<or> exp_list e = [] \<and> s1 = s \<and> exp_kind (exp_type e) \<noteq> KOperator"
    by (rule own_kinds_write [OF w k])
  note plain = own_word_plain(1) [OF s2(2)]
  have means: "eval ops index e = seq (evals ops index (exp_list e)) (one_instr ops w)" for ops :: "('v, 'w) interp_ops"
    using k s2(2) by (auto simp: own_kinds_def eval.simps [of _ _ e] with_word_def)
  have addrs: "set (scope_addrs e) = ?as" using no_scope by (simp add: scope_addrs_eq [of e])
  have count: "3 * exp_count e = ?n + 3" by (simp add: exp_count_eq [of e])
  from s1 consider (list) "writeOpcodes_list scope opt (exp_list e) (optimize_from_here s) = Some (True, s1)"
    | (leaf) "exp_list e = []" "s1 = s" "exp_kind (exp_type e) \<noteq> KOperator" by blast
  then show "generates tg (set (scope_addrs e)) (3 * exp_count e) (last_slots e) (join_slots e) (ends_fusible e) s s'
      (\<lambda>ops :: ('v, 'w) interp_ops. eval ops index e)"
  proof cases
    case operands: list
    note g = generates_quiet [OF list [OF operands] s2(1)]
    show ?thesis
    proof (cases "has_op w OP_MOVE")
      case False
      show ?thesis unfolding means addrs count s2(3)
        by (rule generates_mono [OF generates_own [OF g plain False, of "[]" "[]" False]]) simp_all
    next
      case True
      note mv = own_word_plain(2) [OF s2(2) True]
      then have kind: "exp_kind (exp_type e) = KOperator" by (simp add: exp_kind_def)
      have safe: "slot_A e - 1 \<notin> set (concat (map join_slots (exp_list e)))"
        using r mv kind by (simp add: ready_def safe_eq [of e])
      show ?thesis unfolding means addrs count s2(3)
        by (rule generates_mono [OF generates_MOVE [OF g plain conjunct2 [OF mv] safe]])
          (use mv kind in \<open>simp_all add: last_slots_eq [of e] ends_fusible_eq [of e]\<close>)
    qed
  next
    case leaf
    have nomove: "\<not> has_op w OP_MOVE" using own_word_plain(2) [OF s2(2)] leaf(3) by (auto simp: exp_kind_def)
    have offs: "prog_optimize_offs s2 \<le> code_len s2" using written_offs [OF r] s2(1) leaf(2) by simp
    have skip: "evals ops index (exp_list e) = skip" for ops :: "('v, 'w) interp_ops" using leaf(1) by simp
    note g = quiet_generates [OF s2(1) [unfolded leaf(2)] generates_leaf [OF offs plain nomove, of _ "{}" "[]" "[]" False]]
    show ?thesis unfolding means skip seq_skip s2(3) count
      by (rule generates_mono [OF g]) simp_all
  qed
qed

end
