(* ===== verification/CodeLoops.thy ===== *)
theory CodeLoops
  imports CodeInduct
begin

text \<open>
  The cases of the generator that write a scope: blocks, the two kinds of loops, function literals.  Each
  combines a shape of \<open>CodeShapes\<close> with the frames of \<open>CodeWritten\<close>.
\<close>

section \<open>Scopes and loops\<close>

lemma exp_kind_scopes:
  "exp_kind t = KScope \<Longrightarrow> t = EXP_TYPE_SCOPE" "exp_kind t = KFunction \<Longrightarrow> t = EXP_TYPE_FUNCTION"
  "exp_kind t = KLoop \<Longrightarrow> t = EXP_TYPE_LOOP_SCOPE" "exp_kind t = KForLoop \<Longrightarrow> t = EXP_TYPE_FOR_LOOP_SCOPE"
  by (cases t; simp add: exp_kind_def; fail)+

lemma correct_KScope:
  assumes k: "exp_kind (exp_type e) = KScope"
    and sub: "\<forall>x. size x < size e \<longrightarrow> correct (\<lambda>ops :: ('v, 'w) interp_ops. eval ops index) index x"
  shows "correct (\<lambda>ops :: ('v, 'w) interp_ops. eval ops index) index e"
proof (rule correctI)
  fix tg scope s s'
  assume r: "ready index tg scope [e] s" and w: "writeOpcodes scope e s = Some (True, s')" and small: "small (3 * exp_count e)"
  have "has_scope (exp_type e)" using k by (simp add: has_scope_def)
  obtain a where a: "exp_scope e = Some a" "sc_type (scopes s a) = exp_type e" "sc_parent (scopes s a) = Some scope"
    "sc_loop_breaks (scopes s a) = []" "scope_addrs e = a # list_addrs (exp_list e)" "tg \<noteq> Some a"
    "a \<notin> set (list_addrs (exp_list e))"
    and inner: "\<forall>tg'. break_target s a tg' \<and> (tg' = tg \<or> tg' = None \<or> tg' = Some a) \<longrightarrow> ready index tg' a (exp_list e) s"
    by (rule ready_scope [OF r \<open>has_scope (exp_type e)\<close>]) blast
  from w k a(1) obtain s1 where s1: "writeOpcodes_list a True (exp_list e) (optimize_from_here s) = Some (True, s1)"
    "compile_locals (sc_function (scopes s1 a)) (int (getOpcodePos s)) (sc_locals (scopes s1 a)) s1 = Some s'"
    by (auto simp: writeOpcodes.simps [of scope e s] Let_def)
  have "break_target s scope tg" using r by (simp add: ready_def)
  then have "ready index tg a (exp_list e) s"
    using a inner break_target_scope [of s scope tg a] exp_kind_scopes(1) [OF k] by auto
  note g = generates_quiet [OF correct_list_here [OF elements [OF sub] this s1(1) small_list [OF small]] quiet_locals [OF s1(2)]]
  have means: "eval ops index e = evals ops index (exp_list e)" for ops :: "('v, 'w) interp_ops"
    using k by (simp add: eval.simps [of _ _ e])
  show "generates tg (set (scope_addrs e)) (3 * exp_count e) (last_slots e) (join_slots e) (ends_fusible e) s s'
      (\<lambda>ops :: ('v, 'w) interp_ops. eval ops index e)"
    unfolding means
    by (rule generates_mono [OF g])
      (use k a(5) in \<open>auto simp: last_slots_eq [of e] join_slots_eq [of e] ends_fusible_eq [of e] exp_count_eq [of e]\<close>)
qed

lemma fixLoopBreaks_loop_code:
  assumes "written (Some a) as s (c1 @ c2 @ [jump_word (- int (length c1 + length c2) - 1)])
      (b1 @ shift_breaks (length c1) b2) s1" "sc_loop_breaks (scopes s a) = []" "a \<notin> as"
    and "breaks_ok c1 b1" "breaks_ok c2 b2"
    and "scope_fixLoopBreaks a (code_len s + k) (code_len s1) s1 = Some s2"
  shows "prog_opcodes s2 = prog_opcodes s @ loop_code c1 b1 c2 b2 k" "scopes s2 = scopes s1"
    "prog_optimize_offs s2 = prog_optimize_offs s1"
proof -
  let ?c = "c1 @ c2 @ [jump_word (- int (length c1 + length c2) - 1)]"
  let ?b = "b1 @ shift_breaks (length c1) b2"
  have p: "prog_opcodes s1 = prog_opcodes s @ ?c" and br: "sc_loop_breaks (scopes s1 a) = shift_breaks (code_len s) ?b"
    using assms(1-3) by (simp_all add: written_def)
  have s2: "s2 = s1\<lparr>prog_opcodes := fixLoopBreaks (prog_opcodes s1) (shift_breaks (code_len s) ?b) (code_len s + k) (code_len s1)\<rparr>"
    using fix_breaks_prog assms(6) br by (simp add: scope_fixLoopBreaks_def)
  have "breaks_ok (c1 @ c2) ?b" by (rule breaks_ok_append [OF assms(4,5)])
  then have "\<forall>b \<in> set ?b. lb_pos b < length (c1 @ c2)" by (simp add: breaks_ok_def)
  then have "\<forall>b \<in> set ?b. lb_pos b < length ?c" by fastforce
  note fixLoopBreaks_shift [OF this, of "prog_opcodes s" k "length c1 + length c2 + 1"]
  then show "prog_opcodes s2 = prog_opcodes s @ loop_code c1 b1 c2 b2 k"
    using p s2 by (simp add: loop_code_def add.assoc)
  show "scopes s2 = scopes s1" "prog_optimize_offs s2 = prog_optimize_offs s1" by (simp_all add: s2)
qed

lemma last_loop_code:
  assumes "breaks_ok c1 b1" "breaks_ok c2 b2"
  shows "\<exists>c d. loop_code c1 b1 c2 b2 k = c @ [jump_word d]"
proof -
  let ?n = "length c1 + length c2" and ?b = "b1 @ shift_breaks (length c1) b2"
  have "breaks_ok (c1 @ c2) ?b" by (rule breaks_ok_append [OF assms])
  then have pos: "lb_pos b < ?n" if "b \<in> set ?b" for b using that by (auto simp: breaks_ok_def)
  have "?n \<notin> break_positions ?b"
  proof
    assume "?n \<in> break_positions ?b"
    then obtain b where "b \<in> set ?b" "?n = lb_pos b" by (rule imageE)
    with pos [of b] show False by simp
  qed
  then have "loop_code c1 b1 c2 b2 k ! ?n = jump_word (- int ?n - 1)"
    unfolding loop_code_def by (simp add: fixLoopBreaks_other nth_append)
  moreover have "loop_code c1 b1 c2 b2 k = take ?n (loop_code c1 b1 c2 b2 k) @ [loop_code c1 b1 c2 b2 k ! ?n]"
    by (metis length_loop_code lessI take_Suc_conv_app_nth take_all order_refl)
  ultimately show ?thesis by metis
qed

text \<open>What both kinds of loops do with the code of their parts.\<close>

lemma generates_loop:
  fixes R1 R2 :: "('v, 'w) interp_ops \<Rightarrow> ('v, 'w) behaviour"
  assumes 1: "written (Some a) as1 s c1 b1 s1" "\<And>ops. sizes_ok ops (scopes s1) as1 \<Longrightarrow> code_for ops c1 b1 (R1 ops)"
    and 2: "written (Some a) as2 s1 c2 b2 s2" "\<And>ops. sizes_ok ops (scopes s2) as2 \<Longrightarrow> code_for ops c2 b2 (R2 ops)"
    and ok: "breaks_ok c1 b1" "breaks_ok c2 b2" and d: "as1 \<inter> as2 = {}" "a \<notin> as1" "a \<notin> as2"
    and a: "sc_loop_breaks (scopes s a) = []" and offs: "prog_optimize_offs s2 \<le> code_len s2"
    and brk: "scope_fixLoopBreaks a (code_len s + k) (getOpcodePos (put_jump (int (code_len s) - int (code_len s2) - 2) s2))
      (put_jump (int (code_len s) - int (code_len s2) - 2) s2) = Some s3"
    and k: "k = length c1 \<or> k = 0 \<and> c2 = [] \<and> R2 = (\<lambda>ops. skip)"
    and n: "length c1 + length c2 + 1 \<le> n" "small n"
  shows "generates tg (insert a (as1 \<union> as2)) n L J P s s3 (\<lambda>ops. loop (R1 ops) (R2 ops))"
proof -
  let ?as = "as1 \<union> as2"
  let ?j = "put_jump (int (code_len s) - int (code_len s2) - 2) s2"
  have c12: "written (Some a) ?as s (c1 @ c2) (b1 @ shift_breaks (length c1) b2) s2"
    by (rule written_trans [OF written_mono [OF 1(1)] written_mono [OF 2(1)]]) simp_all
  note both = written_trans [OF c12 written_put(3), of "int (code_len s) - int (code_len s2) - 2"]
  have "int (code_len s) - int (code_len s2) - 2 + 1 = - int (length c1 + length c2) - 1"
    using written_len [OF c12] by simp
  with both have w: "written (Some a) ?as s (c1 @ c2 @ [jump_word (- int (length c1 + length c2) - 1)])
      (b1 @ shift_breaks (length c1) b2) ?j" by simp
  have "a \<notin> ?as" using d by simp
  note s3 = fixLoopBreaks_loop_code [OF w a this ok brk [unfolded getOpcodePos_def]]
  have "written tg (insert a ?as) s (loop_code c1 b1 c2 b2 k) [] s3"
    by (rule written_mono [OF written_inner [OF w s3(1,2)]]) simp_all
  moreover have "tail_ok L J P (loop_code c1 b1 c2 b2 k) T (code_len s) (prog_optimize_offs s3)" for T
  proof -
    obtain c d where c: "loop_code c1 b1 c2 b2 k = c @ [jump_word d]" using last_loop_code [OF ok] by blast
    have "prog_optimize_offs s3 \<le> code_len s + Suc (length c)"
      using s3(3) offs written_len [OF 1(1)] written_len [OF 2(1)] arg_cong [OF c, of length] by simp
    with c show ?thesis by (simp add: tail_ok_other)
  qed
  moreover have "code_for ops (loop_code c1 b1 c2 b2 k) [] (loop (R1 ops) (R2 ops))"
    if "sizes_ok ops (scopes s3) (insert a ?as)" for ops
  proof -
    have "sizes_ok ops (scopes s2) ?as" using that s3(2) by (auto simp: sizes_ok_def)
    then have "sizes_ok ops (scopes s1) as1" "sizes_ok ops (scopes s2) as2"
      by (simp_all add: sizes_ok_Un sizes_ok_before [OF 2(1) d(1)])
    then show ?thesis
      by (rule code_loop [OF 1(2) 2(2)]) (use k n in \<open>auto intro: small_mono\<close>)
  qed
  ultimately show ?thesis using n(1) by (intro generatesI [of tg _ s "loop_code c1 b1 c2 b2 k" "[]"]) simp_all
qed

lemma correct_KLoop:
  assumes k: "exp_kind (exp_type e) = KLoop"
    and sub: "\<forall>x. size x < size e \<longrightarrow> correct (\<lambda>ops :: ('v, 'w) interp_ops. eval ops index) index x"
  shows "correct (\<lambda>ops :: ('v, 'w) interp_ops. eval ops index) index e"
proof (rule correctI)
  fix tg scope s s'
  assume r: "ready index tg scope [e] s" and w: "writeOpcodes scope e s = Some (True, s')" and small: "small (3 * exp_count e)"
  let ?es = "exp_list e" and ?as = "set (list_addrs (exp_list e))"
  have "has_scope (exp_type e)" using k by (simp add: has_scope_def)
  obtain a where a: "exp_scope e = Some a" "sc_type (scopes s a) = exp_type e" "sc_parent (scopes s a) = Some scope"
    "sc_loop_breaks (scopes s a) = []" "scope_addrs e = a # list_addrs (exp_list e)" "tg \<noteq> Some a"
    "a \<notin> set (list_addrs (exp_list e))"
    and inner: "\<forall>tg'. break_target s a tg' \<and> (tg' = tg \<or> tg' = None \<or> tg' = Some a) \<longrightarrow> ready index tg' a (exp_list e) s"
    by (rule ready_scope [OF r \<open>has_scope (exp_type e)\<close>]) blast
  from w k a(1) obtain s1 s2 where s1: "writeOpcodes_list a True ?es (optimize_from_here s) = Some (True, s1)"
    and s2: "scope_fixLoopBreaks a (code_len s + 0) (getOpcodePos (put_jump (int (code_len s) - int (code_len s1) - 2) s1))
        (put_jump (int (code_len s) - int (code_len s1) - 2) s1) = Some s2"
    and s': "compile_locals (sc_function (scopes s2 a)) (int (code_len s)) (sc_locals (scopes s2 a)) s2 = Some s'"
    by (auto simp: writeOpcodes.simps [of scope e s] Let_def getOpcodePos_def split: bind_splits)
  have "break_target s a (Some a)" using a(2) exp_kind_scopes(3) [OF k] by (simp add: break_target_loop)
  with inner have "ready index (Some a) a ?es s" by blast
  note g = correct_list_here [OF elements [OF sub] this s1 small_list [OF small]]
  obtain c bs where c: "written (Some a) ?as s c bs s1" "breaks_ok c bs" "length c \<le> 3 * list_count ?es"
    "\<And>ops :: ('v, 'w) interp_ops. sizes_ok ops (scopes s1) ?as \<Longrightarrow> code_for ops c bs (evals ops index ?es)"
    by (rule generatesE [OF g]) blast
  have n: "length c + length ([] :: u32 list) + 1 \<le> 3 * exp_count e" using c(3) by (simp add: exp_count_eq [of e])
  have "generates tg (insert a (?as \<union> {})) (3 * exp_count e) (last_slots e) (join_slots e) (ends_fusible e) s s2
      (\<lambda>ops :: ('v, 'w) interp_ops. loop (evals ops index ?es) skip)"
    by (rule generates_loop [OF c(1,4) written_Nil code_for_Nil c(2) breaks_ok_Nil _ a(7) _ a(4) generates_le [OF g] s2 _ n small])
      simp_all
  from generates_quiet [OF this quiet_locals [OF s']]
  show "generates tg (set (scope_addrs e)) (3 * exp_count e) (last_slots e) (join_slots e) (ends_fusible e) s s'
      (\<lambda>ops :: ('v, 'w) interp_ops. eval ops index e)"
    using k a(5) by (simp add: eval.simps [of _ _ e])
qed

lemma evals_append: "evals ops index (es @ fs) = seq (evals ops index es) (evals ops index fs)"
proof (induction es)
  case (Cons e es)
  have "seq R1 (seq R2 R3) m out \<longleftrightarrow> seq (seq R1 R2) R3 m out" for R1 R2 R3 :: "('a, 'b) behaviour" and m out
    unfolding seq_def by auto
  then show ?case by (simp add: Cons fun_eq_iff)
qed simp

text \<open>A list that is written without a reset of the peephole.\<close>

lemma correct_list_plain:
  assumes "\<forall>x \<in> set es. correct (\<lambda>ops :: ('v, 'w) interp_ops. eval ops index) index x" "ready index tg scope es s"
    and "writeOpcodes_list scope opt es s = Some (True, s')" "small (3 * list_count es)"
  obtains c bs where "written tg (set (list_addrs es)) s c bs s'" "breaks_ok c bs" "length c \<le> 3 * list_count es"
    "prog_optimize_offs s' \<le> code_len s'"
    "\<forall>ops :: ('v, 'w) interp_ops. sizes_ok ops (scopes s') (set (list_addrs es)) \<longrightarrow> code_for ops c bs (evals ops index es)"
proof (cases "es = []")
  case True
  with assms(3) have "s' = s" by simp
  show ?thesis
    by (rule that [of "[]" "[]"])
      (use True \<open>s' = s\<close> ready_offs [OF assms(2)] in \<open>simp_all add: written_Nil code_for_Nil\<close>)
next
  case False
  have g: "generates tg (set (list_addrs es)) (3 * list_count es) (concat (map last_slots es)) (concat (map join_slots es))
      (list_ex ends_fusible es) s s' (\<lambda>ops :: ('v, 'w) interp_ops. evals ops index es)"
    by (rule correct_list [OF assms False]) simp_all
  show ?thesis
  proof (rule generatesE [OF g])
    fix c bs
    assume A: "written tg (set (list_addrs es)) s c bs s'" "breaks_ok c bs" "length c \<le> 3 * list_count es"
      and *: "\<And>ops :: ('v, 'w) interp_ops. sizes_ok ops (scopes s') (set (list_addrs es)) \<Longrightarrow> code_for ops c bs (evals ops index es)
        \<and> tail_ok (concat (map last_slots es)) (concat (map join_slots es)) (list_ex ends_fusible es) c (targets ops c bs)
            (code_len s) (prog_optimize_offs s')"
    show ?thesis by (rule that [OF A generates_le [OF g]]) (use * in blast)
  qed
qed

lemma correct_KForLoop:
  assumes k: "exp_kind (exp_type e) = KForLoop"
    and sub: "\<forall>x. size x < size e \<longrightarrow> correct (\<lambda>ops :: ('v, 'w) interp_ops. eval ops index) index x"
  shows "correct (\<lambda>ops :: ('v, 'w) interp_ops. eval ops index) index e"
proof (rule correctI)
  fix tg scope s s'
  assume r: "ready index tg scope [e] s" and w: "writeOpcodes scope e s = Some (True, s')" and small: "small (3 * exp_count e)"
  let ?es1 = "butlast (exp_list e)" and ?es2 = "drop (length (exp_list e) - 1) (exp_list e)"
  let ?as1 = "set (list_addrs ?es1)" and ?as2 = "set (list_addrs ?es2)"
  have es: "exp_list e = ?es1 @ ?es2" by (metis append_take_drop_id butlast_conv_take)
  then have parts: "list_addrs (exp_list e) = list_addrs ?es1 @ list_addrs ?es2"
    "list_count (exp_list e) = list_count ?es1 + list_count ?es2"
    "set (exp_list e) = set ?es1 \<union> set ?es2" by (metis concat_append map_append, metis map_append sum_list_append, metis set_append)
  have "has_scope (exp_type e)" using k by (simp add: has_scope_def)
  obtain a where a: "exp_scope e = Some a" "sc_type (scopes s a) = exp_type e" "sc_parent (scopes s a) = Some scope"
    "sc_loop_breaks (scopes s a) = []" "scope_addrs e = a # list_addrs (exp_list e)" "tg \<noteq> Some a"
    "a \<notin> set (list_addrs (exp_list e))"
    and inner: "\<forall>tg'. break_target s a tg' \<and> (tg' = tg \<or> tg' = None \<or> tg' = Some a) \<longrightarrow> ready index tg' a (exp_list e) s"
    by (rule ready_scope [OF r \<open>has_scope (exp_type e)\<close>]) blast
  from w k a(1) obtain s1 s2 s3 where s1: "writeOpcodes_list a False ?es1 s = Some (True, s1)"
    and s2: "writeOpcodes_list a False ?es2 s1 = Some (True, s2)"
    and s3: "scope_fixLoopBreaks a (if (if exp_list e = [] then 0 else code_len s1) \<noteq> 0 then code_len s1 else code_len s)
          (getOpcodePos (put_jump (int (code_len s) - int (code_len s2) - 2) s2))
        (put_jump (int (code_len s) - int (code_len s2) - 2) s2) = Some s3"
    and s': "compile_locals (sc_function (scopes s3 a)) (int (code_len s)) (sc_locals (scopes s3 a)) s3 = Some s'"
    by (auto simp: writeOpcodes.simps [of scope e s] Let_def getOpcodePos_def split: bind_splits if_splits)
  have "break_target s a (Some a)" using a(2) exp_kind_scopes(4) [OF k] by (simp add: break_target_loop)
  with inner es have rdy: "ready index (Some a) a (?es1 @ ?es2) s" by simp
  then have rdy1: "ready index (Some a) a ?es1 s" using ready_part [of index "Some a" a "[]" ?es1 ?es2 s] by simp
  have d: "?as1 \<inter> ?as2 = {}" "a \<notin> ?as1" "a \<notin> ?as2" using rdy a(7) parts(1) by (auto simp: ready_def)
  have el: "\<forall>x \<in> set ?es1. correct (\<lambda>ops :: ('v, 'w) interp_ops. eval ops index) index x"
    "\<forall>x \<in> set ?es2. correct (\<lambda>ops :: ('v, 'w) interp_ops. eval ops index) index x"
    using elements [OF sub] parts(3) by blast+
  have sm: "small (3 * list_count ?es1)" "small (3 * list_count ?es2)"
    using small_list [OF small] parts(2) by (auto elim: small_mono)
  obtain c1 b1 where c1: "written (Some a) ?as1 s c1 b1 s1" "breaks_ok c1 b1" "length c1 \<le> 3 * list_count ?es1"
    "prog_optimize_offs s1 \<le> code_len s1"
    "\<forall>ops :: ('v, 'w) interp_ops. sizes_ok ops (scopes s1) ?as1 \<longrightarrow> code_for ops c1 b1 (evals ops index ?es1)"
    by (rule correct_list_plain [OF el(1) rdy1 s1 sm(1)])
  have "ready index (Some a) a ?es2 s1"
    by (rule ready_after [OF _ c1(1) _ c1(4)])
      (use ready_part [of index "Some a" a ?es1 ?es2 "[]" s] rdy d(1) in \<open>simp_all add: Int_commute\<close>)
  then obtain c2 b2 where c2: "written (Some a) ?as2 s1 c2 b2 s2" "breaks_ok c2 b2" "length c2 \<le> 3 * list_count ?es2"
    "prog_optimize_offs s2 \<le> code_len s2"
    "\<forall>ops :: ('v, 'w) interp_ops. sizes_ok ops (scopes s2) ?as2 \<longrightarrow> code_for ops c2 b2 (evals ops index ?es2)"
    by (rule correct_list_plain [OF el(2) _ s2 sm(2)])
  have n: "length c1 + length c2 + 1 \<le> 3 * exp_count e" using c1(3) c2(3) parts(2) by (simp add: exp_count_eq [of e])
  have "exp_list e = [] \<Longrightarrow> s1 = s" using s1 by simp
  then have "(if (if exp_list e = [] then 0 else code_len s1) \<noteq> 0 then code_len s1 else code_len s) = code_len s + length c1"
    using written_len [OF c1(1)] by auto
  note brk = s3 [unfolded this]
  have "generates tg (insert a (?as1 \<union> ?as2)) (3 * exp_count e) (last_slots e) (join_slots e) (ends_fusible e) s s3
      (\<lambda>ops :: ('v, 'w) interp_ops. loop (evals ops index ?es1) (evals ops index ?es2))"
    by (rule generates_loop [OF c1(1) c1(5) [rule_format] c2(1) c2(5) [rule_format] c1(2) c2(2) d a(4) c2(4) brk _ n small])
      simp_all
  from generates_quiet [OF this quiet_locals [OF s']]
  show "generates tg (set (scope_addrs e)) (3 * exp_count e) (last_slots e) (join_slots e) (ends_fusible e) s s'
      (\<lambda>ops :: ('v, 'w) interp_ops. eval ops index e)"
    using k a(5) parts(1) by (simp add: eval.simps [of _ _ e])
qed

section \<open>Functions\<close>

lemma written_no_breaks: "written tg as s c [] s' \<Longrightarrow> written tg' as s c [] s'"
  by (simp add: written_def cong: if_cong)

lemma written_set_func: "written tg {a} s [] [] (set_func a f s)"
  by (simp add: written_def same_links_def same_extent_def)

text \<open>
  The code of a function literal: its instruction, the body, and the return at its end.  Nothing is needed of
  the scope around it.
\<close>

lemma function_parts:
  assumes sub: "\<forall>x. size x < size e \<longrightarrow> correct (\<lambda>ops :: ('v, 'w) interp_ops. eval ops index) index x"
    and k: "exp_kind (exp_type e) = KFunction" and a: "exp_scope e = Some a"
    and r: "ready index None a (exp_list e) s" "a \<notin> set (list_addrs (exp_list e))"
    and w: "writeOpcodes scope e s = Some (True, s')" and small: "small (3 * exp_count e)"
  obtains w c ret where "function_word index e = Some w" "word_ABC OP_RETURN 0 0 1 = Some ret" "0 \<le> index a"
    "written None (insert a (set (list_addrs (exp_list e)))) s (w # c @ [ret]) [] s'" "length c \<le> 3 * list_count (exp_list e)"
    "prog_optimize_offs s' \<le> code_len s + Suc (length c)"
    "sc_func (scopes s' a) = sc_func (scopes s' a)\<lparr>fs_opcodes_pos := int (code_len s + 1), fs_opcodes_size := int (length c + 1)\<rparr>"
    "\<And>ops :: ('v, 'w) interp_ops. sizes_ok ops (scopes s') (set (list_addrs (exp_list e))) \<Longrightarrow>
      code_for ops c [] (evals ops index (exp_list e))"
proof -
  let ?es = "exp_list e" and ?as = "set (list_addrs (exp_list e))"
  from w k a obtain s1 s2 s3 s4 s5 s6 s7 where s1: "writeDebugInfo e s = Some s1"
    and s2: "sc_prog_func_index (scopes s1 a) \<ge> 0" "put_ABC OP_NEW_FUNCTION (slot_A e) (sc_prog_func_index (scopes s1 a)) 0 s1 = Some s2"
    and s3: "s3 = reserve_locals a s2" and s4: "s4 = set_func a (\<lambda>f. f\<lparr>fs_opcodes_pos := int (code_len s3)\<rparr>) s3"
    and s5: "writeOpcodes_list a True ?es (optimize_from_here s4) = Some (True, s5)"
    and s6: "put_ABC OP_RETURN 0 0 1 s5 = Some s6"
    and s7: "s7 = set_func a (\<lambda>f. f\<lparr>fs_opcodes_size := int (code_len s6) - fs_opcodes_pos f\<rparr>) s6"
    and s': "compile_locals a (fs_opcodes_pos (sc_func (scopes s7 a))) (sc_locals (scopes s7 a)) s7 = Some s'"
    by (auto simp: writeOpcodes.simps [of scope e s] Let_def getOpcodePos_def split: bind_splits)
  have index: "sc_prog_func_index (scopes s1 a) = index a"
    using r(1) quiet_debug [OF s1] by (simp add: ready_def quiet_def same_links_def)
  obtain w where word: "word_ABC OP_NEW_FUNCTION (slot_A e) (index a) 0 = Some w" "s2 = put_opcode w s1"
    using s2(2) index by (auto simp: put_ABC_Some)
  obtain ret where ret: "word_ABC OP_RETURN 0 0 1 = Some ret" "s6 = put_opcode ret s5" using s6 by (auto simp: put_ABC_Some)
  have "written None {} s [w] [] s2" unfolding word(2) by (rule quiet_written [OF quiet_debug [OF s1] written_put(1)])
  from written_mono [OF written_quiet [OF this quiet_reserve [of s2 a]], of "{a}"]
  have w3: "written None {a} s [w] [] s3" by (simp add: s3)
  from written_trans [OF this written_set_func [of None a s3]]
  have w4: "written None {a} s [w] [] s4" by (simp add: s4)
  have "ready index None a ?es s4"
    by (rule ready_after [OF r(1) w4]) (use r(2) ready_offs [OF r(1)] quiet_debug [OF s1] quiet_reserve [of s2 a] word(2)
        in \<open>simp_all add: s4 s3 quiet_def\<close>)
  note g = correct_list_here [OF elements [OF sub] this s5 small_list [OF small]]
  obtain c where c: "written None ?as s4 c [] s5" "length c \<le> 3 * list_count ?es"
    "\<And>ops :: ('v, 'w) interp_ops. sizes_ok ops (scopes s5) ?as \<Longrightarrow> code_for ops c [] (evals ops index ?es)"
  proof (rule generatesE [OF g])
    fix c bs
    assume "written None ?as s4 c bs s5" "length c \<le> 3 * list_count ?es"
      and *: "\<And>ops :: ('v, 'w) interp_ops. sizes_ok ops (scopes s5) ?as \<Longrightarrow> code_for ops c bs (evals ops index ?es)
        \<and> tail_ok (concat (map last_slots ?es)) (concat (map join_slots ?es)) (list_ex ends_fusible ?es) c (targets ops c bs)
            (code_len s4) (prog_optimize_offs s5)"
    moreover from this(1) have "bs = []" by (simp add: written_def)
    ultimately show ?thesis by (intro that [of c]) (simp_all add: *)
  qed
  let ?code = "w # c @ [ret]"
  have all: "written None (insert a ?as) s ?code [] s'"
  proof -
    let ?as' = "insert a ?as"
    have "written None ?as' s4 (c @ [ret]) [] s6"
      using written_trans [OF written_mono [OF c(1), of ?as'] written_put(1), of ret] by (simp add: ret(2) subset_insertI)
    from written_trans [OF written_mono [OF w4, of ?as'] this] have "written None ?as' s ?code [] s6" by simp
    from written_trans [OF this written_mono [OF written_set_func, of a ?as']] have "written None ?as' s ?code [] s7"
      by (simp add: s7)
    then show ?thesis by (rule written_quiet) (rule quiet_locals [OF s'])
  qed
  have len: "code_len s3 = code_len s + 1" "code_len s6 = code_len s + length c + 2"
    using written_len [OF w3] written_len [OF w4] written_len [OF c(1)] ret(2) by simp_all
  have "fs_opcodes_pos (sc_func (scopes s5 a)) = int (code_len s3)"
    using c(1) r(2) by (simp add: written_def same_extent_def s4)
  then have "fs_opcodes_size (sc_func (scopes s7 a)) = int (length c + 1)" "fs_opcodes_pos (sc_func (scopes s7 a)) = int (code_len s + 1)"
    using len by (simp_all add: s7 ret(2))
  with quiet_locals [OF s'] have extent: "fs_opcodes_size (sc_func (scopes s' a)) = int (length c + 1)"
    "fs_opcodes_pos (sc_func (scopes s' a)) = int (code_len s + 1)" by (simp_all add: quiet_def same_extent_def)
  have body: "code_for ops c [] (evals ops index ?es)" if sz: "sizes_ok ops (scopes s') ?as" for ops :: "('v, 'w) interp_ops"
  proof -
    have "sizes_ok ops (scopes s7) ?as" using sz by (simp only: sizes_ok_quiet [OF quiet_locals [OF s']])
    moreover have "written None {a} s5 ([ret] @ []) ([] @ shift_breaks (length [ret]) []) s7"
      unfolding s7 ret(2) by (rule written_trans [OF written_put(1) written_set_func])
    ultimately show ?thesis using r(2) sizes_ok_before [of None "{a}" s5 _ _ s7 ?as ops] c(3) by simp
  qed
  have offs: "prog_optimize_offs s' \<le> code_len s + Suc (length c)"
    using generates_le [OF g] written_len [OF w4] written_len [OF c(1)] quiet_locals [OF s'] by (simp add: quiet_def s7 ret(2))
  show thesis
    by (rule that [OF _ ret(1) _ all c(2) offs]) (use word(1) a body s2(1) index extent in \<open>simp_all add: function_word_def\<close>)
qed

lemma correct_KFunction:
  assumes k: "exp_kind (exp_type e) = KFunction"
    and sub: "\<forall>x. size x < size e \<longrightarrow> correct (\<lambda>ops :: ('v, 'w) interp_ops. eval ops index) index x"
  shows "correct (\<lambda>ops :: ('v, 'w) interp_ops. eval ops index) index e"
proof (rule correctI)
  fix tg scope s s'
  assume r: "ready index tg scope [e] s" and w: "writeOpcodes scope e s = Some (True, s')" and small: "small (3 * exp_count e)"
  let ?es = "exp_list e" and ?as = "set (list_addrs (exp_list e))"
  have "has_scope (exp_type e)" using k by (simp add: has_scope_def)
  obtain a where a: "exp_scope e = Some a" "sc_type (scopes s a) = exp_type e" "scope_addrs e = a # list_addrs ?es"
    "a \<notin> set (list_addrs ?es)"
    and inner: "\<forall>tg'. break_target s a tg' \<and> (tg' = tg \<or> tg' = None \<or> tg' = Some a) \<longrightarrow> ready index tg' a ?es s"
    by (rule ready_scope [OF r \<open>has_scope (exp_type e)\<close>]) blast
  have "break_target s a None" using a(2) exp_kind_scopes(2) [OF k] by (simp add: break_target_function)
  with inner have ready: "ready index None a ?es s" by blast
  obtain w c ret where word: "function_word index e = Some w" "word_ABC OP_RETURN 0 0 1 = Some ret" "0 \<le> index a"
    and all: "written None (insert a ?as) s (w # c @ [ret]) [] s'" "length c \<le> 3 * list_count ?es"
    and offs: "prog_optimize_offs s' \<le> code_len s + Suc (length c)"
    and extent: "sc_func (scopes s' a)
      = sc_func (scopes s' a)\<lparr>fs_opcodes_pos := int (code_len s + 1), fs_opcodes_size := int (length c + 1)\<rparr>"
    and body: "\<And>ops :: ('v, 'w) interp_ops. sizes_ok ops (scopes s') ?as \<Longrightarrow>
      code_for ops c [] (evals ops index ?es)"
    by (rule function_parts [OF sub k a(1) ready a(4) w small]) blast
  from word(1) a(1) have w_eq: "word_ABC OP_NEW_FUNCTION (slot_A e) (index a) 0 = Some w" by (simp add: function_word_def)
  have code: "code_for ops (w # c @ [ret]) [] (eval ops index e)"
    if sz: "sizes_ok ops (scopes s') (insert a ?as)" for ops :: "('v, 'w) interp_ops"
  proof -
    have links: "sc_type (scopes s' a) = EXP_TYPE_FUNCTION" "sc_prog_func_index (scopes s' a) = index a"
      using written_links [OF all(1)] a(2) exp_kind_scopes(2) [OF k] r by (simp_all add: same_links_def ready_def)
    have "fs_opcodes_size (sc_func (scopes s' a)) = int (length c + 1)" by (subst extent) simp
    moreover have "OS_GETARG_B w = nat (index a)"
      using word_ABC_decode(3) [OF w_eq] word(3) by (simp add: operand_index_def)
    ultimately have fs: "io_func_size ops (OS_GETARG_B w) = length (c @ [ret])"
      using sz links by (simp add: sizes_ok_def)
    have "has_op w OP_NEW_FUNCTION" using word_ABC_decode(1) [OF w_eq] by simp
    have plain: "plain ret" by (rule plain_word [OF word(2)]) (simp_all add: test_opcodes_def compare_opcodes_def)
    have "sizes_ok ops (scopes s') ?as" using sz by (simp add: sizes_ok_def)
    from code_for_append [OF body [OF this] code_for_one(1) [OF plain]] have "code_for ops (c @ [ret]) []
        (seq (evals ops index ?es) (one_instr ops ret))" by simp
    from code_function [OF this \<open>has_op w OP_NEW_FUNCTION\<close> fs] show ?thesis
      using k word(1) by (simp add: eval.simps [of _ _ e] with_word_def)
  qed
  have "\<not> has_op ret OP_MOVE" using word_ABC_decode(1) [OF word(2)] by simp
  then have tail: "tail_ok L J P (w # c @ [ret]) T (code_len s) (prog_optimize_offs s')" for L J P T
    using tail_ok_other [of ret "prog_optimize_offs s'" "code_len s" "w # c"] offs by simp
  show "generates tg (set (scope_addrs e)) (3 * exp_count e) (last_slots e) (join_slots e) (ends_fusible e) s s'
      (\<lambda>ops :: ('v, 'w) interp_ops. eval ops index e)"
    by (rule generatesI [OF written_no_breaks [of None _ s "w # c @ [ret]"]])
      (use all code tail a(3) in \<open>simp_all add: exp_count_eq [of e]\<close>)
qed

end
