(* ===== verification/CodeBranches.thy ===== *)
theory CodeBranches
  imports CodeInduct
begin

text \<open>
  The cases of the generator with forward jumps: breaks, object literals, \<open>if\<close> and \<open>?:\<close>, \<open>&&\<close> and \<open>||\<close>, \<open>try\<close>.
\<close>

section \<open>Breaks and containers\<close>

lemma correct_KBreak:
  assumes k: "exp_kind (exp_type e) = KBreak"
  shows "correct (\<lambda>ops :: ('v, 'w) interp_ops. eval ops index) index e"
proof (rule correctI)
  fix tg scope s s'
  assume r: "ready index tg scope [e] s" and w: "writeOpcodes scope e s = Some (True, s')" and small: "small (3 * exp_count e)"
  let ?t = "if exp_type e = EXP_TYPE_BREAK then LOOP_BREAK else LOOP_CONTINUE"
  from w k obtain s1 where s1: "writeDebugInfo e s = Some s1"
    and brk: "addLoopBreak scope (code_len s1) ?t (put_type OP_JUMP s1) = Some (True, s')"
    by (auto simp: writeOpcodes.simps [of scope e s] Let_def getOpcodePos_def split: bind_splits if_splits)
  note q = quiet_debug [OF s1]
  have links: "same_links s s1" using q by (simp add: quiet_def)
  have "break_target s scope tg" using r by (simp add: ready_def)
  with links have "find_break_scope ?t (scopes s1) (Some scope) = Some tg"
    using break_target_links break_target_def by blast
  with brk obtain a where a: "tg = Some a" and s': "s' = set_scope a (\<lambda>sc. sc\<lparr>sc_loop_breaks := sc_loop_breaks sc
      @ [\<lparr>lb_pos = code_len s1, lb_type = ?t\<rparr>]\<rparr>) (put_type OP_JUMP s1)"
    by (auto simp: addLoopBreak_def split: option.splits)
  let ?j = "of_nat (opcode_index OP_JUMP) :: u32" and ?b = "\<lparr>lb_pos = 0, lb_type = ?t\<rparr>"
  have wr: "written tg (set (scope_addrs e)) s1 [?j] [?b] s'"
    unfolding s' a by (simp add: written_def same_links_def same_extent_def shift_breaks_def)
  have j: "has_op ?j OP_JUMP" using has_op_word by blast
  have "code_for ops [?j] [?b] (eval ops index e)" for ops :: "('v, 'w) interp_ops"
  proof -
    have "targets ops [?j] [?b] = {}" by (simp add: targets_def)
    moreover have "breaks_ok [?j] [?b]" using j by (simp add: breaks_ok_def)
    moreover have "frag_run ops [?j] [?b] 0 m out" if "breaks e m out" for m out
      using that frag_run.break_out [of ?b "[?b]" ops "[?j]" m] frag_run.continue_out [of ?b "[?b]" ops "[?j]" m]
      by (auto simp: breaks_def split: if_splits)
    ultimately show ?thesis using k by (simp add: code_for_def frag_ok_def eval.simps [of _ _ e])
  qed
  moreover have "tail_ok L J P [?j] T (code_len s) (prog_optimize_offs s')" for L J P T
  proof -
    have "\<not> has_op ?j OP_MOVE" using j has_op_unique by blast
    from tail_ok_other [OF this, of "prog_optimize_offs s'" "code_len s" "[]"] show ?thesis
      using ready_offs [OF r] q by (simp add: s' quiet_def)
  qed
  ultimately show "generates tg (set (scope_addrs e)) (3 * exp_count e) (last_slots e) (join_slots e) (ends_fusible e) s s'
      (\<lambda>ops :: ('v, 'w) interp_ops. eval ops index e)"
    using j by (intro generatesI [OF quiet_written [OF q wr]]) (simp_all add: breaks_ok_def exp_count_eq [of e])
qed

lemma correct_KContainer:
  assumes k: "exp_kind (exp_type e) = KContainer"
    and sub: "\<forall>x. size x < size e \<longrightarrow> correct (\<lambda>ops :: ('v, 'w) interp_ops. eval ops index) index x"
  shows "correct (\<lambda>ops :: ('v, 'w) interp_ops. eval ops index) index e"
proof (rule correctI)
  fix tg scope s s'
  assume r: "ready index tg scope [e] s" and w: "writeOpcodes scope e s = Some (True, s')" and small: "small (3 * exp_count e)"
  have no_scope: "\<not> has_scope (exp_type e)" using k by (simp add: has_scope_def)
  from w k obtain s1 w where s1: "writeDebugInfo e s = Some s1" and word: "own_word e = Some w"
    and list: "writeOpcodes_list scope False (exp_list e) (optimize_from_here (put_opcode w s1)) = Some (True, s')"
    by (auto simp: writeOpcodes.simps [of scope e s] own_instruction_def split: bind_splits)
  note q = quiet_debug [OF s1]
  have "\<not> has_op w OP_MOVE" using own_word_plain(2) [OF word] k by (auto simp: exp_kind_def)
  note g1 = quiet_generates [OF q generates_leaf [OF written_offs [OF r q] own_word_plain(1) [OF word] this]]
  have wr: "written tg {} s [w] [] (put_opcode w s1)" by (rule quiet_written [OF q written_put(1)])
  have "ready index tg scope (exp_list e) (put_opcode w s1)"
    by (rule ready_after [OF ready_list [OF r no_scope] wr]) (use written_offs [OF r q] in simp_all)
  note g2 = correct_list_here [OF elements [OF sub] this list small_list [OF small]]
  note g = generates_seq [OF g1 [of tg "{}" "[]" "[]" False] g2]
  have means: "eval ops index e = seq (one_instr ops w) (evals ops index (exp_list e))" for ops :: "('v, 'w) interp_ops"
    using k word by (simp add: eval.simps [of _ _ e] with_word_def)
  show "generates tg (set (scope_addrs e)) (3 * exp_count e) (last_slots e) (join_slots e) (ends_fusible e) s s'
      (\<lambda>ops :: ('v, 'w) interp_ops. eval ops index e)"
    unfolding means
    by (rule generates_mono [OF g])
      (use k no_scope in \<open>simp_all add: last_slots_eq [of e] join_slots_eq [of e] ends_fusible_eq [of e]
        scope_addrs_eq [of e] exp_count_eq [of e]\<close>)
qed

section \<open>Forward jumps\<close>

lemma setarg_jump: "OS_SETARG_sBx (of_nat (opcode_index OP_JUMP)) d = jump_word d" "OS_SETARG_sBx 4 d = jump_word d"
  by (simp_all add: jump_word_def)

lemma fix_jump_scopes: "fix_jump d p s = Some s' \<Longrightarrow> scopes s' = scopes s"
  by (auto simp: fix_jump_def)

lemma fix_jump_at:
  assumes "written tg as s code bs s1" "fix_jump offs pos s1 = Some s2" "pos = code_len s + k" "offs = d"
  shows "written tg as s (code[k := OS_SETARG_sBx (code ! k) d]) bs s2 \<and> prog_optimize_offs s2 = prog_optimize_offs s1"
  using fix_jump_written [OF assms(1) assms(2) [unfolded assms(3,4)]] by simp

lemma written_branch:
  assumes 1: "written tg as (put_type OP_JUMP (put_opcode w s)) c b s1" and len: "code_len s1 = n"
    and brk: "fix_jump (int n - int (code_len s + 1) - 1) (code_len s + 1) s1 = Some s2"
  shows "written tg as s ([w, jump_word (int (length c))] @ c) (shift_breaks (Suc (Suc 0)) b) s2
    \<and> prog_optimize_offs s2 = prog_optimize_offs s1"
proof -
  let ?j = "of_nat (opcode_index OP_JUMP) :: u32"
  from written_trans [OF written_trans [OF written_put(1) written_put(2)] 1]
  have all: "written tg as s ([w, ?j] @ c) (shift_breaks (Suc (Suc 0)) b) s1" by simp
  have "int n - int (code_len s + 1) - 1 = int (length c)" using written_len [OF all] len by simp
  from fix_jump_at [OF all brk refl this] show ?thesis by (simp add: setarg_jump)
qed

lemma written_if_else:
  assumes 1: "written tg as (put_type OP_JUMP (put_opcode w s)) c1 b1 s1" and 2: "written tg as (put_type OP_JUMP s1) c2 b2 s2"
    and brk: "fix_jump (int (code_len s2) - int (code_len s1) - 1) (code_len s1) s2 = Some s3"
      "fix_jump (int (code_len s1 + 1) - int (code_len s + 1) - 1) (code_len s + 1) s3 = Some s4"
  shows "written tg as s ([w, jump_word (int (length c1) + 1)] @ c1 @ [jump_word (int (length c2))] @ c2)
      (shift_breaks (Suc (Suc 0)) b1 @ shift_breaks (Suc (Suc (Suc (length c1)))) b2) s4
    \<and> prog_optimize_offs s4 = prog_optimize_offs s2"
proof -
  let ?j = "of_nat (opcode_index OP_JUMP) :: u32"
  let ?b = "shift_breaks (Suc (Suc 0)) b1 @ shift_breaks (Suc (Suc (Suc (length c1)))) b2"
  note w1 = written_trans [OF written_trans [OF written_put(1) written_put(2)] 1]
  from written_trans [OF written_trans [OF w1 written_put(2)] 2]
  have all: "written tg as s ([w, ?j] @ c1 @ [?j] @ c2) ?b s2" by simp
  have len: "code_len s1 = code_len s + Suc (Suc (length c1))" "code_len s2 = code_len s1 + Suc (length c2)"
    using written_len [OF 1] written_len [OF 2] by simp_all
  have "int (code_len s2) - int (code_len s1) - 1 = int (length c2)" using len by simp
  from fix_jump_at [OF all brk(1) len(1) this]
  have 3: "written tg as s ([w, ?j] @ c1 @ [jump_word (int (length c2))] @ c2) ?b s3" "prog_optimize_offs s3 = prog_optimize_offs s2"
    by (simp_all add: setarg_jump nth_append list_update_append)
  have "int (code_len s1 + 1) - int (code_len s + 1) - 1 = int (length c1) + 1" using len by simp
  from fix_jump_at [OF 3(1) brk(2) refl this] 3(2) show ?thesis by (simp add: setarg_jump)
qed

lemma written_try:
  assumes 1: "written tg as s c1 b1 s1" and 2: "written tg as (put_type OP_JUMP s1) c2 b2 s2"
    and brk: "fix_jump (int (code_len s2) - int (code_len s1) - 1) (code_len s1) s2 = Some s3"
  shows "written tg as s (c1 @ [jump_word (int (length c2))] @ c2) (b1 @ shift_breaks (Suc (length c1)) b2) s3
    \<and> prog_optimize_offs s3 = prog_optimize_offs s2"
proof -
  let ?j = "of_nat (opcode_index OP_JUMP) :: u32"
  from written_trans [OF written_trans [OF 1 written_put(2)] 2]
  have all: "written tg as s (c1 @ [?j] @ c2) (b1 @ shift_breaks (Suc (length c1)) b2) s2" by simp
  have "int (code_len s2) - int (code_len s1) - 1 = int (length c2)" using written_len [OF 2] by simp
  from fix_jump_at [OF all brk written_len [OF 1] this] show ?thesis by (simp add: setarg_jump nth_append list_update_append)
qed

text \<open>
  A branch around a piece.  Either the peephole has been told of the join behind it, or the piece does
  not end with two moves that can be fused.
\<close>

lemma generates_branch:
  assumes g: "generates tg as n L J P' (put_type OP_JUMP (put_opcode w s)) s1 R" and w: "is_branch w" and small: "small n"
    and s2: "s2 = (if told then optimize_from_here s1 else s1)" and told: "told \<or> \<not> P' \<and> L' = L"
    and brk: "fix_jump (int (code_len s1) - int (code_len s + 1) - 1) (code_len s + 1) s2 = Some s3"
  shows "generates tg as (n + 2) L' L' P s s3 (\<lambda>ops. branch ops w (R ops) skip)"
proof -
  obtain c b where c: "written tg as (put_type OP_JUMP (put_opcode w s)) c b s1" "breaks_ok c b" "length c \<le> n"
      "tail_ok L J P' c {} (code_len (put_type OP_JUMP (put_opcode w s))) (prog_optimize_offs s1)"
    and k: "\<And>ops. sizes_ok ops (scopes s1) as \<Longrightarrow> code_for ops c b (R ops)" by (rule generatesE [OF g]) blast
  let ?pre = "[w, jump_word (int (length c))]"
  have len: "code_len s1 = code_len s + length (?pre @ c)" using written_len [OF c(1)] by simp
  have "written tg as (put_type OP_JUMP (put_opcode w s)) c b s2" "code_len s2 = code_len s1" using c(1) s2 by simp_all
  from written_branch [OF this brk] have wr: "written tg as s (?pre @ c) (shift_breaks (Suc (Suc 0)) b) s3"
    and offs: "prog_optimize_offs s3 = prog_optimize_offs s2" by simp_all
  have "tail_ok L' L' P (?pre @ c) T (code_len s) (prog_optimize_offs s3)" for T
  proof (cases told)
    case True
    then show ?thesis using tail_ok_here [of L' L' P "?pre @ c" T "code_len s"] len by (simp add: offs s2)
  next
    case False
    with told have "tail_ok L J False c {} (code_len s + length ?pre) (prog_optimize_offs s3)" and "L' = L"
      using c(4) offs s2 by simp_all
    then show ?thesis by (simp only: tail_ok_join)
  qed
  moreover have "scopes s3 = scopes s1" using fix_jump_scopes [OF brk] s2 by simp
  then have "code_for ops (?pre @ c) (shift_breaks (Suc (Suc 0)) b) (branch ops w (R ops) skip)"
    if "sizes_ok ops (scopes s3) as" for ops
    using that by (intro code_branch [OF k w small_mono [OF small c(3)]]) simp
  moreover have "breaks_ok (?pre @ c) (shift_breaks (Suc (Suc 0)) b)"
    using breaks_ok_append [of ?pre "[]" c b] c(2) by simp
  ultimately show ?thesis using c(3) by (intro generatesI [OF wr]) simp_all
qed

lemma generates_if_else:
  assumes g1: "generates tg as1 n1 L1 J1 P1 (put_type OP_JUMP (put_opcode w s)) s1 R1"
    and g2: "generates tg as2 n2 L2 J2 P2 (put_type OP_JUMP (optimize_from_here s1)) s2 R2"
    and w: "is_branch w" and small: "small (n1 + n2 + 1)" and d: "as1 \<inter> as2 = {}"
    and brk: "fix_jump (int (code_len s2) - int (code_len s1) - 1) (code_len s1) (optimize_from_here s2) = Some s3"
      "fix_jump (int (code_len s1 + 1) - int (code_len s + 1) - 1) (code_len s + 1) s3 = Some s4"
  shows "generates tg (as1 \<union> as2) (n1 + n2 + 3) L J P s s4 (\<lambda>ops. branch ops w (R1 ops) (R2 ops))"
proof -
  obtain c1 b1 where c1: "written tg as1 (put_type OP_JUMP (put_opcode w s)) c1 b1 s1" "breaks_ok c1 b1" "length c1 \<le> n1"
    and k1: "\<And>ops. sizes_ok ops (scopes s1) as1 \<Longrightarrow> code_for ops c1 b1 (R1 ops)" by (rule generatesE [OF g1]) blast
  obtain c2 b2 where c2: "written tg as2 (put_type OP_JUMP (optimize_from_here s1)) c2 b2 s2" "breaks_ok c2 b2" "length c2 \<le> n2"
    and k2: "\<And>ops. sizes_ok ops (scopes s2) as2 \<Longrightarrow> code_for ops c2 b2 (R2 ops)" by (rule generatesE [OF g2]) blast
  let ?code = "[w, jump_word (int (length c1) + 1)] @ c1 @ [jump_word (int (length c2))] @ c2"
  let ?b = "shift_breaks (Suc (Suc 0)) b1 @ shift_breaks (Suc (Suc (Suc (length c1)))) b2"
  have "written tg (as1 \<union> as2) (put_type OP_JUMP (put_opcode w s)) c1 b1 (optimize_from_here s1)"
    "written tg (as1 \<union> as2) (put_type OP_JUMP (optimize_from_here s1)) c2 b2 (optimize_from_here s2)"
    using written_mono [OF c1(1), of "as1 \<union> as2"] written_mono [OF c2(1), of "as1 \<union> as2"] by simp_all
  from written_if_else [OF this, of s3 s4] brk
  have wr: "written tg (as1 \<union> as2) s ?code ?b s4" and offs: "prog_optimize_offs s4 = code_len s2" by simp_all
  have "code_len s2 = code_len s + length ?code" using written_len [OF c1(1)] written_len [OF c2(1)] by simp
  then have tail: "tail_ok L J P ?code T (code_len s) (prog_optimize_offs s4)" for T
    using tail_ok_here [of L J P ?code T "code_len s"] by (simp only: offs)
  have scopes: "scopes s4 = scopes s2" using fix_jump_scopes [OF brk(1)] fix_jump_scopes [OF brk(2)] by simp
  have code: "code_for ops ?code ?b (branch ops w (R1 ops) (R2 ops))" if "sizes_ok ops (scopes s4) (as1 \<union> as2)" for ops
  proof -
    from that have "sizes_ok ops (scopes s1) as1" "sizes_ok ops (scopes s2) as2"
      using sizes_ok_before [OF c2(1) d, of ops] by (simp_all add: sizes_ok_Un scopes)
    from code_if_else [OF k1 [OF this(1)] k2 [OF this(2)] w small_mono [OF small]] c1(3) c2(3) show ?thesis by simp
  qed
  have "breaks_ok ?code ?b"
  proof -
    have "breaks_ok ([jump_word (int (length c2))] @ c2) (shift_breaks (Suc 0) b2)"
      using breaks_ok_append [of "[jump_word (int (length c2))]" "[]" c2 b2] c2(2) by simp
    from breaks_ok_append [OF c1(2) this]
    show ?thesis using breaks_ok_append [of "[w, jump_word (int (length c1) + 1)]" "[]"
        "c1 @ [jump_word (int (length c2))] @ c2" "b1 @ shift_breaks (Suc (length c1)) b2"] by simp
  qed
  then show ?thesis by (rule generatesI [OF wr _ _ tail code]) (use c1(3) c2(3) in simp_all)
qed

lemma generates_try:
  fixes R1 R2 :: "('v, 'w) interp_ops \<Rightarrow> ('v, 'w) behaviour"
  assumes g1: "generates tg as1 n1 L1 J1 P1 s s1 R1" and g2: "generates tg as2 n2 L2 J2 False (put_type OP_JUMP s1) s2 R2"
    and small: "small n2" and d: "as1 \<inter> as2 = {}"
    and brk: "fix_jump (int (code_len s2) - int (code_len s1) - 1) (code_len s1) s2 = Some s3"
  shows "generates tg (as1 \<union> as2) (n1 + n2 + 1) L2 L2 P s s3 R1"
proof -
  obtain c1 b1 where c1: "written tg as1 s c1 b1 s1" "breaks_ok c1 b1" "length c1 \<le> n1"
    and k1: "\<And>ops. sizes_ok ops (scopes s1) as1 \<Longrightarrow> code_for ops c1 b1 (R1 ops)" by (rule generatesE [OF g1]) blast
  obtain c2 b2 where c2: "written tg as2 (put_type OP_JUMP s1) c2 b2 s2" "breaks_ok c2 b2" "length c2 \<le> n2"
      "tail_ok L2 J2 False c2 {} (code_len (put_type OP_JUMP s1)) (prog_optimize_offs s2)"
    and k2: "\<And>ops. sizes_ok ops (scopes s2) as2 \<Longrightarrow> code_for ops c2 b2 (R2 ops)" by (rule generatesE [OF g2]) blast
  let ?pre = "c1 @ [jump_word (int (length c2))]" and ?b = "b1 @ shift_breaks (Suc (length c1)) b2"
  have "written tg (as1 \<union> as2) s c1 b1 s1" "written tg (as1 \<union> as2) (put_type OP_JUMP s1) c2 b2 s2"
    using written_mono [OF c1(1)] written_mono [OF c2(1)] by simp_all
  from written_try [OF this brk]
  have wr: "written tg (as1 \<union> as2) s (?pre @ c2) ?b s3" and offs: "prog_optimize_offs s3 = prog_optimize_offs s2" by simp_all
  have "code_len (put_type OP_JUMP s1) = code_len s + length ?pre" using written_len [OF c1(1)] by simp
  with c2(4) have "tail_ok L2 J2 False c2 {} (code_len s + length ?pre) (prog_optimize_offs s3)" by (simp only: offs)
  note tail = tail_ok_join [OF this]
  have scopes: "scopes s3 = scopes s2" using fix_jump_scopes [OF brk] .
  have code: "code_for ops (?pre @ c2) ?b (R1 ops)" if "sizes_ok ops (scopes s3) (as1 \<union> as2)" for ops
  proof -
    from that have "sizes_ok ops (scopes s1) as1" "sizes_ok ops (scopes s2) as2"
      using sizes_ok_before [OF c2(1) d, of ops] by (simp_all add: sizes_ok_Un scopes)
    from code_try [OF k1 [OF this(1)] k2 [OF this(2)] small_mono [OF small c2(3)]] show ?thesis by simp
  qed
  have "breaks_ok ([jump_word (int (length c2))] @ c2) (shift_breaks (Suc 0) b2)"
    using breaks_ok_append [of "[jump_word (int (length c2))]" "[]" c2 b2] c2(2) by simp
  from breaks_ok_append [OF c1(2) this] have "breaks_ok (?pre @ c2) ?b" by simp
  then show ?thesis by (rule generatesI [OF wr _ _ tail code]) (use c1(3) c2(3) in simp_all)
qed

section \<open>Conditions, logic and try\<close>

lemma correctD:
  assumes "\<forall>x. size x < size e \<longrightarrow> correct means index x" "x \<in> set (exp_list e)" "small (3 * exp_count e)"
    and "ready index tg scope [x] s" "writeOpcodes scope x s = Some (True, s')"
  shows "generates tg (set (scope_addrs x)) (3 * exp_count x) (last_slots x) (join_slots x) (ends_fusible x) s s'
    (\<lambda>ops. means ops x)"
  using elements [OF assms(1)] assms(2,4,5) small_in [OF assms(3,2)] unfolding correct_def by blast

text \<open>What the next element of a list finds after the code of one before it.\<close>

lemma ready_next:
  assumes r: "ready index tg scope (xs @ es) s" and g: "generates tg (set (list_addrs xs)) n L J P s s1 R"
    and s2: "prog_opcodes s2 = prog_opcodes s1 @ c" "prog_optimize_offs s2 \<le> code_len s2" "scopes s2 = scopes s1"
  shows "ready index tg scope es s2"
proof -
  obtain code bs where w: "written tg (set (list_addrs xs)) s code bs s1" using g by (rule generatesE)
  have "set (list_addrs es) \<inter> set (list_addrs xs) = {}" using r by (auto simp: ready_def)
  with ready_part [of index tg scope xs es "[]" s] r
  have "ready index tg scope es s1" by (intro ready_after [OF _ w _ generates_le [OF g]]) auto
  then show ?thesis using s2 by (simp add: ready_def break_target_def)
qed

lemma correct_KLogic:
  assumes k: "exp_kind (exp_type e) = KLogic"
    and sub: "\<forall>x. size x < size e \<longrightarrow> correct (\<lambda>ops :: ('v, 'w) interp_ops. eval ops index) index x"
  shows "correct (\<lambda>ops :: ('v, 'w) interp_ops. eval ops index) index e"
proof (rule correctI)
  fix tg scope s s'
  assume r: "ready index tg scope [e] s" and w: "writeOpcodes scope e s = Some (True, s')" and small: "small (3 * exp_count e)"
  have no_scope: "\<not> has_scope (exp_type e)" using k by (simp add: has_scope_def)
  from w k obtain e0 e1 s1 s2 s3 s4 where es: "exp_list e = [e0, e1]"
    and s1: "writeOpcodes scope e0 s = Some (True, s1)" "writeDebugInfo e s1 = Some s2"
    and s3: "put_ABC OP_LOGIC_BOOL (slot_A e) (of_bool (exp_type e = EXP_TYPE_LOGIC_OR)) 1 s2 = Some s3"
    and s4: "writeOpcodes scope e1 (put_type OP_JUMP s3) = Some (True, s4)"
    and brk: "fix_jump (int (code_len s4) - int (code_len s3) - 1) (code_len s3) s4 = Some s'"
    by (auto simp: writeOpcodes.simps [of scope e s] Let_def getOpcodePos_def bind_eq_Some_conv split: list.splits)
  from s3 obtain w where word: "logic_word e = Some w" "s3 = put_opcode w s2"
    by (auto simp: put_ABC_Some logic_word_def)
  have branch: "is_branch w" using branch_word [OF word(1) [unfolded logic_word_def]] by (simp add: test_opcodes_def)
  have rdy: "ready index tg scope ([e0] @ [e1]) s" using ready_list [OF r no_scope] es by simp
  have "generates tg (set (scope_addrs e0)) (3 * exp_count e0) (last_slots e0) (join_slots e0) (ends_fusible e0) s s1
      (\<lambda>ops :: ('v, 'w) interp_ops. eval ops index e0)"
    by (rule correctD [OF sub _ small _ s1(1)]) (use es rdy ready_part [of index tg scope "[]" "[e0]" "[e1]" s] in simp_all)
  note g0 = generates_quiet [OF this quiet_debug [OF s1(2)]]
  have "ready index tg scope [e1] (put_type OP_JUMP s3)"
    by (rule ready_next [OF rdy, of _ _ _ _ s2]) (use g0 generates_le [OF g0] word(2) in simp_all)
  note g1 = correctD [OF sub _ small this s4]
  have "\<not> ends_fusible e1" using r k es by (simp add: ready_def safe_eq [of e])
  note brn = generates_branch [OF g1 [unfolded word(2)] branch small_in [OF small], where told = False and P = "ends_fusible e"]
  have d: "set (scope_addrs e0) \<inter> set (scope_addrs e1) = {}" using rdy by (auto simp: ready_def)
  have "generates tg (set (scope_addrs e0) \<union> set (scope_addrs e1)) (3 * exp_count e0 + (3 * exp_count e1 + 2))
      (last_slots e1) (last_slots e1) (ends_fusible e) s s'
      (\<lambda>ops :: ('v, 'w) interp_ops. seq (eval ops index e0) (branch ops w (eval ops index e1) skip))"
    by (rule generates_seq [OF g0 brn d]) (use brk word(2) es \<open>\<not> ends_fusible e1\<close> in simp_all)
  note g = this
  have means: "eval ops index e = seq (eval ops index e0) (branch ops w (eval ops index e1) skip)" for ops :: "('v, 'w) interp_ops"
    using k es word(1) by (simp add: eval.simps [of _ _ e] with_word_def)
  show "generates tg (set (scope_addrs e)) (3 * exp_count e) (last_slots e) (join_slots e) (ends_fusible e) s s'
      (\<lambda>ops :: ('v, 'w) interp_ops. eval ops index e)"
    unfolding means
    by (rule generates_mono [OF g])
      (use k es no_scope in \<open>simp_all add: last_slots_eq [of e] join_slots_eq [of e]
        scope_addrs_eq [of e] exp_count_eq [of e]\<close>)
qed

lemma correct_KTry:
  assumes k: "exp_kind (exp_type e) = KTry"
    and sub: "\<forall>x. size x < size e \<longrightarrow> correct (\<lambda>ops :: ('v, 'w) interp_ops. eval ops index) index x"
  shows "correct (\<lambda>ops :: ('v, 'w) interp_ops. eval ops index) index e"
proof (rule correctI)
  fix tg scope s s'
  assume r: "ready index tg scope [e] s" and w: "writeOpcodes scope e s = Some (True, s')" and small: "small (3 * exp_count e)"
  have no_scope: "\<not> has_scope (exp_type e)" using k by (simp add: has_scope_def)
  from w k obtain e0 e1 s1 s2 s3 where es: "exp_list e = [e0, e1]"
    and s1: "writeOpcodes scope e0 s = Some (True, s1)" and s2: "writeOpcodes scope e1 (put_type OP_JUMP s1) = Some (True, s2)"
    and brk: "fix_jump (int (code_len s2) - int (code_len s1) - 1) (code_len s1) s2 = Some s3"
    and blk: "addTryBlock (sc_function (scopes s3 scope)) (code_len s) (code_len s1 + 1) e1 s3 = Some s'"
    by (auto simp: writeOpcodes.simps [of scope e s] Let_def getOpcodePos_def bind_eq_Some_conv split: list.splits)
  have rdy: "ready index tg scope ([e0] @ [e1]) s" using ready_list [OF r no_scope] es by simp
  have g0: "generates tg (set (scope_addrs e0)) (3 * exp_count e0) (last_slots e0) (join_slots e0) (ends_fusible e0) s s1
      (\<lambda>ops :: ('v, 'w) interp_ops. eval ops index e0)"
    by (rule correctD [OF sub _ small _ s1]) (use es rdy ready_part [of index tg scope "[]" "[e0]" "[e1]" s] in simp_all)
  have "ready index tg scope [e1] (put_type OP_JUMP s1)"
    by (rule ready_next [OF rdy, of _ _ _ _ s1]) (use g0 generates_le [OF g0] in simp_all)
  note g1 = correctD [OF sub _ small this s2]
  have "\<not> ends_fusible e1" using r k es by (simp add: ready_def safe_eq [of e])
  have d: "set (scope_addrs e0) \<inter> set (scope_addrs e1) = {}" using rdy by (auto simp: ready_def)
  have "generates tg (set (scope_addrs e0) \<union> set (scope_addrs e1)) (3 * exp_count e0 + 3 * exp_count e1 + 1)
      (last_slots e1) (last_slots e1) (ends_fusible e) s s3 (\<lambda>ops :: ('v, 'w) interp_ops. eval ops index e0)"
    by (rule generates_try [OF g0 _ small_in [OF small] d brk]) (use g1 es \<open>\<not> ends_fusible e1\<close> in simp_all)
  note g = generates_quiet [OF this quiet_try [OF blk]]
  have means: "eval ops index e = eval ops index e0" for ops :: "('v, 'w) interp_ops"
    using k es by (simp add: eval.simps [of _ _ e])
  show "generates tg (set (scope_addrs e)) (3 * exp_count e) (last_slots e) (join_slots e) (ends_fusible e) s s'
      (\<lambda>ops :: ('v, 'w) interp_ops. eval ops index e)"
    unfolding means
    by (rule generates_mono [OF g])
      (use k es no_scope in \<open>simp_all add: last_slots_eq [of e] join_slots_eq [of e]
        scope_addrs_eq [of e] exp_count_eq [of e]\<close>)
qed

lemma correct_condition:
  assumes sub: "\<forall>x. size x < size e \<longrightarrow> correct (\<lambda>ops :: ('v, 'w) interp_ops. eval ops index) index x"
    and e0: "e0 \<in> set (exp_list e)" and small: "small (3 * exp_count e)" and r: "ready index tg scope [e0] s"
    and w: "(if exp_kind (exp_type e0) = KCompare then writeOpcodes_list scope True (exp_list e0) (optimize_from_here s)
      else if exp_kind (exp_type e0) = KBool then writeOpcodes_list scope False (exp_list e0) (optimize_from_here s)
      else writeOpcodes scope e0 s) = Some (True, s1)"
  obtains L J P where "generates tg (set (scope_addrs e0)) (3 * exp_count e0) L J P s s1
    (\<lambda>ops :: ('v, 'w) interp_ops. if exp_kind (exp_type e0) = KCompare \<or> exp_kind (exp_type e0) = KBool
       then evals ops index (exp_list e0) else eval ops index e0)"
proof (cases "exp_kind (exp_type e0) = KCompare \<or> exp_kind (exp_type e0) = KBool")
  case True
  then obtain opt where list: "writeOpcodes_list scope opt (exp_list e0) (optimize_from_here s) = Some (True, s1)"
    using w by (auto split: if_splits)
  have no_scope: "\<not> has_scope (exp_type e0)" using True by (auto simp: has_scope_def)
  have "\<forall>x. size x < size e0 \<longrightarrow> correct (\<lambda>ops :: ('v, 'w) interp_ops. eval ops index) index x"
    using sub size_exp_in [OF e0] by (meson less_trans)
  note g = correct_list_here [OF elements [OF this] ready_list [OF r no_scope] list small_list [OF small_in [OF small e0]]]
  show ?thesis
    by (rule that, unfold if_P [OF True], rule generates_mono [OF g _ _ order_refl order_refl]) (use no_scope in \<open>simp_all add: scope_addrs_eq [of e0] exp_count_eq [of e0]\<close>)
next
  case False
  then have "writeOpcodes scope e0 s = Some (True, s1)" using w by simp
  from correctD [OF sub e0 small r this] show ?thesis by (intro that) (simp only: False if_False)
qed

text \<open>The parts of an \<open>if\<close>, with its condition still to be written.\<close>

abbreviation writes_condition :: "addr \<Rightarrow> expression \<Rightarrow> compiler \<Rightarrow> compiler \<Rightarrow> bool" where
  "writes_condition scope e0 s s1 \<equiv>
     (if exp_kind (exp_type e0) = KCompare then writeOpcodes_list scope True (exp_list e0) (optimize_from_here s)
      else if exp_kind (exp_type e0) = KBool then writeOpcodes_list scope False (exp_list e0) (optimize_from_here s)
      else writeOpcodes scope e0 s) = Some (True, s1)"

lemma writes_if:
  assumes "writeOpcodes scope e s = Some (True, s')" "exp_kind (exp_type e) = KIf"
  obtains e0 e1 s1 s2 w s4 where "writes_condition scope e0 s s1" "writeDebugInfo e s1 = Some s2" "if_word e0 = Some w"
      "writeOpcodes scope e1 (put_type OP_JUMP (put_opcode w s2)) = Some (True, s4)" "exp_list e = [e0, e1]"
      "fix_jump (int (code_len s4) - int (code_len s2 + 1) - 1) (code_len s2 + 1) (optimize_from_here s4) = Some s'"
  | e0 e1 e2 s1 s2 w s4 s5 s6 where "writes_condition scope e0 s s1" "writeDebugInfo e s1 = Some s2" "if_word e0 = Some w"
      "writeOpcodes scope e1 (put_type OP_JUMP (put_opcode w s2)) = Some (True, s4)" "exp_list e = [e0, e1, e2]"
      "writeOpcodes scope e2 (put_type OP_JUMP (optimize_from_here s4)) = Some (True, s5)"
      "fix_jump (int (code_len s5) - int (code_len s4) - 1) (code_len s4) (optimize_from_here s5) = Some s6"
      "fix_jump (int (code_len s4 + 1) - int (code_len s2 + 1) - 1) (code_len s2 + 1) s6 = Some s'"
proof -
  note unfold = writeOpcodes.simps [of scope e s] Let_def getOpcodePos_def bind_eq_Some_conv put_ABC_Some if_word_def
  from assms obtain e0 e1 rest where es: "exp_list e = e0 # e1 # rest" "length rest \<le> 1"
    by (auto simp: unfold split: list.splits)
  show thesis
  proof (cases rest)
    case Nil
    with assms es that(1) show ?thesis by (auto simp: unfold)
  next
    case (Cons e2 rest')
    with es have "rest = [e2]" by simp
    with assms es that(2) show ?thesis by (auto simp: unfold algebra_simps)
  qed
qed

lemma correct_KIf:
  assumes k: "exp_kind (exp_type e) = KIf"
    and sub: "\<forall>x. size x < size e \<longrightarrow> correct (\<lambda>ops :: ('v, 'w) interp_ops. eval ops index) index x"
  shows "correct (\<lambda>ops :: ('v, 'w) interp_ops. eval ops index) index e"
proof (rule correctI)
  fix tg scope s s'
  assume r: "ready index tg scope [e] s" and w: "writeOpcodes scope e s = Some (True, s')" and small: "small (3 * exp_count e)"
  have no_scope: "\<not> has_scope (exp_type e)" using k by (simp add: has_scope_def)
  note eqs = scope_addrs_eq [of e] exp_count_eq [of e]
  let ?cond = "\<lambda>(ops :: ('v, 'w) interp_ops) e0. if exp_kind (exp_type e0) = KCompare \<or> exp_kind (exp_type e0) = KBool
      then evals ops index (exp_list e0) else eval ops index e0"
  have step: "\<exists>L J P. generates tg (set (scope_addrs e0)) (3 * exp_count e0) L J P s s2 (\<lambda>ops. ?cond ops e0)
      \<and> generates tg (set (scope_addrs e1)) (3 * exp_count e1) (last_slots e1) (join_slots e1) (ends_fusible e1)
          (put_type OP_JUMP (put_opcode w s2)) s4 (\<lambda>ops :: ('v, 'w) interp_ops. eval ops index e1)
      \<and> ready index tg scope ([e1] @ rest) (put_type OP_JUMP (put_opcode w s2)) \<and> is_branch w
      \<and> set (scope_addrs e0) \<inter> set (list_addrs (e1 # rest)) = {}"
    if p: "writes_condition scope e0 s s1" "writeDebugInfo e s1 = Some s2" "if_word e0 = Some w"
      "writeOpcodes scope e1 (put_type OP_JUMP (put_opcode w s2)) = Some (True, s4)" "exp_list e = e0 # e1 # rest"
    for e0 e1 rest s1 s2 w s4
  proof -
    have rdy: "ready index tg scope ([e0] @ [e1] @ rest) s" using ready_list [OF r no_scope] p(5) by simp
    obtain L J P where "generates tg (set (scope_addrs e0)) (3 * exp_count e0) L J P s s1 (\<lambda>ops. ?cond ops e0)"
      by (rule correct_condition [OF sub _ small _ p(1)])
        (use p(5) rdy ready_part [of index tg scope "[]" "[e0]" "[e1] @ rest" s] in simp_all)
    note g0 = generates_quiet [OF this quiet_debug [OF p(2)]]
    have rdy1: "ready index tg scope ([e1] @ rest) (put_type OP_JUMP (put_opcode w s2))"
      by (rule ready_next [OF rdy, of _ _ _ _ s2]) (use g0 generates_le [OF g0] in simp_all)
    have "generates tg (set (scope_addrs e1)) (3 * exp_count e1) (last_slots e1) (join_slots e1) (ends_fusible e1)
        (put_type OP_JUMP (put_opcode w s2)) s4 (\<lambda>ops :: ('v, 'w) interp_ops. eval ops index e1)"
      by (rule correctD [OF sub _ small _ p(4)])
        (use p(5) rdy1 ready_part [of index tg scope "[]" "[e1]" rest] in simp_all)
    moreover have "is_branch w" using branch_word [OF p(3) [unfolded if_word_def]] if_opcode_test by simp
    moreover have "set (scope_addrs e0) \<inter> set (list_addrs (e1 # rest)) = {}" using rdy by (auto simp: ready_def)
    ultimately show ?thesis using g0 rdy1 by blast
  qed
  from w k show "generates tg (set (scope_addrs e)) (3 * exp_count e) (last_slots e) (join_slots e) (ends_fusible e) s s'
      (\<lambda>ops :: ('v, 'w) interp_ops. eval ops index e)"
  proof (cases rule: writes_if)
    case p: (1 e0 e1 s1 s2 w s4)
    from step [OF p(1-5)] obtain L J P
      where g0: "generates tg (set (scope_addrs e0)) (3 * exp_count e0) L J P s s2 (\<lambda>ops. ?cond ops e0)"
      and g1: "generates tg (set (scope_addrs e1)) (3 * exp_count e1) (last_slots e1) (join_slots e1) (ends_fusible e1)
          (put_type OP_JUMP (put_opcode w s2)) s4 (\<lambda>ops :: ('v, 'w) interp_ops. eval ops index e1)"
      and branch: "is_branch w" and d: "set (scope_addrs e0) \<inter> set (scope_addrs e1) = {}" by auto
    have means: "eval ops index e = seq (?cond ops e0) (branch ops w (eval ops index e1) skip)" for ops :: "('v, 'w) interp_ops"
      using k p(3,5) by (simp add: eval.simps [of _ _ e] with_word_def)
    have "small (3 * exp_count e1)" using small_in [OF small] p(5) by simp
    note brn = generates_branch [OF g1 branch this, where told = True and P = False]
    have "generates tg (set (scope_addrs e0) \<union> set (scope_addrs e1)) (3 * exp_count e0 + (3 * exp_count e1 + 2))
        [] [] False s s' (\<lambda>ops :: ('v, 'w) interp_ops. eval ops index e)"
      unfolding means by (rule generates_seq [OF g0 brn d]) (use p(6) in simp_all)
    note g = this
    show ?thesis
      by (rule generates_mono [OF g]) (use k p(5) no_scope in \<open>simp_all add: eqs\<close>)
  next
    case p: (2 e0 e1 e2 s1 s2 w s4 s5 s6)
    from step [OF p(1-5)] obtain L J P
      where g0: "generates tg (set (scope_addrs e0)) (3 * exp_count e0) L J P s s2 (\<lambda>ops. ?cond ops e0)"
      and g1: "generates tg (set (scope_addrs e1)) (3 * exp_count e1) (last_slots e1) (join_slots e1) (ends_fusible e1)
          (put_type OP_JUMP (put_opcode w s2)) s4 (\<lambda>ops :: ('v, 'w) interp_ops. eval ops index e1)"
      and rdy1: "ready index tg scope ([e1] @ [e2]) (put_type OP_JUMP (put_opcode w s2))"
      and branch: "is_branch w" and d: "set (scope_addrs e0) \<inter> set (list_addrs [e1, e2]) = {}" by auto
    have means: "eval ops index e = seq (?cond ops e0) (branch ops w (eval ops index e1) (eval ops index e2))"
      for ops :: "('v, 'w) interp_ops"
      using k p(3,5) by (simp add: eval.simps [of _ _ e] with_word_def)
    have "ready index tg scope [e2] (put_type OP_JUMP (optimize_from_here s4))"
      by (rule ready_next [OF rdy1, of _ _ _ _ s4]) (use g1 in simp_all)
    note g2 = correctD [OF sub _ small this p(6)]
    have sm: "small (3 * exp_count e1 + 3 * exp_count e2 + 1)"
      by (rule small_mono [OF small]) (simp add: exp_count_eq [of e] p(5))
    have d2: "set (scope_addrs e1) \<inter> set (scope_addrs e2) = {}" using rdy1 by (auto simp: ready_def)
    note brn = generates_if_else [OF g1 g2 branch sm d2 p(7,8), of "[]" "[]" False]
    have "generates tg (set (scope_addrs e0) \<union> (set (scope_addrs e1) \<union> set (scope_addrs e2)))
        (3 * exp_count e0 + (3 * exp_count e1 + 3 * exp_count e2 + 3)) [] [] False s s'
        (\<lambda>ops :: ('v, 'w) interp_ops. eval ops index e)"
      unfolding means by (rule generates_seq [OF g0 brn]) (use d p(5) in auto)
    note g = this
    show ?thesis
      by (rule generates_mono [OF g]) (use k p(5) no_scope in \<open>simp_all add: eqs Un_assoc\<close>)
  qed
qed

end
