(* ===== verification/CodeCorrect.thy ===== *)
theory CodeCorrect
  imports CodeLoops CodeBranches
begin

text \<open>
  Correctness of the code generator: the code of a function does what its tree means, also after the
  program has been saved and loaded.  The condition \<open>safe\<close> is needed: a tree is given that is
  compiled wrongly without it.
\<close>

section \<open>All expressions\<close>

lemma correct_all: "correct (\<lambda>ops :: ('v, 'w) interp_ops. eval ops index) index e"
proof (induction e rule: measure_induct_rule [of size])
  case (less e)
  then have sub: "\<forall>x. size x < size e \<longrightarrow> correct (\<lambda>ops :: ('v, 'w) interp_ops. eval ops index) index x" by blast
  show ?case
  proof (cases "exp_kind (exp_type e) \<in> own_kinds \<union> {KSwitch, KCase, KCaseJump}")
    case True
    then show ?thesis using correct_own [OF _ sub]
      by (auto simp: correct_def ready_def safe_eq [of e])
  next
    case False
    then show ?thesis
      by (cases "exp_kind (exp_type e)")
        (simp_all add: own_kinds_def correct_KList [OF _ sub] correct_KFunction [OF _ sub] correct_KScope [OF _ sub]
          correct_KLoop [OF _ sub] correct_KForLoop [OF _ sub] correct_KIf [OF _ sub] correct_KTry [OF _ sub]
          correct_KLogic [OF _ sub] correct_KContainer [OF _ sub] correct_KBreak)
  qed
qed

section \<open>Functions\<close>

text \<open>What the parser and the passes before the generator establish for the tree of a function with scope \<open>a\<close>.\<close>

definition compilable :: "(addr \<Rightarrow> comp_scope) \<Rightarrow> addr \<Rightarrow> expression \<Rightarrow> bool" where
  "compilable scs a e \<longleftrightarrow> exp_type e = EXP_TYPE_FUNCTION \<and> exp_scope e = Some a \<and> sc_type (scs a) = EXP_TYPE_FUNCTION
     \<and> list_all (scopes_ok scs a) (exp_list e) \<and> safe e \<and> distinct (scope_addrs e) \<and> small (3 * exp_count e)"

text \<open>A run of the body of a function from its start \<open>i\<close>: to the return at its end, or out of the function.\<close>

definition runs_body :: "('v, 'w) interp_ops \<Rightarrow> u32 list \<Rightarrow> int \<Rightarrow> int \<Rightarrow> ('v, 'w) machine \<Rightarrow> ('v, 'w) machine outcome \<Rightarrow> bool" where
  "runs_body ops prog pos sz m out \<longleftrightarrow>
     (case out of
        Done m1 \<Rightarrow> vm_run ops prog (nat pos) m (nat (pos + sz - 1)) m1
          \<and> word_ABC OP_RETURN 0 0 1 = Some (prog ! nat (pos + sz - 1))
      | Left m1 \<Rightarrow> vm_leaves ops prog (nat pos) m m1
      | _ \<Rightarrow> False)"

lemma function_body_runs:
  assumes w: "writeOpcodes scope e s = Some (True, s')" and c: "compilable (scopes s) a e"
    and offs: "prog_optimize_offs s \<le> length (prog_opcodes s)"
  shows "same_links s s' \<and> (\<forall>(ops :: ('v, 'w) interp_ops) m out. sizes_ok ops (scopes s') (set (scope_addrs e) - {a})
    \<longrightarrow> evals ops (\<lambda>a. sc_prog_func_index (scopes s a)) (exp_list e) m out
    \<longrightarrow> runs_body ops (prog_opcodes s') (fs_opcodes_pos (sc_func (scopes s' a))) (fs_opcodes_size (sc_func (scopes s' a))) m out)"
proof -
  let ?index = "\<lambda>a. sc_prog_func_index (scopes s a)" and ?es = "exp_list e"
  have k: "exp_kind (exp_type e) = KFunction" and a: "exp_scope e = Some a" and small: "small (3 * exp_count e)"
    using c by (simp_all add: compilable_def exp_kind_def)
  have addrs: "scope_addrs e = a # list_addrs ?es" using k a by (simp add: scope_addrs_eq [of e] has_scope_def)
  have notin: "a \<notin> set (list_addrs ?es)" using c addrs by (simp add: compilable_def)
  have "break_target s a None" using c by (simp add: compilable_def break_target_function)
  then have r: "ready ?index None a ?es s" using c addrs offs by (simp add: ready_def compilable_def safe_eq [of e])
  have sub: "\<forall>x. size x < size e \<longrightarrow> correct (\<lambda>ops :: ('v, 'w) interp_ops. eval ops ?index) ?index x"
    using correct_all by blast
  obtain w c ret where ret: "word_ABC OP_RETURN 0 0 1 = Some ret"
    and all: "written None (insert a (set (list_addrs ?es))) s (w # c @ [ret]) [] s'"
    and extent: "sc_func (scopes s' a)
      = sc_func (scopes s' a)\<lparr>fs_opcodes_pos := int (code_len s + 1), fs_opcodes_size := int (length c + 1)\<rparr>"
    and body: "\<And>ops :: ('v, 'w) interp_ops. sizes_ok ops (scopes s') (set (list_addrs ?es)) \<Longrightarrow>
      code_for ops c [] (evals ops ?index ?es)"
    by (rule function_parts [OF sub k a r notin w small]) blast
  have pos: "fs_opcodes_pos (sc_func (scopes s' a)) = int (code_len s + 1)"
    "fs_opcodes_size (sc_func (scopes s' a)) = int (length c + 1)" by (subst extent, simp)+
  have prog: "prog_opcodes s' = (prog_opcodes s @ [w]) @ c @ [ret]" using all by (simp add: written_def)
  have addrs': "set (scope_addrs e) - {a} = set (list_addrs ?es)" using addrs notin by auto
  have emb: "embedded c [] (code_len s + 1) (prog_opcodes s') []"
    using embedded_mid [of c "[]" "prog_opcodes s @ [w]" "[]" "[ret]"] prog by simp
  have "runs_body ops (prog_opcodes s') (int (code_len s + 1)) (int (length c + 1)) m out"
    if sizes: "sizes_ok ops (scopes s') (set (scope_addrs e) - {a})" and run: "evals ops ?index ?es m out"
    for ops :: "('v, 'w) interp_ops" and m out
  proof -
    from sizes body have "code_for ops c [] (evals ops ?index ?es)" by (simp only: addrs')
    with run have "frag_run ops c [] 0 m out" by (simp add: code_for_def)
    from frag_run_vm [OF this emb refl] show ?thesis
      using ret by (cases out) (simp_all add: runs_body_def prog nat_add_distrib nth_append)
  qed
  then show ?thesis using written_links [OF all] by (simp add: pos)
qed


section \<open>Compiling, saving and loading\<close>

text \<open>Meaning does not look at the sizes of functions.\<close>

lemma func_size_simps [simp]:
  "one_instr (ops\<lparr>io_func_size := f\<rparr>) = one_instr ops" "func_literal (ops\<lparr>io_func_size := f\<rparr>) = func_literal ops"
  "branch (ops\<lparr>io_func_size := f\<rparr>) = branch ops"
proof -
  have test: "instr_test (ops\<lparr>io_func_size := f\<rparr>) = instr_test ops" by (simp add: instr_test_def fun_eq_iff)
  show "branch (ops\<lparr>io_func_size := f\<rparr>) = branch ops" by (simp add: branch_def fun_eq_iff test)
  show "func_literal (ops\<lparr>io_func_size := f\<rparr>) = func_literal ops" by (simp add: func_literal_def fun_eq_iff)
  show "one_instr (ops\<lparr>io_func_size := f\<rparr>) = one_instr ops"
    by (auto simp: one_instr_def fun_eq_iff exec_instr_def test Let_def os_assert_def
        split: option.splits effect.splits bind_splits)
qed

lemma evals_func_size:
  "\<forall>x \<in> set es. eval (ops\<lparr>io_func_size := f\<rparr>) index x = eval ops index x \<Longrightarrow>
    evals (ops\<lparr>io_func_size := f\<rparr>) index es = evals ops index es"
  by (induction es) simp_all

lemma eval_func_size: "eval (ops\<lparr>io_func_size := f\<rparr>) index e = eval ops index e"
proof (induction e rule: measure_induct_rule [of size])
  case (less e)
  let ?ops = "ops\<lparr>io_func_size := f\<rparr>"
  have list: "evals ?ops index es = evals ops index es" if "set es \<subseteq> set (exp_list x)" "size x \<le> size e" for es x
  proof (rule evals_func_size, rule ballI)
    fix y
    assume "y \<in> set es"
    with that(1) have "size y < size x" by (blast intro: size_exp_in)
    with that(2) show "eval ?ops index y = eval ops index y" by (intro less.IH) simp
  qed
  have parts: "evals ?ops index (exp_list e) = evals ops index (exp_list e)"
    "evals ?ops index (butlast (exp_list e)) = evals ops index (butlast (exp_list e))"
    "evals ?ops index (drop n (exp_list e)) = evals ops index (drop n (exp_list e))" for n
    by (rule list [of _ e]; blast dest: in_set_butlastD in_set_dropD | simp)+
  have inner: "eval ?ops index x = eval ops index x" "evals ?ops index (exp_list x) = evals ops index (exp_list x)"
    if "x \<in> set (exp_list e)" for x
    using less.IH [OF size_exp_in [OF that]] list [of "exp_list x" x] size_exp_in [OF that] by simp_all
  show ?case
    by (cases "exp_kind (exp_type e)")
      (simp_all add: eval.simps [of _ _ e] parts with_word_def inner split: option.splits list.splits)
qed

text \<open>
  \<open>Compiler::compile\<close> from the tree on.  \<open>funcs\<close> is \<open>prog_functions\<close>, by the addresses of the scopes.  The value
  \<open>None\<close> inside is the failure after an error has been set.
\<close>

definition gathered :: "addr list \<Rightarrow> compiler \<Rightarrow> compiled" where
  "gathered funcs s = compiled.truncate (s\<lparr>prog_functions := map (\<lambda>a. sc_func (scopes s a)) funcs\<rparr>)"

definition named :: "bytes \<Rightarrow> compiler \<Rightarrow> compiler" where
  "named filename s = (let (i, s) = cacheString (if create_debug_info s then filename else []) s
     in s\<lparr>prog_filename_string_index := i\<rparr>)"

definition compile_program ::
  "long_double \<Rightarrow> addr list \<Rightarrow> bytes \<Rightarrow> addr \<Rightarrow> expression \<Rightarrow> compiler \<Rightarrow> program option option" where
  "compile_program ld funcs filename scope e s =
     Option.bind (writeOpcodes scope e (named filename s)) (\<lambda>(ok, s).
       if ok
       then Option.bind (saveToStream ld mem_writer_vt (gathered funcs s) new_mem_writer) (\<lambda>w.
         Option.bind (loadFromStream ld (new_mem_reader (Streams.written w) (mem_writer_getSize w))) (\<lambda>(p, r). Some p))
       else Some None)"

lemma quiet_named: "quiet s (named filename s)"
proof -
  obtain i s1 where c: "cacheString (if create_debug_info s then filename else []) s = (i, s1)" by fastforce
  have "quiet s s1" using quiet_cacheString [of s] c by (metis snd_conv)
  then show ?thesis using c
    by (simp add: named_def quiet_def same_links_def same_extent_def)
qed

lemma load_saved:
  assumes "program_ok p" "\<forall>v \<in> set (prog_numbers p). ld_exact ld v" "length (program_image ld p) < output_limit"
  obtains w r where "saveToStream ld mem_writer_vt p new_mem_writer = Some w"
    "loadFromStream ld (new_mem_reader (Streams.written w) (mem_writer_getSize w)) = Some (Some (program_of p), r)"
proof -
  obtain w where w: "saveToStream ld mem_writer_vt p new_mem_writer = Some w" "mem_writer_ok w"
    "Streams.written w = program_image ld p"
    using saveToStream_image [OF assms(1,3)] by blast
  have "mem_writer_getSize w = int (length (Streams.written w))" using w(2) by (rule mem_writer_size)
  then show ?thesis
    using that [OF w(1)] loadFromStream_consumes [OF assms(1,2)] new_mem_reader_ok [of "Streams.written w"] w(3)
    unfolding consumes_def by (metis append_Nil2)
qed

text \<open>Every function of the tree is in the list, at its index.\<close>

definition listed :: "addr list \<Rightarrow> (addr \<Rightarrow> comp_scope) \<Rightarrow> expression \<Rightarrow> bool" where
  "listed funcs scs e \<longleftrightarrow> (\<forall>b \<in> set (scope_addrs e). sc_type (scs b) = EXP_TYPE_FUNCTION \<longrightarrow>
     0 \<le> sc_prog_func_index (scs b) \<and> nat (sc_prog_func_index (scs b)) < length funcs
     \<and> funcs ! nat (sc_prog_func_index (scs b)) = b)"

lemma function_of_extent [simp]:
  "fd_opcodes_pos (function_of strs f) = fs_opcodes_pos f" "fd_opcodes_size (function_of strs f) = fs_opcodes_size f"
  by (simp_all add: function_of_def)


section \<open>A small program\<close>

definition sample_node :: "ExpressionType \<Rightarrow> expression list \<Rightarrow> int \<Rightarrow> int \<Rightarrow> addr option \<Rightarrow> expression" where
  "sample_node t es a b sc = Expression t \<lparr>et_addr = 0, et_line = 0, et_pos = 0\<rparr> es
     \<lparr>lvd_up_count = 0, lvd_index = 0, lvd_scope_type = LOCAL_GENERIC, lvd_type = CVT_UNKNOWN\<rparr> 0
     \<lparr>slot_a = a, slot_b = b, slot_c = 0\<rparr> sc"

text \<open>\<open>for(;;){ if(!x) break; x = c; }\<close> with \<open>x\<close> in slot 0 and \<open>c\<close> the constant with index 1.\<close>

definition sample_tree :: expression where
  "sample_tree = sample_node EXP_TYPE_FUNCTION
     [sample_node EXP_TYPE_LOOP_SCOPE
        [sample_node EXP_TYPE_IF
           [sample_node EXP_TYPE_LOGIC_NOT [sample_node EXP_TYPE_MOVE [] 1 0 None] 1 0 None,
            sample_node EXP_TYPE_SCOPE [sample_node EXP_TYPE_BREAK [] 0 0 None] 0 0 (Some 3)] 1 0 None,
         sample_node EXP_TYPE_MOVE [] 0 (-1) None] 0 0 (Some 2)] 0 0 (Some 1)"

definition sample_func :: func_scope where
  "sample_func = \<lparr>fs_parent = None, fs_stack_size = 2, fs_num_locals = 1, fs_num_params = 0,
     fs_max_up_count = 0, fs_func_depth = 0, fs_func_index = 0, fs_num_local_funcs = 0, fs_try_blocks = [],
     fs_opcodes_pos = 0, fs_opcodes_size = 0, fs_locals_compiled = []\<rparr>"

definition sample_scope :: "ExpressionType \<Rightarrow> addr option \<Rightarrow> scope_local list \<Rightarrow> comp_scope" where
  "sample_scope t p ls = \<lparr>sc_type = t, sc_parent = p, sc_function = 1, sc_prog_func_index = 0,
     sc_locals = ls, sc_loop_breaks = [], sc_case_labels = [], sc_func = sample_func\<rparr>"

definition sample_compiler :: compiler where
  "sample_compiler = \<lparr>prog_numbers = [], prog_strings = [], prog_functions = [], prog_opcodes = [],
     prog_debug_info = [], prog_filename_string_index = 0, prog_optimize_offs = 0, create_debug_info = True,
     scopes = (\<lambda>a. if a = 1 then sample_scope EXP_TYPE_FUNCTION None [\<lparr>sl_name = [120], sl_index = 0, sl_upvalue = False\<rparr>]
       else if a = 2 then sample_scope EXP_TYPE_LOOP_SCOPE (Some 1) [] else sample_scope EXP_TYPE_SCOPE (Some 2) []),
     raw_local = \<lparr>cached_name_index = 0, lv_start_code_pos = 0, lv_end_code_pos = 0, lv_upvalue = False\<rparr>,
     comp_error = ERROR_NOTHING, comp_error_token = None, comp_expect_token_type = NOTHING\<rparr>"

definition sample_ops :: "(bool, unit) interp_ops" where
  "sample_ops = \<lparr>io_truth = (\<lambda>v. v), io_bool = (\<lambda>b. b), io_compare = (\<lambda>w m. None),
     io_data = (\<lambda>w m. if has_op w OP_RETURN then Some (Leave m) else Some (Next m)), io_func_size = (\<lambda>n. 0)\<rparr>"


lemmas sample_defs = sample_tree_def sample_node_def sample_compiler_def sample_scope_def sample_func_def

lemmas generator_simps = writeOpcodes.simps exp_kind_def and_then_def return_true_def os_assert_def Let_def own_instruction_def
  own_word_def addLoopBreak_def find_break_scope.simps scope_fixLoopBreaks_def loop_break_target_def fix_jump_def fixJumpOpcode_def
  getOpcodePos_def if_opcode_def put_ABC_def put_opcode_simps put_type_opcode put_jump_opcode optimize_from_here_def
  reserve_locals_def writeDebugInfo_def cacheString_def getOpcodeType_def operand_opcode_def is_optimized_list_def
  fuse_moves_def fuse_last_moves_def named_def

lemma sample_words: "word_ABC OP_NEW_FUNCTION 0 0 0 = Some 0" "word_ABC OP_MOVE 1 0 0 = Some 70"
    "word_ABC OP_MOVE 1 0 0 = Some 70" "word_ABC OP_LOGIC_BOOL 1 1 1 = Some 8405078"
    "word_ABC OP_MOVE 0 (-1) 0 = Some 2147483654" "word_ABC OP_RETURN 0 0 1 = Some 16387"
  by code_simp+

lemma sample_decode: "OS_GET_OPCODE_TYPE 4 = 4" "OS_GET_OPCODE_TYPE 2147483654 = 6" "OS_GET_OPCODE_TYPE (jump_word (- 6)) = 4"
    "OS_SETARG_sBx 4 1 = jump_word 1" "OS_SETARG_sBx 4 2 = jump_word 2"
  by code_simp+

lemma sample_writes: "map_option (\<lambda>(ok, s). (ok, prog_opcodes s, prog_strings s, prog_debug_info s, prog_numbers s,
      prog_filename_string_index s, sc_type (scopes s 2), sc_type (scopes s 3), sc_func (scopes s 1))) (writeOpcodes 1 sample_tree (named [109] sample_compiler))
    = Some (True, [0, 70, 8405078, jump_word 1, jump_word 2, 2147483654, jump_word (- 6), 16387], [[109], [120]],
      [\<lparr>di_line = 1, di_pos = 1\<rparr>, \<lparr>di_line = 1, di_pos = 1\<rparr>, \<lparr>di_line = 1, di_pos = 1\<rparr>, \<lparr>di_line = 0, di_pos = 0\<rparr>,
       \<lparr>di_line = 1, di_pos = 1\<rparr>, \<lparr>di_line = 1, di_pos = 1\<rparr>], [], 0,
      EXP_TYPE_LOOP_SCOPE, EXP_TYPE_SCOPE, sample_func\<lparr>fs_opcodes_pos := 1, fs_opcodes_size := 7, fs_locals_compiled :=
        [\<lparr>cached_name_index = 1, lv_start_code_pos = 1, lv_end_code_pos = 8, lv_upvalue = False\<rparr>]\<rparr>)"
  by (simp add: sample_defs generator_simps sample_words sample_decode)


text \<open>Two rounds of the loop: \<open>x\<close> is true at first and false after the assignment.\<close>

definition sample_machine :: "bool \<Rightarrow> bool \<Rightarrow> (bool, unit) machine" where
  "sample_machine x t = \<lparr>m_locals = [x, t], m_consts = [False], m_world = ()\<rparr>"

lemma seq_Done: "R1 m (Done m1) \<Longrightarrow> R2 m1 out \<Longrightarrow> seq R1 R2 m out"
  by (auto simp: seq_def)

lemma seq_out: "R1 m out \<Longrightarrow> \<not> is_done out \<Longrightarrow> seq R1 R2 m out"
  by (auto simp: seq_def)

lemma sample_instrs:
  "one_instr sample_ops 70 (sample_machine True True) (Done (sample_machine True True))"
  "one_instr sample_ops 70 (sample_machine False True) (Done (sample_machine False False))"
  "one_instr sample_ops 2147483654 (sample_machine True True) (Done (sample_machine False True))"
  "instr_test sample_ops 8405078 (sample_machine True True) = Some (Next (False, sample_machine True True))"
  "instr_test sample_ops 8405078 (sample_machine False False) = Some (Next (True, sample_machine False False))"
  by code_simp+

lemma sample_run:
  "evals sample_ops (\<lambda>a. sc_prog_func_index (scopes sample_compiler a)) (exp_list sample_tree)
     (sample_machine True True) (Done (sample_machine False False))"
proof -
  let ?brk = "breaks (sample_node EXP_TYPE_BREAK [] 0 0 None) :: (bool, unit) behaviour"
  let ?body = "seq (seq (one_instr sample_ops 70) (branch sample_ops 8405078 ?brk skip)) (one_instr sample_ops 2147483654)"
  let ?R = "\<lambda>p. if p then skip else ?body"
  have "?body (sample_machine True True) (Done (sample_machine False True))"
    by (rule seq_Done, rule seq_Done, rule sample_instrs(1), simp add: branch_def sample_instrs skip_def, rule sample_instrs(3))
  moreover have "?body (sample_machine False True) (Broken (sample_machine False False))"
    by (rule seq_out, rule seq_Done, rule sample_instrs(2)) (simp_all add: branch_def sample_instrs breaks_def sample_node_def)
  ultimately have "loop_run ?R False (sample_machine True True) (Done (sample_machine False False))"
    using loop_run.next_part [of ?R False "sample_machine True True" "sample_machine False True"]
      loop_run.next_part [of ?R True "sample_machine False True" "sample_machine False True"]
      loop_run.break_part [of ?R False "sample_machine False True" "sample_machine False False"]
    by (simp add: skip_def)
  from this [unfolded sample_node_def] show ?thesis
    by (simp add: loop_def sample_tree_def sample_node_def eval.simps exp_kind_def with_word_def if_word_def if_opcode_def
        own_word_def Let_def sample_words getOpcodeType_def operand_opcode_def)
qed

lemma sample_compilable: "compilable (scopes sample_compiler) 1 sample_tree" "listed [1] (scopes sample_compiler) sample_tree"
  by (simp_all add: compilable_def listed_def sample_defs has_scope_def exp_kind_def small_def)

definition sample_result :: compiler where
  "sample_result = snd (the (writeOpcodes 1 sample_tree (named [109] sample_compiler)))"

lemma sample_result:
  "writeOpcodes 1 sample_tree (named [109] sample_compiler) = Some (True, sample_result)"
  "prog_opcodes sample_result = [0, 70, 8405078, jump_word 1, jump_word 2, 2147483654, jump_word (- 6), 16387]"
  "prog_strings sample_result = [[109], [120]]" "prog_numbers sample_result = []" "prog_filename_string_index sample_result = 0"
  "prog_debug_info sample_result = [\<lparr>di_line = 1, di_pos = 1\<rparr>, \<lparr>di_line = 1, di_pos = 1\<rparr>, \<lparr>di_line = 1, di_pos = 1\<rparr>,
     \<lparr>di_line = 0, di_pos = 0\<rparr>, \<lparr>di_line = 1, di_pos = 1\<rparr>, \<lparr>di_line = 1, di_pos = 1\<rparr>]"
  "sc_type (scopes sample_result 2) = EXP_TYPE_LOOP_SCOPE" "sc_type (scopes sample_result 3) = EXP_TYPE_SCOPE"
  "sc_func (scopes sample_result 1) = sample_func\<lparr>fs_opcodes_pos := 1, fs_opcodes_size := 7, fs_locals_compiled :=
     [\<lparr>cached_name_index = 1, lv_start_code_pos = 1, lv_end_code_pos = 8, lv_upvalue = False\<rparr>]\<rparr>"
  using sample_writes by (auto simp: sample_result_def)



section \<open>A tree that is compiled wrongly\<close>

text \<open>
  \<open>x = a && (b = c)\<close> with \<open>a\<close>, \<open>b\<close>, \<open>x\<close>, \<open>c\<close> in the slots 0 to 3 and a temporary value in slot 4: the moves into
  \<open>b\<close> and \<open>x\<close> are fused, although the jump of \<open>&&\<close> leads between them.
\<close>

definition fused_tree :: expression where
  "fused_tree = sample_node EXP_TYPE_FUNCTION
     [sample_node EXP_TYPE_CODE_LIST
       [sample_node EXP_TYPE_MOVE
         [sample_node EXP_TYPE_LOGIC_AND
           [sample_node EXP_TYPE_MOVE [] 4 0 None,
            sample_node EXP_TYPE_MOVE [sample_node EXP_TYPE_MOVE [] 4 3 None] 1 4 None] 4 0 None] 2 4 None] 0 0 None] 0 0 (Some 1)"

lemma fused_words: "word_ABC OP_MOVE 4 0 0 = Some 262" "word_ABC OP_MOVE 4 3 0 = Some 25166086" "word_ABC OP_MOVE 1 4 0 = Some 33554502"
    "word_ABC OP_MOVE 2 4 0 = Some 33554566" "word_ABC OP_LOGIC_BOOL 4 0 1 = Some 16662" "move2_of 33554502 33554566 = 33620039"
    "OS_GET_OPCODE_TYPE 33554502 = 6" "OS_GET_OPCODE_TYPE 33554566 = 6" "OS_GETARG_A 33554502 = 1" "OS_GETARG_A 33554566 = 2"
    "OS_GETARG_B 33554502 = 4" "OS_GETARG_B 33554566 = 4" "OS_SETARG_sBx 4 2 = jump_word 2" "OS_GET_OPCODE_TYPE 4 = 4"
  by code_simp+

lemma fused_writes: "map_option (\<lambda>(ok, s). (ok, prog_opcodes s, fs_opcodes_pos (sc_func (scopes s 1)), fs_opcodes_size (sc_func (scopes s 1))))
    (writeOpcodes 1 fused_tree sample_compiler) = Some (True, [0, 262, 16662, jump_word 2, 25166086, 33620039, 16387], 1, 6)"
  by (simp add: fused_tree_def sample_defs generator_simps sample_words fused_words)

definition fused_machine :: "bool list \<Rightarrow> (bool, unit) machine" where
  "fused_machine vs = \<lparr>m_locals = vs, m_consts = [], m_world = ()\<rparr>"

lemma fused_instrs:
  "one_instr sample_ops 262 (fused_machine [False, False, True, False, True]) (Done (fused_machine [False, False, True, False, False]))"
  "instr_test sample_ops 16662 (fused_machine [False, False, True, False, False]) = Some (Next (False, fused_machine [False, False, True, False, False]))"
  "one_instr sample_ops 33554566 (fused_machine [False, False, True, False, False]) (Done (fused_machine [False, False, False, False, False]))"
  "exec_OP_MOVE [False, False, True, False, True] ([] :: bool list) 262 = Some [False, False, True, False, False]"
  "has_op 262 OP_MOVE" "\<not> has_op 16662 OP_JUMP" "is_test 16662" "OS_GETARG_C 16662 = 1" "has_op 16387 OP_RETURN"
  "\<not> is_test 16387" "has_op 4 OP_JUMP"
  by code_simp+

abbreviation fused_code :: "u32 list" where
  "fused_code \<equiv> [0, 262, 16662, jump_word 2, 25166086, 33620039, 16387]"

lemma fused_steps:
  "exec_instr sample_ops fused_code 1 (fused_machine [False, False, True, False, True])
     = Some (Next (2, fused_machine [False, False, True, False, False]))"
  "exec_instr sample_ops fused_code 2 (fused_machine [False, False, True, False, False])
     = Some (Next (6, fused_machine [False, False, True, False, False]))"
  "exec_instr sample_ops fused_code 6 m = Some (Leave m)"
proof -
  show "exec_instr sample_ops fused_code 1 (fused_machine [False, False, True, False, True])
      = Some (Next (2, fused_machine [False, False, True, False, False]))"
    by (subst exec_instr_MOVE) (simp_all add: fused_instrs fused_machine_def)
  have "jump_offset_fits 2" by (rule small_fits [of 2]) (simp_all add: small_def)
  then show "exec_instr sample_ops fused_code 2 (fused_machine [False, False, True, False, False])
      = Some (Next (6, fused_machine [False, False, True, False, False]))"
    by (simp add: exec_instr_def os_assert_def fused_instrs exec_cond_jump_def at_pos_def jump_word_def sBx_fits)
  have "\<not> has_op 16387 OP_JUMP" "\<not> has_op 16387 OP_MOVE" "\<not> has_op 16387 OP_MOVE2"
    using fused_instrs(9) by (auto dest: has_op_unique)
  then show "exec_instr sample_ops fused_code 6 m = Some (Leave m)"
    by (simp add: exec_instr_def os_assert_def fused_instrs sample_ops_def)
qed

text \<open>The interpreter is deterministic.\<close>

lemma vm_run_unique:
  "vm_run ops code i m j m1 \<Longrightarrow> exec_instr ops code j m1 = Some (Leave x) \<Longrightarrow>
    vm_run ops code i m k m2 \<Longrightarrow> exec_instr ops code k m2 = Some (Leave y) \<Longrightarrow> k = j \<and> m2 = m1"
proof (induction rule: vm_run.induct)
  case (stay i m)
  from stay.prems(2) show ?case by (cases rule: vm_run.cases) (use stay.prems(1) in auto)
next
  case (go i m j m1 k' m')
  from go.prems(2) show ?case
    by (cases rule: vm_run.cases) (use go.hyps(1) go.prems go.IH in auto)
qed

lemma fused_run:
  "evals sample_ops (\<lambda>a. sc_prog_func_index (scopes sample_compiler a)) (exp_list fused_tree)
     (fused_machine [False, False, True, False, True]) (Done (fused_machine [False, False, False, False, False]))"
proof -
  have "seq (seq (one_instr sample_ops 262) (branch sample_ops 16662 (seq (one_instr sample_ops 25166086) (one_instr sample_ops 33554502)) skip))
      (one_instr sample_ops 33554566)
      (fused_machine [False, False, True, False, True]) (Done (fused_machine [False, False, False, False, False]))"
    by (rule seq_Done, rule seq_Done, rule fused_instrs(1), simp add: branch_def fused_instrs(2) skip_def, rule fused_instrs(3))
  then show ?thesis
    by (simp add: fused_tree_def sample_node_def eval.simps exp_kind_def with_word_def logic_word_def own_word_def Let_def
        fused_words getOpcodeType_def operand_opcode_def)
qed

text \<open>
  C40: the fusion of moves is wrong without the condition \<open>safe\<close>: for \<open>x = a && (b = c)\<close> with \<open>x\<close> in the slot after
  \<open>b\<close> the tree assigns false to \<open>x\<close> when \<open>a\<close> is false, but the code jumps over the fused move and returns with the
  old value of \<open>x\<close>.
\<close>

theorem fusion_skips_assignment:
  "\<exists>s'. writeOpcodes 1 fused_tree sample_compiler = Some (True, s')
    \<and> evals sample_ops (\<lambda>a. sc_prog_func_index (scopes sample_compiler a)) (exp_list fused_tree)
        (fused_machine [False, False, True, False, True]) (Done (fused_machine [False, False, False, False, False]))
    \<and> runs_body sample_ops (prog_opcodes s') (fs_opcodes_pos (sc_func (scopes s' 1))) (fs_opcodes_size (sc_func (scopes s' 1)))
        (fused_machine [False, False, True, False, True]) (Done (fused_machine [False, False, True, False, False]))
    \<and> \<not> runs_body sample_ops (prog_opcodes s') (fs_opcodes_pos (sc_func (scopes s' 1))) (fs_opcodes_size (sc_func (scopes s' 1)))
        (fused_machine [False, False, True, False, True]) (Done (fused_machine [False, False, False, False, False]))"
proof -
  let ?m = "fused_machine [False, False, True, False, True]" and ?m1 = "fused_machine [False, False, True, False, False]"
  obtain s' where s': "writeOpcodes 1 fused_tree sample_compiler = Some (True, s')" "prog_opcodes s' = fused_code"
    "fs_opcodes_pos (sc_func (scopes s' 1)) = 1" "fs_opcodes_size (sc_func (scopes s' 1)) = 6"
    using fused_writes by auto
  have run: "vm_run sample_ops fused_code 1 ?m 6 ?m1"
    by (rule vm_run.go [OF fused_steps(1) vm_run.go [OF fused_steps(2) vm_run.stay]])
  moreover have "m2 = ?m1" if "vm_run sample_ops fused_code 1 ?m 6 m2" for m2
    using vm_run_unique [OF run fused_steps(3) that fused_steps(3)] by simp
  ultimately have "\<not> vm_run sample_ops fused_code 1 ?m 6 (fused_machine [False, False, False, False, False])"
    by (force simp: fused_machine_def)
  with run s'(2-4) have "runs_body sample_ops (prog_opcodes s') (fs_opcodes_pos (sc_func (scopes s' 1)))
      (fs_opcodes_size (sc_func (scopes s' 1))) ?m (Done ?m1)"
    "\<not> runs_body sample_ops (prog_opcodes s') (fs_opcodes_pos (sc_func (scopes s' 1)))
      (fs_opcodes_size (sc_func (scopes s' 1))) ?m (Done (fused_machine [False, False, False, False, False]))"
    by (simp_all add: runs_body_def sample_words)
  with s'(1) fused_run show ?thesis by blast
qed

end
