(* ===== verification/Floats.thy ===== *)
theory Floats
  imports Numbers
begin

text \<open>
  The C arithmetic on \<open>double\<close> that the operators of the language use, on 64-bit IEEE 754 patterns, as in
  \<open>Numbers\<close>: a finite number is an integer times a power of two, an operation computes the exact result as
  such a product (a quotient with one sticky bit below its last digit) and rounds it to nearest, ties to
  even.  Which quiet NaN an operation returns is left open by C; here it is the positive one without payload.
\<close>

section \<open>Rounding\<close>

definition dbl_inf :: "bool \<Rightarrow> u64" where
  "dbl_inf neg = (if neg then 0xFFF0000000000000 else 0x7FF0000000000000)"

definition dbl_zero :: "bool \<Rightarrow> u64" where
  "dbl_zero neg = (if neg then 0x8000000000000000 else 0)"

definition dbl_nan :: u64 where
  "dbl_nan = 0x7FF8000000000000"

definition dbl_is_inf :: "u64 \<Rightarrow> bool" where
  "dbl_is_inf w \<longleftrightarrow> dbl_exponent w = 0x7FF \<and> dbl_mantissa w = 0"

definition dbl_is_zero :: "u64 \<Rightarrow> bool" where
  "dbl_is_zero w \<longleftrightarrow> dbl_exponent w = 0 \<and> dbl_mantissa w = 0"

text \<open>A finite number is \<open>dbl_int w * 2 ^ dbl_scale w\<close>.\<close>

definition dbl_scale :: "u64 \<Rightarrow> int" where
  "dbl_scale w = (if dbl_exponent w = 0 then -1074 else dbl_exponent w - 1075)"

definition dbl_int :: "u64 \<Rightarrow> int" where
  "dbl_int w =
     (let m = (if dbl_exponent w = 0 then dbl_mantissa w else dbl_mantissa w + 2 ^ 52)
      in if dbl_negative w then - m else m)"

text \<open>
  \<open>round_magnitude n e\<close> is the pattern of \<open>n * 2 ^ e\<close> rounded, for \<open>n > 0\<close>: the last place of the result is
  \<open>2 ^ q\<close>, and a carry out of the rounded digits moves into the exponent by itself.
\<close>

definition round_magnitude :: "int \<Rightarrow> int \<Rightarrow> int" where
  "round_magnitude n e =
     (let q = max (int (bit_length n) + e - 53) (-1074);
          r = (if q \<le> e then n * 2 ^ nat (e - q) else shift_round n (nat (q - e)))
      in min ((q + 1074) * 2 ^ 52 + r) (0x7FF * 2 ^ 52))"

definition dbl_round :: "bool \<Rightarrow> int \<Rightarrow> int \<Rightarrow> u64" where
  "dbl_round zero_neg n e =
     (if n = 0 then dbl_zero zero_neg
      else word_of_int ((if n < 0 then 2 ^ 63 else 0) + round_magnitude \<bar>n\<bar> e))"

section \<open>Operations\<close>

definition dbl_neg :: "u64 \<Rightarrow> u64" where
  "dbl_neg x = x XOR 0x8000000000000000"

definition dbl_add :: "u64 \<Rightarrow> u64 \<Rightarrow> u64" where
  "dbl_add x y =
     (if dbl_is_nan x \<or> dbl_is_nan y \<or> dbl_is_inf x \<and> dbl_is_inf y \<and> dbl_negative x \<noteq> dbl_negative y then dbl_nan
      else if dbl_is_inf x then x
      else if dbl_is_inf y then y
      else
        let e = min (dbl_scale x) (dbl_scale y)
        in dbl_round (dbl_negative x \<and> dbl_negative y)
             (dbl_int x * 2 ^ nat (dbl_scale x - e) + dbl_int y * 2 ^ nat (dbl_scale y - e)) e)"

definition dbl_sub :: "u64 \<Rightarrow> u64 \<Rightarrow> u64" where
  "dbl_sub x y = (if dbl_is_nan y then dbl_nan else dbl_add x (dbl_neg y))"

definition dbl_mul :: "u64 \<Rightarrow> u64 \<Rightarrow> u64" where
  "dbl_mul x y =
     (let neg = dbl_negative x \<noteq> dbl_negative y
      in if dbl_is_nan x \<or> dbl_is_nan y \<or> dbl_is_inf x \<and> dbl_is_zero y \<or> dbl_is_zero x \<and> dbl_is_inf y then dbl_nan
         else if dbl_is_inf x \<or> dbl_is_inf y then dbl_inf neg
         else dbl_round neg (dbl_int x * dbl_int y) (dbl_scale x + dbl_scale y))"

definition dbl_div :: "u64 \<Rightarrow> u64 \<Rightarrow> u64" where
  "dbl_div x y =
     (let neg = dbl_negative x \<noteq> dbl_negative y
      in if dbl_is_nan x \<or> dbl_is_nan y \<or> dbl_is_zero x \<and> dbl_is_zero y \<or> dbl_is_inf x \<and> dbl_is_inf y then dbl_nan
         else if dbl_is_inf x \<or> dbl_is_zero y then dbl_inf neg
         else if dbl_is_inf y \<or> dbl_is_zero x then dbl_zero neg
         else
           let n = \<bar>dbl_int x\<bar> * 2 ^ 110; d = \<bar>dbl_int y\<bar>;
               m = 2 * (n div d) + (if n mod d = 0 then 0 else 1)
           in dbl_round neg (if neg then - m else m) (dbl_scale x - dbl_scale y - 111))"

definition dbl_floor :: "u64 \<Rightarrow> u64" where
  "dbl_floor x =
     (if dbl_is_nan x then dbl_nan
      else if dbl_is_inf x \<or> dbl_scale x \<ge> 0 then x
      else dbl_round (dbl_negative x) (dbl_int x div 2 ^ nat (- dbl_scale x)) 0)"

text \<open>\<open>OS_MATH_MOD_OPERATOR\<close>.\<close>

definition dbl_mod :: "u64 \<Rightarrow> u64 \<Rightarrow> u64" where
  "dbl_mod a b = dbl_sub a (dbl_mul (dbl_floor (dbl_div a b)) b)"

definition dbl_gt :: "u64 \<Rightarrow> u64 \<Rightarrow> bool" where
  "dbl_gt x y \<longleftrightarrow> \<not> dbl_is_nan x \<and> \<not> dbl_is_nan y \<and> dbl_key x > dbl_key y"

definition dbl_ge :: "u64 \<Rightarrow> u64 \<Rightarrow> bool" where
  "dbl_ge x y \<longleftrightarrow> \<not> dbl_is_nan x \<and> \<not> dbl_is_nan y \<and> dbl_key x \<ge> dbl_key y"

section \<open>Rounding is to nearest\<close>

text \<open>The rounded digits are within half a place of the exact ones, and exact where they can be.\<close>

lemma shift_round_nearest: "2 * \<bar>m - shift_round m s * 2 ^ s\<bar> \<le> 2 ^ s"
proof -
  define q r where "q = m div 2 ^ s" and "r = m mod 2 ^ s"
  have m: "m = q * 2 ^ s + r" unfolding q_def r_def by (rule div_mult_mod_eq [symmetric])
  have r: "0 \<le> r" "r < 2 ^ s" by (simp_all add: r_def)
  have "m - shift_round m s * 2 ^ s = (if 2 * r > 2 ^ s \<or> (2 * r = 2 ^ s \<and> odd q) then r - 2 ^ s else r)"
    unfolding shift_round_def Let_def q_def [symmetric] r_def [symmetric] using m by (simp add: algebra_simps)
  then show ?thesis using r by auto
qed

lemma shift_round_exact: "shift_round (m * 2 ^ s) s = m"
  by (simp add: shift_round_def)

lemma bit_length_unique: "0 < n \<Longrightarrow> 2 ^ k \<le> 2 * n \<Longrightarrow> n < 2 ^ k \<Longrightarrow> bit_length n = k"
proof (rule antisym)
  assume n: "0 < n" "2 ^ k \<le> 2 * n" "n < 2 ^ k"
  then show "bit_length n \<le> k" by (simp add: bit_length_le)
  from n bit_length_bounds [of n] have "(2 :: int) ^ k < 2 ^ Suc (bit_length n)" by simp
  then show "k \<le> bit_length n" by (metis less_Suc_eq_le one_less_numeral_iff power_less_imp_less_exp semiring_norm(76))
qed

lemma bit_length_shift: "0 < n \<Longrightarrow> bit_length (n * 2 ^ s) = bit_length n + s"
  by (rule bit_length_unique) (use bit_length_bounds [of n] in \<open>simp_all add: power_add\<close>)

lemma round_magnitude_shift:
  assumes "0 < n" "n < 2 ^ 53"
  shows "round_magnitude (n * 2 ^ s) (- int s) = (int (bit_length n) + 1021) * 2 ^ 52 + n * 2 ^ (53 - bit_length n)"
proof -
  let ?l = "bit_length n" and ?q = "int (bit_length n) - 53"
  have l: "?l \<le> 53" "0 < ?l" using bit_length_le [OF assms] bit_length_pos [OF assms(1)] by auto
  have r: "(if ?q \<le> - int s then n * 2 ^ s * 2 ^ nat (- int s - ?q) else shift_round (n * 2 ^ s) (nat (?q + int s)))
    = n * 2 ^ (53 - ?l)"
  proof (cases "?q \<le> - int s")
    case True
    then have "s + nat (- int s - ?q) = 53 - ?l" using l by linarith
    then have "n * 2 ^ s * 2 ^ nat (- int s - ?q) = n * 2 ^ (53 - ?l)"
      by (metis ab_semigroup_mult_class.mult_ac(1) power_add)
    with True show ?thesis by simp
  next
    case False
    then have "s = 53 - ?l + nat (?q + int s)" using l by linarith
    then have "n * 2 ^ s = n * 2 ^ (53 - ?l) * 2 ^ nat (?q + int s)"
      by (metis ab_semigroup_mult_class.mult_ac(1) power_add)
    then have "shift_round (n * 2 ^ s) (nat (?q + int s)) = n * 2 ^ (53 - ?l)" by (simp only: shift_round_exact)
    with False show ?thesis by (simp only: if_False)
  qed
  have hi: "n * 2 ^ (53 - ?l) \<le> 2 ^ 53"
  proof -
    have "n * 2 ^ (53 - ?l) \<le> 2 ^ ?l * (2 :: int) ^ (53 - ?l)"
      using bit_length_bounds [OF assms(1)] by (intro mult_right_mono) auto
    also have "\<dots> = 2 ^ 53" using l by (simp flip: power_add)
    finally show ?thesis .
  qed
  have mx: "max (int (bit_length (n * 2 ^ s)) + - int s - 53) (-1074) = ?q"
    using l by (simp add: bit_length_shift [OF assms(1)])
  show ?thesis
    unfolding round_magnitude_def Let_def mx diff_minus_eq_add r using hi l by simp
qed

lemma dbl_round_int:
  assumes "\<bar>i\<bar> < 2 ^ 53"
  shows "dbl_round z (i * 2 ^ s) (- int s) = (if i = 0 then dbl_zero z else double_of_int i)"
proof (cases "i = 0")
  case False
  have "bit_length \<bar>i\<bar> \<le> 53" using False assms bit_length_le by simp
  moreover have "\<bar>i * 2 ^ s\<bar> = \<bar>i\<bar> * 2 ^ s" "i * 2 ^ s < 0 \<longleftrightarrow> i < 0" by (simp_all add: abs_mult mult_less_0_iff)
  ultimately show ?thesis
    using False assms round_magnitude_shift [of "\<bar>i\<bar>" s]
    by (simp add: dbl_round_def double_of_int_def Let_def add.assoc)
qed (simp add: dbl_round_def)

section \<open>Integer arithmetic\<close>

lemma double_of_int_value:
  assumes "\<bar>i\<bar> < 2 ^ 53"
  obtains s where "dbl_scale (double_of_int i) = - int s" "dbl_int (double_of_int i) = i * 2 ^ s"
proof (cases "i = 0")
  case True
  have "dbl_scale 0 = - int 1074" "dbl_int 0 = 0" by (simp_all add: dbl_scale_def dbl_int_def dbl_fields)
  then show ?thesis using that [of 1074] by (simp add: True double_of_int_zero)
next
  case False
  have "bit_length \<bar>i\<bar> \<le> 53" "0 < bit_length \<bar>i\<bar>" using False assms bit_length_le bit_length_pos by simp_all
  then show ?thesis
    using that [of "53 - bit_length \<bar>i\<bar>"] double_of_int_fields [OF False assms] False
    by (auto simp: dbl_scale_def dbl_int_def Let_def)
qed

lemma double_of_int_class:
  assumes "\<bar>i\<bar> < 2 ^ 53"
  shows "\<not> dbl_is_nan (double_of_int i)" "\<not> dbl_is_inf (double_of_int i)"
    "dbl_negative (double_of_int i) \<longleftrightarrow> i < 0"
proof -
  show "\<not> dbl_is_nan (double_of_int i)" by (rule double_of_int_not_nan [OF assms])
  have "bit_length \<bar>i\<bar> \<le> 53" if "i \<noteq> 0" using that assms bit_length_le by simp
  then show "\<not> dbl_is_inf (double_of_int i)" "dbl_negative (double_of_int i) \<longleftrightarrow> i < 0"
    using double_of_int_fields [of i] assms
    by (cases "i = 0"; simp add: dbl_is_inf_def double_of_int_zero dbl_fields)+
qed

lemma double_of_int_neg:
  assumes "\<bar>i\<bar> < 2 ^ 53" "i \<noteq> 0"
  shows "dbl_neg (double_of_int i) = double_of_int (- i)"
proof -
  let ?l = "bit_length \<bar>i\<bar>" and ?s = "\<lambda>i. (if i < 0 then 0x8000000000000000 else 0 :: u64)"
  define p where "p = (int ?l + 1021) * 2 ^ 52 + \<bar>i\<bar> * 2 ^ (53 - ?l)"
  have l: "?l \<le> 53" using assms bit_length_le by simp
  have d: "double_of_int k = ?s k + word_of_int p" if "\<bar>k\<bar> = \<bar>i\<bar>" for k
    using that assms l by (simp add: double_of_int_def Let_def p_def algebra_simps)
  have x: "w XOR 0x8000000000000000 = w + 0x8000000000000000" for w :: u64
  proof -
    have "w XOR 0x8000000000000000 = flip_bit 63 w" by (simp add: flip_bit_eq_xor push_bit_of_1)
    also have "\<dots> = w + 0x8000000000000000"
      by (cases "bit w 63") (simp_all add: flip_bit_eq_if unset_bit_eq set_bit_eq)
    finally show ?thesis .
  qed
  have "(0x8000000000000000 + 0x8000000000000000 :: u64) = 0" by simp
  then have "double_of_int (- i) = double_of_int i + 0x8000000000000000"
    using assms by (cases "i < 0") (simp_all only: d abs_minus_cancel if_True if_False neg_less_0_iff_less neg_0_less_iff_less
        add.assoc add.commute add.left_commute linorder_not_less refl add_0_left add_0_right, auto)
  then show ?thesis by (simp add: dbl_neg_def x)
qed


text \<open>Adding and subtracting small integers stored as numbers is integer arithmetic.\<close>

lemma scaled_sum:
  assumes "e = min (- int s) (- int t)"
  shows "i * 2 ^ s * 2 ^ nat (- int s - e) + j * 2 ^ t * 2 ^ nat (- int t - e) = (i + j) * (2 :: int) ^ max s t"
proof -
  have "s + nat (- int s - e) = max s t" "t + nat (- int t - e) = max s t" using assms by auto
  then show ?thesis by (metis ab_semigroup_mult_class.mult_ac(1) distrib_right power_add)
qed

lemma dbl_add_int:
  assumes "\<bar>i\<bar> < 2 ^ 53" "\<bar>j\<bar> < 2 ^ 53" "\<bar>i + j\<bar> < 2 ^ 53"
  shows "dbl_add (double_of_int i) (double_of_int j) = double_of_int (i + j)"
proof -
  obtain s where s: "dbl_scale (double_of_int i) = - int s" "dbl_int (double_of_int i) = i * 2 ^ s"
    using double_of_int_value [OF assms(1)] .
  obtain t where t: "dbl_scale (double_of_int j) = - int t" "dbl_int (double_of_int j) = j * 2 ^ t"
    using double_of_int_value [OF assms(2)] .
  have e: "min (- int s) (- int t) = - int (max s t)" by simp
  have z: "(if i + j = 0 then dbl_zero (i < 0 \<and> j < 0) else double_of_int (i + j)) = double_of_int (i + j)"
    by (auto simp: dbl_zero_def double_of_int_zero)
  have "dbl_add (double_of_int i) (double_of_int j)
      = dbl_round (i < 0 \<and> j < 0) ((i + j) * 2 ^ max s t) (min (- int s) (- int t))"
    by (simp only: dbl_add_def double_of_int_class [OF assms(1)] double_of_int_class [OF assms(2)] Let_def s t
      scaled_sum [OF refl] simp_thms if_False)
  also have "\<dots> = double_of_int (i + j)" unfolding e dbl_round_int [OF assms(3)] z ..
  finally show ?thesis .
qed

lemma dbl_neg_zero: "dbl_neg 0 = 0x8000000000000000"
  by (simp add: dbl_neg_def)

lemma neg_zero_fields:
  "dbl_exponent 0x8000000000000000 = 0" "dbl_mantissa 0x8000000000000000 = 0" "dbl_negative 0x8000000000000000"
  by (simp_all add: dbl_fields)

lemma dbl_sub_int:
  assumes "\<bar>i\<bar> < 2 ^ 53" "\<bar>j\<bar> < 2 ^ 53" "\<bar>i - j\<bar> < 2 ^ 53"
  shows "dbl_sub (double_of_int i) (double_of_int j) = double_of_int (i - j)"
proof (cases "j = 0")
  case False
  then show ?thesis
    using dbl_add_int [of i "- j"] assms double_of_int_class(1) [OF assms(2)]
    by (simp add: dbl_sub_def double_of_int_neg [OF assms(2)])
next
  case True
  obtain s where s: "dbl_scale (double_of_int i) = - int s" "dbl_int (double_of_int i) = i * 2 ^ s"
    using double_of_int_value [OF assms(1)] .
  let ?z = "0x8000000000000000 :: u64"
  have z: "\<not> dbl_is_nan ?z" "\<not> dbl_is_inf ?z" "dbl_scale ?z = - int 1074" "dbl_int ?z = 0 * 2 ^ 1074"
    by (simp_all add: dbl_is_nan_def dbl_is_inf_def dbl_scale_def dbl_int_def neg_zero_fields)
  have e: "min (- int s) (- int 1074) = - int (max s 1074)" by simp
  have "dbl_sub (double_of_int i) (double_of_int j) = dbl_add (double_of_int i) ?z"
    unfolding dbl_sub_def True double_of_int_zero dbl_neg_zero
    using double_of_int_class(1) [of 0] by (simp add: double_of_int_zero)
  also have "\<dots> = dbl_round (i < 0) ((i + 0) * 2 ^ max s 1074) (min (- int s) (- int 1074))"
    by (simp only: dbl_add_def double_of_int_class [OF assms(1)] z(1,2) Let_def s z(3,4) scaled_sum [OF refl]
      neg_zero_fields simp_thms if_False)
  also have "\<dots> = double_of_int (i - j)"
    unfolding e add_0_right dbl_round_int [OF assms(1)] by (simp add: True dbl_zero_def double_of_int_zero)
  finally show ?thesis .
qed

text \<open>Multiplication is exact too; a zero product may be the negative zero, which equals zero.\<close>

lemma dbl_mul_int:
  assumes "\<bar>i\<bar> < 2 ^ 53" "\<bar>j\<bar> < 2 ^ 53" "\<bar>i * j\<bar> < 2 ^ 53"
  shows "dbl_mul (double_of_int i) (double_of_int j)
    = (if i * j = 0 then dbl_zero ((i < 0) \<noteq> (j < 0)) else double_of_int (i * j))"
proof -
  obtain s where s: "dbl_scale (double_of_int i) = - int s" "dbl_int (double_of_int i) = i * 2 ^ s"
    using double_of_int_value [OF assms(1)] .
  obtain t where t: "dbl_scale (double_of_int j) = - int t" "dbl_int (double_of_int j) = j * 2 ^ t"
    using double_of_int_value [OF assms(2)] .
  have p: "i * 2 ^ s * (j * 2 ^ t) = i * j * (2 :: int) ^ (s + t)" by (simp add: power_add)
  have e: "- int s + - int t = - int (s + t)" by simp
  show ?thesis
    by (simp only: dbl_mul_def Let_def double_of_int_class [OF assms(1)] double_of_int_class [OF assms(2)] s t p e
      dbl_round_int [OF assms(3)] simp_thms if_False)
qed

section \<open>Comparison of integers\<close>

lemma dbl_key_neg_int:
  assumes "i \<noteq> 0" "\<bar>i\<bar> < 2 ^ 53"
  shows "dbl_key (double_of_int (- i)) = - dbl_key (double_of_int i)"
  using dbl_key_of_int [OF assms] dbl_key_of_int [of "- i"] assms by (simp add: sgn_minus)

lemma dbl_key_zero_int: "dbl_key (double_of_int 0) = 0"
  by (simp add: double_of_int_zero dbl_key_zero)

lemma dbl_key_less:
  assumes "i < j" "\<bar>i\<bar> < 2 ^ 53" "\<bar>j\<bar> < 2 ^ 53"
  shows "dbl_key (double_of_int i) < dbl_key (double_of_int j)"
proof -
  have pos: "0 < dbl_key (double_of_int k)" if "0 < k" "k < 2 ^ 53" for k
    using dbl_key_mono [of 0 k] that by (simp add: dbl_key_zero_int)
  consider "0 \<le> i" | "i < 0" "0 \<le> j" | "j < 0" using assms(1) by linarith
  then show ?thesis
  proof cases
    case 1
    then show ?thesis using dbl_key_mono [of i j] assms by simp
  next
    case 2
    then have "dbl_key (double_of_int i) < 0" using pos [of "- i"] dbl_key_neg_int [of i] assms by simp
    moreover have "0 \<le> dbl_key (double_of_int j)" using pos [of j] 2 assms by (cases "j = 0") (auto simp: dbl_key_zero_int)
    ultimately show ?thesis by simp
  next
    case 3
    then show ?thesis using dbl_key_mono [of "- j" "- i"] dbl_key_neg_int [of i] dbl_key_neg_int [of j] assms by simp
  qed
qed

lemma dbl_compare_int:
  assumes "\<bar>i\<bar> < 2 ^ 53" "\<bar>j\<bar> < 2 ^ 53"
  shows "dbl_eq (double_of_int i) (double_of_int j) \<longleftrightarrow> i = j"
    "dbl_gt (double_of_int i) (double_of_int j) \<longleftrightarrow> i > j"
    "dbl_ge (double_of_int i) (double_of_int j) \<longleftrightarrow> i \<ge> j"
  using dbl_key_less [of i j] dbl_key_less [of j i] assms double_of_int_class(1)
  by (cases i j rule: linorder_cases; auto simp: dbl_eq_def dbl_gt_def dbl_ge_def)+

end
