(* ===== verification/ValueOps.thy ===== *)
theory ValueOps
  imports Floats RefTables Instr
begin

text \<open>
  The operators of the language on values: \<open>Core::pushOpResultValue\<close> with one and with two operands, and
  \<open>OS::runOp\<close>, through which an embedding program applies an operator to the top of the stack.

  Numbers and booleans are computed with in place, a null operand makes arithmetic give null and every
  comparison but exact equality false, and all other values are asked for a method.  Looking a method up,
  calling it and raising an exception belong to the rest of the machine: they are arguments of the model
  (\<open>method_ops\<close>) over an arbitrary state, and so is \<open>pow\<close>, whose result C does not fix.

  A result \<open>None\<close> is a failed assertion or a conversion or shift that C leaves undefined (\<open>(OS_INT)d\<close> of a
  number that is no 64-bit integer, a shift by less than 0 or more than 63 places), or a call that does not
  return.
\<close>

datatype op_error =
  DivisionByZero
| NoMethod string os_value
| NoMethods string os_value string os_value

record 's method_ops =
  mo_lookup :: "'s \<Rightarrow> os_value \<Rightarrow> string \<Rightarrow> os_value option"
  mo_call :: "os_value \<Rightarrow> os_value \<Rightarrow> os_value list \<Rightarrow> 's \<Rightarrow> (os_value \<times> 's) option"
  mo_raise :: "op_error \<Rightarrow> 's \<Rightarrow> 's"
  mo_global :: "string \<Rightarrow> 's \<Rightarrow> os_value"
  mo_globals :: "'s \<Rightarrow> os_value"
  mo_pow :: "u64 \<Rightarrow> u64 \<Rightarrow> u64"

section \<open>Conversions\<close>

fun valueToBool :: "os_value \<Rightarrow> bool" where
  "valueToBool VNull = False"
| "valueToBool (VBool b) = b"
| "valueToBool (VNumber d) = (\<not> dbl_is_nan d)"
| "valueToBool (VGC a) = True"

text \<open>\<open>valueToNumber\<close> on the three types that the operators apply it to.\<close>

fun valueToNumber :: "os_value \<Rightarrow> u64 option" where
  "valueToNumber VNull = Some 0"
| "valueToNumber (VBool b) = Some (if b then 0x3FF0000000000000 else 0)"
| "valueToNumber (VNumber d) = Some d"
| "valueToNumber (VGC a) = None"

definition valueToInt :: "os_value \<Rightarrow> int option" where
  "valueToInt v = Option.bind (valueToNumber v) double_trunc"

fun isEqualExactly :: "os_value \<Rightarrow> os_value \<Rightarrow> bool" where
  "isEqualExactly (VNumber x) (VNumber y) = dbl_eq x y"
| "isEqualExactly (VBool x) (VBool y) = (x = y)"
| "isEqualExactly VNull VNull = True"
| "isEqualExactly (VGC x) (VGC y) = (x = y)"
| "isEqualExactly _ _ = False"

section \<open>Operators on numbers\<close>

text \<open>\<open><<\<close> and \<open>>>\<close> on \<open>OS_INT\<close>.\<close>

definition int_lshift :: "int \<Rightarrow> int \<Rightarrow> int option" where
  "int_lshift i n = (if 0 \<le> n \<and> n < 64 then Some (sint (push_bit (nat n) (word_of_int i :: u64))) else None)"

definition int_rshift :: "int \<Rightarrow> int \<Rightarrow> int option" where
  "int_rshift i n = (if 0 \<le> n \<and> n < 64 then Some (i div 2 ^ nat n) else None)"

text \<open>The operators on two \<open>OS_INT\<close>, \<open>None\<close> for an operator that does not convert its operands.\<close>

definition int_op :: "OpcodeType \<Rightarrow> (int \<Rightarrow> int \<Rightarrow> int option) option" where
  "int_op p =
     (case p of
        OP_BIT_AND \<Rightarrow> Some (\<lambda>i j. Some (i AND j))
      | OP_BIT_OR \<Rightarrow> Some (\<lambda>i j. Some (i OR j))
      | OP_BIT_XOR \<Rightarrow> Some (\<lambda>i j. Some (i XOR j))
      | OP_LSHIFT \<Rightarrow> Some int_lshift
      | OP_RSHIFT \<Rightarrow> Some int_rshift
      | _ \<Rightarrow> None)"

definition dbl_op :: "'s method_ops \<Rightarrow> OpcodeType \<Rightarrow> (u64 \<Rightarrow> u64 \<Rightarrow> u64) option" where
  "dbl_op mo p =
     (case p of
        OP_COMPARE \<Rightarrow> Some dbl_sub
      | OP_ADD \<Rightarrow> Some dbl_add
      | OP_SUB \<Rightarrow> Some dbl_sub
      | OP_MUL \<Rightarrow> Some dbl_mul
      | OP_DIV \<Rightarrow> Some dbl_div
      | OP_MOD \<Rightarrow> Some dbl_mod
      | OP_POW \<Rightarrow> Some (mo_pow mo)
      | _ \<Rightarrow> None)"

definition dbl_test :: "OpcodeType \<Rightarrow> (u64 \<Rightarrow> u64 \<Rightarrow> bool) option" where
  "dbl_test p =
     (case p of
        OP_LOGIC_EQ \<Rightarrow> Some dbl_eq
      | OP_LOGIC_GE \<Rightarrow> Some dbl_ge
      | OP_LOGIC_GREATER \<Rightarrow> Some dbl_gt
      | _ \<Rightarrow> None)"

section \<open>Methods\<close>

definition op_method :: "OpcodeType \<Rightarrow> (string \<times> string) option" where
  "op_method p =
     (case p of
        OP_COMPARE \<Rightarrow> Some (''__cmp'', ''__rcmp'')
      | OP_LOGIC_EQ \<Rightarrow> Some (''__cmp'', ''__rcmp'')
      | OP_LOGIC_GE \<Rightarrow> Some (''__cmp'', ''__rcmp'')
      | OP_LOGIC_GREATER \<Rightarrow> Some (''__cmp'', ''__rcmp'')
      | OP_BIT_AND \<Rightarrow> Some (''__bitand'', ''__rbitand'')
      | OP_BIT_OR \<Rightarrow> Some (''__bitor'', ''__rbitor'')
      | OP_BIT_XOR \<Rightarrow> Some (''__bitxor'', ''__rbitxor'')
      | OP_ADD \<Rightarrow> Some (''__add'', ''__radd'')
      | OP_SUB \<Rightarrow> Some (''__sub'', ''__rsub'')
      | OP_MUL \<Rightarrow> Some (''__mul'', ''__rmul'')
      | OP_DIV \<Rightarrow> Some (''__div'', ''__rdiv'')
      | OP_MOD \<Rightarrow> Some (''__mod'', ''__rmod'')
      | OP_LSHIFT \<Rightarrow> Some (''__lshift'', ''__rlshift'')
      | OP_RSHIFT \<Rightarrow> Some (''__rshift'', ''__rrshift'')
      | OP_POW \<Rightarrow> Some (''__pow'', ''__rpow'')
      | _ \<Rightarrow> None)"

definition unary_method :: "OpcodeType \<Rightarrow> string option" where
  "unary_method p =
     (case p of
        OP_BIT_NOT \<Rightarrow> Some ''__bitnot''
      | OP_PLUS \<Rightarrow> Some ''__plus''
      | OP_MINUS \<Rightarrow> Some ''__minus''
      | _ \<Rightarrow> None)"

text \<open>The two functions \<open>pushObjectMethodOpcodeValue\<close>: the pushed value and the state after the call.\<close>

definition unary_object_method :: "'s method_ops \<Rightarrow> string \<Rightarrow> os_value \<Rightarrow> 's \<Rightarrow> (os_value \<times> 's) option" where
  "unary_object_method mo name value s =
     (case mo_lookup mo s value name of
        Some func \<Rightarrow> mo_call mo func value [] s
      | None \<Rightarrow> Some (VNull, mo_raise mo (NoMethod name value) s))"

definition pushObjectMethodOpcodeValue ::
  "'s method_ops \<Rightarrow> string \<times> string \<Rightarrow> os_value \<Rightarrow> os_value \<Rightarrow> 's \<Rightarrow> (os_value \<times> 's) option" where
  "pushObjectMethodOpcodeValue mo names left right s =
     (case mo_lookup mo s left (fst names) of
        Some func \<Rightarrow> mo_call mo func left [right] s
      | None \<Rightarrow>
          (case mo_lookup mo s right (snd names) of
             Some func \<Rightarrow> mo_call mo func right [left] s
           | None \<Rightarrow> Some (VNull, mo_raise mo (NoMethods (fst names) left (snd names) right) s)))"

section \<open>One operand\<close>

definition push_unary_result :: "'s method_ops \<Rightarrow> OpcodeType \<Rightarrow> os_value \<Rightarrow> 's \<Rightarrow> (os_value \<times> 's) option" where
  "push_unary_result mo p v s =
     (case v of
        VNull \<Rightarrow> Some (VNull, s)
      | VGC a \<Rightarrow> Option.bind (unary_method p) (\<lambda>name. unary_object_method mo name v s)
      | _ \<Rightarrow>
        (case p of
           OP_BIT_NOT \<Rightarrow> Option.bind (valueToInt v) (\<lambda>i. Some (VNumber (double_of_int (NOT i)), s))
         | OP_PLUS \<Rightarrow> Option.bind (valueToNumber v) (\<lambda>x. Some (VNumber x, s))
         | OP_MINUS \<Rightarrow> Option.bind (valueToNumber v) (\<lambda>x. Some (VNumber (dbl_neg x), s))
         | _ \<Rightarrow> None))"

section \<open>Two operands\<close>

definition null_compare :: "os_value \<Rightarrow> os_value \<Rightarrow> u64" where
  "null_compare left right = double_of_int (of_bool (left \<noteq> VNull) - of_bool (right \<noteq> VNull))"

text \<open>
  The inner switch, for operands that are null, numbers or booleans.  The second component of the result is
  the value that \<open>pushOpResultValue\<close> returns.
\<close>

definition prim_binary_result ::
  "'s method_ops \<Rightarrow> OpcodeType \<Rightarrow> os_value \<Rightarrow> os_value \<Rightarrow> 's \<Rightarrow> (os_value \<times> bool \<times> 's) option" where
  "prim_binary_result mo p left right s =
     (let exist = (left \<noteq> VNull \<and> right \<noteq> VNull) in
      if p = OP_LOGIC_PTR_EQ then Some (VBool (isEqualExactly left right), True, s)
      else if p = OP_COMPARE \<and> \<not> exist then Some (VNumber (null_compare left right), False, s)
      else
        (case dbl_test p of
           Some test \<Rightarrow>
             if \<not> exist then Some (VBool False, False, s)
             else Option.bind (valueToNumber left) (\<lambda>x. Option.bind (valueToNumber right) (\<lambda>y.
               Some (VBool (test x y), exist, s)))
         | None \<Rightarrow>
        (case int_op p of
           Some f \<Rightarrow>
             if \<not> exist then Some (VNull, False, s)
             else Option.bind (valueToInt left) (\<lambda>i. Option.bind (valueToInt right) (\<lambda>j.
               Option.bind (f i j) (\<lambda>k. Some (VNumber (double_of_int k), exist, s))))
         | None \<Rightarrow>
        (case dbl_op mo p of
           Some f \<Rightarrow>
             if \<not> exist then Some (VNull, False, s)
             else Option.bind (valueToNumber left) (\<lambda>x. Option.bind (valueToNumber right) (\<lambda>y.
               if p \<in> {OP_DIV, OP_MOD} \<and> dbl_eq y 0 then Some (VNull, False, mo_raise mo DivisionByZero s)
               else Some (VNumber (f x y), exist, s)))
         | None \<Rightarrow> None))))"

text \<open>What is made of the answer of \<open>__cmp\<close>: a comparison and whether a result that is no number counts.\<close>

definition cmp_answer :: "OpcodeType \<Rightarrow> os_value \<Rightarrow> bool \<times> bool" where
  "cmp_answer p v =
     (case (v, dbl_test p) of
        (VNumber d, Some test) \<Rightarrow> (test d 0, True)
      | _ \<Rightarrow> (False, p = OP_LOGIC_EQ))"

fun is_gc :: "os_value \<Rightarrow> bool" where
  "is_gc (VGC a) = True" | "is_gc _ = False"

text \<open>The outer default case: an operand is a string or an object.\<close>

definition gc_binary_result ::
  "'s method_ops \<Rightarrow> OpcodeType \<Rightarrow> os_value \<Rightarrow> os_value \<Rightarrow> 's \<Rightarrow> (os_value \<times> bool \<times> 's) option" where
  "gc_binary_result mo p left right s =
     (let exist = (left \<noteq> VNull \<and> right \<noteq> VNull);
          same = (is_gc left \<and> is_gc right \<and> left = right)
      in if p = OP_LOGIC_PTR_EQ then Some (VBool (isEqualExactly left right), True, s)
         else if p = OP_COMPARE then
           (if same then Some (VNumber 0, True, s)
            else if \<not> exist then Some (VNumber (null_compare left right), False, s)
            else Option.bind (op_method p) (\<lambda>names.
              Option.bind (pushObjectMethodOpcodeValue mo names left right s) (\<lambda>(v, s). Some (v, True, s))))
         else if dbl_test p \<noteq> None then
           (if same then Some (VBool (p \<noteq> OP_LOGIC_GREATER), True, s)
            else if \<not> exist then Some (VBool False, exist, s)
            else Option.bind (op_method p) (\<lambda>names.
              Option.bind (pushObjectMethodOpcodeValue mo names left right s) (\<lambda>(v, s).
                let (res, ex) = cmp_answer p v in Some (VBool res, ex, s))))
         else
           Option.bind (op_method p) (\<lambda>names.
             if exist then
               Option.bind (pushObjectMethodOpcodeValue mo names left right s) (\<lambda>(v, s). Some (v, exist, s))
             else Some (VNull, exist, s)))"

definition pushOpResultValue ::
  "'s method_ops \<Rightarrow> OpcodeType \<Rightarrow> os_value \<Rightarrow> os_value \<Rightarrow> 's \<Rightarrow> (os_value \<times> bool \<times> 's) option" where
  "pushOpResultValue mo p left right s =
     (if is_gc left \<or> is_gc right then gc_binary_result mo p left right s
      else prim_binary_result mo p left right s)"

section \<open>Operators from the embedding program\<close>

text \<open>\<open>OS_EOpcode\<close>; the prefix tells its constants from those of \<open>OpcodeType\<close>.\<close>

datatype OS_EOpcode =
    EOP_LOGIC_PTR_EQ | EOP_LOGIC_PTR_NE | EOP_LOGIC_EQ | EOP_LOGIC_NE | EOP_LOGIC_GE | EOP_LOGIC_LE
  | EOP_LOGIC_GREATER | EOP_LOGIC_LESS | EOP_BIT_AND | EOP_BIT_OR | EOP_BIT_XOR | EOP_COMPARE | EOP_ADD
  | EOP_SUB | EOP_MUL | EOP_DIV | EOP_MOD | EOP_LSHIFT | EOP_RSHIFT | EOP_POW | EOP_CONCAT | EOP_IN | EOP_IS
  | EOP_AS | EOP_BIT_NOT | EOP_PLUS | EOP_MINUS | EOP_LENGTH

text \<open>
  The stack is the list of its values, last the top (\<open>ValueStack\<close> shows that its operations act as on this
  list).  The operands are copied before the operator runs and are replaced by the result.
\<close>

definition runBinaryOpcode ::
  "'s method_ops \<Rightarrow> OpcodeType \<Rightarrow> os_value list \<Rightarrow> 's \<Rightarrow> (bool \<times> os_value list \<times> 's) option" where
  "runBinaryOpcode mo p st s =
     (let n = length st in
      if n < 2 then Some (False, st @ [VNull], s)
      else Option.bind (pushOpResultValue mo p (st ! (n - 2)) (st ! (n - 1)) s) (\<lambda>(v, r, s).
        Some (r, take (n - 2) st @ [v], s)))"

definition runUnaryOpcode :: "'s method_ops \<Rightarrow> OpcodeType \<Rightarrow> os_value list \<Rightarrow> 's \<Rightarrow> (os_value list \<times> 's) option" where
  "runUnaryOpcode mo p st s =
     (let n = length st in
      if n < 1 then Some (st @ [VNull], s)
      else Option.bind (push_unary_result mo p (st ! (n - 1)) s) (\<lambda>(v, s). Some (take (n - 1) st @ [v], s)))"

text \<open>\<open>lib.call\<close>, for operators that are global functions; they need their operands on the stack.\<close>

definition runFunctionOpcode ::
  "'s method_ops \<Rightarrow> string \<Rightarrow> nat \<Rightarrow> os_value list \<Rightarrow> 's \<Rightarrow> (os_value list \<times> 's) option" where
  "runFunctionOpcode mo name k st s =
     (let n = length st in
      if n < k then None
      else Option.bind (mo_call mo (mo_global mo name s) (mo_globals mo s) (drop (n - k) st) s) (\<lambda>(v, s).
        Some (take (n - k) st @ [v], s)))"

definition set_last :: "os_value list \<Rightarrow> bool \<Rightarrow> os_value list" where
  "set_last st b = butlast st @ [VBool b]"

text \<open>\<open>negated\<close> is for the operators that are the negation of another one.\<close>

definition runLogicOpcode ::
  "'s method_ops \<Rightarrow> OpcodeType \<Rightarrow> bool \<Rightarrow> os_value list \<Rightarrow> 's \<Rightarrow> (os_value list \<times> 's) option" where
  "runLogicOpcode mo p negated st s =
     Option.bind (runBinaryOpcode mo p st s) (\<lambda>(r, st, s).
       Some (if r then if negated then set_last st (\<not> valueToBool (last st)) else st
             else set_last st False, s))"

definition runOp :: "'s method_ops \<Rightarrow> OS_EOpcode \<Rightarrow> os_value list \<Rightarrow> 's \<Rightarrow> (os_value list \<times> 's) option" where
  "runOp mo opcode st s =
     (let binary = (\<lambda>p. Option.bind (runBinaryOpcode mo p st s) (\<lambda>(r, st, s). Some (st, s))) in
      case opcode of
        EOP_COMPARE \<Rightarrow> binary OP_COMPARE
      | EOP_LOGIC_PTR_EQ \<Rightarrow> binary OP_LOGIC_PTR_EQ
      | EOP_LOGIC_PTR_NE \<Rightarrow>
          Option.bind (binary OP_LOGIC_PTR_EQ) (\<lambda>(st, s). Some (set_last st (\<not> valueToBool (last st)), s))
      | EOP_LOGIC_EQ \<Rightarrow> runLogicOpcode mo OP_LOGIC_EQ False st s
      | EOP_LOGIC_NE \<Rightarrow> runLogicOpcode mo OP_LOGIC_EQ True st s
      | EOP_LOGIC_GE \<Rightarrow> runLogicOpcode mo OP_LOGIC_GE False st s
      | EOP_LOGIC_LE \<Rightarrow> runLogicOpcode mo OP_LOGIC_GREATER True st s
      | EOP_LOGIC_GREATER \<Rightarrow> runLogicOpcode mo OP_LOGIC_GREATER False st s
      | EOP_LOGIC_LESS \<Rightarrow> runLogicOpcode mo OP_LOGIC_GE True st s
      | EOP_BIT_AND \<Rightarrow> binary OP_BIT_AND
      | EOP_BIT_OR \<Rightarrow> binary OP_BIT_OR
      | EOP_BIT_XOR \<Rightarrow> binary OP_BIT_XOR
      | EOP_ADD \<Rightarrow> binary OP_ADD
      | EOP_SUB \<Rightarrow> binary OP_SUB
      | EOP_MUL \<Rightarrow> binary OP_MUL
      | EOP_DIV \<Rightarrow> binary OP_DIV
      | EOP_MOD \<Rightarrow> binary OP_MOD
      | EOP_LSHIFT \<Rightarrow> binary OP_LSHIFT
      | EOP_RSHIFT \<Rightarrow> binary OP_RSHIFT
      | EOP_POW \<Rightarrow> binary OP_POW
      | EOP_CONCAT \<Rightarrow> runFunctionOpcode mo ''concat'' 2 st s
      | EOP_IN \<Rightarrow> runFunctionOpcode mo ''__in'' 2 st s
      | EOP_IS \<Rightarrow> runFunctionOpcode mo ''__is'' 2 st s
      | EOP_AS \<Rightarrow> runFunctionOpcode mo ''__as'' 2 st s
      | EOP_BIT_NOT \<Rightarrow> runUnaryOpcode mo OP_BIT_NOT st s
      | EOP_PLUS \<Rightarrow> runUnaryOpcode mo OP_PLUS st s
      | EOP_MINUS \<Rightarrow> runUnaryOpcode mo OP_MINUS st s
      | EOP_LENGTH \<Rightarrow> runFunctionOpcode mo ''__length'' 1 st s)"

end
