(* ===== verification/Arith.thy ===== *)
theory Arith
  imports ValueOps CodeFlow
begin

text \<open>
  The instructions of \<open>Core::execute\<close> that compute with values: arithmetic, bit operations, comparisons and
  their variants for operands that are known to be numbers.  They fill the arguments that \<open>CodeFlow\<close> leaves
  open for these instructions (\<open>arith_interp\<close>).

  An instruction computes on two numbers by itself and leaves all other operands to \<open>pushOpResultValue\<close>.  The
  state of \<open>method_ops\<close> is the machine, because a called method can change the locals of the frame.
\<close>

type_synonym 'w vm = "(os_value, 'w) machine"

section \<open>The computations on two numbers\<close>

definition number_int :: "OpcodeType \<Rightarrow> u64 \<Rightarrow> u64 \<Rightarrow> os_value option" where
  "number_int p x y =
     Option.bind (int_op p) (\<lambda>f. Option.bind (double_trunc x) (\<lambda>i. Option.bind (double_trunc y) (\<lambda>j.
       Option.bind (f i j) (\<lambda>k. Some (VNumber (double_of_int k))))))"

definition number_bitwise :: "OpcodeType \<Rightarrow> u64 \<Rightarrow> u64 \<Rightarrow> os_value option" where
  "number_bitwise p x y = (if p \<in> {OP_BIT_AND, OP_BIT_OR, OP_BIT_XOR} then number_int p x y else None)"

definition number_additive :: "OpcodeType \<Rightarrow> u64 \<Rightarrow> u64 \<Rightarrow> os_value option" where
  "number_additive p x y =
     (case p of
        OP_ADD \<Rightarrow> Some (VNumber (dbl_add x y))
      | OP_COMPARE \<Rightarrow> Some (VNumber (dbl_sub x y))
      | OP_SUB \<Rightarrow> Some (VNumber (dbl_sub x y))
      | _ \<Rightarrow> None)"

definition number_multiply :: "OpcodeType \<Rightarrow> u64 \<Rightarrow> u64 \<Rightarrow> os_value option" where
  "number_multiply p x y = (if p = OP_MUL then Some (VNumber (dbl_mul x y)) else None)"

definition number_division ::
  "'w vm method_ops \<Rightarrow> OpcodeType \<Rightarrow> u64 \<Rightarrow> u64 \<Rightarrow> 'w vm \<Rightarrow> (os_value \<times> 'w vm) option" where
  "number_division mo p x y m =
     (if p = OP_DIV \<or> p = OP_MOD
      then if dbl_eq y 0 then Some (VNull, mo_raise mo DivisionByZero m)
           else Some (VNumber (if p = OP_DIV then dbl_div x y else dbl_mod x y), m)
      else None)"

definition number_shift_pow :: "'w vm method_ops \<Rightarrow> OpcodeType \<Rightarrow> u64 \<Rightarrow> u64 \<Rightarrow> os_value option" where
  "number_shift_pow mo p x y =
     (if p = OP_LSHIFT \<or> p = OP_RSHIFT then number_int p x y
      else if p = OP_POW then Some (VNumber (mo_pow mo x y)) else None)"

text \<open>The five groups are those of the source, one after the other.\<close>

definition pure_number :: "'w vm method_ops \<Rightarrow> OpcodeType \<Rightarrow> u64 \<Rightarrow> u64 \<Rightarrow> os_value option" where
  "pure_number mo p x y =
     (case number_bitwise p x y of Some v \<Rightarrow> Some v
      | None \<Rightarrow> (case number_additive p x y of Some v \<Rightarrow> Some v
      | None \<Rightarrow> (case number_multiply p x y of Some v \<Rightarrow> Some v
      | None \<Rightarrow> number_shift_pow mo p x y)))"

definition number_result ::
  "'w vm method_ops \<Rightarrow> OpcodeType \<Rightarrow> u64 \<Rightarrow> u64 \<Rightarrow> 'w vm \<Rightarrow> (os_value \<times> 'w vm) option" where
  "number_result mo p x y m =
     (if p = OP_DIV \<or> p = OP_MOD then number_division mo p x y m
      else Option.bind (pure_number mo p x y) (\<lambda>v. Some (v, m)))"

section \<open>Arithmetic instructions\<close>

definition unary_opcodes :: "OpcodeType list" where
  "unary_opcodes = [OP_BIT_NOT, OP_PLUS, OP_MINUS]"

definition binary_opcodes :: "OpcodeType list" where
  "binary_opcodes = [OP_BIT_AND, OP_BIT_OR, OP_BIT_XOR, OP_ADD, OP_COMPARE, OP_SUB, OP_MUL, OP_DIV, OP_MOD,
     OP_LSHIFT, OP_RSHIFT, OP_POW]"

text \<open>The variants for numbers, with the operator they stand for.\<close>

definition number_opcodes :: "(OpcodeType \<times> OpcodeType) list" where
  "number_opcodes = [(OP_NUMBER_BIT_AND, OP_BIT_AND), (OP_NUMBER_BIT_OR, OP_BIT_OR), (OP_NUMBER_BIT_XOR, OP_BIT_XOR),
     (OP_NUMBER_ADD, OP_ADD), (OP_NUMBER_ADD_LC, OP_ADD), (OP_NUMBER_ADD_LL, OP_ADD), (OP_NUMBER_SUB, OP_SUB),
     (OP_NUMBER_SUB_LC, OP_SUB), (OP_NUMBER_SUB_LL, OP_SUB), (OP_NUMBER_MUL, OP_MUL), (OP_NUMBER_DIV, OP_DIV),
     (OP_NUMBER_MOD, OP_MOD), (OP_NUMBER_LSHIFT, OP_LSHIFT), (OP_NUMBER_RSHIFT, OP_RSHIFT), (OP_NUMBER_POW, OP_POW)]"

definition store_result :: "u32 \<Rightarrow> os_value \<times> 'w vm \<Rightarrow> 'w vm option" where
  "store_result w r =
     (case r of (v, m) \<Rightarrow>
       Option.bind (set_slot (m_locals m) (OS_GETARG_A w) v) (\<lambda>locals. Some (m\<lparr>m_locals := locals\<rparr>)))"

definition unary_value :: "'w vm method_ops \<Rightarrow> OpcodeType \<Rightarrow> os_value \<Rightarrow> 'w vm \<Rightarrow> (os_value \<times> 'w vm) option" where
  "unary_value mo p v m =
     (case v of
        VNumber x \<Rightarrow>
          (case p of
             OP_BIT_NOT \<Rightarrow> Option.bind (double_trunc x) (\<lambda>i. Some (VNumber (double_of_int (NOT i)), m))
           | OP_PLUS \<Rightarrow> Some (v, m)
           | OP_MINUS \<Rightarrow> Some (VNumber (dbl_neg x), m)
           | _ \<Rightarrow> None)
      | _ \<Rightarrow> push_unary_result mo p v m)"

definition exec_unary :: "'w vm method_ops \<Rightarrow> OpcodeType \<Rightarrow> u32 \<Rightarrow> 'w vm \<Rightarrow> 'w vm option" where
  "exec_unary mo p w m =
     Option.bind (OS_GETARG_B_VALUE (m_locals m) (m_consts m) w) (\<lambda>v.
     Option.bind (unary_value mo p v m) (store_result w))"

definition binary_value ::
  "'w vm method_ops \<Rightarrow> OpcodeType \<Rightarrow> os_value \<Rightarrow> os_value \<Rightarrow> 'w vm \<Rightarrow> (os_value \<times> 'w vm) option" where
  "binary_value mo p left right m =
     (case (left, right) of
        (VNumber x, VNumber y) \<Rightarrow> number_result mo p x y m
      | _ \<Rightarrow> Option.bind (pushOpResultValue mo p left right m) (\<lambda>(v, r, m). Some (v, m)))"

definition exec_binary :: "'w vm method_ops \<Rightarrow> OpcodeType \<Rightarrow> u32 \<Rightarrow> 'w vm \<Rightarrow> 'w vm option" where
  "exec_binary mo p w m =
     Option.bind (OS_GETARG_B_VALUE (m_locals m) (m_consts m) w) (\<lambda>left.
     Option.bind (OS_GETARG_C_VALUE (m_locals m) (m_consts m) w) (\<lambda>right.
     Option.bind (binary_value mo p left right m) (store_result w)))"

text \<open>The operands of the variants \<open>LC\<close> and \<open>LL\<close> are read without looking at the flags of the instruction.\<close>

definition number_left :: "OpcodeType \<Rightarrow> u32 \<Rightarrow> 'w vm \<Rightarrow> os_value option" where
  "number_left q w m =
     (if q \<in> {OP_NUMBER_ADD_LC, OP_NUMBER_ADD_LL, OP_NUMBER_SUB_LC, OP_NUMBER_SUB_LL}
      then nth_slot (m_locals m) (OS_GETARG_B w)
      else OS_GETARG_B_VALUE (m_locals m) (m_consts m) w)"

definition number_right :: "OpcodeType \<Rightarrow> u32 \<Rightarrow> 'w vm \<Rightarrow> os_value option" where
  "number_right q w m =
     (if q \<in> {OP_NUMBER_ADD_LC, OP_NUMBER_SUB_LC} then nth_slot (m_consts m) (OS_GETARG_C w)
      else if q \<in> {OP_NUMBER_ADD_LL, OP_NUMBER_SUB_LL} then nth_slot (m_locals m) (OS_GETARG_C w)
      else OS_GETARG_C_VALUE (m_locals m) (m_consts m) w)"

definition exec_number :: "'w vm method_ops \<Rightarrow> OpcodeType \<Rightarrow> OpcodeType \<Rightarrow> u32 \<Rightarrow> 'w vm \<Rightarrow> 'w vm option" where
  "exec_number mo q p w m =
     Option.bind (number_left q w m) (\<lambda>left. Option.bind (number_right q w m) (\<lambda>right.
       case (left, right) of
         (VNumber x, VNumber y) \<Rightarrow> Option.bind (number_result mo p x y m) (store_result w)
       | _ \<Rightarrow> None))"

definition exec_arith :: "'w vm method_ops \<Rightarrow> u32 \<Rightarrow> 'w vm \<Rightarrow> 'w vm option" where
  "exec_arith mo w m =
     (case find (has_op w) unary_opcodes of
        Some p \<Rightarrow> exec_unary mo p w m
      | None \<Rightarrow>
     (case find (has_op w) binary_opcodes of
        Some p \<Rightarrow> exec_binary mo p w m
      | None \<Rightarrow>
     (case find (\<lambda>(q, p). has_op w q) number_opcodes of
        Some (q, p) \<Rightarrow> exec_number mo q p w m
      | None \<Rightarrow> None)))"

section \<open>Comparisons\<close>

text \<open>The value of a test after its negation: \<open>b\<close> is the operand B of the instruction.\<close>

definition inverted :: "bool \<Rightarrow> nat \<Rightarrow> bool" where
  "inverted res b \<longleftrightarrow> (of_bool res XOR b) \<noteq> 0"

definition logic_value ::
  "'w vm method_ops \<Rightarrow> OpcodeType \<Rightarrow> nat \<Rightarrow> os_value \<Rightarrow> os_value \<Rightarrow> 'w vm \<Rightarrow> (bool \<times> 'w vm) option" where
  "logic_value mo p b left right m =
     (case (left, right) of
        (VNumber x, VNumber y) \<Rightarrow> Option.bind (dbl_test p) (\<lambda>test. Some (inverted (test x y) b, m))
      | _ \<Rightarrow> Option.bind (pushOpResultValue mo p left right m) (\<lambda>(v, r, m).
          if r then (case v of VBool res \<Rightarrow> Some (inverted res b, m) | _ \<Rightarrow> None)
          else Some (False, m)))"

definition compare_operands ::
  "u32 \<Rightarrow> 'w vm \<Rightarrow> (nat \<Rightarrow> os_value \<Rightarrow> os_value \<Rightarrow> (bool \<times> 'w vm) option) \<Rightarrow> (bool \<times> 'w vm) option" where
  "compare_operands w m f =
     Option.bind (nth_slot (m_locals m) (OS_GETARG_A w)) (\<lambda>left.
     Option.bind (nth_slot (m_locals m) (OS_GETARG_A w + 1)) (\<lambda>right. f (OS_GETARG_B w) left right))"

definition exec_OP_LOGIC_PTR_EQ :: "u32 \<Rightarrow> 'w vm \<Rightarrow> (bool \<times> 'w vm) option" where
  "exec_OP_LOGIC_PTR_EQ w m =
     compare_operands w m (\<lambda>b left right. Some (inverted (isEqualExactly left right) b, m))"

definition exec_OP_LOGIC_EQ :: "'w vm method_ops \<Rightarrow> u32 \<Rightarrow> 'w vm \<Rightarrow> (bool \<times> 'w vm) option" where
  "exec_OP_LOGIC_EQ mo w m = compare_operands w m (\<lambda>b left right. logic_value mo OP_LOGIC_EQ b left right m)"

definition exec_OP_LOGIC_GREATER :: "'w vm method_ops \<Rightarrow> u32 \<Rightarrow> 'w vm \<Rightarrow> (bool \<times> 'w vm) option" where
  "exec_OP_LOGIC_GREATER mo w m =
     compare_operands w m (\<lambda>b left right. logic_value mo OP_LOGIC_GREATER b left right m)"

definition exec_OP_LOGIC_GE :: "'w vm method_ops \<Rightarrow> u32 \<Rightarrow> 'w vm \<Rightarrow> (bool \<times> 'w vm) option" where
  "exec_OP_LOGIC_GE mo w m = compare_operands w m (\<lambda>b left right. logic_value mo OP_LOGIC_GE b left right m)"

definition number_test :: "(u64 \<Rightarrow> u64 \<Rightarrow> bool) \<Rightarrow> u32 \<Rightarrow> 'w vm \<Rightarrow> (bool \<times> 'w vm) option" where
  "number_test test w m =
     compare_operands w m (\<lambda>b left right.
       case (left, right) of (VNumber x, VNumber y) \<Rightarrow> Some (inverted (test x y) b, m) | _ \<Rightarrow> None)"

definition exec_OP_NUMBER_LOGIC_EQ :: "u32 \<Rightarrow> 'w vm \<Rightarrow> (bool \<times> 'w vm) option" where
  "exec_OP_NUMBER_LOGIC_EQ = number_test dbl_eq"

definition exec_OP_NUMBER_LOGIC_GREATER :: "u32 \<Rightarrow> 'w vm \<Rightarrow> (bool \<times> 'w vm) option" where
  "exec_OP_NUMBER_LOGIC_GREATER = number_test dbl_gt"

definition exec_OP_NUMBER_LOGIC_GE :: "u32 \<Rightarrow> 'w vm \<Rightarrow> (bool \<times> 'w vm) option" where
  "exec_OP_NUMBER_LOGIC_GE = number_test dbl_ge"

definition exec_compare :: "'w vm method_ops \<Rightarrow> u32 \<Rightarrow> 'w vm \<Rightarrow> (bool \<times> 'w vm) option" where
  "exec_compare mo w m =
     (if has_op w OP_LOGIC_PTR_EQ then exec_OP_LOGIC_PTR_EQ w m
      else if has_op w OP_LOGIC_EQ then exec_OP_LOGIC_EQ mo w m
      else if has_op w OP_NUMBER_LOGIC_EQ then exec_OP_NUMBER_LOGIC_EQ w m
      else if has_op w OP_LOGIC_GREATER then exec_OP_LOGIC_GREATER mo w m
      else if has_op w OP_NUMBER_LOGIC_GREATER then exec_OP_NUMBER_LOGIC_GREATER w m
      else if has_op w OP_LOGIC_GE then exec_OP_LOGIC_GE mo w m
      else if has_op w OP_NUMBER_LOGIC_GE then exec_OP_NUMBER_LOGIC_GE w m
      else None)"

text \<open>
  The interpreter of \<open>CodeFlow\<close> with these instructions; \<open>terminated\<close> tells that an exception is set, after
  which the function is left (a handler in the function is not modelled).
\<close>

definition settle_effect :: "('w vm \<Rightarrow> bool) \<Rightarrow> 'w vm \<Rightarrow> 'a \<Rightarrow> ('a, 'w vm) effect" where
  "settle_effect terminated m r = (if terminated m then Leave m else Next r)"

definition arith_interp ::
  "('w vm \<Rightarrow> bool) \<Rightarrow> 'w vm method_ops \<Rightarrow> (os_value, 'w) interp_ops \<Rightarrow> (os_value, 'w) interp_ops" where
  "arith_interp terminated mo ops =
     ops\<lparr>io_truth := valueToBool, io_bool := VBool,
       io_compare := \<lambda>w m. Option.bind (exec_compare mo w m) (\<lambda>(b, m). Some (settle_effect terminated m (b, m))),
       io_data := \<lambda>w m.
         if list_ex (has_op w) (unary_opcodes @ binary_opcodes @ map fst number_opcodes)
         then Option.bind (exec_arith mo w m) (\<lambda>m. Some (settle_effect terminated m m))
         else io_data ops w m\<rparr>"

end
