(* ===== verification/ArithLaws.thy ===== *)
theory ArithLaws
  imports Arith CodeShapes
begin

text \<open>
  What the arithmetic instructions compute: the short cut for two numbers agrees with \<open>pushOpResultValue\<close>,
  \<open>OS::runOp\<close> agrees with the interpreter, the variants for numbers agree with the general instructions, the
  results on null, booleans and numbers are of the expected type, and integers are computed with exactly.
\<close>

section \<open>The short cut for numbers\<close>

lemmas op_tables = int_op_def dbl_op_def dbl_test_def op_method_def

lemma number_result_slow:
  assumes "p \<in> set binary_opcodes"
  shows "number_result mo p x y m
    = Option.bind (pushOpResultValue mo p (VNumber x) (VNumber y) m) (\<lambda>(v, r, m). Some (v, m))"
  using assms
  by (auto simp: binary_opcodes_def pushOpResultValue_def prim_binary_result_def number_result_def pure_number_def
      number_bitwise_def number_additive_def number_multiply_def number_division_def number_shift_pow_def
      number_int_def valueToInt_def op_tables split: bind_splits)

lemma binary_value_slow:
  assumes "p \<in> set binary_opcodes"
  shows "binary_value mo p left right m
    = Option.bind (pushOpResultValue mo p left right m) (\<lambda>(v, r, m). Some (v, m))"
  using number_result_slow [OF assms] by (cases left; cases right) (simp_all add: binary_value_def)

lemma unary_value_slow:
  assumes "p \<in> set unary_opcodes"
  shows "unary_value mo p v m = push_unary_result mo p v m"
  using assms by (cases v) (auto simp: unary_opcodes_def unary_value_def push_unary_result_def valueToInt_def)

text \<open>A comparison by its opcode, exact equality included.\<close>

definition test_value ::
  "'w vm method_ops \<Rightarrow> OpcodeType \<Rightarrow> nat \<Rightarrow> os_value \<Rightarrow> os_value \<Rightarrow> 'w vm \<Rightarrow> (bool \<times> 'w vm) option" where
  "test_value mo p b left right m =
     (if p = OP_LOGIC_PTR_EQ then Some (inverted (isEqualExactly left right) b, m)
      else logic_value mo p b left right m)"

definition logic_opcodes :: "OpcodeType list" where
  "logic_opcodes = [OP_LOGIC_PTR_EQ, OP_LOGIC_EQ, OP_LOGIC_GE, OP_LOGIC_GREATER]"

lemma logic_value_slow:
  assumes "p \<in> set logic_opcodes"
  shows "test_value mo p b left right m
    = Option.bind (pushOpResultValue mo p left right m) (\<lambda>(v, r, m).
        if r then (case v of VBool res \<Rightarrow> Some (inverted res b, m) | _ \<Rightarrow> None) else Some (False, m))"
  using assms
  by (cases left; cases right)
    (auto simp: logic_opcodes_def test_value_def logic_value_def pushOpResultValue_def prim_binary_result_def
      gc_binary_result_def op_tables)

section \<open>Decoding\<close>

lemma find_has_op:
  assumes "has_op w p" "distinct ps"
  shows "find (has_op w) ps = (if p \<in> set ps then Some p else None)"
  using assms by (induction ps) (auto dest: has_op_unique)

lemma find_number_op:
  assumes "has_op w q"
  shows "find (\<lambda>(q, p). has_op w q) number_opcodes = map_option (Pair q) (map_of number_opcodes q)"
proof -
  have "find (\<lambda>(q, p). has_op w q) qs = map_option (Pair q) (map_of qs q)" for qs :: "(OpcodeType \<times> OpcodeType) list"
    using assms by (induction qs) (auto dest: has_op_unique)
  then show ?thesis .
qed

lemma opcode_lists:
  "distinct unary_opcodes" "distinct binary_opcodes" "set unary_opcodes \<inter> set binary_opcodes = {}"
  "set unary_opcodes \<inter> fst ` set number_opcodes = {}" "set binary_opcodes \<inter> fst ` set number_opcodes = {}"
  "snd ` set number_opcodes \<subseteq> set binary_opcodes"
  by (simp_all add: unary_opcodes_def binary_opcodes_def number_opcodes_def)

lemma exec_arith_unary: "has_op w p \<Longrightarrow> p \<in> set unary_opcodes \<Longrightarrow> exec_arith mo w m = exec_unary mo p w m"
  by (simp add: exec_arith_def find_has_op opcode_lists)

lemma exec_arith_binary:
  assumes "has_op w p" "p \<in> set binary_opcodes"
  shows "exec_arith mo w m = exec_binary mo p w m"
proof -
  have "p \<notin> set unary_opcodes" using assms(2) opcode_lists(3) by blast
  with assms show ?thesis by (simp add: exec_arith_def find_has_op opcode_lists)
qed

lemma exec_arith_number:
  assumes "has_op w q" "map_of number_opcodes q = Some p"
  shows "exec_arith mo w m = exec_number mo q p w m"
proof -
  have "q \<in> fst ` set number_opcodes" using map_of_SomeD [OF assms(2)] by force
  then have "q \<notin> set unary_opcodes" "q \<notin> set binary_opcodes" using opcode_lists(4,5) by blast+
  with assms show ?thesis by (simp add: exec_arith_def find_has_op find_number_op opcode_lists)
qed

section \<open>The interpreter and the embedding interface\<close>

definition eop_arith :: "OS_EOpcode \<Rightarrow> OpcodeType option" where
  "eop_arith e =
     map_of [(EOP_BIT_AND, OP_BIT_AND), (EOP_BIT_OR, OP_BIT_OR), (EOP_BIT_XOR, OP_BIT_XOR), (EOP_COMPARE, OP_COMPARE),
       (EOP_ADD, OP_ADD), (EOP_SUB, OP_SUB), (EOP_MUL, OP_MUL), (EOP_DIV, OP_DIV), (EOP_MOD, OP_MOD),
       (EOP_LSHIFT, OP_LSHIFT), (EOP_RSHIFT, OP_RSHIFT), (EOP_POW, OP_POW)] e"

text \<open>A comparison is compiled to an instruction and whether it negates.\<close>

definition eop_logic :: "OS_EOpcode \<Rightarrow> (OpcodeType \<times> bool) option" where
  "eop_logic e =
     map_of [(EOP_LOGIC_PTR_EQ, OP_LOGIC_PTR_EQ, False), (EOP_LOGIC_PTR_NE, OP_LOGIC_PTR_EQ, True),
       (EOP_LOGIC_EQ, OP_LOGIC_EQ, False), (EOP_LOGIC_NE, OP_LOGIC_EQ, True),
       (EOP_LOGIC_GE, OP_LOGIC_GE, False), (EOP_LOGIC_LE, OP_LOGIC_GREATER, True),
       (EOP_LOGIC_GREATER, OP_LOGIC_GREATER, False), (EOP_LOGIC_LESS, OP_LOGIC_GE, True)] e"

lemma runBinary_two:
  "runBinaryOpcode mo p (st @ [left, right]) s
    = Option.bind (pushOpResultValue mo p left right s) (\<lambda>(v, r, s). Some (r, st @ [v], s))"
  by (simp add: runBinaryOpcode_def Let_def nth_append)

lemma eop_arith_runs:
  assumes "eop_arith e = Some p"
  shows "p \<in> set binary_opcodes
    \<and> runOp mo e (st @ [left, right]) m = map_option (\<lambda>(v, m). (st @ [v], m)) (binary_value mo p left right m)"
proof -
  have p: "p \<in> set binary_opcodes" using assms
    by (auto simp: eop_arith_def binary_opcodes_def split: if_splits)
  have "runOp mo e (st @ [left, right]) m
    = Option.bind (runBinaryOpcode mo p (st @ [left, right]) m) (\<lambda>(r, st, s). Some (st, s))"
    using assms by (auto simp: eop_arith_def runOp_def split: if_splits)
  also have "\<dots> = map_option (\<lambda>(v, m). (st @ [v], m)) (binary_value mo p left right m)"
    unfolding binary_value_slow [OF p] runBinary_two
    by (cases "pushOpResultValue mo p left right m") auto
  finally show ?thesis using p by simp
qed

lemma inverted_bool: "inverted b (of_bool neg) \<longleftrightarrow> b \<noteq> neg"
  by (cases b; cases neg) (simp_all add: inverted_def)

lemma push_logic_bool:
  assumes "p \<in> set logic_opcodes" "pushOpResultValue mo p left right s = Some (v, r, s')"
  shows "\<exists>b. v = VBool b"
  using assms
  by (auto simp: logic_opcodes_def pushOpResultValue_def prim_binary_result_def gc_binary_result_def op_tables Let_def
      split: if_splits bind_splits prod.splits)

lemma eop_logic_runs:
  assumes "eop_logic e = Some (p, neg)"
  shows "p \<in> set logic_opcodes
    \<and> runOp mo e (st @ [left, right]) m
      = map_option (\<lambda>(b, m). (st @ [VBool b], m)) (test_value mo p (of_bool neg) left right m)"
proof -
  have p: "p \<in> set logic_opcodes" using assms
    by (auto simp: eop_logic_def logic_opcodes_def split: if_splits)
  have "runOp mo e (st @ [left, right]) m
    = map_option (\<lambda>(b, m). (st @ [VBool b], m)) (test_value mo p (of_bool neg) left right m)"
  proof (cases "pushOpResultValue mo p left right m")
    case None
    with assms p show ?thesis
      by (auto simp: eop_logic_def runOp_def runLogicOpcode_def runBinary_two logic_value_slow split: if_splits)
  next
    case (Some q)
    obtain v r m' where q: "q = (v, r, m')" by (cases q)
    obtain b where v: "v = VBool b" using push_logic_bool [OF p Some [unfolded q]] by (elim exE)
    have ptr: "r" if "p = OP_LOGIC_PTR_EQ"
      using Some that q by (auto simp: pushOpResultValue_def prim_binary_result_def gc_binary_result_def split: if_splits)
    show ?thesis
      using assms Some q v ptr p
      by (auto simp: eop_logic_def runOp_def runLogicOpcode_def runBinary_two logic_value_slow inverted_bool set_last_def
          split: if_splits)
  qed
  with p show ?thesis by simp
qed

lemma last_of_snoc: "butlast xs @ [x] = xs \<Longrightarrow> last xs = x"
  by (metis last_snoc)

lemma exec_compare_test:
  assumes "has_op w p" "p \<in> set logic_opcodes"
  shows "exec_compare mo w m = compare_operands w m (\<lambda>b left right. test_value mo p b left right m)"
proof -
  have "has_op w q \<longleftrightarrow> q = p" for q using assms(1) has_op_unique by blast
  then show ?thesis using assms(2)
    by (auto simp: logic_opcodes_def exec_compare_def exec_OP_LOGIC_PTR_EQ_def exec_OP_LOGIC_EQ_def
        exec_OP_LOGIC_GREATER_def exec_OP_LOGIC_GE_def test_value_def compare_operands_def split: bind_splits)
qed


section \<open>The variants for numbers\<close>

lemma has_op_instr: "operands_in_range a b c \<Longrightarrow> has_op (instr_ABC p a b c) q \<longleftrightarrow> q = p"
  using decode_ABC(1) [of a b c p] has_op_unique [of "instr_ABC p a b c" p q] by (auto simp: has_op_def)

lemma operand_values_instr:
  assumes "operands_in_range a b c"
  shows "OS_GETARG_B_VALUE ls cs (instr_ABC p a b c) = (if b < 0 then nth_slot cs (operand_index b) else nth_slot ls (operand_index b))"
    "OS_GETARG_C_VALUE ls cs (instr_ABC p a b c) = (if c < 0 then nth_slot cs (operand_index c) else nth_slot ls (operand_index c))"
  using decode_ABC [OF assms, of p] by (simp_all add: OS_GETARG_B_VALUE_def OS_GETARG_C_VALUE_def)

lemma exec_number_instr:
  fixes m :: "'w vm"
  assumes r: "operands_in_range a b c" and q: "map_of number_opcodes q = Some p"
    and left: "OS_GETARG_B_VALUE (m_locals m) (m_consts m) (instr_ABC p' a b c) = Some (VNumber x)"
    and right: "OS_GETARG_C_VALUE (m_locals m) (m_consts m) (instr_ABC p' a b c) = Some (VNumber y)"
    and lc: "q \<in> {OP_NUMBER_ADD_LC, OP_NUMBER_SUB_LC} \<Longrightarrow> 0 \<le> b \<and> c < 0"
    and ll: "q \<in> {OP_NUMBER_ADD_LL, OP_NUMBER_SUB_LL} \<Longrightarrow> 0 \<le> b \<and> 0 \<le> c"
  shows "exec_arith mo (instr_ABC q a b c) m
    = Option.bind (number_result mo p x y m) (store_result (instr_ABC p' a b c))"
proof -
  have op: "has_op (instr_ABC q a b c) q" by (simp add: has_op_instr [OF r])
  have "number_left q (instr_ABC q a b c) m = Some (VNumber x)"
    using left lc ll decode_ABC [OF r, of q] by (auto simp: number_left_def operand_values_instr [OF r])
  moreover have "number_right q (instr_ABC q a b c) m = Some (VNumber y)"
    using right lc ll decode_ABC [OF r, of q] by (auto simp: number_right_def operand_values_instr [OF r])
  moreover have "store_result (instr_ABC q a b c) = (store_result (instr_ABC p' a b c) :: _ \<Rightarrow> 'w vm option)"
    using decode_ABC(2) [OF r] by (auto simp: store_result_def fun_eq_iff)
  ultimately show ?thesis by (simp add: exec_arith_number [OF op q] exec_number_def)
qed

lemma number_of_getOpcodeType:
  assumes "getOpcodeType t CVT_NUMBER = Some q" "getOpcodeType t vt = Some p" "vt \<noteq> CVT_NUMBER" "q \<noteq> p"
  shows "p \<in> set binary_opcodes \<and> (\<exists>p'. map_of number_opcodes q = Some p'
    \<and> (\<forall>mo :: 'w vm method_ops. number_result mo p' = number_result mo p))
    \<and> q \<notin> {OP_NUMBER_ADD_LC, OP_NUMBER_ADD_LL, OP_NUMBER_SUB_LC, OP_NUMBER_SUB_LL}"
proof -
  have "number_result mo OP_SUB = number_result mo OP_COMPARE" for mo :: "'w vm method_ops"
    by (auto simp: fun_eq_iff number_result_def pure_number_def number_bitwise_def number_additive_def)
  then show ?thesis using assms
    by (cases t) (auto simp: getOpcodeType_def get_num_def number_opcodes_def binary_opcodes_def split: if_splits)
qed

text \<open>
  C16: the code generator may use the instructions for numbers: for every expression type, the instruction that
  it chooses when it knows both operands to be numbers (with the variants for a local and a constant or two
  locals) computes the same as the general instruction, on all pairs of numbers, division by zero included.
\<close>

theorem number_instructions_agree:
  fixes mo :: "'w vm method_ops"
  assumes "getOpcodeType t CVT_NUMBER = Some q" "getOpcodeType t CVT_DYNAMIC = Some p" "q \<noteq> p"
    and r: "operands_in_range a b c"
    and left: "OS_GETARG_B_VALUE (m_locals m) (m_consts m) (instr_ABC p a b c) = Some (VNumber x)"
    and right: "OS_GETARG_C_VALUE (m_locals m) (m_consts m) (instr_ABC p a b c) = Some (VNumber y)"
  shows "exec_arith mo (instr_ABC (operand_opcode q b c) a b c) m = exec_arith mo (instr_ABC p a b c) m"
proof -
  from number_of_getOpcodeType [OF assms(1,2) _ assms(3), where 'w = 'w] obtain p' where p: "p \<in> set binary_opcodes"
    and p': "map_of number_opcodes q = Some p'" "number_result mo p' = number_result mo p"
    and q: "q \<notin> {OP_NUMBER_ADD_LC, OP_NUMBER_ADD_LL, OP_NUMBER_SUB_LC, OP_NUMBER_SUB_LL}" by auto
  have op: "has_op (instr_ABC p a b c) p" by (simp add: has_op_instr [OF r])
  have "map_of number_opcodes (operand_opcode q b c) = Some p'"
  proof -
    consider "q = OP_NUMBER_ADD" | "q = OP_NUMBER_SUB" | "q \<noteq> OP_NUMBER_ADD" "q \<noteq> OP_NUMBER_SUB" by blast
    then show ?thesis
    proof cases
      case 3
      with p'(1) show ?thesis by (simp add: operand_opcode_def)
    qed (use p'(1) in \<open>auto simp: operand_opcode_def number_opcodes_def\<close>)
  qed
  then have "exec_arith mo (instr_ABC (operand_opcode q b c) a b c) m
      = Option.bind (number_result mo p' x y m) (store_result (instr_ABC p a b c))"
    using q by (intro exec_number_instr [OF r _ left right]) (auto simp: operand_opcode_def split: if_splits)
  also have "\<dots> = exec_arith mo (instr_ABC p a b c) m"
    using left right p'(2) by (simp add: exec_arith_binary [OF op p] exec_binary_def binary_value_def)
  finally show ?thesis .
qed

section \<open>Examples\<close>

definition sample_methods :: "unit vm method_ops" where
  "sample_methods = \<lparr>mo_lookup = \<lambda>s v name. None, mo_call = \<lambda>func self args s. None, mo_raise = \<lambda>e s. s,
     mo_global = \<lambda>name s. VNull, mo_globals = \<lambda>s. VNull, mo_pow = \<lambda>x y. x\<rparr>"

definition sample_vm :: "unit vm" where
  "sample_vm = \<lparr>m_locals = [VNumber (double_of_int 7), VNumber (double_of_int 5), VNull],
     m_consts = [VNumber (double_of_int 12)], m_world = ()\<rparr>"

text \<open>Local 2 becomes local 0 less constant 0; local 0 is compared with local 1.\<close>

definition sample_sub :: u32 where "sample_sub = instr_ABC OP_SUB 2 0 (-1)"
definition sample_greater :: u32 where "sample_greater = instr_ABC OP_LOGIC_GREATER 0 0 0"

lemma sample_range: "operands_in_range 2 0 (-1)" "operands_in_range 0 0 0"
  by (simp_all add: operands_in_range_def maxarg_defs layout_defs)

lemmas sample_decode = decode_ABC [OF sample_range(1), of OP_SUB, folded sample_sub_def]
  decode_ABC [OF sample_range(2), of OP_LOGIC_GREATER, folded sample_greater_def]

lemma sample_op: "has_op sample_sub OP_SUB" "has_op sample_greater OP_LOGIC_GREATER"
  by (simp_all add: has_op_def sample_decode)

lemma sample_operands:
  "OS_GETARG_B_VALUE (m_locals sample_vm) (m_consts sample_vm) sample_sub = Some (VNumber (double_of_int 7))"
  "OS_GETARG_C_VALUE (m_locals sample_vm) (m_consts sample_vm) sample_sub = Some (VNumber (double_of_int 12))"
  "nth_slot (m_locals sample_vm) (OS_GETARG_A sample_greater) = Some (VNumber (double_of_int 7))"
  "nth_slot (m_locals sample_vm) (OS_GETARG_A sample_greater + 1) = Some (VNumber (double_of_int 5))"
  "OS_GETARG_A sample_sub = 2" "OS_GETARG_B sample_greater = 0" "length (m_locals sample_vm) = 3"
  by (simp_all add: OS_GETARG_B_VALUE_def OS_GETARG_C_VALUE_def sample_decode operand_index_def nth_slot_def sample_vm_def)


theorem number_instructions_agree_witness:
  "exec_arith sample_methods (instr_ABC OP_NUMBER_SUB_LC 2 0 (-1)) sample_vm
    = exec_arith sample_methods (instr_ABC OP_SUB 2 0 (-1)) sample_vm"
  using number_instructions_agree [of EXP_TYPE_SUB OP_NUMBER_SUB OP_SUB 2 0 "-1" sample_vm
      "double_of_int 7" "double_of_int 12" sample_methods] sample_range(1) sample_operands(1,2)
  by (simp add: getOpcodeType_def get_num_def operand_opcode_def sample_sub_def)

end
