(* ===== verification/Primitives.thy ===== *)
theory Primitives
  imports ArithLaws
begin

text \<open>
  The operators on null, booleans and numbers: which results they can have, and that they compute with
  integers as mathematics does as long as these fit into the 53 bits of a number.
\<close>

section \<open>The results on null, booleans and numbers\<close>

fun number_of :: "os_value \<Rightarrow> u64" where
  "number_of (VBool b) = (if b then 0x3FF0000000000000 else 0)"
| "number_of (VNumber d) = d"
| "number_of _ = 0"

lemma valueToNumber_prim: "\<not> is_gc v \<Longrightarrow> valueToNumber v = Some (number_of v)"
  by (cases v) auto

definition primitive_result ::
  "'w vm method_ops \<Rightarrow> OpcodeType \<Rightarrow> os_value \<Rightarrow> os_value \<Rightarrow> 'w vm \<Rightarrow> os_value \<Rightarrow> 'w vm \<Rightarrow> bool" where
  "primitive_result mo p left right m v m' \<longleftrightarrow>
     (if left = VNull \<or> right = VNull
      then m' = m \<and> v = (if p = OP_COMPARE then VNumber (null_compare left right) else VNull)
      else if p \<in> {OP_DIV, OP_MOD} \<and> dbl_eq (number_of right) 0
      then m' = mo_raise mo DivisionByZero m \<and> v = VNull
      else m' = m \<and> (\<exists>d. v = VNumber d))"

lemma push_primitive:
  assumes "\<not> is_gc left" "\<not> is_gc right" "p \<in> set binary_opcodes" "pushOpResultValue mo p left right m = Some (v, r, m')"
  shows "primitive_result mo p left right m v m'"
  using assms
  by (auto simp: binary_opcodes_def pushOpResultValue_def prim_binary_result_def op_tables primitive_result_def
      valueToNumber_prim Let_def split: if_splits bind_splits)

text \<open>Only an operator that needs integers can be undefined.\<close>

lemma push_primitive_defined:
  assumes "\<not> is_gc left" "\<not> is_gc right" "p \<in> set binary_opcodes" "int_op p = None"
  shows "\<exists>v r m'. pushOpResultValue mo p left right m = Some (v, r, m')"
  using assms
  by (auto simp: binary_opcodes_def pushOpResultValue_def prim_binary_result_def op_tables valueToNumber_prim Let_def)

lemma push_primitive_test:
  assumes "\<not> is_gc left" "\<not> is_gc right" "p \<in> set logic_opcodes"
  shows "\<exists>b r. pushOpResultValue mo p left right m = Some (VBool b, r, m)
    \<and> (p \<noteq> OP_LOGIC_PTR_EQ \<longrightarrow> r = (left \<noteq> VNull \<and> right \<noteq> VNull))"
  using assms
  by (auto simp: logic_opcodes_def pushOpResultValue_def prim_binary_result_def op_tables valueToNumber_prim Let_def)

lemma primitive_arith:
  assumes "\<not> is_gc left" "\<not> is_gc right" "has_op w p" "OS_GETARG_A w < length (m_locals m)" "p \<in> set binary_opcodes"
    and operands: "OS_GETARG_B_VALUE (m_locals m) (m_consts m) w = Some left"
      "OS_GETARG_C_VALUE (m_locals m) (m_consts m) w = Some right"
  shows "exec_arith mo w m = Some m' \<Longrightarrow>
      \<exists>v m1. primitive_result mo p left right m v m1 \<and> m' = m1\<lparr>m_locals := (m_locals m1)[OS_GETARG_A w := v]\<rparr>"
    and "int_op p = None \<Longrightarrow> \<not> dbl_eq (number_of right) 0 \<Longrightarrow> exec_arith mo w m \<noteq> None"
proof -
  have e: "exec_arith mo w m
    = Option.bind (pushOpResultValue mo p left right m) (\<lambda>(v, r, m). store_result w (v, m))"
    using operands assms(5)
    by (auto simp: exec_arith_binary [OF assms(3,5)] exec_binary_def binary_value_slow split: bind_splits)
  show "\<exists>v m1. primitive_result mo p left right m v m1 \<and> m' = m1\<lparr>m_locals := (m_locals m1)[OS_GETARG_A w := v]\<rparr>"
    if "exec_arith mo w m = Some m'"
    using that push_primitive [OF assms(1,2,5)] unfolding e
    by (fastforce simp: store_result_def set_slot_def split: bind_splits if_splits)
  assume i: "int_op p = None" and z: "\<not> dbl_eq (number_of right) 0"
  obtain v r m1 where v: "pushOpResultValue mo p left right m = Some (v, r, m1)"
    using push_primitive_defined [OF assms(1,2,5) i, of mo m] by (elim exE)
  have "m1 = m" using push_primitive [OF assms(1,2,5) v] z by (simp add: primitive_result_def split: if_splits)
  with v assms(4) show "exec_arith mo w m \<noteq> None" by (simp add: e store_result_def set_slot_def)
qed

lemma primitive_compare:
  assumes "\<not> is_gc left" "\<not> is_gc right" "has_op w p" "p \<in> set logic_opcodes"
    and operands: "nth_slot (m_locals m) (OS_GETARG_A w) = Some left" "nth_slot (m_locals m) (OS_GETARG_A w + 1) = Some right"
  shows "\<exists>b. exec_compare mo w m = Some (b, m) \<and> (p \<noteq> OP_LOGIC_PTR_EQ \<and> (left = VNull \<or> right = VNull) \<longrightarrow> \<not> b)"
proof -
  obtain b r where "pushOpResultValue mo p left right m = Some (VBool b, r, m)"
    "p \<noteq> OP_LOGIC_PTR_EQ \<longrightarrow> r = (left \<noteq> VNull \<and> right \<noteq> VNull)"
    using push_primitive_test [OF assms(1,2,4), of mo m] by (elim exE conjE)
  with operands show ?thesis
    by (auto simp: exec_compare_test [OF assms(3,4)] compare_operands_def logic_value_slow [OF assms(4)])
qed


section \<open>Integers\<close>

definition int_result :: "OpcodeType \<Rightarrow> int \<Rightarrow> int \<Rightarrow> int option" where
  "int_result p i j =
     (case p of
        OP_ADD \<Rightarrow> Some (i + j)
      | OP_SUB \<Rightarrow> Some (i - j)
      | OP_COMPARE \<Rightarrow> Some (i - j)
      | OP_MUL \<Rightarrow> if i * j = 0 then None else Some (i * j)
      | OP_BIT_AND \<Rightarrow> Some (i AND j)
      | OP_BIT_OR \<Rightarrow> Some (i OR j)
      | OP_BIT_XOR \<Rightarrow> Some (i XOR j)
      | OP_LSHIFT \<Rightarrow> if 0 \<le> j \<and> j < 64 then Some (i * 2 ^ nat j) else None
      | OP_RSHIFT \<Rightarrow> if 0 \<le> j \<and> j < 64 then Some (i div 2 ^ nat j) else None
      | _ \<Rightarrow> None)"

definition int_test :: "OpcodeType \<Rightarrow> int \<Rightarrow> int \<Rightarrow> bool" where
  "int_test p i j = (case p of OP_LOGIC_GE \<Rightarrow> i \<ge> j | OP_LOGIC_GREATER \<Rightarrow> i > j | _ \<Rightarrow> i = j)"

lemma int_lshift_small:
  assumes "\<bar>i * 2 ^ nat n\<bar> < 2 ^ 53" "0 \<le> n" "n < 64"
  shows "int_lshift i n = Some (i * 2 ^ nat n)"
proof -
  have "push_bit (nat n) (word_of_int i :: u64) = word_of_int (i * 2 ^ nat n)"
    by (simp add: push_bit_eq_mult)
  moreover have "sint (word_of_int k :: u64) = k" if "\<bar>k\<bar> < 2 ^ 53" for k
    using that by (subst sint_sbintrunc') (simp add: signed_take_bit_int_eq_self)
  ultimately show ?thesis using assms by (simp only: int_lshift_def simp_thms if_True)
qed

lemma number_result_int:
  assumes "\<bar>i\<bar> < 2 ^ 53" "\<bar>j\<bar> < 2 ^ 53" "\<bar>k\<bar> < 2 ^ 53" "int_result p i j = Some k"
  shows "number_result mo p (double_of_int i) (double_of_int j) m = Some (VNumber (double_of_int k), m)"
proof -
  have int_case: "number_int p (double_of_int i) (double_of_int j) = Some (VNumber (double_of_int k))"
    if "int_op p = Some f" "f i j = Some k" for f
    using that by (simp add: number_int_def double_trunc_of_int [OF assms(1)] double_trunc_of_int [OF assms(2)])
  have shift: "int_lshift i j = Some k" if "p = OP_LSHIFT"
    using that assms(3,4) int_lshift_small [of i j] by (simp add: int_result_def split: if_splits)
  show ?thesis
  proof (cases "int_op p")
    case None
    with assms(4) have "p \<in> {OP_ADD, OP_SUB, OP_COMPARE, OP_MUL}"
      by (simp add: int_result_def int_op_def split: OpcodeType.splits if_splits)
    then show ?thesis
      using assms(3,4) dbl_add_int [OF assms(1,2)] dbl_sub_int [OF assms(1,2)] dbl_mul_int [OF assms(1,2)]
      by (elim insertE emptyE) (simp_all add: int_result_def number_result_def pure_number_def number_bitwise_def
        number_additive_def number_multiply_def split: if_splits)
  next
    case (Some f)
    then have p: "p \<in> {OP_BIT_AND, OP_BIT_OR, OP_BIT_XOR, OP_LSHIFT, OP_RSHIFT}"
      by (simp add: int_op_def split: OpcodeType.splits)
    then have "f i j = Some k" using Some assms(4) shift
      by (elim insertE emptyE) (auto simp: int_result_def int_op_def int_rshift_def split: if_splits)
    note r = int_case [OF Some this]
    from p r show ?thesis
      by (elim insertE emptyE) (simp_all add: number_result_def pure_number_def number_bitwise_def
        number_additive_def number_multiply_def number_shift_pow_def)
  qed
qed

text \<open>
  C15: integers are computed with exactly.  Although every number is a \<open>double\<close>, the instructions for addition,
  subtraction, comparison, multiplication (of non-zero factors), bit operations and shifts give on integers the
  integer result whenever operands and result have absolute values below \<open>2 ^ 53\<close>, and the comparison
  instructions decide as on integers.
\<close>

theorem integer_instructions:
  assumes "\<bar>i\<bar> < 2 ^ 53" "\<bar>j\<bar> < 2 ^ 53" "has_op w p" "OS_GETARG_A w < length (m_locals m)"
  shows "(OS_GETARG_B_VALUE (m_locals m) (m_consts m) w = Some (VNumber (double_of_int i))
        \<and> OS_GETARG_C_VALUE (m_locals m) (m_consts m) w = Some (VNumber (double_of_int j)) \<longrightarrow>
      (\<forall>k. int_result p i j = Some k \<and> \<bar>k\<bar> < 2 ^ 53 \<longrightarrow>
        exec_arith mo w m = Some (m\<lparr>m_locals := (m_locals m)[OS_GETARG_A w := VNumber (double_of_int k)]\<rparr>)))
    \<and> (p \<in> set logic_opcodes \<and> nth_slot (m_locals m) (OS_GETARG_A w) = Some (VNumber (double_of_int i))
        \<and> nth_slot (m_locals m) (OS_GETARG_A w + 1) = Some (VNumber (double_of_int j)) \<longrightarrow>
      exec_compare mo w m = Some (inverted (int_test p i j) (OS_GETARG_B w), m))"
proof (intro conjI impI allI; elim conjE)
  fix k
  assume o: "OS_GETARG_B_VALUE (m_locals m) (m_consts m) w = Some (VNumber (double_of_int i))"
    "OS_GETARG_C_VALUE (m_locals m) (m_consts m) w = Some (VNumber (double_of_int j))"
    and k: "int_result p i j = Some k" "\<bar>k\<bar> < 2 ^ 53"
  from k(1) have p: "p \<in> set binary_opcodes"
    by (auto simp: int_result_def binary_opcodes_def split: OpcodeType.splits)
  show "exec_arith mo w m = Some (m\<lparr>m_locals := (m_locals m)[OS_GETARG_A w := VNumber (double_of_int k)]\<rparr>)"
    using o assms(4) number_result_int [OF assms(1,2) k(2,1), where mo = mo and m = m]
    by (simp add: exec_arith_binary [OF assms(3) p] exec_binary_def binary_value_def store_result_def set_slot_def)
next
  assume p: "p \<in> set logic_opcodes"
    and o: "nth_slot (m_locals m) (OS_GETARG_A w) = Some (VNumber (double_of_int i))"
      "nth_slot (m_locals m) (OS_GETARG_A w + 1) = Some (VNumber (double_of_int j))"
  then show "exec_compare mo w m = Some (inverted (int_test p i j) (OS_GETARG_B w), m)"
    by (auto simp: exec_compare_test [OF assms(3) p] compare_operands_def test_value_def logic_value_def op_tables
        logic_opcodes_def int_test_def dbl_compare_int [OF assms(1,2)])
qed


section \<open>Examples\<close>

theorem integer_instructions_witness:
  "exec_arith sample_methods sample_sub sample_vm
    = Some (sample_vm\<lparr>m_locals := (m_locals sample_vm)[2 := VNumber (double_of_int (-5))]\<rparr>)
   \<and> exec_compare sample_methods sample_greater sample_vm = Some (True, sample_vm)"
proof
  show "exec_arith sample_methods sample_sub sample_vm
    = Some (sample_vm\<lparr>m_locals := (m_locals sample_vm)[2 := VNumber (double_of_int (-5))]\<rparr>)"
    using integer_instructions [of 7 12 sample_sub OP_SUB sample_vm sample_methods] sample_op sample_operands
    by (simp add: int_result_def)
  show "exec_compare sample_methods sample_greater sample_vm = Some (True, sample_vm)"
    using integer_instructions [of 7 5 sample_greater OP_LOGIC_GREATER sample_vm sample_methods] sample_op sample_operands
      sample_decode(8)
    by (simp add: logic_opcodes_def int_test_def inverted_def operand_index_def)
qed


end
