(* ===== verification/ConstFold.thy ===== *)
theory ConstFold
  imports Primitives Operators
begin

text \<open>
  Constant folding: the first part of \<open>Compiler::newBinaryExpression\<close>, which computes an operator on two
  constants while the tree is built.  The value of a constant in a compiled program is \<open>const_value\<close> of
  \<open>Program\<close>; its string is what \<open>Expression::toString\<close> makes of it, with the text of a number as an argument.
\<close>

section \<open>Constants\<close>

definition const_os_value :: "(bytes \<Rightarrow> addr) \<Rightarrow> const_value \<Rightarrow> os_value" where
  "const_os_value intern k =
     (case k of ConstNull \<Rightarrow> VNull | ConstBool b \<Rightarrow> VBool b | ConstNumber x \<Rightarrow> VNumber x
      | ConstString s \<Rightarrow> VGC (intern s))"

text \<open>\<open>Expression::toNumber\<close> and \<open>toInt\<close>; strings are not converted here because folding leaves them out.\<close>

definition const_toNumber :: "const_value \<Rightarrow> u64 option" where
  "const_toNumber k =
     (case k of ConstNull \<Rightarrow> Some 0 | ConstBool b \<Rightarrow> Some (if b then double_of_int 1 else double_of_int 0)
      | ConstNumber x \<Rightarrow> Some x | ConstString s \<Rightarrow> None)"

definition const_toInt :: "const_value \<Rightarrow> int option" where
  "const_toInt k = Option.bind (const_toNumber k) double_trunc"

definition ascii :: "string \<Rightarrow> bytes" where
  "ascii s = map of_char s"

definition const_toString :: "(u64 \<Rightarrow> bytes) \<Rightarrow> const_value \<Rightarrow> bytes" where
  "const_toString number_text k =
     (case k of ConstNull \<Rightarrow> ascii ''null'' | ConstString s \<Rightarrow> s | ConstNumber x \<Rightarrow> number_text x
      | ConstBool b \<Rightarrow> ascii (if b then ''true'' else ''false''))"

section \<open>Folding\<close>

fun foldable :: "const_value \<Rightarrow> bool" where
  "foldable (ConstString s) = False" | "foldable ConstNull = False" | "foldable _ = True"

definition const_number_op ::
  "const_value \<Rightarrow> const_value \<Rightarrow> (u64 \<Rightarrow> u64 \<Rightarrow> u64) \<Rightarrow> const_value option option" where
  "const_number_op left right f =
     Option.bind (const_toNumber left) (\<lambda>x. Option.bind (const_toNumber right) (\<lambda>y. Some (Some (ConstNumber (f x y)))))"

definition const_int_op ::
  "const_value \<Rightarrow> const_value \<Rightarrow> (int \<Rightarrow> int \<Rightarrow> int option) \<Rightarrow> const_value option option" where
  "const_int_op left right f =
     Option.bind (const_toInt left) (\<lambda>i. Option.bind (const_toInt right) (\<lambda>j. Option.bind (f i j) (\<lambda>k.
       Some (Some (ConstNumber (double_of_int k))))))"

text \<open>
  The result \<open>Some None\<close> leaves the expression to run time: division by zero is to raise its exception then.
  \<open>None\<close> is undefined behaviour of the compiler itself, as in \<open>ValueOps\<close>.
\<close>

definition fold_constants ::
  "(u64 \<Rightarrow> u64 \<Rightarrow> u64) \<Rightarrow> (u64 \<Rightarrow> bytes) \<Rightarrow> OperatorExpression \<Rightarrow> const_value \<Rightarrow> const_value \<Rightarrow> const_value option option" where
  "fold_constants pow number_text t left right =
     (if t \<in> {OperatorExpression.EXP_TYPE_CONCAT, OperatorExpression.EXP_TYPE_BEFORE_INJECT_VAR,
              OperatorExpression.EXP_TYPE_AFTER_INJECT_VAR}
      then Some (Some (ConstString (const_toString number_text left @ const_toString number_text right)))
      else if \<not> (foldable left \<and> foldable right) then Some None
      else
        (case t of
           OperatorExpression.EXP_TYPE_BIT_AND \<Rightarrow> const_int_op left right (\<lambda>i j. Some (i AND j))
         | OperatorExpression.EXP_TYPE_BIT_OR \<Rightarrow> const_int_op left right (\<lambda>i j. Some (i OR j))
         | OperatorExpression.EXP_TYPE_BIT_XOR \<Rightarrow> const_int_op left right (\<lambda>i j. Some (i XOR j))
         | OperatorExpression.EXP_TYPE_ADD \<Rightarrow> const_number_op left right dbl_add
         | OperatorExpression.EXP_TYPE_SUB \<Rightarrow> const_number_op left right dbl_sub
         | OperatorExpression.EXP_TYPE_MUL \<Rightarrow> const_number_op left right dbl_mul
         | OperatorExpression.EXP_TYPE_DIV \<Rightarrow>
             Option.bind (const_toNumber right) (\<lambda>y.
               if dbl_eq y 0 then Some None else const_number_op left right dbl_div)
         | OperatorExpression.EXP_TYPE_MOD \<Rightarrow>
             Option.bind (const_toNumber right) (\<lambda>y.
               if dbl_eq y 0 then Some None else const_number_op left right dbl_mod)
         | OperatorExpression.EXP_TYPE_LSHIFT \<Rightarrow> const_int_op left right int_lshift
         | OperatorExpression.EXP_TYPE_RSHIFT \<Rightarrow> const_int_op left right int_rshift
         | OperatorExpression.EXP_TYPE_POW \<Rightarrow> const_number_op left right pow
         | _ \<Rightarrow> Some None))"

section \<open>Folding against execution\<close>

text \<open>The instruction that a folded operator would be compiled to.\<close>

definition folded_opcode :: "OperatorExpression \<Rightarrow> OpcodeType option" where
  "folded_opcode t =
     (case t of
        OperatorExpression.EXP_TYPE_BIT_AND \<Rightarrow> Some OP_BIT_AND
      | OperatorExpression.EXP_TYPE_BIT_OR \<Rightarrow> Some OP_BIT_OR
      | OperatorExpression.EXP_TYPE_BIT_XOR \<Rightarrow> Some OP_BIT_XOR
      | OperatorExpression.EXP_TYPE_ADD \<Rightarrow> Some OP_ADD
      | OperatorExpression.EXP_TYPE_SUB \<Rightarrow> Some OP_SUB
      | OperatorExpression.EXP_TYPE_MUL \<Rightarrow> Some OP_MUL
      | OperatorExpression.EXP_TYPE_DIV \<Rightarrow> Some OP_DIV
      | OperatorExpression.EXP_TYPE_MOD \<Rightarrow> Some OP_MOD
      | OperatorExpression.EXP_TYPE_LSHIFT \<Rightarrow> Some OP_LSHIFT
      | OperatorExpression.EXP_TYPE_RSHIFT \<Rightarrow> Some OP_RSHIFT
      | OperatorExpression.EXP_TYPE_POW \<Rightarrow> Some OP_POW
      | _ \<Rightarrow> None)"

lemma double_of_int_one: "double_of_int 1 = 0x3FF0000000000000"
  by (simp add: double_of_int_def bit_length.simps [of 1] bit_length.simps [of 0] Let_def)

lemma const_toNumber_prim:
  "foldable k \<Longrightarrow> const_toNumber k = valueToNumber (const_os_value intern k)"
  by (cases k) (auto simp: const_toNumber_def const_os_value_def double_of_int_one double_of_int_zero)

lemma foldable_value:
  "foldable k \<Longrightarrow> \<not> is_gc (const_os_value intern k) \<and> const_os_value intern k \<noteq> VNull"
  by (cases k) (auto simp: const_os_value_def)

lemma fold_outcome:
  fixes mo :: "'w vm method_ops"
  assumes "folded_opcode t = Some p"
  shows "p \<in> set binary_opcodes \<and> (\<forall>k. fold_constants (mo_pow mo) number_text t left right = Some (Some k) \<longrightarrow>
      binary_value mo p (const_os_value intern left) (const_os_value intern right) m = Some (const_os_value intern k, m))
    \<and> (foldable left \<and> foldable right \<longrightarrow>
        (fold_constants (mo_pow mo) number_text t left right = Some None \<longrightarrow>
          binary_value mo p (const_os_value intern left) (const_os_value intern right) m
            = Some (VNull, mo_raise mo DivisionByZero m))
      \<and> (fold_constants (mo_pow mo) number_text t left right = None \<longrightarrow>
          binary_value mo p (const_os_value intern left) (const_os_value intern right) m = None))"
proof -
  have p: "p \<in> set binary_opcodes" using assms
    by (auto simp: folded_opcode_def binary_opcodes_def split: OperatorExpression.splits)
  have t: "t \<notin> {OperatorExpression.EXP_TYPE_CONCAT, OperatorExpression.EXP_TYPE_BEFORE_INJECT_VAR,
      OperatorExpression.EXP_TYPE_AFTER_INJECT_VAR}" using assms by (auto simp: folded_opcode_def)
  show ?thesis
  proof (cases "foldable left \<and> foldable right")
    case False
    with p t show ?thesis by (auto simp: fold_constants_def)
  next
    case True
    then have v: "const_toNumber left = valueToNumber (const_os_value intern left)"
      "const_toNumber right = valueToNumber (const_os_value intern right)"
      "\<not> is_gc (const_os_value intern left)" "\<not> is_gc (const_os_value intern right)"
      "const_os_value intern left \<noteq> VNull" "const_os_value intern right \<noteq> VNull"
      using const_toNumber_prim foldable_value by auto
    have k: "const_os_value intern (ConstNumber x) = VNumber x" for x by (simp add: const_os_value_def)
    from True t assms p v show ?thesis
      unfolding binary_value_slow [OF p]
      by (cases t) (auto simp: folded_opcode_def fold_constants_def const_number_op_def const_int_op_def const_toInt_def
        pushOpResultValue_def prim_binary_result_def op_tables valueToInt_def valueToNumber_prim k
        split: bind_splits if_splits)
  qed
qed


definition folding_vm :: "unit vm" where
  "folding_vm = sample_vm\<lparr>m_consts := [VNumber (double_of_int 7), VNumber (double_of_int 12), VNumber (double_of_int (-5))]\<rparr>"


end
