(* ===== verification/StackRefs.thy ===== *)
theory StackRefs
  imports ValueStack
begin

text \<open>
  Operands by reference.  \<open>pushOpResultValue\<close> takes its operands as references, which for an instruction of
  the interpreter point into the value stack, and \<open>Core::execute\<close> keeps the address of the frame in a local
  variable while an instruction runs.  Both can outlive the buffer: a push into a full stack moves the values
  to a new block and frees the old one.  This theory is about these two uses of an address across a push; the
  operators themselves are in \<open>ValueOps\<close> and \<open>Arith\<close>.
\<close>

section \<open>References\<close>

text \<open>A constant of the program does not move; a value of the stack is where its address says.\<close>

datatype value_ref = Const_ref os_value | Stack_ref int

text \<open>Reading or writing outside of the current block is an access to freed memory, here \<open>None\<close>.\<close>

definition load_ref :: "value_ref \<Rightarrow> vstack \<Rightarrow> os_value option" where
  "load_ref r s = (case r of Const_ref v \<Rightarrow> Some v | Stack_ref p \<Rightarrow> buf_get (p - vs_base s) (vs_buf s))"

definition store_ref :: "int \<Rightarrow> os_value \<Rightarrow> vstack \<Rightarrow> vstack option" where
  "store_ref p v s = Option.bind (buf_set (p - vs_base s) v (vs_buf s)) (\<lambda>buf. Some (s\<lparr>vs_buf := buf\<rparr>))"

section \<open>Calling a method on the operands\<close>

text \<open>
  The three pushes of \<open>pushObjectMethodOpcodeValue\<close>: the function, the value it is called on and the other
  operand.  \<open>bases\<close> are the blocks that \<open>malloc\<close> returns should a push have to grow the stack.
\<close>

definition push_method_call :: "int \<times> int \<times> int \<Rightarrow> os_value \<Rightarrow> value_ref \<Rightarrow> value_ref \<Rightarrow> vstack \<Rightarrow> vstack option" where
  "push_method_call bases func self arg s =
     (case bases of (b1, b2, b3) \<Rightarrow>
       Option.bind (pushStackValue b1 func s) (\<lambda>s.
       Option.bind (load_ref self s) (\<lambda>v. Option.bind (pushStackValue b2 v s) (\<lambda>s.
       Option.bind (load_ref arg s) (\<lambda>v. pushStackValue b3 v s)))))"

text \<open>Two blocks that do not overlap.\<close>

definition block_apart :: "int \<Rightarrow> int \<Rightarrow> vstack \<Rightarrow> bool" where
  "block_apart b n s \<longleftrightarrow> b + n \<le> vs_base s \<or> vs_base s + vs_capacity s \<le> b"

definition ref_in :: "value_ref \<Rightarrow> vstack \<Rightarrow> bool" where
  "ref_in r s \<longleftrightarrow> (case r of Const_ref v \<Rightarrow> True | Stack_ref p \<Rightarrow> vs_base s \<le> p \<and> p < vs_base s + vs_count s)"

fun is_const_ref :: "value_ref \<Rightarrow> bool" where
  "is_const_ref (Const_ref v) = True" | "is_const_ref (Stack_ref p) = False"

fun ref_value :: "value_ref \<Rightarrow> vstack \<Rightarrow> os_value" where
  "ref_value (Const_ref v) s = v"
| "ref_value (Stack_ref p) s = stk s ! nat (p - vs_base s)"

section \<open>One push\<close>

lemma grown_capacity_bounds:
  assumes "0 \<le> c"
  shows "c + 2 \<le> grown_capacity c (c + 1)" "grown_capacity c (c + 1) \<le> 2 * c + 32"
proof -
  have m: "0 \<le> (c * 2 + 16) mod 16" "(c * 2 + 16) mod 16 < 16" "0 \<le> (c + 1 + 16) mod 16" "(c + 1 + 16) mod 16 < 16"
    by simp_all
  show "grown_capacity c (c + 1) \<le> 2 * c + 32"
    using m assms unfolding grown_capacity_def and_not_15 Let_def by auto
  show "c + 2 \<le> grown_capacity c (c + 1)"
  proof (cases "c = 0")
    case False
    then show ?thesis using m assms unfolding grown_capacity_def and_not_15 Let_def by auto
  qed (simp add: grown_capacity_def and_not_15)
qed

definition pushed :: "int \<Rightarrow> os_value \<Rightarrow> vstack \<Rightarrow> vstack \<Rightarrow> bool" where
  "pushed b v s s' \<longleftrightarrow> stk s' = stk s @ [v] \<and> stack_inv s' \<and> vs_count s' = vs_count s + 1
     \<and> (if vs_count s < vs_capacity s then vs_base s' = vs_base s \<and> vs_capacity s' = vs_capacity s
        else vs_base s' = b \<and> vs_capacity s' = grown_capacity (vs_capacity s) (vs_capacity s + 1))"

text \<open>A push keeps the block if there is room and moves to the new block if the stack is full.\<close>

lemma push_step:
  assumes "stack_inv s" "vs_capacity s < 2 ^ 29"
  obtains s' where "pushStackValue b v s = Some s'" "pushed b v s s'"
proof -
  have c: "0 \<le> vs_capacity s" "vs_count s \<le> vs_capacity s" using assms(1) by (auto simp: stack_inv_def)
  have fits: "capacity_fits s" using assms c by (simp add: capacity_fits_def)
  obtain s' where s': "pushStackValue b v s = Some s'" "stk s' = stk s @ [v]" "stack_inv s'"
    using pushStackValue_refines [OF assms(1) fits] by blast
  have n: "vs_count s' = vs_count s + 1"
    using stack_inv_length [OF assms(1)] stack_inv_length [OF s'(3)] s'(2) by simp
  have "if vs_count s < vs_capacity s then vs_base s' = vs_base s \<and> vs_capacity s' = vs_capacity s
    else vs_base s' = b \<and> vs_capacity s' = grown_capacity (vs_capacity s) (vs_capacity s + 1)"
    using s'(1) c(2)
    by (auto simp: pushStackValue_def growStackValues_def os_assert_def Let_def split: bind_splits if_splits)
  then show ?thesis using that s' n by (simp add: pushed_def)
qed

lemma load_kept:
  assumes "ref_in r s" "stack_inv s" "stack_inv s'" "vs_base s' = vs_base s" "stk s' = stk s @ vs"
  shows "load_ref r s' = Some (ref_value r s)"
proof (cases r)
  case (Stack_ref p)
  let ?i = "nat (p - vs_base s)"
  have i: "?i < length (stk s)" "0 \<le> p - vs_base s"
    using assms(1) stack_inv_length [OF assms(2)] by (auto simp: ref_in_def Stack_ref)
  then have "?i < length (stk s')" using assms(5) by simp
  then have "?i < length (vs_buf s')" "vs_buf s' ! ?i = stk s' ! ?i" by (simp_all add: stk_def)
  with i assms(4,5) show ?thesis by (simp add: load_ref_def Stack_ref buf_get_def os_assert_def nth_append)
qed (simp add: load_ref_def)

lemma load_const: "is_const_ref r \<Longrightarrow> load_ref r s' = Some (ref_value r s)"
  by (cases r) (simp_all add: load_ref_def)

lemma load_freed:
  assumes "ref_in r s" "\<not> is_const_ref r" "stack_inv s" "stack_inv s'" "block_apart (vs_base s') (vs_capacity s') s"
  shows "load_ref r s' = None"
proof (cases r)
  case (Stack_ref p)
  have "vs_base s \<le> p" "p < vs_base s + vs_capacity s" "vs_capacity s' = int (length (vs_buf s'))"
    using assms(1,3,4) by (auto simp: ref_in_def Stack_ref stack_inv_def)
  with assms(5) show ?thesis by (auto simp: load_ref_def Stack_ref buf_get_def os_assert_def block_apart_def)
qed (use assms(2) in simp)

section \<open>Operands that outlive their block\<close>

definition operands_survive :: "value_ref \<Rightarrow> value_ref \<Rightarrow> vstack \<Rightarrow> bool" where
  "operands_survive self arg s \<longleftrightarrow>
     vs_count s + 2 \<le> vs_capacity s
     \<or> is_const_ref arg \<and> (vs_count s < vs_capacity s \<or> is_const_ref self)"

text \<open>
  C17: operands are used after they are freed.  Asking an operand for its operator method pushes the function
  and the two operands; the operands are read through references that were taken before the pushes.  If the
  stack has room for two more values, or the references that are read after it moved are to constants, the
  three values are pushed; otherwise the stack moves to another block during the pushes and an operand is read
  from the block that was freed.
\<close>

theorem operand_references:
  assumes inv: "stack_inv s" "vs_capacity s < 2 ^ 27" and refs: "ref_in self s" "ref_in arg s"
    and fresh: "block_apart b1 (grown_capacity (vs_capacity s) (vs_capacity s + 1)) s"
      "block_apart b2 (grown_capacity (vs_capacity s) (vs_capacity s + 1)) s"
  shows "if operands_survive self arg s
    then \<exists>s'. push_method_call (b1, b2, b3) func self arg s = Some s'
      \<and> stk s' = stk s @ [func, ref_value self s, ref_value arg s]
    else push_method_call (b1, b2, b3) func self arg s = None"
proof -
  let ?call = "push_method_call (b1, b2, b3) func self arg s"
  let ?done = "\<exists>s'. ?call = Some s' \<and> stk s' = stk s @ [func, ref_value self s, ref_value arg s]"
  have cap: "0 \<le> vs_capacity s" "vs_count s \<le> vs_capacity s" using inv(1) by (auto simp: stack_inv_def)
  note grown = grown_capacity_bounds [OF cap(1)]
  obtain s1 where s1: "pushStackValue b1 func s = Some s1" "pushed b1 func s s1"
    using push_step [OF inv(1), of b1 func] inv(2) by auto
  have inv1: "stack_inv s1" "vs_capacity s1 < 2 ^ 29" using s1(2) inv(2) grown by (auto simp: pushed_def split: if_splits)
  have third: "\<exists>s'. pushStackValue b3 v s2 = Some s' \<and> stk s' = stk s1 @ [u, v]"
    if "pushed b2 u s1 s2" "vs_capacity s2 < 2 ^ 29" for u v s2
    using push_step [of s2 b3 v] that by (auto simp: pushed_def)
  show ?thesis
  proof (cases "vs_count s < vs_capacity s")
    case True
    then have b1: "vs_base s1 = vs_base s" "vs_capacity s1 = vs_capacity s" "vs_count s1 = vs_count s + 1"
      "stk s1 = stk s @ [func]" using s1(2) by (simp_all add: pushed_def)
    note self = load_kept [OF refs(1) inv(1) inv1(1) b1(1,4)]
    obtain s2 where s2: "pushStackValue b2 (ref_value self s) s1 = Some s2" "pushed b2 (ref_value self s) s1 s2"
      using push_step [OF inv1] by metis
    have inv2: "stack_inv s2" "vs_capacity s2 < 2 ^ 29" "stk s2 = stk s @ [func, ref_value self s]"
      using s2(2) b1 inv(2) grown by (auto simp: pushed_def split: if_splits)
    have call: "?call = Option.bind (load_ref arg s2) (\<lambda>v. pushStackValue b3 v s2)"
      by (simp add: push_method_call_def s1(1) self s2(1))
    show ?thesis
    proof (cases "vs_count s + 2 \<le> vs_capacity s \<or> is_const_ref arg")
      case survive: True
      have "load_ref arg s2 = Some (ref_value arg s)"
      proof (cases "is_const_ref arg")
        case False
        with survive b1 s2(2) have "vs_base s2 = vs_base s" by (simp add: pushed_def)
        then show ?thesis using load_kept [OF refs(2) inv(1) inv2(1) _ inv2(3)] by simp
      qed (rule load_const)
      with third [OF s2(2) inv2(2)] survive True b1(4) show ?thesis by (auto simp: call operands_survive_def)
    next
      case False
      with True b1 s2(2) have "vs_base s2 = b2" "vs_capacity s2 = grown_capacity (vs_capacity s) (vs_capacity s + 1)"
        by (auto simp: pushed_def)
      then have "load_ref arg s2 = None"
        using False fresh(2) load_freed [OF refs(2) _ inv(1) inv2(1)] by simp
      with False show ?thesis by (simp add: call operands_survive_def)
    qed
  next
    case full: False
    then have b1: "vs_base s1 = b1" "vs_capacity s1 = grown_capacity (vs_capacity s) (vs_capacity s + 1)"
      "vs_count s1 = vs_count s + 1" "stk s1 = stk s @ [func]" using s1(2) by (simp_all add: pushed_def)
    show ?thesis
    proof (cases "is_const_ref self")
      case False
      then have "load_ref self s1 = None"
        using fresh(1) b1(1,2) load_freed [OF refs(1) _ inv(1) inv1(1)] by simp
      with False full show ?thesis by (simp add: push_method_call_def s1(1) operands_survive_def)
    next
      case True
      obtain s2 where s2: "pushStackValue b2 (ref_value self s) s1 = Some s2" "pushed b2 (ref_value self s) s1 s2"
        using push_step [OF inv1] by metis
      have room: "vs_count s1 < vs_capacity s1" using b1(2,3) grown(1) cap(2) by simp
      then have b2: "vs_base s2 = b1" "vs_capacity s2 = vs_capacity s1" "stack_inv s2" using s2(2) b1(1)
        by (simp_all add: pushed_def)
      have call: "?call = Option.bind (load_ref arg s2) (\<lambda>v. pushStackValue b3 v s2)"
        by (simp add: push_method_call_def s1(1) load_const [OF True, where s = s] s2(1))
      show ?thesis
      proof (cases "is_const_ref arg")
        case arg: True
        with third [OF s2(2)] inv1(2) b2(2) b1(4) True show ?thesis
          by (auto simp: call load_const [OF arg, where s = s] operands_survive_def)
      next
        case False
        then have "load_ref arg s2 = None"
          using fresh(1) b1(2) b2 load_freed [OF refs(2) _ inv(1) b2(3)] by simp
        with False full show ?thesis by (simp add: call operands_survive_def)
      qed
    qed
  qed
qed

text \<open>A stack of 16 values that is full; the operands are its last two.\<close>

definition full_stack :: vstack where
  "full_stack = \<lparr>vs_base = 1000, vs_buf = replicate 14 VNull @ [VGC 1, VGC 2], vs_count = 16, vs_capacity = 16,
     call_stack_funcs = [\<lparr>locals_stack_pos = 2, locals_values = 1002\<rparr>], stack_func = Some 0,
     stack_func_locals = 1002\<rparr>"

lemma full_stack_ok: "stack_inv full_stack" "vs_capacity full_stack < 2 ^ 27"
  "ref_in (Stack_ref 1014) full_stack" "ref_in (Stack_ref 1015) full_stack"
  "grown_capacity (vs_capacity full_stack) (vs_capacity full_stack + 1) = 48"
  by (simp_all add: full_stack_def stack_inv_def frames_ok_def ref_in_def grown_capacity_def and_not_15)

theorem operand_references_witness:
  "push_method_call (2000, 3000, 4000) (VGC 7) (Stack_ref 1014) (Stack_ref 1015) full_stack = None"
  using operand_references [OF full_stack_ok(1-4), of 2000 3000 4000 "VGC 7"] full_stack_ok(5)
  by (simp add: operands_survive_def block_apart_def) (simp add: full_stack_def)

section \<open>A frame that outlives its block\<close>

text \<open>
  The division of two numbers by zero: \<open>errorDivisionByZero\<close> pushes its message and runs \<open>setException\<close>
  (\<open>raise\<close>), then null is stored into local \<open>a\<close> of the frame.  \<open>cached\<close> tells whether the frame is the address
  that the loop of \<open>execute\<close> took before the instruction, or the field of \<open>Core\<close>, as in the branch for
  operands that are not both numbers.
\<close>

definition division_by_zero_store ::
  "bool \<Rightarrow> int \<Rightarrow> os_value \<Rightarrow> (vstack \<Rightarrow> vstack option) \<Rightarrow> nat \<Rightarrow> vstack \<Rightarrow> vstack option" where
  "division_by_zero_store cached b message raise a s =
     (let frame = stack_func_locals s in
      Option.bind (pushStackValue b message s) (\<lambda>s.
      Option.bind (raise s) (\<lambda>s.
        store_ref ((if cached then frame else stack_func_locals s) + int a) VNull s)))"

text \<open>\<open>i\<close> is the running function and \<open>a\<close> one of its locals.\<close>

definition local_of_frame :: "nat \<Rightarrow> nat \<Rightarrow> vstack \<Rightarrow> bool" where
  "local_of_frame i a s \<longleftrightarrow> stack_func s = Some i \<and> i < length (call_stack_funcs s)
     \<and> locals_stack_pos (call_stack_funcs s ! i) + int a < vs_count s"

lemma push_keeps_frames:
  assumes "pushStackValue b v s = Some s'"
  shows "stack_func s' = stack_func s" "map locals_stack_pos (call_stack_funcs s') = map locals_stack_pos (call_stack_funcs s)"
  using assms
  by (auto simp: pushStackValue_def growStackValues_def os_assert_def Let_def split: bind_splits if_splits)

lemma frame_address:
  assumes "stack_inv s" "stack_func s = Some i"
  shows "stack_func_locals s = vs_base s + locals_stack_pos (call_stack_funcs s ! i)"
    "0 \<le> locals_stack_pos (call_stack_funcs s ! i)" "i < length (call_stack_funcs s)"
  using assms by (auto simp: stack_inv_def frames_ok_def)

lemma store_frame:
  assumes "stack_inv s" "local_of_frame i a s"
  shows "store_ref (stack_func_locals s + int a) v s
    = Some (s\<lparr>vs_buf := (vs_buf s)[nat (locals_stack_pos (call_stack_funcs s ! i)) + a := v]\<rparr>)"
proof -
  have f: "stack_func s = Some i" "locals_stack_pos (call_stack_funcs s ! i) + int a < vs_count s"
    using assms(2) by (auto simp: local_of_frame_def)
  note fr = frame_address [OF assms(1) f(1)]
  have "vs_count s \<le> int (length (vs_buf s))" using assms(1) by (simp add: stack_inv_def)
  with f(2) fr show ?thesis
    by (simp add: store_ref_def fr(1) buf_set_def os_assert_def nat_add_distrib)
qed

lemma store_freed:
  assumes "stack_inv s" "local_of_frame i a s" "stack_inv s'" "block_apart (vs_base s') (vs_capacity s') s"
  shows "store_ref (stack_func_locals s + int a) v s' = None"
proof -
  have f: "stack_func s = Some i" "locals_stack_pos (call_stack_funcs s ! i) + int a < vs_count s"
    using assms(2) by (auto simp: local_of_frame_def)
  have "vs_count s \<le> vs_capacity s" "vs_capacity s' = int (length (vs_buf s'))"
    using assms(1,3) by (simp_all add: stack_inv_def)
  with assms(4) f(2) frame_address [OF assms(1) f(1)] show ?thesis
    by (auto simp: store_ref_def buf_set_def os_assert_def block_apart_def)
qed

text \<open>
  C18: a division by zero writes into freed memory.  If the stack is full when an instruction divides two
  numbers by zero, pushing the message of the exception moves the stack, and null is then stored through the
  address of the frame that was taken before: a write to the block that was freed, whatever else raising the
  exception does to the values.  Taking the address from \<open>Core\<close> again, as the other branch does, stores into
  the local.
\<close>

theorem division_by_zero_frame:
  assumes inv: "stack_inv s" "vs_capacity s < 2 ^ 27" and full: "vs_count s = vs_capacity s"
    and frame: "local_of_frame i a s"
    and fresh: "block_apart b (grown_capacity (vs_capacity s) (vs_capacity s + 1)) s"
    and raise: "\<And>s1. stack_inv s1 \<Longrightarrow> vs_count s1 = vs_count s + 1 \<Longrightarrow> \<exists>s2. raise s1 = Some s2 \<and> stack_inv s2 \<and> vs_base s2 = vs_base s1
      \<and> vs_capacity s2 = vs_capacity s1 \<and> vs_count s \<le> vs_count s2 \<and> stack_func s2 = stack_func s1
      \<and> map locals_stack_pos (call_stack_funcs s2) = map locals_stack_pos (call_stack_funcs s1)"
  shows "division_by_zero_store True b message raise a s = None
    \<and> (\<exists>s' k. division_by_zero_store False b message raise a s = Some s'
      \<and> k = nat (locals_stack_pos (call_stack_funcs s ! i)) + a \<and> k < length (stk s') \<and> stk s' ! k = VNull)"
proof -
  obtain s1 where s1: "pushStackValue b message s = Some s1" "pushed b message s s1"
    using push_step [OF inv(1), of b message] inv(2) by auto
  then have i1: "stack_inv s1" "vs_base s1 = b" "vs_capacity s1 = grown_capacity (vs_capacity s) (vs_capacity s + 1)"
    "vs_count s1 = vs_count s + 1" using full by (simp_all add: pushed_def)
  obtain s2 where s2: "raise s1 = Some s2" "stack_inv s2" "vs_base s2 = vs_base s1" "vs_capacity s2 = vs_capacity s1"
    "vs_count s \<le> vs_count s2" "stack_func s2 = stack_func s1"
    "map locals_stack_pos (call_stack_funcs s2) = map locals_stack_pos (call_stack_funcs s1)"
    using raise [OF i1(1,4)] by blast
  have pos: "map locals_stack_pos (call_stack_funcs s2) = map locals_stack_pos (call_stack_funcs s)"
    "stack_func s2 = stack_func s"
    using s2(6,7) push_keeps_frames [OF s1(1)] by simp_all
  then have len: "length (call_stack_funcs s2) = length (call_stack_funcs s)" by (metis length_map)
  have i: "i < length (call_stack_funcs s)" using frame by (simp add: local_of_frame_def)
  then have at: "locals_stack_pos (call_stack_funcs s2 ! i) = locals_stack_pos (call_stack_funcs s ! i)"
    using pos(1) len by (metis nth_map)
  have f2: "local_of_frame i a s2" using frame s2(5) len pos(2) by (simp add: local_of_frame_def at)
  let ?k = "nat (locals_stack_pos (call_stack_funcs s ! i)) + a"
  have "block_apart (vs_base s2) (vs_capacity s2) s" using fresh by (simp add: s2(3,4) i1(2,3))
  then have "store_ref (stack_func_locals s + int a) VNull s2 = None"
    by (rule store_freed [OF inv(1) frame s2(2)])
  then have "division_by_zero_store True b message raise a s = None"
    by (simp add: division_by_zero_store_def s1(1) s2(1))
  moreover have "division_by_zero_store False b message raise a s = Some (s2\<lparr>vs_buf := (vs_buf s2)[?k := VNull]\<rparr>)"
    using store_frame [OF s2(2) f2] by (simp add: division_by_zero_store_def s1(1) s2(1) at)
  moreover have "?k < length (stk s2)"
  proof -
    have "0 \<le> locals_stack_pos (call_stack_funcs s2 ! i)" using frame_address(2) [OF s2(2)] f2
      by (simp add: local_of_frame_def)
    with f2 at stack_inv_length [OF s2(2)] show ?thesis by (simp add: local_of_frame_def) linarith
  qed
  then have "?k < length (stk (s2\<lparr>vs_buf := (vs_buf s2)[?k := VNull]\<rparr>))"
    "stk (s2\<lparr>vs_buf := (vs_buf s2)[?k := VNull]\<rparr>) ! ?k = VNull" by (simp_all add: stk_def)
  ultimately show ?thesis by blast
qed

theorem division_by_zero_frame_witness:
  "division_by_zero_store True 2000 (VGC 7) (pop 1) 3 full_stack = None"
proof -
  have "division_by_zero_store True 2000 (VGC 7) (pop 1) 3 full_stack = None
    \<and> (\<exists>s' k. division_by_zero_store False 2000 (VGC 7) (pop 1) 3 full_stack = Some s'
      \<and> k = nat (locals_stack_pos (call_stack_funcs full_stack ! 0)) + 3 \<and> k < length (stk s') \<and> stk s' ! k = VNull)"
  proof (rule division_by_zero_frame [OF full_stack_ok(1,2)])
    show "vs_count full_stack = vs_capacity full_stack" "local_of_frame 0 3 full_stack"
      "block_apart 2000 (grown_capacity (vs_capacity full_stack) (vs_capacity full_stack + 1)) full_stack"
      unfolding full_stack_ok(5) by (simp_all add: full_stack_def local_of_frame_def block_apart_def)
    show "\<exists>s2. pop 1 s1 = Some s2 \<and> stack_inv s2 \<and> vs_base s2 = vs_base s1 \<and> vs_capacity s2 = vs_capacity s1
        \<and> vs_count full_stack \<le> vs_count s2 \<and> stack_func s2 = stack_func s1
        \<and> map locals_stack_pos (call_stack_funcs s2) = map locals_stack_pos (call_stack_funcs s1)"
      if "stack_inv s1" "vs_count s1 = vs_count full_stack + 1" for s1
    proof -
      have "vs_count s1 = 17" using that(2) by (simp add: full_stack_def)
      with that(1) show ?thesis
        by (auto simp: pop_def stack_inv_def frames_ok_def full_stack_def split: option.splits)
    qed
  qed
  then show ?thesis ..
qed

end
