(* ===== verification/Spec2Isabelle.thy ===== *)
theory Spec2Isabelle
  imports Prelude Instr Codegen Hashing NumParse Chains RefTables RefCount Interning Numbers PropTable
    QuickSort SortTable ValueStack Vectors Streams Program Collector Sweep Destroy Tokens Lexer Quoting Operators
    Closures Upvalues Expressions CodeWriter CodeFlow CodeShapes CodeEval CodeTail CodeWritten CodeInduct CodeLoops
    CodeBranches CodeCorrect Floats ValueOps Arith ArithLaws Primitives ConstFold StackRefs
begin

text \<open>
  A verification library for ObjectScript (\<open>src/src/objectscript.h\<close>, \<open>src/src/objectscript.cpp\<close>): an embeddable
  script language, compiled to 32-bit register instructions and run by an interpreter with garbage-collected values.

  \<^bold>\<open>The program.\<close>  \<open>Tokenizer::parseText\<close> turns a source text into tokens.  \<open>Compiler\<close> reads the tokens by
  recursive descent (\<open>expect..\<close>), with \<open>finishBinaryOperator\<close> for the operators, into a tree of \<open>Expression\<close> and
  \<open>Scope\<close>; later passes resolve names and assign slots; \<open>writeOpcodes\<close> writes the instructions, \<open>saveToStream\<close> the
  compiled program, and \<open>Program::loadFromStream\<close> reads it.  \<open>Core::execute\<close> runs it on the value stack
  (\<open>stack_values\<close>).  Values are numbers, booleans, null and pointers to \<open>GCValue\<close>s, which are reference counted, listed
  in the table \<open>values\<close> and collected by \<open>gcFreeCandidateValues\<close>.  Strings, user pointers and C functions are interned
  through hash tables of weak references.  Every object has a property table (\<open>Core::Table\<close>) that is a hash table and an
  ordered list at once, and iterators that survive removals.

  \<^bold>\<open>How the model is written.\<close>  A function of the source is a function of the same name where the name is free.  State is
  passed explicitly: records for the fields, maps from addresses for the fields of heap objects.  \<open>None\<close> is a failed
  \<open>OS_ASSERT\<close>, a null or dangling access, an access out of bounds or a call that never returns, so a theorem that ends in
  \<open>Some\<close> excludes all of these.  An \<open>OS_U32\<close> is a \<open>32 word\<close>, an \<open>OS_INT\<close> an \<open>int\<close> with its range written out,
  an \<open>OS_NUMBER\<close> its 64-bit pattern.  What a script or the host may do is an argument of the model: the comparison of a
  sort, a round of the collector during an allocation, the arithmetic of doubles, the reader of an operand.

  \<^bold>\<open>Base.\<close>  \<open>Prelude\<close>: machine types, named collections, generic lemmas.  \<open>Vectors\<close>: the template \<open>Vector\<close> and
  \<open>OS::vector..\<close>, refined to lists.  \<open>Streams\<close>: \<open>StreamWriter\<close>, \<open>StreamReader\<close> and the memory streams; what is
  written is read back.  \<open>Hashing\<close>: \<open>Utils::keyToHash\<close> over one and two buffers, \<open>Utils::cmp\<close>.  \<open>NumParse\<close>: the
  digit scanners and \<open>Utils::parseFloat\<close>.  \<open>Numbers\<close>: the operations on doubles that keys need.

  \<^bold>\<open>Values.\<close>  \<open>Chains\<close>: one pointer-level model of the chained hash table with its growth, and its representation by
  lists of nodes.  \<open>RefTables\<close>: \<open>string_refs\<close>, \<open>userptr_refs\<close>, \<open>cfunc_refs\<close>, \<open>values\<close>, \<open>gc_candidate_values\<close> with
  register, unregister and lookup; the locale \<open>node_registry\<close> is their common contract.  \<open>RefCount\<close>: \<open>retainValue\<close>,
  \<open>releaseValue\<close>, \<open>setValue\<close>; counts stay exact.  \<open>Interning\<close>: \<open>pushStringValue\<close> and \<open>pushUserPointerValue\<close> return
  the one object of a content, also when the collector runs in between.  \<open>PropTable\<close>: \<open>Table::get\<close>, \<open>addTableProperty\<close>,
  \<open>deleteTableProperty\<close>, \<open>clearTable\<close>, the iterators; \<open>prop_inv\<close> is the invariant and \<open>table_contents\<close> the abstraction to
  an ordered association list.  \<open>QuickSort\<close> and \<open>SortTable\<close>: \<open>OS::qsort\<close>, \<open>sortTable\<close>, \<open>sortArray\<close> and the comparisons;
  the locale \<open>comparison\<close> is what sorting needs of a comparison.  \<open>ValueStack\<close>: \<open>stack_values\<close> with growth that re-aims
  the running functions.  \<open>Collector\<close>: the mark phase, which marks exactly what can be reached.  \<open>Sweep\<close>: the
  sweeps around it and \<open>clearValue\<close>; \<open>Destroy\<close>: destroying a value gives back what it holds.  \<open>Closures\<close>: the locals
  of functions as shared objects, captured by function values and kept alive when the function returns.  \<open>Upvalues\<close>:
  every operation on them keeps the counts exact, and the variables keep their values.

  \<^bold>\<open>Front end.\<close>  \<open>Tokens\<close>: the types of tokens and the sorted operator table.  \<open>Lexer\<close>: \<open>parseText\<close> and \<open>parseLines\<close> with
  every kind of token; they return, and they never read outside of the text on the inputs that the safety theorem names.
  \<open>Quoting\<close>: \<open>appendQuotedString\<close> against the tokenizer.  \<open>Operators\<close>: \<open>finishBinaryOperator\<close> with \<open>getExpressionType\<close>,
  \<open>getOpcodeLevel\<close>; trees over operators and operands are its specification.

  \<^bold>\<open>Code generator.\<close>  \<open>Instr\<close>: the instruction word.  \<open>Codegen\<close>: the fusion of moves and \<open>fixLoopBreaks\<close> by themselves.
  \<open>Expressions\<close>: trees and scopes.  \<open>CodeWriter\<close>: \<open>Compiler::writeOpcodes\<close> with everything it calls.  \<open>CodeFlow\<close>: running
  pieces of code with the loop body of \<open>execute\<close>.  \<open>CodeEval\<close>: the meaning of a tree, without code.  \<open>CodeShapes\<close>: from
  pieces of code to bigger ones.  \<open>CodeWritten\<close>, \<open>CodeTail\<close>, \<open>CodeInduct\<close>, \<open>CodeLoops\<close>, \<open>CodeBranches\<close>: the induction over
  the tree.  \<open>CodeCorrect\<close>: the code of a function does what its tree means, through \<open>Program\<close> (\<open>saveToStream\<close>,
  \<open>loadFromStream\<close>) as well.

  \<^bold>\<open>Operators.\<close>  \<open>Floats\<close>: the IEEE arithmetic of the C type \<open>double\<close>, exact on small integers.  \<open>ValueOps\<close>:
  \<open>pushOpResultValue\<close> and \<open>OS::runOp\<close>, the meaning of the operators on values.  \<open>Arith\<close>: the instructions of
  \<open>execute\<close> that compute and compare, which fill the arguments of \<open>CodeFlow\<close>; \<open>ArithLaws\<close>: they agree with \<open>runOp\<close>
  and with their variants for numbers; \<open>Primitives\<close>: the types of their results, and integers.  \<open>ConstFold\<close>: what
  \<open>newBinaryExpression\<close> folds is what the instruction computes.  \<open>StackRefs\<close>: addresses of stack values that are kept
  across a push, and two places where they outlive their block.

  \<^bold>\<open>Lemmas and properties.\<close>  Each theory has the invariant of its component, the step lemmas of its operations and, at its
  end, the properties: refinement of lists, maps and sets by pointer structures; exact reference counts; round trips of
  streams, programs and literals; termination of the scanner, the collector and the sort; safety; and theorems with a
  concrete input for the places where the code does not do what it means to.  Each property with a hypothesis is followed
  or accompanied by an instance of it.

  \<^bold>\<open>Bounds.\<close>  Loops over pointers are \<open>partial_function (option)\<close>, so that they may run forever, and are proved to return
  under the invariant of their structure.  The generated code is proved correct below 131071 instructions and
  constants, the range of a signed 18-bit jump, with the operands in the ranges that the writer asserts.  Reference counts are
  below \<open>2 ^ 31\<close>.  An array to be sorted has fewer than \<open>2 ^ 32\<close> elements: then 30 segments are enough, because the
  smaller part is always sorted first.

  \<^bold>\<open>Not modelled.\<close>  The recursive descent of \<open>Compiler::expect..\<close> apart from the operators, and the passes behind it
  (\<open>postCompile..\<close>): they rewrite a mutable tree with some hundred kinds of nodes; the code generator takes their result under
  conditions (\<open>safe\<close>, the links of scopes) that are decidable on a tree.  The instructions of \<open>Core::execute\<close> that call
  functions and access properties are an argument (\<open>interp_ops\<close>), and so are the methods that implement an operator
  for objects and the function \<open>pow\<close>, which C leaves to its library.  Running out of memory, the file streams, the functions
  visible to scripts, the API of class \<open>OS\<close>, the C++ binder, the extensions and the vendored libraries are not modelled:
  they are calls of the parts that are, or of code outside of the repository.
\<close>

end
